(* ===== verification/Prelude.thy ===== *)
theory Prelude
  imports Main "HOL-Library.Word"
begin

text \<open>
  Shared vocabulary of the broker model: the machine integer types, C strings, the return codes
  of \<^verbatim>\<open>enum mosq_err_t\<close> (src/mqtt-core/lib/mosquitto.h), the message type nibbles of
  src/mqtt-core/lib/mqtt3_protocol.h, the collections the component theories extend, and the
  generic facts on lists they use.
\<close>

unbundle bit_operations_syntax

type_synonym byte = "8 word"
type_synonym uint16 = "16 word"
type_synonym uint32 = "32 word"
type_synonym uint64 = "64 word"

named_theorems wire_simps \<open>unfolding rules of the packet codec\<close>
named_theorems queue_simps \<open>unfolding rules of the client message queues\<close>
named_theorems tree_simps \<open>unfolding rules of the subscription tree\<close>

section \<open>Return codes\<close>

text \<open>
  The code mixes the enumeration with bare integers (\<^verbatim>\<open>return 1\<close>, \<^verbatim>\<open>return 2\<close>,
  \<^verbatim>\<open>return -1\<close>), so a return code is an \<open>int\<close> and the enumeration's members are
  abbreviations of their values.
\<close>

abbreviation "MOSQ_ERR_CONN_PENDING \<equiv> (-1 :: int)"
abbreviation "MOSQ_ERR_SUCCESS \<equiv> (0 :: int)"
abbreviation "MOSQ_ERR_NOMEM \<equiv> (1 :: int)"
abbreviation "MOSQ_ERR_PROTOCOL \<equiv> (2 :: int)"
abbreviation "MOSQ_ERR_INVAL \<equiv> (3 :: int)"
abbreviation "MOSQ_ERR_NO_CONN \<equiv> (4 :: int)"
abbreviation "MOSQ_ERR_CONN_REFUSED \<equiv> (5 :: int)"
abbreviation "MOSQ_ERR_NOT_FOUND \<equiv> (6 :: int)"
abbreviation "MOSQ_ERR_CONN_LOST \<equiv> (7 :: int)"
abbreviation "MOSQ_ERR_TLS \<equiv> (8 :: int)"
abbreviation "MOSQ_ERR_PAYLOAD_SIZE \<equiv> (9 :: int)"
abbreviation "MOSQ_ERR_ERRNO \<equiv> (14 :: int)"
abbreviation "MOSQ_ERR_EAI \<equiv> (15 :: int)"

section \<open>Message types\<close>

abbreviation "CONNECT \<equiv> (0x10 :: byte)"
abbreviation "CONNACK \<equiv> (0x20 :: byte)"
abbreviation "PUBLISH \<equiv> (0x30 :: byte)"
abbreviation "PUBACK \<equiv> (0x40 :: byte)"
abbreviation "PUBREC \<equiv> (0x50 :: byte)"
abbreviation "PUBREL \<equiv> (0x60 :: byte)"
abbreviation "PUBCOMP \<equiv> (0x70 :: byte)"
abbreviation "SUBSCRIBE \<equiv> (0x80 :: byte)"
abbreviation "SUBACK \<equiv> (0x90 :: byte)"
abbreviation "UNSUBSCRIBE \<equiv> (0xA0 :: byte)"
abbreviation "UNSUBACK \<equiv> (0xB0 :: byte)"
abbreviation "PINGREQ \<equiv> (0xC0 :: byte)"
abbreviation "PINGRESP \<equiv> (0xD0 :: byte)"
abbreviation "DISCONNECT \<equiv> (0xE0 :: byte)"

abbreviation "CONNACK_ACCEPTED \<equiv> (0 :: int)"
abbreviation "CONNACK_REFUSED_PROTOCOL_VERSION \<equiv> (1 :: int)"
abbreviation "CONNACK_REFUSED_IDENTIFIER_REJECTED \<equiv> (2 :: int)"
abbreviation "CONNACK_REFUSED_SERVER_UNAVAILABLE \<equiv> (3 :: int)"
abbreviation "CONNACK_REFUSED_BAD_USERNAME_PASSWORD \<equiv> (4 :: int)"
abbreviation "CONNACK_REFUSED_NOT_AUTHORIZED \<equiv> (5 :: int)"

section \<open>Characters, bytes and C strings\<close>

abbreviation "NUL \<equiv> (CHR 0x00 :: char)"

definition char_of_byte :: "byte \<Rightarrow> char" where
  "char_of_byte b = char_of (unat b)"

definition byte_of_char :: "char \<Rightarrow> byte" where
  "byte_of_char c = word_of_nat (of_char c)"

text \<open>What \<^verbatim>\<open>strlen\<close>, \<^verbatim>\<open>strcmp\<close> and \<^verbatim>\<open>strdup\<close> see of a zero-terminated buffer.\<close>

definition c_str :: "byte list \<Rightarrow> string" where
  "c_str bs = takeWhile (\<lambda>c. c \<noteq> NUL) (map char_of_byte bs)"

definition bytes_of_string :: "string \<Rightarrow> byte list" where
  "bytes_of_string s = map byte_of_char s"

lemma char_of_byte_inverse [simp]: "char_of_byte (byte_of_char c) = c"
proof -
  have "(of_char c :: nat) < 2 ^ LENGTH(8)" by (simp add: of_char_of [symmetric])
  then show ?thesis
    by (simp add: char_of_byte_def byte_of_char_def unat_of_nat take_bit_nat_def)
qed

lemma length_bytes_of_string [simp]: "length (bytes_of_string s) = length s"
  by (simp add: bytes_of_string_def)

lemma c_str_bytes_of_string [simp]:
  assumes "NUL \<notin> set s"
  shows "c_str (bytes_of_string s) = s"
proof -
  have "\<And>c. c \<in> set s \<Longrightarrow> c \<noteq> NUL" using assms by blast
  then show ?thesis
    by (simp add: c_str_def bytes_of_string_def o_def)
qed

lemma c_str_no_NUL [simp]: "NUL \<notin> set (c_str bs)"
  by (auto simp: c_str_def dest: set_takeWhileD)

section \<open>Lists\<close>

lemma find_Some_set: "find P xs = Some x \<Longrightarrow> x \<in> set xs \<and> P x"
  by (induction xs) (auto split: if_splits)

lemma find_None_iff_ball: "find P xs = None \<longleftrightarrow> (\<forall>x\<in>set xs. \<not> P x)"
  by (induction xs) auto

lemma find_distinct_key:
  assumes "distinct (map f xs)" and "x \<in> set xs"
  shows "find (\<lambda>y. f y = f x) xs = Some x"
  using assms by (induction xs) force+

end
