(* ===== verification/Wire.thy ===== *)
theory Wire
  imports Prelude
begin

text \<open>
  The packet codec: \<^verbatim>\<open>struct _mosquitto_packet\<close> (src/mqtt-core/lib/mosquitto_internal.h), the
  encoder of the remaining length \<^verbatim>\<open>_mosquitto_packet_alloc\<close>
  (src/mqtt-core/lib/util_mosq.c) and the primitive readers and writers of
  src/mqtt-core/lib/net_mosq.c. Sizes and positions are \<^verbatim>\<open>uint32_t\<close> in the code: they are
  \<open>nat\<close> here and every sum the code forms is cut to 32 bits by \<open>u32\<close>. A write outside the
  allocated packet violates an assertion of the code and aborts the process: the field
  \<open>assert_failed\<close>, which no C field corresponds to, records that. Memory that
  \<^verbatim>\<open>malloc\<close> returns is shown as zero bytes; the theorems on the built packets show that every
  byte of it is overwritten.
\<close>

section \<open>Data\<close>

definition u32 :: "nat \<Rightarrow> nat" where
  "u32 n = n mod 2 ^ 32"

record packet =
  command :: byte
  have_remaining :: bool
  remaining_count :: nat
  is_ws_packet :: bool
  pkt_mid :: uint16
  remaining_mult :: nat
  remaining_length :: nat
  packet_length :: nat
  to_process :: nat
  pos :: nat
  payload :: "byte list option"
  assert_failed :: bool

definition empty_packet :: packet where
  "empty_packet = \<lparr>command = 0, have_remaining = False, remaining_count = 0, is_ws_packet = False,
     pkt_mid = 0, remaining_mult = 0, remaining_length = 0, packet_length = 0, to_process = 0,
     pos = 0, payload = None, assert_failed = False\<rparr>"

definition packet_cleanup :: "packet \<Rightarrow> packet" where
  "packet_cleanup p = p\<lparr>command := 0, have_remaining := False, remaining_count := 0,
     remaining_mult := 1, remaining_length := 0, payload := None, to_process := 0, pos := 0\<rparr>"

section \<open>The remaining length\<close>

function remaining_bytes :: "nat \<Rightarrow> byte list \<Rightarrow> byte list" where
  "remaining_bytes rl acc =
     (let b = word_of_nat (rl mod 128) :: byte;
          rl' = rl div 128;
          b' = (if rl' > 0 then b OR 0x80 else b);
          acc' = acc @ [b']
      in if rl' > 0 \<and> length acc' < 5 then remaining_bytes rl' acc' else acc')"
  by pat_completeness auto
termination
  by (relation "measure (\<lambda>(rl, acc). 5 - length acc)") auto

declare remaining_bytes.simps [simp del]

definition packet_alloc :: "packet \<Rightarrow> int \<times> packet" where
  "packet_alloc p =
     (let rb = remaining_bytes (remaining_length p) [];
          p1 = p\<lparr>payload := None, remaining_count := length rb\<rparr> in
      if length rb = 5 then (MOSQ_ERR_PAYLOAD_SIZE, p1)
      else
        let n = u32 (remaining_length p + 1 + length rb) in
        (MOSQ_ERR_SUCCESS,
         p1\<lparr>packet_length := n,
            payload := Some (take n (command p # rb @ replicate (remaining_length p) 0)),
            pos := 1 + length rb\<rparr>))"

text \<open>One round of the loop that reads the remaining length in \<^verbatim>\<open>_mosquitto_packet_read\<close>.\<close>

definition read_remaining_byte :: "packet \<Rightarrow> byte \<Rightarrow> int + packet" where
  "read_remaining_byte p b =
     (let p1 = p\<lparr>remaining_count := remaining_count p + 1\<rparr> in
      if remaining_count p1 > 4 then Inl MOSQ_ERR_PROTOCOL
      else Inr (p1\<lparr>remaining_length := u32 (remaining_length p + unat (b AND 127) * remaining_mult p),
                   remaining_mult := u32 (remaining_mult p * 128)\<rparr>))"

fun read_remaining :: "packet \<Rightarrow> byte list \<Rightarrow> int + packet \<times> byte list \<times> bool" where
  "read_remaining p [] = Inr (p, [], False)"
| "read_remaining p (b # bs) =
     (case read_remaining_byte p b of Inl rc \<Rightarrow> Inl rc
      | Inr p' \<Rightarrow> if b AND 128 \<noteq> 0 then read_remaining p' bs else Inr (p', bs, True))"

section \<open>Readers\<close>

definition payload_bytes :: "packet \<Rightarrow> byte list" where
  "payload_bytes p = (case payload p of None \<Rightarrow> [] | Some bs \<Rightarrow> bs)"

definition read_byte :: "packet \<Rightarrow> int + byte \<times> packet" where
  "read_byte p =
     (if u32 (pos p + 1) > remaining_length p then Inl MOSQ_ERR_PROTOCOL
      else Inr (payload_bytes p ! pos p, p\<lparr>pos := u32 (pos p + 1)\<rparr>))"

definition read_bytes :: "packet \<Rightarrow> nat \<Rightarrow> int + byte list \<times> packet" where
  "read_bytes p count =
     (if u32 (pos p + count) > remaining_length p then Inl MOSQ_ERR_PROTOCOL
      else Inr (take count (drop (pos p) (payload_bytes p)), p\<lparr>pos := u32 (pos p + count)\<rparr>))"

definition read_uint16 :: "packet \<Rightarrow> int + uint16 \<times> packet" where
  "read_uint16 p =
     (if u32 (pos p + 2) > remaining_length p then Inl MOSQ_ERR_PROTOCOL
      else
        let msb = payload_bytes p ! pos p; lsb = payload_bytes p ! (pos p + 1) in
        Inr (push_bit 8 (ucast msb) + ucast lsb, p\<lparr>pos := u32 (pos p + 2)\<rparr>))"

text \<open>The string is the zero-terminated copy of the bytes.\<close>

definition read_string :: "packet \<Rightarrow> int + string \<times> packet" where
  "read_string p =
     (case read_uint16 p of Inl rc \<Rightarrow> Inl rc
      | Inr (len, p1) \<Rightarrow>
          if u32 (pos p1 + unat len) > remaining_length p1 then Inl MOSQ_ERR_PROTOCOL
          else Inr (c_str (take (unat len) (drop (pos p1) (payload_bytes p1))),
                    p1\<lparr>pos := u32 (pos p1 + unat len)\<rparr>))"

section \<open>Writers\<close>

definition write_bytes :: "packet \<Rightarrow> byte list \<Rightarrow> packet" where
  "write_bytes p bs =
     (if u32 (pos p + length bs) \<le> packet_length p then
        p\<lparr>payload := Some (take (pos p) (payload_bytes p) @ bs @ drop (pos p + length bs) (payload_bytes p)),
          pos := u32 (pos p + length bs)\<rparr>
      else p\<lparr>assert_failed := True\<rparr>)"

definition write_byte :: "packet \<Rightarrow> byte \<Rightarrow> packet" where
  "write_byte p b =
     (if u32 (pos p + 1) \<le> packet_length p then
        p\<lparr>payload := Some ((payload_bytes p)[pos p := b]), pos := u32 (pos p + 1)\<rparr>
      else p\<lparr>assert_failed := True\<rparr>)"

definition MOSQ_MSB :: "uint16 \<Rightarrow> byte" where
  "MOSQ_MSB w = ucast (drop_bit 8 (w AND 0xFF00))"

definition MOSQ_LSB :: "uint16 \<Rightarrow> byte" where
  "MOSQ_LSB w = ucast (w AND 0x00FF)"

definition write_uint16 :: "packet \<Rightarrow> uint16 \<Rightarrow> packet" where
  "write_uint16 p w = write_byte (write_byte p (MOSQ_MSB w)) (MOSQ_LSB w)"

text \<open>\<open>length\<close> bytes of the string are written, whatever its own length.\<close>

definition write_string :: "packet \<Rightarrow> byte list \<Rightarrow> uint16 \<Rightarrow> packet" where
  "write_string p str len = write_bytes (write_uint16 p len) (take (unat len) str)"

section \<open>Bytes of a number\<close>

lemma u32_small [simp]: "n < 4294967296 \<Longrightarrow> u32 n = n"
  by (simp add: u32_def)

lemma and_127: "b AND 127 = take_bit 7 (b :: byte)"
  by (simp add: take_bit_eq_mask mask_numeral)

lemma or_128_and_127: "((b :: byte) OR 128) AND 127 = b AND 127"
proof -
  have "(128 :: byte) AND 127 = 0" by simp
  then show ?thesis by (simp add: bit.conj_disj_distrib2)
qed

lemma or_128_and_128: "((b :: byte) OR 128) AND 128 \<noteq> 0"
proof -
  have "((b :: byte) OR 128) AND 128 = 128" by (simp add: bit.conj_disj_distrib2 and.commute)
  then show ?thesis by simp
qed

lemma unat_and_127_of_nat: "n < 128 \<Longrightarrow> unat ((word_of_nat n :: byte) AND 127) = n"
  by (simp add: and_127 unsigned_take_bit_eq unat_of_nat take_bit_nat_eq_self)

lemma and_128_of_nat:
  assumes "n < 128"
  shows "(word_of_nat n :: byte) AND 128 = 0"
proof -
  have "unat (take_bit 7 (word_of_nat n :: byte)) = unat (word_of_nat n :: byte)"
    using assms by (simp add: unsigned_take_bit_eq unat_of_nat take_bit_nat_eq_self)
  then have "take_bit 7 (word_of_nat n :: byte) = word_of_nat n" by (simp only: word_unat_eq_iff)
  then have "(word_of_nat n :: byte) AND 128 = (word_of_nat n AND 127) AND 128" by (simp add: and_127)
  then show ?thesis by (simp add: and.assoc)
qed

lemma unat_MSB: "unat (MOSQ_MSB w) = unat w div 256"
proof -
  have "drop_bit 8 (w AND push_bit 8 (mask 8)) = drop_bit 8 w"
    by (intro bit_word_eqI) (auto simp: bit_simps dest: bit_imp_le_length)
  then have "drop_bit 8 (w AND 0xFF00) = drop_bit 8 w" by (simp add: mask_numeral)
  moreover have "unat w < 65536" using unsigned_less [of w] by simp
  then have "unat (drop_bit 8 w) = unat w div 256"
    by (simp only: unsigned_drop_bit_eq) (simp add: drop_bit_eq_div take_bit_nat_eq_self)
  moreover have "unat w div 256 < 256" using \<open>unat w < 65536\<close> by simp
  ultimately show ?thesis by (simp add: MOSQ_MSB_def unsigned_ucast_eq take_bit_nat_eq_self)
qed

lemma unat_LSB: "unat (MOSQ_LSB w) = unat w mod 256"
proof -
  have "(0x00FF :: uint16) = mask 8" by (simp add: mask_eq_exp_minus_1)
  then have "w AND 0x00FF = take_bit 8 w" by (simp only: take_bit_eq_mask)
  then show ?thesis
    unfolding MOSQ_LSB_def
    by (simp only: unsigned_ucast_eq unsigned_take_bit_eq) (simp add: take_bit_eq_mod)
qed

lemma uint16_of_bytes: "push_bit 8 (ucast (MOSQ_MSB w)) + ucast (MOSQ_LSB w) = (w :: uint16)"
proof -
  have "push_bit 8 (ucast (MOSQ_MSB w)) + ucast (MOSQ_LSB w) =
      (word_of_nat (256 * unat (MOSQ_MSB w) + unat (MOSQ_LSB w)) :: uint16)"
    by (simp add: push_bit_eq_mult unsigned_of_nat mult.commute)
  then show ?thesis by (simp add: unat_MSB unat_LSB)
qed

section \<open>The remaining length is decoded as it was encoded\<close>

text \<open>One digit: what the encoder writes and what one round of the decoder makes of it.\<close>

definition length_digit :: "nat \<Rightarrow> byte" where
  "length_digit n = (if n div 128 > 0 then word_of_nat (n mod 128) OR 0x80 else word_of_nat (n mod 128))"

lemma length_digit_value: "unat (length_digit n AND 127) = n mod 128"
  using or_128_and_127 unat_and_127_of_nat [of "n mod 128"]
  by (cases "128 \<le> n") (simp_all add: length_digit_def div_greater_zero_iff)

lemma length_digit_more: "length_digit n AND 128 \<noteq> 0 \<longleftrightarrow> 128 \<le> n"
  using or_128_and_128 [of "word_of_nat (n mod 128)"] and_128_of_nat [of "n mod 128"]
  by (cases "128 \<le> n") (simp_all add: length_digit_def div_greater_zero_iff)

lemma remaining_bytes_unfold:
  "remaining_bytes n acc =
     (if 128 \<le> n \<and> length acc < 4 then remaining_bytes (n div 128) (acc @ [length_digit n])
      else acc @ [length_digit n])"
  by (subst remaining_bytes.simps) (simp add: Let_def length_digit_def div_greater_zero_iff)

lemma remaining_bytes_acc: "remaining_bytes n acc = acc @ drop (length acc) (remaining_bytes n acc)"
proof (induction n acc rule: remaining_bytes.induct)
  case (1 n acc)
  show ?case
  proof (cases "128 \<le> n \<and> length acc < 4")
    case True
    have "remaining_bytes (n div 128) (acc @ [length_digit n]) =
        (acc @ [length_digit n]) @ drop (length acc + 1) (remaining_bytes (n div 128) (acc @ [length_digit n]))"
      using "1.IH" [OF refl refl refl refl] True by (simp add: length_digit_def div_greater_zero_iff)
    then have "take (length acc) (remaining_bytes (n div 128) (acc @ [length_digit n])) = acc"
      by (metis append.assoc append_eq_conv_conj)
    then show ?thesis using True by (metis append_take_drop_id remaining_bytes_unfold)
  qed (simp add: remaining_bytes_unfold)
qed

lemma remaining_bytes_head:
  assumes "128 \<le> n" and "length acc < 4"
  shows "drop (length acc) (remaining_bytes n acc) =
     length_digit n # drop (Suc (length acc)) (remaining_bytes (n div 128) (acc @ [length_digit n]))"
proof -
  have "remaining_bytes n acc = remaining_bytes (n div 128) (acc @ [length_digit n])"
    using assms by (simp add: remaining_bytes_unfold [of n acc])
  also have "\<dots> = (acc @ [length_digit n]) @ drop (Suc (length acc)) (remaining_bytes (n div 128) (acc @ [length_digit n]))"
    using remaining_bytes_acc [of "n div 128" "acc @ [length_digit n]"] by simp
  finally show ?thesis by (metis append.assoc append_Cons append_Nil append_eq_conv_conj)
qed

lemma pow128_le: "k \<le> 4 \<Longrightarrow> (128 :: nat) ^ k \<le> 2 ^ 28"
  using power_increasing [of k 4 "128 :: nat"] by simp

lemma read_remaining_digit:
  assumes "remaining_count p < 4" and "remaining_mult p = 128 ^ remaining_count p"
    and "remaining_length p + (n mod 128) * 128 ^ remaining_count p < 2 ^ 28"
  shows "read_remaining_byte p (length_digit n) =
     Inr (p\<lparr>remaining_count := Suc (remaining_count p),
            remaining_length := remaining_length p + (n mod 128) * 128 ^ remaining_count p,
            remaining_mult := 128 ^ Suc (remaining_count p)\<rparr>)"
  using assms pow128_le [of "Suc (remaining_count p)"]
  by (simp add: read_remaining_byte_def length_digit_value Let_def mult.commute)

lemma read_remaining_bytes:
  assumes "length acc < 4" and "n < 128 ^ (4 - length acc)"
    and "remaining_count p = length acc" and "remaining_mult p = 128 ^ length acc"
    and "remaining_length p + n * 128 ^ length acc < 2 ^ 28"
  shows "read_remaining p (drop (length acc) (remaining_bytes n acc) @ rest) =
     Inr (p\<lparr>remaining_count := length (remaining_bytes n acc),
            remaining_length := remaining_length p + n * 128 ^ length acc,
            remaining_mult := 128 ^ length (remaining_bytes n acc)\<rparr>, rest, True) \<and>
     length (remaining_bytes n acc) \<le> 4"
  using assms
proof (induction n acc arbitrary: p rule: remaining_bytes.induct)
  case (1 n acc)
  let ?k = "length acc" and ?d = "length_digit n"
  have split: "n * 128 ^ ?k = (n mod 128) * 128 ^ ?k + (n div 128) * 128 ^ Suc ?k"
  proof -
    have "n * 128 ^ ?k = (n mod 128 + n div 128 * 128) * 128 ^ ?k" by (simp only: mod_div_mult_eq)
    then show ?thesis by (simp only: add_mult_distrib power_Suc mult.assoc mult.left_commute)
  qed
  let ?p = "p\<lparr>remaining_count := Suc ?k,
            remaining_length := remaining_length p + (n mod 128) * 128 ^ ?k, remaining_mult := 128 ^ Suc ?k\<rparr>"
  have step: "read_remaining_byte p ?d = Inr ?p"
    using read_remaining_digit [of p n] "1.prems" split by simp
  show ?case
  proof (cases "128 \<le> n")
    case False
    then have "remaining_bytes n acc = acc @ [?d]" by (simp add: remaining_bytes_unfold)
    with step False "1.prems"(1) show ?thesis by (simp add: length_digit_more)
  next
    case True
    have k3: "?k < 3"
    proof (rule ccontr)
      assume "\<not> ?k < 3"
      with "1.prems"(1) have "?k = 3" by simp
      with "1.prems"(2) True show False by simp
    qed
    then have "4 - ?k = Suc (3 - ?k)" by simp
    then have "n div 128 < 128 ^ (3 - ?k)" using "1.prems"(2) by (simp add: less_mult_imp_div_less mult.commute)
    moreover have rb: "remaining_bytes n acc = remaining_bytes (n div 128) (acc @ [?d])"
      using True k3 by (simp add: remaining_bytes_unfold [of n acc])
    ultimately have "read_remaining ?p (drop (Suc ?k) (remaining_bytes n acc) @ rest) =
        Inr (?p\<lparr>remaining_count := length (remaining_bytes n acc),
            remaining_length := remaining_length p + (n mod 128) * 128 ^ ?k + (n div 128) * 128 ^ Suc ?k,
            remaining_mult := 128 ^ length (remaining_bytes n acc)\<rparr>, rest, True) \<and>
        length (remaining_bytes n acc) \<le> 4"
      using "1.IH" [OF refl refl refl refl, of ?p] True k3 "1.prems"(5) split
      by (simp add: length_digit_def div_greater_zero_iff)
    with step True k3 rb show ?thesis
      using remaining_bytes_head [of n acc] split by (simp add: length_digit_more algebra_simps)
  qed
qed

section \<open>Readers stay inside the packet\<close>

definition unread :: "packet \<Rightarrow> byte list" where
  "unread p = drop (pos p) (payload_bytes p)"

text \<open>
  An incoming packet whose payload has been received: the buffer has the announced length, which
  four length digits bound by \<open>2 ^ 28\<close>, and the cursor is inside it.
\<close>

definition in_packet_ok :: "packet \<Rightarrow> bool" where
  "in_packet_ok p \<longleftrightarrow> length (payload_bytes p) = remaining_length p \<and> remaining_length p < 2 ^ 28 \<and>
     pos p \<le> remaining_length p"

lemma payload_bytes_pos [simp]: "payload_bytes (p\<lparr>pos := n\<rparr>) = payload_bytes p"
  by (simp add: payload_bytes_def)

lemma length_unread: "in_packet_ok p \<Longrightarrow> length (unread p) = remaining_length p - pos p"
  by (simp add: unread_def in_packet_ok_def)

lemma in_packet_ok_advance:
  "in_packet_ok p \<Longrightarrow> n \<le> length (unread p) \<Longrightarrow>
     in_packet_ok (p\<lparr>pos := pos p + n\<rparr>) \<and> unread (p\<lparr>pos := pos p + n\<rparr>) = drop n (unread p)"
  by (auto simp: in_packet_ok_def unread_def add.commute)

lemma read_byte_ok:
  assumes "in_packet_ok p"
  shows "read_byte p = (case unread p of [] \<Rightarrow> Inl MOSQ_ERR_PROTOCOL | b # _ \<Rightarrow> Inr (b, p\<lparr>pos := pos p + 1\<rparr>))"
proof (cases "pos p < remaining_length p")
  case True
  with assms have "unread p = payload_bytes p ! pos p # drop (Suc (pos p)) (payload_bytes p)"
    by (simp add: unread_def in_packet_ok_def Cons_nth_drop_Suc)
  with True assms show ?thesis by (simp add: read_byte_def in_packet_ok_def)
next
  case False
  with assms have "unread p = []" by (simp add: unread_def in_packet_ok_def)
  with False assms show ?thesis by (simp add: read_byte_def in_packet_ok_def)
qed

lemma read_bytes_ok:
  assumes "in_packet_ok p" and "n < 2 ^ 31"
  shows "read_bytes p n =
     (if n \<le> length (unread p) then Inr (take n (unread p), p\<lparr>pos := pos p + n\<rparr>) else Inl MOSQ_ERR_PROTOCOL)"
  using assms by (auto simp: read_bytes_def unread_def in_packet_ok_def)

lemma read_uint16_ok:
  assumes "in_packet_ok p"
  shows "read_uint16 p =
     (case unread p of m # l # _ \<Rightarrow> Inr (push_bit 8 (ucast m) + ucast l, p\<lparr>pos := pos p + 2\<rparr>)
      | _ \<Rightarrow> Inl MOSQ_ERR_PROTOCOL)"
proof (cases "pos p + 2 \<le> remaining_length p")
  case True
  with assms have "unread p = payload_bytes p ! pos p # payload_bytes p ! (pos p + 1) # drop (pos p + 2) (payload_bytes p)"
    by (simp add: unread_def in_packet_ok_def Cons_nth_drop_Suc)
  with True assms show ?thesis by (simp add: read_uint16_def in_packet_ok_def Let_def)
next
  case False
  with assms have "length (unread p) < 2" by (simp add: length_unread)
  then have "(case unread p of m # l # _ \<Rightarrow> Inr (push_bit 8 (ucast m) + ucast l, p\<lparr>pos := pos p + 2\<rparr>)
      | _ \<Rightarrow> Inl MOSQ_ERR_PROTOCOL) = (Inl MOSQ_ERR_PROTOCOL :: int + uint16 \<times> packet)"
    by (auto split: list.splits)
  with False assms show ?thesis by (simp add: read_uint16_def in_packet_ok_def)
qed

lemma read_string_ok:
  assumes "in_packet_ok p"
  shows "read_string p =
     (case unread p of
        m # l # bs \<Rightarrow>
          let n = unat (push_bit 8 (ucast m) + ucast l :: uint16) in
          if n \<le> length bs then Inr (c_str (take n bs), p\<lparr>pos := pos p + 2 + n\<rparr>) else Inl MOSQ_ERR_PROTOCOL
      | _ \<Rightarrow> Inl MOSQ_ERR_PROTOCOL)"
proof (cases "\<exists>m l bs. unread p = m # l # bs")
  case True
  then obtain m l bs where u: "unread p = m # l # bs" by blast
  let ?w = "push_bit 8 (ucast m) + ucast l :: uint16" and ?p = "p\<lparr>pos := pos p + 2\<rparr>"
  have ok: "in_packet_ok ?p" and up: "unread ?p = bs"
    using in_packet_ok_advance [OF assms, of 2] u by simp_all
  have "unat ?w < 2 ^ 16" using unsigned_less [of ?w] by simp
  with ok up have "u32 (pos ?p + unat ?w) > remaining_length ?p \<longleftrightarrow> \<not> unat ?w \<le> length bs"
    using length_unread [OF ok] by (auto simp: in_packet_ok_def)
  with ok up u assms \<open>unat ?w < 2 ^ 16\<close> show ?thesis
    by (auto simp: read_string_def read_uint16_ok Let_def in_packet_ok_def unread_def)
next
  case False
  then have "unread p = [] \<or> (\<exists>b. unread p = [b])" by (metis neq_Nil_conv)
  with assms show ?thesis by (auto simp: read_string_def read_uint16_ok)
qed

section \<open>Writers fill the packet from the front\<close>

definition written :: "packet \<Rightarrow> byte list" where
  "written p = take (pos p) (payload_bytes p)"

definition out_packet_ok :: "packet \<Rightarrow> bool" where
  "out_packet_ok p \<longleftrightarrow> length (payload_bytes p) = packet_length p \<and> packet_length p < 2 ^ 29 \<and>
     pos p \<le> packet_length p \<and> \<not> assert_failed p"

text \<open>\<open>extends p bs p'\<close>: \<open>p'\<close> is \<open>p\<close> with \<open>bs\<close> written at its cursor and nothing else changed.\<close>

definition extends :: "packet \<Rightarrow> byte list \<Rightarrow> packet \<Rightarrow> bool" where
  "extends p bs p' \<longleftrightarrow> out_packet_ok p' \<and> written p' = written p @ bs \<and> pos p' = pos p + length bs \<and>
     packet_length p' = packet_length p \<and> command p' = command p \<and> is_ws_packet p' = is_ws_packet p"

lemma extends_trans: "extends p bs p1 \<Longrightarrow> extends p1 cs p2 \<Longrightarrow> extends p (bs @ cs) p2"
  by (simp add: extends_def)

lemma write_bytes_ok:
  assumes "out_packet_ok p" and "pos p + length bs \<le> packet_length p"
  shows "extends p bs (write_bytes p bs)"
  using assms by (auto simp: write_bytes_def out_packet_ok_def written_def payload_bytes_def extends_def)

lemma write_byte_ok:
  assumes "out_packet_ok p" and "pos p + 1 \<le> packet_length p"
  shows "extends p [b] (write_byte p b)"
  using assms
  by (auto simp: write_byte_def out_packet_ok_def written_def payload_bytes_def take_Suc_conv_app_nth extends_def)

lemma write_uint16_ok:
  assumes "out_packet_ok p" and "pos p + 2 \<le> packet_length p"
  shows "extends p [MOSQ_MSB w, MOSQ_LSB w] (write_uint16 p w)"
proof -
  have p1: "extends p [MOSQ_MSB w] (write_byte p (MOSQ_MSB w))"
    using assms by (intro write_byte_ok) auto
  moreover have "extends (write_byte p (MOSQ_MSB w)) [MOSQ_LSB w] (write_uint16 p w)"
    unfolding write_uint16_def using p1 assms(2) by (intro write_byte_ok) (auto simp: extends_def)
  ultimately show ?thesis using extends_trans by fastforce
qed

lemma write_string_ok:
  assumes "out_packet_ok p" and "pos p + 2 + unat len \<le> packet_length p" and "unat len \<le> length str"
  shows "extends p ([MOSQ_MSB len, MOSQ_LSB len] @ take (unat len) str) (write_string p str len)"
proof -
  have p1: "extends p [MOSQ_MSB len, MOSQ_LSB len] (write_uint16 p len)"
    using assms by (intro write_uint16_ok) auto
  moreover have "extends (write_uint16 p len) (take (unat len) str) (write_string p str len)"
    unfolding write_string_def using p1 assms(2,3) by (intro write_bytes_ok) (auto simp: extends_def)
  ultimately show ?thesis by (rule extends_trans)
qed

lemma packet_alloc_ok:
  assumes "remaining_length p < 2 ^ 28" and "\<not> assert_failed p"
  shows "\<exists>p'. packet_alloc p = (MOSQ_ERR_SUCCESS, p') \<and> out_packet_ok p' \<and>
     written p' = command p # remaining_bytes (remaining_length p) [] \<and>
     pos p' + remaining_length p = packet_length p' \<and> command p' = command p \<and>
     is_ws_packet p' = is_ws_packet p"
proof -
  have "length (remaining_bytes (remaining_length p) []) \<le> 4"
    using read_remaining_bytes [of "[]" "remaining_length p" "empty_packet\<lparr>remaining_mult := 1\<rparr>"] assms
    by (simp add: empty_packet_def)
  with assms show ?thesis
    by (auto simp: packet_alloc_def Let_def out_packet_ok_def written_def payload_bytes_def)
qed

lemma packet_alloc_too_big:
  assumes "remaining_length p \<ge> 2 ^ 28"
  shows "fst (packet_alloc p) = MOSQ_ERR_PAYLOAD_SIZE"
proof -
  let ?n = "remaining_length p"
  have "128 \<le> ?n" "128 \<le> ?n div 128" "128 \<le> ?n div 128 div 128" "128 \<le> ?n div 128 div 128 div 128"
    using assms by (simp_all add: div_mult2_eq [symmetric])
  then have "length (remaining_bytes ?n []) = 5"
    by (simp add: remaining_bytes_unfold)
  then show ?thesis by (simp add: packet_alloc_def Let_def)
qed

end
