(* ===== verification/Broker_State.thy ===== *)
theory Broker_State
  imports Wire
begin

text \<open>
  The data model of the MQTT core: the structs and enumerations of
  src/mqtt-core/lib/mosquitto_internal.h, src/mqtt-core/lib/mosquitto.h and
  src/mqtt-core/src/mosquitto_broker.h, together with the file-level variables of database.c,
  read_handle_server.c and loop.c, as one state record.

  Pointers. A client context is named by its address, a \<open>nat\<close>; the field \<open>ctxs\<close> of the state is
  the memory the addresses refer to. A stored message is named by its address \<open>store_ptr\<close>. The
  singly linked lists (queued client messages, outgoing packets, stored messages, leaves, children)
  are HOL lists in link order; appending at a tail pointer is appending to the list. A uthash table
  is an association list in insertion order, which is its iteration order.

  Environment. The clock is the field \<open>now\<close>. What the successive writes on a connection return is
  the script \<open>io_writes\<close> of its context, and the bytes the transport accepted are \<open>wire_out\<close>. The
  decisions of the broker library are the fields of a \<open>dxl_hooks\<close> record, functions of the history
  \<open>dxl_log\<close> of all the calls made to the library; every call is recorded there. Allocation never
  fails. A failed \<^verbatim>\<open>assert\<close> ends the process; the model records it in the ghost field
  \<open>assert_violated\<close>, which nothing clears.
\<close>

section \<open>Enumerations\<close>

datatype msg_direction = mosq_md_in | mosq_md_out

datatype msg_state =
    mosq_ms_invalid | mosq_ms_publish_qos0 | mosq_ms_publish_qos1 | mosq_ms_wait_for_puback
  | mosq_ms_publish_qos2 | mosq_ms_wait_for_pubrec | mosq_ms_resend_pubrel | mosq_ms_wait_for_pubrel
  | mosq_ms_resend_pubcomp | mosq_ms_wait_for_pubcomp | mosq_ms_send_pubrec | mosq_ms_queued

datatype client_state =
    mosq_cs_new | mosq_cs_connected | mosq_cs_disconnecting | mosq_cs_connect_async
  | mosq_cs_connect_pending | mosq_cs_connect_srv | mosq_cs_ws_dead

datatype protocol = mosq_p_invalid | mosq_p_mqtt31 | mosq_p_mqtt311 | mosq_p_mqtts

datatype cert_type = cert_unknown | cert_broker | cert_client

datatype bridge_direction = bd_out | bd_in | bd_both

datatype bridge_start_type = bst_automatic | bst_lazy | bst_manual | bst_once

text \<open>What one \<^verbatim>\<open>write\<close>, \<^verbatim>\<open>SSL_write\<close> or \<^verbatim>\<open>lws_write\<close> did.\<close>

datatype io_result = Wrote nat | Would_block | Conn_reset | Io_error

section \<open>Messages\<close>

text \<open>A NULL payload is the empty list: the code stores NULL exactly when the length is 0.\<close>

record mosquitto_message =
  mm_topic :: "string option"
  mm_payload :: "byte list"
  mm_client_payload :: "byte list option"
  mm_qos :: int
  mm_retain :: bool

record mosquitto_msg_store =
  store_ptr :: nat
  db_id :: uint64
  ref_count :: int
  source_id :: string
  source_mid :: uint16
  msg :: mosquitto_message

record client_msg =
  cm_store :: nat
  cm_mid :: uint16
  cm_qos :: int
  cm_retain :: bool
  cm_timestamp :: int
  cm_direction :: msg_direction
  cm_state :: msg_state
  cm_dup :: bool
  cm_client_message :: bool

section \<open>Bridges\<close>

record bridge_topic =
  bt_topic :: string
  bt_qos :: int
  bt_direction :: bridge_direction
  local_prefix :: "string option"
  remote_prefix :: "string option"
  local_topic :: string
  remote_topic :: string

record mqtt3_bridge =
  br_name :: string
  addresses :: "(string \<times> nat) list"
  cur_address :: nat
  cur_primary_address :: nat
  primary_address_count :: nat
  primary_retry :: int
  round_robin :: bool
  br_clientid :: "string option"
  br_clean_session :: bool
  topics :: "bridge_topic list"
  topic_remapping :: bool
  restart_t :: int
  start_type :: bridge_start_type
  idle_timeout :: int
  threshold :: int
  lazy_reconnect :: bool
  try_private :: bool
  try_private_accepted :: bool

section \<open>Client contexts\<close>

record mosquitto =
  numericId :: nat
  clean_subs :: bool
  pending_bytes :: bool
  sock :: int
  protocol :: protocol
  address :: "string option"
  ctx_id :: "string option"
  canonical_id :: "string option"
  cert_chain :: "string option"
  keepalive :: uint16
  clean_session :: bool
  cstate :: client_state
  last_msg_in :: int
  last_msg_out :: int
  ping_t :: int
  last_mid :: uint16
  in_packet :: packet
  current_out_packet :: "packet option"
  out_packet :: "packet list"
  will :: "mosquitto_message option"
  ssl :: bool
  tls_certtype :: cert_type
  dxl_client_guid :: "string option"
  dxl_tenant_guid :: "string option"
  cert_hashes :: "string list"
  is_bridge :: bool
  bridge :: "mqtt3_bridge option"
  msgs :: "client_msg list"
  msg_count :: int
  msg_count12 :: int
  listener :: "nat option"
  disconnect_t :: int
  db_index :: nat
  is_dropping :: bool
  packet_count :: uint64
  dxl_flags :: byte
  ctx_subscription_count :: int
  wsi :: bool
  io_writes :: "io_result list"
  wire_out :: "byte list"

abbreviation "INVALID_SOCKET \<equiv> (-1 :: int)"

definition IS_CONTEXT_INVALID :: "mosquitto \<Rightarrow> bool" where
  "IS_CONTEXT_INVALID mosq \<longleftrightarrow> sock mosq = INVALID_SOCKET \<and> \<not> wsi mosq"

abbreviation "DXL_FLAG_OPS \<equiv> (0x04 :: byte)"

section \<open>The subscription tree\<close>

record subleaf =
  leaf_context :: nat
  leaf_qos :: int

text \<open>
  The children hash table holds one entry per key, pointing to the child that bears the key as its
  topic; \<open>children_hash_table\<close> is the list of its keys.
\<close>

datatype subhier = Subhier
  (hier_topic: string)
  (hier_subs: "subleaf list")
  (hier_retained: "nat option")
  (hier_children: "subhier list")
  (children_hash_table: "string list")
  (hash_table_has_pound_wild_card: int)
  (hash_table_has_plus_wild_card: int)

section \<open>Calls to the broker library\<close>

datatype dxl_call =
    dxl_topic_added string
  | dxl_topic_removed string
  | dxl_publish nat string "byte list"
  | dxl_store nat uint64
  | dxl_packet_queue_exceeded nat uint64
  | dxl_insert nat uint64
  | dxl_finalize uint64
  | dxl_client_connected nat
  | dxl_client_disconnected nat
  | dxl_bridge_connected nat
  | dxl_bridge_disconnected nat
  | dxl_sent_bytes nat nat
  | dxl_check_push nat string nat
  | dxl_check_pop nat
  | dxl_maintenance int

text \<open>
  \<open>on_insert_message\<close> returns whether the insertion is allowed, whether the client-specific payload
  is to be sent, and that payload when one was produced. \<open>on_store_message\<close> returns the payload that
  replaces the original one. \<open>update_sent_byte_count\<close> tells whether the client has exceeded its byte limit. The certificate test is \<^verbatim>\<open>mqtt3_config_is_broker_cert\<close>;
  \<open>generate_guid\<close> is the source of client identifiers.
\<close>

record dxl_hooks =
  on_publish_message :: "dxl_call list \<Rightarrow> mosquitto \<Rightarrow> string \<Rightarrow> byte list \<Rightarrow> bool"
  on_store_message :: "dxl_call list \<Rightarrow> mosquitto option \<Rightarrow> mosquitto_msg_store \<Rightarrow> byte list"
  on_pre_insert_message_packet_queue_exceeded :: "dxl_call list \<Rightarrow> mosquitto \<Rightarrow> mosquitto_msg_store \<Rightarrow> bool"
  on_insert_message :: "dxl_call list \<Rightarrow> mosquitto \<Rightarrow> mosquitto_msg_store \<Rightarrow> bool \<times> bool \<times> byte list option"
  is_bridge_connect_allowed :: "dxl_call list \<Rightarrow> mosquitto \<Rightarrow> bool"
  is_tenant_subscription_allowed :: "dxl_call list \<Rightarrow> mosquitto \<Rightarrow> bool"
  update_sent_byte_count :: "dxl_call list \<Rightarrow> mosquitto \<Rightarrow> nat \<Rightarrow> bool"
  is_multi_tenant_mode_enabled :: bool
  broker_tenant_guid :: string
  is_broker_cert :: "string \<Rightarrow> bool"
  generate_guid :: "dxl_call list \<Rightarrow> string"

section \<open>The broker\<close>

record broker =
  ctxs :: "nat \<Rightarrow> mosquitto"
  contexts :: "nat option list"
  clientid_index_hash :: "(string \<times> nat) list"
  last_db_id :: uint64
  subs :: subhier
  msg_store :: "mosquitto_msg_store list"
  msg_store_count :: int
  subscription_count :: int
  retained_count :: int
  upgrade_outgoing_qos :: bool
  queue_qos0_messages :: bool
  message_size_limit :: int
  max_inflight :: int
  max_queued :: int
  max_packet_buffer_size :: uint64
  max_connect_count :: int
  retry_interval :: int
  store_clean_interval :: int
  default_bridge_keepalive :: int
  canonical_client_id_index_hash :: "(string \<times> int) list"
  listener_client_count :: "nat \<Rightarrow> int"
  new_msgs_hash :: "nat list"
  new_clients_hash :: "nat list"
  pending_bytes_hash :: "nat list"
  new_client :: bool
  next_ptr :: nat
  dxl_log :: "dxl_call list"
  now :: int
  assert_violated :: bool

definition upd_ctx :: "nat \<Rightarrow> (mosquitto \<Rightarrow> mosquitto) \<Rightarrow> broker \<Rightarrow> broker" where
  "upd_ctx p f b = b\<lparr>ctxs := (ctxs b)(p := f (ctxs b p))\<rparr>"

definition log_dxl :: "dxl_call \<Rightarrow> broker \<Rightarrow> broker" where
  "log_dxl e b = b\<lparr>dxl_log := dxl_log b @ [e]\<rparr>"

definition stored_msg :: "broker \<Rightarrow> nat \<Rightarrow> mosquitto_msg_store option" where
  "stored_msg b q = find (\<lambda>m. store_ptr m = q) (msg_store b)"

definition upd_store :: "nat \<Rightarrow> (mosquitto_msg_store \<Rightarrow> mosquitto_msg_store) \<Rightarrow> broker \<Rightarrow> broker" where
  "upd_store q f b = b\<lparr>msg_store := map (\<lambda>m. if store_ptr m = q then f m else m) (msg_store b)\<rparr>"

definition with_ctx :: "nat \<Rightarrow> (mosquitto \<Rightarrow> int \<times> mosquitto) \<Rightarrow> broker \<Rightarrow> int \<times> broker" where
  "with_ctx c f b = (let (rc, x) = f (ctxs b c) in (rc, b\<lparr>ctxs := (ctxs b)(c := x)\<rparr>))"

text \<open>\<^verbatim>\<open>_mosquitto_mid_generate\<close> of util_mosq.c: the counter wraps at 16 bits and skips 0.\<close>

definition mid_generate :: "mosquitto \<Rightarrow> uint16 \<times> mosquitto" where
  "mid_generate mosq =
     (let m1 = last_mid mosq + 1; m2 = (if m1 = 0 then m1 + 1 else m1)
      in (m2, mosq\<lparr>last_mid := m2\<rparr>))"

section \<open>The context sets of the main loop\<close>

definition mosquitto_add_new_msgs_set :: "nat \<Rightarrow> broker \<Rightarrow> broker" where
  "mosquitto_add_new_msgs_set c b =
     (if c \<in> set (new_msgs_hash b) then b else b\<lparr>new_msgs_hash := new_msgs_hash b @ [c]\<rparr>)"

definition remove_new_msgs_set :: "nat \<Rightarrow> broker \<Rightarrow> broker" where
  "remove_new_msgs_set c b = b\<lparr>new_msgs_hash := remove1 c (new_msgs_hash b)\<rparr>"

definition mosquitto_add_new_clients_set :: "nat \<Rightarrow> broker \<Rightarrow> broker" where
  "mosquitto_add_new_clients_set c b =
     (if c \<in> set (new_clients_hash b) then b\<lparr>new_client := True\<rparr>
      else b\<lparr>new_client := True, new_clients_hash := new_clients_hash b @ [c]\<rparr>)"

definition remove_new_clients_set :: "nat \<Rightarrow> broker \<Rightarrow> broker" where
  "remove_new_clients_set c b = b\<lparr>new_clients_hash := remove1 c (new_clients_hash b)\<rparr>"

definition mosquitto_add_pending_bytes_set :: "nat \<Rightarrow> broker \<Rightarrow> broker" where
  "mosquitto_add_pending_bytes_set c b =
     (if pending_bytes (ctxs b c) then b
      else upd_ctx c (\<lambda>x. x\<lparr>pending_bytes := True\<rparr>)
        (if c \<in> set (pending_bytes_hash b) then b
         else b\<lparr>pending_bytes_hash := pending_bytes_hash b @ [c]\<rparr>))"

definition mosquitto_remove_pending_bytes_set :: "nat \<Rightarrow> broker \<Rightarrow> broker" where
  "mosquitto_remove_pending_bytes_set c b =
     (if pending_bytes (ctxs b c) then
        upd_ctx c (\<lambda>x. x\<lparr>pending_bytes := False\<rparr>)
          (b\<lparr>pending_bytes_hash := remove1 c (pending_bytes_hash b)\<rparr>)
      else b)"

section \<open>Zeroed memory\<close>

text \<open>A context as \<^verbatim>\<open>calloc\<close> delivers it, and a database before it is opened.\<close>

definition zero_context :: mosquitto where
  "zero_context = \<lparr>numericId = 0, clean_subs = False, pending_bytes = False, sock = 0, protocol = mosq_p_invalid,
     address = None, ctx_id = None, canonical_id = None, cert_chain = None, keepalive = 0, clean_session = False,
     cstate = mosq_cs_new, last_msg_in = 0, last_msg_out = 0, ping_t = 0, last_mid = 0, in_packet = empty_packet,
     current_out_packet = None, out_packet = [], will = None, ssl = False, tls_certtype = cert_unknown,
     dxl_client_guid = None, dxl_tenant_guid = None, cert_hashes = [], is_bridge = False, bridge = None,
     msgs = [], msg_count = 0, msg_count12 = 0, listener = None, disconnect_t = 0, db_index = 0,
     is_dropping = False, packet_count = 0, dxl_flags = 0, ctx_subscription_count = 0, wsi = False,
     io_writes = [], wire_out = []\<rparr>"

definition zero_broker :: broker where
  "zero_broker = \<lparr>ctxs = (\<lambda>_. zero_context), contexts = [], clientid_index_hash = [], last_db_id = 0,
     subs = Subhier '''' [] None [] [] 0 0, msg_store = [], msg_store_count = 0, subscription_count = 0,
     retained_count = 0, upgrade_outgoing_qos = False, queue_qos0_messages = False, message_size_limit = 0,
     max_inflight = 20, max_queued = 100, max_packet_buffer_size = 0, max_connect_count = 0,
     retry_interval = 20, store_clean_interval = 10, default_bridge_keepalive = 60,
     canonical_client_id_index_hash = [], listener_client_count = (\<lambda>_. 0), new_msgs_hash = [],
     new_clients_hash = [], pending_bytes_hash = [], new_client = False, next_ptr = 0, dxl_log = [], now = 0,
     assert_violated = False\<rparr>"

section \<open>A sample environment\<close>

text \<open>A broker library that allows everything and rewrites nothing; concrete instances of the
  theorems use it.\<close>

definition permissive_hooks :: dxl_hooks where
  "permissive_hooks = \<lparr>on_publish_message = (\<lambda>_ _ _ _. True), on_store_message = (\<lambda>_ _ _. []),
     on_pre_insert_message_packet_queue_exceeded = (\<lambda>_ _ _. False),
     on_insert_message = (\<lambda>_ _ _. (True, False, None)), is_bridge_connect_allowed = (\<lambda>_ _. True),
     is_tenant_subscription_allowed = (\<lambda>_ _. True), update_sent_byte_count = (\<lambda>_ _ _. False),
     is_multi_tenant_mode_enabled = False, broker_tenant_guid = '''', is_broker_cert = (\<lambda>_. False),
     generate_guid = (\<lambda>_. ''guid'')\<rparr>"

definition sample_store :: "nat \<Rightarrow> string \<Rightarrow> mosquitto_msg_store" where
  "sample_store q t = \<lparr>store_ptr = q, db_id = 1, ref_count = 0, source_id = ''src'', source_mid = 0,
     msg = \<lparr>mm_topic = Some t, mm_payload = [1, 2], mm_client_payload = None, mm_qos = 1, mm_retain = False\<rparr>\<rparr>"

text \<open>One connected client at address 0 and one stored message at address 1.\<close>

definition sample_broker :: broker where
  "sample_broker = zero_broker\<lparr>ctxs := (\<lambda>_. zero_context)(0 := zero_context\<lparr>sock := 7, ctx_id := Some ''c''\<rparr>),
     msg_store := [sample_store 1 ''a''], next_ptr := 2, max_inflight := 1, max_queued := 1\<rparr>"

end
