(* ===== verification/Net.thy ===== *)
theory Net
  imports Broker_State
begin

text \<open>
  The outgoing side of src/mqtt-core/lib/net_mosq.c: queueing a packet on a context, writing the
  queue to the transport, closing the socket. The laws that the senders rely on are the locale
  \<open>byte_channel\<close>: queueing appends the packet's bytes to the connection's byte stream and writing
  never changes that stream, whatever the transport does.
\<close>

section \<open>Writing one packet\<close>

text \<open>
  The loop \<^verbatim>\<open>while(packet->to_process > 0)\<close>: each round performs one write, the first entry of the
  script (an exhausted script means that the transport is not writable). The result is the packet,
  the rest of the script, the bytes taken by the transport and, unless the packet is finished, the
  code to return.
\<close>

fun write_loop :: "bool \<Rightarrow> packet \<Rightarrow> io_result list \<Rightarrow> packet \<times> io_result list \<times> byte list \<times> int option" where
  "write_loop ws p [] =
     (if to_process p > 0 then (p, [], [], Some (if ws then MOSQ_ERR_ERRNO else MOSQ_ERR_SUCCESS))
      else (p, [], [], None))"
| "write_loop ws p (r # rs) =
     (if to_process p > 0 then
        let todo = take (to_process p) (drop (pos p) (payload_bytes p));
            all = p\<lparr>pos := u32 (pos p + to_process p), to_process := 0\<rparr> in
        case r of
          Wrote n \<Rightarrow>
            if 0 < n then
              if ws then let (p', rs', out, rc) = write_loop ws all rs in (p', rs', todo @ out, rc)
              else
                let k = min n (to_process p);
                    (p', rs', out, rc) =
                      write_loop ws (p\<lparr>to_process := to_process p - k, pos := u32 (pos p + k)\<rparr>) rs
                in (p', rs', take k todo @ out, rc)
            else if ws then (all, rs, todo, Some MOSQ_ERR_SUCCESS)
            else (p, rs, [], Some MOSQ_ERR_ERRNO)
        | Would_block \<Rightarrow> (p, rs, [], Some (if ws then MOSQ_ERR_ERRNO else MOSQ_ERR_SUCCESS))
        | Conn_reset \<Rightarrow> (p, rs, [], Some (if ws then MOSQ_ERR_ERRNO else MOSQ_ERR_CONN_LOST))
        | Io_error \<Rightarrow> (p, rs, [], Some MOSQ_ERR_ERRNO)
      else (p, r # rs, [], None))"

section \<open>Writing the queue\<close>

text \<open>\<open>packet_write_loop\<close> is \<^verbatim>\<open>while(mosq->current_out_packet)\<close> with the current packet and
  the packets queued behind it.\<close>

fun packet_write_loop :: "int \<Rightarrow> packet \<Rightarrow> packet list \<Rightarrow> mosquitto \<Rightarrow> int \<times> mosquitto" where
  "packet_write_loop t p queue mosq =
     (let (p', rs, out, rc) = write_loop (wsi mosq) p (io_writes mosq);
          mosq1 = mosq\<lparr>io_writes := rs, wire_out := wire_out mosq @ out\<rparr> in
      case rc of
        Some r \<Rightarrow> (r, mosq1\<lparr>current_out_packet := Some p', out_packet := queue\<rparr>)
      | None \<Rightarrow>
          let mosq2 = mosq1\<lparr>packet_count := packet_count mosq - 1, last_msg_out := t\<rparr> in
          (case queue of
             [] \<Rightarrow> (MOSQ_ERR_SUCCESS, mosq2\<lparr>current_out_packet := None, out_packet := []\<rparr>)
           | q # qs \<Rightarrow> packet_write_loop t q qs (mosq2\<lparr>current_out_packet := Some q, out_packet := qs\<rparr>)))"

declare packet_write_loop.simps [simp del]

definition packet_write :: "int \<Rightarrow> mosquitto \<Rightarrow> int \<times> mosquitto" where
  "packet_write t mosq =
     (if IS_CONTEXT_INVALID mosq then (MOSQ_ERR_NO_CONN, mosq)
      else
        case current_out_packet mosq of
          Some p \<Rightarrow> packet_write_loop t p (out_packet mosq) mosq
        | None \<Rightarrow>
            (case out_packet mosq of
               [] \<Rightarrow> (MOSQ_ERR_SUCCESS, mosq)
             | p # ps \<Rightarrow> packet_write_loop t p ps (mosq\<lparr>current_out_packet := Some p, out_packet := ps\<rparr>)))"

definition packet_queue :: "int \<Rightarrow> mosquitto \<Rightarrow> packet \<Rightarrow> int \<times> mosquitto" where
  "packet_queue t mosq packet =
     (let p = packet\<lparr>pos := 0, to_process := packet_length packet\<rparr>;
          mosq1 = mosq\<lparr>out_packet := out_packet mosq @ [p], packet_count := packet_count mosq + 1\<rparr>
      in if wsi mosq then (MOSQ_ERR_SUCCESS, mosq1) else packet_write t mosq1)"

text \<open>The result of \<^verbatim>\<open>close\<close> is taken to be 0.\<close>

definition socket_close :: "mosquitto \<Rightarrow> mosquitto" where
  "socket_close mosq =
     (if wsi mosq then mosq\<lparr>cstate := mosq_cs_ws_dead\<rparr>
      else mosq\<lparr>ssl := False, sock := INVALID_SOCKET\<rparr>)"

section \<open>The byte stream of a connection\<close>

text \<open>An outgoing packet in the queue: what is left of it is the tail of its buffer.\<close>

definition sendable :: "packet \<Rightarrow> bool" where
  "sendable p \<longleftrightarrow> pos p + to_process p = length (payload_bytes p) \<and> length (payload_bytes p) < 2 ^ 32"

definition unsent :: "packet \<Rightarrow> byte list" where
  "unsent p = drop (pos p) (payload_bytes p)"

definition queued_packets :: "mosquitto \<Rightarrow> packet list" where
  "queued_packets mosq = (case current_out_packet mosq of None \<Rightarrow> [] | Some p \<Rightarrow> [p]) @ out_packet mosq"

definition stream :: "mosquitto \<Rightarrow> byte list" where
  "stream mosq = wire_out mosq @ concat (map unsent (queued_packets mosq))"

definition out_queue_ok :: "mosquitto \<Rightarrow> bool" where
  "out_queue_ok mosq \<longleftrightarrow> (\<forall>p \<in> set (queued_packets mosq). sendable p) \<and>
     packet_count mosq = word_of_nat (length (queued_packets mosq))"

text \<open>Everything a sender relies on.\<close>

locale byte_channel =
  fixes enqueue :: "'c \<Rightarrow> 'p \<Rightarrow> int \<times> 'c"
    and flush :: "'c \<Rightarrow> int \<times> 'c"
    and bytes :: "'c \<Rightarrow> byte list"
    and pkt :: "'p \<Rightarrow> byte list"
    and ok :: "'c \<Rightarrow> bool"
    and pkt_ok :: "'p \<Rightarrow> bool"
  assumes flush_bytes: "ok c \<Longrightarrow> bytes (snd (flush c)) = bytes c"
    and flush_ok: "ok c \<Longrightarrow> ok (snd (flush c))"
    and enqueue_bytes: "ok c \<Longrightarrow> pkt_ok p \<Longrightarrow> bytes (snd (enqueue c p)) = bytes c @ pkt p"
    and enqueue_ok: "ok c \<Longrightarrow> pkt_ok p \<Longrightarrow> ok (snd (enqueue c p))"
begin

text \<open>A run of sends and flushes: the stream is the concatenation of the packets, in order.\<close>

fun run :: "'c \<Rightarrow> 'p option list \<Rightarrow> 'c" where
  "run c [] = c"
| "run c (None # es) = run (snd (flush c)) es"
| "run c (Some p # es) = run (snd (enqueue c p)) es"

lemma run_bytes:
  assumes "ok c" and "\<forall>p. Some p \<in> set es \<longrightarrow> pkt_ok p"
  shows "bytes (run c es) = bytes c @ concat (map pkt (List.map_filter (\<lambda>x. x) es)) \<and> ok (run c es)"
  using assms
proof (induction c es rule: run.induct)
  case (1 c)
  then show ?case by simp
next
  case (2 c es)
  then show ?case by (simp add: flush_bytes flush_ok)
next
  case (3 c p es)
  then show ?case by (simp add: enqueue_bytes enqueue_ok)
qed

end

section \<open>The queue implements the byte channel\<close>

lemma payload_bytes_queue_fields [simp]:
  "payload_bytes (p\<lparr>to_process := n\<rparr>) = payload_bytes p"
  by (simp add: payload_bytes_def)

lemma sendable_done: "sendable p \<Longrightarrow> to_process p = 0 \<Longrightarrow> unsent p = []"
  by (simp add: sendable_def unsent_def)

lemma sendable_todo: "sendable p \<Longrightarrow> take (to_process p) (drop (pos p) (payload_bytes p)) = unsent p"
  by (auto simp: sendable_def unsent_def)

lemma sendable_advance:
  assumes "sendable p" and "k \<le> to_process p"
  shows "sendable (p\<lparr>to_process := to_process p - k, pos := u32 (pos p + k)\<rparr>)"
    and "unsent p = take k (unsent p) @ unsent (p\<lparr>to_process := to_process p - k, pos := u32 (pos p + k)\<rparr>)"
proof -
  have "u32 (pos p + k) = pos p + k" using assms by (simp add: sendable_def)
  then show "sendable (p\<lparr>to_process := to_process p - k, pos := u32 (pos p + k)\<rparr>)"
    and "unsent p = take k (unsent p) @ unsent (p\<lparr>to_process := to_process p - k, pos := u32 (pos p + k)\<rparr>)"
    using assms by (simp_all add: sendable_def unsent_def add.commute drop_drop [symmetric] del: drop_drop)
qed

lemma sendable_all:
  assumes "sendable p"
  shows "sendable (p\<lparr>pos := u32 (pos p + to_process p), to_process := 0\<rparr>)"
    and "unsent (p\<lparr>pos := u32 (pos p + to_process p), to_process := 0\<rparr>) = []"
  using assms by (simp_all add: sendable_def unsent_def)

lemma write_loop_conserves:
  assumes "sendable p" and "write_loop ws p rs = (p', rs', out, rc)"
  shows "out @ unsent p' = unsent p \<and> sendable p' \<and> (rc = None \<longrightarrow> unsent p' = [])"
  using assms
proof (induction ws p rs arbitrary: p' rs' out rc rule: write_loop.induct)
  case (1 ws p)
  then show ?case by (auto simp: sendable_done split: if_splits)
next
  case (2 ws p r rs)
  show ?case
  proof (cases "to_process p > 0")
    case False
    with "2.prems" show ?thesis by (auto simp: sendable_done)
  next
    case todo: True
    note sp = sendable_todo [OF "2.prems"(1)]
    show ?thesis
    proof (cases r)
      case (Wrote n)
      let ?all = "p\<lparr>pos := u32 (pos p + to_process p), to_process := 0\<rparr>"
      let ?k = "min n (to_process p)"
      let ?part = "p\<lparr>to_process := to_process p - ?k, pos := u32 (pos p + ?k)\<rparr>"
      consider "n = 0" | "0 < n" "ws" | "0 < n" "\<not> ws" by blast
      then show ?thesis
      proof cases
        case 1
        with Wrote todo "2.prems" sp sendable_all [OF "2.prems"(1)] show ?thesis by (auto split: if_splits)
      next
        case 2
        obtain p1 rs1 out1 rc1 where w: "write_loop ws ?all rs = (p1, rs1, out1, rc1)" by (metis prod_cases4)
        with 2 Wrote todo "2.prems" sp "2.IH"(1) [OF todo refl refl Wrote 2 sendable_all(1) [OF "2.prems"(1)] w]
        show ?thesis using sendable_all(2) [OF "2.prems"(1)] by auto
      next
        case 3
        obtain p1 rs1 out1 rc1 where w: "write_loop ws ?part rs = (p1, rs1, out1, rc1)" by (metis prod_cases4)
        note adv = sendable_advance [OF "2.prems"(1), of ?k, OF min.cobounded2]
        from "2.IH"(2) [OF todo refl refl Wrote 3 refl adv(1) w] have
          "out1 @ unsent p1 = unsent ?part \<and> sendable p1 \<and> (rc1 = None \<longrightarrow> unsent p1 = [])" .
        moreover have "p' = p1 \<and> rc = rc1 \<and> out = take ?k (unsent p) @ out1"
          using 3 Wrote todo "2.prems"(2) w sp by auto
        ultimately show ?thesis using adv(2) by simp
      qed
    qed (use todo "2.prems" in auto)
  qed
qed

lemma packet_write_loop_conserves:
  assumes "sendable p" and "\<forall>q \<in> set queue. sendable q"
    and "packet_count mosq = word_of_nat (Suc (length queue))"
  shows "stream (snd (packet_write_loop t p queue mosq)) = wire_out mosq @ unsent p @ concat (map unsent queue) \<and>
     out_queue_ok (snd (packet_write_loop t p queue mosq))"
  using assms
proof (induction t p queue mosq rule: packet_write_loop.induct)
  case (1 t p queue mosq)
  obtain p' rs out rc where w: "write_loop (wsi mosq) p (io_writes mosq) = (p', rs, out, rc)" by (metis prod_cases4)
  note c = write_loop_conserves [OF "1.prems"(1) w]
  show ?case
  proof (cases rc)
    case (Some r)
    with w c "1.prems" show ?thesis
      by (simp add: packet_write_loop.simps stream_def queued_packets_def out_queue_ok_def)
  next
    case rc: None
    show ?thesis
    proof (cases queue)
      case Nil
      with w c rc "1.prems" show ?thesis
        by (auto simp: packet_write_loop.simps stream_def queued_packets_def out_queue_ok_def)
    next
      case (Cons q qs)
      with 1 w c rc show ?thesis
        by (auto simp: packet_write_loop.simps [of t p])
    qed
  qed
qed

lemma stream_step: "stream (mosq\<lparr>current_out_packet := Some p, out_packet := ps\<rparr>) =
   wire_out mosq @ unsent p @ concat (map unsent ps)"
  by (simp add: stream_def queued_packets_def)

lemma packet_write_conserves:
  assumes "out_queue_ok mosq"
  shows "stream (snd (packet_write t mosq)) = stream mosq \<and> out_queue_ok (snd (packet_write t mosq))"
proof (cases "IS_CONTEXT_INVALID mosq")
  case True
  with assms show ?thesis by (simp add: packet_write_def)
next
  case valid: False
  show ?thesis
  proof (cases "current_out_packet mosq")
    case (Some p)
    with assms valid packet_write_loop_conserves [of p "out_packet mosq" mosq t] show ?thesis
      by (simp add: packet_write_def out_queue_ok_def queued_packets_def stream_def)
  next
    case None
    show ?thesis
    proof (cases "out_packet mosq")
      case Nil
      with assms valid None show ?thesis by (simp add: packet_write_def)
    next
      case (Cons p ps)
      with assms valid None
        packet_write_loop_conserves [of p ps "mosq\<lparr>current_out_packet := Some p, out_packet := ps\<rparr>" t]
      show ?thesis
        by (simp add: packet_write_def out_queue_ok_def queued_packets_def stream_def)
    qed
  qed
qed

text \<open>A packet as the senders hand it over: its buffer has the announced length.\<close>

definition packet_complete :: "packet \<Rightarrow> bool" where
  "packet_complete p \<longleftrightarrow> length (payload_bytes p) = packet_length p \<and> packet_length p < 2 ^ 32 \<and>
     \<not> assert_failed p"

lemma packet_completeI:
  "out_packet_ok p \<Longrightarrow> pos p = packet_length p \<Longrightarrow> packet_complete p \<and> payload_bytes p = written p"
  by (auto simp: packet_complete_def out_packet_ok_def written_def)

lemma packet_queue_conserves:
  assumes "out_queue_ok mosq" and "packet_complete p"
  shows "stream (snd (packet_queue t mosq p)) = stream mosq @ payload_bytes p \<and>
     out_queue_ok (snd (packet_queue t mosq p))"
proof -
  let ?p = "p\<lparr>pos := 0, to_process := packet_length p\<rparr>"
  let ?m = "mosq\<lparr>out_packet := out_packet mosq @ [?p], packet_count := packet_count mosq + 1\<rparr>"
  have "sendable ?p" and "unsent ?p = payload_bytes p"
    using assms(2) by (simp_all add: packet_complete_def sendable_def unsent_def)
  then have "stream ?m = stream mosq @ payload_bytes p" and "out_queue_ok ?m"
    using assms(1) by (auto simp: stream_def queued_packets_def out_queue_ok_def split: option.splits)
  then show ?thesis
    using packet_write_conserves [of ?m t] by (simp add: packet_queue_def Let_def)
qed

interpretation net: byte_channel "packet_queue t" "packet_write t" stream payload_bytes out_queue_ok packet_complete
  for t
  by unfold_locales (simp_all add: packet_write_conserves packet_queue_conserves)

section \<open>What the outgoing side leaves alone\<close>

definition io_only :: "mosquitto \<Rightarrow> mosquitto \<Rightarrow> bool" where
  "io_only x y \<longleftrightarrow> y = x\<lparr>current_out_packet := current_out_packet y, out_packet := out_packet y,
     packet_count := packet_count y, last_msg_out := last_msg_out y, io_writes := io_writes y,
     wire_out := wire_out y\<rparr>"

lemma io_only_refl [simp]: "io_only x x"
  by (simp add: io_only_def)

lemma io_only_trans: "io_only x y \<Longrightarrow> io_only y z \<Longrightarrow> io_only x z"
  unfolding io_only_def by (cases x, cases y, cases z) simp

lemma packet_write_loop_io_only: "io_only mosq (snd (packet_write_loop t p queue mosq))"
proof (induction t p queue mosq rule: packet_write_loop.induct)
  case (1 t p queue mosq)
  obtain p' rs out rc where w: "write_loop (wsi mosq) p (io_writes mosq) = (p', rs, out, rc)" by (metis prod_cases4)
  show ?case
  proof (cases rc)
    case (Some r)
    with w show ?thesis by (simp add: packet_write_loop.simps io_only_def)
  next
    case rc: None
    show ?thesis
    proof (cases queue)
      case Nil
      with w rc show ?thesis by (simp add: packet_write_loop.simps io_only_def)
    next
      case (Cons q qs)
      from 1 [OF refl w [symmetric] refl refl refl rc refl Cons] w rc Cons show ?thesis
        by (subst packet_write_loop.simps) (simp, rule io_only_trans [rotated], assumption, simp add: io_only_def)
    qed
  qed
qed

lemma packet_write_io_only: "io_only mosq (snd (packet_write t mosq))"
proof -
  have "io_only mosq (snd (packet_write_loop t p q (mosq\<lparr>current_out_packet := Some p, out_packet := q\<rparr>)))" for p q
    by (rule io_only_trans [OF _ packet_write_loop_io_only]) (simp add: io_only_def)
  then show ?thesis
    by (simp add: packet_write_def packet_write_loop_io_only split: option.splits list.splits)
qed

lemma packet_queue_io_only: "io_only mosq (snd (packet_queue t mosq p))"
proof -
  let ?m = "mosq\<lparr>out_packet := out_packet mosq @ [p\<lparr>pos := 0, to_process := packet_length p\<rparr>],
    packet_count := packet_count mosq + 1\<rparr>"
  have "io_only mosq ?m" by (simp add: io_only_def)
  then show ?thesis
    using io_only_trans [OF _ packet_write_io_only [of ?m t]] by (simp add: packet_queue_def Let_def)
qed

lemma io_onlyE:
  assumes "io_only x y"
  obtains a e f g h i where "y = x\<lparr>current_out_packet := a, out_packet := e, packet_count := f,
    last_msg_out := g, io_writes := h, wire_out := i\<rparr>"
  using assms unfolding io_only_def by blast

lemma io_only_fields:
  assumes "io_only x y"
  shows "msgs y = msgs x" "msg_count y = msg_count x" "msg_count12 y = msg_count12 x"
    "sock y = sock x" "wsi y = wsi x" "ctx_id y = ctx_id x" "is_bridge y = is_bridge x" "bridge y = bridge x"
    "last_mid y = last_mid x" "cstate y = cstate x" "ctx_subscription_count y = ctx_subscription_count x"
    "clean_subs y = clean_subs x" "clean_session y = clean_session x" "is_dropping y = is_dropping x"
    "dxl_tenant_guid y = dxl_tenant_guid x" "db_index y = db_index x" "listener y = listener x"
    "will y = will x" "canonical_id y = canonical_id x" "in_packet y = in_packet x"
  using assms by (auto elim!: io_onlyE)

end
