(* ===== verification/Topics.thy ===== *)
theory Topics
  imports Prelude
begin

text \<open>
  Topic names and topic filters: the checks and the string matcher of
  src/mqtt-core/lib/util_mosq.c and the tokeniser of src/mqtt-core/src/subs.c, against the MQTT
  matching rule on topic levels. A C string is a \<open>string\<close> without its terminator; a NULL
  pointer is \<open>None\<close>.
\<close>

section \<open>Wildcard checks\<close>

fun wildcard_len_loop :: "string \<Rightarrow> nat \<Rightarrow> int" where
  "wildcard_len_loop [] len = (if len > 65535 then MOSQ_ERR_INVAL else MOSQ_ERR_SUCCESS)"
| "wildcard_len_loop (c # str) len =
     (if c = CHR ''+'' \<or> c = CHR ''#'' then MOSQ_ERR_INVAL else wildcard_len_loop str (Suc len))"

definition mosquitto_topic_wildcard_len_check :: "string \<Rightarrow> int" where
  "mosquitto_topic_wildcard_len_check str = wildcard_len_loop str 0"

text \<open>\<open>c\<close> is the character before the cursor, \<open>NUL\<close> at the start; the character after the
  last one is the terminator.\<close>

definition next_char :: "string \<Rightarrow> char" where
  "next_char str = (case str of [] \<Rightarrow> NUL | d # _ \<Rightarrow> d)"

fun wildcard_pos_loop :: "char \<Rightarrow> string \<Rightarrow> nat \<Rightarrow> int" where
  "wildcard_pos_loop c [] len = (if len > 65535 then MOSQ_ERR_INVAL else MOSQ_ERR_SUCCESS)"
| "wildcard_pos_loop c (d # str) len =
     (if d = CHR ''+'' then
        if (c \<noteq> NUL \<and> c \<noteq> CHR ''/'') \<or> (next_char str \<noteq> NUL \<and> next_char str \<noteq> CHR ''/'')
        then MOSQ_ERR_INVAL else wildcard_pos_loop d str (Suc len)
      else if d = CHR ''#'' then
        if (c \<noteq> NUL \<and> c \<noteq> CHR ''/'') \<or> next_char str \<noteq> NUL
        then MOSQ_ERR_INVAL else wildcard_pos_loop d str (Suc len)
      else wildcard_pos_loop d str (Suc len))"

definition mosquitto_topic_wildcard_pos_check :: "string \<Rightarrow> int" where
  "mosquitto_topic_wildcard_pos_check str = wildcard_pos_loop NUL str 0"

section \<open>The string matcher\<close>

text \<open>The inner loop of the \<^verbatim>\<open>+\<close> case: skip to the end of the topic level.\<close>

function skip_level :: "string \<Rightarrow> nat \<Rightarrow> nat" where
  "skip_level topic tpos =
     (if tpos < length topic \<and> topic ! tpos \<noteq> CHR ''/'' then skip_level topic (Suc tpos) else tpos)"
  by pat_completeness auto
termination
  by (relation "measure (\<lambda>(topic, tpos). length topic - tpos)") auto

declare skip_level.simps [simp del]

lemma skip_level_ge: "tpos \<le> skip_level topic tpos"
proof (induction topic tpos rule: skip_level.induct)
  case (1 topic tpos)
  then show ?case by (subst skip_level.simps) (auto simp: Suc_le_eq less_imp_le)
qed

text \<open>
  The main loop. The result is what \<^verbatim>\<open>*result\<close> holds on return: \<open>None\<close> when no
  statement wrote it. On the paths that fall out of the loop \<^verbatim>\<open>multilevel_wildcard\<close> is
  still false, because every path that sets it returns.
\<close>

function matches_loop :: "string \<Rightarrow> string \<Rightarrow> nat \<Rightarrow> nat \<Rightarrow> bool option" where
  "matches_loop sub topic spos tpos =
     (let slen = length sub; tlen = length topic in
      if spos < slen \<and> tpos < tlen then
        if sub ! spos = topic ! tpos then
          if tpos + 1 = tlen \<and> spos + 3 = slen \<and> sub ! (spos + 1) = CHR ''/'' \<and> sub ! (spos + 2) = CHR ''#''
          then Some True
          else if spos + 1 = slen \<and> tpos + 1 = tlen then Some True
          else if tpos + 1 = tlen \<and> spos + 2 = slen \<and> sub ! (spos + 1) = CHR ''+'' then Some True
          else matches_loop sub topic (spos + 1) (tpos + 1)
        else if sub ! spos = CHR ''+'' then
          let tpos' = skip_level topic tpos in
          if tpos' = tlen \<and> spos + 1 = slen then Some True
          else matches_loop sub topic (spos + 1) tpos'
        else if sub ! spos = CHR ''#'' then
          if spos + 1 \<noteq> slen then Some False else Some True
        else Some False
      else if tpos < tlen \<or> spos < slen then Some False
      else None)"
  by pat_completeness auto
termination
  by (relation "measure (\<lambda>(sub, topic, spos, tpos). length sub - spos)") auto

declare matches_loop.simps [simp del]

definition mosquitto_topic_matches_sub :: "string option \<Rightarrow> string option \<Rightarrow> int \<times> bool option" where
  "mosquitto_topic_matches_sub sub topic =
     (case (sub, topic) of
        (Some s, Some t) \<Rightarrow>
          if s \<noteq> [] \<and> t \<noteq> [] \<and>
             ((s ! 0 = CHR ''$'' \<and> t ! 0 \<noteq> CHR ''$'') \<or> (t ! 0 = CHR ''$'' \<and> s ! 0 \<noteq> CHR ''$''))
          then (MOSQ_ERR_SUCCESS, Some False)
          else (MOSQ_ERR_SUCCESS, matches_loop s t 0 0)
      | _ \<Rightarrow> (MOSQ_ERR_INVAL, None))"

section \<open>The tokeniser\<close>

text \<open>
  \<^verbatim>\<open>for(i=start; i<len+1; i++)\<close>: a token ends at a slash and at the terminator
  (\<open>i = len\<close>); the token list is built at its tail.
\<close>

function tokenise_loop :: "string \<Rightarrow> nat \<Rightarrow> nat \<Rightarrow> string list \<Rightarrow> string list" where
  "tokenise_loop subtopic i start tokens =
     (if i < length subtopic + 1 then
        if i = length subtopic \<or> subtopic ! i = CHR ''/'' then
          let tok = (if start \<noteq> i then take (i - start) (drop start subtopic) else '''') in
          tokenise_loop subtopic (i + 1) (i + 1) (tokens @ [tok])
        else tokenise_loop subtopic (i + 1) start tokens
      else tokens)"
  by pat_completeness auto
termination
  by (relation "measure (\<lambda>(subtopic, i, start, tokens). length subtopic + 1 - i)") auto

declare tokenise_loop.simps [simp del]

definition sub_topic_tokenise :: "string \<Rightarrow> string list" where
  "sub_topic_tokenise subtopic =
     (let t0 = (if next_char subtopic \<noteq> CHR ''$'' then [''''] else []);
          t1 = (if next_char subtopic = CHR ''/'' then t0 @ [''''] else t0);
          start = (if next_char subtopic = CHR ''/'' then 1 else 0)
      in tokenise_loop subtopic start start t1)"

section \<open>The matching rule of the protocol\<close>

text \<open>Topic levels, and the rule the MQTT documents give for a filter and a topic name.\<close>

fun split_topic :: "string \<Rightarrow> string list" where
  "split_topic [] = ['''']"
| "split_topic (c # s) =
     (if c = CHR ''/'' then '''' # split_topic s
      else case split_topic s of [] \<Rightarrow> [[c]] | t # ts \<Rightarrow> (c # t) # ts)"

fun join_topic :: "string list \<Rightarrow> string" where
  "join_topic [] = ''''"
| "join_topic [t] = t"
| "join_topic (t # ts) = t @ CHR ''/'' # join_topic ts"

fun levels_match :: "string list \<Rightarrow> string list \<Rightarrow> bool" where
  "levels_match [] ts = (ts = [])"
| "levels_match (f # fs) ts =
     ((f = ''#'' \<and> fs = []) \<or>
      (case ts of [] \<Rightarrow> False | t # ts' \<Rightarrow> (f = ''+'' \<or> f = t) \<and> levels_match fs ts'))"

fun wild_free :: "string list \<Rightarrow> bool" where
  "wild_free ts = (''+'' \<notin> set ts \<and> ''#'' \<notin> set ts)"

text \<open>A filter whose wildcards fill whole levels and whose multi-level wildcard comes last.\<close>

fun filter_ok :: "string list \<Rightarrow> bool" where
  "filter_ok [] = True"
| "filter_ok (f # fs) =
     ((CHR ''+'' \<in> set f \<longrightarrow> f = ''+'') \<and> (CHR ''#'' \<in> set f \<longrightarrow> f = ''#'' \<and> fs = []) \<and> filter_ok fs)"

section \<open>Facts\<close>

lemma split_topic_nonempty [simp]: "split_topic s \<noteq> []"
  by (induction s) (auto split: list.splits)

lemma join_split [simp]: "join_topic (split_topic s) = s"
proof (induction s)
  case (Cons c s)
  obtain t ts where "split_topic s = t # ts" by (cases "split_topic s") auto
  with Cons show ?case by (cases ts) auto
qed simp

lemma split_topic_inject: "split_topic s = split_topic t \<Longrightarrow> s = t"
  by (metis join_split)

lemma split_topic_no_slash: "t \<in> set (split_topic s) \<Longrightarrow> CHR ''/'' \<notin> set t"
  by (induction s arbitrary: t) (auto split: list.splits if_splits)

subsection \<open>The checks decide well-formedness\<close>

lemma wildcard_len_loop_ok:
  "wildcard_len_loop s n =
     (if CHR ''+'' \<notin> set s \<and> CHR ''#'' \<notin> set s \<and> n + length s \<le> 65535
      then MOSQ_ERR_SUCCESS else MOSQ_ERR_INVAL)"
  by (induction s arbitrary: n) auto

text \<open>Where the cursor stands in a topic level: at its start, or after a character of it.\<close>

definition at_level_start :: "char \<Rightarrow> bool" where
  "at_level_start c \<longleftrightarrow> c = NUL \<or> c = CHR ''/''"

definition rest_ok :: "char \<Rightarrow> string \<Rightarrow> bool" where
  "rest_ok c s \<longleftrightarrow>
     (if at_level_start c then filter_ok (split_topic s)
      else CHR ''+'' \<notin> set (hd (split_topic s)) \<and> CHR ''#'' \<notin> set (hd (split_topic s)) \<and>
           filter_ok (tl (split_topic s)))"

lemma next_char_split:
  assumes "NUL \<notin> set s"
  shows "next_char s = NUL \<longleftrightarrow> split_topic s = ['''']"
    and "next_char s = CHR ''/'' \<or> next_char s = NUL \<longleftrightarrow> hd (split_topic s) = ''''"
  using assms by (cases s; force simp: next_char_def split: list.splits)+

lemma wildcard_pos_loop_ok:
  assumes "NUL \<notin> set s"
  shows "wildcard_pos_loop c s n =
     (if rest_ok c s \<and> n + length s \<le> 65535 then MOSQ_ERR_SUCCESS else MOSQ_ERR_INVAL)"
  using assms
proof (induction s arbitrary: c n)
  case (Cons d s)
  obtain t ts where st: "split_topic s = t # ts" by (cases "split_topic s") auto
  from Cons.prems have ns: "NUL \<notin> set s" and d: "d \<noteq> NUL" by auto
  note IH = Cons.IH [OF ns]
  note nc = next_char_split [OF ns, unfolded st, simplified]
  consider "d = CHR ''+''" | "d = CHR ''#''" | "d = CHR ''/''"
    | "d \<noteq> CHR ''+''" "d \<noteq> CHR ''#''" "d \<noteq> CHR ''/''" by blast
  then show ?case
  proof cases
    case 1
    then show ?thesis using nc(2)
      by (cases t) (auto simp: IH rest_ok_def at_level_start_def st)
  next
    case 2
    then show ?thesis using nc(1)
      by (cases "t = '''' \<and> ts = []") (auto simp: IH rest_ok_def at_level_start_def st)
  next
    case 3
    then show ?thesis by (simp add: IH rest_ok_def at_level_start_def st)
  next
    case 4
    then show ?thesis using d by (auto simp: IH rest_ok_def at_level_start_def st)
  qed
qed (simp add: rest_ok_def at_level_start_def)

lemma pos_check_ok:
  assumes "NUL \<notin> set s"
  shows "mosquitto_topic_wildcard_pos_check s =
     (if filter_ok (split_topic s) \<and> length s \<le> 65535 then MOSQ_ERR_SUCCESS else MOSQ_ERR_INVAL)"
  using wildcard_pos_loop_ok [OF assms, of NUL 0]
  by (simp add: mosquitto_topic_wildcard_pos_check_def rest_ok_def at_level_start_def)

lemma len_check_ok:
  "mosquitto_topic_wildcard_len_check s = MOSQ_ERR_SUCCESS \<longleftrightarrow>
     CHR ''+'' \<notin> set s \<and> CHR ''#'' \<notin> set s \<and> length s \<le> 65535"
  by (simp add: mosquitto_topic_wildcard_len_check_def wildcard_len_loop_ok)

lemma set_split_topic: "t \<in> set (split_topic s) \<Longrightarrow> c \<in> set t \<Longrightarrow> c \<in> set s"
proof (induction s arbitrary: t)
  case (Cons d s)
  obtain u us where "split_topic s = u # us" by (cases "split_topic s") auto
  with Cons show ?case by (fastforce split: if_splits)
qed simp

lemma len_check_wild_free:
  assumes "mosquitto_topic_wildcard_len_check s = MOSQ_ERR_SUCCESS"
  shows "wild_free (split_topic s)"
  using assms set_split_topic [of "''+''" s "CHR ''+''"] set_split_topic [of "''#''" s "CHR ''#''"]
  by (auto simp: len_check_ok)

subsection \<open>The tokeniser splits at the slashes\<close>

lemma tokenise_loop_split:
  assumes "start \<le> i" and "i \<le> length s"
  shows "tokenise_loop s i start toks =
     toks @ (take (i - start) (drop start s) @ hd (split_topic (drop i s))) # tl (split_topic (drop i s))"
  using assms
proof (induction s i start toks rule: tokenise_loop.induct)
  case (1 s i start toks)
  show ?case
  proof (cases "i = length s")
    case True
    have "tokenise_loop s (i + 1) (i + 1) us = us" for us
      by (subst tokenise_loop.simps) (simp add: True)
    then show ?thesis
      by (subst tokenise_loop.simps) (simp add: True Let_def)
  next
    case False
    with "1.prems" have i: "i < length s" by simp
    then have dr: "drop i s = s ! i # drop (Suc i) s" by (simp add: Cons_nth_drop_Suc)
    obtain t ts where sp: "split_topic (drop (Suc i) s) = t # ts" by (cases "split_topic (drop (Suc i) s)") auto
    show ?thesis
    proof (cases "s ! i = CHR ''/''")
      case True
      let ?tok = "if start \<noteq> i then take (i - start) (drop start s) else ''''"
      have "tokenise_loop s (i + 1) (i + 1) (toks @ [?tok]) = toks @ ?tok # t # ts"
        using "1.IH"(1) [OF _ _ refl] i True sp by simp
      moreover have "?tok = take (i - start) (drop start s)" by simp
      ultimately show ?thesis
        using i True by (subst tokenise_loop.simps) (simp add: dr sp Let_def)
    next
      case nslash: False
      have "take (Suc i - start) (drop start s) = take (i - start) (drop start s) @ [s ! i]"
        using i "1.prems"(1) by (simp add: Suc_diff_le take_Suc_conv_app_nth)
      then have "tokenise_loop s (i + 1) start toks = toks @ (take (i - start) (drop start s) @ s ! i # t) # ts"
        using "1.IH"(2) i nslash sp "1.prems"(1) by simp
      then show ?thesis
        using i nslash by (subst tokenise_loop.simps) (simp add: dr sp)
    qed
  qed
qed

lemma sub_topic_tokenise_eq:
  "sub_topic_tokenise s = (if next_char s = CHR ''$'' then [] else ['''']) @ split_topic s"
proof (cases s)
  case Nil
  then show ?thesis
    by (simp add: sub_topic_tokenise_def Let_def next_char_def tokenise_loop_split)
next
  case (Cons c s')
  obtain t ts where "split_topic s' = t # ts" by (cases "split_topic s'") auto
  with Cons show ?thesis
    by (auto simp: sub_topic_tokenise_def Let_def next_char_def tokenise_loop_split)
qed

lemma sub_topic_tokenise_nonempty [simp]: "sub_topic_tokenise s \<noteq> []"
  by (simp add: sub_topic_tokenise_eq)

lemma hd_sub_topic_tokenise:
  "hd (sub_topic_tokenise s) = (if next_char s = CHR ''$'' then hd (split_topic s) else '''')"
  by (simp add: sub_topic_tokenise_eq)

subsection \<open>The string matcher against the matching rule\<close>

text \<open>The matcher's loop on the suffixes still to be read.\<close>

fun suffix_match :: "string \<Rightarrow> string \<Rightarrow> bool" where
  "suffix_match (s # ss) (t # ts) =
     (if s = t then
        (ts = [] \<and> (ss = ''/#'' \<or> ss = [] \<or> ss = ''+'')) \<or> suffix_match ss ts
      else if s = CHR ''+'' then
        (let ts' = dropWhile (\<lambda>c. c \<noteq> CHR ''/'') (t # ts) in
         (ts' = [] \<and> ss = []) \<or> suffix_match ss ts')
      else s = CHR ''#'' \<and> ss = [])"
| "suffix_match _ _ = False"

lemma skip_level_drop: "drop (skip_level t n) t = dropWhile (\<lambda>c. c \<noteq> CHR ''/'') (drop n t)"
proof (induction t n rule: skip_level.induct)
  case (1 t n)
  show ?case
  proof (cases "n < length t \<and> t ! n \<noteq> CHR ''/''")
    case True
    then have "drop n t = t ! n # drop (Suc n) t" by (simp add: Cons_nth_drop_Suc)
    with True 1 show ?thesis by (subst skip_level.simps) simp
  next
    case False
    then show ?thesis
      by (subst skip_level.simps) (cases "n < length t"; simp add: Cons_nth_drop_Suc [symmetric])
  qed
qed

lemma skip_level_le: "n \<le> length t \<Longrightarrow> skip_level t n \<le> length t"
proof (induction t n rule: skip_level.induct)
  case (1 t n)
  then show ?case by (subst skip_level.simps) auto
qed

lemma drop_eq_pair:
  "drop (Suc n) s = [a, b] \<longleftrightarrow> n + 3 = length s \<and> s ! (n + 1) = a \<and> s ! (n + 2) = b"
proof -
  have "drop (Suc n) s = [a, b] \<longleftrightarrow> length (drop (Suc n) s) = 2 \<and> drop (Suc n) s ! 0 = a \<and> drop (Suc n) s ! 1 = b"
    by (cases "drop (Suc n) s" rule: remdups_adj.cases) auto
  then show ?thesis by auto
qed

lemma drop_eq_single: "drop (Suc n) s = [a] \<longleftrightarrow> n + 2 = length s \<and> s ! (n + 1) = a"
proof -
  have "drop (Suc n) s = [a] \<longleftrightarrow> length (drop (Suc n) s) = 1 \<and> drop (Suc n) s ! 0 = a"
    by (cases "drop (Suc n) s") auto
  then show ?thesis by auto
qed

lemma matches_loop_suffix:
  assumes "sp \<le> length s" and "tp \<le> length t" and "sp < length s \<or> tp < length t"
  shows "matches_loop s t sp tp = Some (suffix_match (drop sp s) (drop tp t))"
  using assms
proof (induction s t sp tp rule: matches_loop.induct)
  case (1 s t sp tp)
  show ?case
  proof (cases "sp < length s \<and> tp < length t")
    case False
    then have "drop sp s = [] \<or> drop tp t = []" using "1.prems" by auto
    then have "\<not> suffix_match (drop sp s) (drop tp t)" by (metis suffix_match.simps(2,3) suffix_match.elims(2) list.distinct(1))
    with False "1.prems" show ?thesis by (subst matches_loop.simps) auto
  next
    case True
    then have ds: "drop sp s = s ! sp # drop (Suc sp) s" and dt: "drop tp t = t ! tp # drop (Suc tp) t"
      by (simp_all add: Cons_nth_drop_Suc)
    show ?thesis
    proof (cases "s ! sp = t ! tp")
      case eq: True
      have l3: "drop (Suc sp) s = ''/#'' \<longleftrightarrow> sp + 3 = length s \<and> s ! (sp + 1) = CHR ''/'' \<and> s ! (sp + 2) = CHR ''#''"
        by (rule drop_eq_pair)
      have l2: "drop (Suc sp) s = ''+'' \<longleftrightarrow> sp + 2 = length s \<and> s ! (sp + 1) = CHR ''+''"
        by (rule drop_eq_single)
      show ?thesis
        using True eq "1.IH"(1) [OF refl refl]
        by (subst matches_loop.simps) (auto simp: ds dt l3 l2 Let_def)
    next
      case ne: False
      show ?thesis
      proof (cases "s ! sp = CHR ''+''")
        case plus: True
        let ?tp = "skip_level t tp"
        have dw: "drop ?tp t = dropWhile (\<lambda>c. c \<noteq> CHR ''/'') (drop tp t)" by (rule skip_level_drop)
        have le: "?tp \<le> length t" using skip_level_le [of tp t] True by simp
        show ?thesis
        proof (cases "?tp = length t \<and> sp + 1 = length s")
          case True
          with dw ne plus \<open>sp < length s \<and> tp < length t\<close> show ?thesis
            by (subst matches_loop.simps) (simp add: ds dt Let_def)
        next
          case False
          with True ne plus le "1.IH"(2) [OF refl refl]
          have "matches_loop s t (sp + 1) ?tp = Some (suffix_match (drop (Suc sp) s) (drop ?tp t))"
            by auto
          moreover have "matches_loop s t sp tp = matches_loop s t (sp + 1) ?tp"
            using False True ne plus by (subst matches_loop.simps) (auto simp: Let_def)
          moreover have "suffix_match (drop sp s) (drop tp t) = suffix_match (drop (Suc sp) s) (drop ?tp t)"
          proof -
            have ndw: "dropWhile (\<lambda>c. c \<noteq> CHR ''/'') (t ! tp # drop (Suc tp) t) = drop ?tp t"
              by (simp only: dw dt)
            have "suffix_match (drop sp s) (drop tp t) \<longleftrightarrow>
                (drop ?tp t = [] \<and> drop (Suc sp) s = []) \<or> suffix_match (drop (Suc sp) s) (drop ?tp t)"
              unfolding ds dt suffix_match.simps Let_def ndw using ne plus by simp
            moreover have "\<not> (drop ?tp t = [] \<and> drop (Suc sp) s = [])" using False le True by auto
            ultimately show ?thesis by blast
          qed
          ultimately show ?thesis by simp
        qed
      next
        case False
        with True ne show ?thesis
          by (subst matches_loop.simps) (auto simp: ds dt Let_def)
      qed
    qed
  qed
qed

text \<open>
  \<open>mid_match\<close> is the matching rule inside a level: the rest of the current level has to be
  equal, the levels after it match by the rule.
\<close>

definition mid_match :: "string \<Rightarrow> string \<Rightarrow> bool" where
  "mid_match s t \<longleftrightarrow> hd (split_topic s) = hd (split_topic t) \<and>
     levels_match (tl (split_topic s)) (tl (split_topic t))"

lemma mid_match_slash [simp]:
  "mid_match (CHR ''/'' # s) (CHR ''/'' # t) \<longleftrightarrow> levels_match (split_topic s) (split_topic t)"
  by (simp add: mid_match_def)

lemma split_topic_Cons_noslash:
  "c \<noteq> CHR ''/'' \<Longrightarrow> split_topic (c # s) = (c # hd (split_topic s)) # tl (split_topic s)"
  by (cases "split_topic s") auto

lemma mid_match_Cons:
  "c \<noteq> CHR ''/'' \<Longrightarrow> mid_match (c # s) (c # t) \<longleftrightarrow> mid_match s t"
  by (simp add: mid_match_def split_topic_Cons_noslash del: split_topic.simps)

lemma split_topic_dropWhile:
  "split_topic t = takeWhile (\<lambda>c. c \<noteq> CHR ''/'') t #
     (case dropWhile (\<lambda>c. c \<noteq> CHR ''/'') t of [] \<Rightarrow> [] | _ # t' \<Rightarrow> split_topic t')"
  by (induction t) auto

lemma mid_match_imp_levels:
  "mid_match s t \<Longrightarrow> levels_match (split_topic s) (split_topic t)"
  by (cases "split_topic s"; cases "split_topic t") (auto simp: mid_match_def)

lemma whole_level_tl: "(x \<in> set (d # h) \<longrightarrow> d # h = [x]) \<Longrightarrow> x \<notin> set h"
  by auto

lemma rest_ok_Cons:
  assumes "rest_ok c (d # s)" and "d \<noteq> CHR ''/''" and "d \<noteq> NUL"
  shows "rest_ok d s" and "d = CHR ''+'' \<Longrightarrow> at_level_start c \<and> hd (split_topic s) = ''''"
proof -
  obtain h hs where s: "split_topic s = h # hs" by (cases "split_topic s") auto
  with assms(2) have ds: "split_topic (d # s) = (d # h) # hs" by simp
  have d: "\<not> at_level_start d" using assms(2,3) by (simp add: at_level_start_def)
  have "CHR ''+'' \<notin> set h \<and> CHR ''#'' \<notin> set h \<and> filter_ok hs"
  proof (cases "at_level_start c")
    case True
    with assms(1) have "filter_ok ((d # h) # hs)" unfolding rest_ok_def ds by (simp only: if_True)
    then show ?thesis
      unfolding filter_ok.simps using whole_level_tl [of "CHR ''+''" d h] whole_level_tl [of "CHR ''#''" d h] by blast
  next
    case False
    with assms(1) show ?thesis unfolding rest_ok_def ds by simp
  qed
  then show "rest_ok d s" using d unfolding rest_ok_def s by simp
  show "at_level_start c \<and> hd (split_topic s) = ''''" if "d = CHR ''+''"
    using assms(1) that unfolding rest_ok_def ds s by (cases "at_level_start c") simp_all
qed

lemma suffix_match_sound:
  assumes "suffix_match s t" and "rest_ok c s" and "NUL \<notin> set s"
  shows "if at_level_start c then levels_match (split_topic s) (split_topic t) else mid_match s t"
  using assms
proof (induction s t arbitrary: c rule: suffix_match.induct)
  case (1 s ss t ts)
  from "1.prems"(3) have nul: "s \<noteq> NUL" "NUL \<notin> set ss" by auto
  consider (last) "s = t" "ts = []" "ss = ''/#'' \<or> ss = [] \<or> ss = ''+''"
    | (eq) "s = t" "suffix_match ss ts"
    | (plus) "s \<noteq> t" "s = CHR ''+''"
    | (hash) "s \<noteq> t" "s = CHR ''#''" "ss = []"
    using "1.prems"(1) unfolding suffix_match.simps(1) Let_def by (metis (full_types))
  then show ?case
  proof cases
    case last
    then show ?thesis using "1.prems"(2)
      by (cases "s = CHR ''/''") (auto simp: rest_ok_def mid_match_def)
  next
    case eq
    show ?thesis
    proof (cases "s = CHR ''/''")
      case True
      with "1.prems"(2) have "rest_ok s ss" by (auto simp: rest_ok_def at_level_start_def split: if_splits)
      with "1.IH"(1) [OF eq(1,2)] nul eq(1) True show ?thesis
        by (auto simp: at_level_start_def)
    next
      case False
      with "1.prems"(2) nul(1) have "rest_ok s ss" using rest_ok_Cons(1) by blast
      with "1.IH"(1) [OF eq(1,2)] nul False have "mid_match ss ts" by (simp add: at_level_start_def)
      then have "mid_match (s # ss) (t # ts)" using False eq(1) by (simp add: mid_match_Cons)
      then show ?thesis using mid_match_imp_levels by (simp del: split_topic.simps)
    qed
  next
    case plus
    let ?ts = "dropWhile (\<lambda>c. c \<noteq> CHR ''/'') (t # ts)"
    from plus "1.prems"(2) have start: "at_level_start c" and hd: "hd (split_topic ss) = ''''"
      and r: "rest_ok s ss"
      using rest_ok_Cons [OF "1.prems"(2)] nul(1) by auto
    have sp: "split_topic (s # ss) = ''+'' # tl (split_topic ss)"
      using plus hd by (simp add: split_topic_Cons_noslash del: split_topic.simps)
    from plus "1.prems"(1) consider "?ts = [] \<and> ss = []" | "suffix_match ss ?ts"
      unfolding suffix_match.simps(1) Let_def by (metis (full_types))
    then show ?thesis
    proof cases
      case 1
      then show ?thesis using start sp split_topic_dropWhile [of "t # ts"] by simp
    next
      case 2
      with "1.IH"(2) [OF plus refl, of s] r nul plus(2) have "mid_match ss ?ts"
        by (simp add: at_level_start_def del: dropWhile.simps)
      moreover obtain x t' where "?ts = x # t'" using 2 by (cases ?ts) auto
      moreover have "x = CHR ''/''" 
        using hd_dropWhile [of "\<lambda>c. c \<noteq> CHR ''/''" "t # ts"] unfolding \<open>?ts = x # t'\<close> by simp
      ultimately show ?thesis
        using start hd sp split_topic_dropWhile [of "t # ts"] by (simp add: mid_match_def)
    qed
  next
    case hash
    with "1.prems"(2) show ?thesis by (auto simp: rest_ok_def)
  qed
qed auto

lemma split_topic_single: "CHR ''/'' \<notin> set u \<Longrightarrow> split_topic u = [u]"
  by (induction u) auto

lemma split_topic_eq_single_iff: "split_topic s = [u] \<longleftrightarrow> s = u \<and> CHR ''/'' \<notin> set u"
  by (metis split_topic_single join_split join_topic.simps(2) split_topic_no_slash list.set_intros(1))

lemma levels_match_Nil_right: "levels_match fs [] \<longleftrightarrow> fs = [] \<or> fs = [''#'']"
  by (cases fs) simp_all

lemma hash_free_split: "CHR ''#'' \<notin> set s \<Longrightarrow> ''#'' \<notin> set (split_topic s)"
  using set_split_topic [of "''#''" s "CHR ''#''"] by simp blast

lemma levels_match_hash_free_Cons:
  assumes "''#'' \<notin> set (f # fs)"
  shows "levels_match (f # fs) (u # us) \<longleftrightarrow> (f = ''+'' \<or> f = u) \<and> levels_match fs us"
    and "\<not> levels_match (f # fs) []"
  using assms by auto

lemma split_topic_slash [simp]: "split_topic (CHR ''/'' # s) = '''' # split_topic s"
  by simp

text \<open>What is left to match after the first characters, one lemma per kind of character.\<close>

lemma remainder_eq_char:
  assumes "if start then levels_match (split_topic (c # s)) (split_topic (c # t)) else mid_match (c # s) (c # t)"
    and "CHR ''#'' \<notin> set (c # s)" and "c \<noteq> CHR ''+''" and "c \<noteq> CHR ''/''"
  shows "mid_match s t"
proof -
  have "CHR ''#'' \<notin> set s" and "c \<noteq> CHR ''#''" using assms(2) by auto
  then show ?thesis
    using assms(1,3,4) hash_free_split [of s]
    by (cases start) (simp_all add: split_topic_Cons_noslash mid_match_def del: split_topic.simps)
qed

lemma remainder_plus:
  assumes "levels_match (split_topic (CHR ''+'' # s)) (split_topic t)" and "CHR ''#'' \<notin> set s"
    and "hd (split_topic s) = ''''"
  defines "t' \<equiv> dropWhile (\<lambda>c. c \<noteq> CHR ''/'') t"
  shows "s = [] \<and> t' = [] \<or> t' \<noteq> [] \<and> s \<noteq> [] \<and> mid_match s t'"
proof -
  have m: "levels_match (tl (split_topic s)) (case t' of [] \<Rightarrow> [] | _ # u \<Rightarrow> split_topic u)"
    using assms(1,3) unfolding split_topic_dropWhile [of t] t'_def
    by (simp add: split_topic_Cons_noslash del: split_topic.simps)
  show ?thesis
  proof (cases t')
    case Nil
    with m have "tl (split_topic s) = []"
      using hash_free_split [OF assms(2)] by (cases "split_topic s") (auto simp: levels_match_Nil_right)
    then have "split_topic s = ['''']" using assms(3) by (cases "split_topic s") simp_all
    then show ?thesis using Nil by (simp add: split_topic_eq_single_iff)
  next
    case (Cons x u)
    then have "x = CHR ''/''"
      using hd_dropWhile [of "\<lambda>c. c \<noteq> CHR ''/''" t] unfolding t'_def by simp
    with m Cons assms(3) have "mid_match s t'" by (simp add: mid_match_def)
    moreover have "s \<noteq> []"
    proof
      assume "s = []"
      with m Cons have "split_topic u = []" by simp
      then show False by simp
    qed
    ultimately show ?thesis using Cons by simp
  qed
qed

lemma mismatch_char:
  assumes "if start then levels_match (split_topic (c # s)) (split_topic (d # t)) else mid_match (c # s) (d # t)"
    and "CHR ''#'' \<notin> set (c # s)" and "c \<noteq> d"
  shows "start \<and> c = CHR ''+''"
proof -
  obtain h hs where hs: "split_topic s = h # hs" by (cases "split_topic s") auto
  obtain k ks where ks: "split_topic t = k # ks" by (cases "split_topic t") auto
  have "c \<noteq> CHR ''#''" using assms(2) by auto
  then show ?thesis
    using assms(1,3) by (cases start; cases "c = CHR ''/''"; cases "d = CHR ''/''") (auto simp: hs ks mid_match_def)
qed

lemma suffix_match_complete:
  assumes "if at_level_start c then levels_match (split_topic s) (split_topic t) else mid_match s t"
    and "rest_ok c s" and "NUL \<notin> set s" and "CHR ''#'' \<notin> set s" and "CHR ''+'' \<notin> set t"
    and "s \<noteq> [] \<or> t \<noteq> []" and "at_level_start c \<Longrightarrow> t \<noteq> []"
  shows "suffix_match s t"
  using assms
proof (induction s t arbitrary: c rule: suffix_match.induct [case_names 1 no_filter no_topic])
  case (1 s ss t ts)
  have nul: "s \<noteq> NUL" "NUL \<notin> set ss" and nh: "CHR ''#'' \<notin> set ss" and np: "CHR ''+'' \<notin> set ts"
    and t: "t \<noteq> CHR ''+''" using "1.prems"(3,4,5) by auto
  show ?case
  proof (cases "s = t")
    case eq: True
    show ?thesis
    proof (cases "s = CHR ''/''")
      case True
      have m: "levels_match (split_topic ss) (split_topic ts)"
        using "1.prems"(1) unfolding eq [symmetric] True by (cases "at_level_start c") simp_all
      show ?thesis
      proof (cases "ts = []")
        case nil: True
        with m hash_free_split [OF nh] have "split_topic ss = [''''] \<or> split_topic ss = [''+'']"
          by (cases "split_topic ss"; cases "tl (split_topic ss)") (simp_all, blast)
        then have "ss = [] \<or> ss = ''+''" by (simp add: split_topic_eq_single_iff)
        with nil eq show ?thesis by (elim disjE) simp_all
      next
        case False
        have "rest_ok s ss" using "1.prems"(2) True by (simp add: rest_ok_def at_level_start_def split: if_splits)
        with "1.IH"(1) [OF eq, of s] m False nul nh np True show ?thesis
          using eq by (simp add: at_level_start_def)
      qed
    next
      case False
      have m: "mid_match ss ts"
        using "1.prems"(1,4) False t unfolding eq [symmetric] by (intro remainder_eq_char)
      have "rest_ok s ss" using rest_ok_Cons(1) [OF "1.prems"(2) False nul(1)] .
      with "1.IH"(1) [OF eq, of s] m nul nh np False have "ss \<noteq> [] \<or> ts \<noteq> [] \<Longrightarrow> suffix_match ss ts"
        by (simp add: at_level_start_def)
      then show ?thesis using eq by (cases "ss = [] \<and> ts = []") simp_all
    qed
  next
    case ne: False
    have start: "at_level_start c" and s: "s = CHR ''+''"
      using mismatch_char [OF "1.prems"(1,4) ne] by blast+
    have m: "levels_match (split_topic (CHR ''+'' # ss)) (split_topic (t # ts))"
      using "1.prems"(1) start s by simp
    have hd: "hd (split_topic ss) = ''''" and r: "rest_ok s ss"
      using rest_ok_Cons [OF "1.prems"(2)] s by auto
    let ?ts = "dropWhile (\<lambda>c. c \<noteq> CHR ''/'') (t # ts)"
    have np': "CHR ''+'' \<notin> set ?ts" using "1.prems"(5) by (meson set_dropWhileD)
    from remainder_plus [OF m nh hd] have "(?ts = [] \<and> ss = []) \<or> suffix_match ss ?ts"
      using "1.IH"(2) [OF ne s refl, of s] r nul(2) nh np' s by (simp add: at_level_start_def del: dropWhile.simps) blast
    then show ?thesis unfolding suffix_match.simps(1) Let_def using ne s by simp
  qed
next
  case (no_filter t)
  then have "t \<noteq> []" by simp
  with no_filter.prems(1) show ?case
    by (cases "at_level_start c"; cases "split_topic t") (auto simp: mid_match_def split_topic_eq_single_iff)
next
  case (no_topic s)
  then obtain d ss where s: "s = d # ss" by (cases s) auto
  have "\<not> at_level_start c" using no_topic.prems(7) by blast
  with no_topic.prems(1) have "mid_match (d # ss) []" by (simp only: s if_False)
  moreover have "''#'' \<notin> set (split_topic ss)" using no_topic.prems(4) hash_free_split [of ss] s by simp
  ultimately show ?case
    by (cases "d = CHR ''/''"; cases "split_topic ss") (auto simp: mid_match_def levels_match_Nil_right)
qed

subsection \<open>The matcher as a whole\<close>

definition dollar_ok :: "string \<Rightarrow> string \<Rightarrow> bool" where
  "dollar_ok s t \<longleftrightarrow> (next_char s = CHR ''$'' \<longleftrightarrow> next_char t = CHR ''$'')"

lemma matches_sub_suffix:
  assumes "s \<noteq> [] \<or> t \<noteq> []"
  shows "mosquitto_topic_matches_sub (Some s) (Some t) =
     (MOSQ_ERR_SUCCESS, Some ((s \<noteq> [] \<and> t \<noteq> [] \<longrightarrow> dollar_ok s t) \<and> suffix_match s t))"
  using assms matches_loop_suffix [of 0 s 0 t]
  by (cases s; cases t) (auto simp: mosquitto_topic_matches_sub_def dollar_ok_def next_char_def)

lemma suffix_match_nonempty: "suffix_match s t \<Longrightarrow> s \<noteq> [] \<and> t \<noteq> []"
  by (cases s; cases t) auto

text \<open>
  C29. The string matcher that maps bridge topics is sound: for a filter that passes the wildcard
  position check, a topic it reports as matching matches the filter level by level.
\<close>

theorem topic_matches_sub_sound:
  assumes "mosquitto_topic_wildcard_pos_check sub = MOSQ_ERR_SUCCESS" and "NUL \<notin> set sub"
    and "mosquitto_topic_matches_sub (Some sub) (Some topic) = (rc, Some True)"
  shows "levels_match (split_topic sub) (split_topic topic) \<and> dollar_ok sub topic"
proof -
  have ne: "sub \<noteq> [] \<or> topic \<noteq> []"
    using assms(3) by (auto simp: mosquitto_topic_matches_sub_def matches_loop.simps [of "[]" "[]"])
  then have m: "suffix_match sub topic" and d: "sub \<noteq> [] \<and> topic \<noteq> [] \<longrightarrow> dollar_ok sub topic"
    using assms(3) by (simp_all add: matches_sub_suffix)
  have "rest_ok NUL sub"
    using assms(1) pos_check_ok [OF assms(2)] by (simp add: rest_ok_def at_level_start_def split: if_splits)
  from suffix_match_sound [OF m this assms(2)] have "levels_match (split_topic sub) (split_topic topic)"
    by (simp add: at_level_start_def)
  with d suffix_match_nonempty [OF m] show ?thesis by blast
qed

theorem topic_matches_sub_sound_witness:
  "levels_match (split_topic ''a/+/c'') (split_topic ''a/b/c'') \<and> dollar_ok ''a/+/c'' ''a/b/c''"
proof (rule topic_matches_sub_sound)
  show "mosquitto_topic_wildcard_pos_check ''a/+/c'' = MOSQ_ERR_SUCCESS"
    by (simp add: mosquitto_topic_wildcard_pos_check_def next_char_def)
  show "NUL \<notin> set ''a/+/c''" by simp
  show "mosquitto_topic_matches_sub (Some ''a/+/c'') (Some ''a/b/c'') = (MOSQ_ERR_SUCCESS, Some True)"
    by (simp add: matches_sub_suffix dollar_ok_def next_char_def)
qed

text \<open>
  C30. The string matcher is complete on filters without the multi-level wildcard: a topic name
  (non-empty, free of wildcards) that matches such a filter level by level is reported.
\<close>

theorem topic_matches_sub_complete:
  assumes "mosquitto_topic_wildcard_pos_check sub = MOSQ_ERR_SUCCESS" and "NUL \<notin> set sub"
    and "CHR ''#'' \<notin> set sub"
    and "mosquitto_topic_wildcard_len_check topic = MOSQ_ERR_SUCCESS" and "topic \<noteq> []"
    and "levels_match (split_topic sub) (split_topic topic)" and "dollar_ok sub topic"
  shows "mosquitto_topic_matches_sub (Some sub) (Some topic) = (MOSQ_ERR_SUCCESS, Some True)"
proof -
  have "rest_ok NUL sub"
    using assms(1) pos_check_ok [OF assms(2)] by (simp add: rest_ok_def at_level_start_def split: if_splits)
  moreover have "CHR ''+'' \<notin> set topic" using assms(4) by (simp add: len_check_ok)
  ultimately have "suffix_match sub topic"
    using assms(2,3,5,6) by (intro suffix_match_complete [where c = NUL]) (simp_all add: at_level_start_def)
  then show ?thesis using assms(5,7) by (simp add: matches_sub_suffix)
qed

theorem topic_matches_sub_complete_witness:
  "mosquitto_topic_matches_sub (Some ''a/+'') (Some ''a/b'') = (MOSQ_ERR_SUCCESS, Some True)"
  by (rule topic_matches_sub_complete)
    (simp_all add: mosquitto_topic_wildcard_pos_check_def mosquitto_topic_wildcard_len_check_def
      dollar_ok_def next_char_def)

text \<open>
  Where the matcher and the rule part: a filter ending in the multi-level wildcard whose parent
  level was matched by a single-level wildcard, and a topic name ending in a slash.
\<close>

lemma matches_sub_misses_parent:
  "mosquitto_topic_matches_sub (Some ''a/+/#'') (Some ''a/b'') = (MOSQ_ERR_SUCCESS, Some False)"
  "levels_match (split_topic ''a/+/#'') (split_topic ''a/b'')"
  by (simp_all add: matches_sub_suffix)

lemma matches_sub_misses_empty_level:
  "mosquitto_topic_matches_sub (Some ''a/#'') (Some ''a/'') = (MOSQ_ERR_SUCCESS, Some False)"
  "levels_match (split_topic ''a/#'') (split_topic ''a/'')"
  by (simp_all add: matches_sub_suffix)

end
