(* ===== verification/Send.thy ===== *)
theory Send
  imports Net Topics
begin

text \<open>
  The senders: src/mqtt-core/lib/send_mosq.c, src/mqtt-core/lib/send_client_mosq.c and
  src/mqtt-core/src/send_server.c. Each builds one packet and queues it on the context; \<open>t\<close> is the
  time of the call. The theorems give the exact bytes each sender appends to the connection.
\<close>

section \<open>Building and sending\<close>

definition new_packet :: "bool \<Rightarrow> byte \<Rightarrow> nat \<Rightarrow> packet" where
  "new_packet ws cmd len = empty_packet\<lparr>command := cmd, remaining_length := len, is_ws_packet := ws\<rparr>"

definition send_command_with_mid :: "int \<Rightarrow> mosquitto \<Rightarrow> byte \<Rightarrow> uint16 \<Rightarrow> bool \<Rightarrow> int \<times> mosquitto" where
  "send_command_with_mid t mosq cmd mid dup =
     (let (rc, p) = packet_alloc (new_packet (wsi mosq) (if dup then cmd OR 8 else cmd) 2) in
      if rc \<noteq> MOSQ_ERR_SUCCESS then (rc, mosq)
      else packet_queue t mosq
        (p\<lparr>payload := Some ((payload_bytes p)[pos p := MOSQ_MSB mid, pos p + 1 := MOSQ_LSB mid])\<rparr>))"

definition send_simple_command :: "int \<Rightarrow> mosquitto \<Rightarrow> byte \<Rightarrow> int \<times> mosquitto" where
  "send_simple_command t mosq cmd =
     (let (rc, p) = packet_alloc (new_packet (wsi mosq) cmd 0) in
      if rc \<noteq> MOSQ_ERR_SUCCESS then (rc, mosq) else packet_queue t mosq p)"

definition send_pingreq :: "int \<Rightarrow> mosquitto \<Rightarrow> int \<times> mosquitto" where
  "send_pingreq t mosq =
     (let (rc, mosq') = send_simple_command t mosq PINGREQ
      in (rc, if rc = MOSQ_ERR_SUCCESS then mosq'\<lparr>ping_t := t\<rparr> else mosq'))"

definition send_pingresp :: "int \<Rightarrow> mosquitto \<Rightarrow> int \<times> mosquitto" where
  "send_pingresp t mosq = send_simple_command t mosq PINGRESP"

definition send_puback :: "int \<Rightarrow> mosquitto \<Rightarrow> uint16 \<Rightarrow> int \<times> mosquitto" where
  "send_puback t mosq mid = send_command_with_mid t mosq PUBACK mid False"

definition send_pubcomp :: "int \<Rightarrow> mosquitto \<Rightarrow> uint16 \<Rightarrow> int \<times> mosquitto" where
  "send_pubcomp t mosq mid = send_command_with_mid t mosq PUBCOMP mid False"

definition send_pubrec :: "int \<Rightarrow> mosquitto \<Rightarrow> uint16 \<Rightarrow> int \<times> mosquitto" where
  "send_pubrec t mosq mid = send_command_with_mid t mosq PUBREC mid False"

definition send_pubrel :: "int \<Rightarrow> mosquitto \<Rightarrow> uint16 \<Rightarrow> bool \<Rightarrow> int \<times> mosquitto" where
  "send_pubrel t mosq mid dup = send_command_with_mid t mosq (PUBREL OR 2) mid dup"

definition publish_command :: "bool \<Rightarrow> int \<Rightarrow> bool \<Rightarrow> byte" where
  "publish_command dup qos retain =
     PUBLISH OR (if dup then 8 else 0) OR push_bit 1 (word_of_int qos) OR (if retain then 1 else 0)"

definition strlen16 :: "string \<Rightarrow> uint16" where
  "strlen16 s = word_of_nat (length s)"

definition send_real_publish ::
  "int \<Rightarrow> mosquitto \<Rightarrow> uint16 \<Rightarrow> string \<Rightarrow> byte list \<Rightarrow> int \<Rightarrow> bool \<Rightarrow> bool \<Rightarrow> int \<times> mosquitto" where
  "send_real_publish t mosq mid topic pl qos retain dup =
     (let packetlen = u32 (2 + length topic + length pl + (if qos > 0 then 2 else 0));
          (rc, p) = packet_alloc ((new_packet (wsi mosq) (publish_command dup qos retain) packetlen)\<lparr>pkt_mid := mid\<rparr>) in
      if rc \<noteq> MOSQ_ERR_SUCCESS then (rc, mosq)
      else
        let p1 = write_string p (bytes_of_string topic) (strlen16 topic);
            p2 = (if qos > 0 then write_uint16 p1 mid else p1);
            p3 = (if pl \<noteq> [] then write_bytes p2 pl else p2)
        in packet_queue t mosq p3)"

text \<open>The prefix handling of a mapped topic: strip one prefix where it is there, add another.\<close>

definition strip_prefix :: "string option \<Rightarrow> string \<Rightarrow> string" where
  "strip_prefix pre s = (case pre of None \<Rightarrow> s
     | Some x \<Rightarrow> if take (length x) s = x then drop (length x) s else s)"

definition add_prefix :: "string option \<Rightarrow> string \<Rightarrow> string" where
  "add_prefix pre s = (case pre of None \<Rightarrow> s | Some x \<Rightarrow> x @ s)"

fun map_out_topic :: "bridge_topic list \<Rightarrow> string \<Rightarrow> int + string" where
  "map_out_topic [] topic = Inr topic"
| "map_out_topic (cur # ts) topic =
     (if (bt_direction cur = bd_both \<or> bt_direction cur = bd_out) \<and>
         (remote_prefix cur \<noteq> None \<or> local_prefix cur \<noteq> None) then
        let (rc, match) = mosquitto_topic_matches_sub (Some (local_topic cur)) (Some topic) in
        if rc \<noteq> MOSQ_ERR_SUCCESS then Inl rc
        else if match = Some True then
          Inr (add_prefix (remote_prefix cur) (strip_prefix (local_prefix cur) topic))
        else map_out_topic ts topic
      else map_out_topic ts topic)"

definition send_publish ::
  "int \<Rightarrow> mosquitto \<Rightarrow> uint16 \<Rightarrow> string \<Rightarrow> byte list \<Rightarrow> int \<Rightarrow> bool \<Rightarrow> bool \<Rightarrow> int \<times> mosquitto" where
  "send_publish t mosq mid topic pl qos retain dup =
     (if IS_CONTEXT_INVALID mosq then (MOSQ_ERR_NO_CONN, mosq)
      else
        let mapped = (case bridge mosq of
            Some br \<Rightarrow> if topics br \<noteq> [] \<and> topic_remapping br then map_out_topic (topics br) topic else Inr topic
          | None \<Rightarrow> Inr topic) in
        case mapped of Inl rc \<Rightarrow> (rc, mosq)
        | Inr topic' \<Rightarrow> send_real_publish t mosq mid topic' pl qos retain dup)"

section \<open>Bridge side\<close>

definition connect_flags :: "mosquitto_message option \<Rightarrow> bool \<Rightarrow> byte" where
  "connect_flags w clean =
     (if clean then 2 else 0) OR
     (case w of None \<Rightarrow> 0
      | Some m \<Rightarrow> (if mm_retain m then 32 else 0) OR push_bit 3 (word_of_int (mm_qos m) AND 3) OR 4)"

definition will_topic_string :: "mosquitto_message \<Rightarrow> string" where
  "will_topic_string m = (case mm_topic m of None \<Rightarrow> '''' | Some s \<Rightarrow> s)"

definition send_connect :: "int \<Rightarrow> mosquitto \<Rightarrow> uint16 \<Rightarrow> bool \<Rightarrow> int \<times> mosquitto" where
  "send_connect t mosq ka clean =
     (let cid = (case ctx_id mosq of None \<Rightarrow> '''' | Some s \<Rightarrow> s);
          payloadlen = 2 + length cid + (case will mosq of None \<Rightarrow> 0
             | Some w \<Rightarrow> 2 + length (will_topic_string w) + 2 + length (mm_payload w));
          (rc, p) = packet_alloc (new_packet (wsi mosq) CONNECT (u32 (12 + payloadlen))) in
      if rc \<noteq> MOSQ_ERR_SUCCESS then (rc, mosq)
      else
        let version = (case bridge mosq of
                Some br \<Rightarrow> if try_private br \<and> try_private_accepted br then 3 OR 0x80 else 3
              | None \<Rightarrow> 3) :: byte;
            p1 = write_string p (bytes_of_string ''MQIsdp'') (strlen16 ''MQIsdp'');
            p2 = write_byte p1 version;
            p3 = write_byte p2 (connect_flags (will mosq) clean);
            p4 = write_uint16 p3 ka;
            p5 = write_string p4 (bytes_of_string cid) (strlen16 cid);
            p6 = (case will mosq of None \<Rightarrow> p5
                  | Some w \<Rightarrow>
                      write_string
                        (write_string p5 (bytes_of_string (will_topic_string w)) (strlen16 (will_topic_string w)))
                        (mm_payload w) (word_of_nat (length (mm_payload w))))
        in packet_queue t (mosq\<lparr>keepalive := ka\<rparr>) p6)"

definition send_disconnect :: "int \<Rightarrow> mosquitto \<Rightarrow> int \<times> mosquitto" where
  "send_disconnect t mosq = send_simple_command t mosq DISCONNECT"

definition send_subscribe :: "int \<Rightarrow> mosquitto \<Rightarrow> bool \<Rightarrow> string \<Rightarrow> byte \<Rightarrow> int \<times> mosquitto" where
  "send_subscribe t mosq dup topic topic_qos =
     (let packetlen = u32 (2 + 2 + length topic + 1);
          (rc, p) = packet_alloc (new_packet (wsi mosq) (SUBSCRIBE OR (if dup then 8 else 0) OR 2) packetlen) in
      if rc \<noteq> MOSQ_ERR_SUCCESS then (rc, mosq)
      else
        let (local_mid, mosq1) = mid_generate mosq;
            p1 = write_uint16 p local_mid;
            p2 = write_string p1 (bytes_of_string topic) (strlen16 topic);
            p3 = write_byte p2 topic_qos
        in packet_queue t mosq1 p3)"

definition send_unsubscribe :: "int \<Rightarrow> mosquitto \<Rightarrow> bool \<Rightarrow> string \<Rightarrow> int \<times> mosquitto" where
  "send_unsubscribe t mosq dup topic =
     (let packetlen = u32 (2 + 2 + length topic);
          (rc, p) = packet_alloc (new_packet (wsi mosq) (UNSUBSCRIBE OR (if dup then 8 else 0) OR 2) packetlen) in
      if rc \<noteq> MOSQ_ERR_SUCCESS then (rc, mosq)
      else
        let (local_mid, mosq1) = mid_generate mosq;
            p1 = write_uint16 p local_mid;
            p2 = write_string p1 (bytes_of_string topic) (strlen16 topic)
        in packet_queue t mosq1 p2)"

section \<open>Server side\<close>

definition send_connack :: "int \<Rightarrow> mosquitto \<Rightarrow> int \<Rightarrow> int \<times> mosquitto" where
  "send_connack t context result =
     (let (rc, p) = packet_alloc (new_packet (wsi context) CONNACK 2) in
      if rc \<noteq> MOSQ_ERR_SUCCESS then (rc, context)
      else packet_queue t context
        (p\<lparr>payload := Some ((payload_bytes p)[pos p := 0, pos p + 1 := word_of_int result])\<rparr>))"

definition send_suback :: "int \<Rightarrow> mosquitto \<Rightarrow> uint16 \<Rightarrow> byte list \<Rightarrow> int \<times> mosquitto" where
  "send_suback t context mid pl =
     (let (rc, p) = packet_alloc (new_packet (wsi context) SUBACK (u32 (2 + length pl))) in
      if rc \<noteq> MOSQ_ERR_SUCCESS then (rc, context)
      else
        let p1 = write_uint16 p mid;
            p2 = (if pl \<noteq> [] then write_bytes p1 pl else p1)
        in packet_queue t context p2)"

section \<open>What is sent\<close>

text \<open>The wire format: one packet and one length-prefixed string.\<close>

definition mqtt_packet :: "byte \<Rightarrow> byte list \<Rightarrow> byte list" where
  "mqtt_packet cmd body = cmd # remaining_bytes (length body) [] @ body"

definition mqtt_uint16 :: "uint16 \<Rightarrow> byte list" where
  "mqtt_uint16 w = [MOSQ_MSB w, MOSQ_LSB w]"

definition mqtt_string :: "byte list \<Rightarrow> byte list" where
  "mqtt_string bs = mqtt_uint16 (word_of_nat (length bs)) @ bs"

lemma length_mqtt_uint16 [simp]: "length (mqtt_uint16 w) = 2"
  by (simp add: mqtt_uint16_def)

lemma length_mqtt_string [simp]: "length (mqtt_string bs) = 2 + length bs"
  by (simp add: mqtt_string_def)

text \<open>
  \<open>building len bs p\<close>: \<open>p\<close> is an allocated packet with a body of \<open>len\<close> bytes, of which \<open>bs\<close> has been
  written. Each writer extends \<open>bs\<close> as long as there is room.
\<close>

definition building :: "byte \<Rightarrow> nat \<Rightarrow> byte list \<Rightarrow> packet \<Rightarrow> bool" where
  "building cmd len bs p \<longleftrightarrow> out_packet_ok p \<and> length bs \<le> len \<and>
     written p = cmd # remaining_bytes len [] @ bs \<and> pos p + (len - length bs) = packet_length p"

lemma building_extends:
  "building cmd len bs p \<Longrightarrow> extends p cs p' \<Longrightarrow> length bs + length cs \<le> len \<Longrightarrow>
     building cmd len (bs @ cs) p'"
  by (auto simp: building_def extends_def)

lemma building_room: "building cmd len bs p \<Longrightarrow> length bs + n \<le> len \<Longrightarrow> pos p + n \<le> packet_length p"
  by (auto simp: building_def)

lemma building_ok: "building cmd len bs p \<Longrightarrow> out_packet_ok p"
  by (simp add: building_def)

lemma building_byte:
  "building cmd len bs p \<Longrightarrow> length bs + 1 \<le> len \<Longrightarrow> building cmd len (bs @ [b]) (write_byte p b)"
  using building_extends [of cmd len bs p "[b]"] write_byte_ok building_room building_ok
  by (metis length_Cons list.size(3) One_nat_def)

lemma building_uint16:
  "building cmd len bs p \<Longrightarrow> length bs + 2 \<le> len \<Longrightarrow> building cmd len (bs @ mqtt_uint16 w) (write_uint16 p w)"
  unfolding mqtt_uint16_def
  using building_extends [of cmd len bs p "[MOSQ_MSB w, MOSQ_LSB w]" "write_uint16 p w"]
    write_uint16_ok [of p w] building_room [of cmd len bs p 2] building_ok
  by simp

lemma building_bytes:
  "building cmd len bs p \<Longrightarrow> length bs + length cs \<le> len \<Longrightarrow> building cmd len (bs @ cs) (write_bytes p cs)"
  using building_extends [of cmd len bs p cs] write_bytes_ok building_room building_ok by simp

lemma building_string:
  assumes "building cmd len bs p" and "length bs + 2 + length cs \<le> len" and "length cs < 2 ^ 16"
  shows "building cmd len (bs @ mqtt_string cs) (write_string p cs (word_of_nat (length cs)))"
proof -
  have n: "unat (word_of_nat (length cs) :: uint16) = length cs"
    using assms(3) by (simp add: unat_of_nat take_bit_nat_eq_self)
  then have "extends p (mqtt_string cs) (write_string p cs (word_of_nat (length cs)))"
    using write_string_ok [of p "word_of_nat (length cs)" cs] assms building_room [OF assms(1), of "2 + length cs"]
      building_ok [OF assms(1)]
    by (simp add: mqtt_string_def mqtt_uint16_def)
  then show ?thesis using building_extends [OF assms(1)] assms(2) by simp
qed

lemmas building_intros = building_byte building_uint16 building_bytes building_string

lemma building_alloc:
  assumes "len < 2 ^ 28"
  shows "\<exists>p. packet_alloc (new_packet ws cmd len) = (MOSQ_ERR_SUCCESS, p) \<and> building cmd len [] p"
    and "\<exists>p. packet_alloc ((new_packet ws cmd len)\<lparr>pkt_mid := m\<rparr>) = (MOSQ_ERR_SUCCESS, p) \<and> building cmd len [] p"
  using packet_alloc_ok [of "new_packet ws cmd len"] packet_alloc_ok [of "(new_packet ws cmd len)\<lparr>pkt_mid := m\<rparr>"] assms
  by (auto simp: building_def new_packet_def empty_packet_def)

lemma building_complete:
  assumes "building cmd len bs p" and "length bs = len"
  shows "packet_complete p" and "payload_bytes p = mqtt_packet cmd bs"
  using assms packet_completeI [of p] by (auto simp: building_def mqtt_packet_def)

text \<open>\<open>sends mosq bs mosq'\<close>: the bytes \<open>bs\<close> and nothing else were appended to the connection.\<close>

definition sends :: "mosquitto \<Rightarrow> byte list \<Rightarrow> mosquitto \<Rightarrow> bool" where
  "sends mosq bs mosq' \<longleftrightarrow> stream mosq' = stream mosq @ bs \<and> out_queue_ok mosq'"

lemma building_sends:
  assumes "out_queue_ok mosq" and "building cmd len bs p" and "length bs = len"
  shows "sends mosq (mqtt_packet cmd bs) (snd (packet_queue t mosq p))"
  using net.enqueue_bytes [OF assms(1), of p t] net.enqueue_ok [OF assms(1), of p t] building_complete [OF assms(2,3)]
  by (simp add: sends_def)

lemma building_two:
  assumes "building cmd 2 [] p"
  shows "building cmd 2 [x, y] (write_byte (write_byte p x) y)"
    and "p\<lparr>payload := Some ((payload_bytes p)[pos p := x, pos p + 1 := y])\<rparr> =
         (write_byte (write_byte p x) y)\<lparr>pos := pos p\<rparr>"
proof -
  show b: "building cmd 2 [x, y] (write_byte (write_byte p x) y)"
    using building_byte [OF building_byte [OF assms, of x], of y] by simp
  from assms have "pos p + 2 = packet_length p" "packet_length p < 2 ^ 29"
    by (simp_all add: building_def out_packet_ok_def)
  then show "p\<lparr>payload := Some ((payload_bytes p)[pos p := x, pos p + 1 := y])\<rparr> =
         (write_byte (write_byte p x) y)\<lparr>pos := pos p\<rparr>"
    by (simp add: write_byte_def payload_bytes_def)
qed

lemma packet_queue_pos: "packet_queue t mosq (p\<lparr>pos := n\<rparr>) = packet_queue t mosq p"
  by (simp add: packet_queue_def)

lemma send_two_bytes:
  assumes "out_queue_ok mosq" and "packet_alloc (new_packet ws cmd 2) = (MOSQ_ERR_SUCCESS, p)"
  shows "sends mosq (mqtt_packet cmd [x, y])
    (snd (packet_queue t mosq (p\<lparr>payload := Some ((payload_bytes p)[pos p := x, pos p + 1 := y])\<rparr>)))"
proof -
  have "building cmd 2 [] p" using building_alloc(1) [of 2 ws cmd] assms(2) by auto
  from building_sends [OF assms(1) building_two(1) [OF this]] show ?thesis
    by (simp only: building_two(2) [OF \<open>building cmd 2 [] p\<close>] packet_queue_pos) simp
qed

lemma send_command_with_mid_sends:
  assumes "out_queue_ok mosq"
  shows "sends mosq (mqtt_packet (if dup then cmd OR 8 else cmd) (mqtt_uint16 mid))
    (snd (send_command_with_mid t mosq cmd mid dup))"
proof -
  obtain p where p: "packet_alloc (new_packet (wsi mosq) (if dup then cmd OR 8 else cmd) 2) = (MOSQ_ERR_SUCCESS, p)"
    using building_alloc(1) [of 2 "wsi mosq" "if dup then cmd OR 8 else cmd"] by auto
  from send_two_bytes [OF assms p] show ?thesis
    unfolding send_command_with_mid_def p mqtt_uint16_def by simp
qed

lemma send_simple_command_sends:
  assumes "out_queue_ok mosq"
  shows "sends mosq (mqtt_packet cmd []) (snd (send_simple_command t mosq cmd))"
proof -
  obtain p where "packet_alloc (new_packet (wsi mosq) cmd 0) = (MOSQ_ERR_SUCCESS, p)" "building cmd 0 [] p"
    using building_alloc(1) [of 0 "wsi mosq" cmd] by auto
  with building_sends [OF assms] show ?thesis by (simp add: send_simple_command_def)
qed

lemma send_connack_sends:
  assumes "out_queue_ok context"
  shows "sends context (mqtt_packet CONNACK [0, word_of_int result]) (snd (send_connack t context result))"
proof -
  obtain p where p: "packet_alloc (new_packet (wsi context) CONNACK 2) = (MOSQ_ERR_SUCCESS, p)"
    using building_alloc(1) [of 2 "wsi context" CONNACK] by auto
  from send_two_bytes [OF assms p] show ?thesis unfolding send_connack_def p by simp
qed

lemma send_suback_sends:
  assumes "out_queue_ok context" and "2 + length pl < 2 ^ 28"
  shows "sends context (mqtt_packet SUBACK (mqtt_uint16 mid @ pl)) (snd (send_suback t context mid pl))"
proof -
  have u: "u32 (2 + length pl) = 2 + length pl" using assms(2) by simp
  obtain p where p: "packet_alloc (new_packet (wsi context) SUBACK (2 + length pl)) = (MOSQ_ERR_SUCCESS, p)"
      "building SUBACK (2 + length pl) [] p"
    using building_alloc(1) [of "2 + length pl" "wsi context" SUBACK] assms(2) by auto
  from building_uint16 [OF p(2), of mid] have b: "building SUBACK (2 + length pl) (mqtt_uint16 mid) (write_uint16 p mid)" by simp
  have "building SUBACK (2 + length pl) (mqtt_uint16 mid @ pl)
      (if pl \<noteq> [] then write_bytes (write_uint16 p mid) pl else write_uint16 p mid)"
    using building_bytes [OF b, of pl] b by (cases "pl = []") simp_all
  from building_sends [OF assms(1) this] show ?thesis
    unfolding send_suback_def u p by (simp add: Let_def)
qed

definition publish_body :: "string \<Rightarrow> uint16 \<Rightarrow> int \<Rightarrow> byte list \<Rightarrow> byte list" where
  "publish_body topic mid qos pl = mqtt_string (bytes_of_string topic) @ (if qos > 0 then mqtt_uint16 mid else []) @ pl"

lemma length_publish_body: "length (publish_body topic mid qos pl) = 2 + length topic + length pl + (if qos > 0 then 2 else 0)"
  by (simp add: publish_body_def)

lemma send_real_publish_sends:
  assumes "out_queue_ok mosq" and "length topic < 2 ^ 16" and "length (publish_body topic mid qos pl) < 2 ^ 28"
  shows "sends mosq (mqtt_packet (publish_command dup qos retain) (publish_body topic mid qos pl))
    (snd (send_real_publish t mosq mid topic pl qos retain dup))"
proof -
  let ?len = "length (publish_body topic mid qos pl)" and ?cmd = "publish_command dup qos retain"
  have u: "u32 (2 + length topic + length pl + (if qos > 0 then 2 else 0)) = ?len"
    using assms(3) by (simp add: length_publish_body)
  obtain p where p: "packet_alloc ((new_packet (wsi mosq) ?cmd ?len)\<lparr>pkt_mid := mid\<rparr>) = (MOSQ_ERR_SUCCESS, p)"
      and b: "building ?cmd ?len [] p"
    using building_alloc(2) [OF assms(3), of mid "wsi mosq" ?cmd] by auto
  define p1 where "p1 = write_string p (bytes_of_string topic) (strlen16 topic)"
  define p2 where "p2 = (if qos > 0 then write_uint16 p1 mid else p1)"
  define p3 where "p3 = (if pl \<noteq> [] then write_bytes p2 pl else p2)"
  have b1: "building ?cmd ?len (mqtt_string (bytes_of_string topic)) p1"
    using building_string [OF b, of "bytes_of_string topic"] assms(2)
    by (simp add: p1_def strlen16_def length_publish_body)
  have b2: "building ?cmd ?len (mqtt_string (bytes_of_string topic) @ (if qos > 0 then mqtt_uint16 mid else [])) p2"
    using building_uint16 [OF b1, of mid] b1 by (cases "qos > 0") (simp_all add: p2_def length_publish_body)
  have b3: "building ?cmd ?len (publish_body topic mid qos pl) p3"
    using building_bytes [OF b2, of pl] b2 by (cases "pl = []") (simp_all add: p3_def length_publish_body publish_body_def)
  have eq: "send_real_publish t mosq mid topic pl qos retain dup = packet_queue t mosq p3"
    unfolding send_real_publish_def Let_def u p p3_def p2_def p1_def prod.case simp_thms if_False ..
  from building_sends [OF assms(1) b3 refl] show ?thesis
    by (simp only: eq snd_conv)
qed

lemma send_real_publish_too_big:
  assumes "2 ^ 28 \<le> length (publish_body topic mid qos pl)" and "length (publish_body topic mid qos pl) < 2 ^ 32"
  shows "send_real_publish t mosq mid topic pl qos retain dup = (MOSQ_ERR_PAYLOAD_SIZE, mosq)"
proof -
  have u: "u32 (2 + length topic + length pl + (if qos > 0 then 2 else 0)) = length (publish_body topic mid qos pl)"
    using assms(2) by (simp add: length_publish_body)
  show ?thesis
    using packet_alloc_too_big [of "(new_packet (wsi mosq) (publish_command dup qos retain)
        (length (publish_body topic mid qos pl)))\<lparr>pkt_mid := mid\<rparr>"] assms(1)
    unfolding send_real_publish_def Let_def u by (auto simp: new_packet_def split: prod.splits)
qed

lemma io_only_cases:
  "io_only mosq (snd (if rc \<noteq> MOSQ_ERR_SUCCESS then (rc', mosq) else packet_queue t mosq p))"
  by (simp add: packet_queue_io_only)

lemma send_command_with_mid_io_only: "io_only mosq (snd (send_command_with_mid t mosq cmd mid dup))"
  unfolding send_command_with_mid_def by (auto simp: packet_queue_io_only split: prod.splits)

lemma send_acks_io_only:
  "io_only mosq (snd (send_puback t mosq mid))" "io_only mosq (snd (send_pubcomp t mosq mid))"
  "io_only mosq (snd (send_pubrec t mosq mid))" "io_only mosq (snd (send_pubrel t mosq mid dup))"
  by (simp_all add: send_puback_def send_pubcomp_def send_pubrec_def send_pubrel_def send_command_with_mid_io_only)

lemma send_real_publish_io_only: "io_only mosq (snd (send_real_publish t mosq mid topic pl qos retain dup))"
  unfolding send_real_publish_def Let_def by (auto simp: packet_queue_io_only split: prod.splits)

lemma send_publish_io_only: "io_only mosq (snd (send_publish t mosq mid topic pl qos retain dup))"
  unfolding send_publish_def by (auto simp: send_real_publish_io_only split: option.splits sum.splits)

lemmas send_io_only = send_command_with_mid_io_only send_acks_io_only send_real_publish_io_only send_publish_io_only

definition no_remap :: "mosquitto \<Rightarrow> bool" where
  "no_remap x = (case bridge x of None \<Rightarrow> True | Some br \<Rightarrow> topics br = [] \<or> \<not> topic_remapping br)"

lemma send_publish_sends:
  assumes "out_queue_ok mosq" and "\<not> IS_CONTEXT_INVALID mosq" and "no_remap mosq"
    and "length topic < 2 ^ 16" and "length (publish_body topic mid qos pl) < 2 ^ 28"
  shows "sends mosq (mqtt_packet (publish_command dup qos retain) (publish_body topic mid qos pl))
    (snd (send_publish t mosq mid topic pl qos retain dup))"
proof -
  have "send_publish t mosq mid topic pl qos retain dup = send_real_publish t mosq mid topic pl qos retain dup"
    using assms(2,3) by (auto simp: send_publish_def no_remap_def split: option.splits)
  with send_real_publish_sends [OF assms(1,4,5)] show ?thesis by simp
qed

end
