(* ===== verification/Queue.thy ===== *)
theory Queue
  imports Send
begin

text \<open>
  The client message queues of src/mqtt-core/src/database.c: insertion, deletion, state changes,
  the reset on reconnection, the retry timer and the writer that hands the queued messages to the
  connection. \<open>c\<close> is the address of the context. A loop over the linked list keeps the pair of
  pointers \<^verbatim>\<open>last\<close>, \<^verbatim>\<open>tail\<close> as the list already passed and the list still to come; the new
  list is stored back when the loop is left.
\<close>

section \<open>Operations\<close>

definition set_msgs :: "nat \<Rightarrow> client_msg list \<Rightarrow> broker \<Rightarrow> broker" where
  "set_msgs c ms b = upd_ctx c (\<lambda>x. x\<lparr>msgs := ms\<rparr>) b"

definition add_ref :: "int \<Rightarrow> nat \<Rightarrow> broker \<Rightarrow> broker" where
  "add_ref n q b = upd_store q (\<lambda>s. s\<lparr>ref_count := ref_count s + n\<rparr>) b"

text \<open>\<open>publish_state\<close> is the switch on the QoS that recurs in the file; another QoS leaves the state.\<close>

definition publish_state :: "int \<Rightarrow> msg_state \<Rightarrow> msg_state" where
  "publish_state q s =
     (if q = 0 then mosq_ms_publish_qos0 else if q = 1 then mosq_ms_publish_qos1
      else if q = 2 then mosq_ms_publish_qos2 else s)"

text \<open>\<open>message_remove\<close> is the accounting of \<^verbatim>\<open>_message_remove\<close>; the caller leaves the message out of
  the list it keeps.\<close>

definition message_remove :: "nat \<Rightarrow> client_msg \<Rightarrow> broker \<Rightarrow> broker" where
  "message_remove c m b =
     upd_ctx c (\<lambda>x. x\<lparr>msg_count := msg_count x - 1,
                      msg_count12 := (if cm_qos m > 0 then msg_count12 x - 1 else msg_count12 x)\<rparr>)
       (add_ref (-1) (cm_store m) b)"

definition promote :: "int \<Rightarrow> int \<Rightarrow> int \<Rightarrow> client_msg \<Rightarrow> client_msg" where
  "promote t inflight msg_index m =
     (if cm_state m = mosq_ms_queued \<and> msg_index \<le> inflight then
        m\<lparr>cm_timestamp := t,
          cm_state := (if cm_direction m = mosq_md_out then publish_state (cm_qos m) (cm_state m)
                       else if cm_qos m = 2 then mosq_ms_wait_for_pubrel else cm_state m)\<rparr>
      else m)"

fun message_delete_loop ::
  "nat \<Rightarrow> uint16 \<Rightarrow> msg_direction \<Rightarrow> int \<Rightarrow> bool \<Rightarrow> client_msg list \<Rightarrow> client_msg list \<Rightarrow> broker \<Rightarrow> broker" where
  "message_delete_loop c mid dir msg_index deleted before [] b = set_msgs c before b"
| "message_delete_loop c mid dir msg_index deleted before (m # tail) b =
     (let idx = msg_index + 1; m' = promote (now b) (max_inflight b) idx m in
      if cm_mid m' = mid \<and> cm_direction m' = dir then
        let b' = message_remove c m' b in
        if idx - 1 > max_inflight b then set_msgs c (before @ tail) b'
        else message_delete_loop c mid dir (idx - 1) True before tail b'
      else if idx > max_inflight b \<and> deleted then set_msgs c (before @ m' # tail) b
      else message_delete_loop c mid dir idx deleted (before @ [m']) tail b)"

definition mqtt3_db_message_delete :: "nat \<Rightarrow> uint16 \<Rightarrow> msg_direction \<Rightarrow> broker \<Rightarrow> int \<times> broker" where
  "mqtt3_db_message_delete c mid dir b =
     (MOSQ_ERR_SUCCESS, message_delete_loop c mid dir 0 False [] (msgs (ctxs b c)) b)"

subsection \<open>Insertion\<close>

datatype insert_decision = Reject int | Drop | Accept msg_state int

text \<open>
  The admission part of \<^verbatim>\<open>mqtt3_db_message_insert\<close>: the state of the new message and the return code
  of the call, the code of an early return, or the full queue. \<open>exceeded\<close> is the verdict of
  \<^verbatim>\<open>dxl_on_pre_insert_message_packet_queue_exceeded\<close> where it was asked for.
\<close>

definition qos0_while_offline :: "broker \<Rightarrow> mosquitto \<Rightarrow> int \<Rightarrow> bool" where
  "qos0_while_offline b x qos \<longleftrightarrow> IS_CONTEXT_INVALID x \<and> qos = 0 \<and> \<not> queue_qos0_messages b \<and>
     (case bridge x of None \<Rightarrow> True | Some br \<Rightarrow> start_type br \<noteq> bst_lazy)"

definition packet_queue_exceeded :: "broker \<Rightarrow> mosquitto \<Rightarrow> bool" where
  "packet_queue_exceeded b x \<longleftrightarrow> \<not> IS_CONTEXT_INVALID x \<and> packet_count x \<ge> max_packet_buffer_size b"

definition message_admit :: "broker \<Rightarrow> mosquitto \<Rightarrow> msg_direction \<Rightarrow> int \<Rightarrow> insert_decision" where
  "message_admit b x dir qos =
     (if \<not> IS_CONTEXT_INVALID x then
        if qos = 0 \<or> max_inflight b = 0 \<or> msg_count12 x < max_inflight b then
          if dir = mosq_md_out then Accept (publish_state qos mosq_ms_invalid) 0
          else if qos = 2 then Accept mosq_ms_wait_for_pubrel 0
          else Reject 1
        else if max_queued b = 0 \<or> msg_count12 x - max_inflight b < max_queued b then Accept mosq_ms_queued 2
        else Drop
      else if max_queued b > 0 \<and> msg_count12 x \<ge> max_queued b then Drop
      else Accept mosq_ms_queued 0)"

definition append_msg :: "nat \<Rightarrow> client_msg \<Rightarrow> broker \<Rightarrow> broker" where
  "append_msg c m b =
     upd_ctx c (\<lambda>x. x\<lparr>msg_count := msg_count x + 1,
                      msg_count12 := (if cm_qos m > 0 then msg_count12 x + 1 else msg_count12 x),
                      msgs := msgs x @ [m]\<rparr>)
       (add_ref 1 (cm_store m) b)"

definition lazy_bridge_check :: "mosquitto \<Rightarrow> mosquitto" where
  "lazy_bridge_check x = (case bridge x of
       Some br \<Rightarrow> if start_type br = bst_lazy \<and> sock x = INVALID_SOCKET \<and> msg_count x \<ge> threshold br
                  then x\<lparr>bridge := Some (br\<lparr>lazy_reconnect := True\<rparr>)\<rparr> else x
     | None \<Rightarrow> x)"

text \<open>What a dangling pointer would show; the reference counts exclude it.\<close>

definition null_store :: mosquitto_msg_store where
  "null_store = \<lparr>store_ptr = 0, db_id = 0, ref_count = 0, source_id = '''', source_mid = 0,
     msg = \<lparr>mm_topic = None, mm_payload = [], mm_client_payload = None, mm_qos = 0, mm_retain = False\<rparr>\<rparr>"

definition deref_store :: "broker \<Rightarrow> nat \<Rightarrow> mosquitto_msg_store" where
  "deref_store b q = (case stored_msg b q of Some s \<Rightarrow> s | None \<Rightarrow> null_store)"

definition insert_allowed ::
  "dxl_hooks \<Rightarrow> nat \<Rightarrow> uint16 \<Rightarrow> msg_direction \<Rightarrow> int \<Rightarrow> bool \<Rightarrow> nat \<Rightarrow> msg_state \<Rightarrow> int \<Rightarrow> broker \<Rightarrow> int \<times> broker" where
  "insert_allowed H c mid dir qos retain q st rc b =
     (let s = deref_store b q;
          (success, is_client_message, client_payload) = on_insert_message H (dxl_log b) (ctxs b c) s;
          b1 = log_dxl (dxl_insert c (db_id s)) b;
          b2 = (case client_payload of None \<Rightarrow> b1
                | Some cp \<Rightarrow> upd_store q (\<lambda>s. s\<lparr>msg := (msg s)\<lparr>mm_client_payload := Some cp\<rparr>\<rparr>) b1) in
      if \<not> success then (MOSQ_ERR_SUCCESS, b2)
      else
        let m = \<lparr>cm_store = q, cm_mid = mid, cm_qos = qos, cm_retain = retain, cm_timestamp = now b,
                 cm_direction = dir, cm_state = st, cm_dup = False, cm_client_message = is_client_message\<rparr>
        in (rc, upd_ctx c lazy_bridge_check (mosquitto_add_new_msgs_set c (append_msg c m b2))))"

definition mqtt3_db_message_insert ::
  "dxl_hooks \<Rightarrow> nat \<Rightarrow> uint16 \<Rightarrow> msg_direction \<Rightarrow> int \<Rightarrow> bool \<Rightarrow> nat \<Rightarrow> broker \<Rightarrow> int \<times> broker" where
  "mqtt3_db_message_insert H c mid dir qos retain q b =
     (if qos0_while_offline b (ctxs b c) qos then (2, b)
      else
        let ask = packet_queue_exceeded b (ctxs b c);
            s = deref_store b q;
            b1 = (if ask then log_dxl (dxl_packet_queue_exceeded c (db_id s)) b else b) in
        if ask \<and> on_pre_insert_message_packet_queue_exceeded H (dxl_log b) (ctxs b c) s then (2, b1)
        else
          case message_admit b1 (ctxs b1 c) dir qos of
            Reject rc \<Rightarrow> (rc, b1)
          | Drop \<Rightarrow> (2, upd_ctx c (\<lambda>x. x\<lparr>is_dropping := True\<rparr>) b1)
          | Accept st rc \<Rightarrow>
              if st = mosq_ms_invalid then (rc, b1\<lparr>assert_violated := True\<rparr>)
              else insert_allowed H c mid dir qos retain q st rc b1)"

subsection \<open>State changes\<close>

fun message_update_loop :: "int \<Rightarrow> uint16 \<Rightarrow> msg_direction \<Rightarrow> msg_state \<Rightarrow> client_msg list \<Rightarrow> int \<times> client_msg list" where
  "message_update_loop t mid dir st [] = (1, [])"
| "message_update_loop t mid dir st (m # tail) =
     (if cm_mid m = mid \<and> cm_direction m = dir then
        (MOSQ_ERR_SUCCESS, m\<lparr>cm_state := st, cm_timestamp := t\<rparr> # tail)
      else let (rc, ms) = message_update_loop t mid dir st tail in (rc, m # ms))"

definition mqtt3_db_message_update :: "nat \<Rightarrow> uint16 \<Rightarrow> msg_direction \<Rightarrow> msg_state \<Rightarrow> broker \<Rightarrow> int \<times> broker" where
  "mqtt3_db_message_update c mid dir st b =
     (let (rc, ms) = message_update_loop (now b) mid dir st (msgs (ctxs b c)) in (rc, set_msgs c ms b))"

fun drop_refs :: "client_msg list \<Rightarrow> broker \<Rightarrow> broker" where
  "drop_refs [] b = b"
| "drop_refs (m # tail) b = drop_refs tail (add_ref (-1) (cm_store m) b)"

definition mqtt3_db_messages_delete :: "nat \<Rightarrow> broker \<Rightarrow> int \<times> broker" where
  "mqtt3_db_messages_delete c b =
     (MOSQ_ERR_SUCCESS,
      upd_ctx c (\<lambda>x. x\<lparr>msgs := [], msg_count := 0, msg_count12 := 0, ctx_subscription_count := 0\<rparr>)
        (drop_refs (msgs (ctxs b c)) b))"

definition mqtt3_db_message_store_find :: "nat \<Rightarrow> uint16 \<Rightarrow> broker \<Rightarrow> int \<times> nat option" where
  "mqtt3_db_message_store_find c mid b =
     (case find (\<lambda>m. source_mid (deref_store b (cm_store m)) = mid \<and> cm_direction m = mosq_md_in) (msgs (ctxs b c)) of
        Some m \<Rightarrow> (MOSQ_ERR_SUCCESS, Some (cm_store m))
      | None \<Rightarrow> (1, None))"

definition reset_out :: "client_msg \<Rightarrow> client_msg" where
  "reset_out m =
     (if cm_state m \<noteq> mosq_ms_queued then
        m\<lparr>cm_state :=
            (if cm_qos m = 2 \<and> cm_state m = mosq_ms_wait_for_pubcomp then mosq_ms_resend_pubrel
             else publish_state (cm_qos m) (cm_state m))\<rparr>
      else m)"

text \<open>
  The first loop of \<^verbatim>\<open>mqtt3_db_message_reconnect_reset\<close>. After a removal \<^verbatim>\<open>msg\<close> already is the next
  message, which the advance at the end of the round then passes over.
\<close>

fun reconnect_reset_loop :: "nat \<Rightarrow> client_msg list \<Rightarrow> client_msg list \<Rightarrow> broker \<Rightarrow> broker" where
  "reconnect_reset_loop c before [] b = set_msgs c before b"
| "reconnect_reset_loop c before (m # tail) b =
     (let b1 = upd_ctx c (\<lambda>x. x\<lparr>msg_count := msg_count x + 1,
                 msg_count12 := (if cm_qos m > 0 then msg_count12 x + 1 else msg_count12 x)\<rparr>) b in
      if cm_direction m = mosq_md_out then reconnect_reset_loop c (before @ [reset_out m]) tail b1
      else if cm_qos m \<noteq> 2 then
        (case tail of
           [] \<Rightarrow> set_msgs c before (message_remove c m b1)
         | n # tail' \<Rightarrow> reconnect_reset_loop c (before @ [n]) tail' (message_remove c m b1))
      else reconnect_reset_loop c (before @ [m]) tail b1)"

fun publish_queued_loop :: "int \<Rightarrow> int \<Rightarrow> client_msg list \<Rightarrow> client_msg list" where
  "publish_queued_loop inflight count [] = []"
| "publish_queued_loop inflight count (m # tail) =
     (if inflight = 0 \<or> count < inflight then
        (if cm_state m = mosq_ms_queued then m\<lparr>cm_state := publish_state (cm_qos m) (cm_state m)\<rparr> else m)
          # publish_queued_loop inflight (count + 1) tail
      else m # tail)"

definition mqtt3_db_message_reconnect_reset :: "nat \<Rightarrow> broker \<Rightarrow> int \<times> broker" where
  "mqtt3_db_message_reconnect_reset c b =
     (let b1 = reconnect_reset_loop c [] (msgs (ctxs b c))
                 (upd_ctx c (\<lambda>x. x\<lparr>msg_count := 0, msg_count12 := 0, ctx_subscription_count := 0\<rparr>) b)
      in (MOSQ_ERR_SUCCESS, set_msgs c (publish_queued_loop (max_inflight b) 0 (msgs (ctxs b1 c))) b1))"

definition timeout_state :: "msg_state \<Rightarrow> msg_state" where
  "timeout_state s = (case s of
       mosq_ms_wait_for_puback \<Rightarrow> mosq_ms_publish_qos1
     | mosq_ms_wait_for_pubrec \<Rightarrow> mosq_ms_publish_qos2
     | mosq_ms_wait_for_pubrel \<Rightarrow> mosq_ms_send_pubrec
     | mosq_ms_wait_for_pubcomp \<Rightarrow> mosq_ms_resend_pubrel
     | _ \<Rightarrow> mosq_ms_invalid)"

definition timeout_msg :: "int \<Rightarrow> int \<Rightarrow> client_msg \<Rightarrow> client_msg" where
  "timeout_msg t limit m =
     (if cm_timestamp m < limit \<and> cm_state m \<noteq> mosq_ms_queued \<and> timeout_state (cm_state m) \<noteq> mosq_ms_invalid then
        m\<lparr>cm_timestamp := t, cm_state := timeout_state (cm_state m), cm_dup := True\<rparr>
      else m)"

definition mqtt3_db_message_timeout_check :: "nat \<Rightarrow> int \<Rightarrow> broker \<Rightarrow> int \<times> broker" where
  "mqtt3_db_message_timeout_check c timeout b =
     (MOSQ_ERR_SUCCESS, set_msgs c (map (timeout_msg (now b) (now b - timeout)) (msgs (ctxs b c))) b)"

subsection \<open>Writing the queue\<close>

text \<open>One round of the switch of \<^verbatim>\<open>mqtt3_db_message_write\<close> on a message that is not queued: the
  return code and, where it is 0, what becomes of the message (\<open>None\<close> when it is removed).\<close>

definition send_stored :: "nat \<Rightarrow> client_msg \<Rightarrow> broker \<Rightarrow> int \<times> broker" where
  "send_stored c m b =
     (let s = msg (deref_store b (cm_store m));
          pl = (if cm_client_message m then (case mm_client_payload s of None \<Rightarrow> [] | Some cp \<Rightarrow> cp)
                else mm_payload s) in
      case mm_topic s of
        None \<Rightarrow> (MOSQ_ERR_INVAL, b\<lparr>assert_violated := True\<rparr>)
      | Some topic \<Rightarrow>
          with_ctx c (\<lambda>x. send_publish (now b) x (cm_mid m) topic pl (cm_qos m) (cm_retain m) (cm_dup m)) b)"

definition message_write_step :: "nat \<Rightarrow> client_msg \<Rightarrow> broker \<Rightarrow> int \<times> client_msg option \<times> broker" where
  "message_write_step c m b = (case cm_state m of
       mosq_ms_publish_qos0 \<Rightarrow>
         let (rc, b') = send_stored c m b in
         (rc, None, if rc = MOSQ_ERR_SUCCESS then message_remove c m b' else b')
     | mosq_ms_publish_qos1 \<Rightarrow>
         let (rc, b') = send_stored c m b in
         (rc, Some (m\<lparr>cm_timestamp := now b, cm_dup := True, cm_state := mosq_ms_wait_for_puback\<rparr>), b')
     | mosq_ms_publish_qos2 \<Rightarrow>
         let (rc, b') = send_stored c m b in
         (rc, Some (m\<lparr>cm_timestamp := now b, cm_dup := True, cm_state := mosq_ms_wait_for_pubrec\<rparr>), b')
     | mosq_ms_send_pubrec \<Rightarrow>
         let (rc, b') = with_ctx c (\<lambda>x. send_pubrec (now b) x (cm_mid m)) b in
         (rc, Some (m\<lparr>cm_state := mosq_ms_wait_for_pubrel\<rparr>), b')
     | mosq_ms_resend_pubrel \<Rightarrow>
         let (rc, b') = with_ctx c (\<lambda>x. send_pubrel (now b) x (cm_mid m) True) b in
         (rc, Some (m\<lparr>cm_state := mosq_ms_wait_for_pubcomp\<rparr>), b')
     | mosq_ms_resend_pubcomp \<Rightarrow>
         let (rc, b') = with_ctx c (\<lambda>x. send_pubcomp (now b) x (cm_mid m)) b in
         (rc, Some (m\<lparr>cm_state := mosq_ms_wait_for_pubrel\<rparr>), b')
     | _ \<Rightarrow> (MOSQ_ERR_SUCCESS, Some m, b))"

text \<open>
  The loop need not end: an incoming message that stays queued is visited again, so not returning
  is the value \<open>None\<close>. \<open>msg_count\<close> is the loop's own counter, raised at every visit.
\<close>

partial_function (option) message_write_loop ::
  "nat \<Rightarrow> int \<Rightarrow> client_msg list \<Rightarrow> client_msg list \<Rightarrow> broker \<Rightarrow> (int \<times> broker) option" where
  "message_write_loop c count before tail b =
     (case tail of
        [] \<Rightarrow> Some (MOSQ_ERR_SUCCESS, set_msgs c before b)
      | m # rest \<Rightarrow>
          let count' = (if cm_direction m = mosq_md_in then count + 1 else count) in
          if cm_state m \<noteq> mosq_ms_queued then
            let (rc, nxt, b') = message_write_step c m b in
            if rc \<noteq> MOSQ_ERR_SUCCESS then Some (rc, set_msgs c (before @ tail) b')
            else (case nxt of
                    None \<Rightarrow> message_write_loop c count' before rest b'
                  | Some m' \<Rightarrow> message_write_loop c count' (before @ [m']) rest b')
          else if cm_direction m = mosq_md_in \<and> (max_inflight b = 0 \<or> count' < max_inflight b) then
            (if cm_qos m = 2 then
               message_write_loop c count' before (m\<lparr>cm_state := mosq_ms_send_pubrec\<rparr> # rest) b
             else message_write_loop c count' before tail b)
          else message_write_loop c count' (before @ [m]) rest b)"

definition mqtt3_db_message_write :: "nat \<Rightarrow> broker \<Rightarrow> (int \<times> broker) option" where
  "mqtt3_db_message_write c b =
     (let x = ctxs b c in
      if IS_CONTEXT_INVALID x \<or> (cstate x = mosq_cs_connected \<and> ctx_id x = None) then Some (MOSQ_ERR_INVAL, b)
      else message_write_loop c 0 [] (msgs x) b)"

definition mqtt3_db_limits_set :: "int \<Rightarrow> int \<Rightarrow> broker \<Rightarrow> broker" where
  "mqtt3_db_limits_set inflight queued b = b\<lparr>max_inflight := inflight, max_queued := queued\<rparr>"

section \<open>The invariant\<close>

text \<open>
  The counters of a context agree with its list, and the reference count of every stored message is
  the number of client messages that point to it; no client message points outside the store.
  Addresses are given out in order, so the contexts in use lie below \<open>next_ptr\<close>.
\<close>

definition queue_ok :: "mosquitto \<Rightarrow> bool" where
  "queue_ok x \<longleftrightarrow> msg_count x = int (length (msgs x)) \<and>
     msg_count12 x = int (length (filter (\<lambda>m. cm_qos m > 0) (msgs x)))"

definition refs :: "broker \<Rightarrow> nat \<Rightarrow> int" where
  "refs b q = (\<Sum>c<next_ptr b. int (count_list (map cm_store (msgs (ctxs b c))) q))"

definition ref_of :: "broker \<Rightarrow> nat \<Rightarrow> int" where
  "ref_of b q = (case stored_msg b q of Some s \<Rightarrow> ref_count s | None \<Rightarrow> 0)"

definition store_ptrs :: "broker \<Rightarrow> nat list" where
  "store_ptrs b = map store_ptr (msg_store b)"

definition store_ok :: "broker \<Rightarrow> bool" where
  "store_ok b \<longleftrightarrow> distinct (store_ptrs b) \<and>
     (\<forall>q \<in> set (store_ptrs b). q < next_ptr b) \<and>
     (\<forall>q. ref_of b q = refs b q) \<and>
     (\<forall>c. \<forall>m \<in> set (msgs (ctxs b c)). cm_store m \<in> set (store_ptrs b)) \<and>
     (\<forall>c \<ge> next_ptr b. msgs (ctxs b c) = [])"

definition queues_ok :: "broker \<Rightarrow> bool" where
  "queues_ok b \<longleftrightarrow> store_ok b \<and> (\<forall>c. queue_ok (ctxs b c))"

text \<open>What a loop may change of a message without disturbing the accounts.\<close>

definition same_ref :: "client_msg \<Rightarrow> client_msg \<Rightarrow> bool" where
  "same_ref m m' \<longleftrightarrow> cm_store m' = cm_store m \<and> cm_qos m' = cm_qos m"

lemma same_ref_refl [simp]: "same_ref m m"
  by (simp add: same_ref_def)

lemma same_ref_updates [simp]:
  "same_ref m (promote t n i m)" "same_ref m (reset_out m)" "same_ref m (timeout_msg t l m)"
  "same_ref m (m\<lparr>cm_state := s\<rparr>)" "same_ref m (m\<lparr>cm_state := s, cm_timestamp := t\<rparr>)"
  "same_ref m (m\<lparr>cm_timestamp := t, cm_dup := d, cm_state := s\<rparr>)"
  by (simp_all add: same_ref_def promote_def reset_out_def timeout_msg_def)

lemma set_msgs_simps [simp]:
  "msgs (ctxs (set_msgs c ms b) d) = (if d = c then ms else msgs (ctxs b d))"
  "msg_store (set_msgs c ms b) = msg_store b" "store_ptrs (set_msgs c ms b) = store_ptrs b" "next_ptr (set_msgs c ms b) = next_ptr b"
  "set_msgs c ms (set_msgs c ms' b) = set_msgs c ms b"
  "msg_count (ctxs (set_msgs c ms b) d) = msg_count (ctxs b d)"
  "msg_count12 (ctxs (set_msgs c ms b) d) = msg_count12 (ctxs b d)"
  by (simp_all add: set_msgs_def upd_ctx_def store_ptrs_def)

lemma set_msgs_same [simp]: "set_msgs c (msgs (ctxs b c)) b = b"
  by (simp add: set_msgs_def upd_ctx_def)

lemma stored_msg_set_msgs [simp]: "stored_msg (set_msgs c ms b) q = stored_msg b q"
  by (simp add: stored_msg_def)

lemma ref_of_set_msgs [simp]: "ref_of (set_msgs c ms b) q = ref_of b q"
  by (simp add: ref_of_def)

lemma refs_set_msgs:
  assumes "c < next_ptr b"
  shows "refs (set_msgs c ms b) q = refs b q - int (count_list (map cm_store (msgs (ctxs b c))) q)
     + int (count_list (map cm_store ms) q)"
proof -
  let ?f = "\<lambda>d. int (count_list (map cm_store (msgs (ctxs b d))) q)"
  let ?g = "\<lambda>d. int (count_list (map cm_store (msgs (ctxs (set_msgs c ms b) d))) q)"
  have "sum ?g ({..<next_ptr b} - {c}) = sum ?f ({..<next_ptr b} - {c})"
    by (rule sum.cong) auto
  moreover have "sum ?f {..<next_ptr b} = ?f c + sum ?f ({..<next_ptr b} - {c})"
    "sum ?g {..<next_ptr b} = ?g c + sum ?g ({..<next_ptr b} - {c})"
    using assms by (simp_all add: sum.remove [of "{..<next_ptr b}" c] del: set_msgs_simps)
  ultimately show ?thesis by (simp add: refs_def)
qed

lemma set_msgs_alloc: "store_ok (set_msgs c (xs @ m # ys) b) \<Longrightarrow> c < next_ptr b"
  unfolding store_ok_def by (metis append_is_Nil_conv linorder_not_less list.simps(3) set_msgs_simps(1,4))

lemma stored_msg_upd_store:
  assumes "\<And>s. store_ptr (f s) = store_ptr s"
  shows "stored_msg (upd_store q f b) q' = map_option (\<lambda>s. if q' = q then f s else s) (stored_msg b q')"
proof -
  have "find (\<lambda>m. store_ptr m = q') (map (\<lambda>m. if store_ptr m = q then f m else m) ms) =
    map_option (\<lambda>s. if q' = q then f s else s) (find (\<lambda>m. store_ptr m = q') ms)" for ms
    using assms by (induction ms) auto
  then show ?thesis by (simp add: stored_msg_def upd_store_def)
qed

lemma ref_of_add_ref:
  "q' \<in> set (store_ptrs b) \<Longrightarrow> ref_of (add_ref n q b) q' = ref_of b q' + (if q' = q then n else 0)"
  "q' \<notin> set (store_ptrs b) \<Longrightarrow> ref_of (add_ref n q b) q' = 0"
proof -
  have "stored_msg b q' = None \<longleftrightarrow> q' \<notin> set (store_ptrs b)"
    by (auto simp: stored_msg_def find_None_iff_ball store_ptrs_def)
  then show "q' \<in> set (store_ptrs b) \<Longrightarrow> ref_of (add_ref n q b) q' = ref_of b q' + (if q' = q then n else 0)"
    "q' \<notin> set (store_ptrs b) \<Longrightarrow> ref_of (add_ref n q b) q' = 0"
    by (auto simp: ref_of_def add_ref_def stored_msg_upd_store split: option.splits)
qed

lemma add_ref_simps [simp]:
  "ctxs (add_ref n q b) = ctxs b" "next_ptr (add_ref n q b) = next_ptr b"
  "store_ptrs (add_ref n q b) = store_ptrs b"
  by (auto simp: add_ref_def upd_store_def store_ptrs_def)

section \<open>Steps that keep the accounts\<close>

lemma count_list_append: "count_list (xs @ ys) q = count_list xs q + count_list ys q"
  by (induction xs) auto

lemma store_ok_set_msgs:
  "store_ok (set_msgs c ms b) \<longleftrightarrow> distinct (store_ptrs b) \<and> (\<forall>q \<in> set (store_ptrs b). q < next_ptr b) \<and>
     (\<forall>q. ref_of b q = refs (set_msgs c ms b) q) \<and> (\<forall>m \<in> set ms. cm_store m \<in> set (store_ptrs b)) \<and>
     (\<forall>d. d \<noteq> c \<longrightarrow> (\<forall>m \<in> set (msgs (ctxs b d)). cm_store m \<in> set (store_ptrs b))) \<and>
     (next_ptr b \<le> c \<longrightarrow> ms = []) \<and> (\<forall>d \<ge> next_ptr b. d \<noteq> c \<longrightarrow> msgs (ctxs b d) = [])"
  (is "?l \<longleftrightarrow> ?r")
proof
  assume l: ?l
  have m: "\<And>d m. m \<in> set (if d = c then ms else msgs (ctxs b d)) \<Longrightarrow> cm_store m \<in> set (store_ptrs b)"
    and n: "\<And>d. next_ptr b \<le> d \<Longrightarrow> (if d = c then ms else msgs (ctxs b d)) = []"
    using l unfolding store_ok_def by (simp_all only: set_msgs_simps)
  have "\<forall>m \<in> set ms. cm_store m \<in> set (store_ptrs b)" "next_ptr b \<le> c \<longrightarrow> ms = []"
    using m [of _ c] n [of c] by simp_all
  moreover have "\<forall>m \<in> set (msgs (ctxs b d)). cm_store m \<in> set (store_ptrs b)"
    "next_ptr b \<le> d \<longrightarrow> msgs (ctxs b d) = []" if "d \<noteq> c" for d
    using m [of _ d] n [of d] that by simp_all
  ultimately show ?r using l unfolding store_ok_def by (simp only: ref_of_set_msgs set_msgs_simps) blast
next
  assume ?r
  then show ?l unfolding store_ok_def by (simp split: if_split)
qed

lemma queues_ok_relabel:
  assumes "list_all2 same_ref ms ms'"
  shows "queues_ok (set_msgs c ms' b) \<longleftrightarrow> queues_ok (set_msgs c ms b)"
proof -
  have st: "map cm_store ms' = map cm_store ms"
    using assms by (induction rule: list_all2_induct) (auto simp: same_ref_def)
  have qs: "length (filter (\<lambda>m. cm_qos m > 0) ms') = length (filter (\<lambda>m. cm_qos m > 0) ms)"
    using assms by (induction rule: list_all2_induct) (auto simp: same_ref_def)
  have ln: "length ms' = length ms" using assms by (simp add: list_all2_lengthD)
  have mem: "(\<forall>m \<in> set ms'. cm_store m \<in> S) \<longleftrightarrow> (\<forall>m \<in> set ms. cm_store m \<in> S)" for S
  proof -
    have "(\<forall>k \<in> set (map cm_store ms'). k \<in> S) \<longleftrightarrow> (\<forall>k \<in> set (map cm_store ms). k \<in> S)" by (simp only: st)
    then show ?thesis by simp
  qed
  have nil: "ms' = [] \<longleftrightarrow> ms = []" using ln by auto
  have "refs (set_msgs c ms' b) q = refs (set_msgs c ms b) q" for q
    unfolding refs_def by (rule sum.cong) (auto simp: st)
  then have "store_ok (set_msgs c ms' b) \<longleftrightarrow> store_ok (set_msgs c ms b)"
    by (simp only: store_ok_set_msgs mem nil)
  moreover have "(\<forall>d. queue_ok (ctxs (set_msgs c ms' b) d)) \<longleftrightarrow> (\<forall>d. queue_ok (ctxs (set_msgs c ms b) d))"
    by (simp add: queue_ok_def ln qs)
  ultimately show ?thesis unfolding queues_ok_def by blast
qed

lemma queues_ok_relabel1:
  assumes "same_ref m m'"
  shows "queues_ok (set_msgs c (xs @ m' # ys) b) \<longleftrightarrow> queues_ok (set_msgs c (xs @ m # ys) b)"
  by (rule queues_ok_relabel) (simp add: list_all2_appendI list_all2_refl assms)

lemma message_remove_simps [simp]:
  "next_ptr (message_remove c m b) = next_ptr b" "store_ptrs (message_remove c m b) = store_ptrs b"
  "msgs (ctxs (message_remove c m b) d) = msgs (ctxs b d)"
  "ref_of (message_remove c m b) q = ref_of (add_ref (-1) (cm_store m) b) q"
  "max_inflight (message_remove c m b) = max_inflight b" "now (message_remove c m b) = now b"
  by (simp_all add: message_remove_def upd_ctx_def ref_of_def stored_msg_def store_ptrs_def add_ref_def upd_store_def)

lemma queues_ok_remove:
  assumes ok: "queues_ok (set_msgs c (xs @ m # ys) b)"
  shows "queues_ok (set_msgs c (xs @ ys) (message_remove c m b))"
proof -
  let ?b = "set_msgs c (xs @ m # ys) b" and ?b' = "set_msgs c (xs @ ys) (message_remove c m b)"
  from ok have s: "store_ok ?b" and q: "\<And>d. queue_ok (ctxs ?b d)" by (simp_all add: queues_ok_def)
  from set_msgs_alloc [OF s] have c: "c < next_ptr b" .
  have mem: "\<And>d k. k \<in> set (msgs (ctxs ?b d)) \<Longrightarrow> cm_store k \<in> set (store_ptrs b)"
    using s unfolding store_ok_def by simp
  have ref: "ref_of ?b' q = refs ?b' q" for q
  proof -
    have r: "refs ?b' q = refs ?b q - (if q = cm_store m then 1 else 0)"
    proof -
      have "refs (message_remove c m b) q = refs b q" by (simp add: refs_def)
      then show ?thesis using c by (simp add: refs_set_msgs count_list_append)
    qed
    have b: "ref_of ?b q = refs ?b q" using s by (simp add: store_ok_def)
    have m: "cm_store m \<in> set (store_ptrs b)" using mem [of m c] by simp
    show ?thesis
    proof (cases "q \<in> set (store_ptrs b)")
      case True
      then show ?thesis using r b by (simp add: ref_of_add_ref)
    next
      case False
      then have "ref_of b q = 0"
        by (auto simp: ref_of_def stored_msg_def store_ptrs_def find_None_iff_ball split: option.splits
            dest: find_Some_set)
      then show ?thesis using r b m False by (auto simp: ref_of_add_ref)
    qed
  qed
  have "store_ok ?b'"
    using ref s by (simp add: store_ok_set_msgs)
  moreover have "queue_ok (ctxs ?b' d)" for d
    using q [of d] by (auto simp: queue_ok_def message_remove_def set_msgs_def upd_ctx_def)
  ultimately show ?thesis by (simp add: queues_ok_def)
qed

text \<open>Steps that touch neither the lists nor their counters nor the reference counts.\<close>

definition acct :: "broker \<Rightarrow> broker \<Rightarrow> bool" where
  "acct b b' \<longleftrightarrow> (\<forall>d. msgs (ctxs b' d) = msgs (ctxs b d) \<and> msg_count (ctxs b' d) = msg_count (ctxs b d) \<and>
       msg_count12 (ctxs b' d) = msg_count12 (ctxs b d)) \<and>
     (\<forall>q. ref_of b' q = ref_of b q) \<and> store_ptrs b' = store_ptrs b \<and> next_ptr b' = next_ptr b"

lemma acct_refl [simp]: "acct b b"
  by (simp add: acct_def)

lemma acct_trans: "acct a b \<Longrightarrow> acct b c \<Longrightarrow> acct a c"
  by (simp add: acct_def)

lemma acct_queues_ok: "acct b b' \<Longrightarrow> queues_ok b' \<longleftrightarrow> queues_ok b"
  by (simp add: acct_def queues_ok_def store_ok_def queue_ok_def refs_def)

lemma acct_set_msgs: "acct b b' \<Longrightarrow> acct (set_msgs c ms b) (set_msgs c ms b')"
  by (simp add: acct_def)

lemma acct_with_ctx:
  assumes "\<And>x. io_only x (snd (f x))"
  shows "acct b (snd (with_ctx c f b))"
  using io_only_fields(1-3) [OF assms]
  by (auto simp: acct_def with_ctx_def ref_of_def stored_msg_def store_ptrs_def split: prod.splits)
    (metis snd_conv)+

lemma acct_updates [simp]:
  "acct b (log_dxl e b)" "acct b (b\<lparr>assert_violated := a\<rparr>)" "acct b (mosquitto_add_new_msgs_set c b)"
  "acct b (upd_ctx c lazy_bridge_check b)" "acct b (upd_ctx c (\<lambda>x. x\<lparr>is_dropping := d\<rparr>) b)"
  by (auto simp: acct_def log_dxl_def ref_of_def stored_msg_def store_ptrs_def mosquitto_add_new_msgs_set_def
      upd_ctx_def lazy_bridge_check_def split: option.splits)

lemma acct_upd_store:
  assumes "\<And>s. store_ptr (f s) = store_ptr s" and "\<And>s. ref_count (f s) = ref_count s"
  shows "acct b (upd_store q f b)"
  using assms
  by (auto simp: acct_def ref_of_def stored_msg_upd_store split: option.splits)
    (auto simp: upd_store_def store_ptrs_def)

section \<open>Every operation keeps the invariant\<close>

lemma ref_of_unstored: "q \<notin> set (store_ptrs b) \<Longrightarrow> ref_of b q = 0"
  by (auto simp: ref_of_def stored_msg_def store_ptrs_def dest: find_Some_set split: option.splits)

lemma append_msg_set_msgs:
  "append_msg c m b = set_msgs c (msgs (ctxs b c) @ [m]) (upd_ctx c
     (\<lambda>x. x\<lparr>msg_count := msg_count x + 1,
            msg_count12 := (if cm_qos m > 0 then msg_count12 x + 1 else msg_count12 x)\<rparr>) (add_ref 1 (cm_store m) b))"
  by (simp add: append_msg_def set_msgs_def upd_ctx_def)

lemma queues_ok_append:
  assumes ok: "queues_ok b" and c: "c < next_ptr b" and q: "cm_store m \<in> set (store_ptrs b)"
  shows "queues_ok (append_msg c m b)"
proof -
  let ?f = "\<lambda>x. x\<lparr>msg_count := msg_count x + 1,
            msg_count12 := (if cm_qos m > 0 then msg_count12 x + 1 else msg_count12 x)\<rparr>"
  let ?b = "upd_ctx c ?f (add_ref 1 (cm_store m) b)"
  have b: "msgs (ctxs ?b d) = msgs (ctxs b d)" "next_ptr ?b = next_ptr b" "store_ptrs ?b = store_ptrs b"
    "ref_of ?b k = ref_of (add_ref 1 (cm_store m) b) k" for d k
    by (simp_all add: upd_ctx_def store_ptrs_def add_ref_def upd_store_def ref_of_def stored_msg_def)
  then have "refs ?b k = refs b k" for k by (simp add: refs_def)
  then have r: "refs (set_msgs c (msgs (ctxs b c) @ [m]) ?b) k = refs b k + (if k = cm_store m then 1 else 0)" for k
    using c b by (simp add: refs_set_msgs count_list_append)
  have s: "store_ok b" using ok by (simp add: queues_ok_def)
  then have e: "ref_of b k = refs b k" for k by (simp add: store_ok_def)
  have "ref_of ?b k = refs (set_msgs c (msgs (ctxs b c) @ [m]) ?b) k" for k
    using r e b(4) q ref_of_unstored [of k b] by (cases "k \<in> set (store_ptrs b)") (auto simp: ref_of_add_ref)
  then have "store_ok (append_msg c m b)"
    unfolding append_msg_set_msgs store_ok_set_msgs b using s q c by (simp add: store_ok_def)
  moreover have "queue_ok (ctxs (append_msg c m b) d)" for d
    using ok by (auto simp: queues_ok_def queue_ok_def append_msg_def upd_ctx_def)
  ultimately show ?thesis by (simp add: queues_ok_def)
qed

lemma insert_allowed_ok:
  assumes "queues_ok b" and "c < next_ptr b" and "q \<in> set (store_ptrs b)"
  shows "queues_ok (snd (insert_allowed H c mid dir qos retain q st rc b))"
proof -
  let ?s = "deref_store b q" and ?b1 = "log_dxl (dxl_insert c (db_id (deref_store b q))) b"
  obtain success icm cp where h: "on_insert_message H (dxl_log b) (ctxs b c) ?s = (success, icm, cp)"
    by (metis prod_cases3)
  define b2 where "b2 = (case cp of None \<Rightarrow> ?b1
     | Some cp \<Rightarrow> upd_store q (\<lambda>s. s\<lparr>msg := (msg s)\<lparr>mm_client_payload := Some cp\<rparr>\<rparr>) ?b1)"
  define m where "m = \<lparr>cm_store = q, cm_mid = mid, cm_qos = qos, cm_retain = retain, cm_timestamp = now b,
                 cm_direction = dir, cm_state = st, cm_dup = False, cm_client_message = icm\<rparr>"
  have a: "acct b b2"
    unfolding b2_def by (auto intro!: acct_trans [OF acct_updates(1) acct_upd_store] split: option.splits)
  then have "queues_ok b2" "c < next_ptr b2" "q \<in> set (store_ptrs b2)"
    using assms by (simp_all add: acct_queues_ok) (simp_all add: acct_def)
  then have "queues_ok (append_msg c m b2)" by (intro queues_ok_append) (simp_all add: m_def)
  then have "queues_ok (upd_ctx c lazy_bridge_check (mosquitto_add_new_msgs_set c (append_msg c m b2)))"
    by (simp add: acct_queues_ok [OF acct_updates(4)] acct_queues_ok [OF acct_updates(3)])
  with \<open>queues_ok b2\<close> show ?thesis
    unfolding insert_allowed_def Let_def h prod.case b2_def [symmetric] m_def [symmetric] by simp
qed

lemma message_insert_ok:
  assumes "queues_ok b" and "c < next_ptr b" and "q \<in> set (store_ptrs b)"
  shows "queues_ok (snd (mqtt3_db_message_insert H c mid dir qos retain q b))"
proof -
  let ?b1 = "if packet_queue_exceeded b (ctxs b c)
    then log_dxl (dxl_packet_queue_exceeded c (db_id (deref_store b q))) b else b"
  have "acct b ?b1" by simp
  then have "queues_ok ?b1" "c < next_ptr ?b1" "q \<in> set (store_ptrs ?b1)"
    using assms by (simp_all only: acct_queues_ok) (simp_all add: acct_def)
  with insert_allowed_ok [of ?b1] assms(1) show ?thesis
    unfolding mqtt3_db_message_insert_def Let_def
    by (auto simp: acct_queues_ok [OF acct_updates(5)] acct_queues_ok [OF acct_updates(2)]
        simp del: acct_updates split: insert_decision.splits)
qed

lemma message_delete_loop_ok:
  "queues_ok (set_msgs c (before @ tail) b) \<Longrightarrow> queues_ok (message_delete_loop c mid dir i d before tail b)"
proof (induction c mid dir i d before tail b rule: message_delete_loop.induct)
  case (1 c mid dir i d before b)
  then show ?case by simp
next
  case (2 c mid dir i d before m tail b)
  let ?m = "promote (now b) (max_inflight b) (i + 1) m"
  have ok: "queues_ok (set_msgs c (before @ ?m # tail) b)"
    using "2.prems" by (simp add: queues_ok_relabel1 [of m ?m])
  show ?case
    using "2.IH" ok queues_ok_remove [OF ok]
    by (auto simp: Let_def)
qed

lemma message_delete_ok: "queues_ok b \<Longrightarrow> queues_ok (snd (mqtt3_db_message_delete c mid dir b))"
  by (simp add: mqtt3_db_message_delete_def message_delete_loop_ok)

lemma message_update_loop_same_ref: "list_all2 same_ref ms (snd (message_update_loop t mid dir st ms))"
  by (induction t mid dir st ms rule: message_update_loop.induct)
    (auto simp: list_all2_refl split: prod.splits)

lemma queues_ok_set_msgs:
  "list_all2 same_ref (msgs (ctxs b c)) ms \<Longrightarrow> queues_ok b \<Longrightarrow> queues_ok (set_msgs c ms b)"
  by (simp add: queues_ok_relabel)

lemma message_update_ok: "queues_ok b \<Longrightarrow> queues_ok (snd (mqtt3_db_message_update c mid dir st b))"
  using message_update_loop_same_ref [of "msgs (ctxs b c)" "now b" mid dir st]
  by (auto simp: mqtt3_db_message_update_def intro: queues_ok_set_msgs split: prod.splits)

lemma timeout_check_ok: "queues_ok b \<Longrightarrow> queues_ok (snd (mqtt3_db_message_timeout_check c n b))"
  by (auto simp: mqtt3_db_message_timeout_check_def list_all2_map2 list_all2_refl intro!: queues_ok_set_msgs)

lemma drop_refs_simps [simp]:
  "ctxs (drop_refs ms b) = ctxs b" "next_ptr (drop_refs ms b) = next_ptr b" "store_ptrs (drop_refs ms b) = store_ptrs b"
  by (induction ms b rule: drop_refs.induct) simp_all

lemma ref_of_drop_refs:
  "q \<in> set (store_ptrs b) \<Longrightarrow> ref_of (drop_refs ms b) q = ref_of b q - int (count_list (map cm_store ms) q)"
  by (induction ms b rule: drop_refs.induct) (auto simp: ref_of_add_ref)

lemma messages_delete_ok:
  assumes ok: "queues_ok b"
  shows "queues_ok (snd (mqtt3_db_messages_delete c b))"
proof -
  let ?f = "\<lambda>x. x\<lparr>msg_count := 0, msg_count12 := 0, ctx_subscription_count := 0\<rparr>"
  define B where "B = upd_ctx c ?f (drop_refs (msgs (ctxs b c)) b)"
  have eq: "snd (mqtt3_db_messages_delete c b) = set_msgs c [] B"
    by (auto simp: B_def mqtt3_db_messages_delete_def set_msgs_def upd_ctx_def intro!: broker.equality ext mosquitto.equality)
  have b: "msgs (ctxs B d) = msgs (ctxs b d)" "next_ptr B = next_ptr b" "store_ptrs B = store_ptrs b"
    "ref_of B k = ref_of (drop_refs (msgs (ctxs b c)) b) k" for d k
    using drop_refs_simps(3) [of "msgs (ctxs b c)" b]
    by (simp_all add: B_def upd_ctx_def store_ptrs_def ref_of_def stored_msg_def)
  have s: "store_ok b" using ok by (simp add: queues_ok_def)
  have e1: "refs B k = refs b k" for k by (simp only: refs_def b)
  have e2: "ref_of b k = refs b k" for k using s by (simp add: store_ok_def)
  note e = e1 e2
  have "count_list (map cm_store (msgs (ctxs b c))) k = 0" if "k \<notin> set (store_ptrs b)" for k
    using s that by (auto simp: store_ok_def count_list_0_iff)
  then have z: "k \<notin> set (store_ptrs b) \<Longrightarrow> count_list (map cm_store (msgs (ctxs b c))) k = 0" for k .
  have "ref_of B k = refs b k - int (count_list (map cm_store (msgs (ctxs b c))) k)" for k
  proof (cases "k \<in> set (store_ptrs b)")
    case True
    then show ?thesis by (simp only: b(4) ref_of_drop_refs e2)
  next
    case False
    then have "ref_of B k = 0" "ref_of b k = 0" using ref_of_unstored [of k B] ref_of_unstored [of k b] by (simp_all only: b simp_thms)
    then show ?thesis using z [OF False] e2 [of k] by linarith
  qed
  moreover have "refs (set_msgs c [] B) k = refs b k - int (count_list (map cm_store (msgs (ctxs b c))) k)" for k
  proof (cases "c < next_ptr b")
    case True
    then show ?thesis using refs_set_msgs [of c B "[]" k] by (simp only: b e1 list.map count_list.simps)
  next
    case False
    then have "msgs (ctxs b c) = []" using s by (simp add: store_ok_def)
    then have "set_msgs c [] B = B" using set_msgs_same [of c B] by (simp only: b)
    then show ?thesis using \<open>msgs (ctxs b c) = []\<close> by (simp only: e1 list.map count_list.simps)
  qed
  ultimately have "store_ok (set_msgs c [] B)"
    unfolding store_ok_set_msgs b using s by (simp add: store_ok_def)
  moreover have "queue_ok (ctxs (set_msgs c [] B) d)" for d
    using ok by (auto simp: B_def queues_ok_def queue_ok_def upd_ctx_def set_msgs_def)
  ultimately show ?thesis by (simp add: queues_ok_def eq)
qed

text \<open>Incoming messages are QoS 2: the only ones the broker has to remember.\<close>

definition incoming_qos2 :: "client_msg list \<Rightarrow> bool" where
  "incoming_qos2 ms \<longleftrightarrow> (\<forall>m \<in> set ms. cm_direction m = mosq_md_in \<longrightarrow> cm_qos m = 2)"

definition reset_msg :: "client_msg \<Rightarrow> client_msg" where
  "reset_msg m = (if cm_direction m = mosq_md_out then reset_out m else m)"

lemma msg_direction_cases: "d \<noteq> mosq_md_out \<longleftrightarrow> d = mosq_md_in"
  by (cases d) simp_all

lemma reconnect_reset_loop_eq:
  assumes "incoming_qos2 tail"
  shows "reconnect_reset_loop c before tail b = set_msgs c (before @ map reset_msg tail)
    (upd_ctx c (\<lambda>x. x\<lparr>msg_count := msg_count x + int (length tail),
       msg_count12 := msg_count12 x + int (length (filter (\<lambda>m. cm_qos m > 0) tail))\<rparr>) b)"
  using assms
proof (induction tail arbitrary: before b)
  case Nil
  then show ?case by (simp add: set_msgs_def upd_ctx_def)
next
  case (Cons m tail)
  let ?b1 = "upd_ctx c (\<lambda>x. x\<lparr>msg_count := msg_count x + 1,
                 msg_count12 := (if cm_qos m > 0 then msg_count12 x + 1 else msg_count12 x)\<rparr>) b"
  have "reconnect_reset_loop c before (m # tail) b = reconnect_reset_loop c (before @ [reset_msg m]) tail ?b1"
    using Cons.prems by (auto simp: incoming_qos2_def reset_msg_def msg_direction_cases)
  moreover have "incoming_qos2 tail" using Cons.prems by (simp add: incoming_qos2_def)
  ultimately show ?case
    by (simp only: Cons.IH) (simp add: set_msgs_def upd_ctx_def algebra_simps)
qed

lemma publish_queued_loop_same_ref: "list_all2 same_ref ms (publish_queued_loop n i ms)"
  by (induction n i ms rule: publish_queued_loop.induct) (auto simp: list_all2_refl)

lemma reset_msg_same_ref: "list_all2 same_ref ms (map reset_msg ms)"
  by (simp add: list_all2_map2 list_all2_refl reset_msg_def)

lemma same_ref_trans: "list_all2 same_ref ms ms' \<Longrightarrow> list_all2 same_ref ms' ms'' \<Longrightarrow> list_all2 same_ref ms ms''"
  by (rule list_all2_trans [of same_ref same_ref same_ref]) (auto simp: same_ref_def)

text \<open>After the reset the counters are right whatever they were before.\<close>

lemma reconnect_reset_eq:
  assumes "incoming_qos2 (msgs (ctxs b c))" and "queue_ok (ctxs b c)"
  shows "snd (mqtt3_db_message_reconnect_reset c b) =
    set_msgs c (publish_queued_loop (max_inflight b) 0 (map reset_msg (msgs (ctxs b c))))
      (upd_ctx c (\<lambda>x. x\<lparr>ctx_subscription_count := 0\<rparr>) b)"
proof -
  have "mqtt3_db_message_reconnect_reset c b = (0, set_msgs c (publish_queued_loop (max_inflight b) 0 (map reset_msg (msgs (ctxs b c))))
    (upd_ctx c (\<lambda>x. x\<lparr>msg_count := int (length (msgs (ctxs b c))),
       msg_count12 := int (length (filter (\<lambda>m. cm_qos m > 0) (msgs (ctxs b c)))), ctx_subscription_count := 0\<rparr>) b))"
    using assms(1) by (simp add: mqtt3_db_message_reconnect_reset_def reconnect_reset_loop_eq)
      (auto simp: set_msgs_def upd_ctx_def intro!: broker.equality ext mosquitto.equality)
  then show ?thesis
    using assms(2) by (auto simp: queue_ok_def set_msgs_def upd_ctx_def intro!: broker.equality ext mosquitto.equality)
qed

lemma reconnect_reset_ok:
  assumes "queues_ok b" and "incoming_qos2 (msgs (ctxs b c))"
  shows "queues_ok (snd (mqtt3_db_message_reconnect_reset c b))"
proof -
  have "queue_ok (ctxs b c)" using assms(1) by (simp add: queues_ok_def)
  moreover have "acct b (upd_ctx c (\<lambda>x. x\<lparr>ctx_subscription_count := 0\<rparr>) b)"
    by (simp add: acct_def upd_ctx_def ref_of_def stored_msg_def store_ptrs_def)
  then have "queues_ok (upd_ctx c (\<lambda>x. x\<lparr>ctx_subscription_count := 0\<rparr>) b)" using assms(1) acct_queues_ok by blast
  ultimately show ?thesis
    using assms(2) same_ref_trans [OF reset_msg_same_ref publish_queued_loop_same_ref]
    by (simp add: reconnect_reset_eq) (rule queues_ok_set_msgs, simp_all add: upd_ctx_def)
qed

section \<open>The writer\<close>

lemma with_ctx_simps [simp]:
  "max_inflight (snd (with_ctx c f b)) = max_inflight b" "now (snd (with_ctx c f b)) = now b"
  "msg_store (snd (with_ctx c f b)) = msg_store b" "ctxs (snd (with_ctx c f b)) c = snd (f (ctxs b c))"
  "fst (with_ctx c f b) = fst (f (ctxs b c))"
  by (simp_all add: with_ctx_def split: prod.splits)

lemma send_stored_acct: "acct b (snd (send_stored c m b))"
  unfolding send_stored_def Let_def
  by (auto split: option.splits intro!: acct_with_ctx send_io_only)

lemma send_stored_simps [simp]:
  "max_inflight (snd (send_stored c m b)) = max_inflight b" "now (snd (send_stored c m b)) = now b"
  by (simp_all add: send_stored_def Let_def split: option.splits)

text \<open>The shape of every round: something is sent, and a QoS 0 message that was sent is removed.\<close>

lemma message_write_step_form:
  assumes "message_write_step c m b = (rc, nxt, b')"
  shows "\<exists>b0. acct b b0 \<and> max_inflight b0 = max_inflight b \<and> now b0 = now b \<and>
    b' = (if cm_state m = mosq_ms_publish_qos0 \<and> rc = MOSQ_ERR_SUCCESS then message_remove c m b0 else b0) \<and>
    (cm_state m = mosq_ms_publish_qos0 \<longrightarrow> nxt = None) \<and>
    (cm_state m \<noteq> mosq_ms_publish_qos0 \<longrightarrow> (\<exists>m'. nxt = Some m' \<and> same_ref m m'))"
proof -
  have acks: "acct b (snd (with_ctx c f b))" if "\<And>x. io_only x (snd (f x))" for f
    using acct_with_ctx that by blast
  show ?thesis
  proof (cases "cm_state m = mosq_ms_publish_qos0")
    case True
    with assms send_stored_acct [of b c m] show ?thesis
      by (intro exI [of _ "snd (send_stored c m b)"]) (auto simp: message_write_step_def Let_def split_beta)
  next
    case False
    with assms send_stored_acct [of b c m] acks show ?thesis
      by (intro exI [of _ b']) (cases "cm_state m"; auto simp: message_write_step_def Let_def split_beta send_io_only)
  qed
qed

lemma message_write_step_ok:
  assumes ok: "queues_ok (set_msgs c (before @ m # rest) b)" and step: "message_write_step c m b = (rc, nxt, b')"
  shows "rc \<noteq> MOSQ_ERR_SUCCESS \<Longrightarrow> queues_ok (set_msgs c (before @ m # rest) b')"
    and "rc = MOSQ_ERR_SUCCESS \<Longrightarrow> nxt = None \<Longrightarrow> queues_ok (set_msgs c (before @ rest) b')"
    and "rc = MOSQ_ERR_SUCCESS \<Longrightarrow> nxt = Some m' \<Longrightarrow> queues_ok (set_msgs c (before @ m' # rest) b')"
proof -
  obtain b0 where b0: "acct b b0"
      "b' = (if cm_state m = mosq_ms_publish_qos0 \<and> rc = MOSQ_ERR_SUCCESS then message_remove c m b0 else b0)"
      "cm_state m = mosq_ms_publish_qos0 \<longrightarrow> nxt = None"
      "cm_state m \<noteq> mosq_ms_publish_qos0 \<longrightarrow> (\<exists>m'. nxt = Some m' \<and> same_ref m m')"
    using message_write_step_form [OF step] by blast
  have ok0: "queues_ok (set_msgs c (before @ m # rest) b0)"
    using acct_queues_ok [OF acct_set_msgs [OF b0(1)]] ok by blast
  show "rc \<noteq> MOSQ_ERR_SUCCESS \<Longrightarrow> queues_ok (set_msgs c (before @ m # rest) b')"
    and "rc = MOSQ_ERR_SUCCESS \<Longrightarrow> nxt = None \<Longrightarrow> queues_ok (set_msgs c (before @ rest) b')"
    and "rc = MOSQ_ERR_SUCCESS \<Longrightarrow> nxt = Some m' \<Longrightarrow> queues_ok (set_msgs c (before @ m' # rest) b')"
    using b0(2-4) ok0 queues_ok_remove [OF ok0] queues_ok_relabel1 [of m m' c before rest b0]
    by (cases "cm_state m = mosq_ms_publish_qos0"; auto)+
qed

lemma message_write_loop_ok:
  assumes "message_write_loop c n before tail b = Some r"
  shows "queues_ok (set_msgs c (before @ tail) b) \<longrightarrow> queues_ok (snd r)"
proof (rule message_write_loop.raw_induct [OF _ assms, where P = "\<lambda>c n before tail b r.
    queues_ok (set_msgs c (before @ tail) b) \<longrightarrow> queues_ok (snd r)"], intro impI)
  fix f c n before tail b r
  assume IH: "\<And>c n before tail b r. f c n before tail b = Some r \<Longrightarrow>
      queues_ok (set_msgs c (before @ tail) b) \<longrightarrow> queues_ok (snd r)"
    and body: "(case tail of
        [] \<Rightarrow> Some (MOSQ_ERR_SUCCESS, set_msgs c before b)
      | m # rest \<Rightarrow>
          let count' = (if cm_direction m = mosq_md_in then n + 1 else n) in
          if cm_state m \<noteq> mosq_ms_queued then
            let (rc, nxt, b') = message_write_step c m b in
            if rc \<noteq> MOSQ_ERR_SUCCESS then Some (rc, set_msgs c (before @ tail) b')
            else (case nxt of
                    None \<Rightarrow> f c count' before rest b'
                  | Some m' \<Rightarrow> f c count' (before @ [m']) rest b')
          else if cm_direction m = mosq_md_in \<and> (max_inflight b = 0 \<or> count' < max_inflight b) then
            (if cm_qos m = 2 then f c count' before (m\<lparr>cm_state := mosq_ms_send_pubrec\<rparr> # rest) b
             else f c count' before tail b)
          else f c count' (before @ [m]) rest b) = Some r"
    and ok: "queues_ok (set_msgs c (before @ tail) b)"
  show "queues_ok (snd r)"
  proof (cases tail)
    case Nil
    with body ok show ?thesis by auto
  next
    case (Cons m rest)
    obtain rc nxt b' where s: "message_write_step c m b = (rc, nxt, b')" by (metis prod_cases3)
    show ?thesis
    proof (cases "cm_state m = mosq_ms_queued")
      case True
      let ?m = "m\<lparr>cm_state := mosq_ms_send_pubrec\<rparr>"
      have ok': "queues_ok (set_msgs c (before @ ?m # rest) b)"
        using ok Cons queues_ok_relabel1 [of m ?m c before rest b] by simp
      have "\<exists>k. f c k before (?m # rest) b = Some r \<or> f c k before (m # rest) b = Some r \<or>
          f c k (before @ [m]) rest b = Some r"
        using body True Cons by (simp add: Let_def split: if_splits) blast+
      then show ?thesis
        using IH [of c _ before "?m # rest" b r] IH [of c _ before "m # rest" b r] IH [of c _ "before @ [m]" rest b r]
          ok ok' Cons by auto
    next
      case False
      consider "rc \<noteq> MOSQ_ERR_SUCCESS" "r = (rc, set_msgs c (before @ tail) b')"
        | k where "rc = MOSQ_ERR_SUCCESS" "nxt = None" "f c k before rest b' = Some r"
        | k m' where "rc = MOSQ_ERR_SUCCESS" "nxt = Some m'" "f c k (before @ [m']) rest b' = Some r"
        using body False Cons s by (simp add: Let_def split: if_splits option.splits)
      then show ?thesis
      proof cases
        case 1
        then show ?thesis using message_write_step_ok(1) [OF _ s, of before rest] ok Cons by simp
      next
        case (2 k)
        then show ?thesis using message_write_step_ok(2) [OF _ s, of before rest] IH [OF 2(3)] ok Cons by simp
      next
        case (3 k m')
        then show ?thesis using message_write_step_ok(3) [OF _ s, of before rest m'] IH [OF 3(3)] ok Cons by simp
      qed
    qed
  qed
qed

lemma message_write_ok:
  "queues_ok b \<Longrightarrow> mqtt3_db_message_write c b = Some r \<Longrightarrow> queues_ok (snd r)"
  by (auto simp: mqtt3_db_message_write_def Let_def split: if_splits dest!: message_write_loop_ok)

lemma message_write_step_inflight: "message_write_step c m b = (rc, nxt, b') \<Longrightarrow> max_inflight b' = max_inflight b"
  by (drule message_write_step_form) (auto split: if_splits)

text \<open>
  The loop returns unless an incoming message below QoS 2 waits in the queue of a broker without an
  in-flight limit. With a limit the counter, raised at each visit, ends the revisits.
\<close>

lemma message_write_loop_sent:
  assumes rest: "\<And>n before b'. max_inflight b' = max_inflight b \<Longrightarrow> \<exists>r. message_write_loop c n before rest b' = Some r"
    and "cm_state m \<noteq> mosq_ms_queued"
  shows "\<exists>r. message_write_loop c n before (m # rest) b = Some r"
proof -
  obtain rc nxt b' where s: "message_write_step c m b = (rc, nxt, b')" by (metis prod_cases3)
  note r = rest [OF message_write_step_inflight [OF s]]
  show ?thesis
    using assms(2) s r by (subst message_write_loop.simps) (simp add: Let_def split: option.split)
qed

lemma message_write_loop_revisit:
  assumes rest: "\<And>n before. \<exists>r. message_write_loop c n before rest b = Some r"
    and m: "cm_state m = mosq_ms_queued" "cm_direction m = mosq_md_in" "cm_qos m \<noteq> 2" and "max_inflight b \<noteq> 0"
  shows "\<exists>r. message_write_loop c n before (m # rest) b = Some r"
proof (induction "nat (max_inflight b - n)" arbitrary: n rule: less_induct)
  case less
  show ?case
  proof (cases "n + 1 < max_inflight b")
    case True
    then have "nat (max_inflight b - (n + 1)) < nat (max_inflight b - n)" by simp
    from less [OF this] show ?thesis
      using True assms(5) m by (subst message_write_loop.simps) simp
  next
    case False
    then show ?thesis using rest assms(5) m by (subst message_write_loop.simps) simp
  qed
qed

lemma message_write_loop_returns:
  assumes "max_inflight b \<noteq> 0 \<or> incoming_qos2 tail"
  shows "\<exists>r. message_write_loop c n before tail b = Some r"
  using assms
proof (induction tail arbitrary: n before b)
  case Nil
  then show ?case by (subst message_write_loop.simps) simp
next
  case (Cons m rest)
  have IH: "\<exists>r. message_write_loop c n before rest b' = Some r" if "max_inflight b' = max_inflight b" for n before b'
    using Cons.IH [of b'] Cons.prems that by (auto simp: incoming_qos2_def)
  let ?n = "if cm_direction m = mosq_md_in then n + 1 else n"
  have q: "cm_qos m = 2" if "max_inflight b = 0" "cm_direction m = mosq_md_in"
    using Cons.prems that by (simp add: incoming_qos2_def)
  consider "cm_state m \<noteq> mosq_ms_queued"
    | "cm_state m = mosq_ms_queued" "\<not> (cm_direction m = mosq_md_in \<and> (max_inflight b = 0 \<or> ?n < max_inflight b))"
    | "cm_state m = mosq_ms_queued" "cm_direction m = mosq_md_in \<and> (max_inflight b = 0 \<or> ?n < max_inflight b)" "cm_qos m = 2"
    | "cm_state m = mosq_ms_queued" "cm_direction m = mosq_md_in" "cm_qos m \<noteq> 2" "max_inflight b \<noteq> 0"
    using q by blast
  then show ?case
  proof cases
    case 1
    show ?thesis by (rule message_write_loop_sent [OF IH 1])
  next
    case 2
    then show ?thesis using IH [OF refl] by (subst message_write_loop.simps) (simp only: list.case Let_def simp_thms if_False if_True)
  next
    case 3
    have "\<exists>r. message_write_loop c ?n before (m\<lparr>cm_state := mosq_ms_send_pubrec\<rparr> # rest) b = Some r"
      by (rule message_write_loop_sent [OF IH]) simp_all
    then show ?thesis using 3 by (subst message_write_loop.simps) (auto simp: Let_def)
  next
    case 4
    show ?thesis by (rule message_write_loop_revisit [OF IH [OF refl] 4])
  qed
qed

text \<open>The one case in which it does not return.\<close>

lemma message_write_loop_diverges:
  assumes "cm_state m = mosq_ms_queued" "cm_direction m = mosq_md_in" "cm_qos m \<noteq> 2" "max_inflight b = 0"
  shows "message_write_loop c n before (m # rest) b = None"
proof -
  have no: "c = c' \<and> tail = m # rest \<and> b' = b \<longrightarrow> False"
    if "message_write_loop c' n before tail b' = Some r" for c' n before tail b' r
    using assms
    by (intro message_write_loop.raw_induct [OF _ that, where P = "\<lambda>c' n before tail b' r.
          c = c' \<and> tail = m # rest \<and> b' = b \<longrightarrow> False"])
      (clarsimp simp: Let_def, blast)
  then show ?thesis by (metis option.exhaust)
qed

subsection \<open>First in, first out\<close>

text \<open>
  The bytes a queued message stands for, and what a round leaves of it. The theorem on the writer is
  stated with these: the queue is sent in order, each message in full.
\<close>

definition stored_payload :: "broker \<Rightarrow> client_msg \<Rightarrow> byte list" where
  "stored_payload b m = (let s = msg (deref_store b (cm_store m)) in
     if cm_client_message m then (case mm_client_payload s of None \<Rightarrow> [] | Some cp \<Rightarrow> cp) else mm_payload s)"

definition stored_topic :: "broker \<Rightarrow> client_msg \<Rightarrow> string option" where
  "stored_topic b m = mm_topic (msg (deref_store b (cm_store m)))"

definition publish_bytes :: "broker \<Rightarrow> client_msg \<Rightarrow> byte list" where
  "publish_bytes b m = mqtt_packet (publish_command (cm_dup m) (cm_qos m) (cm_retain m))
     (publish_body (the (stored_topic b m)) (cm_mid m) (cm_qos m) (stored_payload b m))"

definition wire_of :: "broker \<Rightarrow> client_msg \<Rightarrow> byte list" where
  "wire_of b m = (case cm_state m of
       mosq_ms_publish_qos0 \<Rightarrow> publish_bytes b m
     | mosq_ms_publish_qos1 \<Rightarrow> publish_bytes b m
     | mosq_ms_publish_qos2 \<Rightarrow> publish_bytes b m
     | mosq_ms_send_pubrec \<Rightarrow> mqtt_packet PUBREC (mqtt_uint16 (cm_mid m))
     | mosq_ms_resend_pubrel \<Rightarrow> mqtt_packet (PUBREL OR 2 OR 8) (mqtt_uint16 (cm_mid m))
     | mosq_ms_resend_pubcomp \<Rightarrow> mqtt_packet PUBCOMP (mqtt_uint16 (cm_mid m))
     | _ \<Rightarrow> [])"

definition after_write :: "int \<Rightarrow> client_msg \<Rightarrow> client_msg option" where
  "after_write t m = (case cm_state m of
       mosq_ms_publish_qos0 \<Rightarrow> None
     | mosq_ms_publish_qos1 \<Rightarrow> Some (m\<lparr>cm_timestamp := t, cm_dup := True, cm_state := mosq_ms_wait_for_puback\<rparr>)
     | mosq_ms_publish_qos2 \<Rightarrow> Some (m\<lparr>cm_timestamp := t, cm_dup := True, cm_state := mosq_ms_wait_for_pubrec\<rparr>)
     | mosq_ms_send_pubrec \<Rightarrow> Some (m\<lparr>cm_state := mosq_ms_wait_for_pubrel\<rparr>)
     | mosq_ms_resend_pubrel \<Rightarrow> Some (m\<lparr>cm_state := mosq_ms_wait_for_pubcomp\<rparr>)
     | mosq_ms_resend_pubcomp \<Rightarrow> Some (m\<lparr>cm_state := mosq_ms_wait_for_pubrel\<rparr>)
     | _ \<Rightarrow> Some m)"

definition publishable :: "broker \<Rightarrow> client_msg \<Rightarrow> bool" where
  "publishable b m \<longleftrightarrow> (case stored_topic b m of None \<Rightarrow> False
     | Some topic \<Rightarrow> length topic < 2 ^ 16 \<and> length (publish_body topic (cm_mid m) (cm_qos m) (stored_payload b m)) < 2 ^ 28)"

definition online :: "mosquitto \<Rightarrow> bool" where
  "online x \<longleftrightarrow> \<not> IS_CONTEXT_INVALID x \<and> no_remap x \<and> out_queue_ok x"

lemma online_sends: "online x \<Longrightarrow> io_only x y \<Longrightarrow> sends x bs y \<Longrightarrow> online y \<and> stream y = stream x @ bs"
  by (simp add: online_def sends_def IS_CONTEXT_INVALID_def no_remap_def io_only_fields)

lemma send_stored_online:
  assumes "online (ctxs b c)" and "publishable b m"
  shows "online (ctxs (snd (send_stored c m b)) c) \<and>
    stream (ctxs (snd (send_stored c m b)) c) = stream (ctxs b c) @ publish_bytes b m"
proof -
  obtain topic where t: "stored_topic b m = Some topic" "length topic < 2 ^ 16"
      "length (publish_body topic (cm_mid m) (cm_qos m) (stored_payload b m)) < 2 ^ 28"
    using assms(2) by (auto simp: publishable_def split: option.splits)
  let ?f = "\<lambda>x. send_publish (now b) x (cm_mid m) topic (stored_payload b m) (cm_qos m) (cm_retain m) (cm_dup m)"
  have "send_stored c m b = with_ctx c ?f b"
    using t(1) by (simp add: send_stored_def stored_topic_def stored_payload_def Let_def)
  moreover have "sends (ctxs b c) (publish_bytes b m) (snd (?f (ctxs b c)))"
    using send_publish_sends [of "ctxs b c" topic] assms(1) t by (simp add: online_def publish_bytes_def)
  ultimately show ?thesis
    using online_sends [OF assms(1) send_publish_io_only] by simp
qed

lemma send_acks_sends:
  assumes "out_queue_ok x"
  shows "sends x (mqtt_packet PUBREC (mqtt_uint16 mid)) (snd (send_pubrec t x mid))"
    and "sends x (mqtt_packet PUBCOMP (mqtt_uint16 mid)) (snd (send_pubcomp t x mid))"
    and "sends x (mqtt_packet PUBACK (mqtt_uint16 mid)) (snd (send_puback t x mid))"
    and "sends x (mqtt_packet (PUBREL OR 2 OR 8) (mqtt_uint16 mid)) (snd (send_pubrel t x mid True))"
  using send_command_with_mid_sends [OF assms, of False PUBREC] send_command_with_mid_sends [OF assms, of False PUBCOMP]
    send_command_with_mid_sends [OF assms, of False PUBACK] send_command_with_mid_sends [OF assms, of True "PUBREL OR 2"]
  by (simp_all add: send_pubrec_def send_pubcomp_def send_puback_def send_pubrel_def or.assoc)

definition publishing :: "client_msg \<Rightarrow> bool" where
  "publishing m \<longleftrightarrow> cm_state m \<in> {mosq_ms_publish_qos0, mosq_ms_publish_qos1, mosq_ms_publish_qos2}"

lemma message_write_step_online:
  assumes "online (ctxs b c)" and "publishing m \<longrightarrow> publishable b m"
    and "message_write_step c m b = (MOSQ_ERR_SUCCESS, nxt, b')"
  shows "online (ctxs b' c) \<and> stream (ctxs b' c) = stream (ctxs b c) @ wire_of b m \<and> nxt = after_write (now b) m"
proof -
  have remove: "online (ctxs (message_remove c m B) c) = online (ctxs B c)"
    "stream (ctxs (message_remove c m B) c) = stream (ctxs B c)" for B
    by (simp_all add: message_remove_def upd_ctx_def online_def IS_CONTEXT_INVALID_def no_remap_def
        out_queue_ok_def queued_packets_def stream_def)
  have oq: "out_queue_ok (ctxs b c)" using assms(1) by (simp add: online_def)
  note acks = online_sends [OF assms(1) send_acks_io_only(2) send_acks_sends(2) [OF oq]]
    online_sends [OF assms(1) send_acks_io_only(3) send_acks_sends(1) [OF oq]]
    online_sends [OF assms(1) send_acks_io_only(4) send_acks_sends(4) [OF oq]]
  have pub: "publishing m \<Longrightarrow> online (ctxs (snd (send_stored c m b)) c) \<and>
      stream (ctxs (snd (send_stored c m b)) c) = stream (ctxs b c) @ publish_bytes b m"
    using send_stored_online [OF assms(1)] assms(2) by blast
  show ?thesis
    using assms(1,3) acks pub remove
    by (cases "cm_state m")
      (auto simp: message_write_step_def Let_def split_beta publishing_def wire_of_def after_write_def)
qed

lemma store_contents_keep:
  assumes "message_write_step c m b = (rc, nxt, b')"
  shows "msg (deref_store b' q) = msg (deref_store b q)"
proof -
  have "msg_store (snd (send_stored c m b)) = msg_store b"
    by (simp add: send_stored_def Let_def split: option.split)
  then have s: "deref_store (snd (send_stored c m b)) q = deref_store b q" "deref_store (snd (with_ctx c f b)) q = deref_store b q" for f
    by (simp_all add: deref_store_def stored_msg_def)
  have "stored_msg (message_remove c m B) q = stored_msg (add_ref (-1) (cm_store m) B) q" for B
    by (simp add: message_remove_def stored_msg_def upd_ctx_def)
  then have "msg (deref_store (message_remove c m B) q) = msg (deref_store B q)" for B
    by (auto simp: deref_store_def add_ref_def stored_msg_upd_store split: option.splits)
  with s assms show ?thesis
    by (cases "cm_state m") (auto simp: message_write_step_def Let_def split_beta)
qed

lemma wire_of_cong:
  assumes "\<And>q. msg (deref_store b' q) = msg (deref_store b q)"
  shows "wire_of b' m = wire_of b m" "publishable b' m = publishable b m"
proof -
  have e: "stored_payload b' m = stored_payload b m" "stored_topic b' m = stored_topic b m"
    using assms by (simp_all add: stored_topic_def stored_payload_def)
  have p: "publish_bytes b' m = publish_bytes b m" by (simp add: publish_bytes_def e)
  show "wire_of b' m = wire_of b m" "publishable b' m = publishable b m"
    unfolding wire_of_def publishable_def e p by (rule refl)+
qed

lemma message_write_loop_fifo:
  assumes "online (ctxs b c)" and "\<forall>m \<in> set tail. cm_direction m = mosq_md_out"
    and "\<forall>m \<in> set tail. publishing m \<longrightarrow> publishable b m"
    and "message_write_loop c n before tail b = Some (MOSQ_ERR_SUCCESS, b')"
  shows "stream (ctxs b' c) = stream (ctxs b c) @ concat (map (wire_of b) tail) \<and>
    msgs (ctxs b' c) = before @ List.map_filter (after_write (now b)) tail"
  using assms
proof (induction tail arbitrary: n before b)
  case Nil
  have "b' = set_msgs c before b" using Nil.prems(4) by (subst (asm) message_write_loop.simps) simp
  then show ?case by (simp add: set_msgs_def upd_ctx_def stream_def queued_packets_def List.map_filter_def)
next
  case (Cons m rest)
  show ?case
  proof (cases "cm_state m = mosq_ms_queued")
    case True
    then have "message_write_loop c n (before @ [m]) rest b = Some (MOSQ_ERR_SUCCESS, b')"
      using Cons.prems(2,4) by (subst (asm) message_write_loop.simps) simp
    from Cons.IH [OF Cons.prems(1) _ _ this] Cons.prems(2,3) True show ?thesis
      by (simp add: wire_of_def after_write_def List.map_filter_simps)
  next
    case False
    obtain rc nxt b1 where s: "message_write_step c m b = (rc, nxt, b1)" by (metis prod_cases3)
    have rc: "rc = MOSQ_ERR_SUCCESS"
      using Cons.prems(2,4) False s by (subst (asm) message_write_loop.simps) (simp add: Let_def split: if_splits)
    have nx: "now b1 = now b" using message_write_step_form [OF s] by (auto split: if_splits)
    note o = message_write_step_online [OF Cons.prems(1) _ s [unfolded rc]]
    have o': "online (ctxs b1 c)" "stream (ctxs b1 c) = stream (ctxs b c) @ wire_of b m" "nxt = after_write (now b) m"
      using o Cons.prems(3) by simp_all
    note w = wire_of_cong [OF store_contents_keep [OF s]]
    have l: "message_write_loop c n (before @ (case nxt of None \<Rightarrow> [] | Some m' \<Rightarrow> [m'])) rest b1 = Some (MOSQ_ERR_SUCCESS, b')"
      using Cons.prems(2,4) False s rc by (subst (asm) message_write_loop.simps) (simp add: Let_def split: option.splits)
    have "\<forall>m \<in> set rest. cm_direction m = mosq_md_out" "\<forall>m \<in> set rest. publishing m \<longrightarrow> publishable b1 m"
      using Cons.prems(2,3) by (simp_all add: w)
    from Cons.IH [OF o'(1) this l] show ?thesis
      using o' nx by (simp add: w List.map_filter_simps split: option.splits)
  qed
qed

end
