(* ===== verification/Subs.thy ===== *)
theory Subs
  imports Queue
begin

text \<open>
  The subscription tree: src/mqtt-core/src/subs.c and src/mqtt-core/src/search_optimization.c. A
  function that changes the tree below a node returns the changed node; its caller puts it back in
  the place it came from. \<open>context = None\<close> is the NULL context of the retained-message path.
\<close>

section \<open>Nodes\<close>

definition new_hier :: "string \<Rightarrow> subhier" where
  "new_hier t = Subhier t [] None [] [] 0 0"

definition topic_is_wild_card :: "string \<Rightarrow> string \<Rightarrow> bool" where
  "topic_is_wild_card topic_name wild_card \<longleftrightarrow> topic_name = wild_card"

text \<open>\<^verbatim>\<open>HASH_FIND_STR\<close>: an entry leads to the child that bears its key.\<close>

definition child_of :: "string \<Rightarrow> subhier list \<Rightarrow> subhier option" where
  "child_of key cs = find (\<lambda>c. hier_topic c = key) cs"

definition hash_find :: "subhier \<Rightarrow> string \<Rightarrow> subhier option" where
  "hash_find h key = (if key \<in> set (children_hash_table h) then child_of key (hier_children h) else None)"

definition add_heir_to_hash :: "string list \<Rightarrow> string \<Rightarrow> string list" where
  "add_heir_to_hash table t = (if t \<in> set table then table else table @ [t])"

definition remove_heir_from_hash :: "string list \<Rightarrow> string \<Rightarrow> string list" where
  "remove_heir_from_hash table t = remove1 t table"

definition set_subs :: "subleaf list \<Rightarrow> subhier \<Rightarrow> subhier" where
  "set_subs ls h = Subhier (hier_topic h) ls (hier_retained h) (hier_children h) (children_hash_table h)
     (hash_table_has_pound_wild_card h) (hash_table_has_plus_wild_card h)"

definition set_retained :: "nat option \<Rightarrow> subhier \<Rightarrow> subhier" where
  "set_retained r h = Subhier (hier_topic h) (hier_subs h) r (hier_children h) (children_hash_table h)
     (hash_table_has_pound_wild_card h) (hash_table_has_plus_wild_card h)"

definition set_children :: "subhier list \<Rightarrow> subhier \<Rightarrow> subhier" where
  "set_children cs h = Subhier (hier_topic h) (hier_subs h) (hier_retained h) cs (children_hash_table h)
     (hash_table_has_pound_wild_card h) (hash_table_has_plus_wild_card h)"

text \<open>Writing a changed child back: the first child with its topic is the one it came from.\<close>

fun put_child :: "subhier \<Rightarrow> subhier list \<Rightarrow> subhier list" where
  "put_child c [] = []"
| "put_child c (d # ds) = (if hier_topic d = hier_topic c then c # ds else d # put_child c ds)"

definition replace_child :: "subhier \<Rightarrow> subhier \<Rightarrow> subhier" where
  "replace_child c h = set_children (put_child c (hier_children h)) h"

text \<open>Linking a new branch: the hash entry, the wildcard counters, the end of the child list.\<close>

definition link_branch :: "subhier \<Rightarrow> subhier \<Rightarrow> subhier" where
  "link_branch br h = Subhier (hier_topic h) (hier_subs h) (hier_retained h) (hier_children h @ [br])
     (add_heir_to_hash (children_hash_table h) (hier_topic br))
     (if topic_is_wild_card (hier_topic br) ''#'' then hash_table_has_pound_wild_card h + 1
      else hash_table_has_pound_wild_card h)
     (if topic_is_wild_card (hier_topic br) ''+'' then hash_table_has_plus_wild_card h + 1
      else hash_table_has_plus_wild_card h)"

definition unused :: "subhier \<Rightarrow> bool" where
  "unused h \<longleftrightarrow> hier_children h = [] \<and> hier_subs h = [] \<and> hier_retained h = None"

definition unlink_branch :: "string \<Rightarrow> subhier \<Rightarrow> subhier" where
  "unlink_branch t h = Subhier (hier_topic h) (hier_subs h) (hier_retained h)
     (remove1 (the (child_of t (hier_children h))) (hier_children h))
     (remove_heir_from_hash (children_hash_table h) t)
     (if topic_is_wild_card t ''#'' \<and> hash_table_has_pound_wild_card h > 0 then hash_table_has_pound_wild_card h - 1
      else hash_table_has_pound_wild_card h)
     (if topic_is_wild_card t ''+'' \<and> hash_table_has_plus_wild_card h > 0 then hash_table_has_plus_wild_card h - 1
      else hash_table_has_plus_wild_card h)"

section \<open>The reported topic\<close>

text \<open>\<^verbatim>\<open>_add_topic_to_path\<close> on the buffer of \<^verbatim>\<open>MAX_TOPIC_LEN\<close> = 1024 bytes, which keeps at most
  1023 characters.\<close>

definition add_topic_to_path :: "subhier \<Rightarrow> string \<Rightarrow> nat \<Rightarrow> string" where
  "add_topic_to_path h fulltopic depth =
     take 1023 (fulltopic @
       (if depth > 2 \<or> (depth = 2 \<and> hier_topic h = '''' \<and> fulltopic \<noteq> []) then ''/'' else '''') @ hier_topic h)"

definition all_bridges :: "broker \<Rightarrow> subleaf list \<Rightarrow> bool" where
  "all_bridges b ls \<longleftrightarrow> (\<forall>l \<in> set ls. is_bridge (ctxs b (leaf_context l)))"

definition is_topic_removed :: "broker \<Rightarrow> nat \<Rightarrow> subleaf list \<Rightarrow> bool" where
  "is_topic_removed b c ls \<longleftrightarrow> \<not> is_bridge (ctxs b c) \<and> all_bridges b ls"

section \<open>Delivery\<close>

definition message_qos :: "broker \<Rightarrow> int \<Rightarrow> int \<Rightarrow> int" where
  "message_qos b qos client_qos =
     (if upgrade_outgoing_qos b then client_qos else if qos > client_qos then client_qos else qos)"

definition gen_mid :: "nat \<Rightarrow> broker \<Rightarrow> uint16 \<times> broker" where
  "gen_mid c b = (let (mid, x) = mid_generate (ctxs b c) in (mid, b\<lparr>ctxs := (ctxs b)(c := x)\<rparr>))"

text \<open>One round of the leaf loop of \<^verbatim>\<open>_subs_process\<close>.\<close>

definition deliver_leaf :: "dxl_hooks \<Rightarrow> string \<Rightarrow> int \<Rightarrow> bool \<Rightarrow> nat \<Rightarrow> subleaf \<Rightarrow> int \<times> broker \<Rightarrow> int \<times> broker" where
  "deliver_leaf H source qos retain stored leaf = (\<lambda>(rc, b).
     let c = leaf_context leaf in
     if is_bridge (ctxs b c) \<and> ctx_id (ctxs b c) = Some source then (rc, b)
     else
       let msg_qos = message_qos b qos (leaf_qos leaf);
           (mid, b1) = (if msg_qos \<noteq> 0 then gen_mid c b else (0, b));
           client_retain = (if is_bridge (ctxs b c) then retain else False);
           (r, b2) = mqtt3_db_message_insert H c mid mosq_md_out msg_qos client_retain stored b1
       in (if r = 1 then 1 else rc, b2))"

definition subs_process_retain :: "subhier \<Rightarrow> nat \<Rightarrow> broker \<Rightarrow> subhier \<times> broker" where
  "subs_process_retain hier stored b =
     (let b1 = (case hier_retained hier of
                  Some r \<Rightarrow> (add_ref (-1) r b)\<lparr>retained_count := retained_count b - 1\<rparr>
                | None \<Rightarrow> b) in
      if mm_payload (msg (deref_store b stored)) \<noteq> [] then
        (set_retained (Some stored) hier, (add_ref 1 stored b1)\<lparr>retained_count := retained_count b1 + 1\<rparr>)
      else (set_retained None hier, b1))"

definition subs_process ::
  "dxl_hooks \<Rightarrow> subhier \<Rightarrow> string option \<Rightarrow> int \<Rightarrow> bool \<Rightarrow> nat \<Rightarrow> bool \<Rightarrow> broker \<Rightarrow> int \<times> subhier \<times> broker" where
  "subs_process H hier src qos retain stored set_retain b =
     (let (hier', b1) = (if retain \<and> set_retain then subs_process_retain hier stored b else (hier, b));
          (rc, b2) = (case src of None \<Rightarrow> (0, b1)
                      | Some source \<Rightarrow> fold (deliver_leaf H source qos retain stored) (hier_subs hier) (0, b1))
      in (rc, hier', b2))"

text \<open>
  \<^verbatim>\<open>_sub_search\<close> ignores its last parameter and passes \<^verbatim>\<open>false\<close> on, so \<open>subs_process\<close> never changes
  the node and only the broker is threaded through.
\<close>

definition process_node ::
  "dxl_hooks \<Rightarrow> string option \<Rightarrow> int \<Rightarrow> bool \<Rightarrow> nat \<Rightarrow> subhier \<Rightarrow> broker \<Rightarrow> broker" where
  "process_node H src qos retain stored branch b =
     snd (snd (subs_process H branch src qos retain stored False b))"

definition search_pound ::
  "dxl_hooks \<Rightarrow> string option \<Rightarrow> int \<Rightarrow> bool \<Rightarrow> nat \<Rightarrow> subhier \<Rightarrow> broker \<Rightarrow> broker" where
  "search_pound H src qos retain stored h b =
     (if hash_table_has_pound_wild_card h \<noteq> 0 then
        (case hash_find h ''#'' of
           None \<Rightarrow> b
         | Some branch \<Rightarrow> if hier_children branch = [] then process_node H src qos retain stored branch b else b)
      else b)"

fun sub_search ::
  "dxl_hooks \<Rightarrow> string option \<Rightarrow> int \<Rightarrow> bool \<Rightarrow> nat \<Rightarrow> subhier \<Rightarrow> string list \<Rightarrow> broker \<Rightarrow> broker" where
  "sub_search H src qos retain stored h [] b = search_pound H src qos retain stored h b"
| "sub_search H src qos retain stored h (tok # toks) b =
     (let b1 = search_pound H src qos retain stored h b;
          visit = (\<lambda>branch b. let b' = sub_search H src qos retain stored branch toks b in
                     if toks = [] then process_node H src qos retain stored branch b' else b');
          b2 = (if hash_table_has_plus_wild_card h \<noteq> 0 then
                  (case hash_find h ''+'' of None \<Rightarrow> b1 | Some branch \<Rightarrow> visit branch b1)
                else b1)
      in case hash_find h tok of None \<Rightarrow> b2 | Some branch \<Rightarrow> visit branch b2)"

section \<open>Subscribing\<close>

definition tenant_denied :: "dxl_hooks \<Rightarrow> nat option \<Rightarrow> broker \<Rightarrow> bool" where
  "tenant_denied H context b \<longleftrightarrow> (case context of None \<Rightarrow> False
     | Some c \<Rightarrow> is_multi_tenant_mode_enabled H \<and> dxl_flags (ctxs b c) AND DXL_FLAG_OPS = 0 \<and>
         \<not> is_tenant_subscription_allowed H (dxl_log b) (ctxs b c))"

fun update_leaf :: "broker \<Rightarrow> nat \<Rightarrow> int \<Rightarrow> subleaf list \<Rightarrow> subleaf list option" where
  "update_leaf b c qos [] = None"
| "update_leaf b c qos (l # ls) =
     (if ctx_id (ctxs b (leaf_context l)) = ctx_id (ctxs b c) then Some (l\<lparr>leaf_qos := qos\<rparr> # ls)
      else map_option (\<lambda>ls'. l # ls') (update_leaf b c qos ls))"

definition add_leaf :: "nat \<Rightarrow> int \<Rightarrow> subhier \<Rightarrow> string \<Rightarrow> broker \<Rightarrow> int \<times> subhier \<times> broker" where
  "add_leaf c qos h fulltopic b =
     (case update_leaf b c qos (hier_subs h) of
        Some ls \<Rightarrow> (-1, set_subs ls h, b)
      | None \<Rightarrow>
          let b1 = upd_ctx c (\<lambda>x. x\<lparr>ctx_subscription_count := ctx_subscription_count x + 1\<rparr>)
                     (b\<lparr>subscription_count := subscription_count b + 1\<rparr>);
              b2 = (if all_bridges b (hier_subs h) \<and> \<not> is_bridge (ctxs b c)
                    then log_dxl (dxl_topic_added fulltopic) b1 else b1)
          in (MOSQ_ERR_SUCCESS, set_subs (hier_subs h @ [\<lparr>leaf_context = c, leaf_qos = qos\<rparr>]) h, b2))"

fun sub_add_full_topic ::
  "dxl_hooks \<Rightarrow> nat option \<Rightarrow> int \<Rightarrow> subhier \<Rightarrow> string list \<Rightarrow> string \<Rightarrow> nat \<Rightarrow> broker \<Rightarrow> int \<times> subhier \<times> broker" where
  "sub_add_full_topic H context qos h [] fulltopic depth b =
     (let full = add_topic_to_path h fulltopic depth in
      if tenant_denied H context b then (1, h, b)
      else (case context of None \<Rightarrow> (MOSQ_ERR_SUCCESS, h, b) | Some c \<Rightarrow> add_leaf c qos h full b))"
| "sub_add_full_topic H context qos h (tok # toks) fulltopic depth b =
     (let full = add_topic_to_path h fulltopic depth in
      if tenant_denied H context b then (1, h, b)
      else
        case hash_find h tok of
          Some s \<Rightarrow>
            let (rc, s', b') = sub_add_full_topic H context qos s toks full (depth + 1) b
            in (rc, replace_child s' h, b')
        | None \<Rightarrow>
            let branch = new_hier tok;
                h' = link_branch branch h;
                (rc, branch', b') = sub_add_full_topic H context qos branch toks full (depth + 1) b
            in (rc, replace_child branch' h', b'))"

definition sub_add :: "dxl_hooks \<Rightarrow> nat option \<Rightarrow> int \<Rightarrow> subhier \<Rightarrow> string list \<Rightarrow> broker \<Rightarrow> int \<times> subhier \<times> broker" where
  "sub_add H context qos h tokens b = sub_add_full_topic H context qos h tokens '''' 0 b"

text \<open>The root is the tree of the database itself; a new top-level child goes to the front of its list.\<close>

definition link_top :: "subhier \<Rightarrow> subhier \<Rightarrow> subhier" where
  "link_top child root = Subhier (hier_topic root) (hier_subs root) (hier_retained root) (child # hier_children root)
     (add_heir_to_hash (children_hash_table root) (hier_topic child))
     (hash_table_has_pound_wild_card root) (hash_table_has_plus_wild_card root)"

definition mqtt3_sub_add :: "dxl_hooks \<Rightarrow> nat \<Rightarrow> string \<Rightarrow> int \<Rightarrow> broker \<Rightarrow> int \<times> broker" where
  "mqtt3_sub_add H c sub qos b =
     (let tokens = sub_topic_tokenise sub;
          (child, root) = (case hash_find (subs b) (hd tokens) of
              Some s \<Rightarrow> (s, subs b)
            | None \<Rightarrow> (new_hier (hd tokens), link_top (new_hier (hd tokens)) (subs b)));
          (rc, child', b') = sub_add H (Some c) qos child tokens b
      in (if rc = -1 then MOSQ_ERR_SUCCESS else rc, b'\<lparr>subs := replace_child child' root\<rparr>))"

section \<open>Unsubscribing\<close>

fun remove_leaf :: "nat \<Rightarrow> subleaf list \<Rightarrow> subleaf list" where
  "remove_leaf c [] = []"
| "remove_leaf c (l # ls) = (if leaf_context l = c then ls else l # remove_leaf c ls)"

definition drop_leaf :: "nat \<Rightarrow> subhier \<Rightarrow> string \<Rightarrow> broker \<Rightarrow> int \<times> subhier \<times> broker" where
  "drop_leaf c h fulltopic b =
     (if \<exists>l \<in> set (hier_subs h). leaf_context l = c then
        let ls = remove_leaf c (hier_subs h);
            b1 = upd_ctx c (\<lambda>x. x\<lparr>ctx_subscription_count := ctx_subscription_count x - 1\<rparr>)
                   (b\<lparr>subscription_count := subscription_count b - 1\<rparr>);
            b2 = (if is_topic_removed b c ls then log_dxl (dxl_topic_removed fulltopic) b1 else b1)
        in (MOSQ_ERR_SUCCESS, set_subs ls h, b2)
      else (MOSQ_ERR_SUCCESS, h, b))"

fun sub_remove_full_topic ::
  "nat \<Rightarrow> subhier \<Rightarrow> string list \<Rightarrow> string \<Rightarrow> nat \<Rightarrow> broker \<Rightarrow> int \<times> subhier \<times> broker" where
  "sub_remove_full_topic c h [] fulltopic depth b = drop_leaf c h (add_topic_to_path h fulltopic depth) b"
| "sub_remove_full_topic c h (tok # toks) fulltopic depth b =
     (let full = add_topic_to_path h fulltopic depth in
      case child_of tok (hier_children h) of
        None \<Rightarrow> (MOSQ_ERR_SUCCESS, h, b)
      | Some branch \<Rightarrow>
          let (rc, branch', b') = sub_remove_full_topic c branch toks full (depth + 1) b;
              h' = replace_child branch' h
          in (MOSQ_ERR_SUCCESS, if unused branch' then unlink_branch tok h' else h', b'))"

definition sub_remove :: "nat \<Rightarrow> subhier \<Rightarrow> string list \<Rightarrow> broker \<Rightarrow> int \<times> subhier \<times> broker" where
  "sub_remove c h tokens b = sub_remove_full_topic c h tokens '''' 0 b"

definition mqtt3_sub_remove :: "nat \<Rightarrow> string \<Rightarrow> broker \<Rightarrow> int \<times> broker" where
  "mqtt3_sub_remove c sub b =
     (let tokens = sub_topic_tokenise sub in
      case hash_find (subs b) (hd tokens) of
        None \<Rightarrow> (MOSQ_ERR_SUCCESS, b)
      | Some s \<Rightarrow> let (rc, s', b') = sub_remove c s tokens b in (rc, b'\<lparr>subs := replace_child s' (subs b)\<rparr>))"

section \<open>Publishing\<close>

definition mqtt3_db_messages_queue ::
  "dxl_hooks \<Rightarrow> string option \<Rightarrow> string \<Rightarrow> int \<Rightarrow> bool \<Rightarrow> nat \<Rightarrow> broker \<Rightarrow> int \<times> broker" where
  "mqtt3_db_messages_queue H src topic qos retain stored b =
     (let tokens = sub_topic_tokenise topic;
          b1 = (case hash_find (subs b) (hd tokens) of
                  None \<Rightarrow> b
                | Some s \<Rightarrow>
                    if retain then
                      let (_, s', b0) = sub_add H None 0 s tokens b;
                          b0' = b0\<lparr>subs := replace_child s' (subs b)\<rparr>
                      in sub_search H src qos retain stored s' tokens b0'
                    else sub_search H src qos retain stored s tokens b)
      in (0, log_dxl (dxl_finalize (db_id (deref_store b1 stored))) b1))"

section \<open>Cleaning the subscriptions of ended sessions\<close>

text \<open>\<open>kept\<close> are the leaves already passed, so \<open>kept @ ls\<close> is what the node holds after a removal.\<close>

fun clean_leaves :: "string \<Rightarrow> subleaf list \<Rightarrow> subleaf list \<Rightarrow> broker \<Rightarrow> subleaf list \<times> broker" where
  "clean_leaves fulltopic kept [] b = (kept, b)"
| "clean_leaves fulltopic kept (l # ls) b =
     (if clean_subs (ctxs b (leaf_context l)) then
        let b1 = b\<lparr>subscription_count := subscription_count b - 1\<rparr>;
            b2 = (if is_topic_removed b (leaf_context l) (kept @ ls) then log_dxl (dxl_topic_removed fulltopic) b1 else b1)
        in clean_leaves fulltopic kept ls b2
      else clean_leaves fulltopic (kept @ [l]) ls b)"

fun subs_clean_full_topic :: "subhier \<Rightarrow> string \<Rightarrow> nat \<Rightarrow> broker \<Rightarrow> subhier \<times> broker"
  and subs_clean_children :: "subhier list \<Rightarrow> string \<Rightarrow> nat \<Rightarrow> subhier list \<Rightarrow> string list \<Rightarrow> int \<Rightarrow> int \<Rightarrow> broker \<Rightarrow>
    subhier list \<times> string list \<times> int \<times> int \<times> broker" where
  "subs_clean_full_topic (Subhier t ls ret cs keys npound nplus) fulltopic depth b =
     (let full = add_topic_to_path (Subhier t ls ret cs keys npound nplus) fulltopic depth;
          (ls', b1) = clean_leaves full [] ls b;
          (cs', keys', npound', nplus', b2) = subs_clean_children cs full depth [] keys npound nplus b1
      in (Subhier t ls' ret cs' keys' npound' nplus', b2))"
| "subs_clean_children [] full depth kept keys npound nplus b = (kept, keys, npound, nplus, b)"
| "subs_clean_children (c # cs) full depth kept keys npound nplus b =
     (let (c', b1) = subs_clean_full_topic c full (depth + 1) b in
      if unused c' then
        subs_clean_children cs full depth kept (remove_heir_from_hash keys (hier_topic c'))
          (if topic_is_wild_card (hier_topic c') ''#'' \<and> npound > 0 then npound - 1 else npound)
          (if topic_is_wild_card (hier_topic c') ''+'' \<and> nplus > 0 then nplus - 1 else nplus) b1
      else subs_clean_children cs full depth (kept @ [c']) keys npound nplus b1)"

fun clean_top :: "subhier list \<Rightarrow> broker \<Rightarrow> subhier list \<times> broker" where
  "clean_top [] b = ([], b)"
| "clean_top (c # cs) b =
     (let (c', b1) = subs_clean_full_topic c '''' 0 b; (cs', b2) = clean_top cs b1 in (c' # cs', b2))"

definition mqtt3_subs_clean_session :: "broker \<Rightarrow> int \<times> broker" where
  "mqtt3_subs_clean_session b =
     (let (cs, b') = clean_top (hier_children (subs b)) b
      in (MOSQ_ERR_SUCCESS, b'\<lparr>subs := set_children cs (subs b)\<rparr>))"

section \<open>Retained messages\<close>

definition retain_process :: "dxl_hooks \<Rightarrow> nat \<Rightarrow> nat \<Rightarrow> int \<Rightarrow> broker \<Rightarrow> int \<times> broker" where
  "retain_process H retained c sub_qos b =
     (let q = mm_qos (msg (deref_store b retained));
          qos = (if q > sub_qos then sub_qos else q);
          (mid, b1) = (if qos > 0 then gen_mid c b else (0, b))
      in mqtt3_db_message_insert H c mid mosq_md_out qos True retained b1)"

definition retain_node :: "dxl_hooks \<Rightarrow> nat \<Rightarrow> int \<Rightarrow> subhier \<Rightarrow> broker \<Rightarrow> broker" where
  "retain_node H c sub_qos branch b = (case hier_retained branch of
     None \<Rightarrow> b | Some r \<Rightarrow> snd (retain_process H r c sub_qos b))"

lemma size_children: "size_list size (hier_children h) < size h"
  by (cases h) simp

text \<open>The loop over the children of a node; the last component of the result is \<^verbatim>\<open>flag\<close>.\<close>

function (sequential) retain_search_loop ::
  "dxl_hooks \<Rightarrow> nat \<Rightarrow> int \<Rightarrow> nat \<Rightarrow> string list \<Rightarrow> subhier list \<Rightarrow> int \<Rightarrow> broker \<Rightarrow> broker \<times> int" where
  "retain_search_loop H c sub_qos level tokens [] flag b = (b, flag)"
| "retain_search_loop H c sub_qos level [] (branch # brs) flag b = (b, flag)"
| "retain_search_loop H c sub_qos level (tok # toks) (branch # brs) flag b =
     (if tok = ''#'' \<and> toks = [] then
        let b1 = retain_node H c sub_qos branch b;
            b2 = (if hier_children branch \<noteq> []
                  then fst (retain_search_loop H c sub_qos (level + 1) (tok # toks) (hier_children branch) 0 b1) else b1)
        in retain_search_loop H c sub_qos level (tok # toks) brs (-1) b2
      else if hier_topic branch \<noteq> ''+'' \<and> (hier_topic branch = tok \<or> tok = ''+'') then
        if toks \<noteq> [] then
          let (b1, f) = retain_search_loop H c sub_qos (level + 1) toks (hier_children branch) 0 b;
              b2 = (if f = -1 \<or> (brs = [] \<and> hd toks = ''#'' \<and> level > 0) then retain_node H c sub_qos branch b1 else b1)
          in retain_search_loop H c sub_qos level (tok # toks) brs flag b2
        else retain_search_loop H c sub_qos level (tok # toks) brs flag (retain_node H c sub_qos branch b)
      else retain_search_loop H c sub_qos level (tok # toks) brs flag b)"
  by pat_completeness auto
termination
  by (relation "measure (\<lambda>(H, c, q, l, toks, brs, f, b). size_list size brs)")
    (auto intro: less_SucI trans_less_add1 size_children)

definition mqtt3_retain_queue :: "dxl_hooks \<Rightarrow> nat \<Rightarrow> string \<Rightarrow> int \<Rightarrow> broker \<Rightarrow> int \<times> broker" where
  "mqtt3_retain_queue H c sub sub_qos b =
     (let tokens = sub_topic_tokenise sub in
      (MOSQ_ERR_SUCCESS,
       case child_of (hd tokens) (hier_children (subs b)) of
         None \<Rightarrow> b
       | Some h \<Rightarrow> fst (retain_search_loop H c sub_qos 0 tokens (hier_children h) 0 b)))"

section \<open>Counting subscribers\<close>

definition sub_count_process :: "broker \<Rightarrow> string option \<Rightarrow> subhier \<Rightarrow> int" where
  "sub_count_process b tenant_guid hier =
     int (length (filter (\<lambda>l. \<not> is_bridge (ctxs b (leaf_context l)) \<and>
       (case tenant_guid of None \<Rightarrow> True | Some g \<Rightarrow> dxl_tenant_guid (ctxs b (leaf_context l)) = Some g)) (hier_subs hier)))"

fun sub_count_search :: "broker \<Rightarrow> string option \<Rightarrow> subhier \<Rightarrow> string list \<Rightarrow> int \<Rightarrow> int \<times> int" where
  "sub_count_search b tenant h [] count =
     (case hash_find h ''#'' of None \<Rightarrow> (count, 0) | Some s \<Rightarrow> (count + sub_count_process b tenant s, -1))"
| "sub_count_search b tenant h (tok # toks) count =
     (let visit = (\<lambda>s (count, flag).
            let (count1, f) = sub_count_search b tenant s toks count;
                count2 = (if toks = [] then count1 + sub_count_process b tenant s else count1)
            in (count2, if f = -1 then -1 else flag));
          r1 = (case hash_find h ''+'' of None \<Rightarrow> (count, 0) | Some s \<Rightarrow> visit s (count, 0));
          r2 = (case hash_find h tok of None \<Rightarrow> r1 | Some s \<Rightarrow> visit s r1)
      in case hash_find h ''#'' of None \<Rightarrow> r2 | Some s \<Rightarrow> (fst r2 + sub_count_process b tenant s, -1))"

definition mqtt3_sub_count :: "broker \<Rightarrow> string \<Rightarrow> int \<Rightarrow> string option \<Rightarrow> int \<times> int" where
  "mqtt3_sub_count b topic count tenant_guid =
     (let tokens = sub_topic_tokenise topic in
      case hash_find (subs b) (hd tokens) of
        None \<Rightarrow> (0, count)
      | Some s \<Rightarrow>
          let (count1, rc) = sub_count_search b tenant_guid s tokens count
          in (if rc = -1 then (0, count1 + sub_count_process b tenant_guid s) else (rc, count1)))"

end
