(* ===== verification/Subs_Tree.thy ===== *)
theory Subs_Tree
  imports Subs "HOL-Library.Multiset"
begin

text \<open>
  What the subscription tree stands for: a table from filter paths to the leaves that hold them. The
  invariant says that the hash tables and the wildcard counters describe the children; the theorems
  relate the search of a topic to the level-wise matching of all filters of the table.
\<close>

section \<open>The invariant\<close>

definition topics_of :: "subhier list \<Rightarrow> string list" where
  "topics_of cs = map hier_topic cs"

fun tree_ok :: "subhier \<Rightarrow> bool" where
  "tree_ok (Subhier t ls ret cs keys npound nplus) \<longleftrightarrow>
     distinct (topics_of cs) \<and> distinct keys \<and> set keys = set (topics_of cs) \<and> ret = None \<and>
     npound = (if ''#'' \<in> set (topics_of cs) then 1 else 0) \<and>
     nplus = (if ''+'' \<in> set (topics_of cs) then 1 else 0) \<and>
     (\<forall>c \<in> set cs. tree_ok c \<and> (hier_topic c = ''#'' \<longrightarrow> hier_children c = []))"

fun leaves_at :: "subhier \<Rightarrow> string list \<Rightarrow> subleaf list" where
  "leaves_at h [] = hier_subs h"
| "leaves_at h (k # ks) = (case child_of k (hier_children h) of None \<Rightarrow> [] | Some c \<Rightarrow> leaves_at c ks)"

fun all_leaves :: "subhier \<Rightarrow> (string list \<times> subleaf) list" where
  "all_leaves (Subhier t ls ret cs keys npound nplus) =
     map (Pair []) ls @ concat (map (\<lambda>c. map (\<lambda>(p, l). (hier_topic c # p, l)) (all_leaves c)) cs)"

lemma tree_ok_children: "tree_ok h \<Longrightarrow> c \<in> set (hier_children h) \<Longrightarrow> tree_ok c"
  by (cases h) auto

lemma tree_ok_retained: "tree_ok h \<Longrightarrow> hier_retained h = None"
  by (cases h) auto

lemma child_of_Some: "child_of k cs = Some c \<Longrightarrow> c \<in> set cs \<and> hier_topic c = k"
  by (auto simp: child_of_def dest: find_Some_set)

lemma child_of_None: "child_of k cs = None \<longleftrightarrow> k \<notin> set (topics_of cs)"
  by (auto simp: child_of_def find_None_iff_ball topics_of_def)

lemma child_of_mem: "distinct (topics_of cs) \<Longrightarrow> c \<in> set cs \<Longrightarrow> child_of (hier_topic c) cs = Some c"
  unfolding child_of_def topics_of_def by (rule find_distinct_key)

lemma tree_ok_hash_find: "tree_ok h \<Longrightarrow> hash_find h k = child_of k (hier_children h)"
  by (cases h) (auto simp: hash_find_def child_of_None intro: sym)

lemma tree_ok_counters:
  assumes "tree_ok h"
  shows "hash_table_has_pound_wild_card h \<noteq> 0 \<longleftrightarrow> child_of ''#'' (hier_children h) \<noteq> None"
    and "hash_table_has_plus_wild_card h \<noteq> 0 \<longleftrightarrow> child_of ''+'' (hier_children h) \<noteq> None"
  using assms by (cases h; simp add: child_of_None)+

lemma tree_ok_pound: "tree_ok h \<Longrightarrow> child_of ''#'' (hier_children h) = Some c \<Longrightarrow> hier_children c = []"
  by (cases h) (auto dest: child_of_Some)

lemma all_leaves_hier:
  "all_leaves h = map (Pair []) (hier_subs h) @
     concat (map (\<lambda>c. map (\<lambda>(p, l). (hier_topic c # p, l)) (all_leaves c)) (hier_children h))"
  by (cases h) simp

declare all_leaves.simps [simp del]

text \<open>A fact about the one child with a given topic is a fact about the sum over all children.\<close>

lemma sum_child:
  assumes "distinct (topics_of cs)"
  shows "(\<Sum>c\<leftarrow>cs. if hier_topic c = k then f c else 0) =
    (case child_of k cs of None \<Rightarrow> 0 | Some c \<Rightarrow> (f c :: 'a :: comm_monoid_add))"
  using assms
proof (induction cs)
  case Nil
  then show ?case by (simp add: child_of_def)
next
  case (Cons c cs)
  have z: "hier_topic c = k \<Longrightarrow> child_of k cs = None"
    using Cons.prems by (auto simp: child_of_None topics_of_def)
  show ?case
    using Cons z by (auto simp: child_of_def topics_of_def)
qed

section \<open>The search\<close>

text \<open>The leaves in the order in which the search comes to them.\<close>

definition pound_leaves :: "subhier \<Rightarrow> subleaf list" where
  "pound_leaves h = (case child_of ''#'' (hier_children h) of None \<Rightarrow> [] | Some c \<Rightarrow> hier_subs c)"

fun search_leaves :: "subhier \<Rightarrow> string list \<Rightarrow> subleaf list" where
  "search_leaves h [] = pound_leaves h"
| "search_leaves h (tok # toks) =
     (let visit = (\<lambda>k. case child_of k (hier_children h) of None \<Rightarrow> []
                    | Some c \<Rightarrow> search_leaves c toks @ (if toks = [] then hier_subs c else []))
      in pound_leaves h @ visit ''+'' @ visit tok)"

definition deliver_all :: "dxl_hooks \<Rightarrow> string \<Rightarrow> int \<Rightarrow> bool \<Rightarrow> nat \<Rightarrow> subleaf list \<Rightarrow> broker \<Rightarrow> broker" where
  "deliver_all H source qos retain stored ls b = snd (fold (deliver_leaf H source qos retain stored) ls (0, b))"

lemma fold_deliver_rc:
  "snd (fold (deliver_leaf H s q r st) ls (rc, b)) = snd (fold (deliver_leaf H s q r st) ls (rc', b))"
proof (induction ls arbitrary: rc rc' b)
  case (Cons l ls)
  have "snd (deliver_leaf H s q r st l (rc, b)) = snd (deliver_leaf H s q r st l (rc', b))"
    by (auto simp: deliver_leaf_def Let_def split: prod.splits)
  then show ?case by (metis Cons.IH fold_simps(2) prod.collapse)
qed simp

lemma deliver_all_Nil [simp]: "deliver_all H s q r st [] b = b"
  by (simp add: deliver_all_def)

lemma deliver_all_append:
  "deliver_all H s q r st (xs @ ys) b = deliver_all H s q r st ys (deliver_all H s q r st xs b)"
  by (simp add: deliver_all_def) (metis fold_deliver_rc prod.collapse)

lemma process_node_eq: "process_node H (Some s) q r st h b = deliver_all H s q r st (hier_subs h) b"
  by (simp add: process_node_def subs_process_def deliver_all_def split: prod.splits)

lemma search_pound_eq:
  "tree_ok h \<Longrightarrow> search_pound H (Some s) q r st h b = deliver_all H s q r st (pound_leaves h) b"
  by (auto simp: search_pound_def pound_leaves_def tree_ok_hash_find tree_ok_counters process_node_eq
      dest: tree_ok_pound split: option.splits)

lemma sub_search_eq:
  "tree_ok h \<Longrightarrow> sub_search H (Some s) q r st h toks b = deliver_all H s q r st (search_leaves h toks) b"
proof (induction H "Some s" q r st h toks b rule: sub_search.induct)
  case (1 H q r st h b)
  then show ?case by (simp add: search_pound_eq)
next
  case (2 H q r st h tok toks b)
  define visit where "visit = (\<lambda>branch b. let b' = sub_search H (Some s) q r st branch toks b in
    if toks = [] then process_node H (Some s) q r st branch b' else b')"
  have v: "visit c B = deliver_all H s q r st (search_leaves c toks @ (if toks = [] then hier_subs c else [])) B"
    if "c \<in> set (hier_children h)" for c B
    using 2(2) 2(1) tree_ok_children [OF \<open>tree_ok h\<close> that]
    by (simp add: visit_def process_node_eq deliver_all_append)
  have opt: "(case child_of k (hier_children h) of None \<Rightarrow> B | Some c \<Rightarrow> visit c B) =
      deliver_all H s q r st (case child_of k (hier_children h) of None \<Rightarrow> []
        | Some c \<Rightarrow> search_leaves c toks @ (if toks = [] then hier_subs c else [])) B" for k B
    using v by (auto split: option.splits dest: child_of_Some)
  let ?b1 = "search_pound H (Some s) q r st h b"
  let ?b2 = "case child_of ''+'' (hier_children h) of None \<Rightarrow> ?b1 | Some c \<Rightarrow> visit c ?b1"
  have "sub_search H (Some s) q r st h (tok # toks) b =
      (let b2 = (if hash_table_has_plus_wild_card h \<noteq> 0
                 then (case hash_find h ''+'' of None \<Rightarrow> ?b1 | Some c \<Rightarrow> visit c ?b1) else ?b1)
       in case hash_find h tok of None \<Rightarrow> b2 | Some c \<Rightarrow> visit c b2)"
    by (simp only: sub_search.simps visit_def Let_def)
  also have "\<dots> = (case child_of tok (hier_children h) of None \<Rightarrow> ?b2 | Some c \<Rightarrow> visit c ?b2)"
    using tree_ok_counters(2) [OF \<open>tree_ok h\<close>] by (auto simp: tree_ok_hash_find [OF \<open>tree_ok h\<close>] Let_def split: option.split)
  finally show ?case
    by (simp only: opt search_pound_eq [OF \<open>tree_ok h\<close>] search_leaves.simps deliver_all_append Let_def)
qed

section \<open>The search finds exactly the matching filters\<close>

definition matching :: "string list \<Rightarrow> (string list \<times> subleaf) list \<Rightarrow> subleaf multiset" where
  "matching toks pls = mset (map snd (filter (\<lambda>(p, l). levels_match p toks) pls))"

lemma matching_append: "matching toks (xs @ ys) = matching toks xs + matching toks ys"
  by (simp add: matching_def)

lemma matching_concat: "matching toks (concat xss) = (\<Sum>xs\<leftarrow>xss. matching toks xs)"
  by (induction xss) (simp_all add: matching_append, simp add: matching_def)

lemma matching_own: "matching toks (map (Pair []) ls) = (if toks = [] then mset ls else {#})"
proof -
  have "filter (\<lambda>(p, l). levels_match p toks) (map (Pair []) ls) = (if toks = [] then map (Pair []) ls else [])"
    by (induction ls) auto
  then show ?thesis by (simp add: matching_def multiset.map_comp o_def del: mset_map mset_filter)
qed

text \<open>What the filters below one child contribute.\<close>

lemma matching_child:
  assumes "wild_free toks" and "k = ''#'' \<longrightarrow> (\<forall>(p, l) \<in> set pls. p = [])"
  shows "matching toks (map (\<lambda>(p, l). (k # p, l)) pls) =
    (if k = ''#'' then mset (map snd pls)
     else case toks of [] \<Rightarrow> {#} | t # ts \<Rightarrow> if k = ''+'' \<or> k = t then matching ts pls else {#})"
proof (cases "k = ''#''")
  case True
  then show ?thesis using assms(2)
    by (induction pls) (auto simp: matching_def)
next
  case False
  then show ?thesis
    by (induction pls) (auto simp: matching_def split: list.splits)
qed

lemma leafless_below: "hier_children c = [] \<Longrightarrow> all_leaves c = map (Pair []) (hier_subs c)"
  by (subst all_leaves_hier) simp

lemma snd_Pair_comp [simp]: "snd \<circ> Pair x = (\<lambda>y. y)"
  by (simp add: fun_eq_iff)

lemma search_leaves_matching:
  assumes "tree_ok h" and "wild_free toks"
  shows "matching toks (all_leaves h) = mset (search_leaves h toks) + (if toks = [] then mset (hier_subs h) else {#})"
  using assms
proof (induction h toks rule: search_leaves.induct)
  case (1 h)
  have d: "distinct (topics_of (hier_children h))" using "1.prems" by (cases h) auto
  have "matching [] (map (\<lambda>(p, l). (hier_topic c # p, l)) (all_leaves c)) =
      (if hier_topic c = ''#'' then mset (hier_subs c) else {#})" if "c \<in> set (hier_children h)" for c
  proof -
    have "hier_topic c = ''#'' \<Longrightarrow> all_leaves c = map (Pair []) (hier_subs c)"
      using "1.prems"(1) that by (intro leafless_below, cases h) auto
    then show ?thesis by (subst matching_child) (auto simp: o_def)
  qed
  then have "(\<Sum>c\<leftarrow>hier_children h. matching [] (map (\<lambda>(p, l). (hier_topic c # p, l)) (all_leaves c))) =
      (\<Sum>c\<leftarrow>hier_children h. if hier_topic c = ''#'' then mset (hier_subs c) else {#})"
    by (simp cong: map_cong)
  also have "\<dots> = mset (pound_leaves h)"
    unfolding sum_child [OF d] by (simp add: pound_leaves_def split: option.split)
  finally show ?case
    by (subst all_leaves_hier) (simp add: matching_append matching_own matching_concat o_def)
next
  case (2 h tok toks)
  have d: "distinct (topics_of (hier_children h))" using "2.prems"(1) by (cases h) auto
  have wf: "wild_free toks" "tok \<noteq> ''+''" "tok \<noteq> ''#''" using "2.prems"(2) by auto
  let ?g = "\<lambda>c. matching toks (all_leaves c)"
  have child: "matching (tok # toks) (map (\<lambda>(p, l). (hier_topic c # p, l)) (all_leaves c)) =
      (if hier_topic c = ''#'' then mset (hier_subs c) else {#}) +
      (if hier_topic c = ''+'' then ?g c else {#}) + (if hier_topic c = tok then ?g c else {#})"
    if "c \<in> set (hier_children h)" for c
  proof -
    have "hier_topic c = ''#'' \<Longrightarrow> all_leaves c = map (Pair []) (hier_subs c)"
      using "2.prems"(1) that by (intro leafless_below, cases h) auto
    then show ?thesis using "2.prems"(2) wf by (subst matching_child) (auto simp: o_def)
  qed
  have IH: "?g c = mset (search_leaves c toks @ (if toks = [] then hier_subs c else []))"
    if "c \<in> set (hier_children h)" for c
    using "2.IH" [OF child_of_mem [OF d that] tree_ok_children [OF "2.prems"(1) that] wf(1)] by simp
  have part: "(\<Sum>c\<leftarrow>hier_children h. if hier_topic c = k then ?g c else {#}) =
      mset (case child_of k (hier_children h) of None \<Rightarrow> []
        | Some c \<Rightarrow> search_leaves c toks @ (if toks = [] then hier_subs c else []))" for k
    unfolding sum_child [OF d] using IH child_of_Some [of k "hier_children h"] by (auto split: option.split)
  have "(\<Sum>c\<leftarrow>hier_children h. matching (tok # toks) (map (\<lambda>(p, l). (hier_topic c # p, l)) (all_leaves c))) =
      (\<Sum>c\<leftarrow>hier_children h. (if hier_topic c = ''#'' then mset (hier_subs c) else {#}) +
        (if hier_topic c = ''+'' then ?g c else {#}) + (if hier_topic c = tok then ?g c else {#}))"
    using child by (simp cong: map_cong)
  also have "\<dots> = mset (pound_leaves h) + mset (case child_of ''+'' (hier_children h) of None \<Rightarrow> []
        | Some c \<Rightarrow> search_leaves c toks @ (if toks = [] then hier_subs c else [])) +
      mset (case child_of tok (hier_children h) of None \<Rightarrow> []
        | Some c \<Rightarrow> search_leaves c toks @ (if toks = [] then hier_subs c else []))"
    unfolding sum_list_addf part sum_child [OF d] by (simp add: pound_leaves_def split: option.split)
  finally show ?case
    by (subst all_leaves_hier) (simp add: matching_append matching_own matching_concat o_def Let_def)
qed

section \<open>Replacing, linking and unlinking children\<close>

lemma hier_simps [simp]:
  "hier_children (set_children cs h) = cs" "hier_topic (set_children cs h) = hier_topic h"
  "hier_subs (set_children cs h) = hier_subs h" "hier_retained (set_children cs h) = hier_retained h"
  "hier_children (set_subs ls h) = hier_children h" "hier_topic (set_subs ls h) = hier_topic h"
  "hier_subs (set_subs ls h) = ls" "hier_retained (set_subs ls h) = hier_retained h"
  "hier_topic (new_hier t) = t" "hier_subs (new_hier t) = []" "hier_children (new_hier t) = []"
  "hier_retained (new_hier t) = None"
  by (simp_all add: set_children_def set_subs_def new_hier_def)

lemma hier_topic_replace [simp]: "hier_topic (replace_child c h) = hier_topic h" "hier_subs (replace_child c h) = hier_subs h"
  "hier_children (replace_child c h) = put_child c (hier_children h)"
  by (simp_all add: replace_child_def)

lemma hier_link [simp]:
  "hier_topic (link_branch c h) = hier_topic h" "hier_subs (link_branch c h) = hier_subs h"
  "hier_children (link_branch c h) = hier_children h @ [c]"
  "hier_topic (unlink_branch t h) = hier_topic h" "hier_subs (unlink_branch t h) = hier_subs h"
  by (simp_all add: link_branch_def unlink_branch_def)

lemma topics_put_child [simp]: "topics_of (put_child c cs) = topics_of cs"
  by (induction c cs rule: put_child.induct) (auto simp: topics_of_def)

lemma put_child_set: "set (put_child c cs) \<subseteq> insert c (set cs)"
  by (induction c cs rule: put_child.induct) auto

lemma child_of_put_child:
  "hier_topic c \<in> set (topics_of cs) \<Longrightarrow>
     child_of k (put_child c cs) = (if k = hier_topic c then Some c else child_of k cs)"
  by (induction c cs rule: put_child.induct) (auto simp: topics_of_def child_of_def)

lemma child_of_append:
  "k \<notin> set (topics_of cs) \<Longrightarrow> child_of k' (cs @ [c]) =
     (if k' = hier_topic c \<and> child_of k' cs = None then Some c else child_of k' cs)"
  by (induction cs) (auto simp: child_of_def topics_of_def)

text \<open>\<open>tree_ok\<close> in terms of the parts of a node.\<close>

definition child_ok :: "subhier \<Rightarrow> bool" where
  "child_ok c \<longleftrightarrow> tree_ok c \<and> (hier_topic c = ''#'' \<longrightarrow> hier_children c = [])"

lemma tree_ok_parts:
  "tree_ok h \<longleftrightarrow> distinct (topics_of (hier_children h)) \<and> distinct (children_hash_table h) \<and>
     set (children_hash_table h) = set (topics_of (hier_children h)) \<and> hier_retained h = None \<and>
     hash_table_has_pound_wild_card h = (if ''#'' \<in> set (topics_of (hier_children h)) then 1 else 0) \<and>
     hash_table_has_plus_wild_card h = (if ''+'' \<in> set (topics_of (hier_children h)) then 1 else 0) \<and>
     (\<forall>c \<in> set (hier_children h). child_ok c)"
  by (cases h) (simp add: child_ok_def)

lemma tree_ok_new_hier: "tree_ok (new_hier t)"
  by (simp add: new_hier_def topics_of_def)

lemma child_ok_new_hier: "child_ok (new_hier t)"
  by (simp add: child_ok_def tree_ok_new_hier)

lemma tree_ok_child_ok: "tree_ok h \<Longrightarrow> c \<in> set (hier_children h) \<Longrightarrow> child_ok c"
  unfolding tree_ok_parts by blast

lemma tree_ok_set_subs [simp]: "tree_ok (set_subs ls h) = tree_ok h"
  by (cases h) (simp add: set_subs_def)

lemma tree_ok_replace:
  assumes "tree_ok h" and "child_ok c"
  shows "tree_ok (replace_child c h)"
  using assms put_child_set [of c "hier_children h"]
  by (auto simp: tree_ok_parts replace_child_def set_children_def)

lemma tree_ok_link:
  assumes "tree_ok h" and "child_ok c" and "hier_topic c \<notin> set (topics_of (hier_children h))"
  shows "tree_ok (link_branch c h)"
  using assms by (auto simp: tree_ok_parts link_branch_def add_heir_to_hash_def topic_is_wild_card_def topics_of_def)

lemma remove1_child:
  assumes "distinct (topics_of cs)" and "child_of t cs = Some c"
  shows "remove1 c cs = filter (\<lambda>d. hier_topic d \<noteq> t) cs"
  using assms
proof (induction cs)
  case (Cons d cs)
  show ?case
  proof (cases "hier_topic d = t")
    case True
    with Cons.prems have "d = c" "t \<notin> hier_topic ` set cs" by (auto simp: child_of_def topics_of_def)
    then have "\<forall>e \<in> set cs. hier_topic e \<noteq> t" by blast
    with True \<open>d = c\<close> show ?thesis by (simp add: filter_id_conv)
  next
    case False
    then have "child_of t cs = Some c" "d \<noteq> c" using Cons.prems child_of_Some [of t cs c] by (auto simp: child_of_def)
    with False Cons show ?thesis by (auto simp: topics_of_def)
  qed
qed (simp add: child_of_def)

lemma hier_children_unlink:
  assumes "tree_ok h" and "child_of t (hier_children h) = Some c"
  shows "hier_children (unlink_branch t h) = filter (\<lambda>d. hier_topic d \<noteq> t) (hier_children h)"
  using assms remove1_child [OF _ assms(2)] by (simp add: unlink_branch_def tree_ok_parts)

lemma tree_ok_unlink:
  assumes "tree_ok h" and "child_of t (hier_children h) = Some c"
  shows "tree_ok (unlink_branch t h)"
proof -
  let ?cs = "hier_children h"
  note cs = hier_children_unlink [OF assms]
  have t: "topics_of (filter (\<lambda>d. hier_topic d \<noteq> t) ?cs) = filter (\<lambda>x. x \<noteq> t) (topics_of ?cs)"
    by (simp add: topics_of_def filter_map o_def)
  have "t \<in> set (topics_of ?cs)" using assms(2) child_of_None [of t ?cs] by auto
  then show ?thesis
    using assms(1) unfolding tree_ok_parts cs t
    by (auto simp: unlink_branch_def remove_heir_from_hash_def topic_is_wild_card_def)
qed

lemma child_of_unlink:
  assumes "tree_ok h" and "child_of t (hier_children h) = Some c"
  shows "child_of k (hier_children (unlink_branch t h)) = (if k = t then None else child_of k (hier_children h))"
proof -
  have "child_of k (filter (\<lambda>d. hier_topic d \<noteq> t) cs) = (if k = t then None else child_of k cs)" for cs
    by (induction cs) (auto simp: child_of_def)
  then show ?thesis by (simp add: hier_children_unlink [OF assms])
qed

lemma unused_leaves: "unused h \<Longrightarrow> leaves_at h p = []"
  by (cases p) (simp_all add: unused_def child_of_def)

section \<open>Adding a subscription\<close>

definition with_leaf :: "broker \<Rightarrow> nat \<Rightarrow> int \<Rightarrow> subleaf list \<Rightarrow> subleaf list" where
  "with_leaf b c qos ls = (case update_leaf b c qos ls of Some ls' \<Rightarrow> ls'
     | None \<Rightarrow> ls @ [\<lparr>leaf_context = c, leaf_qos = qos\<rparr>])"

definition pound_last :: "string list \<Rightarrow> bool" where
  "pound_last toks \<longleftrightarrow> ''#'' \<notin> set (butlast toks)"

lemma pound_last_Cons: "pound_last (t # ts) \<Longrightarrow> pound_last ts \<and> (t = ''#'' \<longrightarrow> ts = [])"
  by (auto simp: pound_last_def split: if_splits)

lemma leaves_at_put:
  assumes "hier_topic c \<in> set (topics_of (hier_children h))"
  shows "leaves_at (replace_child c h) (k # ks) = (if k = hier_topic c then leaves_at c ks else leaves_at h (k # ks))"
  using assms by (simp add: child_of_put_child)

lemma leaves_at_new_hier [simp]: "leaves_at (new_hier t) p = []"
  by (cases p) (simp_all add: child_of_def)

lemma leaves_at_link:
  assumes "hier_topic c \<notin> set (topics_of (hier_children h))" and "\<And>ks. leaves_at c ks = []"
  shows "leaves_at (link_branch c h) p = leaves_at h p"
proof (cases p)
  case (Cons k ks)
  have "child_of (hier_topic c) (hier_children h) = None" using assms(1) by (simp add: child_of_None)
  then show ?thesis
    using assms Cons by (auto simp: child_of_append [OF assms(1)] split: option.splits)
qed simp

lemma child_of_topics: "child_of k cs = Some c \<Longrightarrow> k \<in> set (topics_of cs)"
  using child_of_None [of k cs] by auto

text \<open>The missing branch: an empty child changes no path.\<close>

lemma sub_add_branch:
  assumes "tree_ok h" and "child_of tok (hier_children h) = None"
  shows "tree_ok (link_branch (new_hier tok) h)" and "tok \<in> set (topics_of (hier_children (link_branch (new_hier tok) h)))"
    and "leaves_at (link_branch (new_hier tok) h) p = leaves_at h p"
    and "leaves_at (link_branch (new_hier tok) h) (tok # ks) = []"
proof -
  have n: "tok \<notin> set (topics_of (hier_children h))" using assms(2) by (simp add: child_of_None)
  show "tree_ok (link_branch (new_hier tok) h)"
    using tree_ok_link [OF assms(1), of "new_hier tok"] n by (simp add: child_ok_def tree_ok_new_hier)
  show "tok \<in> set (topics_of (hier_children (link_branch (new_hier tok) h)))" by (simp add: topics_of_def)
  show l: "leaves_at (link_branch (new_hier tok) h) p = leaves_at h p" for p
    using leaves_at_link [of "new_hier tok" h p] n by simp
  show "leaves_at (link_branch (new_hier tok) h) (tok # ks) = []" using l [of "tok # ks"] assms(2) by simp
qed

text \<open>Without a context only the branches are made.\<close>

definition with_leaf_of :: "broker \<Rightarrow> nat option \<Rightarrow> int \<Rightarrow> subleaf list \<Rightarrow> subleaf list" where
  "with_leaf_of b ctx qos ls = (case ctx of None \<Rightarrow> ls | Some c \<Rightarrow> with_leaf b c qos ls)"

lemma set_subs_same [simp]: "set_subs (hier_subs h) h = h"
  by (cases h) (simp add: set_subs_def)

lemma sub_add_leaves_ctx:
  assumes "tree_ok h" and "pound_last toks" and "\<not> tenant_denied H ctx b"
    and "sub_add_full_topic H ctx qos h toks full depth b = (rc, h', b')"
  shows "tree_ok h' \<and> hier_topic h' = hier_topic h \<and> (toks = [] \<longrightarrow> hier_children h' = hier_children h) \<and>
    (\<forall>p. leaves_at h' p = (if p = toks then with_leaf_of b ctx qos (leaves_at h p) else leaves_at h p))"
  using assms
proof (induction toks arbitrary: h h' full depth b' rc)
  case Nil
  have "h' = set_subs (with_leaf_of b ctx qos (hier_subs h)) h"
    using Nil.prems(3,4)
    by (auto simp: add_leaf_def with_leaf_of_def with_leaf_def Let_def set_subs_same split: option.splits)
  moreover have "leaves_at (set_subs ls h) p = (if p = [] then ls else leaves_at h p)" for ls p by (cases p) simp_all
  ultimately show ?case using Nil.prems(1) by simp
next
  case (Cons tok toks)
  define full' where "full' = add_topic_to_path h full depth"
  note pl = pound_last_Cons [OF Cons.prems(2)]
  define g where "g = (case child_of tok (hier_children h) of Some s \<Rightarrow> h | None \<Rightarrow> link_branch (new_hier tok) h)"
  define s where "s = (case child_of tok (hier_children h) of Some s \<Rightarrow> s | None \<Rightarrow> new_hier tok)"
  obtain rc1 s' b1 where r: "sub_add_full_topic H ctx qos s toks full' (depth + 1) b = (rc1, s', b1)"
    by (metis prod_cases3)
  have h': "h' = replace_child s' g"
    using Cons.prems(3,4) r
    by (auto simp: g_def s_def full'_def tree_ok_hash_find [OF Cons.prems(1)] Let_def split: option.splits)
  have s: "child_ok s" "hier_topic s = tok"
    using tree_ok_child_ok [OF Cons.prems(1)] child_of_Some [of tok "hier_children h"]
    by (cases "child_of tok (hier_children h)"; simp add: s_def child_ok_new_hier)+
  have g: "tree_ok g \<and> tok \<in> set (topics_of (hier_children g)) \<and> hier_topic g = hier_topic h \<and>
      (\<forall>p. leaves_at g p = leaves_at h p) \<and> (\<forall>ks. leaves_at g (tok # ks) = leaves_at s ks)"
  proof (cases "child_of tok (hier_children h)")
    case None
    with sub_add_branch [OF Cons.prems(1) None] show ?thesis
      unfolding g_def s_def by (simp only: option.case hier_link leaves_at_new_hier simp_thms)
  next
    case (Some s1)
    with child_of_topics [OF Some] Cons.prems(1) show ?thesis by (simp add: g_def s_def)
  qed
  have ts: "tree_ok s" using s(1) by (simp add: child_ok_def)
  note IH = Cons.IH [OF ts conjunct1 [OF pl] Cons.prems(3) r]
  have "child_ok s'" using IH s pl unfolding child_ok_def by metis
  then have t: "tree_ok h'" unfolding h' using g tree_ok_replace by blast
  have "leaves_at h' p = (if p = tok # toks then with_leaf_of b ctx qos (leaves_at h p) else leaves_at h p)" for p
  proof (cases p)
    case Nil
    then show ?thesis using g by (simp add: h') (metis leaves_at.simps(1))
  next
    case (Cons k ks)
    have "leaves_at h' (k # ks) = (if k = tok then leaves_at s' ks else leaves_at g (k # ks))"
      unfolding h' using leaves_at_put [of s' g] g IH s(2) by (simp only: simp_thms)
    moreover have "leaves_at h (tok # ks) = leaves_at s ks" for ks using g by metis
    ultimately show ?thesis using IH g Cons by (simp only: list.inject) (simp split: if_split)
  qed
  then show ?case using t g by (simp add: h')
qed

lemma sub_add_leaves:
  assumes "tree_ok h" and "pound_last toks" and "\<not> tenant_denied H (Some c) b"
    and "sub_add_full_topic H (Some c) qos h toks full depth b = (rc, h', b')"
  shows "tree_ok h' \<and> hier_topic h' = hier_topic h \<and> (toks = [] \<longrightarrow> hier_children h' = hier_children h) \<and>
    (\<forall>p. leaves_at h' p = (if p = toks then with_leaf b c qos (leaves_at h p) else leaves_at h p))"
  using sub_add_leaves_ctx [OF assms] by (simp add: with_leaf_of_def)

lemma sub_add_branches:
  assumes "tree_ok h" and "pound_last toks" and "sub_add_full_topic H None qos h toks full depth b = (rc, h', b')"
  shows "tree_ok h' \<and> hier_topic h' = hier_topic h \<and> (\<forall>p. leaves_at h' p = leaves_at h p) \<and> b' = b"
proof -
  have "b' = b"
    using assms(3) by (induction toks arbitrary: h h' full depth b' rc)
      (auto simp: Let_def tenant_denied_def split: option.splits prod.splits)
  then show ?thesis using sub_add_leaves_ctx [OF assms(1,2) _ assms(3)] by (simp add: with_leaf_of_def tenant_denied_def)
qed

section \<open>Removing a subscription\<close>

lemma sub_remove_leaves:
  assumes "tree_ok h" and "sub_remove_full_topic c h toks full depth b = (rc, h', b')"
  shows "tree_ok h' \<and> hier_topic h' = hier_topic h \<and> (hier_children h = [] \<longrightarrow> hier_children h' = []) \<and>
    (\<forall>p. leaves_at h' p = (if p = toks then remove_leaf c (leaves_at h p) else leaves_at h p))"
  using assms
proof (induction toks arbitrary: h h' full depth b' rc)
  case Nil
  have id: "\<not> (\<exists>l \<in> set ls. leaf_context l = c) \<Longrightarrow> remove_leaf c ls = ls" for ls by (induction ls) auto
  have "h' = set_subs (remove_leaf c (hier_subs h)) h \<or> (h' = h \<and> remove_leaf c (hier_subs h) = hier_subs h)"
    using Nil.prems(2) id by (auto simp: drop_leaf_def Let_def split: if_splits)
  moreover have "leaves_at (set_subs ls h) p = (if p = [] then ls else leaves_at h p)" for ls p by (cases p) simp_all
  ultimately show ?case using Nil.prems(1) by (elim disjE conjE) simp_all
next
  case (Cons tok toks)
  show ?case
  proof (cases "child_of tok (hier_children h)")
    case None
    then have "h' = h" using Cons.prems(2) by (simp add: Let_def)
    moreover have "leaves_at h (tok # toks) = []" using None by simp
    ultimately show ?thesis using Cons.prems(1) by (simp del: leaves_at.simps)
  next
    case (Some s)
    define full' where "full' = add_topic_to_path h full depth"
    obtain rc1 s' b1 where r: "sub_remove_full_topic c s toks full' (depth + 1) b = (rc1, s', b1)" by (metis prod_cases3)
    define g where "g = replace_child s' h"
    have h': "h' = (if unused s' then unlink_branch tok g else g)"
      using Cons.prems(2) Some r by (auto simp: full'_def g_def Let_def)
    have s: "child_ok s" "hier_topic s = tok" "s \<in> set (hier_children h)"
      using child_of_Some [OF Some] tree_ok_child_ok [OF Cons.prems(1)] by auto
    have ts: "tree_ok s" using s(1) by (simp add: child_ok_def)
    note IH = Cons.IH [OF ts r]
    have "child_ok s'" using IH s(1,2) unfolding child_ok_def by metis
    then have tg: "tree_ok g" unfolding g_def by (rule tree_ok_replace [OF Cons.prems(1)])
    have mem: "hier_topic s' \<in> set (topics_of (hier_children h))"
      using child_of_topics [OF Some] IH s(2) by (simp only: simp_thms)
    have cg: "child_of tok (hier_children g) = Some s'"
      unfolding g_def using child_of_put_child [OF mem, of tok] IH s(2) by simp
    have lg: "leaves_at g (k # ks) = (if k = tok then leaves_at s' ks else leaves_at h (k # ks))" for k ks
      unfolding g_def using leaves_at_put [OF mem] IH s(2) by (simp only: simp_thms)
    have lu: "leaves_at (unlink_branch tok g) (k # ks) = leaves_at g (k # ks)" if "unused s'" for k ks
      using child_of_unlink [OF tg cg, of k] cg unused_leaves [OF that] by (cases "k = tok") simp_all
    have lh: "leaves_at h' (k # ks) = (if k = tok then leaves_at s' ks else leaves_at h (k # ks))" for k ks
      unfolding h' using lg lu by (cases "unused s'") (simp_all only: if_True if_False)
    have top: "hier_topic h' = hier_topic h" "hier_subs h' = hier_subs h"
      by (simp_all add: h' g_def)
    have hs: "leaves_at h (tok # ks) = leaves_at s ks" for ks using Some by simp
    have ne: "hier_children h \<noteq> []" using s(3) by auto
    have "leaves_at h' p = (if p = tok # toks then remove_leaf c (leaves_at h p) else leaves_at h p)" for p
    proof (cases p)
      case Nil
      then show ?thesis using top by simp
    next
      case (Cons k ks)
      then show ?thesis using lh [of k ks] IH hs by (simp only: list.inject) (simp split: if_split del: leaves_at.simps)
    qed
    moreover have "tree_ok h'" using tg tree_ok_unlink [OF tg cg] by (simp add: h')
    ultimately show ?thesis using top ne by blast
  qed
qed

section \<open>The table of the broker\<close>

text \<open>The leaves that hold a filter, by the tokens of the filter.\<close>

definition subs_at :: "broker \<Rightarrow> string list \<Rightarrow> subleaf list" where
  "subs_at b p = (case p of [] \<Rightarrow> []
     | k # ks \<Rightarrow> (case child_of k (hier_children (subs b)) of None \<Rightarrow> [] | Some c \<Rightarrow> leaves_at c p))"

text \<open>Below a top-level child all filters start with its name, and no name is a wildcard.\<close>

definition rooted :: "subhier \<Rightarrow> bool" where
  "rooted c \<longleftrightarrow> hier_topic c \<noteq> ''#'' \<and> hier_topic c \<noteq> ''+'' \<and>
     (\<forall>p. leaves_at c p \<noteq> [] \<longrightarrow> p \<noteq> [] \<and> hd p = hier_topic c)"

definition subs_ok :: "broker \<Rightarrow> bool" where
  "subs_ok b \<longleftrightarrow> tree_ok (subs b) \<and> (\<forall>c \<in> set (hier_children (subs b)). rooted c)"

lemma hd_tokens: "hd (sub_topic_tokenise s) \<noteq> ''#'' \<and> hd (sub_topic_tokenise s) \<noteq> ''+''"
proof (cases s)
  case Nil
  then show ?thesis by (simp add: sub_topic_tokenise_eq next_char_def)
next
  case (Cons x xs)
  then show ?thesis
    by (cases "x = CHR ''$''") (auto simp: sub_topic_tokenise_eq next_char_def split: list.splits)
qed

lemma rooted_cong:
  "rooted c \<Longrightarrow> hier_topic c' = hier_topic c \<Longrightarrow>
     (\<And>p. leaves_at c' p \<noteq> [] \<Longrightarrow> leaves_at c p \<noteq> [] \<or> (p \<noteq> [] \<and> hd p = hier_topic c)) \<Longrightarrow> rooted c'"
  unfolding rooted_def by metis

text \<open>One top-level child replaced.\<close>

lemma subs_ok_replace:
  assumes "subs_ok b" and "tree_ok c" and "rooted c"
  shows "subs_ok (B\<lparr>subs := replace_child c (subs b)\<rparr>)"
proof -
  have "child_ok c" using assms(2,3) by (simp add: child_ok_def rooted_def)
  then show ?thesis
    using assms tree_ok_replace [of "subs b" c] put_child_set [of c "hier_children (subs b)"]
    by (auto simp: subs_ok_def)
qed

lemma subs_at_replace:
  assumes "hier_topic c \<in> set (topics_of (hier_children root))"
  shows "subs_at (B\<lparr>subs := replace_child c root\<rparr>) p =
    (if p \<noteq> [] \<and> hd p = hier_topic c then leaves_at c p
     else case p of [] \<Rightarrow> [] | k # ks \<Rightarrow> (case child_of k (hier_children root) of None \<Rightarrow> [] | Some d \<Rightarrow> leaves_at d p))"
proof (cases p)
  case (Cons k ks)
  show ?thesis
    unfolding Cons subs_at_def using child_of_put_child [OF assms, of k]
    by (cases "k = hier_topic c") (simp_all del: leaves_at.simps)
qed (simp add: subs_at_def)

lemma link_top_ok:
  assumes "tree_ok root" and "t \<notin> set (topics_of (hier_children root))" and "t \<noteq> ''#''" and "t \<noteq> ''+''"
  shows "tree_ok (link_top (new_hier t) root)" and "hier_children (link_top (new_hier t) root) = new_hier t # hier_children root"
proof -
  show c: "hier_children (link_top (new_hier t) root) = new_hier t # hier_children root" by (simp add: link_top_def)
  have k: "set (children_hash_table (link_top (new_hier t) root)) = insert t (set (children_hash_table root))"
    "distinct (children_hash_table (link_top (new_hier t) root)) = distinct (children_hash_table root)"
    by (auto simp: link_top_def add_heir_to_hash_def)
  have f: "hier_retained (link_top (new_hier t) root) = hier_retained root"
    "hash_table_has_pound_wild_card (link_top (new_hier t) root) = hash_table_has_pound_wild_card root"
    "hash_table_has_plus_wild_card (link_top (new_hier t) root) = hash_table_has_plus_wild_card root"
    by (simp_all add: link_top_def)
  have t: "topics_of (new_hier t # cs) = t # topics_of cs" for cs by (simp add: topics_of_def)
  show "tree_ok (link_top (new_hier t) root)"
    using assms child_ok_new_hier [of t] unfolding tree_ok_parts c k f t by simp
qed

text \<open>The child that \<^verbatim>\<open>mqtt3_sub_add\<close> works on, found or new, and the root that has it.\<close>

definition top_child :: "broker \<Rightarrow> string \<Rightarrow> subhier \<times> subhier" where
  "top_child b t = (case hash_find (subs b) t of Some s \<Rightarrow> (s, subs b)
     | None \<Rightarrow> (new_hier t, link_top (new_hier t) (subs b)))"

lemma top_child_ok:
  assumes "subs_ok b" and "t \<noteq> ''#''" and "t \<noteq> ''+''" and "top_child b t = (s, root)"
  shows "tree_ok s" and "rooted s" and "hier_topic s = t" and "subs_ok (b\<lparr>subs := root\<rparr>)"
    and "child_of t (hier_children root) = Some s" and "subs_at (b\<lparr>subs := root\<rparr>) p = subs_at b p"
proof -
  have tr: "tree_ok (subs b)" using assms(1) by (simp add: subs_ok_def)
  have "tree_ok s \<and> rooted s \<and> hier_topic s = t \<and> subs_ok (b\<lparr>subs := root\<rparr>) \<and>
      child_of t (hier_children root) = Some s \<and> subs_at (b\<lparr>subs := root\<rparr>) p = subs_at b p"
  proof (cases "child_of t (hier_children (subs b))")
    case (Some s1)
    then have eq: "s = s1" "root = subs b" using assms(4) by (simp_all add: top_child_def tree_ok_hash_find [OF tr])
    have m: "s1 \<in> set (hier_children (subs b))" "hier_topic s1 = t" using child_of_Some [OF Some] by auto
    then show ?thesis
      using assms(1) Some tree_ok_child_ok [OF tr m(1)] by (simp add: eq child_ok_def) (simp add: subs_ok_def)
  next
    case None
    then have eq: "s = new_hier t" "root = link_top (new_hier t) (subs b)"
      using assms(4) by (auto simp: top_child_def tree_ok_hash_find [OF tr])
    have n: "t \<notin> set (topics_of (hier_children (subs b)))" using None by (simp add: child_of_None)
    note l = link_top_ok [OF tr n assms(2,3)]
    have r: "rooted (new_hier t)" using assms(2,3) by (simp add: rooted_def)
    have c: "child_of k (new_hier t # cs) = (if k = t then Some (new_hier t) else child_of k cs)" for k cs
      by (simp add: child_of_def)
    have "subs_at (b\<lparr>subs := root\<rparr>) p = subs_at b p"
    proof (cases p)
      case (Cons k ks)
      show ?thesis
        unfolding Cons subs_at_def using None by (cases "k = t") (simp_all add: eq l c del: leaves_at.simps(2))
    qed (simp add: subs_at_def)
    moreover have "subs_ok (b\<lparr>subs := root\<rparr>)"
      using assms(1) l r by (simp add: subs_ok_def eq)
    ultimately show ?thesis using r c by (simp add: eq l tree_ok_new_hier)
  qed
  then show "tree_ok s" and "rooted s" and "hier_topic s = t" and "subs_ok (b\<lparr>subs := root\<rparr>)"
    and "child_of t (hier_children root) = Some s" and "subs_at (b\<lparr>subs := root\<rparr>) p = subs_at b p" by blast+
qed

section \<open>All subscriptions as one multiset\<close>

lemma count_mset_concat: "count (mset (concat xss)) x = (\<Sum>xs\<leftarrow>xss. count (mset xs) x)"
  by (induction xss) simp_all

lemma count_below: "count (mset (map (\<lambda>(p, l). (t # p, l)) pls)) (k # ks, l) = (if t = k then count (mset pls) (ks, l) else 0)"
  by (induction pls) auto

lemma count_below_Nil: "count (mset (map (\<lambda>(p, l). (t # p, l)) pls)) ([], l) = 0"
  by (induction pls) auto

lemma count_own: "count (mset (map (Pair []) ls)) (p, l) = (if p = [] then count (mset ls) l else 0)"
  by (induction ls) auto

lemma all_leaves_count:
  assumes "tree_ok h"
  shows "count (mset (all_leaves h)) (p, l) = count (mset (leaves_at h p)) l"
  using assms
proof (induction p arbitrary: h)
  case Nil
  show ?case
    by (subst all_leaves_hier) (simp add: count_own [unfolded mset_map] count_mset_concat o_def del: mset_map,
        simp add: count_own count_below_Nil del: mset_map)
next
  case (Cons k ks)
  have d: "distinct (topics_of (hier_children h))" using Cons.prems by (simp add: tree_ok_parts)
  have "count (mset (all_leaves h)) (k # ks, l) =
      (\<Sum>c\<leftarrow>hier_children h. if hier_topic c = k then count (mset (all_leaves c)) (ks, l) else 0)"
    by (subst all_leaves_hier) (simp only: mset_append count_union count_own count_mset_concat map_map o_def count_below
        list.distinct if_False add_0)
  also have "\<dots> = count (mset (leaves_at h (k # ks))) l"
    unfolding sum_child [OF d] using Cons.IH tree_ok_children [OF Cons.prems]
    by (auto split: option.split dest: child_of_Some)
  finally show ?case .
qed

definition subscriptions :: "broker \<Rightarrow> (string list \<times> subleaf) list" where
  "subscriptions b = concat (map all_leaves (hier_children (subs b)))"

lemma subscriptions_count:
  assumes "subs_ok b"
  shows "count (mset (subscriptions b)) (p, l) = count (mset (subs_at b p)) l"
proof -
  let ?cs = "hier_children (subs b)"
  have d: "distinct (topics_of ?cs)" using assms by (simp add: subs_ok_def tree_ok_parts)
  have c: "count (mset (all_leaves c)) (p, l) =
      (if hier_topic c = hd p then (if p = [] then 0 else count (mset (leaves_at c p)) l) else 0)" if "c \<in> set ?cs" for c
  proof -
    have "tree_ok c" "rooted c" using assms that tree_ok_children by (auto simp: subs_ok_def)
    then have "count (mset (all_leaves c)) (p, l) = count (mset (leaves_at c p)) l"
      "leaves_at c p \<noteq> [] \<Longrightarrow> p \<noteq> [] \<and> hd p = hier_topic c"
      by (simp_all only: all_leaves_count) (simp add: rooted_def)
    then show ?thesis by (cases "leaves_at c p = []") (auto simp del: leaves_at.simps)
  qed
  have "count (mset (subscriptions b)) (p, l) =
      (\<Sum>c\<leftarrow>?cs. if hier_topic c = hd p then (if p = [] then 0 else count (mset (leaves_at c p)) l) else 0)"
    unfolding subscriptions_def count_mset_concat map_map o_def using c by (simp cong: map_cong)
  also have "\<dots> = count (mset (subs_at b p)) l"
    unfolding sum_child [OF d] by (cases p) (simp_all add: subs_at_def split: option.split)
  finally show ?thesis .
qed

end
