(* ===== verification/Subs_Table.thy ===== *)
theory Subs_Table
  imports Subs_Tree
begin

text \<open>
  The contract of the subscription component. The locale \<open>subscription_table\<close> is what the protocol
  handlers rely on: a table from filters to leaves that a subscription extends and an unsubscription
  shrinks, at one filter and nowhere else. \<^verbatim>\<open>mqtt3_sub_add\<close> and \<^verbatim>\<open>mqtt3_sub_remove\<close> implement it. The
  rest of the theory is about what the component tells the others: the delivery of a message, the
  number of subscribers, and the topics reported to the broker library.
\<close>

section \<open>Effect on the broker\<close>

text \<open>The topic accumulated along a path of node names.\<close>

fun report_path :: "string \<Rightarrow> nat \<Rightarrow> string list \<Rightarrow> string" where
  "report_path full depth [] = full"
| "report_path full depth (t # ts) = report_path (add_topic_to_path (new_hier t) full depth) (depth + 1) ts"

lemma add_topic_to_path_topic:
  "add_topic_to_path h full depth = add_topic_to_path (new_hier (hier_topic h)) full depth"
  by (simp add: add_topic_to_path_def)

definition count_subscription :: "int \<Rightarrow> nat \<Rightarrow> broker \<Rightarrow> broker" where
  "count_subscription n c b = upd_ctx c (\<lambda>x. x\<lparr>ctx_subscription_count := ctx_subscription_count x + n\<rparr>)
     (b\<lparr>subscription_count := subscription_count b + n\<rparr>)"

definition added :: "nat \<Rightarrow> subleaf list \<Rightarrow> string \<Rightarrow> broker \<Rightarrow> broker" where
  "added c ls topic b =
     (if all_bridges b ls \<and> \<not> is_bridge (ctxs b c) then log_dxl (dxl_topic_added topic) (count_subscription 1 c b)
      else count_subscription 1 c b)"

definition removed :: "nat \<Rightarrow> subleaf list \<Rightarrow> string \<Rightarrow> broker \<Rightarrow> broker" where
  "removed c ls topic b =
     (if is_topic_removed b c ls then log_dxl (dxl_topic_removed topic) (count_subscription (-1) c b)
      else count_subscription (-1) c b)"

lemma sub_add_denied:
  "tenant_denied H (Some c) b \<Longrightarrow> sub_add_full_topic H (Some c) qos h toks full depth b = (1, h, b)"
  by (cases toks) (simp_all add: Let_def)

lemma sub_add_broker:
  assumes "tree_ok h" and "\<not> tenant_denied H (Some c) b"
    and "sub_add_full_topic H (Some c) qos h toks full depth b = (rc, h', b')"
  shows "rc = (if update_leaf b c qos (leaves_at h toks) = None then 0 else -1) \<and>
    b' = (if update_leaf b c qos (leaves_at h toks) = None
          then added c (leaves_at h toks) (report_path full depth (hier_topic h # toks)) b else b)"
  using assms
proof (induction toks arbitrary: h h' full depth rc b')
  case Nil
  then show ?case
    by (auto simp: add_leaf_def added_def count_subscription_def Let_def add_topic_to_path_topic [of h] split: option.splits)
next
  case (Cons tok toks)
  define s where "s = (case child_of tok (hier_children h) of Some s \<Rightarrow> s | None \<Rightarrow> new_hier tok)"
  define full' where "full' = add_topic_to_path h full depth"
  obtain rc1 s' b1 where r: "sub_add_full_topic H (Some c) qos s toks full' (depth + 1) b = (rc1, s', b1)"
    by (metis prod_cases3)
  have eq: "rc = rc1" "b' = b1"
    using Cons.prems(2,3) r
    by (auto simp: s_def full'_def tree_ok_hash_find [OF Cons.prems(1)] Let_def split: option.splits)
  have s: "tree_ok s" "hier_topic s = tok" "leaves_at h (tok # toks) = leaves_at s toks"
    using tree_ok_children [OF Cons.prems(1)] child_of_Some [of tok "hier_children h"]
    by (cases "child_of tok (hier_children h)"; simp add: s_def tree_ok_new_hier)+
  have "full' = add_topic_to_path (new_hier (hier_topic h)) full depth"
    unfolding full'_def by (rule add_topic_to_path_topic)
  then have p: "report_path full' (depth + 1) (hier_topic s # toks) = report_path full depth (hier_topic h # tok # toks)"
    by (simp only: s(2) report_path.simps)
  show ?case using Cons.IH [OF s(1) Cons.prems(2) r] unfolding eq s(3) p .
qed

lemma sub_remove_broker:
  assumes "sub_remove_full_topic c h toks full depth b = (rc, h', b')"
  shows "rc = 0 \<and> b' = (if \<exists>l \<in> set (leaves_at h toks). leaf_context l = c
    then removed c (remove_leaf c (leaves_at h toks)) (report_path full depth (hier_topic h # toks)) b else b)"
  using assms
proof (induction toks arbitrary: h h' full depth rc b')
  case Nil
  then show ?case
    by (auto simp: drop_leaf_def removed_def count_subscription_def Let_def add_topic_to_path_topic [of h] split: if_splits)
next
  case (Cons tok toks)
  show ?case
  proof (cases "child_of tok (hier_children h)")
    case None
    then show ?thesis using Cons.prems by (auto simp: Let_def)
  next
    case (Some s)
    define full' where "full' = add_topic_to_path h full depth"
    obtain rc1 s' b1 where r: "sub_remove_full_topic c s toks full' (depth + 1) b = (rc1, s', b1)" by (metis prod_cases3)
    have eq: "rc = 0" "b' = b1" using Cons.prems r Some by (auto simp: full'_def Let_def)
    have s: "hier_topic s = tok" "leaves_at h (tok # toks) = leaves_at s toks" using child_of_Some [OF Some] Some by simp_all
    have "full' = add_topic_to_path (new_hier (hier_topic h)) full depth"
      unfolding full'_def by (rule add_topic_to_path_topic)
    then have p: "report_path full' (depth + 1) (hier_topic s # toks) = report_path full depth (hier_topic h # tok # toks)"
      by (simp only: s(1) report_path.simps)
    show ?thesis using Cons.IH [OF r] unfolding eq s(2) p by blast
  qed
qed

section \<open>The operations on the table\<close>

abbreviation "tokens \<equiv> sub_topic_tokenise"

definition reported :: "string \<Rightarrow> string" where
  "reported f = report_path '''' 0 (hd (tokens f) # tokens f)"

lemma mqtt3_sub_add_eq:
  assumes "top_child b (hd (tokens f)) = (s, root)"
    and "sub_add_full_topic H (Some c) qos s (tokens f) '''' 0 b = (rc, s', b')"
  shows "mqtt3_sub_add H c f qos b = (if rc = -1 then 0 else rc, b'\<lparr>subs := replace_child s' root\<rparr>)"
  using assms by (simp add: mqtt3_sub_add_def Let_def top_child_def sub_add_def split: prod.splits)

lemma subs_at_cong: "subs b = subs b' \<Longrightarrow> subs_at b p = subs_at b' p"
  by (cases p) (simp_all add: subs_at_def)

lemma subs_ok_cong: "subs b = subs b' \<Longrightarrow> subs_ok b = subs_ok b'"
  by (simp add: subs_ok_def)

lemma subs_at_child:
  "p \<noteq> [] \<Longrightarrow> child_of (hd p) (hier_children (subs b)) = Some s \<Longrightarrow> subs_at b p = leaves_at s p"
  by (cases p) (simp_all add: subs_at_def del: leaves_at.simps)

text \<open>Putting back a changed top-level child changes the table where the child's paths changed.\<close>

lemma table_replace:
  assumes ok: "subs_ok (b\<lparr>subs := root\<rparr>)" and s: "child_of t (hier_children root) = Some s"
    and s': "tree_ok s'" "rooted s'" "hier_topic s' = t"
  shows "subs_ok (B\<lparr>subs := replace_child s' root\<rparr>)"
    and "subs_at (B\<lparr>subs := replace_child s' root\<rparr>) p =
      (if p \<noteq> [] \<and> hd p = t then leaves_at s' p else subs_at (b\<lparr>subs := root\<rparr>) p)"
proof -
  show "subs_ok (B\<lparr>subs := replace_child s' root\<rparr>)" using subs_ok_replace [OF ok s'(1,2), of B] by simp
  have m: "hier_topic s' \<in> set (topics_of (hier_children root))" using child_of_topics [OF s] s'(3) by simp
  show "subs_at (B\<lparr>subs := replace_child s' root\<rparr>) p =
      (if p \<noteq> [] \<and> hd p = t then leaves_at s' p else subs_at (b\<lparr>subs := root\<rparr>) p)"
    unfolding subs_at_replace [OF m] s'(3)
    by (cases p; hypsubst) (simp_all add: subs_at_def del: leaves_at.simps)
qed

definition new_subscriber :: "nat \<Rightarrow> int \<Rightarrow> string \<Rightarrow> broker \<Rightarrow> bool" where
  "new_subscriber c qos f b \<longleftrightarrow> update_leaf b c qos (subs_at b (tokens f)) = None"

text \<open>What a subscription does, denied by the tenant limit or not.\<close>

lemma mqtt3_sub_add_table:
  fixes H c qos
  assumes ok: "subs_ok b" and f: "pound_last (tokens f)"
  defines "b' \<equiv> snd (mqtt3_sub_add H c f qos b)" and "rc \<equiv> fst (mqtt3_sub_add H c f qos b)"
  shows "subs_ok b'"
    and "subs_at b' p = (if \<not> tenant_denied H (Some c) b \<and> p = tokens f
           then with_leaf b c qos (subs_at b p) else subs_at b p)"
    and "rc = (if tenant_denied H (Some c) b then 1 else 0)"
    and "b'\<lparr>subs := subs b\<rparr> = (if tenant_denied H (Some c) b \<or> \<not> new_subscriber c qos f b then b
           else added c (subs_at b (tokens f)) (reported f) b)"
proof -
  let ?t = "hd (tokens f)"
  obtain s root where tc: "top_child b ?t = (s, root)" by fastforce
  obtain rc1 s' b1 where r: "sub_add_full_topic H (Some c) qos s (tokens f) '''' 0 b = (rc1, s', b1)" by (metis prod_cases3)
  note eq = mqtt3_sub_add_eq [OF tc r]
  have ne: "tokens f \<noteq> []" by (rule sub_topic_tokenise_nonempty)
  note top = top_child_ok [OF ok conjunct1 [OF hd_tokens] conjunct2 [OF hd_tokens] tc]
  have at: "subs_at b (tokens f) = leaves_at s (tokens f)"
    using subs_at_child [OF ne, of "b\<lparr>subs := root\<rparr>" s] top(5,6) by simp
  have b': "b' = b1\<lparr>subs := replace_child s' root\<rparr>" and rc: "rc = (if rc1 = -1 then 0 else rc1)"
    by (simp_all add: b'_def rc_def eq)
  have "subs_ok b' \<and> subs_at b' p = (if \<not> tenant_denied H (Some c) b \<and> p = tokens f
           then with_leaf b c qos (subs_at b p) else subs_at b p) \<and> rc = (if tenant_denied H (Some c) b then 1 else 0) \<and>
        b'\<lparr>subs := subs b\<rparr> = (if tenant_denied H (Some c) b \<or> \<not> new_subscriber c qos f b then b
           else added c (subs_at b (tokens f)) (reported f) b)"
  proof (cases "tenant_denied H (Some c) b")
    case True
    then have d: "rc1 = 1" "s' = s" "b1 = b" using sub_add_denied [OF True] r by simp_all
    have "p \<noteq> [] \<Longrightarrow> hd p = ?t \<Longrightarrow> leaves_at s p = subs_at b p"
      using subs_at_child [of p "b\<lparr>subs := root\<rparr>" s] top(5,6) by simp
    then show ?thesis
      using table_replace [OF top(4,5,1,2,3), of b] top(6) True by (simp add: b' rc d)
  next
    case False
    note l = sub_add_leaves [OF top(1) f False r]
    note br = sub_add_broker [OF top(1) False r]
    have rs: "rooted s'"
      using top(3) l by (intro rooted_cong [OF top(2)]) (auto simp: ne split: if_splits)
    have "hier_topic s' = ?t" using l top(3) by simp
    note tr = table_replace [OF top(4,5) conjunct1 [OF l] rs this, of b1]
    have "leaves_at s' p = (if p = tokens f then with_leaf b c qos (subs_at b p) else subs_at b p)"
      if "p \<noteq> []" "hd p = ?t"
      using l subs_at_child [of p "b\<lparr>subs := root\<rparr>" s] that top(5,6) by auto
    then have "subs_at b' p = (if p = tokens f then with_leaf b c qos (subs_at b p) else subs_at b p)"
      unfolding b' tr(2) top(6) using ne ne [symmetric] by auto
    moreover have "b1\<lparr>subs := subs b\<rparr> = b1"
      using br by (auto simp: added_def count_subscription_def log_dxl_def upd_ctx_def)
    ultimately show ?thesis
      using tr(1) br False unfolding new_subscriber_def at reported_def top(3) by (auto simp: b' rc)
  qed
  then show "subs_ok b'"
    and "subs_at b' p = (if \<not> tenant_denied H (Some c) b \<and> p = tokens f
           then with_leaf b c qos (subs_at b p) else subs_at b p)"
    and "rc = (if tenant_denied H (Some c) b then 1 else 0)"
    and "b'\<lparr>subs := subs b\<rparr> = (if tenant_denied H (Some c) b \<or> \<not> new_subscriber c qos f b then b
           else added c (subs_at b (tokens f)) (reported f) b)" by blast+
qed

lemma remove_leaf_absent: "\<not> (\<exists>l \<in> set ls. leaf_context l = c) \<Longrightarrow> remove_leaf c ls = ls"
  by (induction ls) auto

lemma mqtt3_sub_remove_table:
  fixes c f
  assumes ok: "subs_ok b"
  defines "b' \<equiv> snd (mqtt3_sub_remove c f b)"
  shows "subs_ok b'"
    and "subs_at b' p = (if p = tokens f then remove_leaf c (subs_at b p) else subs_at b p)"
    and "fst (mqtt3_sub_remove c f b) = 0"
    and "b'\<lparr>subs := subs b\<rparr> = (if \<exists>l \<in> set (subs_at b (tokens f)). leaf_context l = c
           then removed c (remove_leaf c (subs_at b (tokens f))) (reported f) b else b)"
proof -
  let ?t = "hd (tokens f)"
  have tr: "tree_ok (subs b)" using ok by (simp add: subs_ok_def)
  have ne: "tokens f \<noteq> []" by (rule sub_topic_tokenise_nonempty)
  have "subs_ok b' \<and> subs_at b' p = (if p = tokens f then remove_leaf c (subs_at b p) else subs_at b p) \<and>
    fst (mqtt3_sub_remove c f b) = 0 \<and>
    b'\<lparr>subs := subs b\<rparr> = (if \<exists>l \<in> set (subs_at b (tokens f)). leaf_context l = c
           then removed c (remove_leaf c (subs_at b (tokens f))) (reported f) b else b)"
  proof (cases "child_of ?t (hier_children (subs b))")
    case None
    then have "subs_at b (tokens f) = []" using ne by (cases "tokens f") (simp_all add: subs_at_def)
    moreover have "mqtt3_sub_remove c f b = (0, b)"
      using None by (simp add: mqtt3_sub_remove_def Let_def tree_ok_hash_find [OF tr])
    ultimately show ?thesis using ok by (simp add: b'_def)
  next
    case (Some s)
    obtain rc s' b1 where r: "sub_remove_full_topic c s (tokens f) '''' 0 b = (rc, s', b1)" by (metis prod_cases3)
    have eq: "mqtt3_sub_remove c f b = (rc, b1\<lparr>subs := replace_child s' (subs b)\<rparr>)"
      using Some r by (simp add: mqtt3_sub_remove_def Let_def tree_ok_hash_find [OF tr] sub_remove_def)
    have s: "s \<in> set (hier_children (subs b))" "hier_topic s = ?t" using child_of_Some [OF Some] by auto
    then have ts: "tree_ok s" "rooted s" using ok tree_ok_children [OF tr] by (auto simp: subs_ok_def)
    note l = sub_remove_leaves [OF ts(1) r]
    note br = sub_remove_broker [OF r]
    have at: "p \<noteq> [] \<Longrightarrow> hd p = ?t \<Longrightarrow> subs_at b p = leaves_at s p" for p
      using subs_at_child [of p b s] Some by simp
    have rm: "remove_leaf c ls \<noteq> [] \<Longrightarrow> ls \<noteq> []" for ls by (cases ls) auto
    have rs: "rooted s'" using l rm by (intro rooted_cong [OF ts(2)]) (auto split: if_splits)
    have top: "hier_topic s' = ?t" using l s(2) by simp
    have "subs_ok (b\<lparr>subs := subs b\<rparr>)" using ok by simp
    note tb = table_replace [OF this Some conjunct1 [OF l] rs top, of b1]
    have "subs_at b' p = (if p = tokens f then remove_leaf c (subs_at b p) else subs_at b p)"
      unfolding b'_def eq snd_conv tb(2) using at [of p] l ne ne [symmetric] by auto
    moreover have "b1\<lparr>subs := subs b\<rparr> = b1"
      using br by (auto simp: removed_def count_subscription_def log_dxl_def upd_ctx_def)
    ultimately show ?thesis
      using tb(1) br at [OF ne refl] unfolding reported_def s(2) [symmetric] by (auto simp: b'_def eq)
  qed
  then show "subs_ok b'"
    and "subs_at b' p = (if p = tokens f then remove_leaf c (subs_at b p) else subs_at b p)"
    and "fst (mqtt3_sub_remove c f b) = 0"
    and "b'\<lparr>subs := subs b\<rparr> = (if \<exists>l \<in> set (subs_at b (tokens f)). leaf_context l = c
           then removed c (remove_leaf c (subs_at b (tokens f))) (reported f) b else b)" by blast+
qed

section \<open>The interface\<close>

definition names :: "broker \<Rightarrow> nat \<Rightarrow> string option" where
  "names b c = ctx_id (ctxs b c)"

fun put_leaf :: "(nat \<Rightarrow> string option) \<Rightarrow> nat \<Rightarrow> int \<Rightarrow> subleaf list \<Rightarrow> subleaf list" where
  "put_leaf nm c q [] = [\<lparr>leaf_context = c, leaf_qos = q\<rparr>]"
| "put_leaf nm c q (l # ls) = (if nm (leaf_context l) = nm c then l\<lparr>leaf_qos := q\<rparr> # ls else l # put_leaf nm c q ls)"

lemma with_leaf_put: "with_leaf b c q ls = put_leaf (names b) c q ls"
proof -
  have "update_leaf b c q ls = (if \<exists>l \<in> set ls. names b (leaf_context l) = names b c then Some (put_leaf (names b) c q ls) else None)"
    for ls by (induction ls) (simp_all, simp_all add: names_def)
  moreover have "\<not> (\<exists>l \<in> set ls. names b (leaf_context l) = names b c) \<Longrightarrow>
      put_leaf (names b) c q ls = ls @ [\<lparr>leaf_context = c, leaf_qos = q\<rparr>]" for ls
    by (induction ls) auto
  ultimately show ?thesis by (auto simp: with_leaf_def)
qed

lemma put_leaf_fresh:
  "\<forall>l \<in> set ls. nm (leaf_context l) \<noteq> nm c \<Longrightarrow> put_leaf nm c q ls = ls @ [\<lparr>leaf_context = c, leaf_qos = q\<rparr>]"
  by (induction ls) auto

lemma put_leaf_mem: "\<exists>l \<in> set (put_leaf nm c q ls). nm (leaf_context l) = nm c \<and> leaf_qos l = q"
  by (induction ls) auto

lemma put_leaf_twice [simp]: "put_leaf nm c q (put_leaf nm c q' ls) = put_leaf nm c q ls"
  by (induction ls) auto

lemma put_leaf_owners:
  "map (nm \<circ> leaf_context) (put_leaf nm c q ls) =
     (if nm c \<in> set (map (nm \<circ> leaf_context) ls) then map (nm \<circ> leaf_context) ls else map (nm \<circ> leaf_context) ls @ [nm c])"
  by (induction ls) auto

lemma remove_leaf_append:
  "\<forall>l \<in> set ls. leaf_context l \<noteq> c \<Longrightarrow> remove_leaf c (ls @ [\<lparr>leaf_context = c, leaf_qos = q\<rparr>]) = ls"
  by (induction ls) auto

lemma remove_leaf_distinct: "distinct (map f ls) \<Longrightarrow> distinct (map f (remove_leaf c ls))"
  and remove_leaf_subset: "set (remove_leaf c ls) \<subseteq> set ls"
proof -
  show s: "set (remove_leaf c ls) \<subseteq> set ls" for ls by (induction ls) auto
  show "distinct (map f ls) \<Longrightarrow> distinct (map f (remove_leaf c ls))"
  proof (induction ls)
    case (Cons l ls)
    then show ?case using s [of ls] by auto
  qed simp
qed

locale subscription_table =
  fixes ok :: "'s \<Rightarrow> bool"
    and tbl :: "'s \<Rightarrow> string list \<Rightarrow> subleaf list"
    and nm :: "'s \<Rightarrow> nat \<Rightarrow> string option"
    and denied :: "'s \<Rightarrow> nat \<Rightarrow> bool"
    and sub :: "nat \<Rightarrow> string \<Rightarrow> int \<Rightarrow> 's \<Rightarrow> 's"
    and unsub :: "nat \<Rightarrow> string \<Rightarrow> 's \<Rightarrow> 's"
  assumes sub_ok: "ok s \<Longrightarrow> pound_last (tokens f) \<Longrightarrow> ok (sub c f q s)"
    and sub_tbl: "ok s \<Longrightarrow> pound_last (tokens f) \<Longrightarrow> tbl (sub c f q s) p =
      (if \<not> denied s c \<and> p = tokens f then put_leaf (nm s) c q (tbl s p) else tbl s p)"
    and sub_nm: "ok s \<Longrightarrow> pound_last (tokens f) \<Longrightarrow> nm (sub c f q s) = nm s"
    and unsub_ok: "ok s \<Longrightarrow> ok (unsub c f s)"
    and unsub_tbl: "ok s \<Longrightarrow> tbl (unsub c f s) p = (if p = tokens f then remove_leaf c (tbl s p) else tbl s p)"
    and unsub_nm: "ok s \<Longrightarrow> nm (unsub c f s) = nm s"
begin

text \<open>At most one leaf per client identifier and filter.\<close>

definition one_each :: "'s \<Rightarrow> bool" where
  "one_each s \<longleftrightarrow> (\<forall>p. distinct (map (nm s \<circ> leaf_context) (tbl s p)))"

lemma one_each_sub: "ok s \<Longrightarrow> pound_last (tokens f) \<Longrightarrow> one_each s \<Longrightarrow> one_each (sub c f q s)"
  by (simp add: one_each_def sub_nm sub_tbl put_leaf_owners)

lemma one_each_unsub: "ok s \<Longrightarrow> one_each s \<Longrightarrow> one_each (unsub c f s)"
  by (simp add: one_each_def unsub_nm unsub_tbl remove_leaf_distinct)

lemma subscribed:
  "ok s \<Longrightarrow> pound_last (tokens f) \<Longrightarrow> \<not> denied s c \<Longrightarrow>
     \<exists>l \<in> set (tbl (sub c f q s) (tokens f)). nm s (leaf_context l) = nm s c \<and> leaf_qos l = q"
  by (simp add: sub_tbl put_leaf_mem)

lemma resubscribed:
  "ok s \<Longrightarrow> pound_last (tokens f) \<Longrightarrow> \<not> denied s c \<Longrightarrow> \<not> denied (sub c f q s) c \<Longrightarrow>
     tbl (sub c f q' (sub c f q s)) p = tbl (sub c f q' s) p"
  by (simp add: sub_tbl sub_ok sub_nm)

lemma unsubscribed:
  "ok s \<Longrightarrow> one_each s \<Longrightarrow> \<forall>l \<in> set (tbl (unsub c f s) (tokens f)). leaf_context l \<noteq> c"
proof -
  have "distinct (map (g \<circ> leaf_context) ls) \<Longrightarrow> \<forall>l \<in> set (remove_leaf c ls). leaf_context l \<noteq> c" for g :: "nat \<Rightarrow> string option" and ls
    by (induction ls) (auto simp: image_iff)
  then show "ok s \<Longrightarrow> one_each s \<Longrightarrow> \<forall>l \<in> set (tbl (unsub c f s) (tokens f)). leaf_context l \<noteq> c"
    unfolding one_each_def by (simp add: unsub_tbl) blast
qed

lemma sub_unsub:
  assumes "ok s" and "pound_last (tokens f)" and "\<forall>l \<in> set (tbl s (tokens f)). nm s (leaf_context l) \<noteq> nm s c"
  shows "tbl (unsub c f (sub c f q s)) p = tbl s p"
proof -
  have "\<forall>l \<in> set (tbl s (tokens f)). leaf_context l \<noteq> c" using assms(3) by auto
  then show ?thesis
    using assms by (auto simp: unsub_tbl sub_tbl sub_ok put_leaf_fresh remove_leaf_append remove_leaf_absent)
qed

end

lemma names_count_subscription [simp]: "names (count_subscription n c b) = names b"
  by (auto simp: names_def count_subscription_def upd_ctx_def fun_eq_iff)

lemma names_upd [simp]: "names (b\<lparr>subs := r\<rparr>) = names b" "names (log_dxl e b) = names b"
  by (simp_all add: names_def log_dxl_def fun_eq_iff)

lemma names_added [simp]: "names (added c ls t b) = names b" "names (removed c ls t b) = names b"
  by (simp_all add: added_def removed_def)

lemma mqtt3_sub_add_names:
  assumes "subs_ok b" and "pound_last (tokens f)"
  shows "names (snd (mqtt3_sub_add H c f q b)) = names b"
proof -
  have "names (snd (mqtt3_sub_add H c f q b)) = names ((snd (mqtt3_sub_add H c f q b))\<lparr>subs := subs b\<rparr>)" by simp
  also have "\<dots> = names b" unfolding mqtt3_sub_add_table(4) [OF assms] by simp
  finally show ?thesis .
qed

lemma mqtt3_sub_remove_names:
  assumes "subs_ok b"
  shows "names (snd (mqtt3_sub_remove c f b)) = names b"
proof -
  have "names (snd (mqtt3_sub_remove c f b)) = names ((snd (mqtt3_sub_remove c f b))\<lparr>subs := subs b\<rparr>)" by simp
  also have "\<dots> = names b" unfolding mqtt3_sub_remove_table(4) [OF assms] by simp
  finally show ?thesis .
qed

interpretation table: subscription_table subs_ok subs_at names "\<lambda>b c. tenant_denied H (Some c) b"
    "\<lambda>c f q b. snd (mqtt3_sub_add H c f q b)" "\<lambda>c f b. snd (mqtt3_sub_remove c f b)" for H
  by unfold_locales
    (simp_all add: mqtt3_sub_add_table(1,2) mqtt3_sub_remove_table(1,2) with_leaf_put mqtt3_sub_add_names mqtt3_sub_remove_names)

section \<open>Delivery\<close>

text \<open>The matching leaves are below the one top-level child the topic leads to.\<close>

lemma matching_rooted:
  assumes "tree_ok c" and "rooted c" and "t \<noteq> hier_topic c"
  shows "matching (t # ts) (all_leaves c) = {#}"
proof -
  have "\<not> levels_match p (t # ts)" if m: "(p, l) \<in> set (all_leaves c)" for p l
  proof -
    have "count (mset (all_leaves c)) (p, l) \<noteq> 0" using m by simp
    then have "leaves_at c p \<noteq> []" using all_leaves_count [OF assms(1), of p l] by auto
    then have "p \<noteq> []" "hd p = hier_topic c" using assms(2) by (auto simp: rooted_def)
    then show ?thesis using assms(2,3) by (cases p) (auto simp: rooted_def)
  qed
  then have "filter (\<lambda>(p, l). levels_match p (t # ts)) (all_leaves c) = []" by (auto simp: filter_empty_conv)
  then show ?thesis by (simp add: matching_def)
qed

lemma matching_subscriptions:
  assumes ok: "subs_ok b" and w: "wild_free toks" and ne: "toks \<noteq> []"
  shows "matching toks (subscriptions b) =
    (case child_of (hd toks) (hier_children (subs b)) of None \<Rightarrow> {#} | Some c \<Rightarrow> mset (search_leaves c toks))"
proof -
  let ?cs = "hier_children (subs b)"
  have tr: "tree_ok (subs b)" and d: "distinct (topics_of ?cs)" using ok by (simp_all add: subs_ok_def tree_ok_parts)
  have c: "matching toks (all_leaves c) = (if hier_topic c = hd toks then mset (search_leaves c toks) else 0)" if "c \<in> set ?cs" for c
  proof -
    have "tree_ok c" "rooted c" using ok that tree_ok_children [OF tr] by (auto simp: subs_ok_def)
    then show ?thesis
      using search_leaves_matching [of c toks] matching_rooted [of c "hd toks" "tl toks"] w ne
      by (cases "hier_topic c = hd toks") simp_all
  qed
  have "matching toks (subscriptions b) = (\<Sum>c\<leftarrow>?cs. if hier_topic c = hd toks then mset (search_leaves c toks) else 0)"
    unfolding subscriptions_def matching_concat map_map o_def using c by (simp cong: map_cong)
  then show ?thesis unfolding sum_child [OF d] .
qed

lemma messages_queue_deliver:
  assumes ok: "subs_ok b" and w: "wild_free (tokens topic)"
  shows "\<exists>ls. mset ls = matching (tokens topic) (subscriptions b) \<and>
    mqtt3_db_messages_queue H (Some src) topic qos False stored b =
      (0, let b' = deliver_all H src qos False stored ls b in log_dxl (dxl_finalize (db_id (deref_store b' stored))) b')"
proof -
  have tr: "tree_ok (subs b)" using ok by (simp add: subs_ok_def)
  note m = matching_subscriptions [OF ok w sub_topic_tokenise_nonempty]
  show ?thesis
  proof (cases "child_of (hd (tokens topic)) (hier_children (subs b))")
    case None
    then show ?thesis
      using m by (intro exI [of _ "[]"]) (simp add: mqtt3_db_messages_queue_def Let_def tree_ok_hash_find [OF tr])
  next
    case (Some c)
    have "tree_ok c" using child_of_Some [OF Some] tree_ok_children [OF tr] by blast
    then show ?thesis
      using m Some by (intro exI [of _ "search_leaves c (tokens topic)"])
        (simp add: mqtt3_db_messages_queue_def Let_def tree_ok_hash_find [OF tr] sub_search_eq)
  qed
qed

subsection \<open>What one delivery does\<close>

lemma insert_allowed_other: "d \<noteq> c \<Longrightarrow> ctxs (snd (insert_allowed H c mid dir qos retain q st rc b)) d = ctxs b d"
  by (simp add: insert_allowed_def Let_def append_msg_def upd_ctx_def log_dxl_def add_ref_def upd_store_def
      mosquitto_add_new_msgs_set_def split: prod.split option.split)

lemma message_insert_other: "d \<noteq> c \<Longrightarrow> ctxs (snd (mqtt3_db_message_insert H c mid dir qos retain q b)) d = ctxs b d"
  by (simp add: mqtt3_db_message_insert_def Let_def insert_allowed_other upd_ctx_def log_dxl_def split: insert_decision.split)

lemma deliver_other: "leaf_context l \<noteq> d \<Longrightarrow> ctxs (snd (deliver_leaf H s q r st l (rc, b))) d = ctxs b d"
  by (auto simp: deliver_leaf_def Let_def gen_mid_def message_insert_other split: prod.splits)
    (metis message_insert_other snd_conv fun_upd_other broker.select_convs(1) broker.surjective broker.update_convs(1))+

lemma deliver_all_other:
  assumes "\<forall>l \<in> set ls. leaf_context l \<noteq> d"
  shows "ctxs (deliver_all H s q r st ls b) d = ctxs b d"
  using assms
proof (induction ls arbitrary: b)
  case (Cons l ls)
  have "deliver_all H s q r st (l # ls) b = deliver_all H s q r st ls (snd (deliver_leaf H s q r st l (0, b)))"
    using deliver_all_append [of H s q r st "[l]" ls b] by (simp add: deliver_all_def)
  then show ?case using Cons deliver_other [of l d H s q r st 0 b] by simp
qed simp

text \<open>A client that takes everything: connected, with room in its packet queue, and not refused by
  the broker library.\<close>

definition receptive :: "dxl_hooks \<Rightarrow> string \<Rightarrow> nat \<Rightarrow> broker \<Rightarrow> bool" where
  "receptive H src c b \<longleftrightarrow> \<not> IS_CONTEXT_INVALID (ctxs b c) \<and> packet_count (ctxs b c) < max_packet_buffer_size b \<and>
     (\<forall>log x s. fst (on_insert_message H log x s)) \<and> \<not> upgrade_outgoing_qos b \<and>
     \<not> (is_bridge (ctxs b c) \<and> ctx_id (ctxs b c) = Some src)"

definition fresh_copy :: "nat \<Rightarrow> client_msg \<Rightarrow> bool" where
  "fresh_copy stored m \<longleftrightarrow> cm_store m = stored \<and> cm_qos m = 0 \<and> cm_direction m = mosq_md_out \<and>
     cm_state m = mosq_ms_publish_qos0 \<and> \<not> cm_dup m"

lemma insert_allowed_appends:
  assumes "fst (on_insert_message H (dxl_log b) (ctxs b c) (deref_store b q))"
  shows "\<exists>m. msgs (ctxs (snd (insert_allowed H c 0 mosq_md_out 0 retain q mosq_ms_publish_qos0 rc b)) c) = msgs (ctxs b c) @ [m] \<and>
    fresh_copy q m"
proof -
  obtain icm cp where h: "on_insert_message H (dxl_log b) (ctxs b c) (deref_store b q) = (True, icm, cp)"
    using assms by (metis fst_conv prod_cases3)
  show ?thesis
    unfolding insert_allowed_def Let_def h
    by (cases cp; cases "bridge (ctxs b c)")
      (simp_all add: append_msg_def upd_ctx_def log_dxl_def add_ref_def upd_store_def
        mosquitto_add_new_msgs_set_def lazy_bridge_check_def fresh_copy_def)
qed

lemma insert_allowed_frame:
  "packet_count (ctxs (snd (insert_allowed H c mid dir qos retain q st rc b)) d) = packet_count (ctxs b d)"
  "sock (ctxs (snd (insert_allowed H c mid dir qos retain q st rc b)) d) = sock (ctxs b d)"
  "wsi (ctxs (snd (insert_allowed H c mid dir qos retain q st rc b)) d) = wsi (ctxs b d)"
  "is_bridge (ctxs (snd (insert_allowed H c mid dir qos retain q st rc b)) d) = is_bridge (ctxs b d)"
  "ctx_id (ctxs (snd (insert_allowed H c mid dir qos retain q st rc b)) d) = ctx_id (ctxs b d)"
  "max_packet_buffer_size (snd (insert_allowed H c mid dir qos retain q st rc b)) = max_packet_buffer_size b"
  "upgrade_outgoing_qos (snd (insert_allowed H c mid dir qos retain q st rc b)) = upgrade_outgoing_qos b"
  by (simp_all add: insert_allowed_def Let_def append_msg_def upd_ctx_def log_dxl_def add_ref_def upd_store_def
      mosquitto_add_new_msgs_set_def lazy_bridge_check_def split: prod.split option.split)

lemma message_insert_frame:
  "packet_count (ctxs (snd (mqtt3_db_message_insert H c mid dir qos retain q b)) d) = packet_count (ctxs b d)"
  "sock (ctxs (snd (mqtt3_db_message_insert H c mid dir qos retain q b)) d) = sock (ctxs b d)"
  "wsi (ctxs (snd (mqtt3_db_message_insert H c mid dir qos retain q b)) d) = wsi (ctxs b d)"
  "is_bridge (ctxs (snd (mqtt3_db_message_insert H c mid dir qos retain q b)) d) = is_bridge (ctxs b d)"
  "ctx_id (ctxs (snd (mqtt3_db_message_insert H c mid dir qos retain q b)) d) = ctx_id (ctxs b d)"
  "max_packet_buffer_size (snd (mqtt3_db_message_insert H c mid dir qos retain q b)) = max_packet_buffer_size b"
  "upgrade_outgoing_qos (snd (mqtt3_db_message_insert H c mid dir qos retain q b)) = upgrade_outgoing_qos b"
  by (simp_all add: mqtt3_db_message_insert_def Let_def insert_allowed_frame upd_ctx_def log_dxl_def split: insert_decision.split)

lemma receptive_insert:
  "receptive H src d (snd (mqtt3_db_message_insert H c mid dir qos retain q b)) = receptive H src d b"
  by (simp add: receptive_def IS_CONTEXT_INVALID_def message_insert_frame)

lemma deliver_zero:
  assumes "leaf_qos l \<ge> 0" and "\<not> upgrade_outgoing_qos b"
  shows "snd (deliver_leaf H src 0 False stored l (rc, b)) =
    (if is_bridge (ctxs b (leaf_context l)) \<and> ctx_id (ctxs b (leaf_context l)) = Some src then b
     else snd (mqtt3_db_message_insert H (leaf_context l) 0 mosq_md_out 0 False stored b))"
  using assms by (auto simp: deliver_leaf_def message_qos_def Let_def split: prod.split)

lemma insert_receptive:
  assumes "receptive H src c b"
  shows "\<exists>m. msgs (ctxs (snd (mqtt3_db_message_insert H c 0 mosq_md_out 0 False stored b)) c) = msgs (ctxs b c) @ [m] \<and>
    fresh_copy stored m"
proof -
  have "mqtt3_db_message_insert H c 0 mosq_md_out 0 False stored b =
      insert_allowed H c 0 mosq_md_out 0 False stored mosq_ms_publish_qos0 0 b"
  proof -
    have "\<not> packet_queue_exceeded b (ctxs b c)" "\<not> qos0_while_offline b (ctxs b c) 0"
      using assms by (simp_all add: receptive_def qos0_while_offline_def packet_queue_exceeded_def not_le)
    moreover have "message_admit b (ctxs b c) mosq_md_out 0 = Accept mosq_ms_publish_qos0 0"
      using assms by (simp add: receptive_def message_admit_def publish_state_def)
    ultimately show ?thesis by (simp add: mqtt3_db_message_insert_def)
  qed
  then show ?thesis using insert_allowed_appends [of H b c stored False 0] assms by (simp add: receptive_def)
qed

lemma deliver_all_receptive:
  assumes "receptive H src c b" and "\<forall>l \<in> set ls. leaf_qos l \<ge> 0"
  shows "\<exists>ms. msgs (ctxs (deliver_all H src 0 False stored ls b) c) = msgs (ctxs b c) @ ms \<and>
    length ms = length (filter (\<lambda>l. leaf_context l = c) ls) \<and> (\<forall>m \<in> set ms. fresh_copy stored m)"
  using assms
proof (induction ls arbitrary: b)
  case (Cons l ls)
  let ?b1 = "snd (deliver_leaf H src 0 False stored l (0, b))"
  have step: "deliver_all H src 0 False stored (l # ls) b = deliver_all H src 0 False stored ls ?b1"
    using deliver_all_append [of H src 0 False stored "[l]" ls b] by (simp add: deliver_all_def)
  have up: "\<not> upgrade_outgoing_qos b" using Cons.prems(1) by (simp add: receptive_def)
  have q: "leaf_qos l \<ge> 0" using Cons.prems(2) by simp
  note d = deliver_zero [OF q up, of H src stored 0]
  have rec: "receptive H src c ?b1" using Cons.prems(1) by (simp add: d receptive_insert)
  have one: "\<exists>ms1. msgs (ctxs ?b1 c) = msgs (ctxs b c) @ ms1 \<and> length ms1 = (if leaf_context l = c then 1 else 0) \<and>
      (\<forall>m \<in> set ms1. fresh_copy stored m)"
  proof (cases "leaf_context l = c")
    case True
    have "\<not> (is_bridge (ctxs b c) \<and> ctx_id (ctxs b c) = Some src)" using Cons.prems(1) by (simp add: receptive_def)
    with insert_receptive [OF Cons.prems(1), of stored] True d show ?thesis by auto
  next
    case False
    then show ?thesis using deliver_other [OF False] by simp
  qed
  obtain ms1 where m1: "msgs (ctxs ?b1 c) = msgs (ctxs b c) @ ms1" "length ms1 = (if leaf_context l = c then 1 else 0)"
      "\<forall>m \<in> set ms1. fresh_copy stored m" using one by blast
  obtain ms where m2: "msgs (ctxs (deliver_all H src 0 False stored ls ?b1) c) = msgs (ctxs ?b1 c) @ ms"
      "length ms = length (filter (\<lambda>l. leaf_context l = c) ls)" "\<forall>m \<in> set ms. fresh_copy stored m"
    using Cons.IH [OF rec] Cons.prems(2) by auto
  show ?case unfolding step using m1 m2 by (intro exI [of _ "ms1 @ ms"]) auto
qed simp

end
