(* ===== verification/Subs_Session.thy ===== *)
theory Subs_Session
  imports Subs_Table
begin

text \<open>
  What the rest of the broker sees of the subscription table: the topic names reported to the broker
  library, the number of subscribers of a topic, the effect of cleaning the subscriptions of ended
  sessions, and the round trip of subscribing and unsubscribing.
\<close>

section \<open>A sample table\<close>

text \<open>The tree as \<^verbatim>\<open>mqtt3_db_open\<close> leaves it.\<close>

definition open_tree :: subhier where
  "open_tree = Subhier '''' [] None [new_hier '''', new_hier ''$SYS''] ['''', ''$SYS''] 0 0"

lemma open_tree_ok: "subs b = open_tree \<Longrightarrow> subs_ok b"
  by (simp add: subs_ok_def open_tree_def rooted_def tree_ok_new_hier topics_of_def del: tree_ok.simps(1),
      simp add: tree_ok_new_hier topics_of_def)

lemma open_tree_empty: "subs b = open_tree \<Longrightarrow> subs_at b p = []"
  by (cases p) (auto simp: subs_at_def open_tree_def child_of_def)

lemma open_tree_subscriptions: "subs b = open_tree \<Longrightarrow> subscriptions b = []"
  by (simp add: subscriptions_def open_tree_def leafless_below)

definition sample_table :: broker where
  "sample_table = sample_broker\<lparr>subs := open_tree, max_packet_buffer_size := 10\<rparr>"

definition sample_subscribed :: broker where
  "sample_subscribed = snd (mqtt3_sub_add permissive_hooks 0 ''a/+'' 0 sample_table)"

lemma sample_table_ok: "subs_ok sample_table"
  by (rule open_tree_ok) (simp add: sample_table_def)

section \<open>The reported topic\<close>

lemma report_path_deep:
  assumes "depth > 2" and "length (full @ concat (map (\<lambda>t. CHR ''/'' # t) ts)) \<le> 1023"
  shows "report_path full depth ts = full @ concat (map (\<lambda>t. CHR ''/'' # t) ts)"
  using assms by (induction ts arbitrary: full depth) (simp_all add: add_topic_to_path_def)

lemma join_topic_Cons: "join_topic (t # ts) = t @ concat (map (\<lambda>t. CHR ''/'' # t) ts)"
  by (induction ts arbitrary: t) simp_all

lemma reported_plain:
  assumes "next_char f \<noteq> CHR ''$''" and "length f \<le> 1023"
  shows "reported f = f"
proof -
  obtain t ts where s: "split_topic f = t # ts" by (cases "split_topic f") auto
  have tk: "tokens f = '''' # t # ts" using assms(1) by (simp add: sub_topic_tokenise_eq s)
  have f: "f = t @ concat (map (\<lambda>t. CHR ''/'' # t) ts)" using join_topic_Cons join_split s by metis
  have "reported f = report_path t 3 ts"
    unfolding reported_def tk using assms(2) arg_cong [OF f, of length] by (simp add: add_topic_to_path_def numeral_3_eq_3)
  also have "\<dots> = f" using report_path_deep [of 3 t ts] assms(2) f by simp
  finally show ?thesis .
qed

text \<open>A topic below a top-level child other than the empty one is reported with that level twice.\<close>

lemma reported_dollar: "reported ''$SYS/a'' = ''$SYS$SYSa''"
  by (simp add: reported_def sub_topic_tokenise_eq next_char_def add_topic_to_path_def)

section \<open>Counting\<close>

definition is_counted :: "broker \<Rightarrow> string option \<Rightarrow> subleaf \<Rightarrow> bool" where
  "is_counted b tenant_guid l \<longleftrightarrow> \<not> is_bridge (ctxs b (leaf_context l)) \<and>
     (case tenant_guid of None \<Rightarrow> True | Some g \<Rightarrow> dxl_tenant_guid (ctxs b (leaf_context l)) = Some g)"

lemma sub_count_process_counted: "sub_count_process b g h = int (length (filter (is_counted b g) (hier_subs h)))"
  by (simp add: sub_count_process_def is_counted_def [abs_def])

lemma sub_count_search_leaves:
  assumes "tree_ok h"
  shows "fst (sub_count_search b g h toks n) = n + int (length (filter (is_counted b g) (search_leaves h toks))) \<and>
    snd (sub_count_search b g h toks n) \<in> {0, -1}"
  using assms
proof (induction h toks arbitrary: n rule: search_leaves.induct)
  case (1 h)
  then show ?case
    by (auto simp: tree_ok_hash_find pound_leaves_def sub_count_process_counted split: option.splits)
next
  case (2 h tok toks)
  define v where "v = (\<lambda>s (count, flag :: int). let (count1, f) = sub_count_search b g s toks count;
      count2 = (if toks = [] then count1 + sub_count_process b g s else count1) in (count2, if f = -1 then -1 else flag))"
  let ?leaves = "\<lambda>s. search_leaves s toks @ (if toks = [] then hier_subs s else [])"
  have v: "fst (v s r) = fst r + int (length (filter (is_counted b g) (?leaves s))) \<and>
      (snd r \<in> {0, -1} \<longrightarrow> snd (v s r) \<in> {0, -1})"
    if "child_of k (hier_children h) = Some s" for k s r
  proof -
    have "tree_ok s" using child_of_Some [OF that] tree_ok_children "2.prems" by auto
    then have ih: "fst (sub_count_search b g s toks n) = n + int (length (filter (is_counted b g) (search_leaves s toks))) \<and>
        snd (sub_count_search b g s toks n) \<in> {0, -1}" for n
      using "2.IH" that by blast
    obtain n flag m f where r: "r = (n, flag)" "sub_count_search b g s toks n = (m, f)" by (metis surj_pair)
    show ?thesis
      using ih [of n] unfolding v_def r(1) prod.case r(2) by (auto simp: Let_def sub_count_process_counted)
  qed
  define r1 where "r1 = (case hash_find h ''+'' of None \<Rightarrow> (n, 0) | Some s \<Rightarrow> v s (n, 0))"
  define r2 where "r2 = (case hash_find h tok of None \<Rightarrow> r1 | Some s \<Rightarrow> v s r1)"
  have e: "sub_count_search b g h (tok # toks) n =
      (case hash_find h ''#'' of None \<Rightarrow> r2 | Some s \<Rightarrow> (fst r2 + sub_count_process b g s, -1))"
    by (simp only: sub_count_search.simps Let_def r1_def r2_def v_def)
  note hf = tree_ok_hash_find [OF "2.prems"]
  let ?n = "\<lambda>k. length (filter (is_counted b g) (case child_of k (hier_children h) of None \<Rightarrow> [] | Some s \<Rightarrow> ?leaves s))"
  have r1: "fst r1 = n + int (?n ''+'') \<and> snd r1 \<in> {0, -1}"
    using v [of "''+''"] unfolding r1_def hf by (cases "child_of ''+'' (hier_children h)") auto
  have r2: "fst r2 = n + int (?n ''+'') + int (?n tok) \<and> snd r2 \<in> {0, -1}"
    using v [of tok _ r1] r1 unfolding r2_def hf by (cases "child_of tok (hier_children h)") (simp_all, blast)
  have p: "fst (sub_count_search b g h (tok # toks) n) = fst r2 + int (length (filter (is_counted b g) (pound_leaves h)))"
    "snd (sub_count_search b g h (tok # toks) n) \<in> {0, -1}"
    unfolding e hf pound_leaves_def using r2 by (auto simp: sub_count_process_counted split: option.split)
  have "length (filter (is_counted b g) (search_leaves h (tok # toks))) =
      length (filter (is_counted b g) (pound_leaves h)) + ?n ''+'' + ?n tok"
    by (simp only: search_leaves.simps Let_def filter_append length_append add.assoc)
  then show ?case using p r2 by linarith
qed

lemma sub_count_matching:
  assumes ok: "subs_ok b" and w: "wild_free (tokens topic)"
  shows "mqtt3_sub_count b topic n g = (0, n + int (size (filter_mset (is_counted b g) (matching (tokens topic) (subscriptions b)))))"
proof -
  have tr: "tree_ok (subs b)" using ok by (simp add: subs_ok_def)
  note m = matching_subscriptions [OF ok w sub_topic_tokenise_nonempty]
  show ?thesis
  proof (cases "child_of (hd (tokens topic)) (hier_children (subs b))")
    case None
    then show ?thesis by (simp add: mqtt3_sub_count_def Let_def tree_ok_hash_find [OF tr] m)
  next
    case (Some s)
    have s: "tree_ok s" "rooted s"
      using child_of_Some [OF Some] ok tree_ok_children [OF tr] by (auto simp: subs_ok_def)
    then have "hier_subs s = []" unfolding rooted_def by (metis leaves_at.simps(1))
    then have "sub_count_process b g s = 0" by (simp add: sub_count_process_counted)
    moreover obtain k f where r: "sub_count_search b g s (tokens topic) n = (k, f)" by fastforce
    ultimately show ?thesis
      using sub_count_search_leaves [OF s(1), of b g "tokens topic" n] Some
      by (auto simp: mqtt3_sub_count_def Let_def tree_ok_hash_find [OF tr] m r simp flip: mset_filter)
  qed
qed

section \<open>Cleaning\<close>

definition stays :: "broker \<Rightarrow> subleaf \<Rightarrow> bool" where
  "stays b l \<longleftrightarrow> \<not> clean_subs (ctxs b (leaf_context l))"

text \<open>\<open>n\<close> subscriptions dropped, with some removals reported.\<close>

definition dropped :: "nat \<Rightarrow> broker \<Rightarrow> broker \<Rightarrow> bool" where
  "dropped n b b' \<longleftrightarrow> (\<exists>log. b' = b\<lparr>subscription_count := subscription_count b - int n, dxl_log := log\<rparr>)"

lemma dropped_refl [simp]: "dropped 0 b b"
  by (auto simp: dropped_def intro: exI [of _ "dxl_log b"])

lemma dropped_trans: "dropped m b b1 \<Longrightarrow> dropped n b1 b2 \<Longrightarrow> k = m + n \<Longrightarrow> dropped k b b2"
  by (auto simp: dropped_def) (metis diff_diff_eq)

lemma dropped_ctxs: "dropped n b b' \<Longrightarrow> ctxs b' = ctxs b \<and> stays b' = stays b"
  by (auto simp: dropped_def stays_def)

lemma clean_leaves_eq:
  assumes "clean_leaves full kept ls b = (ls', b')"
  shows "ls' = kept @ filter (stays b) ls \<and> dropped (length (filter (\<lambda>l. \<not> stays b l) ls)) b b'"
  using assms
proof (induction full kept ls b rule: clean_leaves.induct)
  case (2 full kept l ls b)
  show ?case
  proof (cases "stays b l")
    case True
    then show ?thesis using 2 by (simp add: stays_def)
  next
    case False
    then have c: "clean_subs (ctxs b (leaf_context l))" by (simp add: stays_def)
    define b1 where "b1 = b\<lparr>subscription_count := subscription_count b - 1\<rparr>"
    define b2 where "b2 = (if is_topic_removed b (leaf_context l) (kept @ ls) then log_dxl (dxl_topic_removed full) b1 else b1)"
    have d: "dropped 1 b b2" unfolding b2_def b1_def dropped_def log_dxl_def by (auto intro: exI [of _ "dxl_log b"])
    have "clean_leaves full kept ls b2 = (ls', b')" using 2(3) c by (simp only: clean_leaves.simps Let_def b1_def b2_def if_True)
    then have "ls' = kept @ filter (stays b2) ls \<and> dropped (length (filter (\<lambda>l. \<not> stays b2 l) ls)) b2 b'"
      by (rule 2(1) [OF c b1_def b2_def])
    then show ?thesis using False dropped_trans [OF d, of "length (filter (\<lambda>l. \<not> stays b l) ls)" b'] dropped_ctxs [OF d] by simp
  qed
qed simp

text \<open>The leaves at a path that starts with one of a list of children.\<close>

definition below :: "subhier list \<Rightarrow> string \<Rightarrow> string list \<Rightarrow> subleaf list" where
  "below cs k ks = (case child_of k cs of None \<Rightarrow> [] | Some c \<Rightarrow> leaves_at c ks)"

lemma child_of_app: "child_of k (cs @ ds) = (case child_of k cs of None \<Rightarrow> child_of k ds | Some c \<Rightarrow> Some c)"
  by (induction cs) (auto simp: child_of_def)

lemma below_simps:
  "below [] k ks = []"
  "below (c # cs) k ks = (if hier_topic c = k then leaves_at c ks else below cs k ks)"
  "below (cs @ ds) k ks = (if k \<in> set (topics_of cs) then below cs k ks else below ds k ks)"
  "k \<notin> set (topics_of cs) \<Longrightarrow> below cs k ks = []"
proof -
  show "below [] k ks = []" "below (c # cs) k ks = (if hier_topic c = k then leaves_at c ks else below cs k ks)"
    by (simp_all add: below_def child_of_def)
  show "below (cs @ ds) k ks = (if k \<in> set (topics_of cs) then below cs k ks else below ds k ks)"
    "k \<notin> set (topics_of cs) \<Longrightarrow> below cs k ks = []"
    using child_of_None [of k cs] by (auto simp: below_def child_of_app)
qed

lemma topics_of_simps [simp]: "topics_of [] = []" "topics_of (c # cs) = hier_topic c # topics_of cs"
  "topics_of (cs @ ds) = topics_of cs @ topics_of ds"
  by (simp_all add: topics_of_def)

text \<open>A child dropped from, or replaced in, a list of children.\<close>

lemma tree_ok_drop_child:
  assumes "tree_ok (Subhier t ls None (kept @ c # cs) keys npound nplus)"
  shows "tree_ok (Subhier t ls None (kept @ cs) (remove_heir_from_hash keys (hier_topic c))
      (if topic_is_wild_card (hier_topic c) ''#'' \<and> npound > 0 then npound - 1 else npound)
      (if topic_is_wild_card (hier_topic c) ''+'' \<and> nplus > 0 then nplus - 1 else nplus))"
  using assms
  by (simp add: tree_ok_parts remove_heir_from_hash_def topic_is_wild_card_def del: tree_ok.simps)
    (auto simp del: tree_ok.simps)

lemma tree_ok_put_child:
  assumes "tree_ok (Subhier t ls None (kept @ c # cs) keys npound nplus)" and "child_ok c'" and "hier_topic c' = hier_topic c"
  shows "tree_ok (Subhier t ls None (kept @ c' # cs) keys npound nplus)"
  using assms by (simp add: tree_ok_parts del: tree_ok.simps)

lemma tree_ok_leaves: "tree_ok (Subhier t ls None cs keys np npl) \<Longrightarrow> tree_ok (Subhier t ls' None cs keys np npl)"
  by simp

lemma leaves_gone:
  assumes "tree_ok c" and "\<And>ks. leaves_at c' ks = filter P (leaves_at c ks)" and "unused c'"
  shows "filter P (leaves_at c ks) = []"
  using assms(2) [of ks] unused_leaves [OF assms(3), of ks] by simp

abbreviation "left_out b pls \<equiv> length (filter (\<lambda>(p, l). \<not> stays b l) pls)"

lemma left_out_below: "left_out b (map (\<lambda>(p, l). (k # p, l)) pls) = left_out b pls"
  by (induction pls) auto

lemma left_out_own: "left_out b (map (Pair []) ls) = length (filter (\<lambda>l. \<not> stays b l) ls)"
  by (induction ls) auto

lemma subs_clean_ok:
  shows "tree_ok h \<Longrightarrow> subs_clean_full_topic h full depth b = (h', b') \<Longrightarrow>
      tree_ok h' \<and> hier_topic h' = hier_topic h \<and> (hier_children h = [] \<longrightarrow> hier_children h' = []) \<and>
      (\<forall>p. leaves_at h' p = filter (stays b) (leaves_at h p)) \<and> dropped (left_out b (all_leaves h)) b b'"
    and "tree_ok (Subhier t ls None (kept @ cs) keys npound nplus) \<Longrightarrow>
      subs_clean_children cs full depth kept keys npound nplus b = (cs', keys', npound', nplus', b') \<Longrightarrow>
      tree_ok (Subhier t ls None cs' keys' npound' nplus') \<and> (kept = [] \<and> cs = [] \<longrightarrow> cs' = []) \<and>
      (\<forall>k ks. below cs' k ks = (if k \<in> set (topics_of kept) then below kept k ks else filter (stays b) (below cs k ks))) \<and>
      dropped (\<Sum>c\<leftarrow>cs. left_out b (all_leaves c)) b b'"
proof (induction h full depth b and cs full depth kept keys npound nplus b
    arbitrary: h' b' and t ls cs' keys' npound' nplus' b' rule: subs_clean_full_topic_subs_clean_children.induct)
  case (1 t ls ret cs keys npound nplus full depth b)
  let ?full = "add_topic_to_path (Subhier t ls ret cs keys npound nplus) full depth"
  obtain ls1 b1 where l: "clean_leaves ?full [] ls b = (ls1, b1)" by fastforce
  obtain cs1 keys1 np1 npl1 b2 where c: "subs_clean_children cs ?full depth [] keys npound nplus b1 = (cs1, keys1, np1, npl1, b2)"
    by (metis prod_cases5)
  have r: "ret = None" using "1.prems"(1) by simp
  have h': "h' = Subhier t ls1 None cs1 keys1 np1 npl1" "b' = b2"
    using "1.prems"(2) r by (simp_all add: Let_def l [unfolded r] c [unfolded r])
  note cl = clean_leaves_eq [OF l]
  have "tree_ok (Subhier t ls None ([] @ cs) keys npound nplus)" using "1.prems"(1) r by simp
  note ih = "1.IH" [OF refl l [symmetric] refl, of t ls, OF this c]
  note st = conjunct2 [OF dropped_ctxs [OF conjunct2 [OF cl]]]
  have "leaves_at h' p = filter (stays b) (leaves_at (Subhier t ls ret cs keys npound nplus) p)" for p
    using cl ih by (cases p) (simp_all add: h' below_def st)
  moreover have "dropped (left_out b (all_leaves (Subhier t ls ret cs keys npound nplus))) b b'"
    unfolding h' using cl ih
    by (intro dropped_trans [OF conjunct2 [OF cl], of _ b2])
      (simp_all only: all_leaves.simps filter_append length_append left_out_own st filter_concat length_concat map_map o_def left_out_below)
  ultimately show ?case using ih by (simp add: h' tree_ok_leaves [of t ls])
next
  case (2 full depth kept keys npound nplus b)
  from 2(2) have "kept = cs'" "keys = keys'" "npound = npound'" "nplus = nplus'" "b = b'" by simp_all
  then show ?case using 2(1) by (simp add: below_simps del: tree_ok.simps)
next
  case (3 c cs full depth kept keys npound nplus b)
  obtain c' b1 where c: "subs_clean_full_topic c full (depth + 1) b = (c', b1)" by fastforce
  have okc: "child_ok c" using tree_ok_child_ok [OF "3.prems"(1)] by simp
  then have "tree_ok c" by (simp add: child_ok_def)
  note ih = "3.IH"(1) [OF this c]
  have ok': "child_ok c'" "hier_topic c' = hier_topic c" using ih okc by (simp_all add: child_ok_def)
  have l: "leaves_at c' ks = filter (stays b) (leaves_at c ks)" for ks using ih by blast
  have d: "dropped (left_out b (all_leaves c)) b b1" using ih by blast
  note st = conjunct2 [OF dropped_ctxs [OF d]]
  have n: "hier_topic c \<notin> set (topics_of kept)" "hier_topic c \<notin> set (topics_of cs)"
    using "3.prems"(1) by (simp_all add: tree_ok_parts del: tree_ok.simps)
  show ?case
  proof (cases "unused c'")
    case True
    have gone: "filter (stays b) (leaves_at c ks) = []" for ks by (rule leaves_gone [OF \<open>tree_ok c\<close> l True])
    have "subs_clean_children cs full depth kept (remove_heir_from_hash keys (hier_topic c))
        (if topic_is_wild_card (hier_topic c) ''#'' \<and> npound > 0 then npound - 1 else npound)
        (if topic_is_wild_card (hier_topic c) ''+'' \<and> nplus > 0 then nplus - 1 else nplus) b1 = (cs', keys', npound', nplus', b')"
      using "3.prems"(2) True unfolding ok'(2) [symmetric] by (simp only: subs_clean_children.simps Let_def c prod.case if_True)
    note ih2 = "3.IH"(2) [OF c [symmetric] refl True, of t ls, unfolded ok'(2), OF tree_ok_drop_child [OF "3.prems"(1)] this]
    have "filter (stays b) (below (c # cs) k ks) = filter (stays b) (below cs k ks)" for k ks
      using gone [of ks] below_simps(4) [OF n(2), of ks] by (auto simp: below_simps(2))
    then show ?thesis using ih2 dropped_trans [OF d, of _ b'] unfolding st by simp
  next
    case False
    have "subs_clean_children cs full depth (kept @ [c']) keys npound nplus b1 = (cs', keys', npound', nplus', b')"
      using "3.prems"(2) False by (simp only: subs_clean_children.simps Let_def c prod.case if_False)
    moreover have "tree_ok (Subhier t ls None ((kept @ [c']) @ cs) keys npound nplus)"
      using tree_ok_put_child [OF "3.prems"(1) ok'] by simp
    ultimately have "tree_ok (Subhier t ls None cs' keys' npound' nplus') \<and>
      (\<forall>k ks. below cs' k ks = (if k \<in> set (topics_of (kept @ [c'])) then below (kept @ [c']) k ks else filter (stays b1) (below cs k ks))) \<and>
      dropped (\<Sum>c\<leftarrow>cs. left_out b1 (all_leaves c)) b1 b'"
      using "3.IH"(3) [OF c [symmetric] refl False, of t ls] by blast
    moreover have "(if k \<in> set (topics_of (kept @ [c'])) then below (kept @ [c']) k ks else filter (stays b) (below cs k ks)) =
        (if k \<in> set (topics_of kept) then below kept k ks else filter (stays b) (below (c # cs) k ks))" for k ks
      using ok'(2) l [of ks] by (simp add: below_simps)
    ultimately show ?thesis using dropped_trans [OF d, of _ b'] unfolding st by simp
  qed
qed

lemma clean_top_ok:
  assumes "\<forall>c \<in> set cs. tree_ok c \<and> rooted c" and "clean_top cs b = (cs', b')"
  shows "topics_of cs' = topics_of cs \<and> (\<forall>c \<in> set cs'. tree_ok c \<and> rooted c) \<and>
    (\<forall>k ks. below cs' k ks = filter (stays b) (below cs k ks)) \<and> dropped (\<Sum>c\<leftarrow>cs. left_out b (all_leaves c)) b b'"
  using assms
proof (induction cs arbitrary: cs' b b')
  case Nil
  then show ?case by (simp add: below_simps)
next
  case (Cons c cs)
  obtain c' b1 cs1 b2 where r: "subs_clean_full_topic c '''' 0 b = (c', b1)" "clean_top cs b1 = (cs1, b2)"
    by (metis surj_pair)
  have eq: "cs' = c' # cs1" "b' = b2" using Cons.prems(2) by (simp_all add: r)
  have c: "tree_ok c" "rooted c" using Cons.prems(1) by simp_all
  note cl = subs_clean_ok(1) [OF c(1) r(1)]
  have d: "dropped (left_out b (all_leaves c)) b b1" using cl by blast
  have st: "stays b1 = stays b" using dropped_ctxs [OF d] by blast
  have "rooted c'" using cl by (intro rooted_cong [OF c(2)]) auto
  moreover have "topics_of cs1 = topics_of cs \<and> (\<forall>c \<in> set cs1. tree_ok c \<and> rooted c) \<and>
      (\<forall>k ks. below cs1 k ks = filter (stays b) (below cs k ks)) \<and> dropped (\<Sum>c\<leftarrow>cs. left_out b (all_leaves c)) b1 b2"
    using Cons.IH [OF _ r(2)] Cons.prems(1) by (simp add: st)
  ultimately show ?case unfolding eq using cl dropped_trans [OF d, of _ b2] by (auto simp: below_simps)
qed

lemma subs_at_below: "p \<noteq> [] \<Longrightarrow> subs_at b p = below (hier_children (subs b)) (hd p) p"
  by (cases p) (simp_all add: subs_at_def below_def del: leaves_at.simps)

lemma subs_clean_session_table:
  assumes ok: "subs_ok b" and r: "mqtt3_subs_clean_session b = (rc, b')"
  shows "rc = 0" and "subs_ok b'" and "subs_at b' p = filter (stays b) (subs_at b p)"
    and "dropped (left_out b (subscriptions b)) b (b'\<lparr>subs := subs b\<rparr>)"
proof -
  let ?cs = "hier_children (subs b)"
  obtain cs b1 where c: "clean_top ?cs b = (cs, b1)" by fastforce
  have eq: "rc = 0" "b' = b1\<lparr>subs := set_children cs (subs b)\<rparr>" using r c by (simp_all add: mqtt3_subs_clean_session_def)
  have tr: "tree_ok (subs b)" and ro: "\<forall>c \<in> set ?cs. tree_ok c \<and> rooted c"
    using ok tree_ok_children by (auto simp: subs_ok_def)
  note cl = clean_top_ok [OF ro c]
  show "rc = 0" by (rule eq)
  show "subs_ok b'"
  proof -
    have "\<forall>c \<in> set cs. child_ok c \<and> rooted c" using cl by (simp add: child_ok_def) (simp add: rooted_def)
    then show ?thesis
      using conjunct1 [OF cl] tr unfolding subs_ok_def eq by (simp add: tree_ok_parts set_children_def del: tree_ok.simps)
  qed
  show "subs_at b' p = filter (stays b) (subs_at b p)"
    using cl by (cases "p = []") (simp_all add: subs_at_below eq, simp add: subs_at_def)
  have "left_out b (subscriptions b) = (\<Sum>c\<leftarrow>?cs. left_out b (all_leaves c))"
    by (simp add: subscriptions_def filter_concat length_concat o_def)
  moreover have "b1\<lparr>subs := subs b\<rparr> = b1" using cl by (auto simp: dropped_def)
  ultimately show "dropped (left_out b (subscriptions b)) b (b'\<lparr>subs := subs b\<rparr>)" using cl by (simp add: eq)
qed

section \<open>The total\<close>

text \<open>Two tables that differ at one path differ in size by what they hold there.\<close>

lemma subscriptions_differ_at:
  assumes "subs_ok a" and "subs_ok b" and "\<And>p. p \<noteq> q \<Longrightarrow> subs_at b p = subs_at a p"
  shows "length (subscriptions a) + length (subs_at b q) = length (subscriptions b) + length (subs_at a q)"
proof -
  have c: "count (image_mset (Pair q) M) (p, l) = (if p = q then count M l else 0)" for M :: "subleaf multiset" and p l
    by (induction M) auto
  have "mset (subscriptions a) + image_mset (Pair q) (mset (subs_at b q)) =
      mset (subscriptions b) + image_mset (Pair q) (mset (subs_at a q))" (is "?l = ?r")
  proof (rule multiset_eqI)
    fix x :: "string list \<times> subleaf"
    obtain p l where x: "x = (p, l)" by fastforce
    show "count ?l x = count ?r x"
      unfolding x count_union c subscriptions_count [OF assms(1)] subscriptions_count [OF assms(2)]
      using assms(3) [of p] by simp
  qed
  from arg_cong [OF this, of size] show ?thesis by (simp del: mset_map)
qed

lemma update_leaf_length: "update_leaf b c q ls = Some ls' \<Longrightarrow> length ls' = length ls"
  by (induction ls arbitrary: ls') (auto split: if_splits)

lemma remove_leaf_length: "\<exists>l \<in> set ls. leaf_context l = c \<Longrightarrow> Suc (length (remove_leaf c ls)) = length ls"
  by (induction ls) auto

definition count_exact :: "broker \<Rightarrow> bool" where
  "count_exact b \<longleftrightarrow> subscription_count b = int (length (subscriptions b))"

lemma sub_add_total:
  assumes ok: "subs_ok b" and f: "pound_last (tokens f)"
  shows "int (length (subscriptions (snd (mqtt3_sub_add H c f q b)))) - subscription_count (snd (mqtt3_sub_add H c f q b)) =
    int (length (subscriptions b)) - subscription_count b"
proof -
  let ?b = "snd (mqtt3_sub_add H c f q b)"
  note t = mqtt3_sub_add_table [OF ok f, of H c q]
  have n: "subscription_count ?b = subscription_count (?b\<lparr>subs := subs b\<rparr>)" by simp
  have a: "subscription_count (added c ls x b) = subscription_count b + 1" for ls x
    by (simp add: added_def count_subscription_def log_dxl_def upd_ctx_def)
  have d: "length (subscriptions b) + length (subs_at ?b (tokens f)) = length (subscriptions ?b) + length (subs_at b (tokens f))"
    by (rule subscriptions_differ_at [OF ok t(1)]) (simp add: t(2))
  show ?thesis
  proof (cases "tenant_denied H (Some c) b \<or> \<not> new_subscriber c q f b")
    case True
    then have "length (subs_at ?b (tokens f)) = length (subs_at b (tokens f))"
      using update_leaf_length [of b c q "subs_at b (tokens f)"]
      by (auto simp: t(2) new_subscriber_def with_leaf_def)
    then show ?thesis using d True unfolding n t(4) by simp
  next
    case False
    then have "length (subs_at ?b (tokens f)) = Suc (length (subs_at b (tokens f)))"
      by (simp add: t(2) new_subscriber_def with_leaf_def)
    then show ?thesis using d False unfolding n t(4) by (simp add: a)
  qed
qed

lemma sub_remove_total:
  assumes ok: "subs_ok b"
  shows "int (length (subscriptions (snd (mqtt3_sub_remove c f b)))) - subscription_count (snd (mqtt3_sub_remove c f b)) =
    int (length (subscriptions b)) - subscription_count b"
proof -
  let ?b = "snd (mqtt3_sub_remove c f b)"
  note t = mqtt3_sub_remove_table [OF ok, of c f]
  have n: "subscription_count ?b = subscription_count (?b\<lparr>subs := subs b\<rparr>)" by simp
  have a: "subscription_count (removed c ls x b) = subscription_count b - 1" for ls x
    by (simp add: removed_def count_subscription_def log_dxl_def upd_ctx_def)
  have d: "length (subscriptions b) + length (subs_at ?b (tokens f)) = length (subscriptions ?b) + length (subs_at b (tokens f))"
    by (rule subscriptions_differ_at [OF ok t(1)]) (simp add: t(2))
  show ?thesis
  proof (cases "\<exists>l \<in> set (subs_at b (tokens f)). leaf_context l = c")
    case True
    then show ?thesis using d remove_leaf_length [OF True] unfolding n t(4) if_P [OF True] a t(2) by simp
  next
    case False
    then show ?thesis using d remove_leaf_absent [OF False] unfolding n t(4) if_not_P [OF False] t(2) by simp
  qed
qed

lemma subs_clean_total:
  assumes ok: "subs_ok b" and r: "mqtt3_subs_clean_session b = (rc, b')"
  shows "int (length (subscriptions b')) - subscription_count b' = int (length (subscriptions b)) - subscription_count b"
proof -
  note t = subs_clean_session_table [OF ok r]
  have "mset (subscriptions b') = filter_mset (\<lambda>(p, l). stays b l) (mset (subscriptions b))"
  proof (rule multiset_eqI)
    fix x :: "string list \<times> subleaf"
    obtain p l where x: "x = (p, l)" by fastforce
    show "count (mset (subscriptions b')) x = count (filter_mset (\<lambda>(p, l). stays b l) (mset (subscriptions b))) x"
      unfolding x count_filter_mset subscriptions_count [OF t(2)] subscriptions_count [OF ok] t(3)
      by (simp add: count_filter_mset)
  qed
  from arg_cong [OF this, of size] have "length (subscriptions b') = length (filter (\<lambda>(p, l). stays b l) (subscriptions b))"
    by (simp flip: mset_filter)
  moreover have "length (subscriptions b) = length (filter (\<lambda>(p, l). stays b l) (subscriptions b)) + left_out b (subscriptions b)"
    using sum_length_filter_compl [of "\<lambda>(p, l). stays b l" "subscriptions b"] by (simp add: case_prod_unfold)
  moreover have "subscription_count b' = subscription_count b - int (left_out b (subscriptions b))"
    using t(4) unfolding dropped_def by (elim exE) (drule arg_cong [of _ _ subscription_count], simp)
  ultimately show ?thesis by linarith
qed

section \<open>Publishing leaves the table alone\<close>

lemma insert_allowed_subs: "subs (snd (insert_allowed H c mid dir qos retain q st rc b)) = subs b"
  by (simp add: insert_allowed_def Let_def append_msg_def upd_ctx_def log_dxl_def add_ref_def upd_store_def
      mosquitto_add_new_msgs_set_def split: prod.split option.split)

lemma message_insert_subs: "subs (snd (mqtt3_db_message_insert H c mid dir qos retain q b)) = subs b"
  by (simp add: mqtt3_db_message_insert_def Let_def insert_allowed_subs upd_ctx_def log_dxl_def split: insert_decision.split)

lemma deliver_leaf_subs: "subs (snd (deliver_leaf H s q r st l x)) = subs (snd x)"
  by (auto simp: deliver_leaf_def Let_def gen_mid_def split: prod.splits)
    (metis message_insert_subs snd_conv broker.select_convs(5) broker.surjective broker.update_convs(1))+

lemma process_node_subs: "subs (process_node H src q r st h b) = subs b"
proof -
  have "subs (snd (fold (deliver_leaf H s q r st) ls x)) = subs (snd x)" for s ls x
    by (induction ls arbitrary: x) (simp_all add: deliver_leaf_subs)
  from this [of _ "hier_subs h" "(0, b)"] show ?thesis
    by (auto simp: process_node_def subs_process_def Let_def split: prod.splits option.splits) (metis snd_conv)+
qed

lemma search_pound_subs: "subs (search_pound H src q r st h b) = subs b"
  by (simp add: search_pound_def process_node_subs split: option.split)

lemma sub_search_subs: "subs (sub_search H src q r st h toks b) = subs b"
proof (induction toks arbitrary: h b)
  case (Cons tok toks)
  then show ?case by (simp add: Let_def search_pound_subs process_node_subs split: option.split)
qed (simp add: search_pound_subs)

text \<open>A retained publication creates the branches of its topic and stores nothing at their end.\<close>

lemma messages_queue_table:
  fixes H src qos retain stored
  assumes ok: "subs_ok b" and w: "wild_free (tokens topic)"
  defines "b' \<equiv> snd (mqtt3_db_messages_queue H src topic qos retain stored b)"
  shows "subs_ok b'" and "subs_at b' p = subs_at b p"
proof -
  let ?t = "hd (tokens topic)"
  have tr: "tree_ok (subs b)" using ok by (simp add: subs_ok_def)
  have "subs_ok b' \<and> subs_at b' p = subs_at b p"
  proof (cases "child_of ?t (hier_children (subs b))")
    case None
    then have "subs b' = subs b"
      by (simp add: b'_def mqtt3_db_messages_queue_def Let_def tree_ok_hash_find [OF tr] log_dxl_def)
    then show ?thesis using ok subs_ok_cong subs_at_cong by metis
  next
    case (Some s)
    obtain rc s' b1 where r: "sub_add_full_topic H None 0 s (tokens topic) '''' 0 b = (rc, s', b1)" by (metis prod_cases3)
    have eq: "subs b' = (if retain then replace_child s' (subs b) else subs b)"
      using Some r by (simp add: b'_def mqtt3_db_messages_queue_def Let_def tree_ok_hash_find [OF tr] log_dxl_def
          sub_add_def sub_search_subs)
    have s: "s \<in> set (hier_children (subs b))" "hier_topic s = ?t" using child_of_Some [OF Some] by auto
    then have ts: "tree_ok s" "rooted s" using ok tree_ok_children [OF tr] by (auto simp: subs_ok_def)
    have "pound_last (tokens topic)" using w by (auto simp: pound_last_def dest: in_set_butlastD)
    note a = sub_add_branches [OF ts(1) this r]
    have rs: "rooted s'" using a by (intro rooted_cong [OF ts(2)]) auto
    have top: "hier_topic s' = ?t" using a s(2) by simp
    have "subs_ok (b\<lparr>subs := subs b\<rparr>)" using ok by simp
    note tb = table_replace [OF this Some conjunct1 [OF a] rs top, of b]
    have "p \<noteq> [] \<Longrightarrow> hd p = ?t \<Longrightarrow> leaves_at s' p = subs_at b p" using subs_at_child [of p b s] Some a by simp
    then have "subs_ok (b\<lparr>subs := replace_child s' (subs b)\<rparr>) \<and> subs_at (b\<lparr>subs := replace_child s' (subs b)\<rparr>) p = subs_at b p"
      using tb by simp
    then show ?thesis
      using ok eq subs_ok_cong [of b' "b\<lparr>subs := replace_child s' (subs b)\<rparr>"] subs_at_cong [of b' "b\<lparr>subs := replace_child s' (subs b)\<rparr>"]
        subs_ok_cong [of b' b] subs_at_cong [of b' b] by (cases retain) simp_all
  qed
  then show "subs_ok b'" and "subs_at b' p = subs_at b p" by blast+
qed

section \<open>Properties\<close>

lemma sample_levels: "tokens ''a/+'' = ['''', ''a'', ''+'']" "tokens ''a/b'' = ['''', ''a'', ''b'']"
  by (simp_all add: sub_topic_tokenise_eq next_char_def)

lemma sample_at: "subs_at sample_table p = []"
  by (rule open_tree_empty) (simp add: sample_table_def)

lemma sample_allowed: "\<not> tenant_denied permissive_hooks (Some c) b"
  by (simp add: tenant_denied_def permissive_hooks_def)

lemma sample_subscribed_at:
  "subs_ok sample_subscribed"
  "subs_at sample_subscribed p = (if p = ['''', ''a'', ''+''] then [\<lparr>leaf_context = 0, leaf_qos = 0\<rparr>] else [])"
proof -
  have p: "pound_last (tokens ''a/+'')" by (simp add: sample_levels pound_last_def)
  show "subs_ok sample_subscribed"
    "subs_at sample_subscribed p = (if p = ['''', ''a'', ''+''] then [\<lparr>leaf_context = 0, leaf_qos = 0\<rparr>] else [])"
    unfolding sample_subscribed_def
    using mqtt3_sub_add_table(1,2) [OF sample_table_ok p, of permissive_hooks 0 0]
    by (simp_all add: sample_allowed sample_at with_leaf_def sample_levels)
qed

lemma sample_subscriptions: "mset (subscriptions sample_subscribed) = {#(['''', ''a'', ''+''], \<lparr>leaf_context = 0, leaf_qos = 0\<rparr>)#}"
proof (rule multiset_eqI)
  fix x :: "string list \<times> subleaf"
  obtain p l where x: "x = (p, l)" by fastforce
  show "count (mset (subscriptions sample_subscribed)) x = count {#(['''', ''a'', ''+''], \<lparr>leaf_context = 0, leaf_qos = 0\<rparr>)#} x"
    unfolding x subscriptions_count [OF sample_subscribed_at(1)] sample_subscribed_at(2) by auto
qed

text \<open>C22. Subscribing, unsubscribing and cleaning ended sessions keep the tree well formed, and the
  database's subscription count stays the number of subscriptions in the tree.\<close>

theorem subscription_count_exact:
  assumes "subs_ok b" and "pound_last (tokens f)" and "count_exact b"
  shows "subs_ok (snd (mqtt3_sub_add H c f q b)) \<and> count_exact (snd (mqtt3_sub_add H c f q b)) \<and>
    subs_ok (snd (mqtt3_sub_remove c f b)) \<and> count_exact (snd (mqtt3_sub_remove c f b)) \<and>
    subs_ok (snd (mqtt3_subs_clean_session b)) \<and> count_exact (snd (mqtt3_subs_clean_session b))"
  using assms sub_add_total [OF assms(1,2), of H c q] sub_remove_total [OF assms(1), of c f]
    subs_clean_total [OF assms(1) prod.collapse [symmetric]] subs_clean_session_table(2) [OF assms(1) prod.collapse [symmetric]]
  by (simp add: count_exact_def mqtt3_sub_add_table(1) mqtt3_sub_remove_table(1))

theorem subscription_count_exact_witness:
  "count_exact (snd (mqtt3_sub_add permissive_hooks 0 ''a/+'' 0 sample_table)) \<and> subscription_count sample_subscribed = 1"
proof -
  have p: "pound_last (tokens ''a/+'')" by (simp add: sample_levels pound_last_def)
  have "count_exact sample_table"
    by (simp add: count_exact_def open_tree_subscriptions sample_table_def)
      (simp add: sample_broker_def zero_broker_def)
  note e = subscription_count_exact [OF sample_table_ok p this, of permissive_hooks 0 0]
  then have "count_exact sample_subscribed" by (simp add: sample_subscribed_def)
  then have "subscription_count sample_subscribed = 1"
    using arg_cong [OF sample_subscriptions, of size] by (simp add: count_exact_def)
  then show ?thesis using e by blast
qed

text \<open>C31. Subscribing and unsubscribing again is a round trip for a client that has no subscription at the
  filter yet: every filter is left with the leaves it had, and the subscription count returns to its
  value. A client that was subscribed before is excluded: the unsubscribe takes its old subscription away.\<close>

theorem subscribe_unsubscribe_roundtrip:
  fixes H q
  assumes "subs_ok b" and "pound_last (tokens f)"
    and "\<forall>l \<in> set (subs_at b (tokens f)). ctx_id (ctxs b (leaf_context l)) \<noteq> ctx_id (ctxs b c)"
  defines "b' \<equiv> snd (mqtt3_sub_remove c f (snd (mqtt3_sub_add H c f q b)))"
  shows "subs_at b' p = subs_at b p \<and> subscription_count b' = subscription_count b"
proof -
  let ?b1 = "snd (mqtt3_sub_add H c f q b)"
  have ok: "subs_ok ?b1" by (rule mqtt3_sub_add_table(1) [OF assms(1,2)])
  have at: "subs_at b' p = subs_at b p" for p
    unfolding b'_def using table.sub_unsub [OF assms(1,2), where c = c and q = q and p = p and H = H] assms(3) by (simp add: names_def)
  have "subs_ok b'" unfolding b'_def by (rule mqtt3_sub_remove_table(1) [OF ok])
  then have "length (subscriptions b') = length (subscriptions b)"
    using subscriptions_differ_at [OF assms(1), of b' "[]"] at by simp
  then have "subscription_count b' = subscription_count b"
    using sub_add_total [OF assms(1,2), of H c q] sub_remove_total [OF ok, of c f] by (simp add: b'_def)
  then show ?thesis using at by blast
qed

theorem subscribe_unsubscribe_roundtrip_witness:
  "subs_at (snd (mqtt3_sub_remove 0 ''a/+'' (snd (mqtt3_sub_add permissive_hooks 0 ''a/+'' 0 sample_table)))) (tokens ''a/+'') = [] \<and>
   subs_at sample_subscribed (tokens ''a/+'') \<noteq> []"
  using subscribe_unsubscribe_roundtrip [OF sample_table_ok, of "''a/+''" 0 permissive_hooks 0 "tokens ''a/+''"]
  by (simp add: sample_at sample_subscribed_at) (simp add: sample_levels pound_last_def)

text \<open>C19. Cleaning removes exactly the subscriptions of the contexts marked for it, at every filter and in
  their order, and lowers the subscription count by their number.\<close>

theorem clean_session_removes_exactly:
  assumes "subs_ok b"
  shows "let b' = snd (mqtt3_subs_clean_session b) in
    subs_ok b' \<and> subs_at b' p = filter (\<lambda>l. \<not> clean_subs (ctxs b (leaf_context l))) (subs_at b p) \<and>
    ctxs b' = ctxs b \<and>
    subscription_count b' = subscription_count b - int (length (filter (\<lambda>(p, l). clean_subs (ctxs b (leaf_context l))) (subscriptions b)))"
proof -
  let ?b = "snd (mqtt3_subs_clean_session b)"
  note t = subs_clean_session_table [OF assms prod.collapse [symmetric]]
  obtain log where l: "?b\<lparr>subs := subs b\<rparr> = b\<lparr>subscription_count := subscription_count b - int (left_out b (subscriptions b)), dxl_log := log\<rparr>"
    using t(4) by (auto simp: dropped_def)
  show ?thesis
    using t(2,3) arg_cong [OF l, of ctxs] arg_cong [OF l, of subscription_count]
    by (simp add: Let_def stays_def [abs_def])
qed

theorem clean_session_removes_exactly_witness:
  "let b = sample_subscribed\<lparr>ctxs := (\<lambda>_. zero_context\<lparr>clean_subs := True\<rparr>)\<rparr>; b' = snd (mqtt3_subs_clean_session b) in
   subs_at b (tokens ''a/+'') \<noteq> [] \<and> subs_at b' (tokens ''a/+'') = []"
proof -
  let ?b = "sample_subscribed\<lparr>ctxs := (\<lambda>_. zero_context\<lparr>clean_subs := True\<rparr>)\<rparr>"
  have s: "subs ?b = subs sample_subscribed" by simp
  show ?thesis
    using clean_session_removes_exactly [of ?b "tokens ''a/+''"] sample_subscribed_at
    by (simp add: Let_def subs_ok_cong [OF s] subs_at_cong [OF s] sample_levels)
qed

text \<open>C32. The number of subscribers reported for a topic is the number of subscriptions whose filter
  matches it level by level and whose client is neither a bridge nor, when a tenant is given, of
  another tenant.\<close>

theorem sub_count_is_matching_subscriptions:
  assumes "subs_ok b" and "wild_free (tokens topic)"
  shows "mqtt3_sub_count b topic n tenant_guid =
    (0, n + int (length (filter (\<lambda>(p, l). levels_match p (tokens topic) \<and> \<not> is_bridge (ctxs b (leaf_context l)) \<and>
       (tenant_guid \<noteq> None \<longrightarrow> dxl_tenant_guid (ctxs b (leaf_context l)) = tenant_guid)) (subscriptions b))))"
proof -
  have "filter_mset (is_counted b tenant_guid) (matching (tokens topic) pls) = mset (map snd (filter (\<lambda>(p, l).
      levels_match p (tokens topic) \<and> \<not> is_bridge (ctxs b (leaf_context l)) \<and>
      (tenant_guid \<noteq> None \<longrightarrow> dxl_tenant_guid (ctxs b (leaf_context l)) = tenant_guid)) pls))" for pls
    unfolding matching_def by (induction pls) (auto simp: is_counted_def split: option.splits)
  from arg_cong [OF this, of size] show ?thesis
    unfolding sub_count_matching [OF assms] by (simp only: size_mset length_map)
qed

theorem sub_count_is_matching_subscriptions_witness:
  "mqtt3_sub_count sample_subscribed ''a/b'' 0 None = (0, 1)"
proof -
  have "subscriptions sample_subscribed = [(['''', ''a'', ''+''], \<lparr>leaf_context = 0, leaf_qos = 0\<rparr>)]"
    using sample_subscriptions by simp
  moreover have "is_bridge (ctxs sample_subscribed 0) = False" by code_simp
  ultimately show ?thesis
    using sub_count_is_matching_subscriptions [OF sample_subscribed_at(1), of "''a/b''" 0 None]
    by (simp add: sample_levels)
qed

definition copies_due :: "broker \<Rightarrow> nat \<Rightarrow> string \<Rightarrow> nat" where
  "copies_due b c topic = size (filter_mset (\<lambda>l. leaf_context l = c) (matching (tokens topic) (subscriptions b)))"

text \<open>C2. A QoS 0 publication reaches its subscribers exactly: the queue of a client that can take the
  message grows by one fresh copy for each of its subscriptions whose filter matches the topic level
  by level, behind what was queued, and a client without such a subscription is not touched.\<close>

theorem publish_reaches_exactly_the_matching_subscriptions:
  fixes H src stored c
  assumes "subs_ok b" and "wild_free (tokens topic)" and "\<forall>(p, l) \<in> set (subscriptions b). leaf_qos l \<ge> 0"
  defines "b' \<equiv> snd (mqtt3_db_messages_queue H (Some src) topic 0 False stored b)"
  shows "(receptive H src c b \<longrightarrow>
      (\<exists>ms. msgs (ctxs b' c) = msgs (ctxs b c) @ ms \<and> length ms = copies_due b c topic \<and> (\<forall>m \<in> set ms. fresh_copy stored m))) \<and>
    (copies_due b c topic = 0 \<longrightarrow> ctxs b' c = ctxs b c)"
proof -
  obtain ls where ls: "mset ls = matching (tokens topic) (subscriptions b)"
      "mqtt3_db_messages_queue H (Some src) topic 0 False stored b =
        (0, let b' = deliver_all H src 0 False stored ls b in log_dxl (dxl_finalize (db_id (deref_store b' stored))) b')"
    using messages_queue_deliver [OF assms(1,2)] by blast
  have b': "ctxs b' = ctxs (deliver_all H src 0 False stored ls b)"
    unfolding b'_def ls(2) by (simp add: Let_def log_dxl_def)
  have due: "copies_due b c topic = length (filter (\<lambda>l. leaf_context l = c) ls)"
    unfolding copies_due_def ls(1) [symmetric] by (simp flip: mset_filter)
  have "set ls = snd ` set (filter (\<lambda>(p, l). levels_match p (tokens topic)) (subscriptions b))"
    using arg_cong [OF ls(1), of set_mset] by (simp add: matching_def)
  then have q: "\<forall>l \<in> set ls. leaf_qos l \<ge> 0" using assms(3) by auto
  have "copies_due b c topic = 0 \<longrightarrow> ctxs b' c = ctxs b c"
    unfolding b' due using deliver_all_other [of ls c] by (auto simp: filter_empty_conv)
  then show ?thesis using deliver_all_receptive [OF _ q, of H src c b stored] unfolding b' due by blast
qed

theorem publish_reaches_exactly_the_matching_subscriptions_witness:
  "length (msgs (ctxs (snd (mqtt3_db_messages_queue permissive_hooks (Some ''s'') ''a/b'' 0 False 1 sample_subscribed)) 0)) = 1"
proof -
  have s: "subscriptions sample_subscribed = [(['''', ''a'', ''+''], \<lparr>leaf_context = 0, leaf_qos = 0\<rparr>)]"
    using sample_subscriptions by simp
  have "receptive permissive_hooks ''s'' 0 sample_subscribed"
    unfolding receptive_def IS_CONTEXT_INVALID_def by (simp add: permissive_hooks_def, code_simp)
  moreover have "copies_due sample_subscribed 0 ''a/b'' = 1" by (simp add: copies_due_def matching_def s sample_levels)
  moreover have "msgs (ctxs sample_subscribed 0) = []" by code_simp
  moreover have "\<forall>(p, l) \<in> set (subscriptions sample_subscribed). leaf_qos l \<ge> 0" by (simp add: s)
  moreover have "wild_free (tokens ''a/b'')" by (simp add: sample_levels)
  ultimately show ?thesis
    using publish_reaches_exactly_the_matching_subscriptions [OF sample_subscribed_at(1), of "''a/b''" permissive_hooks "''s''" 0 1] by auto
qed

text \<open>C33. The broker library learns the topics that have a local subscriber. For a filter that does not
  start with a dollar sign and has at most 1023 characters, a subscribe reports the filter as added exactly when it
  brings the first subscriber that is no bridge, and an unsubscribe reports it as removed exactly when it takes
  the last one away, each time under the filter's own name. Nothing is said here of subscriptions that end with
  their session, nor of the filters that start with a dollar sign, which are reported under another name.\<close>

theorem topic_events_are_exact:
  assumes "subs_ok b" and "pound_last (tokens f)" and "next_char f \<noteq> CHR ''$''" and "length f \<le> 1023"
    and "\<not> tenant_denied H (Some c) b"
  shows "dxl_log (snd (mqtt3_sub_add H c f q b)) = dxl_log b @
      (if new_subscriber c q f b \<and> \<not> is_bridge (ctxs b c) \<and> (\<forall>l \<in> set (subs_at b (tokens f)). is_bridge (ctxs b (leaf_context l)))
       then [dxl_topic_added f] else []) \<and>
    dxl_log (snd (mqtt3_sub_remove c f b)) = dxl_log b @
      (if (\<exists>l \<in> set (subs_at b (tokens f)). leaf_context l = c) \<and> \<not> is_bridge (ctxs b c) \<and>
          (\<forall>l \<in> set (remove_leaf c (subs_at b (tokens f))). is_bridge (ctxs b (leaf_context l)))
       then [dxl_topic_removed f] else [])" (is "dxl_log ?a = ?al \<and> dxl_log ?r = ?rl")
proof -
  have "dxl_log ?a = dxl_log (?a\<lparr>subs := subs b\<rparr>)" by simp
  also have "\<dots> = ?al"
    unfolding mqtt3_sub_add_table(4) [OF assms(1,2)] using assms(5)
    by (simp add: added_def all_bridges_def log_dxl_def count_subscription_def upd_ctx_def reported_plain [OF assms(3,4)])
  finally have a: "dxl_log ?a = ?al" .
  have "dxl_log ?r = dxl_log (?r\<lparr>subs := subs b\<rparr>)" by simp
  also have "\<dots> = ?rl"
    unfolding mqtt3_sub_remove_table(4) [OF assms(1)]
    by (simp add: removed_def is_topic_removed_def all_bridges_def log_dxl_def count_subscription_def upd_ctx_def
        reported_plain [OF assms(3,4)])
  finally show ?thesis using a by blast
qed

theorem topic_events_are_exact_witness:
  "dxl_log (snd (mqtt3_sub_add permissive_hooks 0 ''a/+'' 0 sample_table)) = dxl_log sample_table @ [dxl_topic_added ''a/+'']"
proof -
  have "is_bridge (ctxs sample_table 0) = False" by code_simp
  then show ?thesis
    using topic_events_are_exact [OF sample_table_ok, of "''a/+''" permissive_hooks 0 0]
    by (simp add: sample_allowed sample_at new_subscriber_def) (simp add: sample_levels pound_last_def next_char_def)
qed

end
