(* ===== verification/Database.thy ===== *)
theory Database
  imports Subs_Session
begin

text \<open>
  The database: the parts of src/mqtt-core/src/database.c beyond the client queues, and the client
  contexts of src/mqtt-core/src/context.c. The canonical-id table, the id table and the slot array of
  the contexts, the message store and its sweep, the release of incoming messages, and the life of a
  context from its creation to its cleanup.

  A uthash table with two entries for one key finds the one added last: new items go to the head of
  their bucket.
\<close>

section \<open>Canonical client ids\<close>

fun bump :: "string \<Rightarrow> int \<Rightarrow> (string \<times> int) list \<Rightarrow> (string \<times> int) list" where
  "bump k n [] = []"
| "bump k n ((k', v) # es) = (if k' = k then (k', v + n) # es else (k', v) # bump k n es)"

definition mqtt3_add_canonical_client_id :: "string \<Rightarrow> broker \<Rightarrow> broker" where
  "mqtt3_add_canonical_client_id clientid b =
     (let tbl = canonical_client_id_index_hash b in
      case map_of tbl clientid of
        Some _ \<Rightarrow> b\<lparr>canonical_client_id_index_hash := bump clientid 1 tbl\<rparr>
      | None \<Rightarrow> b\<lparr>canonical_client_id_index_hash := tbl @ [(clientid, 1)]\<rparr>)"

definition mqtt3_db_remove_canonical_client_id :: "string \<Rightarrow> broker \<Rightarrow> broker" where
  "mqtt3_db_remove_canonical_client_id clientid b =
     (let tbl = canonical_client_id_index_hash b in
      case map_of tbl clientid of
        Some n \<Rightarrow>
          if n - 1 \<le> 0 then b\<lparr>canonical_client_id_index_hash := remove1 (clientid, n - 1) (bump clientid (-1) tbl)\<rparr>
          else b\<lparr>canonical_client_id_index_hash := bump clientid (-1) tbl\<rparr>
      | None \<Rightarrow> b)"

definition mqtt3_db_get_canonical_client_id_count :: "string \<Rightarrow> broker \<Rightarrow> int" where
  "mqtt3_db_get_canonical_client_id_count clientid b =
     (case map_of (canonical_client_id_index_hash b) clientid of Some n \<Rightarrow> n | None \<Rightarrow> -1)"

section \<open>Client ids and context slots\<close>

definition cih_find :: "string \<Rightarrow> (string \<times> nat) list \<Rightarrow> nat option" where
  "cih_find k h = map_of (rev h) k"

definition cih_del :: "string \<Rightarrow> (string \<times> nat) list \<Rightarrow> (string \<times> nat) list" where
  "cih_del k h = (case cih_find k h of None \<Rightarrow> h | Some i \<Rightarrow> rev (remove1 (k, i) (rev h)))"

definition mqtt3_db_lookup_client :: "string \<Rightarrow> broker \<Rightarrow> bool" where
  "mqtt3_db_lookup_client clientId b \<longleftrightarrow> cih_find clientId (clientid_index_hash b) \<noteq> None"

definition mqtt3_dxl_db_client_count :: "broker \<Rightarrow> int" where
  "mqtt3_dxl_db_client_count b = int (length (clientid_index_hash b))"

definition mqtt3_dxl_set_max_packet_buffer_size :: "uint64 \<Rightarrow> broker \<Rightarrow> broker" where
  "mqtt3_dxl_set_max_packet_buffer_size maxBufferSize b = b\<lparr>max_packet_buffer_size := maxBufferSize\<rparr>"

abbreviation "CONTEXT_REALLOC_SIZE \<equiv> (0xFFF :: nat)"

fun free_slot :: "nat option list \<Rightarrow> nat" where
  "free_slot [] = 0"
| "free_slot (None # cs) = 0"
| "free_slot (Some c # cs) = Suc (free_slot cs)"

definition mqtt3_db_add_new_context :: "nat \<Rightarrow> broker \<Rightarrow> int \<times> broker" where
  "mqtt3_db_add_new_context c b =
     (let i = free_slot (contexts b);
          slots = (if i = length (contexts b) then contexts b @ replicate CONTEXT_REALLOC_SIZE None else contexts b);
          b1 = upd_ctx c (\<lambda>x. x\<lparr>numericId := i\<rparr>) (b\<lparr>contexts := slots[i := Some c]\<rparr>);
          b2 = (if \<not> wsi (ctxs b1 c) then mosquitto_add_new_clients_set c b1 else b1)
      in (0, upd_ctx c (\<lambda>x. x\<lparr>db_index := i\<rparr>) b2))"

text \<open>The retained message of the root itself is never set or read.\<close>

definition mqtt3_db_open :: "broker \<Rightarrow> int \<times> broker" where
  "mqtt3_db_open b =
     (0, b\<lparr>last_db_id := 0, contexts := replicate CONTEXT_REALLOC_SIZE None, clientid_index_hash := [],
           subs := Subhier '''' [] None [new_hier '''', new_hier ''$SYS'']
             (add_heir_to_hash (add_heir_to_hash [] '''') ''$SYS'') 0 0\<rparr>)"

definition mqtt3_db_client_count :: "broker \<Rightarrow> int \<times> nat \<times> nat" where
  "mqtt3_db_client_count b =
     (let cs = List.map_filter id (contexts b)
      in (MOSQ_ERR_SUCCESS, length cs, length (filter (\<lambda>c. IS_CONTEXT_INVALID (ctxs b c)) cs)))"

section \<open>The message store\<close>

definition mqtt3_db_message_store ::
  "dxl_hooks \<Rightarrow> nat option \<Rightarrow> string option \<Rightarrow> uint16 \<Rightarrow> string option \<Rightarrow> int \<Rightarrow> byte list \<Rightarrow> bool \<Rightarrow> uint64 \<Rightarrow>
   broker \<Rightarrow> int \<times> nat \<times> broker" where
  "mqtt3_db_message_store H context source mid topic qos pl retain store_id b =
     (let q = next_ptr b;
          last_id = (if store_id = 0 then last_db_id b + 1 else last_db_id b);
          temp = \<lparr>store_ptr = q, db_id = (if store_id = 0 then last_id else store_id), ref_count = 0,
            source_id = (case source of Some s \<Rightarrow> s | None \<Rightarrow> ''''), source_mid = mid,
            msg = \<lparr>mm_topic = topic, mm_payload = pl, mm_client_payload = None, mm_qos = qos, mm_retain = retain\<rparr>\<rparr>;
          b1 = b\<lparr>msg_store := temp # msg_store b, msg_store_count := msg_store_count b + 1, last_db_id := last_id,
                 next_ptr := q + 1\<rparr>;
          out = on_store_message H (dxl_log b1) (map_option (ctxs b1) context) temp;
          b2 = log_dxl (dxl_store q (db_id temp)) b1
      in (MOSQ_ERR_SUCCESS, q,
          if out \<noteq> [] then upd_store q (\<lambda>s. s\<lparr>msg := (msg s)\<lparr>mm_payload := out\<rparr>\<rparr>) b2 else b2))"

definition mqtt3_db_messages_easy_queue ::
  "dxl_hooks \<Rightarrow> nat option \<Rightarrow> string option \<Rightarrow> int \<Rightarrow> byte list \<Rightarrow> bool \<Rightarrow> broker \<Rightarrow> int \<times> broker" where
  "mqtt3_db_messages_easy_queue H context topic qos pl retain b =
     (case topic of None \<Rightarrow> (MOSQ_ERR_INVAL, b)
      | Some t \<Rightarrow>
          let src = (case context of Some c \<Rightarrow> ctx_id (ctxs b c) | None \<Rightarrow> Some '''');
              (rc, stored, b1) = mqtt3_db_message_store H context src 0 topic qos pl retain 0 b
          in if rc \<noteq> 0 then (1, b1) else mqtt3_db_messages_queue H src t qos retain stored b1)"

fun store_sweep :: "mosquitto_msg_store list \<Rightarrow> broker \<Rightarrow> mosquitto_msg_store list \<times> broker" where
  "store_sweep [] b = ([], b)"
| "store_sweep (s # ss) b =
     (if ref_count s = 0 then
        store_sweep ss ((log_dxl (dxl_finalize (db_id s)) b)\<lparr>msg_store_count := msg_store_count b - 1\<rparr>)
      else let (ss', b') = store_sweep ss b in (s # ss', b'))"

definition mqtt3_db_store_clean :: "broker \<Rightarrow> broker" where
  "mqtt3_db_store_clean b = (let (ss, b') = store_sweep (msg_store b) b in b'\<lparr>msg_store := ss\<rparr>)"

fun retained_below :: "subhier \<Rightarrow> nat list" where
  "retained_below (Subhier t ls ret cs keys npound nplus) =
     (case ret of None \<Rightarrow> [] | Some q \<Rightarrow> [q]) @ concat (map retained_below cs)"

text \<open>\<^verbatim>\<open>subhier_clean\<close> frees the nodes; what remains of it are the references it gives back.\<close>

definition subhier_clean :: "subhier list \<Rightarrow> broker \<Rightarrow> broker" where
  "subhier_clean cs b = fold (add_ref (-1)) (concat (map retained_below cs)) b"

definition mqtt3_db_close :: "broker \<Rightarrow> int \<times> broker" where
  "mqtt3_db_close b =
     (let b1 = subhier_clean (hier_children (subs b)) b;
          b2 = b1\<lparr>subs := Subhier (hier_topic (subs b)) (hier_subs (subs b)) (hier_retained (subs b)) [] []
                 (hash_table_has_pound_wild_card (subs b)) (hash_table_has_plus_wild_card (subs b))\<rparr>
      in (MOSQ_ERR_SUCCESS, mqtt3_db_store_clean b2))"

section \<open>Releasing incoming messages\<close>

definition release_promote :: "nat \<Rightarrow> int \<Rightarrow> client_msg \<Rightarrow> broker \<Rightarrow> client_msg \<times> broker" where
  "release_promote c msg_index m b =
     (promote (now b) (max_inflight b) msg_index m,
      if cm_state m = mosq_ms_queued \<and> msg_index \<le> max_inflight b \<and> cm_direction m \<noteq> mosq_md_out \<and> cm_qos m = 2
      then snd (with_ctx c (\<lambda>x. send_pubrec (now b) x (cm_mid m)) b) else b)"

text \<open>The publication may append to the very queue that is being walked; the walk then meets what was
  appended.\<close>

partial_function (option) message_release_loop ::
  "dxl_hooks \<Rightarrow> nat \<Rightarrow> uint16 \<Rightarrow> msg_direction \<Rightarrow> int \<Rightarrow> bool \<Rightarrow> client_msg list \<Rightarrow> client_msg list \<Rightarrow> broker \<Rightarrow>
   (int \<times> broker) option" where
  "message_release_loop H c mid dir msg_index deleted before tail b =
     (case tail of
        [] \<Rightarrow> Some (if deleted then MOSQ_ERR_SUCCESS else 1, set_msgs c before b)
      | m # rest \<Rightarrow>
          let idx = msg_index + 1; (m', b1) = release_promote c idx m b in
          if cm_mid m' = mid \<and> cm_direction m' = dir then
            let s = deref_store b1 (cm_store m');
                b2 = set_msgs c (before @ m' # rest) b1;
                (rc, b3) = (case mm_topic (msg s) of
                    None \<Rightarrow> (0, b2)
                  | Some topic \<Rightarrow>
                      mqtt3_db_messages_queue H (Some (source_id s)) topic (mm_qos (msg s)) (cm_retain m') (cm_store m') b2)
            in if rc = 0 then
                 let rest' = drop (length before + 1) (msgs (ctxs b3 c)); b4 = message_remove c m' b3 in
                 if idx > max_inflight b then Some (MOSQ_ERR_SUCCESS, set_msgs c (before @ rest') b4)
                 else message_release_loop H c mid dir idx True before rest' b4
               else Some (1, b3)
          else if idx > max_inflight b \<and> deleted then Some (MOSQ_ERR_SUCCESS, set_msgs c (before @ m' # rest) b1)
          else message_release_loop H c mid dir idx deleted (before @ [m']) rest b1)"

definition mqtt3_db_message_release :: "dxl_hooks \<Rightarrow> nat \<Rightarrow> uint16 \<Rightarrow> msg_direction \<Rightarrow> broker \<Rightarrow> (int \<times> broker) option" where
  "mqtt3_db_message_release H c mid dir b = message_release_loop H c mid dir 0 False [] (msgs (ctxs b c)) b"

section \<open>The life of a context\<close>

text \<open>\<open>peer\<close> is what \<^verbatim>\<open>_mosquitto_socket_get_address\<close> finds. A NULL result leaves the state as it was.\<close>

definition mqtt3_context_init :: "int \<Rightarrow> string option \<Rightarrow> broker \<Rightarrow> nat option \<times> broker" where
  "mqtt3_context_init s peer b =
     (if s \<noteq> -1 \<and> peer = None then (None, b)
      else
        (Some (next_ptr b),
         b\<lparr>ctxs := (ctxs b)(next_ptr b := zero_context\<lparr>sock := s, last_msg_in := now b, last_msg_out := now b,
                keepalive := 60, clean_session := True, in_packet := packet_cleanup empty_packet,
                address := (if s \<noteq> -1 then peer else None)\<rparr>),
           next_ptr := next_ptr b + 1\<rparr>))"

definition mqtt3_context_cleanup_certs :: "nat \<Rightarrow> broker \<Rightarrow> broker" where
  "mqtt3_context_cleanup_certs c b = upd_ctx c (\<lambda>x. x\<lparr>cert_hashes := []\<rparr>) b"

definition drop_listener :: "nat \<Rightarrow> broker \<Rightarrow> broker" where
  "drop_listener c b = (case listener (ctxs b c) of None \<Rightarrow> b
     | Some l \<Rightarrow> b\<lparr>listener_client_count := (listener_client_count b)(l := listener_client_count b l - 1)\<rparr>)"

text \<open>The parts of \<^verbatim>\<open>mqtt3_context_cleanup\<close> in their order: the connection, the session, the names,
  the buffers, the queue.\<close>

definition cleanup_connection :: "nat \<Rightarrow> broker \<Rightarrow> broker" where
  "cleanup_connection c b =
     (let b1 = upd_ctx c (\<lambda>x. x\<lparr>ssl := False\<rparr>) b;
          b2 = (if sock (ctxs b1 c) \<noteq> -1
                then upd_ctx c (\<lambda>x. (socket_close x)\<lparr>listener := None\<rparr>) (drop_listener c b1) else b1)
      in if wsi (ctxs b2 c) then upd_ctx c (\<lambda>x. x\<lparr>cstate := mosq_cs_ws_dead\<rparr>) b2 else b2)"

definition cleanup_session :: "nat \<Rightarrow> bool \<Rightarrow> broker \<Rightarrow> broker" where
  "cleanup_session c do_clean_subs b =
     (if clean_session (ctxs b c) then
        let b1 = (if do_clean_subs then
                    upd_ctx c (\<lambda>x. x\<lparr>clean_subs := False\<rparr>)
                      (snd (mqtt3_subs_clean_session (upd_ctx c (\<lambda>x. x\<lparr>clean_subs := True\<rparr>) b)))
                  else b)
        in snd (mqtt3_db_messages_delete c b1)
      else b)"

definition cleanup_names :: "nat \<Rightarrow> broker \<Rightarrow> broker" where
  "cleanup_names c b =
     (let b1 = upd_ctx c (\<lambda>x. x\<lparr>address := None\<rparr>) b;
          b2 = (case canonical_id (ctxs b1 c) of None \<Rightarrow> b1 | Some cid \<Rightarrow> mqtt3_db_remove_canonical_client_id cid b1);
          b3 = (case ctx_id (ctxs b2 c) of None \<Rightarrow> b2
            | Some i \<Rightarrow>
                upd_ctx c (\<lambda>x. x\<lparr>ctx_id := None, canonical_id := None\<rparr>)
                  (if cih_find i (clientid_index_hash b2) \<noteq> None then
                     log_dxl (dxl_client_disconnected c) (b2\<lparr>clientid_index_hash := cih_del i (clientid_index_hash b2)\<rparr>)
                   else b2))
      in mqtt3_context_cleanup_certs c (upd_ctx c (\<lambda>x. x\<lparr>cert_chain := None, dxl_client_guid := None, dxl_tenant_guid := None\<rparr>) b3))"

definition cleanup_buffers :: "nat \<Rightarrow> broker \<Rightarrow> broker" where
  "cleanup_buffers c b =
     upd_ctx c (\<lambda>x. x\<lparr>in_packet := packet_cleanup (in_packet x), current_out_packet := None, out_packet := [], will := None\<rparr>)
       (mosquitto_remove_pending_bytes_set c b)"

definition cleanup_queue :: "nat \<Rightarrow> bool \<Rightarrow> broker \<Rightarrow> broker" where
  "cleanup_queue c do_free b =
     (let b1 = (if do_free \<or> clean_session (ctxs b c) then
                  upd_ctx c (\<lambda>x. x\<lparr>msgs := [], msg_count := 0, msg_count12 := 0, ctx_subscription_count := 0, packet_count := 0\<rparr>)
                    (drop_refs (msgs (ctxs b c)) b)
                else b)
      in if do_free then upd_ctx c (\<lambda>x. x\<lparr>wsi := False\<rparr>) b1 else b1)"

definition mqtt3_context_cleanup :: "nat \<Rightarrow> bool \<Rightarrow> bool \<Rightarrow> broker \<Rightarrow> broker" where
  "mqtt3_context_cleanup c do_free do_clean_subs b =
     cleanup_queue c do_free (cleanup_buffers c (cleanup_names c (cleanup_session c do_clean_subs (cleanup_connection c b))))"

definition publish_will :: "dxl_hooks \<Rightarrow> nat \<Rightarrow> mosquitto_message \<Rightarrow> broker \<Rightarrow> broker" where
  "publish_will H c w b =
     (let t = (case mm_topic w of Some t \<Rightarrow> t | None \<Rightarrow> '''');
          allowed = on_publish_message H (dxl_log b) (ctxs b c) t (mm_payload w);
          b1 = log_dxl (dxl_publish c t (mm_payload w)) b
      in if allowed then snd (mqtt3_db_messages_easy_queue H (Some c) (mm_topic w) (mm_qos w) (mm_payload w) (mm_retain w) b1)
         else b1)"

definition mqtt3_context_disconnect :: "dxl_hooks \<Rightarrow> nat \<Rightarrow> broker \<Rightarrow> broker" where
  "mqtt3_context_disconnect H c b =
     (let b1 = (if is_bridge (ctxs b c) then log_dxl (dxl_bridge_disconnected c) b else b);
          b2 = (case will (ctxs b1 c) of
                  Some w \<Rightarrow> if cstate (ctxs b1 c) \<noteq> mosq_cs_disconnecting then publish_will H c w b1 else b1
                | None \<Rightarrow> b1);
          b3 = upd_ctx c (\<lambda>x. x\<lparr>will := None\<rparr>) b2;
          b4 = upd_ctx c (\<lambda>x. x\<lparr>listener := None\<rparr>) (drop_listener c b3)
      in upd_ctx c (\<lambda>x. socket_close (x\<lparr>disconnect_t := now b\<rparr>)) b4)"

text \<open>An empty slot would be dereferenced and end the process, which is recorded like a failed assertion.\<close>

definition slot :: "broker \<Rightarrow> nat \<Rightarrow> nat option" where
  "slot b i = (if i < length (contexts b) then contexts b ! i else None)"

definition mqtt3_context_disconnect_byid :: "dxl_hooks \<Rightarrow> string \<Rightarrow> broker \<Rightarrow> broker" where
  "mqtt3_context_disconnect_byid H contextId b =
     (case cih_find contextId (clientid_index_hash b) of
        Some i \<Rightarrow> (case slot b i of Some c \<Rightarrow> mqtt3_context_disconnect H c b | None \<Rightarrow> b\<lparr>assert_violated := True\<rparr>)
      | None \<Rightarrow> b)"

end
