(* ===== verification/Handlers.thy ===== *)
theory Handlers
  imports Database
begin

text \<open>
  The packet handlers: src/mqtt-core/lib/read_handle_shared.c, src/mqtt-core/src/read_handle.c,
  src/mqtt-core/src/read_handle_server.c and src/mqtt-core/src/read_handle_client.c, in the build the
  makefiles configure (\<^verbatim>\<open>DXL\<close> defined, \<^verbatim>\<open>WITH_STRICT_PROTOCOL\<close> not). A handler takes the address
  of the context whose complete packet is in \<open>in_packet\<close>. A stage of a long handler returns the
  final result on the left, or what the next stage needs on the right.
\<close>

section \<open>Reading from the packet\<close>

definition take_in :: "(packet \<Rightarrow> int + 'a \<times> packet) \<Rightarrow> nat \<Rightarrow> broker \<Rightarrow> int + 'a \<times> broker" where
  "take_in f c b = (case f (in_packet (ctxs b c)) of Inl rc \<Rightarrow> Inl rc
     | Inr (v, p) \<Rightarrow> Inr (v, upd_ctx c (\<lambda>x. x\<lparr>in_packet := p\<rparr>) b))"

abbreviation "flags_of b c \<equiv> command (in_packet (ctxs b c)) AND 0x0F"

definition more_input :: "nat \<Rightarrow> broker \<Rightarrow> bool" where
  "more_input c b \<longleftrightarrow> pos (in_packet (ctxs b c)) < remaining_length (in_packet (ctxs b c))"

section \<open>Keepalive and acknowledgements\<close>

definition handle_pingreq :: "nat \<Rightarrow> broker \<Rightarrow> int \<times> broker" where
  "handle_pingreq c b = with_ctx c (send_pingresp (now b)) b"

definition handle_pingresp :: "nat \<Rightarrow> broker \<Rightarrow> int \<times> broker" where
  "handle_pingresp c b = (MOSQ_ERR_SUCCESS, upd_ctx c (\<lambda>x. x\<lparr>ping_t := 0\<rparr>) b)"

definition handle_pubackcomp :: "nat \<Rightarrow> broker \<Rightarrow> int \<times> broker" where
  "handle_pubackcomp c b = (case take_in read_uint16 c b of Inl rc \<Rightarrow> (rc, b)
     | Inr (mid, b1) \<Rightarrow> if mid \<noteq> 0 then mqtt3_db_message_delete c mid mosq_md_out b1 else (MOSQ_ERR_SUCCESS, b1))"

definition handle_pubrec :: "nat \<Rightarrow> broker \<Rightarrow> int \<times> broker" where
  "handle_pubrec c b = (case take_in read_uint16 c b of Inl rc \<Rightarrow> (rc, b)
     | Inr (mid, b1) \<Rightarrow>
         let (rc, b2) = mqtt3_db_message_update c mid mosq_md_out mosq_ms_wait_for_pubcomp b1 in
         if rc \<noteq> 0 then (rc, b2) else with_ctx c (\<lambda>x. send_pubrel (now b2) x mid False) b2)"

definition handle_pubrel :: "dxl_hooks \<Rightarrow> nat \<Rightarrow> broker \<Rightarrow> (int \<times> broker) option" where
  "handle_pubrel H c b =
     (if protocol (ctxs b c) = mosq_p_mqtt311 \<and> flags_of b c \<noteq> 0x02 then Some (MOSQ_ERR_PROTOCOL, b)
      else case take_in read_uint16 c b of Inl rc \<Rightarrow> Some (rc, b)
      | Inr (mid, b1) \<Rightarrow>
          (case mqtt3_db_message_release H c mid mosq_md_in b1 of None \<Rightarrow> None
           | Some (_, b2) \<Rightarrow> Some (with_ctx c (\<lambda>x. send_pubcomp (now b2) x mid) b2)))"

text \<open>\<^verbatim>\<open>while(pos < remaining_length)\<close>: the fuel is the length of the packet, and every round advances.\<close>

fun suback_loop :: "nat \<Rightarrow> nat \<Rightarrow> broker \<Rightarrow> int \<times> broker" where
  "suback_loop 0 c b = (MOSQ_ERR_SUCCESS, b)"
| "suback_loop (Suc n) c b =
     (if more_input c b then
        (case take_in read_byte c b of Inl rc \<Rightarrow> (rc, b) | Inr (_, b1) \<Rightarrow> suback_loop n c b1)
      else (MOSQ_ERR_SUCCESS, b))"

definition handle_suback :: "nat \<Rightarrow> broker \<Rightarrow> int \<times> broker" where
  "handle_suback c b = (case take_in read_uint16 c b of Inl rc \<Rightarrow> (rc, b)
     | Inr (_, b1) \<Rightarrow> suback_loop (remaining_length (in_packet (ctxs b c))) c b1)"

definition handle_unsuback :: "nat \<Rightarrow> broker \<Rightarrow> int \<times> broker" where
  "handle_unsuback c b = (case take_in read_uint16 c b of Inl rc \<Rightarrow> (rc, b) | Inr (_, b1) \<Rightarrow> (MOSQ_ERR_SUCCESS, b1))"

section \<open>PUBLISH\<close>

fun map_in_topic :: "bridge_topic list \<Rightarrow> string \<Rightarrow> int + string" where
  "map_in_topic [] topic = Inr topic"
| "map_in_topic (cur # ts) topic =
     (if (bt_direction cur = bd_both \<or> bt_direction cur = bd_in) \<and>
         (remote_prefix cur \<noteq> None \<or> local_prefix cur \<noteq> None) then
        let (rc, match) = mosquitto_topic_matches_sub (Some (remote_topic cur)) (Some topic) in
        if rc \<noteq> MOSQ_ERR_SUCCESS then Inl rc
        else if match = Some True then
          Inr (add_prefix (local_prefix cur) (strip_prefix (remote_prefix cur) topic))
        else map_in_topic ts topic
      else map_in_topic ts topic)"

definition in_topic :: "mosquitto \<Rightarrow> string \<Rightarrow> int + string" where
  "in_topic x topic = (case bridge x of
       Some br \<Rightarrow> if topics br \<noteq> [] \<and> topic_remapping br then map_in_topic (topics br) topic else Inr topic
     | None \<Rightarrow> Inr topic)"

text \<open>\<^verbatim>\<open>process_bad_message\<close>.\<close>

definition publish_bad :: "dxl_hooks \<Rightarrow> nat \<Rightarrow> int \<Rightarrow> uint16 \<Rightarrow> broker \<Rightarrow> int \<times> broker" where
  "publish_bad H c qos mid b =
     (if qos = 0 then (MOSQ_ERR_SUCCESS, b)
      else if qos = 1 then with_ctx c (\<lambda>x. send_puback (now b) x mid) b
      else if qos = 2 then
        let (res, b1) = (case snd (mqtt3_db_message_store_find c mid b) of
                Some _ \<Rightarrow> (0, b)
              | None \<Rightarrow>
                  let (_, stored, b0) = mqtt3_db_message_store H (Some c) (ctx_id (ctxs b c)) mid None qos [] False 0 b
                  in mqtt3_db_message_insert H c mid mosq_md_in qos False stored b0)
        in if res = 0 then with_ctx c (\<lambda>x. send_pubrec (now b1) x mid) b1 else (res, b1)
      else (1, b))"

text \<open>The switch on the QoS after the message has been stored.\<close>

definition publish_stored ::
  "dxl_hooks \<Rightarrow> nat \<Rightarrow> string \<Rightarrow> int \<Rightarrow> bool \<Rightarrow> bool \<Rightarrow> uint16 \<Rightarrow> nat \<Rightarrow> broker \<Rightarrow> int \<times> broker" where
  "publish_stored H c topic qos retain dup mid stored b =
     (if qos = 0 then
        let (rc, b1) = mqtt3_db_messages_queue H (ctx_id (ctxs b c)) topic qos retain stored b in (if rc \<noteq> 0 then 1 else 0, b1)
      else if qos = 1 then
        let (rc, b1) = mqtt3_db_messages_queue H (ctx_id (ctxs b c)) topic qos retain stored b;
            (rc2, b2) = with_ctx c (\<lambda>x. send_puback (now b1) x mid) b1
        in (if rc \<noteq> 0 \<or> rc2 \<noteq> 0 then 1 else 0, b2)
      else if qos = 2 then
        let (res, b1) = (if \<not> dup then mqtt3_db_message_insert H c mid mosq_md_in qos retain stored b else (0, b)) in
        if res = 0 then let (rc2, b2) = with_ctx c (\<lambda>x. send_pubrec (now b1) x mid) b1 in (if rc2 \<noteq> 0 then 1 else 0, b2)
        else (if res = 1 then 1 else 0, b1)
      else (0, b))"

definition publish_accept :: "dxl_hooks \<Rightarrow> nat \<Rightarrow> string \<Rightarrow> int \<Rightarrow> bool \<Rightarrow> uint16 \<Rightarrow> byte list \<Rightarrow> broker \<Rightarrow> int \<times> broker" where
  "publish_accept H c topic qos retain mid pl b =
     (let allowed = on_publish_message H (dxl_log b) (ctxs b c) topic pl;
          b1 = log_dxl (dxl_publish c topic pl) b in
      if \<not> allowed then publish_bad H c qos mid b1
      else
        case (if qos > 0 then snd (mqtt3_db_message_store_find c mid b1) else None) of
          Some stored \<Rightarrow> publish_stored H c topic qos retain True mid stored b1
        | None \<Rightarrow>
            let (_, stored, b2) = mqtt3_db_message_store H (Some c) (ctx_id (ctxs b1 c)) mid (Some topic) qos pl retain 0 b1
            in publish_stored H c topic qos retain False mid stored b2)"

text \<open>The QoS of the header; 3 is refused and, in this build, 1 and 2 are ignored.\<close>

definition publish_qos :: "byte \<Rightarrow> int" where
  "publish_qos header = uint (drop_bit 1 (header AND 0x06))"

definition publish_body_of :: "dxl_hooks \<Rightarrow> nat \<Rightarrow> string \<Rightarrow> int \<Rightarrow> bool \<Rightarrow> uint16 \<Rightarrow> broker \<Rightarrow> int \<times> broker" where
  "publish_body_of H c topic qos retain mid b =
     (let payloadlen = u32 (remaining_length (in_packet (ctxs b c)) + 2 ^ 32 - pos (in_packet (ctxs b c))) in
      if payloadlen = 0 then publish_accept H c topic qos retain mid [] b
      else if message_size_limit b \<noteq> 0 \<and> int payloadlen > message_size_limit b mod 2 ^ 32 then publish_bad H c qos mid b
      else case take_in (\<lambda>p. read_bytes p payloadlen) c b of Inl _ \<Rightarrow> (1, b)
           | Inr (pl, b1) \<Rightarrow> publish_accept H c topic qos retain mid pl b1)"

definition mqtt3_handle_publish :: "dxl_hooks \<Rightarrow> nat \<Rightarrow> broker \<Rightarrow> int \<times> broker" where
  "mqtt3_handle_publish H c b =
     (let qos = publish_qos (command (in_packet (ctxs b c))) in
      if qos = 3 then (1, b)
      else if qos > 0 then (MOSQ_ERR_SUCCESS, b)
      else
        case take_in read_string c b of Inl _ \<Rightarrow> (1, b)
        | Inr (topic0, b1) \<Rightarrow>
            if topic0 = '''' then (1, b1)
            else
              case in_topic (ctxs b1 c) topic0 of Inl rc \<Rightarrow> (rc, b1)
              | Inr topic \<Rightarrow>
                  if mosquitto_topic_wildcard_len_check topic \<noteq> MOSQ_ERR_SUCCESS then (1, b1)
                  else if qos > 0 then
                    (case take_in read_uint16 c b1 of Inl _ \<Rightarrow> (1, b1)
                     | Inr (mid, b2) \<Rightarrow> publish_body_of H c topic qos False mid b2)
                  else publish_body_of H c topic qos False 0 b1)"

section \<open>SUBSCRIBE and UNSUBSCRIBE\<close>

definition subscribe_one :: "dxl_hooks \<Rightarrow> nat \<Rightarrow> string \<Rightarrow> byte \<Rightarrow> int \<Rightarrow> broker \<Rightarrow> int \<times> broker" where
  "subscribe_one H c sub qos rc b =
     (if qos \<noteq> 0x80 then
        let (rc2, b1) = mqtt3_sub_add H c sub (uint qos) b in
        if rc2 = MOSQ_ERR_SUCCESS then
          let (r, b2) = mqtt3_retain_queue H c sub (uint qos) b1 in (if r \<noteq> 0 then 1 else rc, b2)
        else if rc2 \<noteq> -1 then (rc2, b1) else (rc, b1)
      else (rc, b))"

text \<open>The loop over the filters; \<open>granted\<close> is the SUBACK payload. The fuel is the packet length, and
  every round consumes at least the two bytes of a string length.\<close>

fun subscribe_loop ::
  "dxl_hooks \<Rightarrow> nat \<Rightarrow> nat \<Rightarrow> byte list \<Rightarrow> int \<Rightarrow> broker \<Rightarrow> (int \<times> broker) + (byte list \<times> int \<times> broker)" where
  "subscribe_loop H 0 c granted rc b = Inr (granted, rc, b)"
| "subscribe_loop H (Suc n) c granted rc b =
     (if more_input c b then
        case take_in read_string c b of Inl _ \<Rightarrow> Inl (1, b)
        | Inr (sub, b1) \<Rightarrow>
            if sub = '''' \<or> mosquitto_topic_wildcard_pos_check sub \<noteq> 0 then Inl (1, b1)
            else
              case take_in read_byte c b1 of Inl _ \<Rightarrow> Inl (1, b1)
              | Inr (qos, b2) \<Rightarrow>
                  if qos > 2 then Inl (1, b2)
                  else let (rc', b3) = subscribe_one H c sub qos rc b2 in subscribe_loop H n c (granted @ [qos]) rc' b3
      else Inr (granted, rc, b))"

definition mqtt3_handle_subscribe :: "dxl_hooks \<Rightarrow> nat \<Rightarrow> broker \<Rightarrow> int \<times> broker" where
  "mqtt3_handle_subscribe H c b =
     (if protocol (ctxs b c) = mosq_p_mqtt311 \<and> flags_of b c \<noteq> 0x02 then (MOSQ_ERR_PROTOCOL, b)
      else case take_in read_uint16 c b of Inl _ \<Rightarrow> (1, b)
      | Inr (mid, b1) \<Rightarrow>
          (case subscribe_loop H (remaining_length (in_packet (ctxs b c))) c [] 0 b1 of
             Inl r \<Rightarrow> r
           | Inr (granted, rc, b2) \<Rightarrow>
               if protocol (ctxs b2 c) = mosq_p_mqtt311 \<and> granted = [] then (MOSQ_ERR_PROTOCOL, b2)
               else let (r, b3) = with_ctx c (\<lambda>x. send_suback (now b2) x mid granted) b2 in (if r \<noteq> 0 then 1 else rc, b3)))"

fun unsubscribe_loop :: "nat \<Rightarrow> nat \<Rightarrow> broker \<Rightarrow> (int \<times> broker) + broker" where
  "unsubscribe_loop 0 c b = Inr b"
| "unsubscribe_loop (Suc n) c b =
     (if more_input c b then
        case take_in read_string c b of Inl _ \<Rightarrow> Inl (1, b)
        | Inr (sub, b1) \<Rightarrow>
            if sub = '''' \<or> mosquitto_topic_wildcard_pos_check sub \<noteq> 0 then Inl (1, b1)
            else unsubscribe_loop n c (snd (mqtt3_sub_remove c sub b1))
      else Inr b)"

definition mqtt3_handle_unsubscribe :: "nat \<Rightarrow> broker \<Rightarrow> int \<times> broker" where
  "mqtt3_handle_unsubscribe c b =
     (if protocol (ctxs b c) = mosq_p_mqtt311 \<and> flags_of b c \<noteq> 0x02 then (MOSQ_ERR_PROTOCOL, b)
      else case take_in read_uint16 c b of Inl _ \<Rightarrow> (1, b)
      | Inr (mid, b1) \<Rightarrow>
          (case unsubscribe_loop (remaining_length (in_packet (ctxs b c))) c b1 of
             Inl r \<Rightarrow> r
           | Inr b2 \<Rightarrow> with_ctx c (\<lambda>x. send_command_with_mid (now b2) x UNSUBACK mid False) b2))"

section \<open>DISCONNECT\<close>

definition mqtt3_handle_disconnect :: "dxl_hooks \<Rightarrow> nat \<Rightarrow> broker \<Rightarrow> int \<times> broker" where
  "mqtt3_handle_disconnect H c b =
     (if remaining_length (in_packet (ctxs b c)) \<noteq> 0 then (MOSQ_ERR_PROTOCOL, b)
      else if protocol (ctxs b c) = mosq_p_mqtt311 \<and> flags_of b c \<noteq> 0x00 then
        (MOSQ_ERR_PROTOCOL, mqtt3_context_disconnect H c b)
      else (MOSQ_ERR_SUCCESS, mqtt3_context_disconnect H c (upd_ctx c (\<lambda>x. x\<lparr>cstate := mosq_cs_disconnecting\<rparr>) b)))"

section \<open>CONNACK, on the side of a bridge\<close>

fun connack_topics :: "nat \<Rightarrow> bridge_topic list \<Rightarrow> broker \<Rightarrow> int \<times> broker" where
  "connack_topics c [] b = (MOSQ_ERR_SUCCESS, b)"
| "connack_topics c (t # ts) b =
     (let (rc, b1) = with_ctx c (\<lambda>x.
          if bt_direction t = bd_in \<or> bt_direction t = bd_both
          then send_subscribe (now b) x False (remote_topic t) (word_of_int (bt_qos t))
          else send_unsubscribe (now b) x False (remote_topic t)) b
      in if rc \<noteq> 0 then (1, b1) else connack_topics c ts b1)"

definition mqtt3_handle_connack :: "nat \<Rightarrow> broker \<Rightarrow> int \<times> broker" where
  "mqtt3_handle_connack c b =
     (case take_in read_byte c b of Inl _ \<Rightarrow> (1, b)
      | Inr (_, b1) \<Rightarrow>
          (case take_in read_byte c b1 of Inl _ \<Rightarrow> (1, b1)
           | Inr (rc, b2) \<Rightarrow>
               if rc = 0 then
                 let (r, b3) = (case bridge (ctxs b2 c) of
                       Some br \<Rightarrow> connack_topics c (topics br)
                         (if is_bridge (ctxs b2 c) then log_dxl (dxl_bridge_connected c) b2 else b2)
                     | None \<Rightarrow> (0, b2))
                 in if r \<noteq> 0 then (1, b3) else (MOSQ_ERR_SUCCESS, upd_ctx c (\<lambda>x. x\<lparr>cstate := mosq_cs_connected\<rparr>) b3)
               else if rc = 1 then
                 (1, upd_ctx c (\<lambda>x. x\<lparr>bridge := map_option (\<lambda>br. br\<lparr>try_private_accepted := False\<rparr>) (bridge x)\<rparr>) b2)
               else (1, b2)))"

section \<open>CONNECT\<close>

definition refuse :: "dxl_hooks \<Rightarrow> nat \<Rightarrow> int \<Rightarrow> broker \<Rightarrow> int \<times> broker" where
  "refuse H c rc b = (rc, mqtt3_context_disconnect H c b)"

definition refuse_with :: "dxl_hooks \<Rightarrow> nat \<Rightarrow> int \<Rightarrow> int \<Rightarrow> broker \<Rightarrow> int \<times> broker" where
  "refuse_with H c code rc b = refuse H c rc (snd (with_ctx c (\<lambda>x. send_connack (now b) x code) b))"

text \<open>The protocol name and version; the version byte is passed on.\<close>

definition connect_protocol :: "dxl_hooks \<Rightarrow> nat \<Rightarrow> broker \<Rightarrow> (int \<times> broker) + (byte \<times> broker)" where
  "connect_protocol H c b =
     (if cstate (ctxs b c) \<noteq> mosq_cs_new then Inl (refuse H c MOSQ_ERR_PROTOCOL b)
      else case take_in read_string c b of Inl _ \<Rightarrow> Inl (refuse H c 1 b)
      | Inr (name, b1) \<Rightarrow>
          (case take_in read_byte c b1 of Inl _ \<Rightarrow> Inl (refuse H c 1 b1)
           | Inr (version, b2) \<Rightarrow>
               if name = ''MQIsdp'' then
                 if version AND 0x7F \<noteq> 3 then Inl (refuse_with H c CONNACK_REFUSED_PROTOCOL_VERSION MOSQ_ERR_PROTOCOL b2)
                 else Inr (version, upd_ctx c (\<lambda>x. x\<lparr>protocol := mosq_p_mqtt31\<rparr>) b2)
               else if name = ''MQTT'' then
                 if version AND 0x7F \<noteq> 4 then Inl (refuse_with H c CONNACK_REFUSED_PROTOCOL_VERSION MOSQ_ERR_PROTOCOL b2)
                 else if flags_of b2 c \<noteq> 0 then Inl (refuse H c MOSQ_ERR_PROTOCOL b2)
                 else Inr (version, upd_ctx c (\<lambda>x. x\<lparr>protocol := mosq_p_mqtt311\<rparr>) b2)
               else Inl (refuse H c MOSQ_ERR_PROTOCOL b2)))"

text \<open>Who may connect: a bridge needs a broker certificate, and a client a free place.\<close>

definition connect_authorize :: "dxl_hooks \<Rightarrow> nat \<Rightarrow> byte \<Rightarrow> broker \<Rightarrow> (int \<times> broker) + broker" where
  "connect_authorize H c version b =
     (let wants_bridge = (version AND 0x80 = 0x80);
          is_broker = (wants_bridge \<and> (\<exists>cert \<in> set (cert_hashes (ctxs b c)). is_broker_cert H cert));
          b1 = upd_ctx c (\<lambda>x. x\<lparr>tls_certtype := (if is_broker then cert_broker else cert_client)\<rparr>) b in
      if wants_bridge \<and> \<not> is_broker then Inl (refuse_with H c CONNACK_REFUSED_NOT_AUTHORIZED MOSQ_ERR_PROTOCOL b1)
      else
        let b2 = (if wants_bridge then upd_ctx c (\<lambda>x. x\<lparr>is_bridge := True\<rparr>) b1 else b1) in
        if \<not> is_bridge (ctxs b2 c) \<and> max_connect_count b2 > 0 \<and> mqtt3_dxl_db_client_count b2 \<ge> max_connect_count b2
        then Inl (refuse_with H c CONNACK_REFUSED_SERVER_UNAVAILABLE MOSQ_ERR_PROTOCOL b2)
        else Inr b2)"

text \<open>The flags, the keepalive and the client id.\<close>

definition connect_header :: "dxl_hooks \<Rightarrow> nat \<Rightarrow> broker \<Rightarrow> (int \<times> broker) + (byte \<times> string \<times> broker)" where
  "connect_header H c b =
     (case take_in read_byte c b of Inl _ \<Rightarrow> Inl (refuse H c 1 b)
      | Inr (flags, b1) \<Rightarrow>
          if drop_bit 3 (flags AND 0x18) = 3 then Inl (refuse H c MOSQ_ERR_PROTOCOL b1)
          else if flags AND 0x02 = 0 then Inl (refuse H c 1 b1)
          else case take_in read_uint16 c b1 of Inl _ \<Rightarrow> Inl (refuse H c 1 b1)
          | Inr (ka, b2) \<Rightarrow>
              let b3 = upd_ctx c (\<lambda>x. x\<lparr>keepalive := ka\<rparr>) b2 in
              (case take_in read_string c b3 of Inl _ \<Rightarrow> Inl (refuse H c 1 b3)
               | Inr (sent_id, b4) \<Rightarrow>
                   let client_id = (if tls_certtype (ctxs b4 c) \<noteq> cert_broker then generate_guid H (dxl_log b4) else sent_id) in
                   if client_id = '''' then Inl (refuse_with H c CONNACK_REFUSED_IDENTIFIER_REJECTED MOSQ_ERR_PROTOCOL b4)
                   else if is_multi_tenant_mode_enabled H \<and> dxl_tenant_guid (ctxs b4 c) = None
                   then Inl (refuse_with H c CONNACK_REFUSED_NOT_AUTHORIZED MOSQ_ERR_SUCCESS b4)
                   else Inr (flags, client_id, b4)))"

text \<open>The certificate chain and the canonical id of a client: the last certificate names it. The chain
  is cut to the buffer of 41 bytes for each certificate.\<close>

fun join_certs :: "string list \<Rightarrow> string" where
  "join_certs [] = ''''"
| "join_certs [s] = s"
| "join_certs (s # ss) = s @ '';'' @ join_certs ss"

definition connect_identity :: "dxl_hooks \<Rightarrow> nat \<Rightarrow> string \<Rightarrow> broker \<Rightarrow> string option \<times> string option \<times> string \<times> broker" where
  "connect_identity H c client_id b =
     (let x = ctxs b c; certs = cert_hashes x;
          chain = (if \<not> is_bridge x then Some (take (41 * length certs) (join_certs certs)) else None);
          canonical = (if \<not> is_bridge x \<and> certs \<noteq> [] then Some (last certs) else None);
          final_id = (case canonical of Some cert \<Rightarrow> cert @ '':'' @ client_id | None \<Rightarrow> client_id);
          ops = (is_multi_tenant_mode_enabled H \<and> dxl_tenant_guid x = Some (broker_tenant_guid H))
      in (chain, canonical, final_id,
          if ops then upd_ctx c (\<lambda>x. x\<lparr>dxl_flags := dxl_flags x OR DXL_FLAG_OPS\<rparr>) b else b))"

definition connect_will :: "dxl_hooks \<Rightarrow> nat \<Rightarrow> byte \<Rightarrow> broker \<Rightarrow> (int \<times> broker) + (mosquitto_message option \<times> broker)" where
  "connect_will H c flags b =
     (if flags AND 0x04 \<noteq> 0 then
        case take_in read_string c b of Inl _ \<Rightarrow> Inl (refuse H c 1 b)
        | Inr (topic, b1) \<Rightarrow>
            if topic = '''' \<or> mosquitto_topic_wildcard_pos_check topic \<noteq> 0 then Inl (refuse H c 1 b1)
            else if take 18 topic = ''/mcafee/event/dxl/'' then Inl (refuse H c MOSQ_ERR_PROTOCOL b1)
            else case take_in read_uint16 c b1 of Inl _ \<Rightarrow> Inl (refuse H c 1 b1)
            | Inr (len, b2) \<Rightarrow>
                let will_msg = \<lambda>pl. Some \<lparr>mm_topic = Some topic, mm_payload = pl, mm_client_payload = None, mm_qos = 0, mm_retain = False\<rparr> in
                if len > 0 then
                  (case take_in (\<lambda>p. read_bytes p (unat len)) c b2 of Inl _ \<Rightarrow> Inl (refuse H c 1 b2)
                   | Inr (pl, b3) \<Rightarrow> Inr (will_msg pl, b3))
                else Inr (will_msg [], b2)
      else if protocol (ctxs b c) = mosq_p_mqtt311 \<and> (drop_bit 3 (flags AND 0x18) \<noteq> 0 \<or> flags AND 0x20 \<noteq> 0)
      then Inl (refuse H c MOSQ_ERR_PROTOCOL b)
      else Inr (None, b))"

text \<open>The connection \<open>c\<close> continues the session of the context \<open>d\<close> that has its id.\<close>

definition take_over :: "nat \<Rightarrow> nat \<Rightarrow> nat \<Rightarrow> bool \<Rightarrow> broker \<Rightarrow> broker" where
  "take_over c d i clean b =
     (let b1 = mqtt3_context_cleanup d False True (upd_ctx d (\<lambda>y. y\<lparr>clean_session := clean\<rparr>) b);
          x = ctxs b1 c;
          b2 = upd_ctx d (\<lambda>y. y\<lparr>cstate := mosq_cs_connected, address := address x, sock := sock x, listener := listener x,
                 last_msg_in := now b, last_msg_out := now b, keepalive := keepalive x, dxl_flags := dxl_flags x,
                 ssl := ssl x,
                 dxl_client_guid := (case dxl_client_guid x of Some g \<Rightarrow> Some g | None \<Rightarrow> dxl_client_guid y),
                 dxl_tenant_guid := (case dxl_tenant_guid x of Some g \<Rightarrow> Some g | None \<Rightarrow> dxl_tenant_guid y),
                 cert_hashes := cert_hashes y @ cert_hashes x\<rparr>) b1;
          b3 = upd_ctx c (\<lambda>x. x\<lparr>listener := None, sock := -1, ssl := False, cstate := mosq_cs_disconnecting\<rparr>) b2;
          b4 = (if msgs (ctxs b3 d) \<noteq> [] then snd (mqtt3_db_message_reconnect_reset d b3) else b3)
      in mosquitto_remove_pending_bytes_set d (upd_ctx d (\<lambda>y. y\<lparr>numericId := i, clean_subs := False\<rparr>) b4))"

text \<open>The context that goes on, after a session with the same id has been dealt with.\<close>

definition connect_session :: "dxl_hooks \<Rightarrow> nat \<Rightarrow> bool \<Rightarrow> string \<Rightarrow> broker \<Rightarrow> nat \<times> broker" where
  "connect_session H c clean client_id b =
     (case cih_find client_id (clientid_index_hash b) of None \<Rightarrow> (c, b)
      | Some i \<Rightarrow>
          (case slot b i of None \<Rightarrow> (c, b\<lparr>assert_violated := True\<rparr>)
           | Some d \<Rightarrow>
               if wsi (ctxs b d) \<or> wsi (ctxs b c) then (c, mqtt3_context_disconnect H d b)
               else (d, take_over c d i clean b)))"

definition connect_register :: "nat \<Rightarrow> bool \<Rightarrow> string option \<Rightarrow> string option \<Rightarrow> string \<Rightarrow> mosquitto_message option \<Rightarrow> broker \<Rightarrow> broker" where
  "connect_register c clean chain canonical client_id w b =
     (let canon = (case canonical of Some s \<Rightarrow> s | None \<Rightarrow> client_id);
          b1 = upd_ctx c (\<lambda>x. x\<lparr>ctx_id := Some client_id, canonical_id := Some canon, clean_session := clean, ping_t := 0,
                 is_dropping := False, cert_chain := chain\<rparr>) b;
          b2 = b1\<lparr>clientid_index_hash := clientid_index_hash b1 @ [(client_id, db_index (ctxs b1 c))]\<rparr>;
          b3 = log_dxl (dxl_client_connected c) (mqtt3_add_canonical_client_id canon b2)
      in (case w of Some m \<Rightarrow> upd_ctx c (\<lambda>x. x\<lparr>will := Some m\<rparr>) b3 | None \<Rightarrow> b3))"

definition connect_finish :: "dxl_hooks \<Rightarrow> nat \<Rightarrow> broker \<Rightarrow> int \<times> broker" where
  "connect_finish H c b =
     (if \<not> is_bridge_connect_allowed H (dxl_log b) (ctxs b c)
      then refuse_with H c CONNACK_REFUSED_IDENTIFIER_REJECTED MOSQ_ERR_SUCCESS b
      else
        let b1 = upd_ctx c (\<lambda>x. x\<lparr>cstate := mosq_cs_connected\<rparr>) b;
            b2 = (if is_bridge (ctxs b1 c) then log_dxl (dxl_bridge_connected c) b1 else b1)
        in with_ctx c (\<lambda>x. send_connack (now b2) x CONNACK_ACCEPTED) b2)"

definition mqtt3_handle_connect :: "dxl_hooks \<Rightarrow> nat \<Rightarrow> broker \<Rightarrow> int \<times> broker" where
  "mqtt3_handle_connect H c b =
     (case connect_protocol H c b of Inl r \<Rightarrow> r
      | Inr (version, b1) \<Rightarrow>
     (case connect_authorize H c version b1 of Inl r \<Rightarrow> r
      | Inr b2 \<Rightarrow>
     (case connect_header H c b2 of Inl r \<Rightarrow> r
      | Inr (flags, client_id0, b3) \<Rightarrow>
          let (chain, canonical, client_id, b4) = connect_identity H c client_id0 b3 in
     (case connect_will H c flags b4 of Inl r \<Rightarrow> r
      | Inr (w, b5) \<Rightarrow>
          let clean = (flags AND 0x02 \<noteq> 0);
              (d, b6) = connect_session H c clean client_id b5
          in connect_finish H d (connect_register d clean chain canonical client_id w b6)))))"

section \<open>Dispatch\<close>

definition mqtt3_packet_handle :: "dxl_hooks \<Rightarrow> nat \<Rightarrow> broker \<Rightarrow> (int \<times> broker) option" where
  "mqtt3_packet_handle H c b =
     (let cmd = command (in_packet (ctxs b c)) AND 0xF0 in
      if cmd = PINGREQ then Some (handle_pingreq c b)
      else if cmd = PINGRESP then Some (handle_pingresp c b)
      else if cmd = PUBACK \<or> cmd = PUBCOMP then Some (handle_pubackcomp c b)
      else if cmd = PUBLISH then Some (mqtt3_handle_publish H c b)
      else if cmd = PUBREC then Some (handle_pubrec c b)
      else if cmd = PUBREL then handle_pubrel H c b
      else if cmd = CONNECT then Some (mqtt3_handle_connect H c b)
      else if cmd = DISCONNECT then Some (mqtt3_handle_disconnect H c b)
      else if cmd = SUBSCRIBE then Some (mqtt3_handle_subscribe H c b)
      else if cmd = UNSUBSCRIBE then Some (mqtt3_handle_unsubscribe c b)
      else if cmd = CONNACK then Some (mqtt3_handle_connack c b)
      else if cmd = SUBACK then Some (handle_suback c b)
      else if cmd = UNSUBACK then Some (handle_unsuback c b)
      else Some (MOSQ_ERR_PROTOCOL, b))"

end
