(* ===== verification/Queue_Machine.thy ===== *)
theory Queue_Machine
  imports Queue
begin

text \<open>
  The queue of one client as a state machine: the operations of database.c in any order, together
  with what the environment does between them (the clock advances, the connection comes and goes,
  the transport accepts bytes). The theorems bound the messages in flight and the length of the
  queue in every reachable state.
\<close>

section \<open>The in-flight window\<close>

definition counted :: "client_msg list \<Rightarrow> int" where
  "counted ms = int (length (filter (\<lambda>m. cm_qos m > 0) ms))"

definition in_flight :: "client_msg list \<Rightarrow> int" where
  "in_flight ms = int (length (filter (\<lambda>m. cm_qos m > 0 \<and> cm_state m \<noteq> mosq_ms_queued) ms))"

text \<open>\<open>window n ms\<close>: what is in flight is among the first \<open>n\<close> messages above QoS 0.\<close>

fun window :: "int \<Rightarrow> client_msg list \<Rightarrow> bool" where
  "window n [] = True"
| "window n (m # ms) =
     (if cm_qos m > 0 then (cm_state m \<noteq> mosq_ms_queued \<longrightarrow> n > 0) \<and> window (n - 1) ms else window n ms)"

lemma window_in_flight: "window n ms \<Longrightarrow> in_flight ms \<le> max n 0"
  by (induction n ms rule: window.induct) (auto simp: in_flight_def split: if_splits)

lemma window_append: "window n (ms @ ms') \<longleftrightarrow> window n ms \<and> window (n - counted ms) ms'"
  by (induction n ms rule: window.induct) (auto simp: counted_def algebra_simps)

lemma window_mono: "window n ms \<Longrightarrow> n \<le> k \<Longrightarrow> window k ms"
  by (induction n ms arbitrary: k rule: window.induct) auto

lemma counted_le: "counted ms \<le> int (length ms)"
  by (simp add: counted_def)

lemma counted_append: "counted (xs @ ys) = counted xs + counted ys"
  by (simp add: counted_def)

text \<open>A change of a message that does not put it in flight.\<close>

definition not_launched :: "client_msg \<Rightarrow> client_msg \<Rightarrow> bool" where
  "not_launched m m' \<longleftrightarrow> cm_qos m' = cm_qos m \<and> cm_direction m' = cm_direction m \<and>
     (cm_state m = mosq_ms_queued \<longrightarrow> cm_state m' = mosq_ms_queued)"

lemma window_not_launched: "list_all2 not_launched ms ms' \<Longrightarrow> window n ms \<Longrightarrow> window n ms'"
  by (induction ms ms' arbitrary: n rule: list_all2_induct) (auto simp: not_launched_def)

lemma counted_not_launched: "list_all2 not_launched ms ms' \<Longrightarrow> counted ms' = counted ms"
  by (induction ms ms' rule: list_all2_induct) (auto simp: not_launched_def counted_def)

definition outgoing :: "client_msg list \<Rightarrow> bool" where
  "outgoing ms \<longleftrightarrow> (\<forall>m \<in> set ms. cm_direction m = mosq_md_out)"

lemma outgoing_not_launched: "list_all2 not_launched ms ms' \<Longrightarrow> outgoing ms \<Longrightarrow> outgoing ms'"
  by (induction ms ms' rule: list_all2_induct) (auto simp: not_launched_def outgoing_def)

section \<open>Deletion and promotion\<close>

lemma window_promote:
  assumes "window n (xs @ m # ys)" and "int (length xs) + 1 = i"
  shows "window n (xs @ promote t n i m # ys)"
proof (cases "cm_state m = mosq_ms_queued \<and> i \<le> n")
  case True
  have "counted xs < n" using True assms(2) counted_le [of xs] by simp
  then show ?thesis using assms(1) True by (auto simp: window_append promote_def split: if_splits)
next
  case False
  then have "promote t n i m = m" by (auto simp: promote_def)
  then show ?thesis using assms(1) by simp
qed

lemma window_remove: "window n (xs @ m # ys) \<Longrightarrow> window n (xs @ ys)"
  by (auto simp: window_append split: if_splits intro: window_mono)

lemma promote_fields [simp]:
  "cm_direction (promote t n i m) = cm_direction m" "cm_qos (promote t n i m) = cm_qos m" "cm_mid (promote t n i m) = cm_mid m"
  by (simp_all add: promote_def)

lemma set_msgs_frame [simp]: "max_inflight (set_msgs c ms b) = max_inflight b" "max_queued (set_msgs c ms b) = max_queued b"
  by (simp_all add: set_msgs_def upd_ctx_def)

lemma message_remove_frame [simp]: "max_queued (message_remove c m b) = max_queued b"
  by (simp add: message_remove_def upd_ctx_def add_ref_def upd_store_def)

lemma message_delete_loop_window:
  assumes "p \<longrightarrow> window (max_inflight b) (before @ tail)" and "outgoing (before @ tail)" and "int (length before) = i"
  shows "\<exists>ms. msgs (ctxs (message_delete_loop c mid dir i d before tail b) c) = ms \<and> (p \<longrightarrow> window (max_inflight b) ms) \<and>
    outgoing ms \<and> counted ms \<le> counted (before @ tail)"
  using assms
proof (induction c mid dir i d before tail b rule: message_delete_loop.induct)
  case (1 c mid dir i d before b)
  then show ?case by simp
next
  case (2 c mid dir i d before m tail b)
  let ?m = "promote (now b) (max_inflight b) (i + 1) m"
  have w: "p \<longrightarrow> window (max_inflight b) (before @ ?m # tail)" "p \<longrightarrow> window (max_inflight b) (before @ tail)"
    using "2.prems" window_remove by (auto simp: window_promote)
  have o: "outgoing (before @ ?m # tail)" "outgoing (before @ tail)"
    using "2.prems"(2) by (simp_all add: outgoing_def)
  have k: "counted (before @ ?m # tail) = counted (before @ m # tail)" "counted (before @ tail) \<le> counted (before @ m # tail)"
    by (simp_all add: counted_def)
  show ?case
  proof (cases "cm_mid m = mid \<and> cm_direction m = dir")
    case True
    with "2.IH"(1) [OF refl refl _ refl] "2.prems"(3) w(2) o k show ?thesis
      by (auto simp: Let_def intro: order_trans)
  next
    case False
    with "2.IH"(2) [OF refl refl] "2.prems"(3) w(1) o k show ?thesis
      by (auto simp: Let_def)
  qed
qed

section \<open>The reset and the writer\<close>

lemma publish_queued_loop_window:
  assumes "window n (xs @ ms)" and "int (length xs) = i" and "n > 0"
  shows "window n (xs @ publish_queued_loop n i ms)"
  using assms
proof (induction n i ms arbitrary: xs rule: publish_queued_loop.induct)
  case (1 n i)
  then show ?case by simp
next
  case (2 n i m ms)
  let ?m = "if cm_state m = mosq_ms_queued then m\<lparr>cm_state := publish_state (cm_qos m) (cm_state m)\<rparr> else m"
  show ?case
  proof (cases "i < n")
    case True
    have "counted xs < n" using True "2.prems"(2) counted_le [of xs] by simp
    then have "window n ((xs @ [?m]) @ ms)"
      using "2.prems"(1) by (simp add: window_append)
    from "2.IH" [OF _ this] True "2.prems"(2,3) show ?thesis by simp
  next
    case False
    with "2.prems" show ?thesis by simp
  qed
qed

lemma reset_msg_not_launched: "list_all2 not_launched ms (map reset_msg ms)"
  by (simp add: list_all2_map2 list_all2_refl not_launched_def reset_msg_def reset_out_def)

lemma timeout_not_launched: "list_all2 not_launched ms (map (timeout_msg t l) ms)"
  by (simp add: list_all2_map2 list_all2_refl not_launched_def timeout_msg_def)

lemma publish_queued_loop_outgoing: "outgoing (publish_queued_loop n i ms) = outgoing ms"
  by (induction n i ms rule: publish_queued_loop.induct) (auto simp: outgoing_def)

lemma publish_queued_loop_counted: "counted (publish_queued_loop n i ms) = counted ms"
  by (induction n i ms rule: publish_queued_loop.induct) (auto simp: counted_def)

lemma message_write_step_next: "message_write_step c m b = (rc, nxt, b') \<Longrightarrow> nxt = after_write (now b) m"
  by (cases "cm_state m") (auto simp: message_write_step_def after_write_def Let_def split_beta)

lemma after_write_not_launched: "after_write t m = Some m' \<Longrightarrow> not_launched m m'"
  by (cases "cm_state m") (auto simp: after_write_def not_launched_def)

lemma not_launched1:
  "not_launched m m' \<Longrightarrow> list_all2 not_launched (xs @ m # ys) (xs @ m' # ys)"
  by (intro list_all2_appendI list_all2_refl) (simp_all add: not_launched_def list_all2_refl)

text \<open>\<open>shrinks p n ms ms'\<close>: the step from \<open>ms\<close> to \<open>ms'\<close> adds nothing and, if \<open>p\<close>, respects the window.\<close>

definition shrinks :: "bool \<Rightarrow> int \<Rightarrow> client_msg list \<Rightarrow> client_msg list \<Rightarrow> bool" where
  "shrinks p n ms ms' \<longleftrightarrow> (p \<longrightarrow> window n ms \<longrightarrow> window n ms') \<and> (outgoing ms \<longrightarrow> outgoing ms') \<and> counted ms' \<le> counted ms"

lemma shrinks_refl [simp]: "shrinks p n ms ms"
  by (simp add: shrinks_def)

lemma shrinks_trans: "shrinks p n a b \<Longrightarrow> shrinks p n b c \<Longrightarrow> shrinks p n a c"
  by (auto simp: shrinks_def)

lemma shrinks_not_launched: "list_all2 not_launched ms ms' \<Longrightarrow> shrinks p n ms ms'"
  by (simp add: shrinks_def window_not_launched outgoing_not_launched counted_not_launched)

lemma shrinks_remove: "shrinks p n (xs @ m # ys) (xs @ ys)"
  using window_remove [of n xs m ys] by (auto simp: shrinks_def outgoing_def counted_def)

lemma shrinks_write_step:
  assumes "message_write_step c m b = (rc, nxt, b')"
  shows "shrinks p n (xs @ m # ys) (xs @ (case nxt of None \<Rightarrow> [] | Some m' \<Rightarrow> [m']) @ ys)"
  using message_write_step_next [OF assms] shrinks_remove after_write_not_launched
  by (auto intro!: shrinks_not_launched not_launched1 split: option.splits)

lemma shrinks_delete:
  "(p \<longrightarrow> window (max_inflight b) (msgs (ctxs b c))) \<Longrightarrow> outgoing (msgs (ctxs b c)) \<Longrightarrow>
   shrinks p (max_inflight b) (msgs (ctxs b c)) (msgs (ctxs (snd (mqtt3_db_message_delete c mid dir b)) c))"
  using message_delete_loop_window [of p b "[]" "msgs (ctxs b c)" 0 c mid dir False]
  by (auto simp: mqtt3_db_message_delete_def shrinks_def)

lemma message_write_loop_out:
  assumes "cm_direction m = mosq_md_out" and "cm_state m \<noteq> mosq_ms_queued" and "message_write_step c m b = (rc, nxt, b1)"
  shows "message_write_loop c n before (m # rest) b =
    (if rc \<noteq> MOSQ_ERR_SUCCESS then Some (rc, set_msgs c (before @ m # rest) b1)
     else message_write_loop c n (before @ (case nxt of None \<Rightarrow> [] | Some m' \<Rightarrow> [m'])) rest b1)"
  using assms by (subst message_write_loop.simps) (simp add: Let_def split: option.split)

lemma shrinks_write_loop:
  assumes "message_write_loop c n before tail b = Some r" and "outgoing tail"
  shows "shrinks p k (before @ tail) (msgs (ctxs (snd r) c))"
  using assms
proof (induction tail arbitrary: n before b)
  case Nil
  then have "r = (MOSQ_ERR_SUCCESS, set_msgs c before b)" by (subst (asm) message_write_loop.simps) simp
  then show ?case by simp
next
  case (Cons m rest)
  have dir: "cm_direction m = mosq_md_out" and o: "outgoing rest" using Cons.prems(2) by (simp_all add: outgoing_def)
  show ?case
  proof (cases "cm_state m = mosq_ms_queued")
    case True
    then have "message_write_loop c n (before @ [m]) rest b = Some r"
      using Cons.prems(1) dir by (subst (asm) message_write_loop.simps) simp
    from Cons.IH [OF this o] show ?thesis by simp
  next
    case False
    obtain rc nxt b1 where s: "message_write_step c m b = (rc, nxt, b1)" by (metis prod_cases3)
    consider "r = (rc, set_msgs c (before @ m # rest) b1)"
      | "message_write_loop c n (before @ (case nxt of None \<Rightarrow> [] | Some m' \<Rightarrow> [m'])) rest b1 = Some r"
      using Cons.prems(1) message_write_loop_out [OF dir False s, of n before rest] by (cases "rc = 0") simp_all
    then show ?thesis
    proof cases
      case 1
      then show ?thesis by simp
    next
      case 2
      from Cons.IH [OF 2 o] shrinks_write_step [OF s, of p k before rest] show ?thesis
        by (auto intro: shrinks_trans)
    qed
  qed
qed

lemma reconnect_reset_window:
  assumes "queue_ok (ctxs b c)" and "outgoing (msgs (ctxs b c))" and "max_inflight b > 0"
  shows "shrinks p (max_inflight b) (msgs (ctxs b c)) (msgs (ctxs (snd (mqtt3_db_message_reconnect_reset c b)) c))"
proof -
  have "incoming_qos2 (msgs (ctxs b c))" using assms(2) by (simp add: outgoing_def incoming_qos2_def)
  then have eq: "msgs (ctxs (snd (mqtt3_db_message_reconnect_reset c b)) c) =
      publish_queued_loop (max_inflight b) 0 (map reset_msg (msgs (ctxs b c)))"
    using assms(1) by (simp add: reconnect_reset_eq)
  have "shrinks p (max_inflight b) ms (publish_queued_loop (max_inflight b) 0 ms)" for ms
    using publish_queued_loop_window [of "max_inflight b" "[]" ms 0] assms(3)
    by (simp add: shrinks_def publish_queued_loop_outgoing publish_queued_loop_counted)
  with shrinks_not_launched [OF reset_msg_not_launched] show ?thesis
    unfolding eq by (blast intro: shrinks_trans)
qed

section \<open>Insertion\<close>

lemma insert_decision_append:
  "msgs (ctxs (snd (insert_allowed H c mid dir qos retain q st rc b)) c) = msgs (ctxs b c) \<or>
   (\<exists>m. msgs (ctxs (snd (insert_allowed H c mid dir qos retain q st rc b)) c) = msgs (ctxs b c) @ [m] \<and>
     cm_state m = st \<and> cm_qos m = qos \<and> cm_direction m = dir \<and> cm_mid m = mid \<and> cm_store m = q)"
  by (auto simp: insert_allowed_def Let_def append_msg_def upd_ctx_def log_dxl_def add_ref_def upd_store_def
      mosquitto_add_new_msgs_set_def lazy_bridge_check_def split: prod.splits option.splits)

lemma message_admit_log [simp]: "message_admit (log_dxl e b) x dir qos = message_admit b x dir qos"
  unfolding message_admit_def log_dxl_def by simp

lemma message_insert_append:
  "msgs (ctxs (snd (mqtt3_db_message_insert H c mid dir qos retain q b)) c) = msgs (ctxs b c) \<or>
   (\<exists>m st rc. message_admit b (ctxs b c) dir qos = Accept st rc \<and> st \<noteq> mosq_ms_invalid \<and>
     msgs (ctxs (snd (mqtt3_db_message_insert H c mid dir qos retain q b)) c) = msgs (ctxs b c) @ [m] \<and>
     cm_state m = st \<and> cm_qos m = qos \<and> cm_direction m = dir \<and> cm_mid m = mid \<and> cm_store m = q)"
proof -
  let ?b1 = "if packet_queue_exceeded b (ctxs b c)
    then log_dxl (dxl_packet_queue_exceeded c (db_id (deref_store b q))) b else b"
  have b1: "ctxs ?b1 = ctxs b" "message_admit ?b1 x dir qos = message_admit b x dir qos" for x
    by simp_all (simp add: log_dxl_def)
  show ?thesis
    using insert_decision_append [of H c mid dir qos retain q _ _ ?b1] b1
    unfolding mqtt3_db_message_insert_def Let_def
    by (cases "message_admit b (ctxs b c) dir qos") (auto simp: upd_ctx_def)
qed

lemma admit_window:
  assumes "message_admit b x dir qos = Accept st rc" and "queue_ok x" and "max_inflight b > 0"
    and "window (max_inflight b) (msgs x)" and "cm_state m = st" and "cm_qos m = qos"
  shows "window (max_inflight b) (msgs x @ [m])"
  using assms by (auto simp: message_admit_def queue_ok_def window_append counted_def split: if_splits)

lemma admit_bound:
  assumes "message_admit b x dir qos = Accept st rc" and "queue_ok x" and "max_inflight b > 0" and "max_queued b > 0"
    and "counted (msgs x) \<le> max_inflight b + max_queued b" and "cm_qos m = qos"
  shows "counted (msgs x @ [m]) \<le> max_inflight b + max_queued b"
  using assms by (auto simp: message_admit_def queue_ok_def counted_def split: if_splits)

section \<open>The machine\<close>

text \<open>The flag \<open>p\<close> says that the client is well-behaved: it acknowledges only what was sent to it. A client that is not may
  send a PUBREC for a message that still waits in the queue, which the handler does not check: the message is then
  in flight, above the limit.\<close>

inductive queue_step :: "bool \<Rightarrow> dxl_hooks \<Rightarrow> nat \<Rightarrow> broker \<Rightarrow> broker \<Rightarrow> bool" for p H c where
  qs_insert: "q \<in> set (store_ptrs b) \<Longrightarrow>
     queue_step p H c b (snd (mqtt3_db_message_insert H c mid mosq_md_out qos retain q b))"
| qs_delete: "queue_step p H c b (snd (mqtt3_db_message_delete c mid dir b))"
| qs_update: "p \<longrightarrow> (\<forall>m \<in> set (msgs (ctxs b c)). cm_mid m = mid \<and> cm_direction m = dir \<longrightarrow> cm_state m \<noteq> mosq_ms_queued) \<Longrightarrow>
     queue_step p H c b (snd (mqtt3_db_message_update c mid dir st b))"
| qs_timeout: "queue_step p H c b (snd (mqtt3_db_message_timeout_check c n b))"
| qs_reset: "queue_step p H c b (snd (mqtt3_db_message_reconnect_reset c b))"
| qs_clear: "queue_step p H c b (snd (mqtt3_db_messages_delete c b))"
| qs_write: "mqtt3_db_message_write c b = Some (rc, b') \<Longrightarrow> queue_step p H c b b'"
| qs_environment: "acct b b' \<Longrightarrow> max_inflight b' = max_inflight b \<Longrightarrow> max_queued b' = max_queued b \<Longrightarrow> queue_step p H c b b'"

inductive_cases queue_stepE: "queue_step p H c b b'"

definition machine_inv :: "bool \<Rightarrow> nat \<Rightarrow> broker \<Rightarrow> bool" where
  "machine_inv p c b \<longleftrightarrow> queues_ok b \<and> c < next_ptr b \<and> outgoing (msgs (ctxs b c)) \<and> max_inflight b > 0 \<and>
     (p \<longrightarrow> window (max_inflight b) (msgs (ctxs b c))) \<and>
     (max_queued b > 0 \<longrightarrow> counted (msgs (ctxs b c)) \<le> max_inflight b + max_queued b)"

definition same_limits :: "broker \<Rightarrow> broker \<Rightarrow> bool" where
  "same_limits b b' \<longleftrightarrow> max_inflight b' = max_inflight b \<and> max_queued b' = max_queued b \<and> next_ptr b' = next_ptr b"

lemma same_limits_trans: "same_limits a b \<Longrightarrow> same_limits b c \<Longrightarrow> same_limits a c"
  by (simp add: same_limits_def)

lemma same_limits_prims [simp]:
  "same_limits b b" "same_limits b (upd_ctx c f b)" "same_limits b (set_msgs c ms b)" "same_limits b (message_remove c m b)"
  "same_limits b (log_dxl e b)" "same_limits b (upd_store q g b)" "same_limits b (append_msg c m b)"
  "same_limits b (mosquitto_add_new_msgs_set c b)" "same_limits b (snd (with_ctx c h b))" "same_limits b (drop_refs ms b)"
proof -
  show "same_limits b (drop_refs ms b)"
    by (induction ms b rule: drop_refs.induct) (auto simp: same_limits_def add_ref_def upd_store_def)
qed (simp_all add: same_limits_def upd_ctx_def set_msgs_def message_remove_def add_ref_def upd_store_def log_dxl_def
      append_msg_def mosquitto_add_new_msgs_set_def with_ctx_def split: prod.splits)

lemma same_limits_insert: "same_limits b (snd (mqtt3_db_message_insert H c mid dir qos retain q b))"
proof -
  have "same_limits b (snd (insert_allowed H c mid dir qos retain q st rc b))" for st rc b
    unfolding insert_allowed_def Let_def
    by (simp split: prod.split option.split) (meson same_limits_prims same_limits_trans)
  moreover have "same_limits b (b\<lparr>assert_violated := True\<rparr>)" for b by (simp add: same_limits_def)
  ultimately show ?thesis
    unfolding mqtt3_db_message_insert_def Let_def
    by (simp split: insert_decision.split) (meson same_limits_prims same_limits_trans)
qed

lemma same_limits_delete: "same_limits b (snd (mqtt3_db_message_delete c mid dir b))"
proof -
  have "same_limits b (message_delete_loop c mid dir i d before tail b)" for i d before tail
    by (induction c mid dir i d before tail b rule: message_delete_loop.induct)
      (auto simp: Let_def, (meson same_limits_prims same_limits_trans)+)
  then show ?thesis by (simp add: mqtt3_db_message_delete_def)
qed

lemma same_limits_step: "message_write_step c m b = (rc, nxt, b') \<Longrightarrow> same_limits b b'"
proof -
  have "same_limits b (snd (send_stored c m b))"
    unfolding send_stored_def Let_def by (simp split: option.split) (simp add: same_limits_def)
  then show "message_write_step c m b = (rc, nxt, b') \<Longrightarrow> same_limits b b'"
    by (cases "cm_state m")
      (auto simp: message_write_step_def Let_def split_beta intro: same_limits_trans [OF _ same_limits_prims(4)])
qed

text \<open>A relation that the single steps satisfy holds across the loop.\<close>

lemma write_loop_rel:
  assumes "message_write_loop c n before tail b = Some r" and "outgoing tail"
    and trans: "\<And>a b d. R a b \<Longrightarrow> R b d \<Longrightarrow> R a d" and set: "\<And>b ms. R b (set_msgs c ms b)"
    and step: "\<And>m b rc nxt b'. message_write_step c m b = (rc, nxt, b') \<Longrightarrow> R b b'"
  shows "R b (snd r)"
  using assms(1,2)
proof (induction tail arbitrary: n before b)
  case Nil
  then show ?case using set by (subst (asm) message_write_loop.simps) auto
next
  case (Cons m rest)
  have dir: "cm_direction m = mosq_md_out" and o: "outgoing rest" using Cons.prems(2) by (simp_all add: outgoing_def)
  show ?case
  proof (cases "cm_state m = mosq_ms_queued")
    case True
    then have "message_write_loop c n (before @ [m]) rest b = Some r"
      using Cons.prems(1) dir by (subst (asm) message_write_loop.simps) simp
    from Cons.IH [OF this o] show ?thesis .
  next
    case False
    obtain rc nxt b1 where s: "message_write_step c m b = (rc, nxt, b1)" by (metis prod_cases3)
    note l = message_write_loop_out [OF dir False s, of n before rest]
    show ?thesis
    proof (cases "rc = MOSQ_ERR_SUCCESS")
      case True
      then have "message_write_loop c n (before @ (case nxt of None \<Rightarrow> [] | Some m' \<Rightarrow> [m'])) rest b1 = Some r"
        using l Cons.prems(1) by simp
      from Cons.IH [OF this o] step [OF s] show ?thesis by (blast intro: trans)
    next
      case rc: False
      then have "snd r = set_msgs c (before @ m # rest) b1" using l Cons.prems(1) by auto
      then show ?thesis using step [OF s] set by (metis trans)
    qed
  qed
qed

lemma same_limits_write_loop:
  assumes "message_write_loop c n before tail b = Some r" and "outgoing tail"
  shows "same_limits b (snd r)"
  by (rule write_loop_rel [OF assms, where R = same_limits]) (auto intro: same_limits_trans same_limits_step)

lemma message_update_not_launched:
  assumes "\<forall>m \<in> set ms. cm_mid m = mid \<and> cm_direction m = dir \<longrightarrow> cm_state m \<noteq> mosq_ms_queued"
  shows "list_all2 not_launched ms (snd (message_update_loop t mid dir st ms))"
  using assms
  by (induction t mid dir st ms rule: message_update_loop.induct)
    (auto simp: not_launched_def list_all2_refl split: prod.splits)

lemma message_update_shrinks:
  assumes "p \<longrightarrow> (\<forall>m \<in> set ms. cm_mid m = mid \<and> cm_direction m = dir \<longrightarrow> cm_state m \<noteq> mosq_ms_queued)"
  shows "shrinks p n ms (snd (message_update_loop t mid dir st ms))"
proof (cases p)
  case True
  then show ?thesis using assms by (intro shrinks_not_launched message_update_not_launched) blast
next
  case False
  have "outgoing (snd (message_update_loop t mid dir st ms)) = outgoing ms \<and> counted (snd (message_update_loop t mid dir st ms)) = counted ms"
    by (induction t mid dir st ms rule: message_update_loop.induct) (auto simp: outgoing_def counted_def split: prod.splits)
  then show ?thesis using False by (simp add: shrinks_def)
qed

lemma machine_inv_shrinks:
  assumes "machine_inv p c b" and "same_limits b b'" and "queues_ok b'"
    and "shrinks p (max_inflight b) (msgs (ctxs b c)) (msgs (ctxs b' c))"
  shows "machine_inv p c b'"
  using assms by (auto simp: machine_inv_def same_limits_def shrinks_def)

lemma machine_inv_queues_ok: "machine_inv p c b \<Longrightarrow> queues_ok b"
  by (simp add: machine_inv_def)

lemma machine_inv_set_msgs:
  "machine_inv p c b \<Longrightarrow> queues_ok (set_msgs c ms b) \<Longrightarrow> shrinks p (max_inflight b) (msgs (ctxs b c)) ms \<Longrightarrow>
     machine_inv p c (set_msgs c ms b)"
  by (rule machine_inv_shrinks) simp_all

lemma shrinks_nil: "shrinks p n ms []"
  by (simp add: shrinks_def outgoing_def counted_def)

lemma machine_inv_insert:
  assumes "machine_inv p c b" and "q \<in> set (store_ptrs b)"
  shows "machine_inv p c (snd (mqtt3_db_message_insert H c mid mosq_md_out qos retain q b))"
proof -
  let ?b' = "snd (mqtt3_db_message_insert H c mid mosq_md_out qos retain q b)"
  have inv: "queues_ok b" "c < next_ptr b" "queue_ok (ctxs b c)" "max_inflight b > 0"
    using assms(1) by (simp_all add: machine_inv_def queues_ok_def)
  have ok: "queues_ok ?b'" using message_insert_ok [OF inv(1,2) assms(2)] .
  note lim = same_limits_insert [of b H c mid mosq_md_out qos retain q]
  from message_insert_append [of H c mid mosq_md_out qos retain q b]
  consider "msgs (ctxs ?b' c) = msgs (ctxs b c)"
    | m st rc where "message_admit b (ctxs b c) mosq_md_out qos = Accept st rc"
        "msgs (ctxs ?b' c) = msgs (ctxs b c) @ [m]" "cm_state m = st" "cm_qos m = qos" "cm_direction m = mosq_md_out"
    by blast
  then show ?thesis
  proof cases
    case 1
    then show ?thesis using machine_inv_shrinks [OF assms(1) lim ok] by simp
  next
    case (2 m st rc)
    with assms(1) ok lim inv admit_window [OF 2(1) inv(3,4) _ 2(3,4)] admit_bound [OF 2(1) inv(3,4) _ _ 2(4)]
    show ?thesis by (auto simp: machine_inv_def same_limits_def outgoing_def)
  qed
qed

lemma machine_inv_step: "queue_step p H c b b' \<Longrightarrow> machine_inv p c b \<Longrightarrow> machine_inv p c b'"
proof (induction rule: queue_step.induct)
  case (qs_insert q b mid qos retain)
  then show ?case by (simp add: machine_inv_insert)
next
  case (qs_delete b mid dir)
  then have "queues_ok (snd (mqtt3_db_message_delete c mid dir b))"
    using message_delete_ok by (simp add: machine_inv_def)
  moreover have "shrinks p (max_inflight b) (msgs (ctxs b c)) (msgs (ctxs (snd (mqtt3_db_message_delete c mid dir b)) c))"
    using qs_delete shrinks_delete by (simp add: machine_inv_def)
  ultimately show ?case using machine_inv_shrinks [OF qs_delete same_limits_delete] by blast
next
  case (qs_update b mid dir st)
  have "snd (mqtt3_db_message_update c mid dir st b) =
      set_msgs c (snd (message_update_loop (now b) mid dir st (msgs (ctxs b c)))) b"
    by (simp add: mqtt3_db_message_update_def split_beta)
  with message_update_shrinks [OF qs_update(1)]
    message_update_ok [OF machine_inv_queues_ok [OF qs_update(2)], of c mid dir st]
  show ?case using machine_inv_set_msgs [OF qs_update(2)] by simp
next
  case (qs_timeout b n)
  from shrinks_not_launched [OF timeout_not_launched] timeout_check_ok [OF machine_inv_queues_ok [OF this], of c n]
    machine_inv_set_msgs [OF this] show ?case
    by (simp add: mqtt3_db_message_timeout_check_def)
next
  case (qs_reset b)
  have "incoming_qos2 (msgs (ctxs b c))" "queue_ok (ctxs b c)"
    using qs_reset by (simp_all add: machine_inv_def queues_ok_def outgoing_def incoming_qos2_def)
  then have "same_limits b (snd (mqtt3_db_message_reconnect_reset c b))"
    by (simp add: reconnect_reset_eq) (meson same_limits_prims same_limits_trans)
  with qs_reset reconnect_reset_ok [of b c] reconnect_reset_window [of b c] \<open>queue_ok (ctxs b c)\<close>
    \<open>incoming_qos2 (msgs (ctxs b c))\<close> show ?case
    by (intro machine_inv_shrinks [OF qs_reset]) (simp_all add: machine_inv_def)
next
  case (qs_clear b)
  have "same_limits b (snd (mqtt3_db_messages_delete c b))"
    by (simp add: mqtt3_db_messages_delete_def) (meson same_limits_prims same_limits_trans)
  moreover have "queues_ok (snd (mqtt3_db_messages_delete c b))"
    using qs_clear messages_delete_ok by (simp add: machine_inv_def)
  moreover have "msgs (ctxs (snd (mqtt3_db_messages_delete c b)) c) = []"
    by (simp add: mqtt3_db_messages_delete_def upd_ctx_def)
  ultimately show ?case using machine_inv_shrinks [OF qs_clear] shrinks_nil by metis
next
  case (qs_write b rc b')
  have q: "queues_ok b'" using message_write_ok [OF _ qs_write(1)] qs_write(2) by (simp add: machine_inv_def)
  show ?case
  proof (cases "b' = b")
    case True
    then show ?thesis using qs_write by simp
  next
    case False
    then have "message_write_loop c 0 [] (msgs (ctxs b c)) b = Some (rc, b')"
      using qs_write(1) by (simp add: mqtt3_db_message_write_def Let_def split: if_splits)
    then show ?thesis
      using q qs_write(2) same_limits_write_loop shrinks_write_loop
      by (intro machine_inv_shrinks [OF qs_write(2)]) (fastforce simp: machine_inv_def)+
  qed
next
  case (qs_environment b b')
  then have "queues_ok b'" using acct_queues_ok by (simp add: machine_inv_def)
  with qs_environment show ?case by (intro machine_inv_shrinks [OF qs_environment(4)]) (simp_all add: acct_def same_limits_def)
qed

lemma machine_inv_reachable: "(queue_step p H c)\<^sup>*\<^sup>* b b' \<Longrightarrow> machine_inv p c b \<Longrightarrow> machine_inv p c b'"
  by (induction rule: rtranclp_induct) (auto intro: machine_inv_step)

section \<open>Properties\<close>


lemma sample_machine_inv: "machine_inv p 0 sample_broker"
proof -
  have "refs sample_broker q = 0" for q
    by (simp add: refs_def sample_broker_def zero_broker_def zero_context_def)
  moreover have "ref_of sample_broker q = 0" for q
    by (simp add: ref_of_def stored_msg_def sample_broker_def sample_store_def)
  ultimately have "store_ok sample_broker"
    by (simp add: store_ok_def) (simp add: store_ptrs_def sample_broker_def sample_store_def zero_broker_def zero_context_def)
  then show ?thesis
    by (simp add: machine_inv_def queues_ok_def queue_ok_def outgoing_def counted_def sample_broker_def zero_broker_def zero_context_def)
qed


text \<open>C34. The writer returns: with an in-flight limit, or as long as the incoming messages it keeps
  are QoS 2, \<^verbatim>\<open>mqtt3_db_message_write\<close> ends.\<close>

theorem message_write_returns:
  assumes "max_inflight b \<noteq> 0 \<or> incoming_qos2 (msgs (ctxs b c))"
  shows "\<exists>rc b'. mqtt3_db_message_write c b = Some (rc, b')"
  using message_write_loop_returns [OF assms, of c 0 "[]"] by (auto simp: mqtt3_db_message_write_def Let_def)

theorem message_write_returns_witness: "\<exists>rc b'. mqtt3_db_message_write 0 sample_broker = Some (rc, b')"
  by (rule message_write_returns) (simp add: sample_broker_def)

text \<open>C3. A successful run of the writer on a queue of outgoing messages sends every message that is
  due, in queue order and each as one complete packet, and nothing else; it removes the QoS 0
  messages and moves the others to the state that waits for the acknowledgement.\<close>

theorem message_write_sends_in_order:
  assumes "online (ctxs b c)" and "outgoing (msgs (ctxs b c))"
    and "\<forall>m \<in> set (msgs (ctxs b c)). publishing m \<longrightarrow> publishable b m"
    and "mqtt3_db_message_write c b = Some (MOSQ_ERR_SUCCESS, b')"
  shows "stream (ctxs b' c) = stream (ctxs b c) @ concat (map (wire_of b) (msgs (ctxs b c))) \<and>
    msgs (ctxs b' c) = List.map_filter (after_write (now b)) (msgs (ctxs b c))"
  using message_write_loop_fifo [OF assms(1) _ assms(3), of 0 "[]" b'] assms(2,4)
  by (auto simp: mqtt3_db_message_write_def Let_def outgoing_def split: if_splits)

text \<open>On a WebSocket a packet is only queued, so a sender succeeds whatever the transport does.\<close>

lemma send_real_publish_ws:
  assumes "wsi mosq" and "length (publish_body topic mid qos pl) < 2 ^ 28"
  shows "fst (send_real_publish t mosq mid topic pl qos retain dup) = MOSQ_ERR_SUCCESS"
proof -
  have u: "u32 (2 + length topic + length pl + (if qos > 0 then 2 else 0)) = length (publish_body topic mid qos pl)"
    using assms(2) by (simp add: length_publish_body)
  obtain p where p: "packet_alloc ((new_packet (wsi mosq) (publish_command dup qos retain)
      (length (publish_body topic mid qos pl)))\<lparr>pkt_mid := mid\<rparr>) = (MOSQ_ERR_SUCCESS, p)"
    using building_alloc(2) [OF assms(2)] by blast
  show ?thesis
    using assms(1) unfolding send_real_publish_def Let_def u p by (simp add: packet_queue_def Let_def)
qed

definition sample_msg :: client_msg where
  "sample_msg = \<lparr>cm_store = 1, cm_mid = 0, cm_qos = 0, cm_retain = False, cm_timestamp = 0,
     cm_direction = mosq_md_out, cm_state = mosq_ms_publish_qos0, cm_dup = False, cm_client_message = False\<rparr>"

text \<open>The sample client on a WebSocket, with the stored message due at QoS 0.\<close>

definition sample_online :: broker where
  "sample_online = sample_broker\<lparr>ctxs := (ctxs sample_broker)(0 := zero_context\<lparr>wsi := True, msgs := [sample_msg]\<rparr>)\<rparr>"

lemma sample_write: "\<exists>b'. mqtt3_db_message_write 0 sample_online = Some (MOSQ_ERR_SUCCESS, b')"
proof -
  obtain rc nxt b1 where s: "message_write_step 0 sample_msg sample_online = (rc, nxt, b1)" by (metis prod_cases3)
  have "fst (send_publish 0 (ctxs sample_online 0) 0 ''a'' [1, 2] 0 False False) = MOSQ_ERR_SUCCESS"
    by (simp add: send_publish_def sample_online_def zero_context_def IS_CONTEXT_INVALID_def)
      (rule send_real_publish_ws, simp_all add: length_publish_body)
  then have "fst (send_stored 0 sample_msg sample_online) = MOSQ_ERR_SUCCESS"
    by (simp add: send_stored_def deref_store_def stored_msg_def sample_online_def sample_broker_def sample_store_def
        sample_msg_def zero_broker_def)
  then have "rc = MOSQ_ERR_SUCCESS"
    using s by (simp add: message_write_step_def sample_msg_def Let_def split_beta)
  then have "message_write_loop 0 0 [] [sample_msg] sample_online =
      message_write_loop 0 0 (case nxt of None \<Rightarrow> [] | Some m' \<Rightarrow> [m']) [] b1"
    using message_write_loop_out [OF _ _ s, of 0 "[]" "[]"] by (simp add: sample_msg_def)
  then show ?thesis
    by (simp add: mqtt3_db_message_write_def message_write_loop.simps [of 0 0 _ "[]"] IS_CONTEXT_INVALID_def)
      (simp add: sample_online_def zero_context_def)
qed

theorem message_write_sends_in_order_witness:
  "\<exists>b'. mqtt3_db_message_write 0 sample_online = Some (MOSQ_ERR_SUCCESS, b') \<and>
     stream (ctxs b' 0) = mqtt_packet PUBLISH (mqtt_string (bytes_of_string ''a'') @ [1, 2]) \<and> msgs (ctxs b' 0) = []"
proof -
  obtain b' where w: "mqtt3_db_message_write 0 sample_online = Some (MOSQ_ERR_SUCCESS, b')" using sample_write by blast
  note defs = sample_online_def zero_context_def sample_msg_def
  have o: "online (ctxs sample_online 0)" "outgoing (msgs (ctxs sample_online 0))"
    by (simp_all add: online_def outgoing_def IS_CONTEXT_INVALID_def no_remap_def out_queue_ok_def queued_packets_def defs)
  have st: "stored_topic sample_online sample_msg = Some ''a''" "stored_payload sample_online sample_msg = [1, 2]"
    by (simp_all add: stored_topic_def stored_payload_def deref_store_def stored_msg_def sample_online_def
        sample_broker_def sample_store_def sample_msg_def)
  have "publishable sample_online sample_msg"
    by (simp add: publishable_def st length_publish_body)
  then have p: "\<forall>m \<in> set (msgs (ctxs sample_online 0)). publishing m \<longrightarrow> publishable sample_online m"
    by (simp add: sample_online_def)
  have ms: "msgs (ctxs sample_online 0) = [sample_msg]" "stream (ctxs sample_online 0) = []"
    by (simp_all add: stream_def queued_packets_def sample_online_def zero_context_def)
  have "publish_bytes sample_online sample_msg = mqtt_packet PUBLISH (mqtt_string (bytes_of_string ''a'') @ [1, 2])"
    unfolding publish_bytes_def st by (simp add: sample_msg_def publish_command_def publish_body_def)
  moreover have "cm_state sample_msg = mosq_ms_publish_qos0" by (simp add: sample_msg_def)
  ultimately have "wire_of sample_online sample_msg = mqtt_packet PUBLISH (mqtt_string (bytes_of_string ''a'') @ [1, 2])"
    by (simp add: wire_of_def)
  moreover have "after_write (now sample_online) sample_msg = None" by (simp add: after_write_def sample_msg_def)
  ultimately show ?thesis
    using w message_write_sends_in_order [OF o p w] by (simp add: ms List.map_filter_simps)
qed

text \<open>The state in which a message at place \<open>i\<close> of an outgoing queue leaves a reconnection with the in-flight limit
  \<open>n\<close>: a queued message behind the limit stays queued; a QoS 2 message that waits for its PUBCOMP is due as a
  PUBREL; every other one is due as a PUBLISH of its QoS.\<close>

definition due_again :: "int \<Rightarrow> nat \<Rightarrow> client_msg \<Rightarrow> msg_state" where
  "due_again n i m =
     (if cm_state m = mosq_ms_queued \<and> n \<noteq> 0 \<and> n \<le> int i then mosq_ms_queued
      else if cm_qos m = 2 \<and> cm_state m = mosq_ms_wait_for_pubcomp then mosq_ms_resend_pubrel
      else if cm_qos m = 0 then mosq_ms_publish_qos0
      else if cm_qos m = 1 then mosq_ms_publish_qos1
      else mosq_ms_publish_qos2)"

lemma publish_queued_loop_length [simp]: "length (publish_queued_loop n k ms) = length ms"
  by (induction n k ms rule: publish_queued_loop.induct) auto

lemma publish_queued_loop_nth: "i < length ms \<Longrightarrow> publish_queued_loop n k ms ! i =
    (if cm_state (ms ! i) = mosq_ms_queued \<and> (n = 0 \<or> k + int i < n)
     then (ms ! i)\<lparr>cm_state := publish_state (cm_qos (ms ! i)) mosq_ms_queued\<rparr> else ms ! i)"
proof (induction ms arbitrary: i k)
  case (Cons m ms)
  then show ?case by (cases i) (auto simp: algebra_simps)
qed simp



text \<open>A PUBREL that is due but not sent when the client reconnects once more is forgotten: the message, which
  the client has already taken over, is published again.\<close>

lemma second_reset_forgets_pubrel:
  assumes "queue_ok (ctxs b c)" and "msgs (ctxs b c) = [m]" and "cm_direction m = mosq_md_out" and "cm_qos m = 2" and "cm_state m = mosq_ms_resend_pubrel"
  shows "msgs (ctxs (snd (mqtt3_db_message_reconnect_reset c b)) c) = [m\<lparr>cm_state := mosq_ms_publish_qos2\<rparr>]"
  using assms by (simp add: mqtt3_db_message_reconnect_reset_def reset_out_def upd_ctx_def set_msgs_def publish_state_def)

text \<open>The second loop of the reset does not look at the direction: an incoming QoS 2 message that was
  put in the queue because the window was full comes out of the reset as a message to be published to
  the client that sent it.\<close>

lemma reconnect_reset_echoes_incoming:
  assumes "msgs (ctxs b c) = [m]" and "cm_direction m = mosq_md_in" and "cm_qos m = 2" and "cm_state m = mosq_ms_queued"
    and "max_inflight b \<ge> 0"
  shows "msgs (ctxs (snd (mqtt3_db_message_reconnect_reset c b)) c) = [m\<lparr>cm_state := mosq_ms_publish_qos2\<rparr>]"
  using assms
  by (simp add: mqtt3_db_message_reconnect_reset_def upd_ctx_def set_msgs_def publish_state_def)

end
