(* ===== verification/Database_Inv.thy ===== *)
theory Database_Inv
  imports Handlers Queue_Machine
begin

text \<open>
  The invariant of the whole database, and the operations of database.c and context.c that keep it:
  the queues and reference counts are exact, the subscription tree is well formed, every context in a
  slot knows its slot, every subscription belongs to a context in a slot, no message is queued as
  incoming, no will is retained, the bridges are well formed, and the sets of contexts that the main loop walks hold only contexts
  in slots. The operations are composed through \<open>keeps\<close>: from a good state to a good state, with
  the same slots, without losing a stored message and without a new client or bridge.
\<close>

section \<open>The invariant\<close>

definition live :: "broker \<Rightarrow> nat \<Rightarrow> bool" where
  "live b c \<longleftrightarrow> Some c \<in> set (contexts b)"

definition slots_ok :: "broker \<Rightarrow> bool" where
  "slots_ok b \<longleftrightarrow> (\<forall>i < length (contexts b). \<forall>c. contexts b ! i = Some c \<longrightarrow>
     numericId (ctxs b c) = i \<and> db_index (ctxs b c) = i \<and> c < next_ptr b)"

definition leaves_live :: "broker \<Rightarrow> bool" where
  "leaves_live b \<longleftrightarrow> (\<forall>p. \<forall>l \<in> set (subs_at b p). live b (leaf_context l))"

definition outgoing_only :: "broker \<Rightarrow> bool" where
  "outgoing_only b \<longleftrightarrow> (\<forall>c. outgoing (msgs (ctxs b c)))"

definition wills_ok :: "broker \<Rightarrow> bool" where
  "wills_ok b \<longleftrightarrow> (\<forall>c w. will (ctxs b c) = Some w \<longrightarrow> \<not> mm_retain w)"

text \<open>The sets of the main loop hold no context twice and none that has been freed; a context with
  pending bytes is marked, and the arrival of new clients is announced.\<close>

definition sets_ok :: "broker \<Rightarrow> bool" where
  "sets_ok b \<longleftrightarrow> (\<forall>c \<in> set (new_msgs_hash b) \<union> set (new_clients_hash b) \<union> set (pending_bytes_hash b). live b c) \<and>
     distinct (new_msgs_hash b) \<and> distinct (new_clients_hash b) \<and> distinct (pending_bytes_hash b) \<and>
     (\<forall>c \<in> set (pending_bytes_hash b). pending_bytes (ctxs b c)) \<and> (new_clients_hash b = [] \<or> new_client b)"

text \<open>The outgoing topics of a bridge are filters the tree accepts, and its current addresses are in
  its list of addresses.\<close>

definition bridge_ok :: "mqtt3_bridge \<Rightarrow> bool" where
  "bridge_ok br \<longleftrightarrow> (\<forall>t \<in> set (topics br). bt_direction t \<noteq> bd_in \<longrightarrow> pound_last (tokens (local_topic t))) \<and>
     cur_address br < length (addresses br) \<and> cur_primary_address br < length (addresses br) \<and>
     primary_address_count br \<le> length (addresses br)"

lemma bridge_ok_updates [simp]:
  "bridge_ok (br\<lparr>lazy_reconnect := l\<rparr>) = bridge_ok br" "bridge_ok (br\<lparr>restart_t := t\<rparr>) = bridge_ok br"
  "bridge_ok (br\<lparr>primary_retry := t\<rparr>) = bridge_ok br" "bridge_ok (br\<lparr>try_private_accepted := l\<rparr>) = bridge_ok br"
  by (simp_all add: bridge_ok_def)

definition bridge_at_ok :: "mqtt3_bridge option \<Rightarrow> bool" where
  "bridge_at_ok r \<longleftrightarrow> (case r of None \<Rightarrow> True | Some br \<Rightarrow> bridge_ok br)"

lemma bridge_at_ok_simps [simp]: "bridge_at_ok None" "bridge_at_ok (Some br) = bridge_ok br"
  by (simp_all add: bridge_at_ok_def)

lemma bridge_at_ok_map: "(\<And>br. bridge_ok br \<Longrightarrow> bridge_ok (f br)) \<Longrightarrow> bridge_at_ok r \<Longrightarrow> bridge_at_ok (map_option f r)"
  by (cases r) simp_all

definition bridges_ok :: "broker \<Rightarrow> bool" where
  "bridges_ok b \<longleftrightarrow> (\<forall>c. bridge_at_ok (bridge (ctxs b c)))"

definition broker_ok :: "broker \<Rightarrow> bool" where
  "broker_ok b \<longleftrightarrow> queues_ok b \<and> subs_ok b \<and> slots_ok b \<and> leaves_live b \<and> outgoing_only b \<and> wills_ok b \<and> sets_ok b \<and> bridges_ok b"

lemma broker_ok_parts: "broker_ok b \<Longrightarrow> queues_ok b" "broker_ok b \<Longrightarrow> subs_ok b" "broker_ok b \<Longrightarrow> slots_ok b"
  "broker_ok b \<Longrightarrow> leaves_live b" "broker_ok b \<Longrightarrow> outgoing_only b" "broker_ok b \<Longrightarrow> wills_ok b" "broker_ok b \<Longrightarrow> sets_ok b" "broker_ok b \<Longrightarrow> bridges_ok b"
  by (simp_all add: broker_ok_def)

lemma live_bound: "broker_ok b \<Longrightarrow> live b c \<Longrightarrow> c < next_ptr b"
  by (auto simp: broker_ok_def slots_ok_def live_def in_set_conv_nth)

section \<open>Steps beside the slots and the tree\<close>

definition tame :: "broker \<Rightarrow> broker \<Rightarrow> bool" where
  "tame b b' \<longleftrightarrow> subs b' = subs b \<and> contexts b' = contexts b \<and> next_ptr b \<le> next_ptr b' \<and>
     set (store_ptrs b) \<subseteq> set (store_ptrs b') \<and> set (new_clients_hash b') \<subseteq> set (new_clients_hash b) \<and>
     (\<forall>d. numericId (ctxs b' d) = numericId (ctxs b d) \<and> db_index (ctxs b' d) = db_index (ctxs b d) \<and>
        will (ctxs b' d) \<in> {will (ctxs b d), None} \<and> (bridge_at_ok (bridge (ctxs b d)) \<longrightarrow> bridge_at_ok (bridge (ctxs b' d))) \<and>
        (bridge (ctxs b d) = None \<longrightarrow> bridge (ctxs b' d) = None))"

definition keeps :: "broker \<Rightarrow> broker \<Rightarrow> bool" where
  "keeps b b' \<longleftrightarrow> contexts b' = contexts b \<and> set (store_ptrs b) \<subseteq> set (store_ptrs b') \<and>
     (broker_ok b \<longrightarrow> broker_ok b' \<and> set (new_clients_hash b') \<subseteq> set (new_clients_hash b) \<and>
        (\<forall>d. bridge (ctxs b d) = None \<longrightarrow> bridge (ctxs b' d) = None))"

lemma tame_refl [simp]: "tame b b"
  by (simp add: tame_def)

lemma tame_trans: "tame a b \<Longrightarrow> tame b c \<Longrightarrow> tame a c"
  by (auto simp: tame_def) (metis option.distinct(1))

lemma keeps_refl [simp]: "keeps b b"
  by (simp add: keeps_def)

lemma keeps_trans: "keeps a b \<Longrightarrow> keeps b c \<Longrightarrow> keeps a c"
  by (auto simp: keeps_def)

lemma keeps_live: "keeps b b' \<Longrightarrow> live b' c = live b c"
  by (simp add: keeps_def live_def)

lemma keeps_stored: "keeps b b' \<Longrightarrow> q \<in> set (store_ptrs b) \<Longrightarrow> q \<in> set (store_ptrs b')"
  by (auto simp: keeps_def)

lemma keeps_ok: "keeps b b' \<Longrightarrow> broker_ok b \<Longrightarrow> broker_ok b'"
  by (simp add: keeps_def)

lemma tame_keeps:
  assumes "tame b b'" and "broker_ok b \<Longrightarrow> queues_ok b'" and "broker_ok b \<Longrightarrow> outgoing_only b'" and "broker_ok b \<Longrightarrow> sets_ok b'"
  shows "keeps b b'"
proof -
  have "broker_ok b'" if ok: "broker_ok b"
  proof -
    have s: "subs b' = subs b" using assms(1) by (simp add: tame_def)
    have "subs_ok b'" "leaves_live b'"
      using ok assms(1) subs_ok_cong [OF s] subs_at_cong [OF s]
      by (simp_all add: broker_ok_def leaves_live_def live_def tame_def)
    moreover have "slots_ok b'"
      using ok assms(1) unfolding broker_ok_def slots_ok_def tame_def by fastforce
    moreover have "wills_ok b'"
      using ok assms(1) unfolding broker_ok_def wills_ok_def tame_def by (metis empty_iff insert_iff option.distinct(1))
    moreover have "bridges_ok b'" using ok assms(1) by (simp add: broker_ok_def bridges_ok_def tame_def)
    ultimately show ?thesis using assms(2,3,4) ok by (simp add: broker_ok_def)
  qed
  then show ?thesis using assms(1) by (simp add: keeps_def tame_def)
qed

text \<open>Steps beside the sets of the main loop.\<close>

definition calm :: "broker \<Rightarrow> broker \<Rightarrow> bool" where
  "calm b b' \<longleftrightarrow> contexts b' = contexts b \<and> new_msgs_hash b' = new_msgs_hash b \<and> new_clients_hash b' = new_clients_hash b \<and>
     pending_bytes_hash b' = pending_bytes_hash b \<and> new_client b' = new_client b \<and> (\<forall>d. pending_bytes (ctxs b' d) = pending_bytes (ctxs b d))"

lemma calm_refl [simp]: "calm b b"
  by (simp add: calm_def)

lemma calm_trans: "calm a b \<Longrightarrow> calm b c \<Longrightarrow> calm a c"
  by (simp add: calm_def)

lemma calm_sets_ok: "calm b b' \<Longrightarrow> sets_ok b' = sets_ok b"
  by (simp add: calm_def sets_ok_def live_def)

text \<open>Steps that touch no list, counter, reference, slot, node or set.\<close>

definition quiet :: "broker \<Rightarrow> broker \<Rightarrow> bool" where
  "quiet b b' \<longleftrightarrow> tame b b' \<and> acct b b' \<and> calm b b'"

lemma quiet_refl [simp]: "quiet b b"
  by (simp add: quiet_def)

lemma quiet_trans: "quiet a b \<Longrightarrow> quiet b c \<Longrightarrow> quiet a c"
  by (auto simp: quiet_def intro: tame_trans acct_trans calm_trans)

lemma quiet_keeps: "quiet b b' \<Longrightarrow> keeps b b'"
proof -
  assume q: "quiet b b'"
  then have a: "acct b b'" by (simp add: quiet_def)
  show ?thesis
    using q acct_queues_ok [OF a] a calm_sets_ok [of b b']
    by (intro tame_keeps) (simp_all add: broker_ok_def quiet_def, simp add: outgoing_only_def acct_def)
qed

text \<open>A change of fields of one context that the invariant does not read.\<close>

definition plain :: "(mosquitto \<Rightarrow> mosquitto) \<Rightarrow> bool" where
  "plain f \<longleftrightarrow> (\<forall>x. msgs (f x) = msgs x \<and> msg_count (f x) = msg_count x \<and> msg_count12 (f x) = msg_count12 x \<and>
     numericId (f x) = numericId x \<and> db_index (f x) = db_index x \<and> will (f x) \<in> {will x, None} \<and>
     pending_bytes (f x) = pending_bytes x \<and> (bridge_at_ok (bridge x) \<longrightarrow> bridge_at_ok (bridge (f x))) \<and> (bridge x = None \<longrightarrow> bridge (f x) = None))"

lemma quiet_upd_ctx: "plain f \<Longrightarrow> quiet b (upd_ctx c f b)"
  by (simp add: plain_def quiet_def tame_def calm_def acct_def upd_ctx_def store_ptrs_def ref_of_def stored_msg_def)

lemma io_only_plain:
  assumes io: "\<And>x. io_only x (f x)"
  shows "plain f"
proof -
  have "numericId (f x) = numericId x" "pending_bytes (f x) = pending_bytes x" for x
    using arg_cong [OF io [of x, unfolded io_only_def], of numericId] arg_cong [OF io [of x, unfolded io_only_def], of pending_bytes]
    by simp_all
  then show ?thesis using io_only_fields(1-3,8,16,18) [OF io] by (simp add: plain_def)
qed

lemma quiet_with_ctx: "(\<And>x. io_only x (snd (f x))) \<Longrightarrow> quiet b (snd (with_ctx c f b))"
proof -
  assume io: "\<And>x. io_only x (snd (f x))"
  have "snd (with_ctx c f b) = upd_ctx c (\<lambda>x. snd (f x)) b"
    by (simp add: with_ctx_def upd_ctx_def split_beta)
  then show ?thesis using quiet_upd_ctx [OF io_only_plain [OF io]] by simp
qed

text \<open>Fields of the database that the invariant does not read.\<close>

definition same_state :: "broker \<Rightarrow> broker \<Rightarrow> bool" where
  "same_state b b' \<longleftrightarrow> ctxs b' = ctxs b \<and> contexts b' = contexts b \<and> subs b' = subs b \<and> msg_store b' = msg_store b \<and>
     next_ptr b' = next_ptr b \<and> new_msgs_hash b' = new_msgs_hash b \<and> new_clients_hash b' = new_clients_hash b \<and>
     pending_bytes_hash b' = pending_bytes_hash b \<and> new_client b' = new_client b"

lemma quiet_same_state: "same_state b b' \<Longrightarrow> quiet b b'"
  by (simp add: same_state_def quiet_def tame_def calm_def acct_def store_ptrs_def ref_of_def stored_msg_def)

lemma same_state_updates [simp]:
  "same_state b (log_dxl e b)" "same_state b (b\<lparr>assert_violated := a\<rparr>)"
  "same_state b (b\<lparr>clientid_index_hash := h\<rparr>)" "same_state b (mqtt3_add_canonical_client_id i b)"
  "same_state b (mqtt3_db_remove_canonical_client_id i b)" "same_state b (drop_listener c b)"
  "same_state b (b\<lparr>now := t\<rparr>)"
  by (simp_all add: same_state_def log_dxl_def mqtt3_add_canonical_client_id_def Let_def
      mqtt3_db_remove_canonical_client_id_def drop_listener_def split: option.split)

text \<open>Steps that change only the sets.\<close>

lemma keeps_sets:
  assumes "tame b b'" and "acct b b'" and "broker_ok b \<Longrightarrow> sets_ok b'"
  shows "keeps b b'"
  using assms acct_queues_ok [OF assms(2)]
  by (intro tame_keeps) (simp_all add: broker_ok_def, simp add: outgoing_only_def acct_def)

lemma keeps_remove_pending: "keeps b (mosquitto_remove_pending_bytes_set c b)"
proof (rule keeps_sets)
  let ?b = "mosquitto_remove_pending_bytes_set c b"
  show "tame b ?b" "acct b ?b"
    by (auto simp: tame_def acct_def mosquitto_remove_pending_bytes_set_def upd_ctx_def store_ptrs_def ref_of_def stored_msg_def)
  assume "broker_ok b"
  then have s: "sets_ok b" by (simp add: broker_ok_def)
  then show "sets_ok ?b"
    by (auto simp: sets_ok_def mosquitto_remove_pending_bytes_set_def upd_ctx_def live_def)
qed

lemma keeps_add_pending: "live b c \<Longrightarrow> keeps b (mosquitto_add_pending_bytes_set c b)"
proof (rule keeps_sets)
  let ?b = "mosquitto_add_pending_bytes_set c b"
  show "tame b ?b" "acct b ?b"
    by (auto simp: tame_def acct_def mosquitto_add_pending_bytes_set_def upd_ctx_def store_ptrs_def ref_of_def stored_msg_def)
  assume l: "live b c" and "broker_ok b"
  then have s: "sets_ok b" by (simp add: broker_ok_def)
  then show "sets_ok ?b" using l
    by (auto simp: sets_ok_def mosquitto_add_pending_bytes_set_def upd_ctx_def live_def)
qed

lemma keeps_remove_set: "keeps b (remove_new_msgs_set c b)" "keeps b (remove_new_clients_set c b)"
proof -
  have t: "tame b (b\<lparr>new_msgs_hash := x\<rparr>)" "acct b (b\<lparr>new_msgs_hash := x\<rparr>)"
    "set x \<subseteq> set (new_clients_hash b) \<Longrightarrow> tame b (b\<lparr>new_clients_hash := x\<rparr>)" "acct b (b\<lparr>new_clients_hash := x\<rparr>)" for x
    by (simp_all add: tame_def acct_def store_ptrs_def ref_of_def stored_msg_def)
  show "keeps b (remove_new_msgs_set c b)"
    unfolding remove_new_msgs_set_def using set_remove1_subset [of c "new_msgs_hash b"]
    by (intro keeps_sets t) (auto simp: broker_ok_def sets_ok_def live_def)
  show "keeps b (remove_new_clients_set c b)"
    unfolding remove_new_clients_set_def using set_remove1_subset [of c "new_clients_hash b"]
    by (intro keeps_sets t) (auto simp: broker_ok_def sets_ok_def live_def)
qed

section \<open>The queue operations\<close>

lemma tame_upd_ctx:
  "(\<And>x. numericId (f x) = numericId x \<and> db_index (f x) = db_index x \<and> will (f x) = will x \<and> (bridge_at_ok (bridge x) \<longrightarrow> bridge_at_ok (bridge (f x))) \<and> (bridge x = None \<longrightarrow> bridge (f x) = None)) \<Longrightarrow>
   tame b (upd_ctx c f b)"
  by (simp add: tame_def upd_ctx_def store_ptrs_def)

lemma tame_upd_store: "(\<And>s. store_ptr (f s) = store_ptr s) \<Longrightarrow> tame b (upd_store q f b)"
  by (auto simp: tame_def upd_store_def store_ptrs_def)

lemma tame_prims [simp]:
  "tame b (log_dxl e b)" "tame b (b\<lparr>assert_violated := a\<rparr>)" "tame b (mosquitto_add_new_msgs_set c b)"
  "tame b (set_msgs c ms b)" "tame b (add_ref n q b)" "tame b (message_remove c m b)" "tame b (append_msg c m b)"
  "tame b (upd_ctx c lazy_bridge_check b)" "tame b (drop_refs ms b)"
  using quiet_same_state [OF same_state_updates(1)] quiet_same_state [OF same_state_updates(2)]
proof -
  show "tame b (mosquitto_add_new_msgs_set c b)" by (simp add: tame_def mosquitto_add_new_msgs_set_def store_ptrs_def)
  show a: "tame b (add_ref n q b)" for b n q by (simp add: add_ref_def tame_upd_store)
  show "tame b (set_msgs c ms b)" by (simp add: set_msgs_def tame_upd_ctx)
  show "tame b (message_remove c m b)" unfolding message_remove_def by (rule tame_trans [OF a tame_upd_ctx]) simp
  show "tame b (append_msg c m b)" unfolding append_msg_def by (rule tame_trans [OF a tame_upd_ctx]) simp
  show "tame b (upd_ctx c lazy_bridge_check b)"
    by (rule tame_upd_ctx) (simp add: lazy_bridge_check_def split: option.split)
  show "tame b (drop_refs ms b)" by (induction ms b rule: drop_refs.induct) (auto intro: tame_trans a)
qed (simp_all add: quiet_def)

lemma tame_insert: "tame b (snd (mqtt3_db_message_insert H c mid dir qos retain q b))"
proof -
  have u: "tame b (upd_store q (\<lambda>s. s\<lparr>msg := (msg s)\<lparr>mm_client_payload := p\<rparr>\<rparr>) b)" for b p
    by (rule tame_upd_store) simp
  have d: "tame b (upd_ctx c (\<lambda>x. x\<lparr>is_dropping := True\<rparr>) b)" for b by (rule tame_upd_ctx) simp
  have i: "tame b (snd (insert_allowed H c mid dir qos retain q st rc b))" for st rc b
  proof -
    let ?b1 = "log_dxl (dxl_insert c (db_id (deref_store b q))) b"
    obtain success icm cp where h: "on_insert_message H (dxl_log b) (ctxs b c) (deref_store b q) = (success, icm, cp)"
      by (metis prod_cases3)
    define b2 where "b2 = (case cp of None \<Rightarrow> ?b1
      | Some cp \<Rightarrow> upd_store q (\<lambda>s. s\<lparr>msg := (msg s)\<lparr>mm_client_payload := Some cp\<rparr>\<rparr>) ?b1)"
    have t: "tame b b2" unfolding b2_def using tame_trans [OF tame_prims(1) u] by (simp split: option.split)
    have "tame b2 (upd_ctx c lazy_bridge_check (mosquitto_add_new_msgs_set c (append_msg c m b2)))" for m
      by (rule tame_trans [OF tame_trans [OF tame_prims(7) tame_prims(3)] tame_prims(8)])
    then show ?thesis
      unfolding insert_allowed_def Let_def h prod.case b2_def [symmetric] using t by (auto intro: tame_trans)
  qed
  show ?thesis
    unfolding mqtt3_db_message_insert_def Let_def
    by (auto split: insert_decision.split intro: i d tame_trans [OF tame_prims(1)] tame_trans [OF tame_prims(1) tame_prims(2)])
qed

text \<open>The sets after steps on behalf of one context, which must be in a slot when it is added.\<close>

definition sets_step :: "nat \<Rightarrow> broker \<Rightarrow> broker \<Rightarrow> bool" where
  "sets_step c b b' \<longleftrightarrow> contexts b' = contexts b \<and> (live b c \<longrightarrow> sets_ok b \<longrightarrow> sets_ok b')"

lemma sets_step_trans: "sets_step c a b \<Longrightarrow> sets_step c b d \<Longrightarrow> sets_step c a d"
  by (simp add: sets_step_def live_def)

lemma calm_sets_step: "calm b b' \<Longrightarrow> sets_step c b b'"
  using calm_sets_ok [of b b'] by (auto simp: sets_step_def calm_def)

lemma sets_step_add: "sets_step c b (mosquitto_add_new_msgs_set c b)"
  by (auto simp: sets_step_def sets_ok_def live_def mosquitto_add_new_msgs_set_def)

lemma calm_upd_ctx: "(\<And>x. pending_bytes (f x) = pending_bytes x) \<Longrightarrow> calm b (upd_ctx c f b)"
  by (simp add: calm_def upd_ctx_def)

lemma calm_prims [simp]:
  "calm b (log_dxl e b)" "calm b (b\<lparr>assert_violated := a\<rparr>)" "calm b (set_msgs c ms b)" "calm b (upd_store q f b)"
  "calm b (add_ref n q b)" "calm b (message_remove c m b)" "calm b (append_msg c m b)" "calm b (upd_ctx c lazy_bridge_check b)"
  "calm b (drop_refs ms b)"
proof -
  show a: "calm b (add_ref n q b)" for b n q by (simp add: calm_def add_ref_def upd_store_def)
  show "calm b (set_msgs c ms b)" by (simp add: set_msgs_def calm_upd_ctx)
  show "calm b (message_remove c m b)" unfolding message_remove_def by (rule calm_trans [OF a calm_upd_ctx]) simp
  show "calm b (append_msg c m b)" unfolding append_msg_def by (rule calm_trans [OF a calm_upd_ctx]) simp
  show "calm b (upd_ctx c lazy_bridge_check b)" by (rule calm_upd_ctx) (simp add: lazy_bridge_check_def split: option.split)
  show "calm b (drop_refs ms b)" by (induction ms b rule: drop_refs.induct) (auto intro: calm_trans a)
qed (simp_all add: calm_def log_dxl_def upd_store_def)

lemma sets_step_insert: "sets_step c b (snd (mqtt3_db_message_insert H c mid dir qos retain q b))"
proof -
  have d: "calm b (upd_ctx c (\<lambda>x. x\<lparr>is_dropping := True\<rparr>) b)" for b by (rule calm_upd_ctx) simp
  have i: "sets_step c b (snd (insert_allowed H c mid dir qos retain q st rc b))" for st rc b
  proof -
    let ?b1 = "log_dxl (dxl_insert c (db_id (deref_store b q))) b"
    obtain success icm cp where h: "on_insert_message H (dxl_log b) (ctxs b c) (deref_store b q) = (success, icm, cp)"
      by (metis prod_cases3)
    define b2 where "b2 = (case cp of None \<Rightarrow> ?b1
      | Some cp \<Rightarrow> upd_store q (\<lambda>s. s\<lparr>msg := (msg s)\<lparr>mm_client_payload := Some cp\<rparr>\<rparr>) ?b1)"
    have t: "sets_step c b b2"
      unfolding b2_def using calm_sets_step [OF calm_trans [OF calm_prims(1) calm_prims(4)]] calm_sets_step [OF calm_prims(1)]
      by (simp split: option.split)
    have "sets_step c b2 (upd_ctx c lazy_bridge_check (mosquitto_add_new_msgs_set c (append_msg c m b2)))" for m
      by (rule sets_step_trans [OF sets_step_trans [OF calm_sets_step [OF calm_prims(7)] sets_step_add] calm_sets_step [OF calm_prims(8)]])
    then show ?thesis
      unfolding insert_allowed_def Let_def h prod.case b2_def [symmetric] using t by (auto intro: sets_step_trans)
  qed
  note c = calm_sets_step [OF calm_prims(1)]
  show ?thesis
    unfolding mqtt3_db_message_insert_def Let_def
    by (auto split: insert_decision.split intro: i calm_sets_step [OF d] calm_sets_step sets_step_trans [OF c] calm_trans [OF calm_prims(1) calm_prims(2)]
        sets_step_trans [OF c calm_sets_step [OF d]])
qed

lemma outgoing_only_insert:
  "outgoing_only b \<Longrightarrow> outgoing_only (snd (mqtt3_db_message_insert H c mid mosq_md_out qos retain q b))"
proof -
  assume o: "outgoing_only b"
  have "outgoing (msgs (ctxs (snd (mqtt3_db_message_insert H c mid mosq_md_out qos retain q b)) d))" for d
  proof (cases "d = c")
    case True
    then show ?thesis
      using o message_insert_append [of H c mid mosq_md_out qos retain q b] by (auto simp: outgoing_only_def outgoing_def)
  next
    case False
    then show ?thesis using o by (simp add: message_insert_other outgoing_only_def)
  qed
  then show ?thesis by (simp add: outgoing_only_def)
qed

lemma keeps_insert:
  "live b c \<Longrightarrow> q \<in> set (store_ptrs b) \<Longrightarrow> keeps b (snd (mqtt3_db_message_insert H c mid mosq_md_out qos retain q b))"
  using message_insert_ok [of b c q H mid mosq_md_out qos retain] outgoing_only_insert [of b H c mid qos retain q] live_bound [of b c]
    sets_step_insert [of c b H mid mosq_md_out qos retain q]
  by (intro tame_keeps tame_insert) (simp_all add: broker_ok_def sets_step_def)

text \<open>One queue replaced by an outgoing one.\<close>

lemma outgoing_only_queue:
  assumes "outgoing_only b" and "outgoing (msgs (ctxs b' c))" and "\<And>d. d \<noteq> c \<Longrightarrow> msgs (ctxs b' d) = msgs (ctxs b d)"
  shows "outgoing_only b'"
  unfolding outgoing_only_def using assms by (metis outgoing_only_def)

lemma outgoing_relabel:
  assumes "list_all2 (\<lambda>m m'. cm_direction m' = cm_direction m) ms ms'"
  shows "outgoing ms \<Longrightarrow> outgoing ms'"
  using assms by (induction ms ms' rule: list_all2_induct) (auto simp: outgoing_def)

lemma keeps_relabel:
  assumes "list_all2 (\<lambda>m m'. same_ref m m' \<and> cm_direction m' = cm_direction m) (msgs (ctxs b c)) ms"
  shows "keeps b (set_msgs c ms b)"
proof (rule tame_keeps)
  show "tame b (set_msgs c ms b)" by simp
  have l: "list_all2 same_ref (msgs (ctxs b c)) ms" "list_all2 (\<lambda>m m'. cm_direction m' = cm_direction m) (msgs (ctxs b c)) ms"
    using assms by (auto elim: list_all2_mono)
  show "broker_ok b \<Longrightarrow> queues_ok (set_msgs c ms b)" using queues_ok_set_msgs [OF l(1)] by (simp add: broker_ok_def)
  show "broker_ok b \<Longrightarrow> outgoing_only (set_msgs c ms b)"
    using outgoing_relabel [OF l(2)] by (auto simp: broker_ok_def outgoing_only_def)
  show "broker_ok b \<Longrightarrow> sets_ok (set_msgs c ms b)" by (simp add: broker_ok_def calm_sets_ok [OF calm_prims(3)])
qed

lemma keeps_update: "keeps b (snd (mqtt3_db_message_update c mid dir st b))"
proof -
  have "list_all2 (\<lambda>m m'. same_ref m m' \<and> cm_direction m' = cm_direction m) ms (snd (message_update_loop t mid dir st ms))" for t ms
    by (induction t mid dir st ms rule: message_update_loop.induct) (auto simp: list_all2_refl split: prod.splits)
  from this [of "msgs (ctxs b c)" "now b"] show ?thesis
    by (simp add: mqtt3_db_message_update_def keeps_relabel split_beta)
qed

lemma keeps_timeout: "keeps b (snd (mqtt3_db_message_timeout_check c n b))"
  unfolding mqtt3_db_message_timeout_check_def snd_conv
  by (rule keeps_relabel) (simp add: list_all2_map2 list.rel_refl_strong, simp add: list.rel_refl timeout_msg_def same_ref_def)

lemma message_remove_msgs [simp]: "msgs (ctxs (message_remove c m b) d) = msgs (ctxs b d)"
  by (simp add: message_remove_def upd_ctx_def add_ref_def upd_store_def)

text \<open>What holds of the loop on the rest of the list, whatever has been passed.\<close>

lemma message_delete_loop_cases:
  assumes "\<And>ms. P (set_msgs c ms b)" and "\<And>ms m'. P (set_msgs c ms (message_remove c m' b))"
    and "\<And>i d before. P (message_delete_loop c mid dir i d before tail b)"
    and "\<And>i d before m'. P (message_delete_loop c mid dir i d before tail (message_remove c m' b))"
  shows "P (message_delete_loop c mid dir i d before (m # tail) b)"
  using assms unfolding message_delete_loop.simps Let_def by (simp split: if_split)

lemma message_delete_loop_tame: "tame b (message_delete_loop c mid dir i d before tail b)"
proof (induction tail arbitrary: i d before b)
  case (Cons m tail)
  show ?case
    by (rule message_delete_loop_cases) (auto intro: Cons.IH tame_trans [OF tame_prims(6) tame_prims(4)] tame_trans [OF tame_prims(6) Cons.IH])
qed simp

lemma message_delete_loop_calm: "calm b (message_delete_loop c mid dir i d before tail b)"
proof (induction tail arbitrary: i d before b)
  case (Cons m tail)
  show ?case
    by (rule message_delete_loop_cases) (auto intro: Cons.IH calm_trans [OF calm_prims(6) calm_prims(3)] calm_trans [OF calm_prims(6) Cons.IH])
qed simp

lemma message_delete_loop_other:
  assumes "e \<noteq> c"
  shows "msgs (ctxs (message_delete_loop c mid dir i d before tail b) e) = msgs (ctxs b e)"
proof (induction tail arbitrary: i d before b)
  case (Cons m tail)
  show ?case
    using assms by (intro message_delete_loop_cases [where P = "\<lambda>b'. msgs (ctxs b' e) = msgs (ctxs b e)"]) (simp_all add: Cons.IH)
qed (use assms in simp)

lemma outgoing_simps [simp]: "outgoing []" "outgoing (m # ms) \<longleftrightarrow> cm_direction m = mosq_md_out \<and> outgoing ms"
  "outgoing (ms @ ms') \<longleftrightarrow> outgoing ms \<and> outgoing ms'"
  by (auto simp: outgoing_def)

lemma message_delete_loop_outgoing:
  "outgoing before \<Longrightarrow> outgoing tail \<Longrightarrow> outgoing (msgs (ctxs (message_delete_loop c mid dir i d before tail b) c))"
proof (induction tail arbitrary: i d before b)
  case (Cons m tail)
  then show ?case unfolding message_delete_loop.simps Let_def by auto
qed simp

lemma keeps_delete: "keeps b (snd (mqtt3_db_message_delete c mid dir b))"
proof (rule tame_keeps)
  let ?b = "snd (mqtt3_db_message_delete c mid dir b)"
  show "tame b ?b" by (simp add: mqtt3_db_message_delete_def message_delete_loop_tame)
  show "broker_ok b \<Longrightarrow> queues_ok ?b" by (simp add: message_delete_ok broker_ok_def)
  show "broker_ok b \<Longrightarrow> sets_ok ?b"
    by (simp add: mqtt3_db_message_delete_def broker_ok_def calm_sets_ok [OF message_delete_loop_calm])
  show "broker_ok b \<Longrightarrow> outgoing_only ?b"
  proof (rule outgoing_only_queue [of b _ c])
    assume ok: "broker_ok b"
    then show "outgoing_only b" by (simp add: broker_ok_def)
    then show "outgoing (msgs (ctxs ?b c))"
      unfolding mqtt3_db_message_delete_def snd_conv by (intro message_delete_loop_outgoing) (simp_all add: outgoing_only_def)
  qed (simp add: mqtt3_db_message_delete_def message_delete_loop_other)
qed

lemma keeps_messages_delete: "keeps b (snd (mqtt3_db_messages_delete c b))"
proof (rule tame_keeps)
  let ?b = "snd (mqtt3_db_messages_delete c b)"
  show "tame b ?b" unfolding mqtt3_db_messages_delete_def snd_conv
    by (rule tame_trans [OF tame_prims(9) tame_upd_ctx]) simp
  show "broker_ok b \<Longrightarrow> queues_ok ?b" by (simp add: messages_delete_ok broker_ok_def)
  have "calm b ?b" unfolding mqtt3_db_messages_delete_def snd_conv by (rule calm_trans [OF calm_prims(9) calm_upd_ctx]) simp
  then show "broker_ok b \<Longrightarrow> sets_ok ?b" by (simp add: broker_ok_def calm_sets_ok)
  show "broker_ok b \<Longrightarrow> outgoing_only ?b"
    by (simp add: mqtt3_db_messages_delete_def broker_ok_def outgoing_only_def upd_ctx_def)
qed

lemma send_stored_quiet: "quiet b (snd (send_stored c m b))"
  unfolding send_stored_def Let_def
  by (simp split: option.split) (auto intro!: quiet_with_ctx send_io_only intro: quiet_same_state [OF same_state_updates(2)])

lemma message_write_step_tame: "message_write_step c m b = (rc, nxt, b') \<Longrightarrow> tame b b'"
proof -
  assume s: "message_write_step c m b = (rc, nxt, b')"
  have q: "tame b (snd (send_stored c m b))" using send_stored_quiet [of b c m] by (simp add: quiet_def)
  have w: "tame b (snd (with_ctx c f b))" if "\<And>x. io_only x (snd (f x))" for f
    using quiet_with_ctx [OF that] by (simp add: quiet_def)
  show ?thesis
    using s q w tame_trans [OF q tame_prims(6), of c m]
    by (cases "cm_state m") (auto simp: message_write_step_def Let_def split_beta send_io_only split: if_splits)
qed

lemma message_write_step_calm: "message_write_step c m b = (rc, nxt, b') \<Longrightarrow> calm b b'"
proof -
  assume s: "message_write_step c m b = (rc, nxt, b')"
  have q: "calm b (snd (send_stored c m b))" using send_stored_quiet [of b c m] by (simp add: quiet_def)
  have w: "calm b (snd (with_ctx c f b))" if "\<And>x. io_only x (snd (f x))" for f
    using quiet_with_ctx [OF that] by (simp add: quiet_def)
  show ?thesis
    using s q w calm_trans [OF q calm_prims(6), of c m]
    by (cases "cm_state m") (auto simp: message_write_step_def Let_def split_beta send_io_only split: if_splits)
qed

lemma message_write_step_msgs: "message_write_step c m b = (rc, nxt, b') \<Longrightarrow> msgs (ctxs b' d) = msgs (ctxs b d)"
  by (drule message_write_step_form) (auto simp: acct_def split: if_splits)

lemma keeps_write:
  assumes ok: "outgoing_only b" and w: "mqtt3_db_message_write c b = Some r"
  shows "keeps b (snd r)"
proof (cases "IS_CONTEXT_INVALID (ctxs b c) \<or> (cstate (ctxs b c) = mosq_cs_connected \<and> ctx_id (ctxs b c) = None)")
  case True
  then show ?thesis using w by (auto simp: mqtt3_db_message_write_def Let_def split: if_splits)
next
  case False
  then have l: "message_write_loop c 0 [] (msgs (ctxs b c)) b = Some r"
    using w by (auto simp: mqtt3_db_message_write_def Let_def split: if_splits)
  have o: "outgoing (msgs (ctxs b c))" using ok by (simp add: outgoing_only_def)
  show ?thesis
  proof (rule tame_keeps)
    show "tame b (snd r)"
      by (rule write_loop_rel [OF l o, where R = tame]) (auto intro: tame_trans message_write_step_tame)
    show "broker_ok b \<Longrightarrow> queues_ok (snd r)" using message_write_ok [OF _ w] by (simp add: broker_ok_def)
    have "calm b (snd r)"
      by (rule write_loop_rel [OF l o, where R = calm]) (auto intro: calm_trans message_write_step_calm)
    then show "broker_ok b \<Longrightarrow> sets_ok (snd r)" by (simp add: broker_ok_def calm_sets_ok)
    have "d \<noteq> c \<Longrightarrow> msgs (ctxs (snd r) d) = msgs (ctxs b d)" for d
      by (rule write_loop_rel [OF l o, where R = "\<lambda>b b'. msgs (ctxs b' d) = msgs (ctxs b d)"])
        (auto simp: message_write_step_msgs)
    moreover have "outgoing (msgs (ctxs (snd r) c))" using shrinks_write_loop [OF l o] o by (simp add: shrinks_def)
    ultimately show "outgoing_only (snd r)" by (rule outgoing_only_queue [OF ok, rotated])
  qed
qed

section \<open>Publishing\<close>

lemma gen_mid_quiet: "quiet b (snd (gen_mid c b))"
proof -
  have "plain (\<lambda>x. snd (mid_generate x))" by (simp add: plain_def mid_generate_def Let_def)
  moreover have "snd (gen_mid c b) = upd_ctx c (\<lambda>x. snd (mid_generate x)) b"
    by (simp add: gen_mid_def upd_ctx_def split_beta)
  ultimately show ?thesis by (simp add: quiet_upd_ctx)
qed

lemma keeps_deliver:
  assumes "live b (leaf_context l)" and "q \<in> set (store_ptrs b)"
  shows "keeps b (snd (deliver_leaf H s qos retain q l (rc, b)))"
proof (cases "is_bridge (ctxs b (leaf_context l)) \<and> ctx_id (ctxs b (leaf_context l)) = Some s")
  case False
  define b1 where "b1 = (if message_qos b qos (leaf_qos l) \<noteq> 0 then snd (gen_mid (leaf_context l) b) else b)"
  have "keeps b b1" unfolding b1_def by (simp add: gen_mid_quiet quiet_keeps)
  moreover have "\<exists>mid r. snd (deliver_leaf H s qos retain q l (rc, b)) =
      snd (mqtt3_db_message_insert H (leaf_context l) mid mosq_md_out (message_qos b qos (leaf_qos l)) r q b1)"
    using False by (auto simp: deliver_leaf_def Let_def b1_def split_beta)
  ultimately show ?thesis
    using assms keeps_insert [of b1 "leaf_context l" q] keeps_live [of b b1] keeps_stored [of b b1 q] keeps_trans [of b b1] by metis
qed (simp add: deliver_leaf_def)

definition node_live :: "broker \<Rightarrow> subhier \<Rightarrow> bool" where
  "node_live b h \<longleftrightarrow> (\<forall>p. \<forall>l \<in> set (leaves_at h p). live b (leaf_context l))"

lemma keeps_process_node:
  assumes "node_live b h" and "q \<in> set (store_ptrs b)"
  shows "keeps b (process_node H src qos retain q h b)"
proof -
  have "keeps b (snd (fold (deliver_leaf H s qos retain q) ls (rc, b)))"
    if "\<forall>l \<in> set ls. live b (leaf_context l)" "q \<in> set (store_ptrs b)" for s ls rc b
    using that
  proof (induction ls arbitrary: rc b)
    case (Cons l ls)
    obtain rc1 b1 where d: "deliver_leaf H s qos retain q l (rc, b) = (rc1, b1)" by fastforce
    have k: "keeps b b1" using keeps_deliver [of b l q H s qos retain rc] Cons.prems d by simp
    then have "keeps b1 (snd (fold (deliver_leaf H s qos retain q) ls (rc1, b1)))"
      using Cons.IH [of b1 rc1] Cons.prems keeps_live [OF k] keeps_stored [OF k] by simp
    then show ?case using keeps_trans [OF k] by (simp add: d)
  qed simp
  moreover have "\<forall>l \<in> set (hier_subs h). live b (leaf_context l)"
    using assms(1) unfolding node_live_def by (metis leaves_at.simps(1))
  ultimately show ?thesis
    using assms(2) by (simp add: process_node_def subs_process_def split_beta split: option.split)
qed

lemma node_live_child: "tree_ok h \<Longrightarrow> node_live b h \<Longrightarrow> hash_find h k = Some c \<Longrightarrow> node_live b c \<and> tree_ok c"
proof -
  assume a: "tree_ok h" "node_live b h" "hash_find h k = Some c"
  then have c: "child_of k (hier_children h) = Some c" by (simp add: tree_ok_hash_find)
  have "leaves_at c p = leaves_at h (k # p)" for p using c by simp
  then show ?thesis using a child_of_Some [OF c] tree_ok_children unfolding node_live_def by metis
qed

lemma node_live_keeps: "keeps b b' \<Longrightarrow> node_live b' h = node_live b h"
  by (simp add: node_live_def keeps_live)

lemma keeps_search_pound:
  assumes "tree_ok h" and "node_live b h" and "q \<in> set (store_ptrs b)"
  shows "keeps b (search_pound H src qos retain q h b)"
  using assms node_live_child [of h b "''#''"]
  by (auto simp: search_pound_def keeps_process_node split: option.splits)

lemma keeps_sub_search:
  assumes "tree_ok h" and "node_live b h" and "q \<in> set (store_ptrs b)"
  shows "keeps b (sub_search H src qos retain q h toks b)"
  using assms
proof (induction toks arbitrary: h b)
  case Nil
  then show ?case by (simp add: keeps_search_pound)
next
  case (Cons tok toks)
  define visit where "visit = (\<lambda>branch b. let b' = sub_search H src qos retain q branch toks b in
      if toks = [] then process_node H src qos retain q branch b' else b')"
  have v: "keeps b (visit c b)" if "node_live b c" "tree_ok c" "q \<in> set (store_ptrs b)" for c b
  proof -
    have k: "keeps b (sub_search H src qos retain q c toks b)" using Cons.IH that by blast
    then have "keeps (sub_search H src qos retain q c toks b) (process_node H src qos retain q c (sub_search H src qos retain q c toks b))"
      using keeps_process_node node_live_keeps [OF k] keeps_stored [OF k] that by blast
    then show ?thesis using k keeps_trans by (auto simp: visit_def Let_def)
  qed
  have w: "keeps b (case hash_find h k of None \<Rightarrow> b | Some c \<Rightarrow> visit c b)" if "node_live b h" "q \<in> set (store_ptrs b)" for k b
    using v node_live_child [OF Cons.prems(1) that(1)] that(2) by (auto split: option.split)
  define b1 where "b1 = search_pound H src qos retain q h b"
  have k1: "keeps b b1" unfolding b1_def by (rule keeps_search_pound [OF Cons.prems])
  define b2 where "b2 = (if hash_table_has_plus_wild_card h \<noteq> 0 then
      (case hash_find h ''+'' of None \<Rightarrow> b1 | Some c \<Rightarrow> visit c b1) else b1)"
  have k2: "keeps b1 b2"
    unfolding b2_def using w [of b1 "''+''"] node_live_keeps [OF k1] keeps_stored [OF k1] Cons.prems by simp
  have k: "keeps b b2" by (rule keeps_trans [OF k1 k2])
  have "keeps b2 (case hash_find h tok of None \<Rightarrow> b2 | Some c \<Rightarrow> visit c b2)"
    using w [of b2 tok] node_live_keeps [OF k] keeps_stored [OF k] Cons.prems by simp
  then have "keeps b (case hash_find h tok of None \<Rightarrow> b2 | Some c \<Rightarrow> visit c b2)" by (rule keeps_trans [OF k])
  then show ?case unfolding b2_def b1_def visit_def by (simp only: sub_search.simps Let_def)
qed

section \<open>The subscription table\<close>

text \<open>A step that is quiet but for the tree.\<close>

lemma keeps_subs:
  assumes "contexts b' = contexts b" and "msg_store b' = msg_store b"
    and "broker_ok b \<Longrightarrow> quiet b (b'\<lparr>subs := subs b\<rparr>)" and "broker_ok b \<Longrightarrow> subs_ok b'"
    and "\<And>p l. broker_ok b \<Longrightarrow> l \<in> set (subs_at b' p) \<Longrightarrow> live b (leaf_context l)"
  shows "keeps b b'"
proof -
  have "broker_ok b'" if ok: "broker_ok b"
  proof -
    have "broker_ok (b'\<lparr>subs := subs b\<rparr>)" by (rule keeps_ok [OF quiet_keeps [OF assms(3) [OF ok]] ok])
    moreover have "queues_ok (b'\<lparr>subs := subs b\<rparr>) = queues_ok b'"
      by (simp add: queues_ok_def store_ok_def refs_def ref_of_def stored_msg_def store_ptrs_def)
    ultimately have "queues_ok b' \<and> slots_ok b' \<and> outgoing_only b' \<and> wills_ok b' \<and> sets_ok b' \<and> bridges_ok b'"
      by (simp add: broker_ok_def slots_ok_def outgoing_only_def wills_ok_def sets_ok_def bridges_ok_def live_def)
    moreover have "leaves_live b'" using assms(5) [OF ok] by (simp add: leaves_live_def live_def assms(1))
    ultimately show ?thesis using assms(4) [OF ok] by (simp add: broker_ok_def)
  qed
  moreover have "set (new_clients_hash b') \<subseteq> set (new_clients_hash b) \<and> (\<forall>d. bridge (ctxs b d) = None \<longrightarrow> bridge (ctxs b' d) = None)"
    if ok: "broker_ok b"
    using assms(3) [OF ok] by (simp add: quiet_def tame_def)
  ultimately show ?thesis using assms(1,2) by (simp add: keeps_def store_ptrs_def)
qed

lemma count_subscription_quiet: "quiet b (count_subscription n c b)"
proof -
  have "plain (\<lambda>x. x\<lparr>ctx_subscription_count := ctx_subscription_count x + n\<rparr>)" by (simp add: plain_def)
  moreover have "same_state b (b\<lparr>subscription_count := subscription_count b + n\<rparr>)" by (simp add: same_state_def)
  ultimately show ?thesis unfolding count_subscription_def using quiet_trans quiet_same_state quiet_upd_ctx by metis
qed

lemma added_quiet: "quiet b (added c ls t b)" "quiet b (removed c ls t b)"
  using count_subscription_quiet [of b] quiet_trans [OF count_subscription_quiet quiet_same_state [OF same_state_updates(1)]]
  by (simp_all add: added_def removed_def)

lemma sub_add_frame:
  "sub_add_full_topic H ctx qos h toks full depth b = (rc, h', b') \<Longrightarrow> contexts b' = contexts b \<and> msg_store b' = msg_store b"
proof (induction toks arbitrary: h h' full depth b' rc)
  case Nil
  then show ?case
    by (auto simp: Let_def add_leaf_def upd_ctx_def log_dxl_def split: if_splits option.splits)
next
  case (Cons t toks)
  then show ?case by (auto simp: Let_def split: if_splits option.splits prod.splits)
qed

lemma mqtt3_sub_add_frame:
  "contexts (snd (mqtt3_sub_add H c f q b)) = contexts b" "msg_store (snd (mqtt3_sub_add H c f q b)) = msg_store b"
  by (auto simp: mqtt3_sub_add_def Let_def sub_add_def split: prod.splits dest!: sub_add_frame)

lemma put_leaf_contexts: "set (map leaf_context (put_leaf nm c q ls)) \<subseteq> insert c (set (map leaf_context ls))"
  by (induction ls) auto

lemma keeps_sub_add:
  assumes "live b c" and f: "pound_last (tokens f)"
  shows "keeps b (snd (mqtt3_sub_add H c f q b))"
proof (rule keeps_subs [OF mqtt3_sub_add_frame])
  let ?b = "snd (mqtt3_sub_add H c f q b)"
  assume ok: "broker_ok b"
  note t = mqtt3_sub_add_table [OF broker_ok_parts(2) [OF ok] f, of H c q]
  show "quiet b (?b\<lparr>subs := subs b\<rparr>)" unfolding t(4) by (simp add: added_quiet)
  show "subs_ok ?b" by (rule t(1))
  fix p l
  assume "l \<in> set (subs_at ?b p)"
  then have "leaf_context l \<in> insert c (set (map leaf_context (subs_at b p)))"
    using put_leaf_contexts [of "names b" c q "subs_at b p"] by (auto simp: t(2) with_leaf_put split: if_splits)
  then show "live b (leaf_context l)" using assms(1) broker_ok_parts(4) [OF ok] by (auto simp: leaves_live_def)
qed

lemma sub_remove_frame:
  "sub_remove_full_topic c h toks full depth b = (rc, h', b') \<Longrightarrow> contexts b' = contexts b \<and> msg_store b' = msg_store b"
proof (induction toks arbitrary: h h' full depth b' rc)
  case Nil
  then show ?case
    by (auto simp: Let_def drop_leaf_def upd_ctx_def log_dxl_def split: if_splits)
next
  case (Cons t toks)
  then show ?case by (auto simp: Let_def split: if_splits option.splits prod.splits)
qed

lemma keeps_sub_remove: "keeps b (snd (mqtt3_sub_remove c f b))"
proof (rule keeps_subs)
  let ?b = "snd (mqtt3_sub_remove c f b)"
  show "contexts ?b = contexts b" "msg_store ?b = msg_store b"
    by (auto simp: mqtt3_sub_remove_def Let_def sub_remove_def split: prod.splits option.splits dest!: sub_remove_frame)
  assume ok: "broker_ok b"
  note t = mqtt3_sub_remove_table [OF broker_ok_parts(2) [OF ok], of c f]
  show "quiet b (?b\<lparr>subs := subs b\<rparr>)" unfolding t(4) by (simp add: added_quiet)
  show "subs_ok ?b" by (rule t(1))
  fix p l
  assume "l \<in> set (subs_at ?b p)"
  then have "l \<in> set (subs_at b p)" using remove_leaf_subset [of c "subs_at b p"] by (auto simp: t(2) split: if_splits)
  then show "live b (leaf_context l)" using broker_ok_parts(4) [OF ok] by (auto simp: leaves_live_def)
qed

text \<open>No node has a retained message, so there is none to send on subscribing.\<close>

lemma retain_search_none:
  "\<forall>c \<in> set brs. tree_ok c \<Longrightarrow> fst (retain_search_loop H c q level toks brs flag b) = b"
proof (induction "size_list size brs" arbitrary: level toks brs flag b rule: less_induct)
  case less
  show ?case
  proof (cases brs)
    case (Cons branch rest)
    have n: "retain_node H c q branch b = b" for b
      using less.prems Cons tree_ok_retained [of branch] by (simp add: retain_node_def)
    have "size_list size (hier_children branch) < size_list size brs" "size_list size rest < size_list size brs"
      using size_children [of branch] by (simp_all add: Cons)
    moreover have "\<forall>d \<in> set (hier_children branch). tree_ok d" "\<forall>d \<in> set rest. tree_ok d"
      using less.prems tree_ok_children by (auto simp: Cons)
    ultimately have ih: "fst (retain_search_loop H c q l ts (hier_children branch) f b) = b"
        "fst (retain_search_loop H c q l ts rest f b) = b" for l ts f b
      using less.hyps by blast+
    show ?thesis unfolding Cons by (cases toks) (simp_all add: Let_def split_beta ih n)
  qed simp
qed

lemma retain_queue_nothing: "subs_ok b \<Longrightarrow> mqtt3_retain_queue H c f q b = (0, b)"
proof -
  assume ok: "subs_ok b"
  have "\<forall>d \<in> set (hier_children h). tree_ok d" if "child_of k (hier_children (subs b)) = Some h" for k h
    using ok child_of_Some [OF that] tree_ok_children by (meson subs_ok_def)
  then show ?thesis by (auto simp: mqtt3_retain_queue_def Let_def retain_search_none split: option.split)
qed

section \<open>Storing and publishing\<close>

text \<open>A fresh message without references.\<close>

lemma queues_ok_fresh:
  assumes ok: "queues_ok b" and s: "store_ptr s = next_ptr b" "ref_count s = 0"
  shows "queues_ok (b\<lparr>msg_store := s # msg_store b, msg_store_count := n, last_db_id := i, next_ptr := next_ptr b + 1\<rparr>)"
    (is "queues_ok ?b")
proof -
  have st: "store_ok b" using ok by (simp add: queues_ok_def)
  have fresh: "next_ptr b \<notin> set (store_ptrs b)" using st by (auto simp: store_ok_def)
  have ptrs: "store_ptrs ?b = next_ptr b # store_ptrs b" by (simp add: store_ptrs_def s)
  have e: "msgs (ctxs b (next_ptr b)) = []" using st by (simp add: store_ok_def)
  have z: "count_list (map cm_store (msgs (ctxs b c))) (next_ptr b) = 0" for c
    using st fresh by (auto simp: store_ok_def count_list_0_iff)
  have "refs ?b q = refs b q" for q by (simp add: refs_def e)
  moreover have "refs b (next_ptr b) = 0" by (simp add: refs_def z)
  moreover have "ref_of ?b q = (if q = next_ptr b then 0 else ref_of b q)" for q
    by (simp add: ref_of_def stored_msg_def s)
  ultimately have "ref_of ?b q = refs ?b q" for q using st by (simp add: store_ok_def)
  then have "store_ok ?b" using st fresh unfolding store_ok_def ptrs by (auto simp: less_Suc_eq)
  then show ?thesis using ok by (simp add: queues_ok_def)
qed

lemma message_store_keeps:
  assumes "mqtt3_db_message_store H context source mid topic qos pl retain i b = (rc, q, b')"
  shows "rc = 0" and "q = next_ptr b" and "keeps b b'" and "q \<in> set (store_ptrs b')"
proof -
  let ?id = "if i = 0 then last_db_id b + 1 else last_db_id b"
  define temp where "temp = \<lparr>store_ptr = next_ptr b, db_id = (if i = 0 then ?id else i), ref_count = 0,
    source_id = (case source of Some s \<Rightarrow> s | None \<Rightarrow> ''''), source_mid = mid,
    msg = \<lparr>mm_topic = topic, mm_payload = pl, mm_client_payload = None, mm_qos = qos, mm_retain = retain\<rparr>\<rparr>"
  define b1 where "b1 = b\<lparr>msg_store := temp # msg_store b, msg_store_count := msg_store_count b + 1, last_db_id := ?id,
    next_ptr := next_ptr b + 1\<rparr>"
  define b2 where "b2 = log_dxl (dxl_store (next_ptr b) (db_id temp)) b1"
  define f where "f = (\<lambda>out s. s\<lparr>msg := (msg s)\<lparr>mm_payload := out :: byte list\<rparr>\<rparr> :: mosquitto_msg_store)"
  have r: "rc = 0 \<and> q = next_ptr b \<and> (b' = b2 \<or> (\<exists>out. b' = upd_store (next_ptr b) (f out) b2))"
    using assms by (auto simp: mqtt3_db_message_store_def Let_def temp_def b1_def b2_def f_def split: if_splits)
  then show "rc = 0" "q = next_ptr b" by simp_all
  have k1: "keeps b b1"
  proof (rule tame_keeps)
    show "tame b b1" by (auto simp: tame_def b1_def store_ptrs_def)
    show "broker_ok b \<Longrightarrow> queues_ok b1"
      unfolding b1_def by (rule queues_ok_fresh) (simp_all add: broker_ok_def temp_def)
    show "broker_ok b \<Longrightarrow> outgoing_only b1" by (simp add: broker_ok_def outgoing_only_def b1_def)
    have "calm b b1" by (simp add: calm_def b1_def)
    then show "broker_ok b \<Longrightarrow> sets_ok b1" by (simp add: broker_ok_def calm_sets_ok)
  qed
  have k2: "keeps b b2" unfolding b2_def by (rule keeps_trans [OF k1 quiet_keeps [OF quiet_same_state]]) simp
  have "quiet b2 (upd_store (next_ptr b) (f out) b2)" for out
    by (auto simp: quiet_def f_def intro!: tame_upd_store acct_upd_store calm_prims)
  then have "keeps b2 b'" using r quiet_keeps by auto
  then show k: "keeps b b'" by (rule keeps_trans [OF k2])
  have "q \<in> set (store_ptrs b2)" using r by (simp add: b2_def b1_def store_ptrs_def log_dxl_def temp_def)
  then show "q \<in> set (store_ptrs b')" using keeps_stored [OF \<open>keeps b2 b'\<close>] by simp
qed

lemma branches_keeps:
  assumes ok: "broker_ok b" and s: "child_of (hd toks) (hier_children (subs b)) = Some s" and p: "pound_last toks"
    and r: "sub_add_full_topic H None 0 s toks '''' 0 b = (rc, s', b1)"
  shows "keeps b (b\<lparr>subs := replace_child s' (subs b)\<rparr>)" and "b1 = b" and "tree_ok s'" and "node_live b s'"
proof -
  have tr: "tree_ok (subs b)" and so: "subs_ok b" using ok by (simp_all add: broker_ok_def subs_ok_def)
  have m: "s \<in> set (hier_children (subs b))" "hier_topic s = hd toks" using child_of_Some [OF s] by auto
  then have ts: "tree_ok s" "rooted s" using so tree_ok_children [OF tr] by (auto simp: subs_ok_def)
  note a = sub_add_branches [OF ts(1) p r]
  have rs: "rooted s'" using a by (intro rooted_cong [OF ts(2)]) auto
  have top: "hier_topic s' = hd toks" using a m(2) by simp
  have "subs_ok (b\<lparr>subs := subs b\<rparr>)" using so by simp
  note tb = table_replace [OF this s conjunct1 [OF a] rs top, of b]
  have at: "subs_at (b\<lparr>subs := replace_child s' (subs b)\<rparr>) p = subs_at b p" for p
    using tb(2) [of p] subs_at_child [of p b s] s a by simp
  show "keeps b (b\<lparr>subs := replace_child s' (subs b)\<rparr>)"
    using broker_ok_parts(4) tb(1) by (intro keeps_subs) (auto simp: at leaves_live_def)
  show "b1 = b" "tree_ok s'" using a by simp_all
  have "leaves_at s' p = [] \<or> leaves_at s' p = subs_at b p" for p
    using a ts(2) subs_at_child [of p b s] s m(2) unfolding rooted_def by metis
  then show "node_live b s'"
    using broker_ok_parts(4) [OF ok] unfolding node_live_def leaves_live_def by (metis empty_iff list.set(1))
qed

lemma top_node_live: "broker_ok b \<Longrightarrow> child_of k (hier_children (subs b)) = Some s \<Longrightarrow> tree_ok s \<and> node_live b s"
proof -
  assume ok: "broker_ok b" and s: "child_of k (hier_children (subs b)) = Some s"
  have so: "subs_ok b" using ok by (simp add: broker_ok_def)
  then have ts: "tree_ok s" "rooted s" using child_of_Some [OF s] tree_ok_children by (auto simp: subs_ok_def)
  have "leaves_at s p = [] \<or> leaves_at s p = subs_at b p" for p
    using ts(2) subs_at_child [of p b s] s child_of_Some [OF s] unfolding rooted_def by metis
  then show ?thesis
    using ts(1) broker_ok_parts(4) [OF ok] unfolding node_live_def leaves_live_def by (metis empty_iff list.set(1))
qed

lemma keeps_messages_queue:
  assumes ok: "broker_ok b" and q: "q \<in> set (store_ptrs b)" and p: "retain \<Longrightarrow> pound_last (tokens topic)"
  shows "keeps b (snd (mqtt3_db_messages_queue H src topic qos retain q b))"
proof -
  have tr: "tree_ok (subs b)" using ok by (simp add: broker_ok_def subs_ok_def)
  have l: "keeps x (log_dxl e x)" for x e by (rule quiet_keeps [OF quiet_same_state]) simp
  show ?thesis
  proof (cases "child_of (hd (tokens topic)) (hier_children (subs b))")
    case None
    then show ?thesis using l by (simp add: mqtt3_db_messages_queue_def Let_def tree_ok_hash_find [OF tr])
  next
    case (Some s)
    obtain rc s' b1 where r: "sub_add_full_topic H None 0 s (tokens topic) '''' 0 b = (rc, s', b1)" by (metis prod_cases3)
    define b0 where "b0 = (if retain then b\<lparr>subs := replace_child s' (subs b)\<rparr> else b)"
    define n where "n = (if retain then s' else s)"
    note br = branches_keeps [OF ok Some _ r]
    have k0: "keeps b b0" and n: "tree_ok n" "node_live b n"
      using br p top_node_live [OF ok Some] by (cases retain; simp add: b0_def n_def)+
    have "keeps b0 (sub_search H src qos retain q n (tokens topic) b0)"
      using keeps_sub_search n node_live_keeps [OF k0] keeps_stored [OF k0 q] by blast
    then have k: "keeps b (sub_search H src qos retain q n (tokens topic) b0)" by (rule keeps_trans [OF k0])
    have eq: "\<exists>e. snd (mqtt3_db_messages_queue H src topic qos retain q b) = log_dxl e (sub_search H src qos retain q n (tokens topic) b0)"
      using Some r br(2) p
      by (cases retain) (auto simp: mqtt3_db_messages_queue_def Let_def tree_ok_hash_find [OF tr] sub_add_def b0_def n_def)
    then show ?thesis using keeps_trans [OF k l] by metis
  qed
qed

lemma messages_queue_rc: "fst (mqtt3_db_messages_queue H src topic qos retain q b) = 0"
  by (simp add: mqtt3_db_messages_queue_def Let_def)

lemma keeps_easy_queue:
  assumes ok: "broker_ok b"
  shows "keeps b (snd (mqtt3_db_messages_easy_queue H context topic qos pl False b))"
proof (cases topic)
  case (Some t)
  define src where "src = (case context of Some c \<Rightarrow> ctx_id (ctxs b c) | None \<Rightarrow> Some '''')"
  obtain rc q b1 where s: "mqtt3_db_message_store H context src 0 topic qos pl False 0 b = (rc, q, b1)" by (metis prod_cases3)
  note st = message_store_keeps [OF s]
  have "keeps b1 (snd (mqtt3_db_messages_queue H src t qos False q b1))"
    using keeps_messages_queue [OF keeps_ok [OF st(3) ok] st(4)] by simp
  then show ?thesis
    using keeps_trans [OF st(3)] s st(1) by (simp add: mqtt3_db_messages_easy_queue_def Some src_def)
qed (simp add: mqtt3_db_messages_easy_queue_def)

section \<open>The sweep of the store\<close>

lemma store_sweep_eq:
  "\<exists>log. store_sweep ss b = (filter (\<lambda>s. ref_count s \<noteq> 0) ss,
     b\<lparr>dxl_log := log, msg_store_count := msg_store_count b - int (length (filter (\<lambda>s. ref_count s = 0) ss))\<rparr>)"
proof (induction ss arbitrary: b)
  case Nil
  show ?case by (intro exI [of _ "dxl_log b"]) simp
next
  case (Cons s ss)
  show ?case
  proof (cases "ref_count s = 0")
    case True
    with Cons.IH [of "(log_dxl (dxl_finalize (db_id s)) b)\<lparr>msg_store_count := msg_store_count b - 1\<rparr>"]
    show ?thesis by (auto simp: log_dxl_def algebra_simps)
  next
    case False
    with Cons.IH [of b] show ?thesis by auto
  qed
qed

lemma store_clean_eq:
  "\<exists>log n. mqtt3_db_store_clean b = b\<lparr>dxl_log := log, msg_store_count := n, msg_store := filter (\<lambda>s. ref_count s \<noteq> 0) (msg_store b)\<rparr>"
  using store_sweep_eq [of "msg_store b" b] unfolding mqtt3_db_store_clean_def by (elim exE) (simp only: prod.case Let_def, blast)

lemma stored_msg_sweep:
  assumes "distinct (store_ptrs b)"
  shows "stored_msg (mqtt3_db_store_clean b) q =
    (case stored_msg b q of Some s \<Rightarrow> if ref_count s \<noteq> 0 then Some s else None | None \<Rightarrow> None)"
proof -
  have "distinct (map store_ptr xs) \<Longrightarrow> find (\<lambda>s. store_ptr s = q) (filter (\<lambda>s. ref_count s \<noteq> 0) xs) =
      (case find (\<lambda>s. store_ptr s = q) xs of Some s \<Rightarrow> if ref_count s \<noteq> 0 then Some s else None | None \<Rightarrow> None)" for xs
  proof (induction xs)
    case (Cons s xs)
    show ?case
    proof (cases "store_ptr s = q")
      case True
      then have "find (\<lambda>s. store_ptr s = q) (filter (\<lambda>s. ref_count s \<noteq> 0) xs) = None"
        using Cons.prems unfolding find_None_iff_ball by (auto simp: image_iff)
      then show ?thesis using True by simp
    qed (use Cons in simp)
  qed simp
  with assms store_clean_eq [of b] show ?thesis by (auto simp: stored_msg_def store_ptrs_def)
qed

lemma store_clean_ptrs: "store_ptrs (mqtt3_db_store_clean b) = map store_ptr (filter (\<lambda>s. ref_count s \<noteq> 0) (msg_store b))"
  using store_clean_eq [of b] by (auto simp: store_ptrs_def)

lemma store_clean_frame:
  "ctxs (mqtt3_db_store_clean b) = ctxs b" "contexts (mqtt3_db_store_clean b) = contexts b" "subs (mqtt3_db_store_clean b) = subs b"
  "next_ptr (mqtt3_db_store_clean b) = next_ptr b" "new_msgs_hash (mqtt3_db_store_clean b) = new_msgs_hash b"
  "new_clients_hash (mqtt3_db_store_clean b) = new_clients_hash b" "pending_bytes_hash (mqtt3_db_store_clean b) = pending_bytes_hash b"
  "new_client (mqtt3_db_store_clean b) = new_client b"
  using store_clean_eq [of b] by auto

lemma stored_ptr: "q \<in> set (store_ptrs b) \<longleftrightarrow> stored_msg b q \<noteq> None"
  by (auto simp: stored_msg_def store_ptrs_def find_None_iff_ball)

lemma referenced:
  assumes "queues_ok b" and "m \<in> set (msgs (ctxs b c))"
  shows "\<exists>s. stored_msg b (cm_store m) = Some s \<and> ref_count s > 0"
proof -
  have st: "store_ok b" using assms(1) by (simp add: queues_ok_def)
  then have c: "c < next_ptr b" using assms(2) unfolding store_ok_def by (metis empty_iff list.set(1) not_le_imp_less)
  have "cm_store m \<in> set (store_ptrs b)" using st assms(2) by (auto simp: store_ok_def)
  then obtain s where s: "stored_msg b (cm_store m) = Some s" by (auto simp: stored_ptr)
  have "count_list (map cm_store (msgs (ctxs b c))) (cm_store m) \<noteq> 0"
    using assms(2) by (simp add: count_list_0_iff)
  then have "refs b (cm_store m) > 0"
    unfolding refs_def using c by (intro sum_pos2 [of _ c]) auto
  moreover have "ref_of b (cm_store m) = refs b (cm_store m)" using st by (simp add: store_ok_def)
  ultimately show ?thesis using s by (auto simp: ref_of_def)
qed

lemma store_clean_ok: "queues_ok b \<Longrightarrow> queues_ok (mqtt3_db_store_clean b)"
proof -
  assume ok: "queues_ok b"
  let ?b = "mqtt3_db_store_clean b"
  have st: "store_ok b" using ok by (simp add: queues_ok_def)
  then have d: "distinct (store_ptrs b)" by (simp add: store_ok_def)
  have "ref_of ?b q = ref_of b q" for q by (simp add: ref_of_def stored_msg_sweep [OF d] split: option.split)
  moreover have "refs ?b q = refs b q" for q by (simp add: refs_def store_clean_frame)
  moreover have "cm_store m \<in> set (store_ptrs ?b)" if "m \<in> set (msgs (ctxs b c))" for m c
    using referenced [OF ok that] stored_msg_sweep [OF d] by (auto simp: stored_ptr)
  moreover have "set (store_ptrs ?b) \<subseteq> set (store_ptrs b)" "distinct (store_ptrs ?b)"
    using d unfolding store_clean_ptrs by (auto simp: store_ptrs_def distinct_map_filter)
  ultimately have "store_ok ?b" using st by (auto simp: store_ok_def store_clean_frame)
  then show ?thesis using ok by (simp add: queues_ok_def store_clean_frame)
qed

lemma broker_ok_store_clean: "broker_ok b \<Longrightarrow> broker_ok (mqtt3_db_store_clean b)"
proof -
  assume ok: "broker_ok b"
  have s: "subs (mqtt3_db_store_clean b) = subs b" by (simp add: store_clean_frame)
  show ?thesis
    using ok store_clean_ok [of b] subs_ok_cong [OF s] subs_at_cong [OF s]
    by (simp add: broker_ok_def slots_ok_def leaves_live_def live_def outgoing_only_def wills_ok_def sets_ok_def bridges_ok_def store_clean_frame)
qed

section \<open>Ending a session\<close>

lemma clean_top_frame:
  "contexts (snd (mqtt3_subs_clean_session b)) = contexts b \<and> msg_store (snd (mqtt3_subs_clean_session b)) = msg_store b"
proof -
  have l: "contexts (snd (clean_leaves full kept ls b)) = contexts b \<and> msg_store (snd (clean_leaves full kept ls b)) = msg_store b" for full kept ls b
    using clean_leaves_eq [of full kept ls b "fst (clean_leaves full kept ls b)" "snd (clean_leaves full kept ls b)"]
    by (auto simp: dropped_def)
  have h: "contexts (snd (subs_clean_full_topic h full depth b)) = contexts b \<and> msg_store (snd (subs_clean_full_topic h full depth b)) = msg_store b"
    and "contexts (snd (snd (snd (snd (subs_clean_children cs full depth kept keys np npl b))))) = contexts b \<and>
      msg_store (snd (snd (snd (snd (subs_clean_children cs full depth kept keys np npl b))))) = msg_store b"
    for h full depth b cs kept keys np npl
  proof (induction h full depth b and cs full depth kept keys np npl b rule: subs_clean_full_topic_subs_clean_children.induct)
    case (1 t ls ret cs keys np npl full depth b)
    let ?full = "add_topic_to_path (Subhier t ls ret cs keys np npl) full depth"
    obtain ls1 b1 where c: "clean_leaves ?full [] ls b = (ls1, b1)" by fastforce
    then show ?case using 1 [OF refl c [symmetric] refl] l [of ?full "[]" ls b] by (simp add: Let_def split_beta)
  next
    case (3 c cs full depth kept keys np npl b)
    obtain c' b1 where c: "subs_clean_full_topic c full (depth + 1) b = (c', b1)" by fastforce
    note ih = "3.IH"(1) "3.IH"(2) [OF c [symmetric] refl] "3.IH"(3) [OF c [symmetric] refl]
    show ?case
      unfolding subs_clean_children.simps Let_def c prod.case using ih c
      by (cases "unused c'") (simp_all only: if_True if_False snd_conv not_False_eq_True)
  qed simp
  have "contexts (snd (clean_top cs b)) = contexts b \<and> msg_store (snd (clean_top cs b)) = msg_store b" for cs b
    by (induction cs arbitrary: b) (simp_all add: split_beta h)
  then show ?thesis by (simp add: mqtt3_subs_clean_session_def split_beta)
qed

lemma keeps_clean_session: "keeps b (snd (mqtt3_subs_clean_session b))"
proof (rule keeps_subs)
  let ?b = "snd (mqtt3_subs_clean_session b)"
  show "contexts ?b = contexts b" "msg_store ?b = msg_store b" using clean_top_frame [of b] by simp_all
  assume ok: "broker_ok b"
  note t = subs_clean_session_table [OF broker_ok_parts(2) [OF ok] prod.collapse [symmetric]]
  obtain n log where e: "?b\<lparr>subs := subs b\<rparr> = b\<lparr>subscription_count := n, dxl_log := log\<rparr>"
    using t(4) unfolding dropped_def by blast
  show "quiet b (?b\<lparr>subs := subs b\<rparr>)" unfolding e by (rule quiet_same_state) (simp add: same_state_def)
  show "subs_ok ?b" by (rule t(2))
  fix p l
  assume "l \<in> set (subs_at ?b p)"
  then show "live b (leaf_context l)" using broker_ok_parts(4) [OF ok] by (auto simp: t(3) leaves_live_def)
qed

end
