(* ===== verification/Context_Inv.thy ===== *)
theory Context_Inv
  imports Database_Inv
begin

text \<open>
  The life of a context: creating it, giving it a slot, ending its session and freeing its slot keep
  the invariant of the database. With them the release of incoming messages, which finds none, and
  the table of canonical client ids as a reference counter.
\<close>

section \<open>Disconnecting\<close>

lemma keeps_log: "keeps b (log_dxl e b)"
  by (rule quiet_keeps [OF quiet_same_state]) simp

lemma keeps_plain: "plain f \<Longrightarrow> keeps b (upd_ctx c f b)"
  by (rule quiet_keeps [OF quiet_upd_ctx])

lemma keeps_drop_listener: "keeps b (drop_listener c b)"
  by (rule quiet_keeps [OF quiet_same_state]) simp

lemma keeps_send: "(\<And>x. io_only x (snd (f x))) \<Longrightarrow> keeps b (snd (with_ctx c f b))"
  by (rule quiet_keeps [OF quiet_with_ctx])

lemma keeps_publish_will:
  assumes ok: "broker_ok b" and "\<not> mm_retain w"
  shows "keeps b (publish_will H c w b)"
proof -
  let ?b = "log_dxl (dxl_publish c (case mm_topic w of Some t \<Rightarrow> t | None \<Rightarrow> '''') (mm_payload w)) b"
  have "keeps ?b (snd (mqtt3_db_messages_easy_queue H (Some c) (mm_topic w) (mm_qos w) (mm_payload w) False ?b))"
    by (rule keeps_easy_queue [OF keeps_ok [OF keeps_log ok]])
  then show ?thesis using assms(2) keeps_trans [OF keeps_log] keeps_log by (simp add: publish_will_def Let_def)
qed

lemma keeps_disconnect:
  assumes ok: "broker_ok b"
  shows "keeps b (mqtt3_context_disconnect H c b)"
proof -
  define b1 where "b1 = (if is_bridge (ctxs b c) then log_dxl (dxl_bridge_disconnected c) b else b)"
  have k1: "keeps b b1" by (simp add: b1_def keeps_log)
  define b2 where "b2 = (case will (ctxs b1 c) of
      Some w \<Rightarrow> if cstate (ctxs b1 c) \<noteq> mosq_cs_disconnecting then publish_will H c w b1 else b1 | None \<Rightarrow> b1)"
  have "\<not> mm_retain w" if "will (ctxs b1 c) = Some w" for w
    using that broker_ok_parts(6) [OF keeps_ok [OF k1 ok]] by (auto simp: wills_ok_def)
  then have k2: "keeps b1 b2"
    using keeps_publish_will [OF keeps_ok [OF k1 ok]] by (simp add: b2_def split: option.split)
  define b3 where "b3 = upd_ctx c (\<lambda>x. x\<lparr>will := None\<rparr>) b2"
  have k3: "keeps b2 b3" unfolding b3_def by (rule keeps_plain) (simp add: plain_def)
  define b4 where "b4 = upd_ctx c (\<lambda>x. x\<lparr>listener := None\<rparr>) (drop_listener c b3)"
  have k4: "keeps b3 b4" unfolding b4_def by (rule keeps_trans [OF keeps_drop_listener keeps_plain]) (simp add: plain_def)
  have k5: "keeps b4 (upd_ctx c (\<lambda>x. socket_close (x\<lparr>disconnect_t := t\<rparr>)) b4)" for t
    by (rule keeps_plain) (simp add: plain_def socket_close_def)
  have "mqtt3_context_disconnect H c b = upd_ctx c (\<lambda>x. socket_close (x\<lparr>disconnect_t := now b\<rparr>)) b4"
    by (simp only: mqtt3_context_disconnect_def Let_def b1_def b2_def b3_def b4_def)
  then show ?thesis
    using keeps_trans [OF keeps_trans [OF k1 k2] keeps_trans [OF keeps_trans [OF k3 k4] k5]] by simp
qed

section \<open>Cleaning up\<close>

lemma cleanup_connection_quiet: "quiet b (cleanup_connection c b)"
proof -
  define b1 where "b1 = upd_ctx c (\<lambda>x. x\<lparr>ssl := False\<rparr>) b"
  have q1: "quiet b b1" unfolding b1_def by (rule quiet_upd_ctx) (simp add: plain_def)
  define b2 where "b2 = (if sock (ctxs b1 c) \<noteq> -1
      then upd_ctx c (\<lambda>x. (socket_close x)\<lparr>listener := None\<rparr>) (drop_listener c b1) else b1)"
  have p: "plain (\<lambda>x. (socket_close x)\<lparr>listener := None\<rparr>)" "plain (\<lambda>x. x\<lparr>cstate := mosq_cs_ws_dead\<rparr>)"
    by (simp_all add: plain_def socket_close_def)
  have q2: "quiet b1 b2"
    unfolding b2_def using quiet_trans [OF quiet_same_state [OF same_state_updates(6)] quiet_upd_ctx [OF p(1)]] by simp
  have "cleanup_connection c b = (if wsi (ctxs b2 c) then upd_ctx c (\<lambda>x. x\<lparr>cstate := mosq_cs_ws_dead\<rparr>) b2 else b2)"
    by (simp only: cleanup_connection_def Let_def b1_def b2_def)
  then show ?thesis using quiet_trans [OF q1 q2] quiet_trans [OF quiet_trans [OF q1 q2] quiet_upd_ctx [OF p(2)]] by simp
qed

lemma keeps_cleanup_session: "keeps b (cleanup_session c cs b)"
proof -
  have p: "plain (\<lambda>x. x\<lparr>clean_subs := v\<rparr>)" for v by (simp add: plain_def)
  have "keeps b (upd_ctx c (\<lambda>x. x\<lparr>clean_subs := False\<rparr>) (snd (mqtt3_subs_clean_session (upd_ctx c (\<lambda>x. x\<lparr>clean_subs := True\<rparr>) b))))"
    by (rule keeps_trans [OF keeps_plain [OF p] keeps_trans [OF keeps_clean_session keeps_plain [OF p]]])
  then show ?thesis
    using keeps_messages_delete keeps_trans [OF _ keeps_messages_delete] by (simp add: cleanup_session_def Let_def)
qed

lemma cleanup_names_quiet: "quiet b (cleanup_names c b)"
proof -
  define b1 where "b1 = upd_ctx c (\<lambda>x. x\<lparr>address := None\<rparr>) b"
  have q1: "quiet b b1" unfolding b1_def by (rule quiet_upd_ctx) (simp add: plain_def)
  define b2 where "b2 = (case canonical_id (ctxs b1 c) of None \<Rightarrow> b1 | Some cid \<Rightarrow> mqtt3_db_remove_canonical_client_id cid b1)"
  have q2: "quiet b1 b2" unfolding b2_def by (auto split: option.split intro!: quiet_same_state)
  have p: "plain (\<lambda>x. x\<lparr>ctx_id := None, canonical_id := None\<rparr>)" "plain (\<lambda>x. x\<lparr>cert_hashes := []\<rparr>)"
    "plain (\<lambda>x. x\<lparr>cert_chain := None, dxl_client_guid := None, dxl_tenant_guid := None\<rparr>)" by (simp_all add: plain_def)
  define b3 where "b3 = (case ctx_id (ctxs b2 c) of None \<Rightarrow> b2
      | Some i \<Rightarrow> upd_ctx c (\<lambda>x. x\<lparr>ctx_id := None, canonical_id := None\<rparr>)
          (if cih_find i (clientid_index_hash b2) \<noteq> None then
             log_dxl (dxl_client_disconnected c) (b2\<lparr>clientid_index_hash := cih_del i (clientid_index_hash b2)\<rparr>) else b2))"
  have "quiet b2 (log_dxl e (b2\<lparr>clientid_index_hash := h\<rparr>))" for e h
    by (rule quiet_trans [OF quiet_same_state [OF same_state_updates(3)] quiet_same_state [OF same_state_updates(1)]])
  then have q3: "quiet b2 b3"
    unfolding b3_def using quiet_upd_ctx [OF p(1)] quiet_trans [OF _ quiet_upd_ctx [OF p(1)]] by (simp split: option.split)
  have "cleanup_names c b = upd_ctx c (\<lambda>x. x\<lparr>cert_hashes := []\<rparr>)
      (upd_ctx c (\<lambda>x. x\<lparr>cert_chain := None, dxl_client_guid := None, dxl_tenant_guid := None\<rparr>) b3)"
    by (simp only: cleanup_names_def mqtt3_context_cleanup_certs_def Let_def b1_def b2_def b3_def)
  then show ?thesis
    using quiet_trans [OF quiet_trans [OF q1 quiet_trans [OF q2 q3]] quiet_trans [OF quiet_upd_ctx [OF p(3)] quiet_upd_ctx [OF p(2)]]]
    by simp
qed

lemma keeps_cleanup_buffers: "keeps b (cleanup_buffers c b)"
  unfolding cleanup_buffers_def by (rule keeps_trans [OF keeps_remove_pending keeps_plain]) (simp add: plain_def)

lemma cleanup_queue_eq:
  "cleanup_queue c do_free b =
     (let b1 = (if do_free \<or> clean_session (ctxs b c)
                then upd_ctx c (\<lambda>x. x\<lparr>packet_count := 0\<rparr>) (snd (mqtt3_db_messages_delete c b)) else b)
      in if do_free then upd_ctx c (\<lambda>x. x\<lparr>wsi := False\<rparr>) b1 else b1)"
  by (simp add: cleanup_queue_def mqtt3_db_messages_delete_def upd_ctx_def Let_def)

lemma keeps_cleanup_queue: "keeps b (cleanup_queue c do_free b)"
proof -
  have p: "plain (\<lambda>x. x\<lparr>packet_count := 0\<rparr>)" "plain (\<lambda>x. x\<lparr>wsi := False\<rparr>)" by (simp_all add: plain_def)
  have k: "keeps b (upd_ctx c (\<lambda>x. x\<lparr>packet_count := 0\<rparr>) (snd (mqtt3_db_messages_delete c b)))"
    by (rule keeps_trans [OF keeps_messages_delete keeps_plain [OF p(1)]])
  then show ?thesis
    unfolding cleanup_queue_eq Let_def using keeps_trans [OF k keeps_plain [OF p(2)]] keeps_plain [OF p(2)] by simp
qed

lemma keeps_cleanup: "keeps b (mqtt3_context_cleanup c do_free cs b)"
  unfolding mqtt3_context_cleanup_def
  by (rule keeps_trans [OF quiet_keeps [OF cleanup_connection_quiet] keeps_trans [OF keeps_cleanup_session
      keeps_trans [OF quiet_keeps [OF cleanup_names_quiet] keeps_trans [OF keeps_cleanup_buffers keeps_cleanup_queue]]]])

section \<open>Slots\<close>

lemma broker_ok_free_slot:
  assumes ok: "broker_ok b" and i: "i < length (contexts b)" "contexts b ! i = Some c"
    and n: "\<And>p l. l \<in> set (subs_at b p) \<Longrightarrow> leaf_context l \<noteq> c"
    and h: "c \<notin> set (new_msgs_hash b)" "c \<notin> set (new_clients_hash b)" "c \<notin> set (pending_bytes_hash b)"
  shows "broker_ok (b\<lparr>contexts := (contexts b)[i := None]\<rparr>)"
proof -
  let ?b = "b\<lparr>contexts := (contexts b)[i := None]\<rparr>"
  have s: "subs ?b = subs b" by simp
  have "queues_ok ?b = queues_ok b"
    by (simp add: queues_ok_def store_ok_def refs_def ref_of_def stored_msg_def store_ptrs_def)
  moreover have lv: "live ?b d" if ld: "live b d" and dc: "d \<noteq> c" for d
  proof -
    obtain j where j: "j < length (contexts b)" "contexts b ! j = Some d" using ld unfolding live_def in_set_conv_nth by blast
    then have "j \<noteq> i" using i(2) dc by auto
    then have "(contexts b)[i := None] ! j = Some d" "j < length ((contexts b)[i := None])" using j by simp_all
    then show ?thesis unfolding live_def by (metis nth_mem broker.select_convs(2) broker.surjective broker.update_convs(2))
  qed
  then have "leaves_live ?b"
    using broker_ok_parts(4) [OF ok] n subs_at_cong [OF s] by (auto simp: leaves_live_def)
  moreover have "sets_ok ?b"
    using broker_ok_parts(7) [OF ok] h lv by (auto simp: sets_ok_def)
  moreover have "slots_ok ?b"
    using broker_ok_parts(3) [OF ok] i(1) by (auto simp: slots_ok_def nth_list_update split: if_splits)
  ultimately show ?thesis
    using ok subs_ok_cong [OF s] by (simp add: broker_ok_def outgoing_only_def wills_ok_def bridges_ok_def)
qed

lemma free_slot_props:
  "free_slot cs \<le> length cs" "j < free_slot cs \<Longrightarrow> cs ! j \<noteq> None" "free_slot cs < length cs \<Longrightarrow> cs ! free_slot cs = None"
proof -
  show "free_slot cs \<le> length cs" by (induction cs rule: free_slot.induct) auto
  show "j < free_slot cs \<Longrightarrow> cs ! j \<noteq> None"
    by (induction cs arbitrary: j rule: free_slot.induct) (auto simp: nth_Cons split: nat.splits)
  show "free_slot cs < length cs \<Longrightarrow> cs ! free_slot cs = None" by (induction cs rule: free_slot.induct) auto
qed

lemma broker_ok_context_init:
  assumes ok: "broker_ok b" and r: "mqtt3_context_init s peer b = (Some c, b')"
  shows "broker_ok b'" and "c = next_ptr b" and "\<not> live b' c" and "c < next_ptr b'" and "contexts b' = contexts b"
proof -
  define x where "x = zero_context\<lparr>sock := s, last_msg_in := now b, last_msg_out := now b,
    keepalive := 60, clean_session := True, in_packet := packet_cleanup empty_packet, address := (if s \<noteq> -1 then peer else None)\<rparr>"
  have e: "c = next_ptr b" "b' = b\<lparr>ctxs := (ctxs b)(next_ptr b := x), next_ptr := next_ptr b + 1\<rparr>"
    using r by (auto simp: mqtt3_context_init_def x_def split: if_splits)
  have x: "msgs x = []" "msg_count x = 0" "msg_count12 x = 0" "will x = None" "bridge x = None" by (simp_all add: x_def zero_context_def)
  have q: "queues_ok b" using ok by (simp add: broker_ok_def)
  then have st: "store_ok b" by (simp add: queues_ok_def)
  have m: "msgs (ctxs b (next_ptr b)) = []" using st by (simp add: store_ok_def)
  have ms: "msgs (ctxs b' d) = msgs (ctxs b d)" for d using m x by (simp add: e)
  have "refs b' k = refs b k" for k unfolding refs_def ms by (simp add: e m)
  moreover have "ref_of b' k = ref_of b k" "store_ptrs b' = store_ptrs b" for k
    by (simp_all add: e ref_of_def stored_msg_def store_ptrs_def)
  ultimately have "store_ok b'" using st unfolding store_ok_def ms by (auto simp: e less_Suc_eq)
  moreover have "queue_ok (ctxs b' d)" for d using q x by (simp add: e queues_ok_def queue_ok_def)
  ultimately have "queues_ok b'" by (simp add: queues_ok_def)
  moreover have nl: "\<not> live b (next_ptr b)" using live_bound [OF ok] by auto
  then have "slots_ok b'"
    using broker_ok_parts(3) [OF ok] unfolding slots_ok_def live_def e by (auto simp: less_SucI)
  moreover have "next_ptr b \<notin> set (pending_bytes_hash b)" using nl broker_ok_parts(7) [OF ok] by (auto simp: sets_ok_def)
  then have sets: "sets_ok b'"
    using broker_ok_parts(7) [OF ok] by (auto simp: sets_ok_def live_def e)
  moreover have s: "subs b' = subs b" by (simp add: e)
  moreover have "outgoing_only b'" "wills_ok b'" "bridges_ok b'"
    using ok x ms by (simp_all add: broker_ok_def outgoing_only_def) (auto simp: e wills_ok_def bridges_ok_def)
  ultimately show "broker_ok b'"
    using ok subs_ok_cong [OF s] subs_at_cong [OF s] sets by (simp add: broker_ok_def leaves_live_def live_def) (simp add: e)
  show "c = next_ptr b" "\<not> live b' c" "c < next_ptr b'" "contexts b' = contexts b" using nl by (simp_all add: e live_def)
qed

lemma broker_ok_add_new_context:
  assumes ok: "broker_ok b" and c: "c < next_ptr b" "\<not> live b c"
  shows "broker_ok (snd (mqtt3_db_add_new_context c b))" and "live (snd (mqtt3_db_add_new_context c b)) c"
proof -
  define i where "i = free_slot (contexts b)"
  define slots where "slots = (if i = length (contexts b) then contexts b @ replicate CONTEXT_REALLOC_SIZE None else contexts b)"
  define f where "f = (\<lambda>x. x\<lparr>numericId := i, db_index := i\<rparr> :: mosquitto)"
  define g where "g = (\<lambda>n h b. b\<lparr>new_client := n, new_clients_hash := h\<rparr> :: broker)"
  let ?b = "snd (mqtt3_db_add_new_context c b)"
  define b1 where "b1 = b\<lparr>ctxs := (ctxs b)(c := f (ctxs b c)), contexts := slots[i := Some c]\<rparr>"
  define h where "h = (if wsi (ctxs b c) \<or> c \<in> set (new_clients_hash b) then new_clients_hash b else new_clients_hash b @ [c])"
  have eq: "?b = g (new_client b \<or> \<not> wsi (ctxs b c)) h b1"
    by (intro broker.equality)
      (auto simp: mqtt3_db_add_new_context_def Let_def upd_ctx_def mosquitto_add_new_clients_set_def f_def g_def b1_def i_def slots_def h_def)
  note fs = free_slot_props [where cs = "contexts b"]
  have i: "i < length slots" using fs(1) by (auto simp: slots_def i_def)
  have sl: "slots ! j = Some d \<Longrightarrow> j < length slots \<Longrightarrow> j < length (contexts b) \<and> contexts b ! j = Some d" for j d
    by (auto simp: slots_def nth_append split: if_splits)
  have n: "d \<noteq> c" if "slots ! j = Some d" "j < length slots" for j d
    using sl [OF that] c(2) unfolding live_def by (metis nth_mem)
  have a: "acct b b1" by (simp add: acct_def b1_def f_def ref_of_def stored_msg_def store_ptrs_def)
  have lv: "live b1 d" if ld: "live b d" for d
  proof -
    obtain j where j: "j < length (contexts b)" "contexts b ! j = Some d" using ld unfolding live_def in_set_conv_nth by blast
    then have "j \<noteq> i" using fs(3) by (auto simp: i_def)
    moreover have "slots ! j = Some d" "j < length slots" using j by (auto simp: slots_def nth_append)
    ultimately have "j < length (slots[i := Some c]) \<and> slots[i := Some c] ! j = Some d" by simp
    then show ?thesis unfolding live_def b1_def by (metis nth_mem broker.select_convs(2) broker.surjective broker.update_convs(2))
  qed
  have "numericId (ctxs b1 d) = j \<and> db_index (ctxs b1 d) = j \<and> d < next_ptr b1"
    if j: "j < length slots" "slots[i := Some c] ! j = Some d" for j d
  proof (cases "j = i")
    case True
    then have "d = c" using j i by simp
    then show ?thesis using True c(1) by (simp add: b1_def f_def)
  next
    case False
    then have sj: "slots ! j = Some d" using j by simp
    then show ?thesis
      using sl [OF sj j(1)] n [OF sj j(1)] broker_ok_parts(3) [OF ok] unfolding slots_ok_def b1_def by auto
  qed
  then have "slots_ok b1" by (simp add: slots_ok_def b1_def)
  moreover have s: "subs b1 = subs b" by (simp add: b1_def)
  moreover have "leaves_live b1" using broker_ok_parts(4) [OF ok] lv subs_at_cong [OF s] by (auto simp: leaves_live_def)
  moreover have "outgoing_only b1" "wills_ok b1" "bridges_ok b1"
    using ok by (auto simp: broker_ok_def outgoing_only_def wills_ok_def bridges_ok_def b1_def f_def)
  moreover have st: "sets_ok b1"
    using broker_ok_parts(7) [OF ok] lv by (auto simp: sets_ok_def) (auto simp: b1_def f_def)
  ultimately have ok1: "broker_ok b1"
    using ok acct_queues_ok [OF a] subs_ok_cong [OF s] by (simp add: broker_ok_def)
  have "Some c \<in> set (slots[i := Some c])" using i by (simp add: set_update_memI)
  then have l1: "live b1 c" by (simp add: live_def b1_def)
  then show "live ?b c" unfolding eq by (simp add: live_def g_def)
  have sg: "subs (g n h b1) = subs b1" and ag: "acct b1 (g n h b1)" for n
    by (simp_all add: acct_def g_def store_ptrs_def ref_of_def stored_msg_def)
  have "new_clients_hash b1 = new_clients_hash b" "new_client b1 = new_client b" by (simp_all add: b1_def)
  then have "sets_ok (g (new_client b \<or> \<not> wsi (ctxs b c)) h b1)"
    using st l1 by (auto simp: sets_ok_def g_def live_def h_def)
  then show "broker_ok ?b"
    unfolding eq using ok1 acct_queues_ok [OF ag] subs_ok_cong [OF sg] subs_at_cong [OF sg]
    by (simp add: broker_ok_def slots_ok_def leaves_live_def live_def outgoing_only_def wills_ok_def bridges_ok_def) (simp add: g_def)
qed

end
