(* ===== verification/Handlers_Inv.thy ===== *)
theory Handlers_Inv
  imports Context_Inv
begin

text \<open>
  The packet handlers keep the invariant of the database: whatever bytes a client sends, a handler
  returns, and leaves the queues, the reference counts, the tree and the slots in order.
\<close>

section \<open>What a send does to a context\<close>

lemma more_sends_io_only:
  "io_only x (snd (send_simple_command t x cmd))" "io_only x (snd (send_pingresp t x))"
  "io_only x (snd (send_disconnect t x))" "io_only x (snd (send_connack t x r))" "io_only x (snd (send_suback t x mid pl))"
proof -
  show "io_only x (snd (send_simple_command t x cmd))" for cmd
    by (simp add: send_simple_command_def packet_queue_io_only split_beta)
  then show "io_only x (snd (send_pingresp t x))" "io_only x (snd (send_disconnect t x))"
    by (simp_all add: send_pingresp_def send_disconnect_def)
  show "io_only x (snd (send_connack t x r))" by (simp add: send_connack_def packet_queue_io_only split_beta)
  show "io_only x (snd (send_suback t x mid pl))" by (simp add: send_suback_def packet_queue_io_only split_beta Let_def)
qed

lemma plain_comp: "plain f \<Longrightarrow> plain g \<Longrightarrow> plain (\<lambda>x. g (f x))"
  by (auto simp: plain_def) (metis option.distinct(1))+

lemma plain_mid: "plain (\<lambda>x. snd (mid_generate x))"
  by (simp add: plain_def mid_generate_def Let_def)

lemma plain_after:
  assumes g: "plain g" and f: "\<And>x. f x = x \<or> io_only (g x) (f x)"
  shows "plain f"
  unfolding plain_def
proof (intro allI)
  fix x
  show "msgs (f x) = msgs x \<and> msg_count (f x) = msg_count x \<and> msg_count12 (f x) = msg_count12 x \<and>
     numericId (f x) = numericId x \<and> db_index (f x) = db_index x \<and> will (f x) \<in> {will x, None} \<and>
     pending_bytes (f x) = pending_bytes x \<and> (bridge_at_ok (bridge x) \<longrightarrow> bridge_at_ok (bridge (f x))) \<and> (bridge x = None \<longrightarrow> bridge (f x) = None)"
  proof (cases "f x = x")
    case False
    then have io: "io_only (g x) (f x)" using f by blast
    have "numericId (f x) = numericId (g x)" "pending_bytes (f x) = pending_bytes (g x)"
      using arg_cong [OF io [unfolded io_only_def], of numericId] arg_cong [OF io [unfolded io_only_def], of pending_bytes] by simp_all
    then show ?thesis using io_only_fields(1-3,8,16,18) [OF io] g by (simp add: plain_def)
  qed simp
qed

lemma plain_sends:
  "plain (\<lambda>x. snd (send_pingreq t x))" "plain (\<lambda>x. snd (send_subscribe t x dup topic q))"
  "plain (\<lambda>x. snd (send_unsubscribe t x dup topic))" "plain (\<lambda>x. snd (send_connect t x ka clean))"
proof -
  have "plain (\<lambda>x. snd (send_simple_command t x PINGREQ))" by (rule io_only_plain) (simp add: more_sends_io_only)
  then show "plain (\<lambda>x. snd (send_pingreq t x))" by (simp add: plain_def send_pingreq_def split_beta)
  show "plain (\<lambda>x. snd (send_connect t x ka clean))"
    by (rule plain_after [where g = "\<lambda>x. x\<lparr>keepalive := ka\<rparr>"]) (simp_all add: plain_def send_connect_def Let_def packet_queue_io_only split_beta)
  show "plain (\<lambda>x. snd (send_subscribe t x dup topic q))"
    by (rule plain_after [OF plain_mid]) (simp add: send_subscribe_def Let_def packet_queue_io_only split_beta)
  show "plain (\<lambda>x. snd (send_unsubscribe t x dup topic))"
    by (rule plain_after [OF plain_mid]) (simp add: send_unsubscribe_def Let_def packet_queue_io_only split_beta)
qed

lemma keeps_with_ctx: "plain (\<lambda>x. snd (f x)) \<Longrightarrow> keeps b (snd (with_ctx c f b))"
proof -
  have "snd (with_ctx c f b) = upd_ctx c (\<lambda>x. snd (f x)) b" by (simp add: with_ctx_def upd_ctx_def split_beta)
  then show "plain (\<lambda>x. snd (f x)) \<Longrightarrow> ?thesis" using keeps_plain by metis
qed

lemma keeps_with_ctx_eq: "with_ctx c f b = (rc, b') \<Longrightarrow> plain (\<lambda>x. snd (f x)) \<Longrightarrow> keeps b b'"
  using keeps_with_ctx [of f b c] by simp

lemma take_in_keeps: "take_in f c b = Inr (v, b') \<Longrightarrow> keeps b b'"
proof -
  assume t: "take_in f c b = Inr (v, b')"
  then obtain p where "b' = upd_ctx c (\<lambda>x. x\<lparr>in_packet := p\<rparr>) b" by (auto simp: take_in_def split: sum.splits)
  then show ?thesis using keeps_plain [of "\<lambda>x. x\<lparr>in_packet := p\<rparr>"] by (simp add: plain_def)
qed

lemma take_in_live: "take_in f c b = Inr (v, b') \<Longrightarrow> live b' d = live b d"
  by (rule keeps_live [OF take_in_keeps])

section \<open>Acknowledgements\<close>

lemma promote_direction [simp]: "cm_direction (promote t n i m) = cm_direction m"
  by (simp add: promote_def)

text \<open>A queue without incoming messages has nothing to release: the walk ends, reports that it found
  nothing, and has at most let queued messages into the window.\<close>

lemma release_loop_outgoing:
  "outgoing tail \<Longrightarrow> \<exists>ms. message_release_loop H c mid mosq_md_in i False before tail b = Some (1, set_msgs c (before @ ms) b) \<and>
     list_all2 (\<lambda>m m'. same_ref m m' \<and> cm_direction m' = cm_direction m) tail ms"
proof (induction tail arbitrary: i before)
  case Nil
  then show ?case by (simp add: message_release_loop.simps)
next
  case (Cons m tail)
  let ?m = "promote (now b) (max_inflight b) (i + 1) m"
  have m: "cm_direction m = mosq_md_out" and t: "outgoing tail" using Cons.prems by simp_all
  obtain ms where ms: "message_release_loop H c mid mosq_md_in (i + 1) False (before @ [?m]) tail b
      = Some (1, set_msgs c ((before @ [?m]) @ ms) b)" "list_all2 (\<lambda>m m'. same_ref m m' \<and> cm_direction m' = cm_direction m) tail ms"
    using Cons.IH [OF t] by blast
  have "message_release_loop H c mid mosq_md_in i False before (m # tail) b =
      message_release_loop H c mid mosq_md_in (i + 1) False (before @ [?m]) tail b"
    by (subst message_release_loop.simps) (simp add: release_promote_def m Let_def)
  then show ?case using ms by (intro exI [of _ "?m # ms"]) simp
qed

lemma release_outgoing:
  assumes ok: "outgoing_only b"
  obtains b' where "mqtt3_db_message_release H c mid mosq_md_in b = Some (1, b')" and "keeps b b'"
proof -
  have "outgoing (msgs (ctxs b c))" using ok by (simp add: outgoing_only_def)
  then obtain ms where "mqtt3_db_message_release H c mid mosq_md_in b = Some (1, set_msgs c ms b)"
      "list_all2 (\<lambda>m m'. same_ref m m' \<and> cm_direction m' = cm_direction m) (msgs (ctxs b c)) ms"
    using release_loop_outgoing [of "msgs (ctxs b c)" H c mid 0 "[]" b] by (auto simp: mqtt3_db_message_release_def)
  then show ?thesis using that keeps_relabel by blast
qed

lemma keeps_pings: "keeps b (snd (handle_pingreq c b))" "keeps b (snd (handle_pingresp c b))"
proof -
  show "keeps b (snd (handle_pingreq c b))"
    unfolding handle_pingreq_def by (rule keeps_send) (rule more_sends_io_only)
  show "keeps b (snd (handle_pingresp c b))"
    unfolding handle_pingresp_def using keeps_plain [of "\<lambda>x. x\<lparr>ping_t := 0\<rparr>"] by (simp add: plain_def)
qed

lemma keeps_pubackcomp: "keeps b (snd (handle_pubackcomp c b))"
proof (cases "take_in read_uint16 c b")
  case (Inr r)
  then obtain mid b1 where r: "take_in read_uint16 c b = Inr (mid, b1)" by (cases r) auto
  show ?thesis
    using take_in_keeps [OF r] keeps_trans [OF take_in_keeps [OF r] keeps_delete] by (simp add: handle_pubackcomp_def r)
qed (simp add: handle_pubackcomp_def)

lemma keeps_pubrec: "keeps b (snd (handle_pubrec c b))"
proof (cases "take_in read_uint16 c b")
  case (Inr r)
  then obtain mid b1 where r: "take_in read_uint16 c b = Inr (mid, b1)" by (cases r) auto
  obtain rc b2 where u: "mqtt3_db_message_update c mid mosq_md_out mosq_ms_wait_for_pubcomp b1 = (rc, b2)" by fastforce
  have k: "keeps b b2" using keeps_trans [OF take_in_keeps [OF r]] keeps_update [of b1 c mid mosq_md_out mosq_ms_wait_for_pubcomp] u by simp
  then show ?thesis
    using keeps_trans [OF k keeps_send [of "\<lambda>x. send_pubrel (now b2) x mid False"]]
    by (simp add: handle_pubrec_def r u send_io_only)
qed (simp add: handle_pubrec_def)

lemma keeps_pubrel:
  assumes ok: "broker_ok b"
  shows "\<exists>rc b'. handle_pubrel H c b = Some (rc, b') \<and> keeps b b'"
proof (cases "take_in read_uint16 c b")
  case (Inr r)
  then obtain mid b1 where r: "take_in read_uint16 c b = Inr (mid, b1)" by (cases r) auto
  note k1 = take_in_keeps [OF r]
  obtain b2 where b2: "mqtt3_db_message_release H c mid mosq_md_in b1 = Some (1, b2)" "keeps b1 b2"
    using release_outgoing [OF broker_ok_parts(5) [OF keeps_ok [OF k1 ok]]] by blast
  obtain rc b3 where b3: "with_ctx c (\<lambda>x. send_pubcomp (now b2) x mid) b2 = (rc, b3)" by fastforce
  have "keeps b2 b3" using keeps_send [of "\<lambda>x. send_pubcomp (now b2) x mid" b2 c] b3 by (simp add: send_io_only)
  then have "keeps b b3" using k1 b2(2) keeps_trans by blast
  then show ?thesis using r b2(1) b3 by (simp add: handle_pubrel_def)
qed (simp add: handle_pubrel_def)

lemma suback_loop_keeps: "keeps b (snd (suback_loop n c b))"
proof (induction n arbitrary: b)
  case (Suc n)
  have "keeps b (snd (suback_loop n c b1))" if t: "take_in read_byte c b = Inr (v, b1)" for v b1
    by (rule keeps_trans [OF take_in_keeps [OF t] Suc.IH])
  then show ?case by (auto split: sum.split)
qed simp

lemma keeps_suback: "keeps b (snd (handle_suback c b))" "keeps b (snd (handle_unsuback c b))"
  using suback_loop_keeps keeps_trans [OF take_in_keeps suback_loop_keeps] take_in_keeps
  by (auto simp: handle_suback_def handle_unsuback_def split: sum.split)

section \<open>PUBLISH\<close>

lemma publish_qos_nonneg: "0 \<le> publish_qos h"
  by (simp add: publish_qos_def)

lemma keeps_publish_accept:
  assumes ok: "broker_ok b"
  shows "keeps b (snd (publish_accept H c topic 0 False mid pl b))"
proof -
  define b1 where "b1 = log_dxl (dxl_publish c topic pl) b"
  have k1: "keeps b b1" unfolding b1_def by (rule keeps_log)
  obtain rc q b2 where st: "mqtt3_db_message_store H (Some c) (ctx_id (ctxs b1 c)) mid (Some topic) 0 pl False 0 b1 = (rc, q, b2)"
    by (metis prod_cases3)
  note s = message_store_keeps [OF st]
  have k2: "keeps b b2" by (rule keeps_trans [OF k1 s(3)])
  have "keeps b2 (snd (mqtt3_db_messages_queue H (ctx_id (ctxs b2 c)) topic 0 False q b2))"
    by (rule keeps_messages_queue [OF keeps_ok [OF k2 ok] s(4)]) simp
  then have "keeps b (snd (publish_stored H c topic 0 False False mid q b2))"
    using keeps_trans [OF k2] by (simp add: publish_stored_def split_beta)
  then show ?thesis using k1 st by (simp add: publish_accept_def publish_bad_def b1_def [symmetric])
qed

lemma keeps_publish_body:
  assumes ok: "broker_ok b"
  shows "keeps b (snd (publish_body_of H c topic 0 False mid b))"
proof -
  let ?n = "u32 (remaining_length (in_packet (ctxs b c)) + 2 ^ 32 - pos (in_packet (ctxs b c)))"
  have "keeps b (snd (publish_accept H c topic 0 False mid pl b1))"
    if t: "take_in (\<lambda>p. read_bytes p ?n) c b = Inr (pl, b1)" for pl b1
    by (rule keeps_trans [OF take_in_keeps [OF t] keeps_publish_accept [OF keeps_ok [OF take_in_keeps [OF t] ok]]])
  then show ?thesis
    unfolding publish_body_of_def Let_def publish_bad_def using keeps_publish_accept [OF ok]
    by (simp split: sum.split)
qed

lemma keeps_publish:
  assumes ok: "broker_ok b"
  shows "keeps b (snd (mqtt3_handle_publish H c b))"
proof -
  have "keeps b1 (snd (publish_body_of H c topic 0 False 0 b1))" "keeps b b1"
    if t: "take_in read_string c b = Inr (v, b1)" for v b1 topic
    using keeps_publish_body [OF keeps_ok [OF take_in_keeps [OF t] ok]] take_in_keeps [OF t] by simp_all
  then show ?thesis
    unfolding mqtt3_handle_publish_def Let_def using publish_qos_nonneg [of "command (in_packet (ctxs b c))"]
    by (auto simp: order_antisym split: sum.split intro: keeps_trans)
qed

section \<open>SUBSCRIBE and UNSUBSCRIBE\<close>

lemma read_string_no_NUL: "take_in read_string c b = Inr (s, b') \<Longrightarrow> NUL \<notin> set s"
  by (auto simp: take_in_def read_string_def split: sum.splits if_splits)

lemma filter_ok_pound: "filter_ok ts \<Longrightarrow> pound_last ts"
  by (induction ts rule: filter_ok.induct) (auto simp: pound_last_def split: if_splits)

lemma checked_filter_pound:
  assumes "NUL \<notin> set f" and "mosquitto_topic_wildcard_pos_check f = 0"
  shows "pound_last (tokens f)"
proof -
  have "pound_last (split_topic f)"
    using assms by (intro filter_ok_pound) (simp add: pos_check_ok split: if_splits)
  then show ?thesis by (simp add: sub_topic_tokenise_eq pound_last_def)
qed

lemma keeps_subscribe_one:
  assumes ok: "broker_ok b" and c: "live b c" and f: "pound_last (tokens f)"
  shows "keeps b (snd (subscribe_one H c f q rc b))"
proof -
  obtain rc2 b1 where a: "mqtt3_sub_add H c f (uint q) b = (rc2, b1)" by fastforce
  have k: "keeps b b1" using keeps_sub_add [OF c f, of H "uint q"] a by simp
  have "mqtt3_retain_queue H c f (uint q) b1 = (0, b1)"
    by (rule retain_queue_nothing) (rule broker_ok_parts(2) [OF keeps_ok [OF k ok]])
  then show ?thesis using k by (simp add: subscribe_one_def a)
qed

lemma subscribe_loop_keeps:
  assumes "broker_ok b" and "live b c"
  shows "case subscribe_loop H n c granted rc b of Inl r \<Rightarrow> keeps b (snd r) | Inr (g, rc', b') \<Rightarrow> keeps b b'"
  using assms
proof (induction n arbitrary: granted rc b)
  case (Suc n)
  show ?case
  proof (cases "take_in read_string c b")
    case (Inr r)
    then obtain f b1 where r: "take_in read_string c b = Inr (f, b1)" by (cases r) auto
    note k1 = take_in_keeps [OF r]
    show ?thesis
    proof (cases "take_in read_byte c b1")
      case Inl
      then show ?thesis using k1 by (auto simp: r)
    next
      case (Inr s)
      then obtain q b2 where s: "take_in read_byte c b1 = Inr (q, b2)" by (cases s) auto
      note k2 = keeps_trans [OF k1 take_in_keeps [OF s]]
      show ?thesis
      proof (cases "f = '''' \<or> mosquitto_topic_wildcard_pos_check f \<noteq> 0 \<or> q > 2")
        case True
        then show ?thesis using k1 k2 by (auto simp: r s)
      next
        case False
        obtain rc2 b3 where o: "subscribe_one H c f q rc b2 = (rc2, b3)" by fastforce
        have "keeps b2 b3"
          using keeps_subscribe_one [OF keeps_ok [OF k2 Suc.prems(1)] _ checked_filter_pound [OF read_string_no_NUL [OF r]], of c H q rc]
            keeps_live [OF k2] Suc.prems(2) False o by simp
        then have k3: "keeps b b3" by (rule keeps_trans [OF k2])
        then have "case subscribe_loop H n c (granted @ [q]) rc2 b3 of Inl r \<Rightarrow> keeps b3 (snd r) | Inr (g, rc', b') \<Rightarrow> keeps b3 b'"
          using Suc.IH keeps_ok [OF k3 Suc.prems(1)] keeps_live [OF k3] Suc.prems(2) by simp
        then have "case subscribe_loop H n c (granted @ [q]) rc2 b3 of Inl r \<Rightarrow> keeps b (snd r) | Inr (g, rc', b') \<Rightarrow> keeps b b'"
          using keeps_trans [OF k3] by (auto split: sum.splits)
        then show ?thesis using False by (simp add: r s o)
      qed
    qed
  qed simp
qed simp

lemma keeps_subscribe:
  assumes ok: "broker_ok b" and c: "live b c"
  shows "keeps b (snd (mqtt3_handle_subscribe H c b))"
proof (cases "take_in read_uint16 c b")
  case (Inr r)
  then obtain mid b1 where r: "take_in read_uint16 c b = Inr (mid, b1)" by (cases r) auto
  note k1 = take_in_keeps [OF r]
  let ?n = "remaining_length (in_packet (ctxs b c))"
  have l: "case subscribe_loop H ?n c [] 0 b1 of Inl r \<Rightarrow> keeps b1 (snd r) | Inr (g, rc', b') \<Rightarrow> keeps b1 b'"
    using subscribe_loop_keeps [OF keeps_ok [OF k1 ok]] keeps_live [OF k1] c by simp
  show ?thesis
  proof (cases "subscribe_loop H ?n c [] 0 b1")
    case (Inl res)
    then show ?thesis using l keeps_trans [OF k1] by (simp add: mqtt3_handle_subscribe_def r)
  next
    case (Inr res)
    then obtain g rc b2 where res: "subscribe_loop H ?n c [] 0 b1 = Inr (g, rc, b2)" by (cases res) auto
    then have k2: "keeps b b2" using l keeps_trans [OF k1] by simp
    then have "keeps b (snd (with_ctx c (\<lambda>x. send_suback (now b2) x mid g) b2))"
      by (rule keeps_trans) (rule keeps_send, rule more_sends_io_only)
    then show ?thesis using k2 by (simp add: mqtt3_handle_subscribe_def r res split_beta)
  qed
qed (simp add: mqtt3_handle_subscribe_def)

lemma unsubscribe_loop_keeps:
  "case unsubscribe_loop n c b of Inl r \<Rightarrow> keeps b (snd r) | Inr b' \<Rightarrow> keeps b b'"
proof (induction n arbitrary: b)
  case (Suc n)
  have "case unsubscribe_loop n c (snd (mqtt3_sub_remove c f b1)) of Inl r \<Rightarrow> keeps b (snd r) | Inr b' \<Rightarrow> keeps b b'"
    if t: "take_in read_string c b = Inr (f, b1)" for f b1
  proof -
    let ?b = "snd (mqtt3_sub_remove c f b1)"
    have k: "keeps b ?b" by (rule keeps_trans [OF take_in_keeps [OF t] keeps_sub_remove])
    show ?thesis using Suc.IH [of ?b] keeps_trans [OF k] by (cases "unsubscribe_loop n c ?b") simp_all
  qed
  then show ?case using take_in_keeps by (auto split: sum.split)
qed simp

lemma keeps_unsubscribe: "keeps b (snd (mqtt3_handle_unsubscribe c b))"
proof (cases "take_in read_uint16 c b")
  case (Inr r)
  then obtain mid b1 where r: "take_in read_uint16 c b = Inr (mid, b1)" by (cases r) auto
  note k1 = take_in_keeps [OF r]
  have "keeps b (snd (with_ctx c (\<lambda>x. send_command_with_mid (now b2) x UNSUBACK mid False) b2))" if "keeps b1 b2" for b2
    by (rule keeps_trans [OF keeps_trans [OF k1 that]]) (rule keeps_send, rule send_io_only)
  then show ?thesis
    using unsubscribe_loop_keeps [of b1 "remaining_length (in_packet (ctxs b c))" c] keeps_trans [OF k1]
    by (cases "unsubscribe_loop (remaining_length (in_packet (ctxs b c))) c b1") (simp_all add: mqtt3_handle_unsubscribe_def r)
qed (simp add: mqtt3_handle_unsubscribe_def)

lemma keeps_handle_disconnect:
  assumes ok: "broker_ok b"
  shows "keeps b (snd (mqtt3_handle_disconnect H c b))"
proof -
  have k: "keeps b (upd_ctx c (\<lambda>x. x\<lparr>cstate := mosq_cs_disconnecting\<rparr>) b)" by (rule keeps_plain) (simp add: plain_def)
  show ?thesis
    using keeps_disconnect [OF ok] keeps_trans [OF k keeps_disconnect [OF keeps_ok [OF k ok]]]
    by (simp add: mqtt3_handle_disconnect_def)
qed

section \<open>CONNACK\<close>

lemma connack_topics_keeps: "keeps b (snd (connack_topics c ts b))"
proof (induction ts arbitrary: b)
  case (Cons t ts)
  define f where "f = (\<lambda>x. if bt_direction t = bd_in \<or> bt_direction t = bd_both
          then send_subscribe (now b) x False (remote_topic t) (word_of_int (bt_qos t))
          else send_unsubscribe (now b) x False (remote_topic t))"
  have "plain (\<lambda>x. snd (f x))"
    using plain_sends(2) [of "now b" False "remote_topic t" "word_of_int (bt_qos t)"] plain_sends(3) [of "now b" False "remote_topic t"]
    by (cases "bt_direction t = bd_in \<or> bt_direction t = bd_both") (simp_all only: f_def if_True if_False)
  then have k: "keeps b (snd (with_ctx c f b))" by (rule keeps_with_ctx)
  show ?case
    using k keeps_trans [OF k Cons.IH] unfolding connack_topics.simps Let_def f_def [symmetric] by (simp add: split_beta)
qed simp

lemma keeps_connack: "keeps b (snd (mqtt3_handle_connack c b))"
proof -
  have step: "keeps b2 (snd (let (r, b3) = (case bridge (ctxs b2 c) of
        Some br \<Rightarrow> connack_topics c (topics br) (if is_bridge (ctxs b2 c) then log_dxl (dxl_bridge_connected c) b2 else b2)
      | None \<Rightarrow> (0, b2)) in if r \<noteq> 0 then (1, b3) else (MOSQ_ERR_SUCCESS, upd_ctx c (\<lambda>x. x\<lparr>cstate := mosq_cs_connected\<rparr>) b3)))" for b2
  proof -
    obtain r b3 where e: "(case bridge (ctxs b2 c) of
        Some br \<Rightarrow> connack_topics c (topics br) (if is_bridge (ctxs b2 c) then log_dxl (dxl_bridge_connected c) b2 else b2)
      | None \<Rightarrow> (0, b2)) = (r, b3)" by fastforce
    have "keeps b2 (snd (connack_topics c ts (if is_bridge (ctxs b2 c) then log_dxl (dxl_bridge_connected c) b2 else b2)))" for ts
      by (rule keeps_trans [OF _ connack_topics_keeps]) (simp add: keeps_log)
    then have k: "keeps b2 b3" using e by (simp split: option.splits) (metis snd_conv)+
    have "keeps b2 (upd_ctx c (\<lambda>x. x\<lparr>cstate := mosq_cs_connected\<rparr>) b3)"
      by (rule keeps_trans [OF k keeps_plain]) (simp add: plain_def)
    then show ?thesis using k unfolding e Let_def by simp
  qed
  have p: "keeps b2 (upd_ctx c (\<lambda>x. x\<lparr>bridge := map_option (\<lambda>br. br\<lparr>try_private_accepted := False\<rparr>) (bridge x)\<rparr>) b2)" for b2
    by (rule keeps_plain) (simp add: plain_def bridge_at_ok_map)
  show ?thesis
  proof (cases "take_in read_byte c b")
    case (Inr s)
    then obtain v b1 where s: "take_in read_byte c b = Inr (v, b1)" by (cases s) auto
    show ?thesis
    proof (cases "take_in read_byte c b1")
      case (Inr s')
      then obtain rc b2 where s': "take_in read_byte c b1 = Inr (rc, b2)" by (cases s') auto
      have k: "keeps b b2" by (rule keeps_trans [OF take_in_keeps [OF s] take_in_keeps [OF s']])
      have "keeps b (snd (mqtt3_handle_connack c b)) = keeps b (snd (if rc = 0 then
                 let (r, b3) = (case bridge (ctxs b2 c) of
                       Some br \<Rightarrow> connack_topics c (topics br)
                         (if is_bridge (ctxs b2 c) then log_dxl (dxl_bridge_connected c) b2 else b2)
                     | None \<Rightarrow> (0, b2))
                 in if r \<noteq> 0 then (1, b3) else (MOSQ_ERR_SUCCESS, upd_ctx c (\<lambda>x. x\<lparr>cstate := mosq_cs_connected\<rparr>) b3)
               else if rc = 1 then
                 (1, upd_ctx c (\<lambda>x. x\<lparr>bridge := map_option (\<lambda>br. br\<lparr>try_private_accepted := False\<rparr>) (bridge x)\<rparr>) b2)
               else (1, b2)))"
        by (simp only: mqtt3_handle_connack_def s s' sum.case prod.case)
      also have "\<dots>" using keeps_trans [OF k step] keeps_trans [OF k p] k by simp
      finally show ?thesis .
    qed (simp add: mqtt3_handle_connack_def s take_in_keeps [OF s])
  qed (simp add: mqtt3_handle_connack_def)
qed

section \<open>CONNECT\<close>

text \<open>A stage either ends the connection or hands on a good state.\<close>

lemma keeps_refuse:
  assumes ok: "broker_ok b"
  shows "keeps b (snd (refuse H c rc b))" and "keeps b (snd (refuse_with H c code rc b))"
proof -
  show r: "keeps b (snd (refuse H c rc b))" by (simp add: refuse_def keeps_disconnect [OF ok])
  have k: "keeps b (snd (with_ctx c (\<lambda>x. send_connack (now b) x code) b))" by (rule keeps_send) (rule more_sends_io_only)
  show "keeps b (snd (refuse_with H c code rc b))"
    using keeps_trans [OF k keeps_disconnect [OF keeps_ok [OF k ok]]] by (simp add: refuse_with_def refuse_def)
qed

lemma keeps_refuse_after:
  assumes "keeps b b'" and "broker_ok b"
  shows "keeps b (snd (refuse H c rc b'))" and "keeps b (snd (refuse_with H c code rc b'))"
  using keeps_trans [OF assms(1)] keeps_refuse [OF keeps_ok [OF assms]] by blast+

lemma keeps_connect_protocol:
  assumes ok: "broker_ok b"
  shows "connect_protocol H c b = Inl r \<Longrightarrow> keeps b (snd r)" and "connect_protocol H c b = Inr (v, b') \<Longrightarrow> keeps b b'"
proof -
  note ref = keeps_refuse [OF ok]
  have p: "keeps b b'' \<Longrightarrow> keeps b (upd_ctx c (\<lambda>x. x\<lparr>protocol := pr\<rparr>) b'')" for pr b''
    by (erule keeps_trans) (rule keeps_plain, simp add: plain_def)
  have k: "keeps b b2" "keeps b b1" if "take_in read_string c b = Inr (n, b1)" "take_in read_byte c b1 = Inr (w, b2)" for n b1 w b2
    using keeps_trans [OF take_in_keeps [OF that(1)] take_in_keeps [OF that(2)]] take_in_keeps [OF that(1)] by auto
  show "connect_protocol H c b = Inl r \<Longrightarrow> keeps b (snd r)"
    unfolding connect_protocol_def
    by (auto intro!: ref keeps_refuse_after [OF _ ok] split: if_splits sum.splits) (erule take_in_keeps, (erule (1) k)+)
  show "connect_protocol H c b = Inr (v, b') \<Longrightarrow> keeps b b'"
    unfolding connect_protocol_def using p k by (auto split: if_splits sum.splits)
qed

lemma keeps_connect_authorize:
  assumes ok: "broker_ok b"
  shows "connect_authorize H c v b = Inl r \<Longrightarrow> keeps b (snd r)" and "connect_authorize H c v b = Inr b' \<Longrightarrow> keeps b b'"
proof -
  have p1: "keeps b (upd_ctx c (\<lambda>x. x\<lparr>tls_certtype := t\<rparr>) b)" for t by (rule keeps_plain) (simp add: plain_def)
  have p2: "keeps b (upd_ctx c (\<lambda>x. x\<lparr>is_bridge := True\<rparr>) (upd_ctx c (\<lambda>x. x\<lparr>tls_certtype := t\<rparr>) b))" for t
    by (rule keeps_trans [OF p1 keeps_plain]) (simp add: plain_def)
  show "connect_authorize H c v b = Inl r \<Longrightarrow> keeps b (snd r)"
    unfolding connect_authorize_def Let_def using keeps_refuse_after(2) [OF p1 ok] keeps_refuse_after(2) [OF p2 ok]
    by (auto split: if_splits)
  show "connect_authorize H c v b = Inr b' \<Longrightarrow> keeps b b'"
    unfolding connect_authorize_def Let_def using p1 p2 by (auto split: if_splits)
qed

lemma keeps_connect_header:
  assumes ok: "broker_ok b"
  shows "connect_header H c b = Inl r \<Longrightarrow> keeps b (snd r)" and "connect_header H c b = Inr (fl, i, b') \<Longrightarrow> keeps b b'"
proof -
  have ka: "keeps b2 (upd_ctx c (\<lambda>x. x\<lparr>keepalive := v\<rparr>) b2)" for b2 v by (rule keeps_plain) (simp add: plain_def)
  have k1: "keeps b b1" if "take_in read_byte c b = Inr (n, b1)" for n b1 by (rule take_in_keeps [OF that])
  have k2: "keeps b (upd_ctx c (\<lambda>x. x\<lparr>keepalive := v\<rparr>) b2)"
    if "take_in read_byte c b = Inr (n, b1)" "take_in read_uint16 c b1 = Inr (v, b2)" for n b1 v b2
    by (rule keeps_trans [OF keeps_trans [OF take_in_keeps [OF that(1)] take_in_keeps [OF that(2)]] ka])
  have k3: "keeps b b3"
    if "take_in read_byte c b = Inr (n, b1)" "take_in read_uint16 c b1 = Inr (v, b2)"
      "take_in read_string c (upd_ctx c (\<lambda>x. x\<lparr>keepalive := v\<rparr>) b2) = Inr (s, b3)" for n b1 v b2 s b3
    by (rule keeps_trans [OF k2 [OF that(1,2)] take_in_keeps [OF that(3)]])
  show "connect_header H c b = Inl r \<Longrightarrow> keeps b (snd r)"
    unfolding connect_header_def Let_def
    by (auto intro!: keeps_refuse [OF ok] keeps_refuse_after [OF _ ok] split: if_splits sum.splits)
      ((erule (2) k3 | erule (1) k2 | erule k1)+)
  show "connect_header H c b = Inr (fl, i, b') \<Longrightarrow> keeps b b'"
    unfolding connect_header_def Let_def using k3 by (auto split: if_splits sum.splits)
qed

lemma keeps_connect_identity: "connect_identity H c i b = (chain, canonical, j, b') \<Longrightarrow> keeps b b'"
  using keeps_plain [of "\<lambda>x. x\<lparr>dxl_flags := dxl_flags x OR DXL_FLAG_OPS\<rparr>" b c]
  by (auto simp: connect_identity_def Let_def plain_def split: if_splits)

lemma keeps_connect_will:
  assumes ok: "broker_ok b"
  shows "connect_will H c fl b = Inl r \<Longrightarrow> keeps b (snd r)"
    and "connect_will H c fl b = Inr (w, b') \<Longrightarrow> keeps b b' \<and> (\<forall>m. w = Some m \<longrightarrow> \<not> mm_retain m)"
proof -
  have k1: "keeps b b1" if "take_in read_string c b = Inr (n, b1)" for n b1 by (rule take_in_keeps [OF that])
  have k2: "keeps b b2" if "take_in read_string c b = Inr (n, b1)" "take_in read_uint16 c b1 = Inr (v, b2)" for n b1 v b2
    by (rule keeps_trans [OF take_in_keeps [OF that(1)] take_in_keeps [OF that(2)]])
  have k3: "keeps b b3" if "take_in read_string c b = Inr (n, b1)" "take_in read_uint16 c b1 = Inr (v, b2)"
      "take_in (\<lambda>p. read_bytes p (unat v)) c b2 = Inr (pl, b3)" for n b1 v b2 pl b3
    by (rule keeps_trans [OF k2 [OF that(1,2)] take_in_keeps [OF that(3)]])
  show "connect_will H c fl b = Inl r \<Longrightarrow> keeps b (snd r)"
    unfolding connect_will_def Let_def
    by (auto intro!: keeps_refuse [OF ok] keeps_refuse_after [OF _ ok] split: if_splits sum.splits)
      ((erule (2) k3 | erule (1) k2 | erule k1)+)
  show "connect_will H c fl b = Inr (w, b') \<Longrightarrow> keeps b b' \<and> (\<forall>m. w = Some m \<longrightarrow> \<not> mm_retain m)"
    unfolding connect_will_def Let_def using k3 k2 by (auto split: if_splits sum.splits)
qed

lemma keeps_reconnect_reset:
  assumes ok: "broker_ok b"
  shows "keeps b (snd (mqtt3_db_message_reconnect_reset c b))"
proof -
  let ?b = "upd_ctx c (\<lambda>x. x\<lparr>ctx_subscription_count := 0\<rparr>) b" and ?ms = "map reset_msg (msgs (ctxs b c))"
  have o: "outgoing (msgs (ctxs b c))" using ok by (simp add: broker_ok_def outgoing_only_def)
  have k: "keeps b ?b" by (rule keeps_plain) (simp add: plain_def)
  let ?R = "\<lambda>m m'. same_ref m m' \<and> cm_direction m' = cm_direction m"
  have p: "list_all2 ?R ms (publish_queued_loop n i ms)" for n i ms
    by (induction n i ms rule: publish_queued_loop.induct) (auto simp: list_all2_refl)
  have "list_all2 ?R (msgs (ctxs b c)) ?ms"
    by (simp add: list_all2_map2 list_all2_refl reset_msg_def reset_out_def same_ref_def)
  then have "list_all2 ?R (msgs (ctxs b c)) (publish_queued_loop (max_inflight b) 0 ?ms)"
    by (rule list_all2_trans [OF _ _ p, rotated]) (simp add: same_ref_def)
  then have "keeps ?b (set_msgs c (publish_queued_loop (max_inflight b) 0 ?ms) ?b)"
    by (intro keeps_relabel) (simp add: upd_ctx_def)
  moreover have "snd (mqtt3_db_message_reconnect_reset c b) = set_msgs c (publish_queued_loop (max_inflight b) 0 ?ms) ?b"
    using o ok by (intro reconnect_reset_eq) (auto simp: incoming_qos2_def outgoing_def broker_ok_def queues_ok_def)
  ultimately show ?thesis using keeps_trans [OF k] by simp
qed

lemma slot_numericId: "broker_ok b \<Longrightarrow> slot b i = Some d \<Longrightarrow> numericId (ctxs b d) = i \<and> db_index (ctxs b d) = i"
  by (auto simp: broker_ok_def slots_ok_def slot_def split: if_splits)

lemma slot_live: "slot b i = Some d \<Longrightarrow> live b d"
  by (auto simp: slot_def live_def split: if_splits) (metis nth_mem)

lemma keeps_slot: "keeps b b' \<Longrightarrow> slot b' i = slot b i"
  by (simp add: keeps_def slot_def)

lemma keeps_take_over:
  assumes ok: "broker_ok b" and d: "slot b i = Some d"
  shows "keeps b (take_over c d i clean b)"
proof -
  define b0 where "b0 = upd_ctx d (\<lambda>y. y\<lparr>clean_session := clean\<rparr>) b"
  define b1 where "b1 = mqtt3_context_cleanup d False True b0"
  define x where "x = ctxs b1 c"
  define f where "f = (\<lambda>y. y\<lparr>cstate := mosq_cs_connected, address := address x, sock := sock x, listener := listener x,
                 last_msg_in := now b, last_msg_out := now b, keepalive := keepalive x, dxl_flags := dxl_flags x,
                 ssl := ssl x,
                 dxl_client_guid := (case dxl_client_guid x of Some g \<Rightarrow> Some g | None \<Rightarrow> dxl_client_guid y),
                 dxl_tenant_guid := (case dxl_tenant_guid x of Some g \<Rightarrow> Some g | None \<Rightarrow> dxl_tenant_guid y),
                 cert_hashes := cert_hashes y @ cert_hashes x\<rparr> :: mosquitto)"
  define g where "g = (\<lambda>x. x\<lparr>listener := None, sock := -1, ssl := False, cstate := mosq_cs_disconnecting\<rparr> :: mosquitto)"
  define b3 where "b3 = upd_ctx c g (upd_ctx d f b1)"
  define b4 where "b4 = (if msgs (ctxs b3 d) \<noteq> [] then snd (mqtt3_db_message_reconnect_reset d b3) else b3)"
  have k0: "keeps b b0" unfolding b0_def by (rule keeps_plain) (simp add: plain_def)
  have k1: "keeps b b1" unfolding b1_def by (rule keeps_trans [OF k0 keeps_cleanup])
  have p: "plain f" "plain g" by (simp_all add: plain_def f_def g_def)
  have k3: "keeps b b3" unfolding b3_def by (rule keeps_trans [OF k1 keeps_trans [OF keeps_plain [OF p(1)] keeps_plain [OF p(2)]]])
  have k4: "keeps b b4"
    unfolding b4_def using k3 keeps_trans [OF k3 keeps_reconnect_reset [OF keeps_ok [OF k3 ok]]] by simp
  have "numericId (ctxs b4 d) = i" using slot_numericId [OF keeps_ok [OF k4 ok]] keeps_slot [OF k4] d by simp
  then have "upd_ctx d (\<lambda>y. y\<lparr>numericId := i, clean_subs := False\<rparr>) b4 = upd_ctx d (\<lambda>y. y\<lparr>clean_subs := False\<rparr>) b4"
    by (auto simp: upd_ctx_def intro!: broker.equality ext mosquitto.equality)
  moreover have "take_over c d i clean b = mosquitto_remove_pending_bytes_set d (upd_ctx d (\<lambda>y. y\<lparr>numericId := i, clean_subs := False\<rparr>) b4)"
    by (simp only: take_over_def Let_def b0_def b1_def b3_def b4_def f_def g_def x_def)
  moreover have "keeps b (mosquitto_remove_pending_bytes_set d (upd_ctx d (\<lambda>y. y\<lparr>clean_subs := False\<rparr>) b4))"
    by (rule keeps_trans [OF k4 keeps_trans [OF keeps_plain keeps_remove_pending]]) (simp add: plain_def)
  ultimately show ?thesis by simp
qed

lemma keeps_connect_session:
  assumes ok: "broker_ok b" and r: "connect_session H c clean i b = (d, b')"
  shows "keeps b b'" and "live b c \<Longrightarrow> live b' d"
proof -
  have a: "keeps b (b\<lparr>assert_violated := True\<rparr>)" by (rule quiet_keeps [OF quiet_same_state]) simp
  show k: "keeps b b'"
    using r keeps_take_over [OF ok] keeps_disconnect [OF ok] a
    by (auto simp: connect_session_def split: option.splits if_splits)
  show "live b c \<Longrightarrow> live b' d"
    unfolding keeps_live [OF k] using r slot_live by (auto simp: connect_session_def split: option.splits if_splits)
qed

lemma keeps_set_will: "\<not> mm_retain m \<Longrightarrow> keeps b (upd_ctx c (\<lambda>x. x\<lparr>will := Some m\<rparr>) b)"
proof -
  assume m: "\<not> mm_retain m"
  let ?b = "upd_ctx c (\<lambda>x. x\<lparr>will := Some m\<rparr>) b"
  have s: "subs ?b = subs b" by (simp add: upd_ctx_def)
  have a: "acct b ?b" by (simp add: acct_def upd_ctx_def ref_of_def stored_msg_def store_ptrs_def)
  have "calm b ?b" by (simp add: calm_def upd_ctx_def)
  then have "sets_ok ?b = sets_ok b" by (rule calm_sets_ok)
  moreover have "slots_ok b \<Longrightarrow> slots_ok ?b" "leaves_live b \<Longrightarrow> leaves_live ?b"
    using subs_at_cong [OF s] by (simp_all add: slots_ok_def leaves_live_def live_def) (simp_all add: upd_ctx_def)
  moreover have "outgoing_only b \<Longrightarrow> outgoing_only ?b" "wills_ok b \<Longrightarrow> wills_ok ?b" "bridges_ok b \<Longrightarrow> bridges_ok ?b"
    using m by (auto simp: outgoing_only_def wills_ok_def bridges_ok_def upd_ctx_def)
  ultimately have "broker_ok b \<Longrightarrow> broker_ok ?b"
    using acct_queues_ok [OF a] subs_ok_cong [OF s] by (simp add: broker_ok_def)
  then show ?thesis by (simp add: keeps_def upd_ctx_def store_ptrs_def)
qed

lemma keeps_connect_register:
  assumes w: "\<And>m. w = Some m \<Longrightarrow> \<not> mm_retain m"
  shows "keeps b (connect_register c clean chain canonical i w b)"
proof -
  define canon where "canon = (case canonical of Some s \<Rightarrow> s | None \<Rightarrow> i)"
  define b1 where "b1 = upd_ctx c (\<lambda>x. x\<lparr>ctx_id := Some i, canonical_id := Some canon, clean_session := clean, ping_t := 0,
                 is_dropping := False, cert_chain := chain\<rparr>) b"
  define b3 where "b3 = log_dxl (dxl_client_connected c) (mqtt3_add_canonical_client_id canon
      (b1\<lparr>clientid_index_hash := clientid_index_hash b1 @ [(i, db_index (ctxs b1 c))]\<rparr>))"
  have k1: "keeps b b1" unfolding b1_def by (rule keeps_plain) (simp add: plain_def)
  have "quiet b1 b3" unfolding b3_def
    by (rule quiet_trans [OF quiet_trans [OF quiet_same_state [OF same_state_updates(3)] quiet_same_state [OF same_state_updates(4)]]
        quiet_same_state [OF same_state_updates(1)]])
  then have k3: "keeps b b3" using keeps_trans [OF k1 quiet_keeps] by blast
  have "connect_register c clean chain canonical i w b = (case w of Some m \<Rightarrow> upd_ctx c (\<lambda>x. x\<lparr>will := Some m\<rparr>) b3 | None \<Rightarrow> b3)"
    by (simp only: connect_register_def Let_def b1_def b3_def canon_def)
  then show ?thesis using k3 keeps_trans [OF k3 keeps_set_will] w by (auto split: option.split)
qed

lemma keeps_connect_finish:
  assumes ok: "broker_ok b"
  shows "keeps b (snd (connect_finish H c b))"
proof -
  define b1 where "b1 = upd_ctx c (\<lambda>x. x\<lparr>cstate := mosq_cs_connected\<rparr>) b"
  define b2 where "b2 = (if is_bridge (ctxs b1 c) then log_dxl (dxl_bridge_connected c) b1 else b1)"
  have k1: "keeps b b1" unfolding b1_def by (rule keeps_plain) (simp add: plain_def)
  have k2: "keeps b b2" unfolding b2_def using k1 keeps_trans [OF k1 keeps_log] by simp
  have "keeps b (snd (with_ctx c (\<lambda>x. send_connack (now b2) x CONNACK_ACCEPTED) b2))"
    by (rule keeps_trans [OF k2 keeps_send]) (rule more_sends_io_only)
  then show ?thesis
    using keeps_refuse(2) [OF ok] by (simp add: connect_finish_def Let_def b1_def [symmetric] b2_def [symmetric])
qed

lemma keeps_connect:
  assumes ok: "broker_ok b"
  shows "keeps b (snd (mqtt3_handle_connect H c b))"
proof (cases "connect_protocol H c b")
  case (Inl r)
  then show ?thesis using keeps_connect_protocol(1) [OF ok] by (auto simp: mqtt3_handle_connect_def)
next
  case (Inr s1)
  then obtain v b1 where s1: "connect_protocol H c b = Inr (v, b1)" by (cases s1) auto
  note k1 = keeps_connect_protocol(2) [OF ok s1] and ok1 = keeps_ok [OF keeps_connect_protocol(2) [OF ok s1] ok]
  show ?thesis
  proof (cases "connect_authorize H c v b1")
    case (Inl r)
    then show ?thesis using keeps_trans [OF k1 keeps_connect_authorize(1) [OF ok1 Inl]] by (simp add: mqtt3_handle_connect_def s1)
  next
    case (Inr b2)
    note s2 = Inr
    note k2 = keeps_trans [OF k1 keeps_connect_authorize(2) [OF ok1 s2]]
    note ok2 = keeps_ok [OF k2 ok]
    show ?thesis
    proof (cases "connect_header H c b2")
      case (Inl r)
      then show ?thesis using keeps_trans [OF k2 keeps_connect_header(1) [OF ok2 Inl]] by (simp add: mqtt3_handle_connect_def s1 s2)
    next
      case (Inr s3)
      then obtain fl i0 b3 where s3: "connect_header H c b2 = Inr (fl, i0, b3)" by (cases s3) auto
      obtain chain canonical i b4 where s4: "connect_identity H c i0 b3 = (chain, canonical, i, b4)" by (metis prod_cases4)
      have k4: "keeps b b4"
        by (rule keeps_trans [OF keeps_trans [OF k2 keeps_connect_header(2) [OF ok2 s3]] keeps_connect_identity [OF s4]])
      note ok4 = keeps_ok [OF k4 ok]
      show ?thesis
      proof (cases "connect_will H c fl b4")
        case (Inl r)
        then show ?thesis
          using keeps_trans [OF k4 keeps_connect_will(1) [OF ok4 Inl]] by (simp add: mqtt3_handle_connect_def s1 s2 s3 s4)
      next
        case (Inr s5)
        then obtain w b5 where s5: "connect_will H c fl b4 = Inr (w, b5)" by (cases s5) auto
        note w = keeps_connect_will(2) [OF ok4 s5]
        have k5: "keeps b b5" using keeps_trans [OF k4] w by blast
        obtain d b6 where s6: "connect_session H c (fl AND 0x02 \<noteq> 0) i b5 = (d, b6)" by fastforce
        have k6: "keeps b b6" by (rule keeps_trans [OF k5 keeps_connect_session(1) [OF keeps_ok [OF k5 ok] s6]])
        have k7: "keeps b (connect_register d (fl AND 0x02 \<noteq> 0) chain canonical i w b6)"
          by (rule keeps_trans [OF k6 keeps_connect_register]) (use w in blast)
        show ?thesis
          using keeps_trans [OF k7 keeps_connect_finish [OF keeps_ok [OF k7 ok]]]
          by (simp add: mqtt3_handle_connect_def s1 s2 s3 s4 s5 s6)
      qed
    qed
  qed
qed

section \<open>Dispatch\<close>

lemma packet_handle_keeps:
  assumes ok: "broker_ok b" and c: "live b c"
  shows "\<exists>rc b'. mqtt3_packet_handle H c b = Some (rc, b') \<and> keeps b b'"
proof -
  have ex: "\<exists>rc b'. Some r = Some (rc, b') \<and> keeps b b'" if "keeps b (snd r)" for r :: "int \<times> broker"
    using that by (cases r) simp
  show ?thesis
    unfolding mqtt3_packet_handle_def Let_def
    by (simp only: split: if_split)
      (intro conjI impI ex keeps_pubrel [OF ok] keeps_pings keeps_pubackcomp keeps_publish [OF ok] keeps_pubrec keeps_connect [OF ok]
        keeps_handle_disconnect [OF ok] keeps_subscribe [OF ok c] keeps_unsubscribe keeps_connack keeps_suback, simp)
qed

end
