(* ===== verification/Delivery.thy ===== *)
theory Delivery
  imports Context_Inv
begin

text \<open>
  What a publication leaves alone. The interface \<open>delivery_frame\<close> asks of a relation between states
  that the single steps of an insertion respect it; then so does every insertion, every publication, of
  a client or of a will, and every disconnection up to the point where the connection is closed. It is
  interpreted on the relation \<open>bystander\<close> (connections, names, incoming packets and tables are the
  same, only queues may have grown) and on \<open>unannounced\<close> (the broker library is told of no new
  connection).
\<close>

text \<open>The calls that tell the broker library of a new connection.\<close>

definition announces :: "dxl_call \<Rightarrow> bool" where
  "announces e \<longleftrightarrow> (case e of dxl_client_connected _ \<Rightarrow> True | dxl_bridge_connected _ \<Rightarrow> True | _ \<Rightarrow> False)"

locale delivery_frame =
  fixes R :: "broker \<Rightarrow> broker \<Rightarrow> bool"
  assumes R_refl: "R b b" and R_trans: "R a b \<Longrightarrow> R b d \<Longrightarrow> R a d"
    and R_log: "\<not> announces e \<Longrightarrow> R b (log_dxl e b)" and R_assert: "R b (b\<lparr>assert_violated := v\<rparr>)"
    and R_upd_store: "R b (upd_store q f b)" and R_append: "R b (append_msg c m b)"
    and R_mark: "R b (mosquitto_add_new_msgs_set c b)"
    and R_lazy: "R b (upd_ctx c lazy_bridge_check b)" and R_dropping: "R b (upd_ctx c (\<lambda>x. x\<lparr>is_dropping := True\<rparr>) b)"
    and R_mid: "R b (snd (gen_mid c b))"
    and R_store: "R b (snd (snd (mqtt3_db_message_store H ctx source mid topic qos pl retain i b)))"
begin

lemmas R_log_calls =
  R_log [of "dxl_insert c i" for c i, unfolded announces_def, simplified]
  R_log [of "dxl_packet_queue_exceeded c i" for c i, unfolded announces_def, simplified]
  R_log [of "dxl_finalize i" for i, unfolded announces_def, simplified]
  R_log [of "dxl_publish c t pl" for c t pl, unfolded announces_def, simplified]
  R_log [of "dxl_bridge_disconnected c" for c, unfolded announces_def, simplified]

lemma R_insert_allowed: "R b (snd (insert_allowed H c mid dir qos retain q st rc b))"
proof -
  let ?b1 = "log_dxl (dxl_insert c (db_id (deref_store b q))) b"
  obtain success icm cp where h: "on_insert_message H (dxl_log b) (ctxs b c) (deref_store b q) = (success, icm, cp)"
    by (metis prod_cases3)
  define b2 where "b2 = (case cp of None \<Rightarrow> ?b1
    | Some cp \<Rightarrow> upd_store q (\<lambda>s. s\<lparr>msg := (msg s)\<lparr>mm_client_payload := Some cp\<rparr>\<rparr>) ?b1)"
  have t: "R b b2" unfolding b2_def using R_log_calls(1) R_trans [OF R_log_calls(1) R_upd_store] by (simp split: option.split)
  have "R b2 (upd_ctx c lazy_bridge_check (mosquitto_add_new_msgs_set c (append_msg c m b2)))" for m
    by (rule R_trans [OF R_trans [OF R_append R_mark] R_lazy])
  then show ?thesis
    unfolding insert_allowed_def Let_def h prod.case b2_def [symmetric] using t by (auto intro: R_trans)
qed

lemma R_insert: "R b (snd (mqtt3_db_message_insert H c mid dir qos retain q b))"
  unfolding mqtt3_db_message_insert_def Let_def
  by (auto split: insert_decision.split intro: R_refl R_log_calls(2) R_dropping R_assert R_insert_allowed
      R_trans [OF R_log_calls(2) R_insert_allowed] R_trans [OF R_log_calls(2) R_dropping] R_trans [OF R_log_calls(2) R_assert])

lemma R_deliver: "R b (snd (deliver_leaf H s qos retain q l (rc, b)))"
  using R_refl R_insert R_trans [OF R_mid R_insert] by (simp add: deliver_leaf_def Let_def split_beta)

lemma R_process: "R b (process_node H src qos retain q h b)"
proof -
  have "R b (snd (fold (deliver_leaf H s qos retain q) ls (rc, b)))" for s ls rc b
  proof (induction ls arbitrary: rc b)
    case (Cons l ls)
    obtain rc1 b1 where d: "deliver_leaf H s qos retain q l (rc, b) = (rc1, b1)" by fastforce
    then show ?case using R_trans [OF _ Cons.IH] R_deliver [of b H s qos retain q l rc] by simp
  qed (simp add: R_refl)
  then show ?thesis by (simp add: process_node_def subs_process_def split_beta R_refl split: option.split)
qed

lemma R_pound: "R b (search_pound H src qos retain q h b)"
  by (simp add: search_pound_def R_refl R_process split: option.split)

lemma R_search: "R b (sub_search H src qos retain q h toks b)"
proof (induction toks arbitrary: h b)
  case (Cons tok toks)
  define visit where "visit = (\<lambda>branch b. let b' = sub_search H src qos retain q branch toks b in
      if toks = [] then process_node H src qos retain q branch b' else b')"
  have v: "R b (visit c b)" for c b
    using Cons.IH R_trans [OF R_pound R_process] by (cases toks) (simp_all add: visit_def Let_def)
  have w: "R b (case hash_find h k of None \<Rightarrow> b | Some c \<Rightarrow> visit c b)" for k b
    by (simp add: v R_refl split: option.split)
  define b1 where "b1 = search_pound H src qos retain q h b"
  define b2 where "b2 = (if hash_table_has_plus_wild_card h \<noteq> 0 then
      (case hash_find h ''+'' of None \<Rightarrow> b1 | Some c \<Rightarrow> visit c b1) else b1)"
  have "R b1 b2" unfolding b2_def using w R_refl by simp
  then have "R b b2" using R_trans [OF R_pound] b1_def by blast
  then have "R b (case hash_find h tok of None \<Rightarrow> b2 | Some c \<Rightarrow> visit c b2)" by (rule R_trans [OF _ w])
  then show ?case unfolding b2_def b1_def visit_def by (simp only: sub_search.simps Let_def)
qed (simp add: R_pound)

lemma R_queue: "R b (snd (mqtt3_db_messages_queue H src topic qos False q b))"
proof -
  have "R b (case hash_find (subs b) (hd (tokens topic)) of None \<Rightarrow> b | Some s \<Rightarrow> sub_search H src qos False q s (tokens topic) b)"
    by (simp add: R_refl R_search split: option.split)
  from R_trans [OF this R_log_calls(3)] show ?thesis by (simp only: mqtt3_db_messages_queue_def Let_def if_False snd_conv)
qed

lemma R_easy: "R b (snd (mqtt3_db_messages_easy_queue H context topic qos pl False b))"
proof (cases topic)
  case (Some t)
  define src where "src = (case context of Some c \<Rightarrow> ctx_id (ctxs b c) | None \<Rightarrow> Some '''')"
  obtain rc q b1 where s: "mqtt3_db_message_store H context src 0 topic qos pl False 0 b = (rc, q, b1)" by (metis prod_cases3)
  have st: "R b b1" using R_store [of b H "context" src 0 topic qos pl False 0] s by simp
  show ?thesis
    using st R_trans [OF st R_queue] s unfolding mqtt3_db_messages_easy_queue_def Some src_def by (simp add: Let_def)
qed (simp add: mqtt3_db_messages_easy_queue_def R_refl)

lemma R_will: "\<not> mm_retain w \<Longrightarrow> R b (publish_will H c w b)"
  using R_log_calls(4) R_trans [OF R_log_calls(4) R_easy] by (simp add: publish_will_def Let_def)

text \<open>The state in which \<^verbatim>\<open>mqtt3_context_disconnect\<close> drops the will.\<close>

lemma R_disconnect:
  assumes "wills_ok b"
  obtains b2 where "R b b2" and "mqtt3_context_disconnect H c b =
    (let b4 = upd_ctx c (\<lambda>x. x\<lparr>listener := None\<rparr>) (drop_listener c (upd_ctx c (\<lambda>x. x\<lparr>will := None\<rparr>) b2))
     in upd_ctx c (\<lambda>x. socket_close (x\<lparr>disconnect_t := now b\<rparr>)) b4)"
proof -
  define b1 where "b1 = (if is_bridge (ctxs b c) then log_dxl (dxl_bridge_disconnected c) b else b)"
  have c1: "ctxs b1 = ctxs b" by (simp add: b1_def log_dxl_def)
  define b2 where "b2 = (case will (ctxs b1 c) of
      Some w \<Rightarrow> if cstate (ctxs b1 c) \<noteq> mosq_cs_disconnecting then publish_will H c w b1 else b1 | None \<Rightarrow> b1)"
  have "R b b1" by (simp add: b1_def R_log_calls(5) R_refl)
  moreover have "R b1 b2"
    using assms by (simp add: b2_def c1 wills_ok_def R_will R_refl split: option.split)
  ultimately have "R b b2" by (rule R_trans)
  moreover have "mqtt3_context_disconnect H c b = (let b4 = upd_ctx c (\<lambda>x. x\<lparr>listener := None\<rparr>)
     (drop_listener c (upd_ctx c (\<lambda>x. x\<lparr>will := None\<rparr>) b2)) in upd_ctx c (\<lambda>x. socket_close (x\<lparr>disconnect_t := now b\<rparr>)) b4)"
    by (simp only: mqtt3_context_disconnect_def Let_def b1_def b2_def)
  ultimately show ?thesis using that by blast
qed

end

section \<open>Bystanders\<close>

text \<open>A context in which at most the queue, its counters, the message identifier and the lazy-start mark of
  a bridge have changed.\<close>

definition queue_only :: "mosquitto \<Rightarrow> mosquitto \<Rightarrow> bool" where
  "queue_only x y \<longleftrightarrow> y = x\<lparr>msgs := msgs y, msg_count := msg_count y, msg_count12 := msg_count12 y,
     last_mid := last_mid y, is_dropping := is_dropping y, bridge := bridge y\<rparr> \<and> (bridge y = None) = (bridge x = None)"

definition bystander :: "broker \<Rightarrow> broker \<Rightarrow> bool" where
  "bystander b b' \<longleftrightarrow> (\<forall>d. queue_only (ctxs b d) (ctxs b' d)) \<and> contexts b' = contexts b \<and> subs b' = subs b \<and>
     clientid_index_hash b' = clientid_index_hash b \<and> canonical_client_id_index_hash b' = canonical_client_id_index_hash b \<and>
     listener_client_count b' = listener_client_count b \<and> new_clients_hash b' = new_clients_hash b \<and>
     pending_bytes_hash b' = pending_bytes_hash b \<and> new_client b' = new_client b \<and> now b' = now b \<and>
     message_size_limit b' = message_size_limit b \<and> max_connect_count b' = max_connect_count b"

lemma queue_only_refl [simp]: "queue_only x x"
  by (simp add: queue_only_def)

lemma queue_only_trans: "queue_only x y \<Longrightarrow> queue_only y z \<Longrightarrow> queue_only x z"
  unfolding queue_only_def by (cases x, cases y, cases z) simp

lemma bystander_refl [simp]: "bystander b b"
  by (simp add: bystander_def)

lemma bystander_trans: "bystander a b \<Longrightarrow> bystander b c \<Longrightarrow> bystander a c"
  unfolding bystander_def by (metis queue_only_trans)

lemma bystander_ctx: "queue_only (ctxs b c) (f (ctxs b c)) \<Longrightarrow> bystander b (upd_ctx c f b)"
  by (simp add: bystander_def upd_ctx_def)

lemma bystander_prims [simp]:
  "bystander b (log_dxl e b)" "bystander b (b\<lparr>assert_violated := a\<rparr>)" "bystander b (upd_store q g b)"
  "bystander b (mosquitto_add_new_msgs_set c b)" "bystander b (append_msg c m b)" "bystander b (upd_ctx c lazy_bridge_check b)"
proof -
  show u: "bystander b (upd_store q g b)" for b q g by (simp add: bystander_def upd_store_def)
  show "bystander b (append_msg c m b)" unfolding append_msg_def add_ref_def
    by (rule bystander_trans [OF u bystander_ctx]) (simp add: queue_only_def)
  show "bystander b (upd_ctx c lazy_bridge_check b)"
    by (rule bystander_ctx) (simp add: lazy_bridge_check_def queue_only_def split: option.split)
qed (simp_all add: bystander_def log_dxl_def mosquitto_add_new_msgs_set_def)

interpretation bys: delivery_frame bystander
proof unfold_locales
  show "bystander b (snd (gen_mid c b))" for b c
    using bystander_ctx [of b c "\<lambda>x. snd (mid_generate x)"]
    by (simp add: gen_mid_def upd_ctx_def split_beta queue_only_def mid_generate_def Let_def)
  show "bystander b (snd (snd (mqtt3_db_message_store H ctx source mid topic qos pl retain i b)))" for H ctx source mid topic qos pl retain i b
    by (simp add: mqtt3_db_message_store_def Let_def bystander_def upd_store_def log_dxl_def)
  show "bystander b (upd_ctx c (\<lambda>x. x\<lparr>is_dropping := True\<rparr>) b)" for b c by (rule bystander_ctx) (simp add: queue_only_def)
qed (auto intro: bystander_trans)

lemma socket_close_fields [simp]: "will (socket_close x) = will x" "clean_subs (socket_close x) = clean_subs x"
  "bridge (socket_close x) = bridge x" "wsi (socket_close x) = wsi x"
  by (simp_all add: socket_close_def)

lemma drop_listener_fields [simp]: "ctxs (drop_listener c b) = ctxs b" "new_msgs_hash (drop_listener c b) = new_msgs_hash b"
  "contexts (drop_listener c b) = contexts b" "subs (drop_listener c b) = subs b" "dxl_log (drop_listener c b) = dxl_log b"
  "clientid_index_hash (drop_listener c b) = clientid_index_hash b"
  "canonical_client_id_index_hash (drop_listener c b) = canonical_client_id_index_hash b"
  by (simp_all add: drop_listener_def split: option.split)

lemma queue_only_fields: "queue_only x y \<Longrightarrow> will y = will x \<and> clean_subs y = clean_subs x \<and> wsi y = wsi x \<and> sock y = sock x \<and>
    clean_session y = clean_session x \<and> keepalive y = keepalive x \<and> last_msg_in y = last_msg_in x \<and> (bridge y = None) = (bridge x = None)"
  unfolding queue_only_def by (cases x, cases y) simp

section \<open>Announcements\<close>

definition unannounced :: "broker \<Rightarrow> broker \<Rightarrow> bool" where
  "unannounced b b' \<longleftrightarrow> (\<exists>es. dxl_log b' = dxl_log b @ es \<and> list_all (\<lambda>e. \<not> announces e) es)"

lemma unannounced_same: "dxl_log b' = dxl_log b \<Longrightarrow> unannounced b b'"
  by (simp add: unannounced_def)

lemma unannounced_trans: "unannounced a b \<Longrightarrow> unannounced b c \<Longrightarrow> unannounced a c"
  unfolding unannounced_def by (metis append_assoc list_all_append)

interpretation una: delivery_frame unannounced
proof unfold_locales
  show "\<not> announces e \<Longrightarrow> unannounced b (log_dxl e b)" for e b by (simp add: unannounced_def log_dxl_def)
  then have "unannounced b (log_dxl (dxl_store q i) b)" for b q i by (simp add: announces_def)
  then show "unannounced b (snd (snd (mqtt3_db_message_store H ctx source mid topic qos pl retain i b)))"
    for H ctx source mid topic qos pl retain i b
    by (simp add: mqtt3_db_message_store_def Let_def unannounced_def upd_store_def log_dxl_def announces_def)
qed (auto intro: unannounced_trans unannounced_same
    simp: upd_store_def append_msg_def add_ref_def mosquitto_add_new_msgs_set_def upd_ctx_def gen_mid_def split_beta)

end
