(* ===== verification/Net_Read.thy ===== *)
theory Net_Read
  imports Handlers_Inv Delivery
begin

text \<open>
  The incoming side of src/mqtt-core/lib/net_mosq.c: \<^verbatim>\<open>_mosquitto_packet_read\<close>, which assembles a
  packet from whatever pieces the transport delivers, across calls, and hands it to
  \<^verbatim>\<open>mqtt3_packet_handle\<close>. What the transport delivers is a list of events; a WebSocket buffer
  is the single event with its bytes. An exhausted list reads as \<open>Rd_again\<close>. A complete frame is
  reassembled however it was cut, every byte lands inside the buffer, the call returns, and it keeps
  the invariant of the database.
\<close>

section \<open>The transport\<close>

datatype read_event = Rd_data "byte list" | Rd_eof | Rd_again | Rd_reset | Rd_error

text \<open>\<^verbatim>\<open>_mosquitto_net_read\<close> of at most \<open>n\<close> bytes; the rest of a piece stays for the next read.\<close>

fun net_read :: "nat \<Rightarrow> read_event list \<Rightarrow> read_event \<times> read_event list" where
  "net_read n [] = (Rd_again, [])"
| "net_read n (Rd_data bs # es) =
     (if bs = [] then net_read n es
      else (Rd_data (take n bs), if length bs \<le> n then es else Rd_data (drop n bs) # es))"
| "net_read n (e # es) = (e, es)"

text \<open>The code returned when the command or the length cannot be read, and when the payload cannot: an
  end of file there leaves \<^verbatim>\<open>errno\<close> at 0.\<close>

definition header_rc :: "read_event \<Rightarrow> int" where
  "header_rc e = (case e of Rd_again \<Rightarrow> MOSQ_ERR_SUCCESS | Rd_eof \<Rightarrow> MOSQ_ERR_CONN_LOST | Rd_reset \<Rightarrow> MOSQ_ERR_CONN_LOST
     | _ \<Rightarrow> MOSQ_ERR_ERRNO)"

definition payload_rc :: "read_event \<Rightarrow> int" where
  "payload_rc e = (case e of Rd_again \<Rightarrow> MOSQ_ERR_SUCCESS | Rd_reset \<Rightarrow> MOSQ_ERR_CONN_LOST | _ \<Rightarrow> MOSQ_ERR_ERRNO)"

section \<open>The stages of a packet\<close>

text \<open>The loop over the bytes of the remaining length; a fifth byte is a protocol error.\<close>

function read_length :: "packet \<Rightarrow> read_event list \<Rightarrow> packet \<times> read_event list \<times> int option" where
  "read_length p inp =
     (case net_read 1 inp of
        (Rd_data bs, inp') \<Rightarrow>
          let p1 = p\<lparr>remaining_count := remaining_count p + 1\<rparr> in
          if remaining_count p1 > 4 then (p1, inp', Some MOSQ_ERR_PROTOCOL)
          else
            let byte = hd bs;
                p2 = p1\<lparr>remaining_length := u32 (remaining_length p1 + unat (byte AND 127) * remaining_mult p1),
                        remaining_mult := u32 (remaining_mult p1 * 128)\<rparr>
            in if byte AND 128 \<noteq> 0 then read_length p2 inp' else (p2, inp', None)
      | (e, inp') \<Rightarrow> (p, inp', Some (header_rc e)))"
  by pat_completeness auto
termination
  by (relation "measure (\<lambda>(p, inp). 5 - remaining_count p)") (auto simp: Let_def)

lemmas [simp del] = read_length.simps

text \<open>\<^verbatim>\<open>while(to_process>0)\<close>: each read goes to the buffer at \<open>pos\<close>.\<close>

definition put_at :: "nat \<Rightarrow> byte list \<Rightarrow> byte list \<Rightarrow> byte list" where
  "put_at i bs buf = take i buf @ bs @ drop (i + length bs) buf"

lemma net_read_data: "net_read n inp = (Rd_data bs, inp') \<Longrightarrow> 0 < n \<Longrightarrow> bs \<noteq> [] \<and> length bs \<le> n"
  by (induction n inp rule: net_read.induct) (auto split: if_splits)

function read_payload :: "packet \<Rightarrow> read_event list \<Rightarrow> packet \<times> read_event list \<times> read_event option" where
  "read_payload p inp =
     (if to_process p > 0 then
        (case net_read (to_process p) inp of
           (Rd_data bs, inp') \<Rightarrow>
             read_payload (p\<lparr>to_process := to_process p - length bs, pos := u32 (pos p + length bs),
                 payload := Some (put_at (pos p) bs (payload_bytes p))\<rparr>) inp'
         | (e, inp') \<Rightarrow> (p, inp', Some e))
      else (p, inp, None))"
  by pat_completeness auto
termination
proof (relation "measure (\<lambda>(p, inp). to_process p)", goal_cases)
  case (2 p inp e inp' bs)
  then show ?case using net_read_data [of "to_process p" inp bs inp'] by (cases bs) auto
qed simp

lemmas [simp del] = read_payload.simps

section \<open>One packet\<close>

abbreviation in_pkt :: "nat \<Rightarrow> (packet \<Rightarrow> packet) \<Rightarrow> broker \<Rightarrow> broker" where
  "in_pkt c f \<equiv> upd_ctx c (\<lambda>x. x\<lparr>in_packet := f (in_packet x)\<rparr>)"

definition read_command :: "nat \<Rightarrow> read_event list \<Rightarrow> broker \<Rightarrow>
   (int \<times> read_event list \<times> broker) + (read_event list \<times> broker)" where
  "read_command c inp b =
     (if command (in_packet (ctxs b c)) = 0 then
        (case net_read 1 inp of
           (Rd_data bs, inp') \<Rightarrow>
             let byte = hd bs; b1 = in_pkt c (\<lambda>p. p\<lparr>command := byte\<rparr>) b in
             if bridge (ctxs b c) = None \<and> cstate (ctxs b c) = mosq_cs_new \<and> byte AND 0xF0 \<noteq> CONNECT
             then Inl (MOSQ_ERR_PROTOCOL, inp', b1) else Inr (inp', b1)
         | (e, inp') \<Rightarrow> Inl (header_rc e, inp', b))
      else Inr (inp, b))"

text \<open>The limits on what a client may send; the byte count is asked for only when the size is allowed.\<close>

definition check_limits :: "dxl_hooks \<Rightarrow> nat \<Rightarrow> broker \<Rightarrow> broker" where
  "check_limits H c b =
     (let p = in_packet (ctxs b c); n = remaining_length p in
      if command p AND 0xF0 \<noteq> CONNECT then
        if message_size_limit b \<noteq> 0 \<and> int n > message_size_limit b mod 2 ^ 32 then mqtt3_context_disconnect H c b
        else
          let over = update_sent_byte_count H (dxl_log b) (ctxs b c) n; b1 = log_dxl (dxl_sent_bytes c n) b
          in if over then mqtt3_context_disconnect H c b1 else b1
      else b)"

text \<open>\<^verbatim>\<open>malloc\<close> delivers the buffer; its content is written before it is read.\<close>

definition start_payload :: "packet \<Rightarrow> packet" where
  "start_payload p =
     (if remaining_length p > 0 then
        p\<lparr>payload := Some (replicate (remaining_length p) 0), to_process := remaining_length p, have_remaining := True\<rparr>
      else p\<lparr>have_remaining := True\<rparr>)"

definition read_header :: "dxl_hooks \<Rightarrow> nat \<Rightarrow> read_event list \<Rightarrow> broker \<Rightarrow>
   (int \<times> read_event list \<times> broker) + (read_event list \<times> broker)" where
  "read_header H c inp b =
     (if have_remaining (in_packet (ctxs b c)) then Inr (inp, b)
      else
        let (p, inp', rc) = read_length (in_packet (ctxs b c)) inp; b1 = in_pkt c (\<lambda>_. p) b in
        case rc of Some r \<Rightarrow> Inl (r, inp', b1)
        | None \<Rightarrow> Inr (inp', in_pkt c start_payload (check_limits H c b1)))"

text \<open>A connection that the limits have closed has no descriptor to read from.\<close>

definition read_body :: "nat \<Rightarrow> read_event list \<Rightarrow> broker \<Rightarrow>
   (int \<times> read_event list \<times> broker) + (read_event list \<times> broker)" where
  "read_body c inp b =
     (let p0 = in_packet (ctxs b c) in
      if IS_CONTEXT_INVALID (ctxs b c) \<and> to_process p0 > 0 then Inl (MOSQ_ERR_ERRNO, inp, b)
      else
        let (p, inp', stop) = read_payload p0 inp; b1 = in_pkt c (\<lambda>_. p) b in
        case stop of None \<Rightarrow> Inr (inp', b1)
        | Some e \<Rightarrow>
            Inl (payload_rc e, inp',
                 if e = Rd_again \<and> to_process p > 1000 then upd_ctx c (\<lambda>x. x\<lparr>last_msg_in := now b\<rparr>) b1 else b1))"

text \<open>The body of the loop: an early return on the left, a handled packet on the right.\<close>

definition read_packet :: "dxl_hooks \<Rightarrow> nat \<Rightarrow> read_event list \<Rightarrow> broker \<Rightarrow>
   ((int \<times> read_event list \<times> broker) + (int \<times> read_event list \<times> broker)) option" where
  "read_packet H c inp b =
     (case read_command c inp b of Inl r \<Rightarrow> Some (Inl r) | Inr (inp1, b1) \<Rightarrow>
     (case read_header H c inp1 b1 of Inl r \<Rightarrow> Some (Inl r) | Inr (inp2, b2) \<Rightarrow>
     (case read_body c inp2 b2 of Inl r \<Rightarrow> Some (Inl r) | Inr (inp3, b3) \<Rightarrow>
     (case mqtt3_packet_handle H c (in_pkt c (\<lambda>p. p\<lparr>pos := 0\<rparr>) b3) of None \<Rightarrow> None | Some (rc, b4) \<Rightarrow>
        Some (Inr (rc, inp3, upd_ctx c (\<lambda>x. x\<lparr>in_packet := packet_cleanup (in_packet x), last_msg_in := now b4\<rparr>) b4))))))"

definition note_pending :: "nat \<Rightarrow> bool \<Rightarrow> broker \<Rightarrow> broker" where
  "note_pending c pending b =
     (if ssl (ctxs b c) then
        (if pending then mosquitto_add_pending_bytes_set c b else mosquitto_remove_pending_bytes_set c b)
      else b)"

text \<open>A WebSocket buffer may hold several packets. \<open>pending\<close> is what \<^verbatim>\<open>SSL_pending\<close> finds.\<close>

partial_function (option) packet_read_loop ::
  "dxl_hooks \<Rightarrow> nat \<Rightarrow> bool \<Rightarrow> bool \<Rightarrow> read_event list \<Rightarrow> broker \<Rightarrow> (int \<times> read_event list \<times> broker) option" where
  "packet_read_loop H c ws pending inp b =
     (case read_packet H c inp b of None \<Rightarrow> None
      | Some (Inl r) \<Rightarrow> Some r
      | Some (Inr (rc, inp', b')) \<Rightarrow>
          if ws \<and> inp' \<noteq> [] then packet_read_loop H c ws pending inp' b'
          else Some (rc, inp', note_pending c pending b'))"

definition packet_read ::
  "dxl_hooks \<Rightarrow> nat \<Rightarrow> bool \<Rightarrow> bool \<Rightarrow> read_event list \<Rightarrow> broker \<Rightarrow> (int \<times> read_event list \<times> broker) option" where
  "packet_read H c ws pending inp b =
     (if IS_CONTEXT_INVALID (ctxs b c) then Some (MOSQ_ERR_NO_CONN, inp, b) else packet_read_loop H c ws pending inp b)"

section \<open>Pieces of the stream\<close>

text \<open>The bytes the transport has ready.\<close>

fun leading :: "read_event list \<Rightarrow> byte list" where
  "leading [] = []"
| "leading (Rd_data bs # es) = bs @ leading es"
| "leading (e # es) = []"

lemma net_read_leading:
  assumes "leading inp \<noteq> []" and "0 < n"
  obtains bs inp' where "net_read n inp = (Rd_data bs, inp')" and "leading inp = bs @ leading inp'" and "bs \<noteq> []" and "length bs \<le> n"
proof -
  have "\<exists>bs inp'. net_read n inp = (Rd_data bs, inp') \<and> leading inp = bs @ leading inp' \<and> bs \<noteq> [] \<and> length bs \<le> n"
    using assms by (induction n inp rule: net_read.induct) (auto simp: append_eq_append_conv2)
  then show ?thesis using that by blast
qed

lemma read_length_reads:
  "read_remaining p (leading inp) = Inr (p', rest, True) \<Longrightarrow> \<exists>inp'. read_length p inp = (p', inp', None) \<and> leading inp' = rest"
proof (induction p inp rule: read_length.induct)
  case (1 p inp)
  have "leading inp \<noteq> []" using "1.prems" by auto
  then obtain bs inp' where n: "net_read 1 inp = (Rd_data bs, inp')" "leading inp = bs @ leading inp'" "bs \<noteq> []" "length bs \<le> 1"
    using net_read_leading [of inp 1] by auto
  then obtain byte where bs: "bs = [byte]" by (cases bs) auto
  obtain p2 where p2: "read_remaining_byte p byte = Inr p2" using "1.prems" n(2) bs by (auto split: sum.splits)
  then have c: "\<not> remaining_count p + 1 > 4"
    and e: "p2 = p\<lparr>remaining_count := remaining_count p + 1, remaining_length := u32 (remaining_length p + unat (byte AND 127) * remaining_mult p),
       remaining_mult := u32 (remaining_mult p * 128)\<rparr>"
    by (auto simp: read_remaining_byte_def Let_def split: if_splits)
  show ?case
  proof (cases "byte AND 128 \<noteq> 0")
    case True
    then have "read_remaining p2 (leading inp') = Inr (p', rest, True)" using "1.prems" n(2) bs p2 by simp
    moreover have "read_length p inp = read_length p2 inp'"
      using c True by (subst read_length.simps) (simp add: n(1) bs Let_def e del: One_nat_def)
    ultimately show ?thesis using "1.IH" [OF n(1) [symmetric] refl refl] c True by (simp add: Let_def bs e)
  next
    case False
    then have "p2 = p' \<and> leading inp' = rest" using "1.prems" n(2) bs p2 by simp
    then show ?thesis
      using c False by (subst read_length.simps) (simp add: n(1) bs Let_def e del: One_nat_def)
  qed
qed

lemma put_at_length [simp]: "i + length bs \<le> length buf \<Longrightarrow> length (put_at i bs buf) = length buf"
  by (simp add: put_at_def)

text \<open>What fills the buffer: \<open>bs\<close> behind what is there, in as many reads as the pieces need.\<close>

lemma read_payload_reads:
  assumes "leading inp = bs @ rest" and "length bs = to_process p" and "pos p + to_process p = length (payload_bytes p)"
    and "length (payload_bytes p) < 2 ^ 32" and "0 < to_process p"
  shows "\<exists>inp'. read_payload p inp = (p\<lparr>to_process := 0, pos := length (payload_bytes p),
      payload := Some (take (pos p) (payload_bytes p) @ bs)\<rparr>, inp', None) \<and> leading inp' = rest"
  using assms
proof (induction p inp arbitrary: bs rule: read_payload.induct)
  case (1 p inp)
  have "leading inp \<noteq> []" using "1.prems"(1,2,5) by (cases bs) auto
  then obtain xs inp' where n: "net_read (to_process p) inp = (Rd_data xs, inp')" "leading inp = xs @ leading inp'" "xs \<noteq> []" "length xs \<le> to_process p"
    using net_read_leading [OF _ "1.prems"(5)] by blast
  define ys where "ys = drop (length xs) bs"
  have bs: "bs = xs @ ys" and l: "leading inp' = ys @ rest"
    using "1.prems"(1,2) n(2,4) by (auto simp: ys_def append_eq_append_conv2)
  let ?q = "p\<lparr>to_process := to_process p - length xs, pos := u32 (pos p + length xs), payload := Some (put_at (pos p) xs (payload_bytes p))\<rparr>"
  have u: "u32 (pos p + length xs) = pos p + length xs" using "1.prems"(3,4) n(4) by simp
  have q: "payload_bytes ?q = put_at (pos p) xs (payload_bytes p)" by (simp add: payload_bytes_def)
  have len: "length (put_at (pos p) xs (payload_bytes p)) = length (payload_bytes p)" using "1.prems"(3) n(4) by simp
  have tk: "take (pos p + length xs) (put_at (pos p) xs (payload_bytes p)) = take (pos p) (payload_bytes p) @ xs"
    using "1.prems"(3,5) n(4) by (simp add: put_at_def)
  have step: "read_payload p inp = read_payload ?q inp'"
    using "1.prems"(5) by (subst read_payload.simps) (simp add: n(1))
  show ?case
  proof (cases "ys = []")
    case True
    then have full: "to_process p = length xs" "length (payload_bytes p) = pos p + length xs" using bs "1.prems"(2,3) by simp_all
    then have "put_at (pos p) xs (payload_bytes p) = take (pos p) (payload_bytes p) @ xs" by (simp add: put_at_def)
    then have "read_payload ?q inp' = (p\<lparr>to_process := 0, pos := length (payload_bytes p), payload := Some (take (pos p) (payload_bytes p) @ bs)\<rparr>, inp', None)"
      using True bs full u by (subst read_payload.simps) simp
    then show ?thesis using step l True by simp
  next
    case False
    then have ys: "length ys = to_process p - length xs" "length xs < to_process p" using bs "1.prems"(2) by (cases ys; simp)+
    have "\<exists>inp''. read_payload ?q inp' = (?q\<lparr>to_process := 0, pos := length (payload_bytes ?q),
      payload := Some (take (pos ?q) (payload_bytes ?q) @ ys)\<rparr>, inp'', None) \<and> leading inp'' = rest"
      using "1.IH" [OF "1.prems"(5) n(1) [symmetric] refl l] "1.prems"(3,4) ys len
      unfolding q by (simp add: u)
    then show ?thesis unfolding step q len using tk u bs by simp
  qed
qed

section \<open>A frame is received\<close>

text \<open>The packet that a frame with this command and body becomes.\<close>

definition received :: "packet \<Rightarrow> byte \<Rightarrow> byte list \<Rightarrow> packet" where
  "received p cmd body = (packet_cleanup p)\<lparr>command := cmd, have_remaining := True,
     remaining_count := length (remaining_bytes (length body) []), remaining_length := length body,
     remaining_mult := 128 ^ length (remaining_bytes (length body) []), payload := (if body = [] then None else Some body)\<rparr>"

text \<open>The limits let a body of this length pass.\<close>

definition within_limits :: "dxl_hooks \<Rightarrow> byte \<Rightarrow> nat \<Rightarrow> broker \<Rightarrow> bool" where
  "within_limits H cmd n b \<longleftrightarrow> cmd AND 0xF0 = CONNECT \<or>
     (message_size_limit b = 0 \<or> int n \<le> message_size_limit b mod 2 ^ 32) \<and> (\<forall>x. \<not> update_sent_byte_count H (dxl_log b) x n)"

definition count_bytes :: "nat \<Rightarrow> byte \<Rightarrow> nat \<Rightarrow> broker \<Rightarrow> broker" where
  "count_bytes c cmd n b = (if cmd AND 0xF0 = CONNECT then b else log_dxl (dxl_sent_bytes c n) b)"

lemma in_pkt_in_pkt: "in_pkt c f (in_pkt c g b) = in_pkt c (\<lambda>p. f (g p)) b"
  by (simp add: upd_ctx_def)

lemma in_pkt_log: "in_pkt c f (log_dxl e b) = log_dxl e (in_pkt c f b)"
  by (simp add: upd_ctx_def log_dxl_def)

lemma ctxs_in_pkt [simp]: "ctxs (in_pkt c f b) c = (ctxs b c)\<lparr>in_packet := f (in_packet (ctxs b c))\<rparr>"
  by (simp add: upd_ctx_def)

lemma check_limits_pass:
  assumes "within_limits H (command (in_packet (ctxs b c))) (remaining_length (in_packet (ctxs b c))) b"
  shows "check_limits H c b = count_bytes c (command (in_packet (ctxs b c))) (remaining_length (in_packet (ctxs b c))) b"
  using assms by (auto simp: check_limits_def within_limits_def count_bytes_def Let_def)

lemma read_command_byte:
  assumes "command (in_packet (ctxs b c)) = 0" and "leading inp = cmd # rest"
    and "bridge (ctxs b c) \<noteq> None \<or> cstate (ctxs b c) \<noteq> mosq_cs_new \<or> cmd AND 0xF0 = CONNECT"
  shows "\<exists>inp'. read_command c inp b = Inr (inp', in_pkt c (\<lambda>p. p\<lparr>command := cmd\<rparr>) b) \<and> leading inp' = rest"
proof -
  obtain bs inp' where n: "net_read 1 inp = (Rd_data bs, inp')" "leading inp = bs @ leading inp'" "bs \<noteq> []" "length bs \<le> 1"
    using net_read_leading [of inp 1] assms(2) by auto
  then have "bs = [cmd]" "leading inp' = rest" using assms(2) by (cases bs; simp)+
  then show ?thesis using assms(1,3) n(1) by (auto simp: read_command_def Let_def simp del: One_nat_def)
qed

lemma read_header_frame:
  assumes p: "in_packet (ctxs b c) = (packet_cleanup p0)\<lparr>command := cmd\<rparr>"
    and l: "leading inp = remaining_bytes (length body) [] @ rest" and n: "length body < 2 ^ 28"
    and w: "within_limits H cmd (length body) b"
  shows "\<exists>inp'. read_header H c inp b = Inr (inp', in_pkt c (\<lambda>_. (received p0 cmd body)\<lparr>to_process := length body,
      payload := (if body = [] then None else Some (replicate (length body) 0))\<rparr>) (count_bytes c cmd (length body) b)) \<and> leading inp' = rest"
proof -
  let ?rb = "remaining_bytes (length body) []" and ?p = "(packet_cleanup p0)\<lparr>command := cmd\<rparr>"
  let ?q = "?p\<lparr>remaining_count := length ?rb, remaining_length := length body, remaining_mult := 128 ^ length ?rb\<rparr>"
  have "read_remaining ?p (?rb @ rest) = Inr (?q, rest, True)"
    using read_remaining_bytes [of "[]" "length body" ?p rest] n by (simp add: packet_cleanup_def)
  then obtain inp' where r: "read_length ?p inp = (?q, inp', None)" "leading inp' = rest"
    using read_length_reads [of ?p inp] l by auto
  have "read_header H c inp b = Inr (inp', in_pkt c start_payload (check_limits H c (in_pkt c (\<lambda>_. ?q) b)))"
    using r(1) by (simp add: read_header_def p) (simp add: packet_cleanup_def)
  moreover have "check_limits H c (in_pkt c (\<lambda>_. ?q) b) = count_bytes c cmd (length body) (in_pkt c (\<lambda>_. ?q) b)"
    using check_limits_pass [of H "in_pkt c (\<lambda>_. ?q) b" c] w by (simp add: within_limits_def upd_ctx_def)
  moreover have "in_pkt c start_payload (count_bytes c cmd (length body) (in_pkt c (\<lambda>_. ?q) b)) =
      in_pkt c (\<lambda>_. start_payload ?q) (count_bytes c cmd (length body) b)"
    by (simp add: count_bytes_def upd_ctx_def log_dxl_def)
  moreover have "start_payload ?q = (received p0 cmd body)\<lparr>to_process := length body,
      payload := (if body = [] then None else Some (replicate (length body) 0))\<rparr>"
    by (simp add: start_payload_def received_def packet_cleanup_def)
  ultimately show ?thesis using r(2) by auto
qed

lemma read_body_frame:
  assumes p: "in_packet (ctxs b c) = (received p0 cmd body)\<lparr>to_process := length body,
      payload := (if body = [] then None else Some (replicate (length body) 0))\<rparr>"
    and l: "leading inp = body @ rest" and n: "length body < 2 ^ 28" and v: "\<not> IS_CONTEXT_INVALID (ctxs b c)"
  shows "\<exists>inp'. read_body c inp b = Inr (inp', in_pkt c (\<lambda>_. (received p0 cmd body)\<lparr>pos := length body\<rparr>) b) \<and> leading inp' = rest"
proof (cases "body = []")
  case True
  then have "in_packet (ctxs b c) = received p0 cmd body" unfolding p by (simp add: received_def packet_cleanup_def)
  moreover have "to_process (received p0 cmd body) = 0" "(received p0 cmd body)\<lparr>pos := 0\<rparr> = received p0 cmd body"
    by (simp_all add: received_def packet_cleanup_def)
  ultimately show ?thesis using v l True by (simp add: read_body_def read_payload.simps)
next
  case False
  let ?p = "in_packet (ctxs b c)"
  have q: "payload_bytes ?p = replicate (length body) 0" "to_process ?p = length body" "pos ?p = 0"
    using False by (simp_all add: p payload_bytes_def received_def packet_cleanup_def)
  have "?p\<lparr>to_process := 0, pos := length body, payload := Some body\<rparr> = (received p0 cmd body)\<lparr>pos := length body\<rparr>"
    using False by (simp add: p received_def packet_cleanup_def)
  then obtain inp' where "read_payload ?p inp = ((received p0 cmd body)\<lparr>pos := length body\<rparr>, inp', None)" "leading inp' = rest"
    using read_payload_reads [of inp body rest ?p] q l n False by auto
  then show ?thesis using v by (simp add: read_body_def)
qed

lemma read_packet_frame:
  assumes idle: "in_packet (ctxs b c) = packet_cleanup p0" and l: "leading inp = mqtt_packet cmd body @ rest"
    and cmd: "cmd \<noteq> 0" and n: "length body < 2 ^ 28" and v: "\<not> IS_CONTEXT_INVALID (ctxs b c)"
    and first: "bridge (ctxs b c) \<noteq> None \<or> cstate (ctxs b c) \<noteq> mosq_cs_new \<or> cmd AND 0xF0 = CONNECT"
    and w: "within_limits H cmd (length body) b"
  obtains inp' where "leading inp' = rest" and
    "read_packet H c inp b = (case mqtt3_packet_handle H c (in_pkt c (\<lambda>_. received p0 cmd body) (count_bytes c cmd (length body) b)) of
       None \<Rightarrow> None
     | Some (rc, b') \<Rightarrow> Some (Inr (rc, inp', upd_ctx c (\<lambda>x. x\<lparr>in_packet := packet_cleanup (in_packet x), last_msg_in := now b'\<rparr>) b')))"
proof -
  let ?b1 = "in_pkt c (\<lambda>p. p\<lparr>command := cmd\<rparr>) b"
  obtain inp1 where r1: "read_command c inp b = Inr (inp1, ?b1)" "leading inp1 = remaining_bytes (length body) [] @ body @ rest"
    using read_command_byte [of b c inp cmd] idle l first by (auto simp: mqtt_packet_def packet_cleanup_def)
  define q where "q = (received p0 cmd body)\<lparr>to_process := length body,
      payload := (if body = [] then None else Some (replicate (length body) 0))\<rparr>"
  let ?b2 = "in_pkt c (\<lambda>_. q) (count_bytes c cmd (length body) ?b1)"
  have "in_packet (ctxs ?b1 c) = (packet_cleanup p0)\<lparr>command := cmd\<rparr>" "within_limits H cmd (length body) ?b1"
    using w by (simp_all add: idle within_limits_def upd_ctx_def)
  then obtain inp2 where r2: "read_header H c inp1 ?b1 = Inr (inp2, ?b2)" "leading inp2 = body @ rest"
    using read_header_frame [where b = ?b1 and c = c and cmd = cmd and body = body and inp = inp1 and rest = "body @ rest" and ?p0.0 = p0 and H = H] r1(2) n unfolding q_def by auto
  have v2: "\<not> IS_CONTEXT_INVALID (ctxs ?b2 c)"
    using v by (simp add: IS_CONTEXT_INVALID_def count_bytes_def upd_ctx_def log_dxl_def)
  have "in_packet (ctxs ?b2 c) = q" by (simp add: upd_ctx_def)
  from read_body_frame [OF this [unfolded q_def] r2(2) n v2 [unfolded q_def]]
  obtain inp3 where r3: "read_body c inp2 ?b2 = Inr (inp3, in_pkt c (\<lambda>_. (received p0 cmd body)\<lparr>pos := length body\<rparr>) ?b2)" "leading inp3 = rest"
    unfolding q_def by blast
  have "(received p0 cmd body)\<lparr>pos := 0\<rparr> = received p0 cmd body" by (simp add: received_def packet_cleanup_def)
  then have e: "in_pkt c (\<lambda>p. p\<lparr>pos := 0\<rparr>) (in_pkt c (\<lambda>_. (received p0 cmd body)\<lparr>pos := length body\<rparr>) ?b2) =
      in_pkt c (\<lambda>_. received p0 cmd body) (count_bytes c cmd (length body) b)"
    by (simp add: count_bytes_def upd_ctx_def log_dxl_def)
  show ?thesis
    using that [OF r3(2)] unfolding read_packet_def r1(1) sum.case prod.case r2(1) r3(1) e by simp
qed

section \<open>Every byte lands in the buffer\<close>

text \<open>A packet being received: its length is growing digit by digit, or its buffer has the announced length
  and the cursor and what is missing add up to it. The fifth length digit ends the connection.\<close>

definition receiving :: "packet \<Rightarrow> bool" where
  "receiving p \<longleftrightarrow>
     (if have_remaining p then
        remaining_length p < 2 ^ 28 \<and> length (payload_bytes p) = remaining_length p \<and> pos p + to_process p = remaining_length p
      else to_process p = 0 \<and> pos p = 0 \<and> payload p = None \<and>
        (remaining_count p \<le> 4 \<longrightarrow> remaining_mult p = 128 ^ remaining_count p \<and> remaining_length p < 128 ^ remaining_count p))"

lemma receiving_cleanup [simp]: "receiving (packet_cleanup p)"
  by (simp add: receiving_def packet_cleanup_def)

lemma receiving_command [simp]: "receiving (p\<lparr>command := x\<rparr>) = receiving p"
  by (simp add: receiving_def payload_bytes_def)

lemma read_length_receiving:
  "read_length p inp = (p', inp', rc) \<Longrightarrow> receiving p \<Longrightarrow> \<not> have_remaining p \<Longrightarrow>
   receiving p' \<and> \<not> have_remaining p' \<and> command p' = command p \<and> (rc = None \<longrightarrow> remaining_length p' < 2 ^ 28)"
proof (induction p inp arbitrary: p' inp' rc rule: read_length.induct)
  case (1 p inp)
  obtain e inp1 where n: "net_read 1 inp = (e, inp1)" by fastforce
  let ?p1 = "p\<lparr>remaining_count := remaining_count p + 1\<rparr>"
  show ?case
  proof (cases "\<exists>bs. e = Rd_data bs \<and> remaining_count p + 1 \<le> 4")
    case False
    then have "(p' = p \<or> p' = ?p1 \<and> remaining_count p + 1 > 4) \<and> rc \<noteq> None"
      using "1.prems"(1) n by (cases e) (auto simp: read_length.simps [of p inp] Let_def simp del: One_nat_def)
    then show ?thesis using "1.prems"(2,3) by (auto simp: receiving_def)
  next
    case True
    then obtain bs where e: "e = Rd_data bs" and c: "remaining_count p + 1 \<le> 4" by blast
    let ?k = "remaining_count p" and ?d = "unat (hd bs AND 127)"
    define p2 where "p2 = ?p1\<lparr>remaining_length := u32 (remaining_length p + ?d * remaining_mult p), remaining_mult := u32 (remaining_mult p * 128)\<rparr>"
    have m: "remaining_mult p = 128 ^ ?k" "remaining_length p < 128 ^ ?k" using "1.prems"(2,3) c by (simp_all add: receiving_def)
    have d: "?d \<le> 127" using word_and_le1 [of "hd bs" 127] by (simp add: word_le_nat_alt)
    have "?d * 128 ^ ?k \<le> 127 * 128 ^ ?k" by (rule mult_right_mono [OF d]) simp
    then have b: "remaining_length p + ?d * 128 ^ ?k < 128 ^ Suc ?k" using m(2) unfolding power_Suc by linarith
    have "(128 :: nat) ^ Suc ?k \<le> 2 ^ 28" using pow128_le [of "Suc ?k"] c by simp
    then have p2: "remaining_length p2 = remaining_length p + ?d * 128 ^ ?k" "remaining_mult p2 = 128 ^ Suc ?k"
      using b by (simp_all add: p2_def m)
    have r2: "receiving p2" "\<not> have_remaining p2" "command p2 = command p" "remaining_length p2 < 2 ^ 28"
      using "1.prems"(2,3) b p2 \<open>(128 :: nat) ^ Suc ?k \<le> 2 ^ 28\<close> by (auto simp: receiving_def p2_def)
    show ?thesis
    proof (cases "hd bs AND 128 \<noteq> 0")
      case True
      then have "read_length p2 inp1 = (p', inp', rc)"
        using c "1.prems"(1) by (subst (asm) read_length.simps) (simp add: n e Let_def p2_def del: One_nat_def)
      then show ?thesis
        using "1.IH" [OF n [symmetric] e refl _ refl refl True, of p' inp' rc] c r2 by (simp add: p2_def)
    next
      case False
      then have "read_length p inp = (p2, inp1, None)"
        using c by (subst read_length.simps) (simp add: n e Let_def p2_def del: One_nat_def)
      then show ?thesis using "1.prems"(1) r2 by simp
    qed
  qed
qed

lemma start_payload_receiving:
  "receiving p \<Longrightarrow> \<not> have_remaining p \<Longrightarrow> remaining_length p < 2 ^ 28 \<Longrightarrow> receiving (start_payload p) \<and> have_remaining (start_payload p)"
  by (auto simp: receiving_def start_payload_def payload_bytes_def)

lemma read_payload_receiving:
  "read_payload p inp = (p', inp', stop) \<Longrightarrow> receiving p \<Longrightarrow> have_remaining p \<Longrightarrow>
   receiving p' \<and> have_remaining p' \<and> command p' = command p \<and> (stop = None \<longrightarrow> to_process p' = 0)"
proof (induction p inp arbitrary: p' inp' stop rule: read_payload.induct)
  case (1 p inp)
  obtain e inp1 where n: "net_read (to_process p) inp = (e, inp1)" by fastforce
  show ?case
  proof (cases "0 < to_process p \<and> (\<exists>bs. e = Rd_data bs)")
    case False
    then have "p' = p \<and> (stop = None \<longrightarrow> to_process p = 0)"
      using "1.prems"(1) n by (cases e) (auto simp: read_payload.simps [of p inp] split: if_splits)
    then show ?thesis using "1.prems"(2,3) by simp
  next
    case True
    then obtain bs where e: "e = Rd_data bs" and t: "0 < to_process p" by blast
    have l: "length bs \<le> to_process p" using net_read_data [of "to_process p" inp bs inp1] n e t by simp
    let ?q = "p\<lparr>to_process := to_process p - length bs, pos := u32 (pos p + length bs), payload := Some (put_at (pos p) bs (payload_bytes p))\<rparr>"
    have "receiving ?q" "have_remaining ?q" using "1.prems"(2,3) l by (simp_all add: receiving_def payload_bytes_def)
    moreover have "read_payload p inp = read_payload ?q inp1" using t by (subst read_payload.simps) (simp add: n e)
    ultimately show ?thesis using "1.IH" [OF t n [symmetric] e, of p' inp' stop] "1.prems"(1) by simp
  qed
qed

text \<open>A disconnection does not touch what is being received.\<close>

lemma disconnect_in_packet:
  assumes "wills_ok b"
  shows "in_packet (ctxs (mqtt3_context_disconnect H c b) d) = in_packet (ctxs b d)"
proof -
  obtain b2 where b2: "bystander b b2" "mqtt3_context_disconnect H c b =
    (let b4 = upd_ctx c (\<lambda>x. x\<lparr>listener := None\<rparr>) (drop_listener c (upd_ctx c (\<lambda>x. x\<lparr>will := None\<rparr>) b2))
     in upd_ctx c (\<lambda>x. socket_close (x\<lparr>disconnect_t := now b\<rparr>)) b4)"
    using bys.R_disconnect [OF assms] by blast
  have "ctxs b2 d = (ctxs b d)\<lparr>msgs := msgs (ctxs b2 d), msg_count := msg_count (ctxs b2 d), msg_count12 := msg_count12 (ctxs b2 d),
     last_mid := last_mid (ctxs b2 d), is_dropping := is_dropping (ctxs b2 d), bridge := bridge (ctxs b2 d)\<rparr>"
    using b2(1) by (simp add: bystander_def queue_only_def)
  from arg_cong [OF this, of in_packet] have "in_packet (ctxs b2 d) = in_packet (ctxs b d)" by simp
  then show ?thesis
    unfolding b2(2) by (auto simp: Let_def upd_ctx_def drop_listener_def socket_close_def split: option.split)
qed

lemma check_limits_in_packet: "wills_ok b \<Longrightarrow> in_packet (ctxs (check_limits H c b) d) = in_packet (ctxs b d)"
proof -
  assume w: "wills_ok b"
  have "wills_ok (log_dxl e b)" for e using w by (simp add: wills_ok_def log_dxl_def)
  note d = disconnect_in_packet [OF this] disconnect_in_packet [OF w]
  show ?thesis unfolding check_limits_def Let_def by (simp add: d) (simp add: log_dxl_def)
qed

lemma read_stages_receiving:
  assumes "receiving (in_packet (ctxs b c))"
  shows "read_command c inp b = Inl (rc, inp', b') \<Longrightarrow> receiving (in_packet (ctxs b' c))"
    and "read_command c inp b = Inr (inp', b') \<Longrightarrow> receiving (in_packet (ctxs b' c))"
    and "wills_ok b \<Longrightarrow> read_header H c inp b = Inl (rc, inp', b') \<Longrightarrow> receiving (in_packet (ctxs b' c))"
    and "wills_ok b \<Longrightarrow> read_header H c inp b = Inr (inp', b') \<Longrightarrow> receiving (in_packet (ctxs b' c)) \<and> have_remaining (in_packet (ctxs b' c))"
    and "have_remaining (in_packet (ctxs b c)) \<Longrightarrow> read_body c inp b = Inl (rc, inp', b') \<Longrightarrow> receiving (in_packet (ctxs b' c))"
    and "have_remaining (in_packet (ctxs b c)) \<Longrightarrow> read_body c inp b = Inr (inp', b') \<Longrightarrow>
      in_packet_ok (in_packet (ctxs (in_pkt c (\<lambda>p. p\<lparr>pos := 0\<rparr>) b') c))"
proof -
  show "read_command c inp b = Inl (rc, inp', b') \<Longrightarrow> receiving (in_packet (ctxs b' c))"
    "read_command c inp b = Inr (inp', b') \<Longrightarrow> receiving (in_packet (ctxs b' c))"
    using assms by (auto simp: read_command_def Let_def split: if_splits prod.splits read_event.splits)
  have h: "receiving p \<and> \<not> have_remaining p \<and> (r = None \<longrightarrow> remaining_length p < 2 ^ 28)"
    if "read_length (in_packet (ctxs b c)) inp = (p, inp', r)" "\<not> have_remaining (in_packet (ctxs b c))" for p r inp'
    using read_length_receiving [OF that(1) assms that(2)] by simp
  show "read_header H c inp b = Inl (rc, inp', b') \<Longrightarrow> receiving (in_packet (ctxs b' c))"
    using h by (auto simp: read_header_def upd_ctx_def Let_def split: if_splits prod.splits option.splits)
  have "wills_ok b \<Longrightarrow> wills_ok (in_pkt c (\<lambda>_. p) b)" for p by (simp add: wills_ok_def upd_ctx_def)
  then have lim: "wills_ok b \<Longrightarrow> in_packet (ctxs (check_limits H c (in_pkt c (\<lambda>_. p) b)) c) = p" for p
    by (simp add: check_limits_in_packet) (simp add: upd_ctx_def)
  show "wills_ok b \<Longrightarrow> read_header H c inp b = Inr (inp', b') \<Longrightarrow> receiving (in_packet (ctxs b' c)) \<and> have_remaining (in_packet (ctxs b' c))"
    using h assms lim start_payload_receiving
    by (auto simp: read_header_def Let_def split: if_splits prod.splits option.splits)
  have p: "receiving q \<and> have_remaining q \<and> (stop = None \<longrightarrow> to_process q = 0)"
    if "read_payload (in_packet (ctxs b c)) inp = (q, inp', stop)" "have_remaining (in_packet (ctxs b c))" for q stop inp'
    using read_payload_receiving [OF that(1) assms that(2)] by simp
  show "have_remaining (in_packet (ctxs b c)) \<Longrightarrow> read_body c inp b = Inl (rc, inp', b') \<Longrightarrow> receiving (in_packet (ctxs b' c))"
    using p assms by (auto simp: read_body_def Let_def upd_ctx_def split: if_splits prod.splits option.splits)
  have ok: "in_packet_ok (q\<lparr>pos := 0\<rparr>)" if "receiving q" "have_remaining q" for q
    using that by (simp add: in_packet_ok_def receiving_def)
  show "have_remaining (in_packet (ctxs b c)) \<Longrightarrow> read_body c inp b = Inr (inp', b') \<Longrightarrow>
      in_packet_ok (in_packet (ctxs (in_pkt c (\<lambda>p. p\<lparr>pos := 0\<rparr>) b') c))"
    using p ok by (auto simp: read_body_def Let_def upd_ctx_def split: if_splits prod.splits option.splits)
qed

section \<open>Interrupted frames are resumed\<close>

definition all_data :: "read_event list \<Rightarrow> bool" where
  "all_data inp \<longleftrightarrow> (\<forall>e \<in> set inp. \<exists>bs. e = Rd_data bs)"

text \<open>A read from pieces followed by others is a read from the pieces, or when they are used up from the others.\<close>

lemma net_read_append:
  assumes "all_data xs"
  shows "net_read n xs = (e, xs') \<Longrightarrow> (e = Rd_again \<and> xs' = [] \<and> net_read n (xs @ ys) = net_read n ys) \<or>
    (\<exists>bs. e = Rd_data bs \<and> all_data xs' \<and> net_read n (xs @ ys) = (e, xs' @ ys))"
  using assms
proof (induction n xs rule: net_read.induct)
  case (2 n bs es)
  then show ?case by (cases "bs = []") (auto simp: all_data_def)
qed (auto simp: all_data_def)

lemma read_length_append:
  "all_data xs \<Longrightarrow> read_length p xs = (q, xs', rc) \<Longrightarrow>
   (rc = None \<longrightarrow> all_data xs' \<and> read_length p (xs @ ys) = (q, xs' @ ys, None)) \<and>
   (rc = Some 0 \<longrightarrow> read_length p (xs @ ys) = read_length q ys)"
proof (induction p xs arbitrary: q xs' rc rule: read_length.induct)
  case (1 p xs)
  obtain e zs where n: "net_read 1 xs = (e, zs)" by fastforce
  note a = net_read_append [OF "1.prems"(1) n, where ys = ys]
  show ?case
  proof (cases "e = Rd_again")
    case True
    then have "net_read 1 (xs @ ys) = net_read 1 ys" "q = p" "rc \<noteq> None"
      using a "1.prems"(2) n by (auto simp: read_length.simps [of p xs] simp del: One_nat_def)
    then show ?thesis by (auto simp: read_length.simps [of p "xs @ ys"] read_length.simps [of p ys] simp del: One_nat_def)
  next
    case False
    then obtain bs where e: "e = Rd_data bs" "all_data zs" "net_read 1 (xs @ ys) = (Rd_data bs, zs @ ys)" using a by auto
    show ?thesis
      using "1.prems"(2) "1.IH" [OF n [symmetric] e(1) refl _ refl refl _ e(2)] e
      unfolding read_length.simps [of p xs] read_length.simps [of p "xs @ ys"] n
      by (auto simp: Let_def simp del: One_nat_def split: if_splits)
  qed
qed

lemma read_payload_append:
  "all_data xs \<Longrightarrow> read_payload p xs = (q, xs', stop) \<Longrightarrow>
   (stop = None \<longrightarrow> all_data xs' \<and> read_payload p (xs @ ys) = (q, xs' @ ys, None)) \<and>
   (stop \<noteq> None \<longrightarrow> stop = Some Rd_again \<and> read_payload p (xs @ ys) = read_payload q ys)"
proof (induction p xs arbitrary: q xs' stop rule: read_payload.induct)
  case (1 p xs)
  obtain e zs where n: "net_read (to_process p) xs = (e, zs)" by fastforce
  note a = net_read_append [OF "1.prems"(1) n, where ys = ys]
  show ?case
  proof (cases "to_process p > 0")
    case t: True
    show ?thesis
    proof (cases "e = Rd_again")
      case True
      then have "net_read (to_process p) (xs @ ys) = net_read (to_process p) ys" "q = p" "stop = Some Rd_again"
        using a "1.prems"(2) n t by (auto simp: read_payload.simps [of p xs])
      then show ?thesis using t by (simp add: read_payload.simps [of p "xs @ ys"] read_payload.simps [of p ys])
    next
      case False
      then obtain bs where e: "e = Rd_data bs" "all_data zs" "net_read (to_process p) (xs @ ys) = (Rd_data bs, zs @ ys)" using a by auto
      show ?thesis
        using "1.prems"(2) "1.IH" [OF t n [symmetric] e(1) e(2)] e t
        unfolding read_payload.simps [of p xs] read_payload.simps [of p "xs @ ys"] n by simp
    qed
  qed (use "1.prems" in \<open>auto simp: read_payload.simps\<close>)
qed

lemma read_length_have_remaining: "read_length p inp = (q, inp', rc) \<Longrightarrow> have_remaining q = have_remaining p \<and> command q = command p"
proof (induction p inp arbitrary: q inp' rc rule: read_length.induct)
  case (1 p inp)
  obtain e zs where n: "net_read 1 inp = (e, zs)" by fastforce
  let ?p1 = "p\<lparr>remaining_count := remaining_count p + 1\<rparr>"
  show ?case
  proof (cases "\<exists>bs. e = Rd_data bs \<and> \<not> remaining_count ?p1 > 4 \<and> hd bs AND 128 \<noteq> 0")
    case True
    then obtain bs where e: "e = Rd_data bs" "\<not> remaining_count ?p1 > 4" "hd bs AND 128 \<noteq> 0" by blast
    from "1.IH" [OF n [symmetric] e(1) refl e(2) refl refl e(3), of q inp' rc]
    show ?thesis using "1.prems" e unfolding read_length.simps [of p inp] n by (simp add: Let_def)
  next
    case False
    then show ?thesis using "1.prems" unfolding read_length.simps [of p inp] n
      by (cases e) (auto simp: Let_def split: if_splits)
  qed
qed

lemma read_payload_have_remaining: "read_payload p inp = (q, inp', stop) \<Longrightarrow> have_remaining q = have_remaining p \<and> command q = command p"
proof (induction p inp arbitrary: q inp' stop rule: read_payload.induct)
  case (1 p inp)
  obtain e zs where n: "net_read (to_process p) inp = (e, zs)" by fastforce
  show ?case
  proof (cases "to_process p > 0 \<and> (\<exists>bs. e = Rd_data bs)")
    case True
    then obtain bs where t: "to_process p > 0" and e: "e = Rd_data bs" by blast
    from "1.IH" [OF t n [symmetric] e, of q inp' stop]
    show ?thesis using "1.prems" t e unfolding read_payload.simps [of p inp] n by simp
  next
    case False
    then show ?thesis using "1.prems" unfolding read_payload.simps [of p inp] n by (cases e) (auto split: if_splits)
  qed
qed

text \<open>The state in which an interrupted call is taken up again, but for the time stamp that a long wait sets.\<close>

definition resume_at :: "nat \<Rightarrow> broker \<Rightarrow> broker \<Rightarrow> broker" where
  "resume_at c b b' = upd_ctx c (\<lambda>x. x\<lparr>last_msg_in := last_msg_in (ctxs b c)\<rparr>) b'"

lemma resume_at_stages:
  assumes "command (in_packet (ctxs b c)) \<noteq> 0"
  shows "read_command c inp b = Inr (inp, b)"
  using assms by (simp add: read_command_def)

lemma check_limits_last_msg_in:
  assumes "wills_ok b"
  shows "last_msg_in (ctxs (check_limits H c b) c) = last_msg_in (ctxs b c)"
proof -
  have d: "last_msg_in (ctxs (mqtt3_context_disconnect H c b) c) = last_msg_in (ctxs b c)" if w: "wills_ok b" for b
  proof -
    obtain b2 where b2: "bystander b b2" "mqtt3_context_disconnect H c b =
      (let b4 = upd_ctx c (\<lambda>x. x\<lparr>listener := None\<rparr>) (drop_listener c (upd_ctx c (\<lambda>x. x\<lparr>will := None\<rparr>) b2))
       in upd_ctx c (\<lambda>x. socket_close (x\<lparr>disconnect_t := now b\<rparr>)) b4)"
      using bys.R_disconnect [OF w] by blast
    have "queue_only (ctxs b c) (ctxs b2 c)" using b2(1) by (simp add: bystander_def)
    then have "last_msg_in (ctxs b2 c) = last_msg_in (ctxs b c)" by (simp add: queue_only_fields)
    then show ?thesis
      unfolding b2(2) by (auto simp: Let_def upd_ctx_def drop_listener_def socket_close_def split: option.split)
  qed
  have "wills_ok (log_dxl e b)" for e using assms by (simp add: wills_ok_def log_dxl_def)
  from d [OF this] d [OF assms] show ?thesis unfolding check_limits_def Let_def by simp (simp add: log_dxl_def)
qed

lemma read_packet_resumes:
  assumes w: "wills_ok b" and xs: "all_data xs" and r: "read_packet H c xs b = Some (Inl (0, inp', b'))"
    and cmd: "command (in_packet (ctxs b' c)) \<noteq> 0"
  shows "read_packet H c (xs @ ys) b = read_packet H c ys (resume_at c b b')"
proof (cases "read_command c xs b")
  case (Inl s)
  then have s: "s = (0, inp', b')" using r by (simp add: read_packet_def)
  obtain e zs where n: "net_read 1 xs = (e, zs)" by fastforce
  have "b' = b \<and> command (in_packet (ctxs b c)) = 0"
    using Inl s n by (cases e) (auto simp: read_command_def Let_def header_rc_def split: if_splits)
  then show ?thesis using cmd by simp
next
  case (Inr s)
  then obtain xs1 b1 where r1: "read_command c xs b = Inr (xs1, b1)" by (cases s) auto
  obtain e zs where n: "net_read 1 xs = (e, zs)" by fastforce
  have xs1: "all_data xs1 \<and> read_command c (xs @ ys) b = Inr (xs1 @ ys, b1)"
    using r1 net_read_append [OF xs n, where ys = ys] xs n
    by (auto simp: read_command_def Let_def simp del: One_nat_def split: if_splits)
  have l1: "last_msg_in (ctxs b1 c) = last_msg_in (ctxs b c)" "wills_ok b1"
    using r1 w by (auto simp: read_command_def Let_def wills_ok_def upd_ctx_def simp del: One_nat_def split: if_splits prod.splits read_event.splits)
  show ?thesis
  proof (cases "read_header H c xs1 b1")
    case (Inl s)
    then have s: "s = (0, inp', b')" using r by (simp add: read_packet_def r1)
    obtain p zs rc where l: "read_length (in_packet (ctxs b1 c)) xs1 = (p, zs, rc)" by (metis prod_cases3)
    have e: "\<not> have_remaining (in_packet (ctxs b1 c))" "rc = Some 0" "b' = in_pkt c (\<lambda>_. p) b1"
      using Inl s l by (auto simp: read_header_def Let_def split: if_splits option.splits)
    have p: "\<not> have_remaining p" "command p \<noteq> 0" using read_length_have_remaining [OF l] e cmd by (auto simp: upd_ctx_def)
    have q: "resume_at c b b' = b'" using l1 by (auto simp: resume_at_def e(3) upd_ctx_def intro!: broker.equality ext)
    have "read_length (in_packet (ctxs b1 c)) (xs1 @ ys) = read_length p ys"
      using read_length_append [OF conjunct1 [OF xs1] l, of ys] e(2) by simp
    then have "read_header H c (xs1 @ ys) b1 = read_header H c ys b'"
      using e p by (simp add: read_header_def upd_ctx_def split_beta)
    moreover have "read_command c ys b' = Inr (ys, b')" using p e(3) by (simp add: read_command_def upd_ctx_def)
    ultimately show ?thesis by (simp add: read_packet_def xs1 q)
  next
    case (Inr s)
    then obtain xs2 b2 where r2: "read_header H c xs1 b1 = Inr (xs2, b2)" by (cases s) auto
    have h2: "all_data xs2 \<and> read_header H c (xs1 @ ys) b1 = Inr (xs2 @ ys, b2) \<and> have_remaining (in_packet (ctxs b2 c)) \<and>
        last_msg_in (ctxs b2 c) = last_msg_in (ctxs b c)"
    proof (cases "have_remaining (in_packet (ctxs b1 c))")
      case True
      then show ?thesis using r2 xs1 l1 by (simp add: read_header_def)
    next
      case False
      obtain p zs rc where l: "read_length (in_packet (ctxs b1 c)) xs1 = (p, zs, rc)" by (metis prod_cases3)
      have rc: "rc = None" "xs2 = zs" "b2 = in_pkt c start_payload (check_limits H c (in_pkt c (\<lambda>_. p) b1))"
        using r2 l False by (auto simp: read_header_def Let_def split: option.splits)
      have "wills_ok (in_pkt c (\<lambda>_. p) b1)" using l1(2) by (simp add: wills_ok_def upd_ctx_def)
      then have "last_msg_in (ctxs b2 c) = last_msg_in (ctxs b1 c)" "have_remaining (in_packet (ctxs b2 c))"
        using check_limits_last_msg_in [of "in_pkt c (\<lambda>_. p) b1" H c]
        by (simp_all add: rc(3)) (simp_all add: upd_ctx_def start_payload_def)
      then show ?thesis
        using read_length_append [OF conjunct1 [OF xs1] l, of ys] rc False l1 by (simp add: read_header_def)
    qed
    show ?thesis
    proof (cases "read_body c xs2 b2")
      case (Inl s)
      then have s: "s = (0, inp', b')" using r by (simp add: read_packet_def r1 r2)
      obtain p zs stop where l: "read_payload (in_packet (ctxs b2 c)) xs2 = (p, zs, stop)" by (metis prod_cases3)
      have v: "\<not> (IS_CONTEXT_INVALID (ctxs b2 c) \<and> to_process (in_packet (ctxs b2 c)) > 0)"
        using Inl s by (auto simp: read_body_def Let_def split: if_splits)
      obtain t where e: "stop \<noteq> None" "b' = upd_ctx c (\<lambda>x. x\<lparr>last_msg_in := t\<rparr>) (in_pkt c (\<lambda>_. p) b2)"
      proof (cases stop)
        case (Some f)
        have "b' = (if f = Rd_again \<and> to_process p > 1000 then upd_ctx c (\<lambda>x. x\<lparr>last_msg_in := now b2\<rparr>) (in_pkt c (\<lambda>_. p) b2) else in_pkt c (\<lambda>_. p) b2)"
          using Inl s l v Some by (simp add: read_body_def Let_def)
        moreover have "in_pkt c (\<lambda>_. p) b2 = upd_ctx c (\<lambda>x. x\<lparr>last_msg_in := last_msg_in (ctxs b2 c)\<rparr>) (in_pkt c (\<lambda>_. p) b2)"
          by (auto simp: upd_ctx_def intro!: broker.equality ext)
        ultimately show ?thesis using that Some by (metis option.distinct(1))
      qed (use Inl s l v in \<open>auto simp: read_body_def Let_def\<close>)
      have q: "resume_at c b b' = in_pkt c (\<lambda>_. p) b2"
        using h2 by (auto simp: resume_at_def e(2) upd_ctx_def intro!: broker.equality ext)
      have p: "have_remaining p" "command p \<noteq> 0"
        using read_payload_have_remaining [OF l] h2 cmd by (auto simp: e(2) upd_ctx_def)
      have ap: "read_payload (in_packet (ctxs b2 c)) (xs2 @ ys) = read_payload p ys"
        using read_payload_append [OF conjunct1 [OF h2] l, of ys] e(1) by simp
      have z: "to_process p > 0 \<Longrightarrow> to_process (in_packet (ctxs b2 c)) > 0"
        using l by (cases "to_process (in_packet (ctxs b2 c)) > 0") (auto simp: read_payload.simps)
      let ?b = "in_pkt c (\<lambda>_. p) b2"
      have f: "in_packet (ctxs ?b c) = p" "now ?b = now b2" "IS_CONTEXT_INVALID (ctxs ?b c) = IS_CONTEXT_INVALID (ctxs b2 c)"
        "in_pkt c (\<lambda>_. r) ?b = in_pkt c (\<lambda>_. r) b2" for r
        by (simp_all add: IS_CONTEXT_INVALID_def upd_ctx_def)
      have nv: "\<not> (IS_CONTEXT_INVALID (ctxs b2 c) \<and> to_process p > 0)" using v z by blast
      have bd: "read_body c (xs2 @ ys) b2 = read_body c ys ?b"
        unfolding read_body_def Let_def f ap if_not_P [OF v] if_not_P [OF nv] ..
      moreover have "read_command c ys (in_pkt c (\<lambda>_. p) b2) = Inr (ys, in_pkt c (\<lambda>_. p) b2)"
        "read_header H c ys (in_pkt c (\<lambda>_. p) b2) = Inr (ys, in_pkt c (\<lambda>_. p) b2)"
        using p by (simp_all add: read_command_def read_header_def upd_ctx_def)
      ultimately show ?thesis using xs1 h2 by (simp add: read_packet_def q)
    next
      case (Inr s)
      then show ?thesis using r by (auto simp: read_packet_def r1 r2 split: prod.splits option.splits)
    qed
  qed
qed

section \<open>Every call returns and keeps the database\<close>

fun bytes_in :: "read_event list \<Rightarrow> nat" where
  "bytes_in [] = 0"
| "bytes_in (Rd_data bs # es) = length bs + bytes_in es"
| "bytes_in (e # es) = bytes_in es"

lemma net_read_bytes:
  "net_read n inp = (e, inp') \<Longrightarrow> bytes_in inp' \<le> bytes_in inp \<and> (0 < n \<longrightarrow> (\<exists>bs. e = Rd_data bs) \<longrightarrow> bytes_in inp' < bytes_in inp)"
  by (induction n inp rule: net_read.induct) (auto split: if_splits)

lemma read_length_bytes: "read_length p inp = (q, inp', rc) \<Longrightarrow> bytes_in inp' \<le> bytes_in inp"
proof (induction p inp arbitrary: q inp' rc rule: read_length.induct)
  case (1 p inp)
  obtain e zs where n: "net_read 1 inp = (e, zs)" by fastforce
  have z: "bytes_in zs \<le> bytes_in inp" using net_read_bytes [OF n] by simp
  let ?p1 = "p\<lparr>remaining_count := remaining_count p + 1\<rparr>"
  show ?case
  proof (cases "\<exists>bs. e = Rd_data bs \<and> \<not> remaining_count ?p1 > 4 \<and> hd bs AND 128 \<noteq> 0")
    case True
    then obtain bs where e: "e = Rd_data bs" "\<not> remaining_count ?p1 > 4" "hd bs AND 128 \<noteq> 0" by blast
    from "1.IH" [OF n [symmetric] e(1) refl e(2) refl refl e(3), of q inp' rc]
    have "bytes_in inp' \<le> bytes_in zs" using "1.prems" e unfolding read_length.simps [of p inp] n by (simp add: Let_def)
    then show ?thesis using z by simp
  next
    case False
    then show ?thesis using "1.prems" z unfolding read_length.simps [of p inp] n
      by (cases e) (auto simp: Let_def split: if_splits)
  qed
qed

lemma read_payload_bytes: "read_payload p inp = (q, inp', stop) \<Longrightarrow> bytes_in inp' \<le> bytes_in inp"
proof (induction p inp arbitrary: q inp' stop rule: read_payload.induct)
  case (1 p inp)
  obtain e zs where n: "net_read (to_process p) inp = (e, zs)" by fastforce
  have z: "bytes_in zs \<le> bytes_in inp" using net_read_bytes [OF n] by simp
  show ?case
  proof (cases "to_process p > 0 \<and> (\<exists>bs. e = Rd_data bs)")
    case True
    then obtain bs where t: "to_process p > 0" and e: "e = Rd_data bs" by blast
    from "1.IH" [OF t n [symmetric] e, of q inp' stop]
    have "bytes_in inp' \<le> bytes_in zs" using "1.prems" t e unfolding read_payload.simps [of p inp] n by simp
    then show ?thesis using z by simp
  next
    case False
    then show ?thesis using "1.prems" z unfolding read_payload.simps [of p inp] n by (cases e) (auto split: if_splits)
  qed
qed

lemma keeps_in_pkt: "keeps b (in_pkt c f b)"
  by (rule keeps_plain) (simp add: plain_def)

lemma keeps_check_limits:
  assumes ok: "broker_ok b"
  shows "keeps b (check_limits H c b)"
  unfolding check_limits_def Let_def
  using keeps_disconnect [OF ok] keeps_log keeps_trans [OF keeps_log keeps_disconnect [OF keeps_ok [OF keeps_log ok]]] by simp

text \<open>Each stage keeps the database and gives back no more than it was given.\<close>

lemma read_command_keeps:
  "read_command c inp b = Inl (rc, inp', b') \<Longrightarrow> keeps b b'"
  "read_command c inp b = Inr (inp', b') \<Longrightarrow> keeps b b' \<and> bytes_in inp' \<le> bytes_in inp \<and>
     (command (in_packet (ctxs b c)) = 0 \<longrightarrow> bytes_in inp' < bytes_in inp)"
  using keeps_in_pkt net_read_bytes [of 1 inp]
  by (auto simp: read_command_def Let_def simp del: One_nat_def split: if_splits prod.splits read_event.splits)

lemma read_header_keeps:
  assumes ok: "broker_ok b"
  shows "read_header H c inp b = Inl (rc, inp', b') \<Longrightarrow> keeps b b'"
    and "read_header H c inp b = Inr (inp', b') \<Longrightarrow> keeps b b' \<and> bytes_in inp' \<le> bytes_in inp"
proof -
  have "keeps b (in_pkt c start_payload (check_limits H c (in_pkt c (\<lambda>_. p) b)))" for p
    by (rule keeps_trans [OF keeps_trans [OF keeps_in_pkt keeps_check_limits [OF keeps_ok [OF keeps_in_pkt ok]]] keeps_in_pkt])
  then show "read_header H c inp b = Inl (rc, inp', b') \<Longrightarrow> keeps b b'"
    "read_header H c inp b = Inr (inp', b') \<Longrightarrow> keeps b b' \<and> bytes_in inp' \<le> bytes_in inp"
    using keeps_in_pkt read_length_bytes
    by (auto simp: read_header_def Let_def split: if_splits prod.splits option.splits)
qed

lemma read_body_keeps:
  "read_body c inp b = Inl (rc, inp', b') \<Longrightarrow> keeps b b'"
  "read_body c inp b = Inr (inp', b') \<Longrightarrow> keeps b b' \<and> bytes_in inp' \<le> bytes_in inp"
proof -
  have "keeps b (upd_ctx c (\<lambda>x. x\<lparr>last_msg_in := t\<rparr>) (in_pkt c (\<lambda>_. p) b))" for t p
    by (rule keeps_trans [OF keeps_in_pkt keeps_plain]) (simp add: plain_def)
  then show "read_body c inp b = Inl (rc, inp', b') \<Longrightarrow> keeps b b'"
    "read_body c inp b = Inr (inp', b') \<Longrightarrow> keeps b b' \<and> bytes_in inp' \<le> bytes_in inp"
    using keeps_in_pkt read_payload_bytes
    by (auto simp: read_body_def Let_def split: if_splits prod.splits option.splits)
qed

lemma read_packet_keeps:
  assumes ok: "broker_ok b" and c: "live b c"
  obtains (early) rc inp' b' where "read_packet H c inp b = Some (Inl (rc, inp', b'))" and "keeps b b'"
  | (handled) rc inp' b' where "read_packet H c inp b = Some (Inr (rc, inp', b'))" and "keeps b b'"
      and "command (in_packet (ctxs b' c)) = 0" and "bytes_in inp' \<le> bytes_in inp"
      and "command (in_packet (ctxs b c)) = 0 \<Longrightarrow> bytes_in inp' < bytes_in inp"
proof (cases "read_command c inp b")
  case (Inl r)
  then obtain rc inp' b' where r: "read_command c inp b = Inl (rc, inp', b')" by (cases r) auto
  then show ?thesis using read_command_keeps(1) [OF r] early by (simp add: read_packet_def)
next
  case (Inr r)
  then obtain inp1 b1 where r1: "read_command c inp b = Inr (inp1, b1)" by (cases r) auto
  note k1 = read_command_keeps(2) [OF r1]
  show ?thesis
  proof (cases "read_header H c inp1 b1")
    case (Inl r)
    then obtain rc inp' b' where r: "read_header H c inp1 b1 = Inl (rc, inp', b')" by (cases r) auto
    then show ?thesis
      using read_header_keeps(1) [OF keeps_ok [OF conjunct1 [OF k1] ok] r] keeps_trans k1 early by (simp add: read_packet_def r1) blast
  next
    case (Inr r)
    then obtain inp2 b2 where r2: "read_header H c inp1 b1 = Inr (inp2, b2)" by (cases r) auto
    have k2: "keeps b b2" "bytes_in inp2 \<le> bytes_in inp1"
      using read_header_keeps(2) [OF keeps_ok [OF conjunct1 [OF k1] ok] r2] keeps_trans [of b b1] k1 by simp_all
    show ?thesis
    proof (cases "read_body c inp2 b2")
      case (Inl r)
      then obtain rc inp' b' where r: "read_body c inp2 b2 = Inl (rc, inp', b')" by (cases r) auto
      then show ?thesis using read_body_keeps(1) [OF r] keeps_trans [OF k2(1)] early by (simp add: read_packet_def r1 r2)
    next
      case (Inr r)
      then obtain inp3 b3 where r3: "read_body c inp2 b2 = Inr (inp3, b3)" by (cases r) auto
      let ?b = "in_pkt c (\<lambda>p. p\<lparr>pos := 0\<rparr>) b3"
      have k3: "keeps b ?b" "bytes_in inp3 \<le> bytes_in inp2"
        using read_body_keeps(2) [OF r3] keeps_trans [OF k2(1) keeps_trans [OF _ keeps_in_pkt]] by simp_all
      obtain rc b4 where h: "mqtt3_packet_handle H c ?b = Some (rc, b4)" "keeps ?b b4"
        using packet_handle_keeps [OF keeps_ok [OF k3(1) ok]] keeps_live [OF k3(1)] c by blast
      let ?b' = "upd_ctx c (\<lambda>x. x\<lparr>in_packet := packet_cleanup (in_packet x), last_msg_in := now b4\<rparr>) b4"
      have "keeps b4 ?b'" by (rule keeps_plain) (simp add: plain_def)
      then have "keeps b ?b'" using keeps_trans k3(1) h(2) by blast
      moreover have "read_packet H c inp b = Some (Inr (rc, inp3, ?b'))" by (simp add: read_packet_def r1 r2 r3 h(1))
      moreover have "command (in_packet (ctxs ?b' c)) = 0" by (simp add: upd_ctx_def packet_cleanup_def)
      moreover have "bytes_in inp3 \<le> bytes_in inp" using k1 k2(2) k3(2) by linarith
      moreover have "command (in_packet (ctxs b c)) = 0 \<Longrightarrow> bytes_in inp3 < bytes_in inp" using k1 k2(2) k3(2) by linarith
      ultimately show ?thesis using handled by blast
    qed
  qed
qed

lemma keeps_note_pending: "live b c \<Longrightarrow> keeps b (note_pending c pending b)"
  by (simp add: note_pending_def keeps_add_pending keeps_remove_pending)

lemma packet_read_loop_idle:
  assumes "broker_ok b" and "live b c" and "command (in_packet (ctxs b c)) = 0"
  shows "\<exists>rc inp' b'. packet_read_loop H c ws pending inp b = Some (rc, inp', b') \<and> keeps b b'"
  using assms
proof (induction "bytes_in inp" arbitrary: inp b rule: less_induct)
  case less
  show ?case
  proof (rule read_packet_keeps [OF less.prems(1,2), of H inp], goal_cases)
    case (1 rc inp' b')
    then show ?case by (simp add: packet_read_loop.simps)
  next
    case (2 rc inp' b')
    have ok: "broker_ok b'" "live b' c" using keeps_ok keeps_live 2(2) less.prems(1,2) by blast+
    have s: "bytes_in inp' < bytes_in inp" using 2(5) less.prems(3) by simp
    show ?case
    proof (cases "ws \<and> inp' \<noteq> []")
      case True
      obtain rc'' inp'' b'' where l: "packet_read_loop H c ws pending inp' b' = Some (rc'', inp'', b'')" "keeps b' b''"
        using less.hyps [OF s ok 2(3)] by blast
      have "keeps b b''" by (rule keeps_trans [OF 2(2) l(2)])
      then show ?thesis using True l(1) by (subst packet_read_loop.simps) (simp add: 2(1))
    next
      case False
      have "keeps b (note_pending c pending b')" by (rule keeps_trans [OF 2(2) keeps_note_pending [OF ok(2)]])
      then show ?thesis using False by (subst packet_read_loop.simps) (auto simp: 2(1))
    qed
  qed
qed

lemma packet_read_keeps:
  assumes ok: "broker_ok b" and c: "live b c"
  shows "\<exists>rc inp' b'. packet_read H c ws pending inp b = Some (rc, inp', b') \<and> keeps b b'"
proof (cases "IS_CONTEXT_INVALID (ctxs b c)")
  case False
  show ?thesis
  proof (rule read_packet_keeps [OF ok c, of H inp], goal_cases)
    case (1 rc inp' b')
    then show ?case using False by (simp add: packet_read_def packet_read_loop.simps)
  next
    case (2 rc inp' b')
    have ok': "broker_ok b'" "live b' c" using keeps_ok keeps_live 2(2) ok c by blast+
    show ?case
    proof (cases "ws \<and> inp' \<noteq> []")
      case True
      obtain rc'' inp'' b'' where l: "packet_read_loop H c ws pending inp' b' = Some (rc'', inp'', b'')" "keeps b' b''"
        using packet_read_loop_idle [OF ok' 2(3)] by blast
      have "keeps b b''" by (rule keeps_trans [OF 2(2) l(2)])
      then show ?thesis using True False l(1) by (simp add: packet_read_def) (subst packet_read_loop.simps, simp add: 2(1))
    next
      case n: False
      have "keeps b (note_pending c pending b')" by (rule keeps_trans [OF 2(2) keeps_note_pending [OF ok'(2)]])
      then show ?thesis using n False by (simp add: packet_read_def) (subst packet_read_loop.simps, auto simp: 2(1))
    qed
  qed
qed (simp add: packet_read_def)

section \<open>The properties of the reader\<close>

text \<open>A connected client at address 0, in slot 0, that has sent nothing yet.\<close>

definition sample_conn :: broker where
  "sample_conn = upd_ctx 0 (\<lambda>x. x\<lparr>cstate := mosq_cs_connected, in_packet := packet_cleanup empty_packet\<rparr>)
     (sample_table\<lparr>contexts := [Some 0]\<rparr>)"

lemma sample_conn_ok: "broker_ok sample_conn" and sample_conn_live: "live sample_conn 0"
proof -
  have t: "subs sample_conn = open_tree" by (simp add: sample_conn_def sample_table_def upd_ctx_def)
  have z: "msgs (ctxs sample_conn d) = [] \<and> msg_count (ctxs sample_conn d) = 0 \<and> msg_count12 (ctxs sample_conn d) = 0 \<and>
      will (ctxs sample_conn d) = None \<and> bridge (ctxs sample_conn d) = None \<and> numericId (ctxs sample_conn d) = 0 \<and> db_index (ctxs sample_conn d) = 0" for d
    by (simp add: sample_conn_def sample_table_def sample_broker_def upd_ctx_def zero_context_def zero_broker_def)
  have s: "contexts sample_conn = [Some 0]" "next_ptr sample_conn = 2" "msg_store sample_conn = [sample_store 1 ''a'']"
      "new_msgs_hash sample_conn = []" "new_clients_hash sample_conn = []" "pending_bytes_hash sample_conn = []"
    by (simp_all add: sample_conn_def sample_table_def sample_broker_def upd_ctx_def zero_broker_def)
  have "store_ok sample_conn"
    using z s by (simp add: store_ok_def store_ptrs_def refs_def ref_of_def stored_msg_def sample_store_def)
  then have "queues_ok sample_conn" using z by (simp add: queues_ok_def queue_ok_def)
  then show "broker_ok sample_conn"
    using open_tree_ok [OF t] open_tree_empty [OF t] z s
    by (simp add: broker_ok_def slots_ok_def leaves_live_def outgoing_only_def wills_ok_def sets_ok_def bridges_ok_def)
  show "live sample_conn 0" using s by (simp add: live_def)
qed

text \<open>C7. However a frame is cut into pieces, the reader puts it together: the handler gets the
  command and exactly the body, and what follows the frame is left for the next packet.\<close>

theorem frame_is_reassembled:
  assumes "in_packet (ctxs b c) = packet_cleanup p" and "leading inp = mqtt_packet cmd body @ rest"
    and "cmd \<noteq> 0" and "length body < 2 ^ 28" and "\<not> IS_CONTEXT_INVALID (ctxs b c)"
    and "bridge (ctxs b c) \<noteq> None \<or> cstate (ctxs b c) \<noteq> mosq_cs_new \<or> cmd AND 0xF0 = CONNECT"
    and "within_limits H cmd (length body) b"
  shows "\<exists>inp' q. leading inp' = rest \<and> command q = cmd \<and> payload_bytes q = body \<and> in_packet_ok q \<and> pos q = 0 \<and>
    read_packet H c inp b = (case mqtt3_packet_handle H c (in_pkt c (\<lambda>_. q) (count_bytes c cmd (length body) b)) of None \<Rightarrow> None
      | Some (rc, b') \<Rightarrow> Some (Inr (rc, inp', upd_ctx c (\<lambda>x. x\<lparr>in_packet := packet_cleanup (in_packet x), last_msg_in := now b'\<rparr>) b')))"
proof -
  have q: "command (received p cmd body) = cmd \<and> payload_bytes (received p cmd body) = body \<and> in_packet_ok (received p cmd body) \<and>
      pos (received p cmd body) = 0"
    using assms(4) by (simp add: received_def payload_bytes_def in_packet_ok_def packet_cleanup_def)
  obtain inp' where "leading inp' = rest" and
    "read_packet H c inp b = (case mqtt3_packet_handle H c (in_pkt c (\<lambda>_. received p cmd body) (count_bytes c cmd (length body) b)) of
       None \<Rightarrow> None
     | Some (rc, b') \<Rightarrow> Some (Inr (rc, inp', upd_ctx c (\<lambda>x. x\<lparr>in_packet := packet_cleanup (in_packet x), last_msg_in := now b'\<rparr>) b')))"
    by (rule read_packet_frame [OF assms])
  then show ?thesis using q by (intro exI [of _ inp'] exI [of _ "received p cmd body"] conjI) simp_all
qed

theorem frame_is_reassembled_witness:
  "\<exists>inp' q. leading inp' = [0x30] \<and> command q = 0xC0 \<and> payload_bytes q = [] \<and> in_packet_ok q \<and> pos q = 0 \<and>
    read_packet permissive_hooks 0 [Rd_data [0xC0], Rd_data [0x00, 0x30]] sample_conn =
      (case mqtt3_packet_handle permissive_hooks 0 (in_pkt 0 (\<lambda>_. q) (count_bytes 0 0xC0 0 sample_conn)) of None \<Rightarrow> None
       | Some (rc, b') \<Rightarrow> Some (Inr (rc, inp', upd_ctx 0 (\<lambda>x. x\<lparr>in_packet := packet_cleanup (in_packet x), last_msg_in := now b'\<rparr>) b')))"
proof -
  have "remaining_bytes 0 [] = [0]" by (simp add: remaining_bytes.simps)
  moreover have "within_limits permissive_hooks 0xC0 0 sample_conn"
    by (simp add: within_limits_def permissive_hooks_def sample_conn_def sample_table_def sample_broker_def zero_broker_def upd_ctx_def)
  moreover have "in_packet (ctxs sample_conn 0) = packet_cleanup empty_packet" "\<not> IS_CONTEXT_INVALID (ctxs sample_conn 0)"
      "cstate (ctxs sample_conn 0) \<noteq> mosq_cs_new"
    by (simp_all add: sample_conn_def sample_table_def sample_broker_def upd_ctx_def IS_CONTEXT_INVALID_def)
  ultimately show ?thesis
    using frame_is_reassembled [of sample_conn 0 empty_packet "[Rd_data [0xC0], Rd_data [0x00, 0x30]]" "0xC0" "[]" "[0x30]" permissive_hooks]
    by (simp add: mqtt_packet_def)
qed

text \<open>C25. A call that ran out of data in the middle of a packet loses nothing: reading the rest later is
  the same as having had all of it at once.\<close>

theorem interrupted_read_resumes:
  assumes "wills_ok b" and "all_data xs" and "read_packet H c xs b = Some (Inl (0, inp', b'))"
    and "command (in_packet (ctxs b' c)) \<noteq> 0"
  shows "read_packet H c (xs @ ys) b = read_packet H c ys (resume_at c b b')"
  by (rule read_packet_resumes [OF assms])

theorem interrupted_read_resumes_witness:
  "\<exists>b'. read_packet permissive_hooks 0 [Rd_data [0xC0]] sample_conn = Some (Inl (0, [], b')) \<and>
     read_packet permissive_hooks 0 ([Rd_data [0xC0]] @ [Rd_data [0]]) sample_conn =
     read_packet permissive_hooks 0 [Rd_data [0]] (resume_at 0 sample_conn b')"
proof -
  have p: "in_packet (ctxs sample_conn 0) = packet_cleanup empty_packet" "cstate (ctxs sample_conn 0) = mosq_cs_connected"
    by (simp_all add: sample_conn_def upd_ctx_def)
  define b' where "b' = in_pkt 0 (\<lambda>p. p\<lparr>command := 0xC0\<rparr>) sample_conn"
  have b': "in_packet (ctxs b' 0) = (packet_cleanup empty_packet)\<lparr>command := 0xC0\<rparr>" by (simp add: b'_def p)
  have "in_pkt 0 (\<lambda>_. (packet_cleanup empty_packet)\<lparr>command := 0xC0\<rparr>) b' = b'"
    by (auto simp: b'_def upd_ctx_def p intro!: broker.equality ext)
  then have "read_header permissive_hooks 0 [] b' = Inl (0, [], b')"
    by (simp add: read_header_def b' read_length.simps header_rc_def packet_cleanup_def)
  moreover have "read_command 0 [Rd_data [0xC0]] sample_conn = Inr ([], b')"
    by (simp add: read_command_def p packet_cleanup_def b'_def Let_def)
  ultimately have r: "read_packet permissive_hooks 0 [Rd_data [0xC0]] sample_conn = Some (Inl (0, [], b'))"
    by (simp add: read_packet_def)
  have "wills_ok sample_conn" using sample_conn_ok by (simp add: broker_ok_def)
  then show ?thesis
    using r interrupted_read_resumes [of sample_conn "[Rd_data [0xC0]]" permissive_hooks 0 "[]" b' "[Rd_data [0]]"]
    by (auto simp: all_data_def b')
qed


text \<open>C26. Every byte received lands inside the packet's buffer: a packet in the course of being received
  stays consistent from call to call, and a handler only ever sees a complete one, with a buffer of the
  announced length and the cursor at its start.\<close>

theorem received_bytes_in_bounds:
  assumes "receiving (in_packet (ctxs b c))" and "wills_ok b" and "read_packet H c inp b = Some r"
  shows "case r of Inl (rc, inp', b') \<Rightarrow> receiving (in_packet (ctxs b' c))
    | Inr (rc, inp', b') \<Rightarrow> receiving (in_packet (ctxs b' c)) \<and>
        (\<exists>b1 b2. in_packet_ok (in_packet (ctxs b1 c)) \<and> pos (in_packet (ctxs b1 c)) = 0 \<and>
          mqtt3_packet_handle H c b1 = Some (rc, b2) \<and>
          b' = upd_ctx c (\<lambda>x. x\<lparr>in_packet := packet_cleanup (in_packet x), last_msg_in := now b2\<rparr>) b2)"
proof (cases "read_command c inp b")
  case (Inl s)
  then show ?thesis using assms(3) read_stages_receiving(1) [OF assms(1)] by (cases s) (auto simp: read_packet_def)
next
  case (Inr s)
  then obtain inp1 b1 where r1: "read_command c inp b = Inr (inp1, b1)" by (cases s) auto
  have w: "wills_ok b1"
    using r1 assms(2) by (auto simp: read_command_def Let_def wills_ok_def upd_ctx_def simp del: One_nat_def split: if_splits prod.splits read_event.splits)
  note st = read_stages_receiving [OF read_stages_receiving(2) [OF assms(1) r1]]
  show ?thesis
  proof (cases "read_header H c inp1 b1")
    case (Inl s)
    then show ?thesis using assms(3) st(3) [OF w] by (cases s) (auto simp: read_packet_def r1)
  next
    case (Inr s)
    then obtain inp2 b2 where r2: "read_header H c inp1 b1 = Inr (inp2, b2)" by (cases s) auto
    note h = st(4) [OF w r2]
    note st2 = read_stages_receiving(5,6) [OF conjunct1 [OF h] conjunct2 [OF h]]
    show ?thesis
    proof (cases "read_body c inp2 b2")
      case (Inl s)
      then show ?thesis using assms(3) st2(1) by (cases s) (auto simp: read_packet_def r1 r2)
    next
      case (Inr s)
      then obtain inp3 b3 where r3: "read_body c inp2 b2 = Inr (inp3, b3)" by (cases s) auto
      let ?b = "in_pkt c (\<lambda>p. p\<lparr>pos := 0\<rparr>) b3"
      obtain rc b4 where h4: "mqtt3_packet_handle H c ?b = Some (rc, b4)"
        and r: "r = Inr (rc, inp3, upd_ctx c (\<lambda>x. x\<lparr>in_packet := packet_cleanup (in_packet x), last_msg_in := now b4\<rparr>) b4)"
        using assms(3) by (auto simp: read_packet_def r1 r2 r3 split: option.splits)
      have "in_packet_ok (in_packet (ctxs ?b c))" "pos (in_packet (ctxs ?b c)) = 0" using st2(2) [OF r3] by simp_all
      moreover have "receiving (in_packet (ctxs (upd_ctx c (\<lambda>x. x\<lparr>in_packet := packet_cleanup (in_packet x), last_msg_in := t\<rparr>) b4) c))" for t
        by (simp add: upd_ctx_def)
      ultimately show ?thesis unfolding r sum.case prod.case using h4 by blast
    qed
  qed
qed

theorem received_bytes_in_bounds_witness:
  "\<exists>b'. read_packet permissive_hooks 0 [Rd_data [0xC0], Rd_data [0x82]] sample_conn = Some (Inl (0, [], b')) \<and>
     receiving (in_packet (ctxs b' 0)) \<and> remaining_length (in_packet (ctxs b' 0)) = 2"
proof -
  have p: "in_packet (ctxs sample_conn 0) = packet_cleanup empty_packet" "cstate (ctxs sample_conn 0) = mosq_cs_connected"
    by (simp_all add: sample_conn_def upd_ctx_def)
  define b1 where "b1 = in_pkt 0 (\<lambda>p. p\<lparr>command := 0xC0\<rparr>) sample_conn"
  define q where "q = (packet_cleanup empty_packet)\<lparr>command := 0xC0, remaining_count := 1, remaining_length := 2, remaining_mult := 128\<rparr>"
  have "read_length ((packet_cleanup empty_packet)\<lparr>command := 0xC0\<rparr>) [Rd_data [0x82]] = (q, [], Some 0)"
    by (simp add: read_length.simps header_rc_def packet_cleanup_def q_def Let_def)
  then have "read_header permissive_hooks 0 [Rd_data [0x82]] b1 = Inl (0, [], in_pkt 0 (\<lambda>_. q) b1)"
    by (simp add: read_header_def b1_def p) (simp add: packet_cleanup_def)
  moreover have "read_command 0 [Rd_data [0xC0], Rd_data [0x82]] sample_conn = Inr ([Rd_data [0x82]], b1)"
    by (simp add: read_command_def p packet_cleanup_def b1_def Let_def)
  ultimately have r: "read_packet permissive_hooks 0 [Rd_data [0xC0], Rd_data [0x82]] sample_conn = Some (Inl (0, [], in_pkt 0 (\<lambda>_. q) b1))"
    by (simp add: read_packet_def)
  have "wills_ok sample_conn" using sample_conn_ok by (simp add: broker_ok_def)
  then have "receiving (in_packet (ctxs (in_pkt 0 (\<lambda>_. q) b1) 0))"
    using received_bytes_in_bounds [OF _ _ r] by (simp add: p)
  moreover have "remaining_length (in_packet (ctxs (in_pkt 0 (\<lambda>_. q) b1) 0)) = 2" by (simp add: upd_ctx_def q_def)
  ultimately show ?thesis using r by blast
qed



end
