(* ===== verification/Bridge.thy ===== *)
theory Bridge
  imports Net_Read
begin

text \<open>
  Bridges to other brokers: src/mqtt-core/src/bridge.c, \<^verbatim>\<open>_mosquitto_check_keepalive\<close> of
  src/mqtt-core/lib/util_mosq.c, and the two functions of src/mqtt-core/src/loop.c that keep a bridge
  connected, \<^verbatim>\<open>restart_bridge_connection\<close> and \<^verbatim>\<open>checkPrimaryBridge\<close>. The address a bridge tries
  next always exists, connecting keeps the invariant of the database, and a bridge that connects is
  subscribed to exactly its outgoing topics.

  The connection checks run in threads of the broker library; what a query of a check finds is the
  parameter \<open>check_status\<close>. What \<^verbatim>\<open>_mosquitto_socket_connect\<close> achieves is a parameter too.
\<close>

section \<open>The connection checks of the library\<close>

text \<open>\<open>Check_result\<close> carries the host, the port and the code of a finished check, if it can be taken.\<close>

datatype check_status = Check_nothing | Check_busy | Check_result "(string \<times> nat \<times> int) option"

abbreviation "CHECK_RESTART \<equiv> (0 :: nat)"
abbreviation "CHECK_PRIMARY \<equiv> (1 :: nat)"

section \<open>bridge.c\<close>

text \<open>The address read is outside the list only if the index is.\<close>

definition cur_addr :: "mqtt3_bridge \<Rightarrow> nat \<Rightarrow> string \<times> nat" where
  "cur_addr br i = (if i < length (addresses br) then addresses br ! i else ('''', 0))"


definition mqtt3_set_default_bridge_keepalive :: "int \<Rightarrow> broker \<Rightarrow> broker" where
  "mqtt3_set_default_bridge_keepalive k b = b\<lparr>default_bridge_keepalive := k\<rparr>"

text \<open>\<open>hostname\<close> is what \<^verbatim>\<open>gethostname\<close> finds. The TLS settings are copied for the TLS library only.\<close>

definition mqtt3_bridge_new :: "string option \<Rightarrow> mqtt3_bridge \<Rightarrow> broker \<Rightarrow> int \<times> broker" where
  "mqtt3_bridge_new hostname br b =
     (case (case br_clientid br of Some i \<Rightarrow> Some i | None \<Rightarrow> map_option (\<lambda>h. h @ ''.'' @ br_name br) hostname) of
        None \<Rightarrow> (1, b)
      | Some ident \<Rightarrow>
          let null_index = free_slot (contexts b);
              (c, b1) = mqtt3_context_init (-1) None b in
          case c of None \<Rightarrow> (MOSQ_ERR_NOMEM, b1)
          | Some p \<Rightarrow>
              let slots = (if null_index = length (contexts b1) then contexts b1 @ replicate CONTEXT_REALLOC_SIZE None else contexts b1);
                  b2 = mosquitto_add_new_clients_set p
                         (upd_ctx p (\<lambda>x. x\<lparr>canonical_id := Some ident\<rparr>) (b1\<lparr>contexts := slots[null_index := Some p]\<rparr>))
              in (MOSQ_ERR_NO_CONN,
                  upd_ctx p (\<lambda>x. x\<lparr>ctx_id := Some ident, numericId := null_index, db_index := null_index,
                      bridge := Some (br\<lparr>try_private_accepted := True\<rparr>), is_bridge := True\<rparr>) b2))"

definition mqtt3_bridge_packet_cleanup :: "mosquitto \<Rightarrow> mosquitto" where
  "mqtt3_bridge_packet_cleanup x =
     x\<lparr>current_out_packet := None, out_packet := [], packet_count := 0, in_packet := packet_cleanup (in_packet x)\<rparr>"

fun bridge_subscribe :: "dxl_hooks \<Rightarrow> nat \<Rightarrow> bridge_topic list \<Rightarrow> broker \<Rightarrow> bool \<times> broker" where
  "bridge_subscribe H c [] b = (True, b)"
| "bridge_subscribe H c (t # ts) b =
     (if bt_direction t = bd_out \<or> bt_direction t = bd_both then
        let (rc, b1) = mqtt3_sub_add H c (local_topic t) (bt_qos t) b in
        if rc \<noteq> 0 then (False, b1) else bridge_subscribe H c ts b1
      else bridge_subscribe H c ts b)"

text \<open>\<open>conn\<close>: the code of a failed \<^verbatim>\<open>_mosquitto_socket_connect\<close>, or the socket and whether it is a TLS
  one; \<open>enotconn\<close>: whether an error of the first write is \<^verbatim>\<open>ENOTCONN\<close>.\<close>

definition bridge_reset :: "mqtt3_bridge \<Rightarrow> nat \<Rightarrow> broker \<Rightarrow> broker" where
  "bridge_reset br c b =
     (let b1 = upd_ctx c (\<lambda>x. mqtt3_bridge_packet_cleanup (x\<lparr>cstate := mosq_cs_new, sock := -1, last_msg_in := now b, last_msg_out := now b,
                 keepalive := word_of_int (default_bridge_keepalive b), clean_session := br_clean_session br,
                 in_packet := (in_packet x)\<lparr>payload := None\<rparr>, ping_t := 0, bridge := Some (br\<lparr>lazy_reconnect := False\<rparr>)\<rparr>)) b;
          b2 = snd (mqtt3_db_message_reconnect_reset c b1);
          b3 = (if clean_session (ctxs b2 c) then snd (mqtt3_db_messages_delete c b2) else b2);
          b4 = snd (mqtt3_subs_clean_session (upd_ctx c (\<lambda>x. x\<lparr>clean_subs := True\<rparr>) b3))
      in upd_ctx c (\<lambda>x. x\<lparr>clean_subs := False\<rparr>) b4)"

text \<open>The address of the connection, the sockets and the TLS handshake are the parameter \<open>conn\<close>. A
  handshake that fails closes the connection of the context, which a bridge that is being connected
  does not have.\<close>

definition mosquitto_socket_connect :: "string \<times> nat \<Rightarrow> int + int \<times> bool \<Rightarrow> mosquitto \<Rightarrow> int \<times> mosquitto" where
  "mosquitto_socket_connect addr conn x =
     (if snd addr = 0 then (MOSQ_ERR_INVAL, x)
      else case conn of Inl rc \<Rightarrow> (rc, if rc = MOSQ_ERR_TLS then socket_close x else x)
      | Inr (s, tls) \<Rightarrow> (MOSQ_ERR_SUCCESS, x\<lparr>sock := s, ssl := tls\<rparr>))"

definition mqtt3_bridge_connect :: "dxl_hooks \<Rightarrow> int + int \<times> bool \<Rightarrow> bool \<Rightarrow> nat \<Rightarrow> broker \<Rightarrow> int \<times> broker" where
  "mqtt3_bridge_connect H conn enotconn c b =
     (case bridge (ctxs b c) of None \<Rightarrow> (MOSQ_ERR_INVAL, b)
      | Some br \<Rightarrow>
          let (subscribed, b1) = bridge_subscribe H c (topics br) (bridge_reset br c b) in
          if \<not> subscribed then (1, b1)
          else
            let (rc, b2) = with_ctx c (mosquitto_socket_connect (cur_addr br (cur_address br)) conn) b1 in
            if rc \<noteq> MOSQ_ERR_SUCCESS then (rc, b2)
            else
              let (rc, b3) = with_ctx c (\<lambda>x. send_connect (now b2) x (keepalive x) (clean_session x)) b2
              in if rc = MOSQ_ERR_SUCCESS \<or> rc = MOSQ_ERR_ERRNO \<and> enotconn then (MOSQ_ERR_SUCCESS, b3)
                 else if rc = MOSQ_ERR_TLS then (rc, b3)
                 else (rc, upd_ctx c socket_close b3))"

section \<open>Keepalive\<close>

definition mosquitto_check_keepalive :: "nat \<Rightarrow> broker \<Rightarrow> broker" where
  "mosquitto_check_keepalive c b =
     (let x = ctxs b c; t = now b; ka = int (unat (keepalive x)) in
      if (case bridge x of Some br \<Rightarrow> start_type br = bst_lazy \<and> sock x \<noteq> INVALID_SOCKET \<and> t - last_msg_out x \<ge> idle_timeout br
          | None \<Rightarrow> False)
      then upd_ctx c socket_close b
      else if keepalive x \<noteq> 0 \<and> \<not> IS_CONTEXT_INVALID x \<and> (t - last_msg_out x \<ge> ka \<or> t - last_msg_in x \<ge> ka) then
        if cstate x = mosq_cs_connected \<and> ping_t x = 0 then
          upd_ctx c (\<lambda>x. x\<lparr>last_msg_in := t, last_msg_out := t\<rparr>) (snd (with_ctx c (send_pingreq t) b))
        else upd_ctx c (\<lambda>x. socket_close (x\<lparr>listener := None\<rparr>)) (drop_listener c b)
      else b)"

section \<open>Keeping a bridge connected\<close>

definition upd_bridge :: "nat \<Rightarrow> (mqtt3_bridge \<Rightarrow> mqtt3_bridge) \<Rightarrow> broker \<Rightarrow> broker" where
  "upd_bridge c f = upd_ctx c (\<lambda>x. x\<lparr>bridge := map_option f (bridge x)\<rparr>)"

definition next_address :: "mqtt3_bridge \<Rightarrow> mqtt3_bridge" where
  "next_address br = br\<lparr>cur_address := (if cur_address br + 1 = length (addresses br) then 0 else cur_address br + 1)\<rparr>"

text \<open>The first part of \<^verbatim>\<open>restart_bridge_connection\<close>: a new attempt goes to the next address.\<close>

definition restart_rotate :: "int \<Rightarrow> mqtt3_bridge \<Rightarrow> mqtt3_bridge" where
  "restart_rotate t br =
     (if restart_t br = 0 then
        let br1 = next_address (br\<lparr>restart_t := 1\<rparr>)
        in if \<not> round_robin br1 \<and> cur_address br1 \<ge> primary_address_count br1 then br1\<lparr>primary_retry := t + 5\<rparr> else br1
      else br)"

text \<open>The lazy part connects at once; the automatic one waits for a check of the address.\<close>

definition restart_check :: "dxl_hooks \<Rightarrow> check_status \<Rightarrow> int + int \<times> bool \<Rightarrow> bool \<Rightarrow> nat \<Rightarrow> mqtt3_bridge \<Rightarrow> broker \<Rightarrow> broker" where
  "restart_check H status conn enotconn c br b =
     (case status of
        Check_nothing \<Rightarrow> log_dxl (case cur_addr br (cur_address br) of (host, port) \<Rightarrow> dxl_check_push CHECK_RESTART host port) b
      | Check_busy \<Rightarrow> b
      | Check_result res \<Rightarrow>
          let b1 = log_dxl (dxl_check_pop CHECK_RESTART) b in
          case res of None \<Rightarrow> b1
          | Some (host, port, rc) \<Rightarrow>
              let b2 = upd_bridge c (\<lambda>br. br\<lparr>restart_t := 0\<rparr>) b1 in
              if cur_addr br (cur_address br) = (host, port) \<and> rc = MOSQ_ERR_SUCCESS
              then snd (mqtt3_bridge_connect H conn enotconn c b2) else b2)"

definition restart_bridge_connection ::
  "dxl_hooks \<Rightarrow> check_status \<Rightarrow> int + int \<times> bool \<Rightarrow> bool \<Rightarrow> nat \<Rightarrow> broker \<Rightarrow> broker" where
  "restart_bridge_connection H status conn enotconn c b =
     (let b1 = upd_bridge c (restart_rotate (now b)) b;
          b2 = (case bridge (ctxs b1 c) of None \<Rightarrow> b1
            | Some br \<Rightarrow>
                if start_type br = bst_lazy \<and> lazy_reconnect br then
                  let (rc, b') = mqtt3_bridge_connect H conn enotconn c b1 in if rc \<noteq> 0 then upd_bridge c next_address b' else b'
                else b1)
      in case bridge (ctxs b2 c) of None \<Rightarrow> b2
         | Some br \<Rightarrow> if start_type br = bst_automatic \<and> now b > restart_t br then restart_check H status conn enotconn c br b2 else b2)"

text \<open>A bridge on a secondary address asks from time to time for a primary one.\<close>

definition checkPrimaryBridge :: "check_status \<Rightarrow> nat \<Rightarrow> broker \<Rightarrow> broker" where
  "checkPrimaryBridge status c b =
     (case bridge (ctxs b c) of None \<Rightarrow> b
      | Some br \<Rightarrow>
          let i = cur_primary_address br in
          if \<not> round_robin br \<and> cur_address br \<ge> primary_address_count br \<and> now b > primary_retry br then
            (case status of
               Check_nothing \<Rightarrow> log_dxl (case cur_addr br i of (host, port) \<Rightarrow> dxl_check_push CHECK_PRIMARY host port) b
             | Check_busy \<Rightarrow> b
             | Check_result res \<Rightarrow>
                 let b1 = log_dxl (dxl_check_pop CHECK_PRIMARY) b in
                 case res of None \<Rightarrow> b1
                 | Some (host, port, rc) \<Rightarrow>
                     if cur_addr br i = (host, port) then
                       if rc = MOSQ_ERR_SUCCESS then
                         upd_bridge c (\<lambda>br. br\<lparr>cur_address := (if i = 0 then length (addresses br) - 1 else i - 1)\<rparr>)
                           (upd_ctx c socket_close (log_dxl (dxl_bridge_disconnected c) b1))
                       else upd_bridge c (\<lambda>br. br\<lparr>cur_primary_address := (if i + 1 \<ge> primary_address_count br then 0 else i + 1)\<rparr>) b1
                     else b1)
          else b)"

section \<open>Work for one context\<close>

text \<open>Work for one context keeps the invariant, the clock, and of every other context what decides over
  its connection and its session.\<close>

definition standing :: "mosquitto \<Rightarrow> bool \<times> int \<times> bool \<times> bool \<times> bool \<times> uint16 \<times> int" where
  "standing x = (clean_subs x, sock x, wsi x, clean_session x, bridge x = None, keepalive x, last_msg_in x)"

definition apart :: "nat \<Rightarrow> broker \<Rightarrow> broker \<Rightarrow> bool" where
  "apart c b b' \<longleftrightarrow> now b' = now b \<and> (\<forall>d. d \<noteq> c \<longrightarrow> standing (ctxs b' d) = standing (ctxs b d))"

lemma apart_refl [simp]: "apart c b b"
  by (simp add: apart_def)

lemma apart_trans: "apart c a b \<Longrightarrow> apart c b d \<Longrightarrow> apart c a d"
  by (simp add: apart_def)

lemma apartD:
  "apart c b b' \<Longrightarrow> d \<noteq> c \<Longrightarrow> clean_subs (ctxs b' d) = clean_subs (ctxs b d) \<and> sock (ctxs b' d) = sock (ctxs b d) \<and>
     wsi (ctxs b' d) = wsi (ctxs b d) \<and> clean_session (ctxs b' d) = clean_session (ctxs b d) \<and>
     (bridge (ctxs b' d) = None) = (bridge (ctxs b d) = None) \<and> keepalive (ctxs b' d) = keepalive (ctxs b d) \<and>
     last_msg_in (ctxs b' d) = last_msg_in (ctxs b d)"
  by (simp add: apart_def standing_def)

lemma apart_ctx [simp]: "apart c b (upd_ctx c f b)" "apart c b (snd (with_ctx c g b))" "apart c b (log_dxl e b)"
  "apart c b (set_msgs c ms b)" "apart c b (drop_listener c b)"
  by (simp_all add: apart_def upd_ctx_def with_ctx_def log_dxl_def set_msgs_def drop_listener_def split_beta split: option.split)

lemma drop_refs_frame [simp]: "ctxs (drop_refs ms b) = ctxs b" "now (drop_refs ms b) = now b"
  by (induction ms b rule: drop_refs.induct) (simp_all add: add_ref_def upd_store_def)

lemma apart_messages_delete: "apart c b (snd (mqtt3_db_messages_delete c b))"
  by (simp add: mqtt3_db_messages_delete_def apart_def upd_ctx_def)

lemma apart_clean_session: "broker_ok b \<Longrightarrow> apart c b (snd (mqtt3_subs_clean_session b))"
proof -
  assume ok: "broker_ok b"
  have "dropped (left_out b (subscriptions b)) b ((snd (mqtt3_subs_clean_session b))\<lparr>subs := subs b\<rparr>)"
    by (rule subs_clean_session_table(4) [OF broker_ok_parts(2) [OF ok] prod.collapse [symmetric]])
  then obtain l n where "(snd (mqtt3_subs_clean_session b))\<lparr>subs := subs b\<rparr> = b\<lparr>subscription_count := n, dxl_log := l\<rparr>"
    unfolding dropped_def by blast
  from arg_cong [OF this, of ctxs] arg_cong [OF this, of now] show ?thesis by (simp add: apart_def)
qed

lemma apart_reconnect_reset: "broker_ok b \<Longrightarrow> apart c b (snd (mqtt3_db_message_reconnect_reset c b))"
  by (subst reconnect_reset_eq)
    (auto simp: broker_ok_def queues_ok_def outgoing_only_def outgoing_def incoming_qos2_def intro: apart_trans [OF apart_ctx(1) apart_ctx(4)])

lemma apart_sub_add:
  assumes "broker_ok b" and "pound_last (tokens f)"
  shows "apart c b (snd (mqtt3_sub_add H c f q b))"
proof -
  have "now ((snd (mqtt3_sub_add H c f q b))\<lparr>subs := subs b\<rparr>) = now b"
    unfolding mqtt3_sub_add_table(4) [OF broker_ok_parts(2) [OF assms(1)] assms(2)]
    by (simp add: added_def count_subscription_def log_dxl_def upd_ctx_def)
  moreover have "ctxs ((snd (mqtt3_sub_add H c f q b))\<lparr>subs := subs b\<rparr>) d = ctxs b d" if "d \<noteq> c" for d
    unfolding mqtt3_sub_add_table(4) [OF broker_ok_parts(2) [OF assms(1)] assms(2)] using that
    by (simp add: added_def count_subscription_def log_dxl_def upd_ctx_def)
  ultimately show ?thesis by (simp add: apart_def)
qed

definition works :: "nat \<Rightarrow> broker \<Rightarrow> broker \<Rightarrow> bool" where
  "works c b b' \<longleftrightarrow> keeps b b' \<and> apart c b b'"

lemma works_refl [simp]: "works c b b"
  by (simp add: works_def)

lemma works_trans: "works c a b \<Longrightarrow> works c b d \<Longrightarrow> works c a d"
  unfolding works_def using keeps_trans apart_trans by blast

lemma works_ok: "works c b b' \<Longrightarrow> broker_ok b \<Longrightarrow> broker_ok b'"
  unfolding works_def using keeps_ok by blast

lemma works_live: "works c b b' \<Longrightarrow> live b' d = live b d"
  unfolding works_def using keeps_live by blast

lemma works_plain: "plain f \<Longrightarrow> works c b (upd_ctx c f b)"
  by (simp add: works_def keeps_plain)

lemma works_log: "works c b (log_dxl e b)"
  by (simp add: works_def keeps_log)

lemma works_with_ctx: "plain (\<lambda>x. snd (f x)) \<Longrightarrow> works c b (snd (with_ctx c f b))"
  by (simp add: works_def keeps_with_ctx)

lemma works_with_ctx_eq: "with_ctx c f b = (rc, b') \<Longrightarrow> plain (\<lambda>x. snd (f x)) \<Longrightarrow> works c b b'"
  using works_with_ctx [of f c b] by simp

lemma works_clean_session: "broker_ok b \<Longrightarrow> works c b (snd (mqtt3_subs_clean_session b))"
  by (simp add: works_def keeps_clean_session apart_clean_session)

lemma works_sub_add: "broker_ok b \<Longrightarrow> live b c \<Longrightarrow> pound_last (tokens f) \<Longrightarrow> works c b (snd (mqtt3_sub_add H c f q b))"
  by (simp add: works_def keeps_sub_add apart_sub_add)

lemma works_reconnect_reset: "broker_ok b \<Longrightarrow> works c b (snd (mqtt3_db_message_reconnect_reset c b))"
  by (simp add: works_def keeps_reconnect_reset apart_reconnect_reset)

lemma works_drop_listener: "works c b (drop_listener c b)"
  by (simp add: works_def keeps_drop_listener)

lemma works_messages_delete: "works c b (snd (mqtt3_db_messages_delete c b))"
  by (simp add: works_def keeps_messages_delete apart_messages_delete)

section \<open>The invariant of the database\<close>

lemma upd_ctx_cong: "f (ctxs b c) = g (ctxs b c) \<Longrightarrow> upd_ctx c f b = upd_ctx c g b"
  by (simp add: upd_ctx_def)

lemma works_plain_at: "f (ctxs b c) = g (ctxs b c) \<Longrightarrow> plain g \<Longrightarrow> works c b (upd_ctx c f b)"
  using upd_ctx_cong [of f b c g] works_plain [of g c b] by simp

lemma works_upd_bridge: "(\<And>br. bridge_ok br \<Longrightarrow> bridge_ok (f br)) \<Longrightarrow> works c b (upd_bridge c f b)"
  unfolding upd_bridge_def by (rule works_plain) (simp add: plain_def bridge_at_ok_map)

lemma works_upd_bridge_at:
  assumes "bridge (ctxs b c) = Some br" and "bridge_ok br \<Longrightarrow> bridge_ok (f br)"
  shows "works c b (upd_bridge c f b)"
  unfolding upd_bridge_def
  by (rule works_plain_at [where g = "\<lambda>x. x\<lparr>bridge := (if bridge x = Some br then Some (f br) else bridge x)\<rparr>"])
    (use assms in \<open>simp_all add: plain_def\<close>)

lemma works_bridge_subscribe:
  assumes "broker_ok b" and "live b c" and "\<And>t. t \<in> set ts \<Longrightarrow> bt_direction t \<noteq> bd_in \<Longrightarrow> pound_last (tokens (local_topic t))"
  shows "works c b (snd (bridge_subscribe H c ts b))"
  using assms
proof (induction ts arbitrary: b)
  case (Cons t ts)
  show ?case
  proof (cases "bt_direction t = bd_in")
    case False
    obtain rc b1 where r: "mqtt3_sub_add H c (local_topic t) (bt_qos t) b = (rc, b1)" by fastforce
    then have k: "works c b b1" using works_sub_add [of b c "local_topic t" H "bt_qos t"] Cons.prems False by simp
    then have "works c b1 (snd (bridge_subscribe H c ts b1))" using Cons works_live [OF k] works_ok [OF k] by simp
    then have "works c b (snd (bridge_subscribe H c ts b1))" by (rule works_trans [OF k])
    then show ?thesis using k False by (cases "bt_direction t") (simp_all add: r)
  qed (use Cons in simp)
qed simp

lemma bridge_ok_at: "broker_ok b \<Longrightarrow> bridge (ctxs b c) = Some br \<Longrightarrow> bridge_ok br"
  using broker_ok_parts(8) [of b] unfolding bridges_ok_def by (metis bridge_at_ok_simps(2))

lemma works_bridge_reset:
  assumes ok: "broker_ok b" and br: "bridge (ctxs b c) = Some br"
  shows "works c b (bridge_reset br c b)"
proof -
  define f where "f = (\<lambda>z x. mqtt3_bridge_packet_cleanup (x\<lparr>cstate := mosq_cs_new, sock := -1, last_msg_in := now b, last_msg_out := now b,
                 keepalive := word_of_int (default_bridge_keepalive b), clean_session := br_clean_session br,
                 in_packet := (in_packet x)\<lparr>payload := None\<rparr>, ping_t := 0, bridge := z x\<rparr>))"
  define b1 where "b1 = upd_ctx c (f (\<lambda>x. Some (br\<lparr>lazy_reconnect := False\<rparr>))) b"
  have "plain (f (\<lambda>x. map_option (\<lambda>br. br\<lparr>lazy_reconnect := False\<rparr>) (bridge x)))"
    by (simp add: plain_def f_def mqtt3_bridge_packet_cleanup_def bridge_at_ok_map)
  then have k1: "works c b b1" unfolding b1_def by (rule works_plain_at [rotated]) (simp add: f_def br)
  define b2 where "b2 = snd (mqtt3_db_message_reconnect_reset c b1)"
  have k2: "works c b1 b2" unfolding b2_def by (rule works_reconnect_reset [OF works_ok [OF k1 ok]])
  define b3 where "b3 = (if clean_session (ctxs b2 c) then snd (mqtt3_db_messages_delete c b2) else b2)"
  have k3: "works c b2 b3" by (simp add: b3_def works_messages_delete)
  have p: "plain (\<lambda>x. x\<lparr>clean_subs := v\<rparr>)" for v by (simp add: plain_def)
  have "broker_ok (upd_ctx c (\<lambda>x. x\<lparr>clean_subs := True\<rparr>) b3)"
    using works_ok [OF works_trans [OF works_trans [OF works_trans [OF k1 k2] k3] works_plain [OF p]] ok] .
  then have k4: "works c b3 (upd_ctx c (\<lambda>x. x\<lparr>clean_subs := False\<rparr>) (snd (mqtt3_subs_clean_session (upd_ctx c (\<lambda>x. x\<lparr>clean_subs := True\<rparr>) b3))))"
    by (intro works_trans [OF works_plain [OF p] works_trans [OF works_clean_session works_plain [OF p]]])
  have "bridge_reset br c b = upd_ctx c (\<lambda>x. x\<lparr>clean_subs := False\<rparr>) (snd (mqtt3_subs_clean_session (upd_ctx c (\<lambda>x. x\<lparr>clean_subs := True\<rparr>) b3)))"
    by (simp only: bridge_reset_def Let_def b3_def b2_def b1_def f_def)
  then show ?thesis using works_trans [OF works_trans [OF k1 k2] works_trans [OF k3 k4]] by simp
qed

lemma plain_socket: "plain socket_close" "plain (\<lambda>x. snd (mosquitto_socket_connect addr conn x))"
  by (auto simp: plain_def socket_close_def mosquitto_socket_connect_def split: sum.split prod.split)

lemma works_bridge_connect:
  assumes ok: "broker_ok b" and c: "live b c"
  shows "works c b (snd (mqtt3_bridge_connect H conn enotconn c b))"
proof (cases "bridge (ctxs b c)")
  case (Some br)
  have f: "t \<in> set (topics br) \<Longrightarrow> bt_direction t \<noteq> bd_in \<Longrightarrow> pound_last (tokens (local_topic t))" for t
    using bridge_ok_at [OF ok Some] by (auto simp: bridge_ok_def)
  note k0 = works_bridge_reset [OF ok Some]
  obtain s b1 where r1: "bridge_subscribe H c (topics br) (bridge_reset br c b) = (s, b1)" by fastforce
  have "works c (bridge_reset br c b) b1"
    using works_bridge_subscribe [of "bridge_reset br c b" c "topics br" H] f works_live [OF k0] works_ok [OF k0 ok] c r1 by simp
  then have k1: "works c b b1" by (rule works_trans [OF k0])
  obtain rc b2 where r2: "with_ctx c (mosquitto_socket_connect (cur_addr br (cur_address br)) conn) b1 = (rc, b2)" by fastforce
  have k2: "works c b b2" by (rule works_trans [OF k1 works_with_ctx_eq [OF r2 plain_socket(2)]])
  obtain rc' b3 where r3: "with_ctx c (\<lambda>x. send_connect (now b2) x (keepalive x) (clean_session x)) b2 = (rc', b3)" by fastforce
  have "plain (\<lambda>x. snd (send_connect (now b2) x (keepalive x) (clean_session x)))"
    using plain_sends(4) unfolding plain_def by simp
  then have k3: "works c b b3" by (rule works_trans [OF k2 works_with_ctx_eq [OF r3]])
  show ?thesis
    using k1 k2 k3 works_trans [OF k3 works_plain [OF plain_socket(1)]]
    by (simp add: mqtt3_bridge_connect_def Some r1 r2 r3)
qed (simp add: mqtt3_bridge_connect_def)

lemma works_check_keepalive: "works c b (mosquitto_check_keepalive c b)"
proof -
  have p: "plain (\<lambda>x. x\<lparr>last_msg_in := t, last_msg_out := t\<rparr>)" "plain (\<lambda>x. socket_close (x\<lparr>listener := None\<rparr>))" for t
    by (simp_all add: plain_def socket_close_def)
  have "works c b (upd_ctx c (\<lambda>x. x\<lparr>last_msg_in := now b, last_msg_out := now b\<rparr>) (snd (with_ctx c (send_pingreq (now b)) b)))"
    by (rule works_trans [OF works_with_ctx [OF plain_sends(1)] works_plain [OF p(1)]])
  then show ?thesis
    unfolding mosquitto_check_keepalive_def Let_def
    using works_plain [OF plain_socket(1)] works_trans [OF works_drop_listener works_plain [OF p(2)]] by auto
qed

lemma next_address_ok [simp]: "bridge_ok br \<Longrightarrow> bridge_ok (next_address br)"
  by (auto simp: bridge_ok_def next_address_def)

lemma restart_rotate_ok [simp]: "bridge_ok br \<Longrightarrow> bridge_ok (restart_rotate t br)"
  by (simp add: restart_rotate_def Let_def)

lemma works_restart_check:
  assumes ok: "broker_ok b" and c: "live b c"
  shows "works c b (restart_check H status conn enotconn c br b)"
proof -
  define b2 where "b2 = upd_bridge c (\<lambda>br. br\<lparr>restart_t := 0\<rparr>) (log_dxl (dxl_check_pop CHECK_RESTART) b)"
  have k: "works c b b2" unfolding b2_def by (rule works_trans [OF works_log works_upd_bridge]) simp
  have "works c b2 (snd (mqtt3_bridge_connect H conn enotconn c b2))"
    using works_bridge_connect [OF works_ok [OF k ok]] works_live [OF k] c by simp
  then show ?thesis
    using k works_trans [OF k] works_log unfolding restart_check_def Let_def b2_def [symmetric]
    by (auto split: check_status.split option.split)
qed

lemma works_restart:
  assumes ok: "broker_ok b" and c: "live b c"
  shows "works c b (restart_bridge_connection H status conn enotconn c b)"
proof -
  define b1 where "b1 = upd_bridge c (restart_rotate (now b)) b"
  have k1: "works c b b1" unfolding b1_def by (rule works_upd_bridge) simp
  obtain rc b' where r: "mqtt3_bridge_connect H conn enotconn c b1 = (rc, b')" by fastforce
  have k': "works c b1 b'" using works_bridge_connect [OF works_ok [OF k1 ok], of c H conn enotconn] works_live [OF k1] c r by simp
  define b2 where "b2 = (case bridge (ctxs b1 c) of None \<Rightarrow> b1
            | Some br \<Rightarrow>
                if start_type br = bst_lazy \<and> lazy_reconnect br then
                  let (rc, b') = mqtt3_bridge_connect H conn enotconn c b1 in if rc \<noteq> 0 then upd_bridge c next_address b' else b'
                else b1)"
  have "works c b1 b2"
    unfolding b2_def r using k' works_trans [OF k' works_upd_bridge] by (simp split: option.split)
  then have k2: "works c b b2" by (rule works_trans [OF k1])
  have "works c b2 (restart_check H status conn enotconn c br b2)" for br
    using works_restart_check [OF works_ok [OF k2 ok]] works_live [OF k2] c by simp
  then show ?thesis
    using k2 works_trans [OF k2] unfolding restart_bridge_connection_def Let_def b1_def [symmetric] b2_def [unfolded Let_def, symmetric]
    by (simp split: option.split)
qed

lemma works_check_primary: "works c b (checkPrimaryBridge status c b)"
proof (cases "bridge (ctxs b c)")
  case (Some br)
  define b1 where "b1 = log_dxl (dxl_check_pop CHECK_PRIMARY) b"
  have k1: "works c b b1" by (simp add: b1_def works_log)
  have br1: "bridge (ctxs b1 c) = Some br" using Some by (simp add: b1_def log_dxl_def)
  define b2 where "b2 = upd_ctx c socket_close (log_dxl (dxl_bridge_disconnected c) b1)"
  have k2: "works c b b2"
    unfolding b2_def by (rule works_trans [OF k1 works_trans [OF works_log works_plain [OF plain_socket(1)]]])
  have br2: "bridge (ctxs b2 c) = Some br" using br1 by (simp add: b2_def upd_ctx_def log_dxl_def socket_close_def)
  let ?i = "cur_primary_address br"
  have "bridge_ok (br\<lparr>cur_address := (if ?i = 0 then length (addresses br) - 1 else ?i - 1)\<rparr>)" if "bridge_ok br"
    using that by (auto simp: bridge_ok_def)
  then have "works c b (upd_bridge c (\<lambda>br. br\<lparr>cur_address := (if ?i = 0 then length (addresses br) - 1 else ?i - 1)\<rparr>) b2)"
    by (rule works_trans [OF k2 works_upd_bridge_at [OF br2]])
  moreover have "bridge_ok (br\<lparr>cur_primary_address := (if ?i + 1 \<ge> primary_address_count br then 0 else ?i + 1)\<rparr>)" if "bridge_ok br"
    using that by (auto simp: bridge_ok_def)
  then have "works c b (upd_bridge c (\<lambda>br. br\<lparr>cur_primary_address := (if ?i + 1 \<ge> primary_address_count br then 0 else ?i + 1)\<rparr>) b1)"
    by (rule works_trans [OF k1 works_upd_bridge_at [OF br1]])
  ultimately show ?thesis
    unfolding checkPrimaryBridge_def Some option.case Let_def b1_def [symmetric] b2_def [symmetric] using k1 works_log
    by (cases status) (auto split: option.split)
qed (simp add: checkPrimaryBridge_def)

section \<open>A new bridge\<close>

lemma broker_ok_set_bridge:
  assumes ok: "broker_ok b" and br: "bridge_ok br"
    and f: "\<And>x. f x = x\<lparr>ctx_id := i, canonical_id := j, bridge := Some br, is_bridge := v\<rparr>"
  shows "broker_ok (upd_ctx c f b)"
proof -
  let ?b = "upd_ctx c f b"
  have s: "subs ?b = subs b" by (simp add: upd_ctx_def)
  have a: "acct b ?b" by (simp add: acct_def upd_ctx_def f ref_of_def stored_msg_def store_ptrs_def)
  have "calm b ?b" by (simp add: calm_def upd_ctx_def f)
  then have "sets_ok ?b = sets_ok b" by (rule calm_sets_ok)
  moreover have "slots_ok ?b" "leaves_live ?b" using ok subs_at_cong [OF s]
    by (simp_all add: broker_ok_def slots_ok_def leaves_live_def live_def) (simp_all add: upd_ctx_def f)
  moreover have "outgoing_only ?b" "wills_ok ?b" "bridges_ok ?b"
    using ok br by (auto simp: broker_ok_def outgoing_only_def wills_ok_def bridges_ok_def upd_ctx_def f)
  ultimately show ?thesis
    using ok acct_queues_ok [OF a] subs_ok_cong [OF s] by (simp add: broker_ok_def)
qed

lemma bridge_new_eq:
  assumes "mqtt3_context_init (-1) None b = (Some p, b1)" and "\<not> wsi (ctxs b1 p)" and "contexts b1 = contexts b"
    and "(case br_clientid br of Some i \<Rightarrow> Some i | None \<Rightarrow> map_option (\<lambda>h. h @ ''.'' @ br_name br) hostname) = Some ident"
  shows "mqtt3_bridge_new hostname br b = (MOSQ_ERR_NO_CONN,
    upd_ctx p (\<lambda>x. x\<lparr>ctx_id := Some ident, canonical_id := Some ident, bridge := Some (br\<lparr>try_private_accepted := True\<rparr>), is_bridge := True\<rparr>)
      (snd (mqtt3_db_add_new_context p b1)))"
proof -
  have sw: "x\<lparr>canonical_id := u, ctx_id := u, numericId := n, db_index := n, bridge := v, is_bridge := w\<rparr> =
      x\<lparr>numericId := n, db_index := n, ctx_id := u, canonical_id := u, bridge := v, is_bridge := w\<rparr>" for x :: mosquitto and u v w n
    by simp
  show ?thesis
    using assms(2,3) unfolding mqtt3_bridge_new_def assms(1,4) option.case Let_def prod.case
    by (simp add: mqtt3_db_add_new_context_def mosquitto_add_new_clients_set_def upd_ctx_def Let_def sw)
qed

text \<open>A new bridge gets a slot and is not connected yet; the maintenance does that.\<close>

lemma bridge_new_ok:
  assumes ok: "broker_ok b" and br: "bridge_ok br" and r: "mqtt3_bridge_new hostname br b = (rc, b')"
  shows "broker_ok b'" and "rc = MOSQ_ERR_NO_CONN \<Longrightarrow> live b' (next_ptr b) \<and> IS_CONTEXT_INVALID (ctxs b' (next_ptr b)) \<and>
    bridge (ctxs b' (next_ptr b)) = Some (br\<lparr>try_private_accepted := True\<rparr>)"
proof -
  let ?ident = "case br_clientid br of Some i \<Rightarrow> Some i | None \<Rightarrow> map_option (\<lambda>h. h @ ''.'' @ br_name br) hostname"
  obtain p b1 where i: "mqtt3_context_init (-1) None b = (Some p, b1)" by (simp add: mqtt3_context_init_def)
  note n = broker_ok_context_init [OF ok i]
  have x: "\<not> wsi (ctxs b1 p)" "sock (ctxs b1 p) = -1"
    using i by (auto simp: mqtt3_context_init_def zero_context_def)
  note a = broker_ok_add_new_context [OF n(1,4,3)]
  show "broker_ok b'"
  proof (cases ?ident)
    case None
    then show ?thesis using r ok by (simp add: mqtt3_bridge_new_def)
  next
    case (Some ident)
    have "b' = upd_ctx p (\<lambda>x. x\<lparr>ctx_id := Some ident, canonical_id := Some ident, bridge := Some (br\<lparr>try_private_accepted := True\<rparr>), is_bridge := True\<rparr>)
      (snd (mqtt3_db_add_new_context p b1))" using r bridge_new_eq [OF i x(1) n(5) Some] by simp
    then show ?thesis using broker_ok_set_bridge [OF a(1), of "br\<lparr>try_private_accepted := True\<rparr>"] br by simp
  qed
  assume rc: "rc = MOSQ_ERR_NO_CONN"
  then obtain ident where Some: "?ident = Some ident" using r by (cases ?ident) (auto simp: mqtt3_bridge_new_def)
  have "ctxs (snd (mqtt3_db_add_new_context p b1)) p = (ctxs b1 p)\<lparr>numericId := free_slot (contexts b1), db_index := free_slot (contexts b1)\<rparr>"
    by (simp add: mqtt3_db_add_new_context_def mosquitto_add_new_clients_set_def upd_ctx_def Let_def)
  then show "live b' (next_ptr b) \<and> IS_CONTEXT_INVALID (ctxs b' (next_ptr b)) \<and>
    bridge (ctxs b' (next_ptr b)) = Some (br\<lparr>try_private_accepted := True\<rparr>)"
    using r bridge_new_eq [OF i x(1) n(5) Some] a(2) n(2) x
    by (auto simp: live_def upd_ctx_def IS_CONTEXT_INVALID_def)
qed

end
