(* ===== verification/Loop.thy ===== *)
theory Loop
  imports Bridge
begin

text \<open>
  The main loop of the broker, src/mqtt-core/src/loop.c, with the acceptance of connections from
  src/mqtt-core/src/net.c: writing queued messages, the maintenance, reading and writing on the
  connections that are ready, accepting new ones.

  What the kernel reports is the environment of an iteration: which descriptors are ready, what their
  reads deliver, which connections wait to be accepted. The interest in events that is registered with
  epoll is not part of the state: it decides what the kernel reports, and every report is covered.

  Iterating over a uthash table with \<^verbatim>\<open>HASH_ITER\<close> takes the successor of an entry before the body of the
  loop runs. A body that deletes the successor leaves the loop with a freed entry; the walk over the
  contexts with pending bytes returns \<open>Inl\<close> then, with the freed context and the state in which the walk
  started.
\<close>

section \<open>Writing queued messages\<close>

definition write_context_messages :: "dxl_hooks \<Rightarrow> nat \<Rightarrow> broker \<Rightarrow> broker option" where
  "write_context_messages H c b =
     (let x = ctxs b c in
      if keepalive x = 0 \<or> bridge x \<noteq> None \<or> now b - last_msg_in x < int (unat (keepalive x)) * 3 div 2 then
        (case mqtt3_db_message_write c b of None \<Rightarrow> None
         | Some (rc, b') \<Rightarrow> Some (if rc \<noteq> MOSQ_ERR_SUCCESS then mqtt3_context_disconnect H c b' else b'))
      else Some (mqtt3_context_disconnect H c b))"

text \<open>The entry after \<open>c\<close> in the order of the table.\<close>

fun hash_next :: "nat \<Rightarrow> nat list \<Rightarrow> nat option" where
  "hash_next c [] = None"
| "hash_next c (d # ds) = (if d = c then (case ds of [] \<Rightarrow> None | e # _ \<Rightarrow> Some e) else hash_next c ds)"

definition write_message_body :: "dxl_hooks \<Rightarrow> nat \<Rightarrow> broker \<Rightarrow> broker option" where
  "write_message_body H c b =
     (if \<not> IS_CONTEXT_INVALID (ctxs b c) then
        (case write_context_messages H c b of None \<Rightarrow> None
         | Some b' \<Rightarrow> Some (if msgs (ctxs b' c) = [] then remove_new_msgs_set c b' else b'))
      else Some b)"

text \<open>A will that a disconnection publishes may add entries at the end of the table; the walk meets
  them unless it is already at its last entry.\<close>

partial_function (option) write_msgs_walk :: "dxl_hooks \<Rightarrow> nat option \<Rightarrow> broker \<Rightarrow> broker option" where
  "write_msgs_walk H cur b =
     (case cur of None \<Rightarrow> Some b
      | Some c \<Rightarrow>
          (case write_message_body H c b of None \<Rightarrow> None
           | Some b' \<Rightarrow> write_msgs_walk H (hash_next c (new_msgs_hash b)) b'))"

definition write_message_loop :: "dxl_hooks \<Rightarrow> broker \<Rightarrow> broker option" where
  "write_message_loop H b =
     (let b1 = (if new_client b then (fold remove_new_clients_set (new_clients_hash b) b)\<lparr>new_client := False\<rparr> else b)
      in write_msgs_walk H (case new_msgs_hash b1 of [] \<Rightarrow> None | c # _ \<Rightarrow> Some c) b1)"

section \<open>Ending sessions\<close>

text \<open>The array \<^verbatim>\<open>sessions_to_clean\<close> is the list of its entries before the first NULL.\<close>

definition clean_one :: "nat \<Rightarrow> broker \<Rightarrow> broker" where
  "clean_one c b =
     (let b1 = remove_new_msgs_set c b;
          contextIndex = numericId (ctxs b1 c);
          b2 = mqtt3_context_cleanup c True False b1
      in b2\<lparr>contexts := (contexts b2)[contextIndex := None]\<rparr>)"

definition clean_sessions :: "nat list \<Rightarrow> broker \<Rightarrow> broker" where
  "clean_sessions cs b = (if cs = [] then b else fold clean_one cs (snd (mqtt3_subs_clean_session b)))"

definition clean_session_at :: "nat \<Rightarrow> broker \<Rightarrow> broker" where
  "clean_session_at c b = clean_sessions [c] (upd_ctx c (\<lambda>x. x\<lparr>clean_subs := True\<rparr>) b)"

section \<open>Maintenance\<close>

text \<open>What the connection checks and the connection attempts of a bridge find.\<close>

record bridge_env =
  be_restart :: check_status
  be_primary :: check_status
  be_conn :: "int + int \<times> bool"
  be_enotconn :: bool

definition maintain_connected :: "dxl_hooks \<Rightarrow> bridge_env \<Rightarrow> nat \<Rightarrow> broker \<Rightarrow> broker" where
  "maintain_connected H e c b =
     (let b1 = (if bridge (ctxs b c) \<noteq> None then
                  (let b1 = mosquitto_check_keepalive c b;
                       b2 = (if sock (ctxs b1 c) = INVALID_SOCKET then log_dxl (dxl_bridge_disconnected c) b1 else b1)
                   in checkPrimaryBridge (be_primary e) c b2)
                else b);
          x = ctxs b1 c
      in if bridge x = None \<and> keepalive x \<noteq> 0 \<and> now b - last_msg_in x \<ge> int (unat (keepalive x)) * 3 div 2
         then mqtt3_context_disconnect H c b1 else b1)"

text \<open>One round of the loop over the slots; the first component says whether the session is to be
  cleaned.\<close>

definition maintain_context :: "dxl_hooks \<Rightarrow> bridge_env \<Rightarrow> nat \<Rightarrow> broker \<Rightarrow> bool \<times> broker" where
  "maintain_context H e c b =
     (let (clean, b1) =
            (if \<not> IS_CONTEXT_INVALID (ctxs b c) then (False, maintain_connected H e c b)
             else if bridge (ctxs b c) \<noteq> None then
               (False, restart_bridge_connection H (be_restart e) (be_conn e) (be_enotconn e) c b)
             else if clean_session (ctxs b c) then (True, upd_ctx c (\<lambda>x. x\<lparr>clean_subs := True\<rparr>) b)
             else (False, b))
      in (clean, if msgs (ctxs b1 c) \<noteq> [] then snd (mqtt3_db_message_timeout_check c (retry_interval b1) b1) else b1))"

fun maintain_slots :: "dxl_hooks \<Rightarrow> (nat \<Rightarrow> bridge_env) \<Rightarrow> nat list \<Rightarrow> nat list \<Rightarrow> broker \<Rightarrow> nat list \<times> broker" where
  "maintain_slots H E [] to_clean b = (to_clean, b)"
| "maintain_slots H E (i # is) to_clean b =
     (case slot b i of None \<Rightarrow> maintain_slots H E is to_clean b
      | Some c \<Rightarrow>
          let (clean, b') = maintain_context H (E i) c b
          in maintain_slots H E is (if clean then to_clean @ [c] else to_clean) b')"

definition maintenance_loop :: "dxl_hooks \<Rightarrow> (nat \<Rightarrow> bridge_env) \<Rightarrow> broker \<Rightarrow> broker" where
  "maintenance_loop H E b =
     (let (to_clean, b1) = maintain_slots H E [0..<length (contexts b)] [] b in clean_sessions to_clean b1)"

section \<open>Reading and writing\<close>

text \<open>What the kernel and the TLS library report of one connection: \<open>ce_writable\<close> is \<^verbatim>\<open>EPOLLOUT\<close> or the wish
  of the TLS library to write, \<open>ce_left\<close> whether \<^verbatim>\<open>SSL_pending\<close> finds bytes after the read.\<close>

record conn_env =
  ce_readable :: bool
  ce_writable :: bool
  ce_hup :: bool
  ce_left :: bool
  ce_input :: "read_event list"

definition handle_write :: "dxl_hooks \<Rightarrow> conn_env \<Rightarrow> nat \<Rightarrow> broker \<Rightarrow> broker" where
  "handle_write H e c b =
     (let x = ctxs b c in
      if sock x \<noteq> INVALID_SOCKET \<and> (ce_writable e \<or> ssl x \<and> cstate x = mosq_cs_new) then
        let (rc, b') = with_ctx c (packet_write (now b)) b in
        if rc \<noteq> 0 then mqtt3_context_disconnect H c b' else b'
      else b)"

definition handle_read :: "dxl_hooks \<Rightarrow> bool \<Rightarrow> conn_env \<Rightarrow> nat \<Rightarrow> broker \<Rightarrow> broker option" where
  "handle_read H no_event e c b =
     (let x = ctxs b c in
      if sock x \<noteq> INVALID_SOCKET \<and> (no_event \<or> ce_readable e \<or> ssl x \<and> cstate x = mosq_cs_new) then
        (case packet_read H c False (ce_left e) (ce_input e) b of None \<Rightarrow> None
         | Some (rc, _, b') \<Rightarrow> Some (if rc \<noteq> 0 then mqtt3_context_disconnect H c b' else b'))
      else Some b)"

definition do_disconnect :: "dxl_hooks \<Rightarrow> nat \<Rightarrow> broker \<Rightarrow> broker" where
  "do_disconnect H c b = mqtt3_context_disconnect H c b"

text \<open>No read gives another context pending bytes, so the entries met are among those at the start. An
  entry that is gone before its predecessor is reached is passed over; one that goes while its
  predecessor is read has been taken already.\<close>

fun pending_walk :: "dxl_hooks \<Rightarrow> (nat \<Rightarrow> conn_env) \<Rightarrow> nat list \<Rightarrow> broker \<Rightarrow> (nat + broker) option" where
  "pending_walk H P [] b = Some (Inr b)"
| "pending_walk H P (c # cs) b =
     (if c \<notin> set (pending_bytes_hash b) then pending_walk H P cs b
      else case handle_read H True (P c) c b of None \<Rightarrow> None
      | Some b' \<Rightarrow>
          (case find (\<lambda>d. d \<in> set (pending_bytes_hash b)) cs of None \<Rightarrow> Some (Inr b')
           | Some d \<Rightarrow> if d \<notin> set (pending_bytes_hash b') then Some (Inl d) else pending_walk H P cs b'))"

type_synonym outcome = "nat \<times> broker + broker"

fun handle_events :: "dxl_hooks \<Rightarrow> (nat \<times> conn_env) list \<Rightarrow> broker \<Rightarrow> broker option" where
  "handle_events H [] b = Some b"
| "handle_events H ((i, e) # es) b =
     (case slot b i of None \<Rightarrow> handle_events H es b
      | Some c \<Rightarrow>
          (case handle_read H False e c (handle_write H e c b) of None \<Rightarrow> None
           | Some b' \<Rightarrow>
               handle_events H es (if sock (ctxs b' c) \<noteq> INVALID_SOCKET \<and> ce_hup e then do_disconnect H c b' else b')))"

definition loop_handle_reads_writes ::
  "dxl_hooks \<Rightarrow> (nat \<Rightarrow> conn_env) \<Rightarrow> (nat \<times> conn_env) list \<Rightarrow> broker \<Rightarrow> outcome option" where
  "loop_handle_reads_writes H P es b =
     (case pending_walk H P (pending_bytes_hash b) b of None \<Rightarrow> None | Some (Inl d) \<Rightarrow> Some (Inl (d, b))
      | Some (Inr b') \<Rightarrow> map_option Inr (handle_events H es b'))"

section \<open>Accepting connections\<close>

record listener_conf =
  socks :: "int list"
  max_connections :: int
  lst_tls :: bool

text \<open>A connection that waits: its socket, whether it can be made non-blocking, the address of the peer,
  and whether the TLS handshake starts well.\<close>

record accept_env =
  ae_sock :: int
  ae_nonblock :: bool
  ae_peer :: "string option"
  ae_tls_ok :: bool

definition on_listener :: "int \<Rightarrow> listener_conf \<Rightarrow> bool" where
  "on_listener listensock l \<longleftrightarrow> listensock \<in> set (socks l)"

definition join_listener :: "nat \<Rightarrow> nat \<Rightarrow> broker \<Rightarrow> broker" where
  "join_listener c i b =
     upd_ctx c (\<lambda>x. x\<lparr>listener := Some i\<rparr>) (b\<lparr>listener_client_count := (listener_client_count b)(i := listener_client_count b i + 1)\<rparr>)"

definition find_listener :: "listener_conf list \<Rightarrow> int \<Rightarrow> nat \<Rightarrow> broker \<Rightarrow> broker" where
  "find_listener L listensock c b =
     fold (\<lambda>i b. if on_listener listensock (L ! i) then join_listener c i b else b) [0..<length L] b"

text \<open>\<^verbatim>\<open>mqtt3_context_cleanup\<close> without a database, on a context that has no session yet.\<close>

definition cleanup_unused :: "nat \<Rightarrow> broker \<Rightarrow> broker" where
  "cleanup_unused c b = cleanup_queue c True (cleanup_buffers c (cleanup_names c (cleanup_connection c b)))"

definition mqtt3_socket_accept :: "listener_conf list \<Rightarrow> int \<Rightarrow> accept_env \<Rightarrow> broker \<Rightarrow> int \<times> broker" where
  "mqtt3_socket_accept L listensock a b =
     (if \<not> ae_nonblock a then (INVALID_SOCKET, b)
      else case mqtt3_context_init (ae_sock a) (ae_peer a) b of (None, b1) \<Rightarrow> (-1, b1)
      | (Some c, b1) \<Rightarrow>
          let b2 = find_listener L listensock c b1 in
          (case listener (ctxs b2 c) of None \<Rightarrow> (-1, cleanup_unused c b2)
           | Some i \<Rightarrow>
               if max_connections (L ! i) > 0 \<and> listener_client_count b2 i > max_connections (L ! i) then (-1, cleanup_unused c b2)
               else
                 let tls = list_ex (\<lambda>l. on_listener listensock l \<and> lst_tls l) L in
                 if tls \<and> \<not> ae_tls_ok a then (-1, cleanup_unused c (upd_ctx c (\<lambda>x. x\<lparr>ssl := True\<rparr>) b2))
                 else
                   let (rc, b3) = mqtt3_db_add_new_context c (if tls then upd_ctx c (\<lambda>x. x\<lparr>ssl := True\<rparr>) b2 else b2)
                   in (if rc \<noteq> 0 then -1 else ae_sock a, b3)))"

text \<open>The loop around \<^verbatim>\<open>mqtt3_socket_accept\<close>; it also ends when nobody waits any more.\<close>

fun accept_all :: "listener_conf list \<Rightarrow> int \<Rightarrow> accept_env list \<Rightarrow> broker \<Rightarrow> broker" where
  "accept_all L s [] b = b"
| "accept_all L s (a # as) b =
     (let (rc, b') = mqtt3_socket_accept L s a b in if rc \<noteq> -1 then accept_all L s as b' else b')"

end
