(* ===== verification/Fabric_Config.thy ===== *)
theory Fabric_Config
  imports Prelude "HOL-Library.List_Lexorder" "HOL-Library.Char_ord" "HOL-Library.Product_Lexorder"
begin

text \<open>
  The configuration of the fabric: the nodes of src/brokerlib/brokerconfiguration (brokers, and hubs of
  two brokers, each with a parent) and the bridge configuration that a broker derives from it,
  src/brokerlib/core/src/CoreBridgeConfigurationFactory.cpp. A broker connects to its parents; the
  second member of a hub connects to the first one and falls back to the parents.

  The properties: the service zones of a node are those met on the way up, whatever the order in which
  the nodes are visited; and the bridges that the brokers of a fabric may build never form a cycle.
\<close>

section \<open>Nodes\<close>

record config_broker =
  cb_id :: string
  cb_hostname :: string
  cb_port :: nat
  cb_serviceZone :: string
  cb_parentId :: string
  cb_ipAddress :: string

record hub =
  hub_id :: string
  primaryBrokerId :: string
  secondaryBrokerId :: string
  hub_parentId :: string
  hub_serviceZone :: string
  hub_name :: string

text \<open>The objects are shared by pointers; a node is identified by its place in its list.\<close>

datatype config_node = Hub_node nat | Broker_node nat

record broker_configuration =
  m_hubs :: "hub list"
  m_brokers :: "config_broker list"

section \<open>Reading the document\<close>

text \<open>The properties of an entry after parsing, the empty string for one that is missing; \<open>lexical_cast\<close>
  is the conversion of a port.\<close>

datatype config_error = Required string | Invalid_port string

record broker_json =
  bj_id :: string
  bj_serviceZone :: string
  bj_parentId :: string
  bj_hostname :: string
  bj_port :: string
  bj_altHostname :: string

definition read_broker :: "(string \<Rightarrow> nat option) \<Rightarrow> broker_json \<Rightarrow> config_error + config_broker" where
  "read_broker lexical_cast j =
     (if bj_id j = '''' then Inl (Required ''id'')
      else if bj_hostname j = '''' then Inl (Required ''hostname'')
      else if bj_port j = '''' then Inl (Required ''port'')
      else case lexical_cast (bj_port j) of None \<Rightarrow> Inl (Invalid_port (bj_port j))
      | Some port \<Rightarrow>
          Inr \<lparr>cb_id = bj_id j, cb_hostname = bj_hostname j, cb_port = port, cb_serviceZone = bj_serviceZone j,
               cb_parentId = bj_parentId j, cb_ipAddress = (if bj_altHostname j = '''' then bj_hostname j else bj_altHostname j)\<rparr>)"

text \<open>The entry of a hub has the fields of the hub.\<close>

definition read_hub :: "hub \<Rightarrow> config_error + hub" where
  "read_hub j = (if hub_id j = '''' then Inl (Required ''id'') else if hub_name j = '''' then Inl (Required ''name'') else Inr j)"

fun read_all :: "('a \<Rightarrow> 'e + 'b) \<Rightarrow> 'a list \<Rightarrow> 'e + 'b list" where
  "read_all f [] = Inr []"
| "read_all f (x # xs) =
     (case f x of Inl e \<Rightarrow> Inl e | Inr y \<Rightarrow> (case read_all f xs of Inl e \<Rightarrow> Inl e | Inr ys \<Rightarrow> Inr (y # ys)))"

definition read_config :: "(string \<Rightarrow> nat option) \<Rightarrow> broker_json list \<Rightarrow> hub list \<Rightarrow> config_error + broker_configuration" where
  "read_config lexical_cast bs hs =
     (case read_all (read_broker lexical_cast) bs of Inl e \<Rightarrow> Inl e
      | Inr brokers \<Rightarrow> (case read_all read_hub hs of Inl e \<Rightarrow> Inl e | Inr hubs \<Rightarrow> Inr \<lparr>m_hubs = hubs, m_brokers = brokers\<rparr>))"

section \<open>Looking up nodes\<close>

text \<open>The first index from \<open>i\<close> on with the property.\<close>

fun index_of :: "('a \<Rightarrow> bool) \<Rightarrow> 'a list \<Rightarrow> nat option" where
  "index_of P [] = None"
| "index_of P (x # xs) = (if P x then Some 0 else map_option Suc (index_of P xs))"

text \<open>\<^verbatim>\<open>m_nodeMap\<close> is filled by insertions that keep an earlier entry, with the hubs before the brokers.\<close>

definition getConfigNode :: "broker_configuration \<Rightarrow> string \<Rightarrow> config_node option" where
  "getConfigNode cfg i =
     (case index_of (\<lambda>h. hub_id h = i) (m_hubs cfg) of Some k \<Rightarrow> Some (Hub_node k)
      | None \<Rightarrow> map_option Broker_node (index_of (\<lambda>b. cb_id b = i) (m_brokers cfg)))"

definition hub_contains :: "hub \<Rightarrow> string \<Rightarrow> bool" where
  "hub_contains h i \<longleftrightarrow> primaryBrokerId h = i \<or> secondaryBrokerId h = i"

definition getContainingHub :: "broker_configuration \<Rightarrow> string \<Rightarrow> nat option" where
  "getContainingHub cfg brokerId = index_of (\<lambda>h. hub_contains h brokerId) (m_hubs cfg)"

section \<open>Service zones\<close>

definition own_zones :: "string \<Rightarrow> string list" where
  "own_zones z = (if z = '''' then [] else [z])"

definition parent_node :: "broker_configuration \<Rightarrow> string \<Rightarrow> config_node option" where
  "parent_node cfg parentId = (if parentId = '''' then None else getConfigNode cfg parentId)"

text \<open>What a node contributes itself, and the node whose list it appends.\<close>

fun zones_here :: "broker_configuration \<Rightarrow> config_node \<Rightarrow> string list" where
  "zones_here cfg (Hub_node k) = (if k < length (m_hubs cfg) then own_zones (hub_serviceZone (m_hubs cfg ! k)) else [])"
| "zones_here cfg (Broker_node k) =
     (if k < length (m_brokers cfg) \<and> getContainingHub cfg (cb_id (m_brokers cfg ! k)) = None
      then own_zones (cb_serviceZone (m_brokers cfg ! k)) else [])"

fun zones_above :: "broker_configuration \<Rightarrow> config_node \<Rightarrow> config_node option" where
  "zones_above cfg (Hub_node k) = (if k < length (m_hubs cfg) then parent_node cfg (hub_parentId (m_hubs cfg ! k)) else None)"
| "zones_above cfg (Broker_node k) =
     (if k < length (m_brokers cfg) then
        (case getContainingHub cfg (cb_id (m_brokers cfg ! k)) of Some h \<Rightarrow> Some (Hub_node h)
         | None \<Rightarrow> parent_node cfg (cb_parentId (m_brokers cfg ! k)))
      else None)"

definition nodes :: "broker_configuration \<Rightarrow> config_node set" where
  "nodes cfg = Hub_node ` {..<length (m_hubs cfg)} \<union> Broker_node ` {..<length (m_brokers cfg)}"

lemma finite_nodes [simp]: "finite (nodes cfg)"
  by (simp add: nodes_def)

lemma zones_above_node: "zones_above cfg r = Some p \<Longrightarrow> r \<in> nodes cfg"
  by (cases r) (auto simp: nodes_def split: if_splits)

text \<open>
  \<^verbatim>\<open>generateServiceZoneList\<close> of a hub and of a broker: a node that has been calculated, or is being
  calculated, returns the list it has so far. The lists of the nodes are the state; \<open>None\<close> is a node
  that has not been visited.
\<close>

function generateServiceZoneList ::
  "broker_configuration \<Rightarrow> config_node \<Rightarrow> (config_node \<Rightarrow> string list option) \<Rightarrow> string list \<times> (config_node \<Rightarrow> string list option)" where
  "generateServiceZoneList cfg r M =
     (case M r of Some zs \<Rightarrow> (zs, M)
      | None \<Rightarrow>
          (let M1 = M(r := Some (zones_here cfg r)) in
           case zones_above cfg r of None \<Rightarrow> (zones_here cfg r, M1)
           | Some p \<Rightarrow>
               let (ps, M2) = generateServiceZoneList cfg p M1; zs = zones_here cfg r @ ps in (zs, M2(r := Some zs))))"
  by pat_completeness auto
termination
proof (relation "measure (\<lambda>(cfg, r, M). card {q \<in> nodes cfg. M q = None})")
  fix cfg r M M1 p
  assume n: "M r = None" and m: "M1 = M(r := Some (zones_here cfg r))" and p: "zones_above cfg r = Some p"
  have "{q \<in> nodes cfg. M1 q = None} \<subset> {q \<in> nodes cfg. M q = None}" using n zones_above_node [OF p] by (auto simp: m)
  then show "((cfg, p, M1), (cfg, r, M)) \<in> measure (\<lambda>(cfg, r, M). card {q \<in> nodes cfg. M q = None})"
    by (simp add: psubset_card_mono)
qed simp

declare generateServiceZoneList.simps [simp del]

text \<open>The constructor visits every node of the map, in an order that is not specified.\<close>

definition zone_lists :: "broker_configuration \<Rightarrow> config_node list \<Rightarrow> config_node \<Rightarrow> string list option" where
  "zone_lists cfg order = fold (\<lambda>r M. snd (generateServiceZoneList cfg r M)) order Map.empty"

section \<open>The zones on the way up\<close>

text \<open>The zones of a node and of those above it, if the way up has at most \<open>n\<close> nodes.\<close>

fun zones_up :: "broker_configuration \<Rightarrow> nat \<Rightarrow> config_node \<Rightarrow> string list option" where
  "zones_up cfg 0 r = None"
| "zones_up cfg (Suc n) r =
     (case zones_above cfg r of None \<Rightarrow> Some (zones_here cfg r)
      | Some p \<Rightarrow> map_option (\<lambda>zs. zones_here cfg r @ zs) (zones_up cfg n p))"

fun above :: "broker_configuration \<Rightarrow> nat \<Rightarrow> config_node \<Rightarrow> config_node list" where
  "above cfg 0 r = []"
| "above cfg (Suc n) r = r # (case zones_above cfg r of None \<Rightarrow> [] | Some p \<Rightarrow> above cfg n p)"

lemma zones_up_mono: "zones_up cfg n r = Some zs \<Longrightarrow> n \<le> m \<Longrightarrow> zones_up cfg m r = Some zs \<and> above cfg m r = above cfg n r"
proof (induction n arbitrary: r zs m)
  case (Suc n)
  then obtain k where m: "m = Suc k" "n \<le> k" by (cases m) auto
  show ?case
  proof (cases "zones_above cfg r")
    case (Some p)
    then obtain ps where "zones_up cfg n p = Some ps" "zs = zones_here cfg r @ ps" using Suc.prems(1) by auto
    then show ?thesis using Suc.IH [of p ps k] m Some by simp
  qed (use Suc.prems(1) m in simp)
qed simp

definition rooted_node :: "broker_configuration \<Rightarrow> config_node \<Rightarrow> bool" where
  "rooted_node cfg r \<longleftrightarrow> (\<exists>n. zones_up cfg n r \<noteq> None)"

lemma zones_up_unique: "zones_up cfg n r = Some zs \<Longrightarrow> zones_up cfg m r = Some zs' \<Longrightarrow> zs' = zs \<and> above cfg m r = above cfg n r"
  using zones_up_mono [of cfg n r zs "max n m"] zones_up_mono [of cfg m r zs' "max n m"] by simp

lemma above_step: "zones_above cfg r = Some p \<Longrightarrow> zones_up cfg (Suc n) r \<noteq> None \<longleftrightarrow> zones_up cfg n p \<noteq> None"
  by simp

lemma above_shorter:
  assumes "zones_up cfg n p \<noteq> None" and "q \<in> set (above cfg n p)"
  shows "\<exists>m. zones_up cfg m q \<noteq> None \<and> length (above cfg m q) \<le> length (above cfg n p)"
  using assms
proof (induction n arbitrary: p)
  case (Suc n)
  show ?case
  proof (cases "q = p")
    case False
    then obtain p' where p': "zones_above cfg p = Some p'" "q \<in> set (above cfg n p')"
      using Suc.prems(2) by (cases "zones_above cfg p") auto
    then show ?thesis using Suc.IH [of p'] Suc.prems(1) by (auto intro: le_SucI)
  qed (use Suc.prems(1) in blast)
qed simp

lemma not_above_itself:
  assumes "zones_above cfg r = Some p" and "zones_up cfg n p \<noteq> None"
  shows "r \<notin> set (above cfg n p)"
proof
  assume "r \<in> set (above cfg n p)"
  then obtain m where m: "zones_up cfg m r \<noteq> None" "length (above cfg m r) \<le> length (above cfg n p)"
    using above_shorter [OF assms(2)] by blast
  have "zones_up cfg (Suc n) r \<noteq> None" using assms above_step by blast
  then have "above cfg m r = above cfg (Suc n) r" using m(1) zones_up_unique by blast
  then show False using m(2) assms(1) by simp
qed

lemma generate_step:
  assumes "M r = None" and "zones_above cfg r = Some p" and "M1 = M(r := Some (zones_here cfg r))"
  shows "generateServiceZoneList cfg r M =
    (zones_here cfg r @ fst (generateServiceZoneList cfg p M1),
     (snd (generateServiceZoneList cfg p M1))(r := Some (zones_here cfg r @ fst (generateServiceZoneList cfg p M1))))"
  by (subst generateServiceZoneList.simps) (simp add: assms Let_def split_beta)

lemma generate_rooted:
  assumes "zones_up cfg n r = Some zs" and "\<forall>q \<in> set (above cfg n r). M q = None \<or> (\<exists>m. zones_up cfg m q = M q)"
  shows "fst (generateServiceZoneList cfg r M) = zs \<and>
    (\<forall>q. q \<notin> set (above cfg n r) \<longrightarrow> snd (generateServiceZoneList cfg r M) q = M q) \<and>
    snd (generateServiceZoneList cfg r M) r = Some zs \<and>
    (\<forall>q \<in> set (above cfg n r). snd (generateServiceZoneList cfg r M) q = None \<or> (\<exists>m. zones_up cfg m q = snd (generateServiceZoneList cfg r M) q))"
  using assms
proof (induction n arbitrary: r zs M)
  case (Suc n)
  show ?case
  proof (cases "M r")
    case (Some zs')
    then have "zs' = zs" using Suc.prems zones_up_unique [of cfg "Suc n" r zs] by auto
    then show ?thesis using Some Suc.prems(2) by (simp add: generateServiceZoneList.simps)
  next
    case None
    define M1 where "M1 = M(r := Some (zones_here cfg r))"
    show ?thesis
    proof (cases "zones_above cfg r")
      case na: None
      then show ?thesis using None Suc.prems by (auto simp: generateServiceZoneList.simps Let_def intro!: exI [of _ "Suc n"])
    next
      case (Some p)
      then obtain ps where ps: "zones_up cfg n p = Some ps" "zs = zones_here cfg r @ ps" using Suc.prems(1) by auto
      have r: "r \<notin> set (above cfg n p)" using not_above_itself [OF Some] ps(1) by simp
      have "\<forall>q \<in> set (above cfg n p). M1 q = None \<or> (\<exists>m. zones_up cfg m q = M1 q)" using Suc.prems(2) r Some by (auto simp: M1_def)
      note ih = Suc.IH [OF ps(1) this]
      have "generateServiceZoneList cfg r M = (zs, (snd (generateServiceZoneList cfg p M1))(r := Some zs))"
        using generate_step [OF None Some M1_def] ih ps(2) by simp
      moreover have "M1 q = M q" if "q \<noteq> r" for q using that by (simp add: M1_def)
      ultimately show ?thesis using ih r Some Suc.prems(1) by (auto intro!: exI [of _ "Suc n"])
    qed
  qed
qed simp

lemma generate_other:
  assumes "\<not> rooted_node cfg r" and "rooted_node cfg q"
  shows "snd (generateServiceZoneList cfg r M) q = M q"
  using assms
proof (induction cfg r M rule: generateServiceZoneList.induct)
  case (1 cfg r M)
  have ne: "q \<noteq> r" using 1 by blast
  have "zones_above cfg r \<noteq> None"
  proof
    assume "zones_above cfg r = None"
    then have "zones_up cfg (Suc 0) r \<noteq> None" by simp
    then show False using "1.prems"(1) unfolding rooted_node_def by blast
  qed
  then obtain p where p: "zones_above cfg r = Some p" by blast
  then have "\<not> rooted_node cfg p" using "1.prems"(1) above_step [OF p] unfolding rooted_node_def by blast
  then have "snd (generateServiceZoneList cfg p M1) q = M1 q" if "M r = None" "M1 = M(r := Some (zones_here cfg r))" for M1
    using "1.IH" [OF that p] "1.prems"(2) by blast
  then show ?case
    using generate_step [OF _ p refl, of M] ne by (cases "M r") (simp_all add: generateServiceZoneList.simps [of cfg r M])
qed

lemma generate_some: "M q \<noteq> None \<Longrightarrow> snd (generateServiceZoneList cfg r M) q \<noteq> None"
proof (induction cfg r M rule: generateServiceZoneList.induct)
  case (1 cfg r M)
  show ?case
  proof (cases "M r = None \<and> zones_above cfg r \<noteq> None")
    case True
    then obtain p where p: "M r = None" "zones_above cfg r = Some p" by blast
    define M1 where "M1 = M(r := Some (zones_here cfg r))"
    have "M1 q \<noteq> None" using "1.prems" by (simp add: M1_def)
    then show ?thesis using "1.IH" [OF p(1) M1_def p(2)] generate_step [OF p M1_def] by simp
  qed (use "1.prems" in \<open>auto simp: generateServiceZoneList.simps [of cfg r M] Let_def split: option.splits\<close>)
qed

definition lists_right :: "broker_configuration \<Rightarrow> (config_node \<Rightarrow> string list option) \<Rightarrow> bool" where
  "lists_right cfg M \<longleftrightarrow> (\<forall>q n zs. zones_up cfg n q = Some zs \<longrightarrow> M q = None \<or> M q = Some zs)"

lemma lists_right_step:
  assumes "lists_right cfg M"
  shows "lists_right cfg (snd (generateServiceZoneList cfg r M)) \<and>
    (zones_up cfg n r = Some zs \<longrightarrow> snd (generateServiceZoneList cfg r M) r = Some zs) \<and>
    (\<forall>q n zs. zones_up cfg n q = Some zs \<longrightarrow> M q = Some zs \<longrightarrow> snd (generateServiceZoneList cfg r M) q = Some zs)"
proof (cases "rooted_node cfg r")
  case False
  then show ?thesis using assms generate_other [OF False] unfolding lists_right_def rooted_node_def by (metis option.distinct(1))
next
  case True
  then obtain k ys where k: "zones_up cfg k r = Some ys" unfolding rooted_node_def by blast
  have "\<exists>m. zones_up cfg m q \<noteq> None" if "q \<in> set (above cfg k r)" for q using above_shorter [OF _ that] k by auto
  then have "\<forall>q \<in> set (above cfg k r). M q = None \<or> (\<exists>m. zones_up cfg m q = M q)"
    using assms unfolding lists_right_def by (metis option.collapse)
  note g = generate_rooted [OF k this]
  have "snd (generateServiceZoneList cfg r M) q = None \<or> snd (generateServiceZoneList cfg r M) q = Some zs" if "zones_up cfg n q = Some zs" for q n zs
  proof (cases "q \<in> set (above cfg k r)")
    case True
    then show ?thesis using g that zones_up_unique [of cfg n q zs] by (metis option.exhaust)
  qed (use g assms that in \<open>auto simp: lists_right_def\<close>)
  moreover from this have "snd (generateServiceZoneList cfg r M) q = Some zs" if "zones_up cfg n q = Some zs" "M q = Some zs" for q n zs
    using that generate_some [of M q cfg r] by (metis option.distinct(1))
  ultimately show ?thesis using g zones_up_unique [OF k] unfolding lists_right_def by metis
qed

lemma zone_lists_right:
  assumes "r \<in> set order" and "zones_up cfg n r = Some zs"
  shows "zone_lists cfg order r = Some zs"
proof -
  have "(\<forall>M. lists_right cfg M \<longrightarrow>
      lists_right cfg (fold (\<lambda>r M. snd (generateServiceZoneList cfg r M)) xs M) \<and>
      (\<forall>q n zs. zones_up cfg n q = Some zs \<longrightarrow> (q \<in> set xs \<or> M q = Some zs) \<longrightarrow>
         fold (\<lambda>r M. snd (generateServiceZoneList cfg r M)) xs M q = Some zs))" for xs
  proof (induction xs)
    case (Cons x xs)
    show ?case
    proof (intro allI impI)
      fix M assume M: "lists_right cfg M"
      let ?M = "snd (generateServiceZoneList cfg x M)"
      note s = lists_right_step [OF M, of x]
      then have r: "lists_right cfg ?M" and k: "\<And>q n zs. zones_up cfg n q = Some zs \<Longrightarrow> q = x \<or> M q = Some zs \<Longrightarrow> ?M q = Some zs"
        by blast+
      show "lists_right cfg (fold (\<lambda>r M. snd (generateServiceZoneList cfg r M)) (x # xs) M) \<and>
          (\<forall>q n zs. zones_up cfg n q = Some zs \<longrightarrow> (q \<in> set (x # xs) \<or> M q = Some zs) \<longrightarrow>
            fold (\<lambda>r M. snd (generateServiceZoneList cfg r M)) (x # xs) M q = Some zs)"
        using Cons.IH r k by (auto simp del: not_None_eq)
    qed
  qed simp
  then show ?thesis using assms unfolding zone_lists_def by (auto simp: lists_right_def)
qed

text \<open>C38. Once the configuration is built, every node has the service zones on its way up: its own and those of
  the nodes above it, nearest first, a member of a hub taking those of the hub. This holds for every
  node whose way up ends, whatever the order in which the nodes are visited and whatever other nodes
  have parents in a cycle; the calculation itself always ends.\<close>

theorem service_zones_are_those_on_the_way_up:
  assumes "r \<in> set order" and "zones_up cfg n r = Some zs"
  shows "zone_lists cfg order r = Some zs"
  by (rule zone_lists_right [OF assms])

definition sample_fabric :: broker_configuration where
  "sample_fabric = \<lparr>
     m_hubs = [\<lparr>hub_id = ''top'', primaryBrokerId = ''b1'', secondaryBrokerId = ''b2'', hub_parentId = '''', hub_serviceZone = ''root'', hub_name = ''Top''\<rparr>],
     m_brokers = [
       \<lparr>cb_id = ''b3'', cb_hostname = ''h3'', cb_port = 8883, cb_serviceZone = ''east'', cb_parentId = ''top'', cb_ipAddress = ''''\<rparr>,
       \<lparr>cb_id = ''b1'', cb_hostname = ''h1'', cb_port = 8883, cb_serviceZone = ''x'', cb_parentId = '''', cb_ipAddress = ''10.0.0.1''\<rparr>,
       \<lparr>cb_id = ''b2'', cb_hostname = ''h2'', cb_port = 8883, cb_serviceZone = '''', cb_parentId = '''', cb_ipAddress = ''''\<rparr>]\<rparr>"

theorem service_zones_are_those_on_the_way_up_witness:
  "zone_lists sample_fabric [Broker_node 0, Hub_node 0, Broker_node 1] (Broker_node 0) = Some [''east'', ''root'']"
  by (rule service_zones_are_those_on_the_way_up [of _ _ _ "Suc (Suc 0)"])
    (simp_all add: sample_fabric_def getContainingHub_def hub_contains_def parent_node_def getConfigNode_def own_zones_def)

section \<open>The bridge configuration of a broker\<close>

record bridge_broker =
  bb_guid :: string
  bb_host :: string
  bb_port :: nat

record core_bridge_configuration =
  cbc_guid :: string
  cbc_brokers :: "bridge_broker list"
  cbc_primary :: nat
  cbc_hubName :: string
  cbc_hostName :: string
  cbc_ipAddress :: string
  cbc_port :: nat

definition isEnabled :: "core_bridge_configuration \<Rightarrow> bool" where
  "isEnabled m \<longleftrightarrow> cbc_brokers m \<noteq> []"

definition isRoundRobin :: "core_bridge_configuration \<Rightarrow> bool" where
  "isRoundRobin m \<longleftrightarrow> cbc_primary m = 0"

text \<open>\<open>rnd\<close> is what \<^verbatim>\<open>rand\<close> returns.\<close>

definition getInitialBrokerIndex :: "nat \<Rightarrow> core_bridge_configuration \<Rightarrow> nat" where
  "getInitialBrokerIndex rnd m =
     (let brokerCount = length (cbc_brokers m)
      in (if isRoundRobin m \<and> brokerCount > 1 then rnd mod brokerCount else 0) mod 2 ^ 16)"

definition getBridgeId :: "core_bridge_configuration \<Rightarrow> string" where
  "getBridgeId m = (if isEnabled m then cbc_guid m @ concat (map (\<lambda>b. '':'' @ bb_guid b) (cbc_brokers m)) else '''')"

definition setBrokerProperties :: "string \<Rightarrow> string \<Rightarrow> nat \<Rightarrow> core_bridge_configuration \<Rightarrow> core_bridge_configuration" where
  "setBrokerProperties hostName ipAddress port m = m\<lparr>cbc_hostName := hostName, cbc_ipAddress := ipAddress, cbc_port := port\<rparr>"

definition addBroker :: "broker_configuration \<Rightarrow> string \<Rightarrow> core_bridge_configuration \<Rightarrow> core_bridge_configuration" where
  "addBroker cfg brokerId m =
     (if brokerId = '''' then m
      else case getConfigNode cfg brokerId of None \<Rightarrow> m | Some (Hub_node _) \<Rightarrow> m
      | Some (Broker_node k) \<Rightarrow>
          let b = m_brokers cfg ! k;
              entry = (\<lambda>host. \<lparr>bb_guid = cb_id b, bb_host = host, bb_port = cb_port b\<rparr>)
          in m\<lparr>cbc_brokers := cbc_brokers m @ [entry (cb_hostname b)] @ (if cb_ipAddress b \<noteq> '''' then [entry (cb_ipAddress b)] else [])\<rparr>)"

definition addPrimaryHub :: "broker_configuration \<Rightarrow> config_broker \<Rightarrow> core_bridge_configuration \<Rightarrow> core_bridge_configuration" where
  "addPrimaryHub cfg local m =
     (case getContainingHub cfg (cb_id local) of None \<Rightarrow> m
      | Some k \<Rightarrow>
          let h = m_hubs cfg ! k;
              m1 = m\<lparr>cbc_hubName := hub_name h\<rparr>;
              other = (if cb_id local = primaryBrokerId h then secondaryBrokerId h else primaryBrokerId h)
          in if other \<noteq> '''' \<and> cb_id local > other then
               (let m2 = addBroker cfg other m1 in m2\<lparr>cbc_primary := length (cbc_brokers m2)\<rparr>)
             else m1)"

definition addParents :: "broker_configuration \<Rightarrow> config_broker \<Rightarrow> core_bridge_configuration \<Rightarrow> core_bridge_configuration" where
  "addParents cfg local m =
     (let parentId = (case getContainingHub cfg (cb_id local) of Some k \<Rightarrow> hub_parentId (m_hubs cfg ! k) | None \<Rightarrow> cb_parentId local) in
      if parentId = '''' then m
      else case getConfigNode cfg parentId of None \<Rightarrow> m
      | Some (Broker_node _) \<Rightarrow> addBroker cfg parentId m
      | Some (Hub_node k) \<Rightarrow>
          let h = m_hubs cfg ! k in
          if primaryBrokerId h < secondaryBrokerId h
          then addBroker cfg (secondaryBrokerId h) (addBroker cfg (primaryBrokerId h) m)
          else addBroker cfg (primaryBrokerId h) (addBroker cfg (secondaryBrokerId h) m))"

definition new_configuration :: "string \<Rightarrow> core_bridge_configuration" where
  "new_configuration guid =
     \<lparr>cbc_guid = guid, cbc_brokers = [], cbc_primary = 0, cbc_hubName = '''', cbc_hostName = '''', cbc_ipAddress = '''', cbc_port = 0\<rparr>"

definition createEmptyConfiguration :: core_bridge_configuration where
  "createEmptyConfiguration = new_configuration ''EMPTY''"

definition createConfiguration :: "broker_configuration \<Rightarrow> string \<Rightarrow> core_bridge_configuration" where
  "createConfiguration cfg guid =
     (let m = new_configuration guid in
      case getConfigNode cfg guid of None \<Rightarrow> m | Some (Hub_node _) \<Rightarrow> m
      | Some (Broker_node k) \<Rightarrow>
          let local = m_brokers cfg ! k
          in addParents cfg local
               (addPrimaryHub cfg local (setBrokerProperties (cb_hostname local) (cb_ipAddress local) (cb_port local) m)))"

section \<open>Which brokers are candidates\<close>

lemma index_of_Some: "index_of P xs = Some k \<Longrightarrow> k < length xs \<and> P (xs ! k)"
  by (induction xs arbitrary: k) (auto split: if_splits)

lemma index_of_found: "k < length xs \<Longrightarrow> P (xs ! k) \<Longrightarrow> index_of P xs \<noteq> None"
proof (induction xs arbitrary: k)
  case (Cons x xs)
  then show ?case by (cases k) auto
qed simp

lemma getConfigNode_broker: "getConfigNode cfg i = Some (Broker_node k) \<Longrightarrow> k < length (m_brokers cfg) \<and> cb_id (m_brokers cfg ! k) = i"
  by (auto simp: getConfigNode_def dest: index_of_Some split: option.splits)

lemma getConfigNode_node: "getConfigNode cfg i = Some r \<Longrightarrow> r \<in> nodes cfg"
  by (auto simp: getConfigNode_def nodes_def dest: index_of_Some split: option.splits)

definition candidates :: "core_bridge_configuration \<Rightarrow> string set" where
  "candidates m = bb_guid ` set (cbc_brokers m)"

lemma addBroker_candidates:
  "candidates (addBroker cfg i m) =
     candidates m \<union> (if i \<noteq> '''' \<and> (\<exists>k. getConfigNode cfg i = Some (Broker_node k)) then {i} else {})"
  using getConfigNode_broker [of cfg i]
  by (auto simp: addBroker_def candidates_def Let_def split: option.splits config_node.splits)

lemma addBroker_fields [simp]:
  "cbc_primary (addBroker cfg i m) = cbc_primary m" "length (cbc_brokers m) \<le> length (cbc_brokers (addBroker cfg i m))"
  by (simp_all add: addBroker_def Let_def split: option.splits config_node.splits)

lemma initial_index_in_range: "isEnabled m \<Longrightarrow> getInitialBrokerIndex rnd m < length (cbc_brokers m)"
proof -
  assume "isEnabled m"
  then have "0 < length (cbc_brokers m)" by (simp add: isEnabled_def)
  then have "(if isRoundRobin m \<and> length (cbc_brokers m) > 1 then rnd mod length (cbc_brokers m) else 0) < length (cbc_brokers m)" by simp
  then show ?thesis unfolding getInitialBrokerIndex_def Let_def by (rule le_less_trans [OF mod_less_eq_dividend])
qed

lemma created_primary_count: "cbc_primary (createConfiguration cfg guid) \<le> length (cbc_brokers (createConfiguration cfg guid))"
proof -
  have p: "cbc_primary m \<le> length (cbc_brokers m) \<Longrightarrow> cbc_primary (addParents cfg l m) \<le> length (cbc_brokers (addParents cfg l m))" for l m
  proof -
    have a: "cbc_primary m \<le> length (cbc_brokers m) \<Longrightarrow> cbc_primary (addBroker cfg i m) \<le> length (cbc_brokers (addBroker cfg i m))" for i m
      by (auto intro: le_trans [OF _ addBroker_fields(2)])
    assume "cbc_primary m \<le> length (cbc_brokers m)"
    then show ?thesis using a a [OF a] by (simp add: addParents_def Let_def split: option.splits config_node.splits)
  qed
  have h: "cbc_primary m \<le> length (cbc_brokers m) \<Longrightarrow> cbc_primary (addPrimaryHub cfg l m) \<le> length (cbc_brokers (addPrimaryHub cfg l m))" for l m
    by (auto simp: addPrimaryHub_def Let_def split: option.splits)
  show ?thesis
    unfolding createConfiguration_def Let_def
    by (auto simp: new_configuration_def setBrokerProperties_def intro!: p h split: option.splits config_node.splits)
qed

text \<open>C39. The bridge configuration that a broker derives is one a bridge can work with: there are at least as many
  addresses as primary ones, and if bridging is enabled the address to start with exists.\<close>

theorem created_configuration_is_usable:
  "cbc_primary (createConfiguration cfg guid) \<le> length (cbc_brokers (createConfiguration cfg guid)) \<and>
   (cbc_brokers (createConfiguration cfg guid) = [] \<or>
    getInitialBrokerIndex rnd (createConfiguration cfg guid) < length (cbc_brokers (createConfiguration cfg guid)))"
  using created_primary_count initial_index_in_range [of "createConfiguration cfg guid" rnd] by (auto simp: isEnabled_def)

section \<open>No cycles of bridges\<close>

definition height :: "broker_configuration \<Rightarrow> config_node \<Rightarrow> nat" where
  "height cfg r = (LEAST n. zones_up cfg n r \<noteq> None)"

lemma height_above: "rooted_node cfg r \<Longrightarrow> zones_above cfg r = Some p \<Longrightarrow> height cfg p < height cfg r"
proof -
  assume r: "rooted_node cfg r" and p: "zones_above cfg r = Some p"
  have "zones_up cfg (height cfg r) r \<noteq> None" using r unfolding rooted_node_def height_def by (rule LeastI_ex)
  then obtain m where "height cfg r = Suc m" "zones_up cfg m p \<noteq> None" using p by (cases "height cfg r") auto
  then show ?thesis unfolding height_def [of cfg p] using Least_le [of "\<lambda>n. zones_up cfg n p \<noteq> None" m] by simp
qed

text \<open>The level of a broker is that of its hub, if it has one.\<close>

definition level :: "broker_configuration \<Rightarrow> string \<Rightarrow> nat" where
  "level cfg i = (case getContainingHub cfg i of Some k \<Rightarrow> height cfg (Hub_node k)
     | None \<Rightarrow> (case getConfigNode cfg i of Some r \<Rightarrow> height cfg r | None \<Rightarrow> 0))"

definition one_hub_each :: "broker_configuration \<Rightarrow> bool" where
  "one_hub_each cfg \<longleftrightarrow> (\<forall>i < length (m_hubs cfg). \<forall>j < length (m_hubs cfg). \<forall>x. x \<noteq> '''' \<longrightarrow>
     hub_contains (m_hubs cfg ! i) x \<longrightarrow> hub_contains (m_hubs cfg ! j) x \<longrightarrow> i = j)"

definition all_rooted :: "broker_configuration \<Rightarrow> bool" where
  "all_rooted cfg \<longleftrightarrow> (\<forall>r \<in> nodes cfg. rooted_node cfg r)"

lemma containing_hub:
  assumes "one_hub_each cfg" and "k < length (m_hubs cfg)" and "hub_contains (m_hubs cfg ! k) x" and "x \<noteq> ''''"
  shows "getContainingHub cfg x = Some k"
proof -
  obtain j where j: "getContainingHub cfg x = Some j" using index_of_found [OF assms(2)] assms(3) by (fastforce simp: getContainingHub_def)
  then have "j < length (m_hubs cfg)" "hub_contains (m_hubs cfg ! j) x" using index_of_Some by (fastforce simp: getContainingHub_def)+
  then show ?thesis using assms j unfolding one_hub_each_def by blast
qed

text \<open>A broker above a node, or a member of a hub above it, has a smaller level.\<close>

lemma level_above:
  assumes ok: "one_hub_each cfg" "all_rooted cfg" and up: "zones_above cfg r = Some q"
    and m: "q = Broker_node k \<and> x = cb_id (m_brokers cfg ! k) \<and> getConfigNode cfg x = Some q \<or>
      q = Hub_node k \<and> k < length (m_hubs cfg) \<and> hub_contains (m_hubs cfg ! k) x \<and> x \<noteq> ''''"
  shows "level cfg x < height cfg r"
proof -
  have r: "height cfg q < height cfg r" using height_above [OF _ up] zones_above_node [OF up] ok(2) by (auto simp: all_rooted_def)
  from m show ?thesis
  proof
    assume q: "q = Broker_node k \<and> x = cb_id (m_brokers cfg ! k) \<and> getConfigNode cfg x = Some q"
    show ?thesis
    proof (cases "getContainingHub cfg x")
      case None
      then show ?thesis using q r by (auto simp: level_def)
    next
      case (Some h)
      have "zones_above cfg q = Some (Hub_node h)" using q Some getConfigNode_broker [of cfg x k] by auto
      moreover have "rooted_node cfg q" using q ok(2) getConfigNode_node [of cfg x q] by (auto simp: all_rooted_def)
      ultimately show ?thesis using height_above [of cfg q] r Some by (simp add: level_def)
    qed
  next
    assume "q = Hub_node k \<and> k < length (m_hubs cfg) \<and> hub_contains (m_hubs cfg ! k) x \<and> x \<noteq> ''''"
    then show ?thesis using containing_hub [OF ok(1), of k x] r by (auto simp: level_def)
  qed
qed

definition parent_of :: "broker_configuration \<Rightarrow> config_broker \<Rightarrow> string" where
  "parent_of cfg l = (case getContainingHub cfg (cb_id l) of Some k \<Rightarrow> hub_parentId (m_hubs cfg ! k) | None \<Rightarrow> cb_parentId l)"

lemma addParents_candidates:
  "x \<in> candidates (addParents cfg l m) \<Longrightarrow> x \<in> candidates m \<or>
     (\<exists>q k. parent_node cfg (parent_of cfg l) = Some q \<and> x \<noteq> '''' \<and> (\<exists>j. getConfigNode cfg x = Some (Broker_node j)) \<and>
        (q = Broker_node k \<and> x = parent_of cfg l \<or> q = Hub_node k \<and> hub_contains (m_hubs cfg ! k) x))"
  by (auto simp: addParents_def parent_of_def [symmetric] parent_node_def addBroker_candidates hub_contains_def Let_def
      split: option.splits config_node.splits if_splits)

lemma addPrimaryHub_candidates:
  "x \<in> candidates (addPrimaryHub cfg l m) \<Longrightarrow> x \<in> candidates m \<or>
     (\<exists>k. getContainingHub cfg (cb_id l) = Some k \<and> x \<noteq> '''' \<and> hub_contains (m_hubs cfg ! k) x \<and> x < cb_id l)"
proof -
  have c: "candidates (m\<lparr>cbc_hubName := s\<rparr>) = candidates m" "candidates (m\<lparr>cbc_primary := n\<rparr>) = candidates m" for m s n
    by (simp_all add: candidates_def)
  assume "x \<in> candidates (addPrimaryHub cfg l m)"
  then show ?thesis
    by (auto simp: addPrimaryHub_def addBroker_candidates hub_contains_def Let_def c split: option.splits if_splits)
qed

lemma candidate_smaller:
  assumes ok: "one_hub_each cfg" "all_rooted cfg" and x: "x \<in> candidates (createConfiguration cfg guid)"
  shows "level cfg x < level cfg guid \<or> level cfg x = level cfg guid \<and> x < guid"
proof -
  obtain k where k: "getConfigNode cfg guid = Some (Broker_node k)"
    using x by (auto simp: createConfiguration_def new_configuration_def candidates_def Let_def split: option.splits config_node.splits)
  define l where "l = m_brokers cfg ! k"
  have l: "k < length (m_brokers cfg)" "cb_id l = guid" using getConfigNode_broker [OF k] by (simp_all add: l_def)
  define m where "m = setBrokerProperties (cb_hostname l) (cb_ipAddress l) (cb_port l) (new_configuration guid)"
  have "candidates m = {}" by (simp add: m_def candidates_def setBrokerProperties_def new_configuration_def)
  moreover have "x \<in> candidates (addParents cfg l (addPrimaryHub cfg l m))"
    using x k by (simp add: createConfiguration_def Let_def l_def m_def)
  ultimately consider (mate) h where "getContainingHub cfg guid = Some h" "x \<noteq> ''''" "hub_contains (m_hubs cfg ! h) x" "x < guid"
    | (parent) q j where "parent_node cfg (parent_of cfg l) = Some q" "x \<noteq> ''''" "\<exists>j. getConfigNode cfg x = Some (Broker_node j)"
        "q = Broker_node j \<and> x = parent_of cfg l \<or> q = Hub_node j \<and> hub_contains (m_hubs cfg ! j) x"
    using addParents_candidates addPrimaryHub_candidates l(2) by blast
  then show ?thesis
  proof cases
    case mate
    then have "h < length (m_hubs cfg)" using index_of_Some by (fastforce simp: getContainingHub_def)
    then have "getContainingHub cfg x = Some h" using containing_hub [OF ok(1)] mate by blast
    then show ?thesis using mate by (simp add: level_def)
  next
    case parent
    define r where "r = (case getContainingHub cfg guid of Some h \<Rightarrow> Hub_node h | None \<Rightarrow> Broker_node k)"
    have r: "level cfg guid = height cfg r" using k by (simp add: level_def r_def split: option.split)
    have up: "zones_above cfg r = Some q"
    proof (cases "getContainingHub cfg guid")
      case (Some h)
      then have "h < length (m_hubs cfg)" using index_of_Some by (fastforce simp: getContainingHub_def)
      then show ?thesis using parent(1) Some l by (simp add: r_def parent_of_def)
    qed (use parent(1) l in \<open>simp add: r_def parent_of_def l_def\<close>)
    have g: "getConfigNode cfg (parent_of cfg l) = Some q" using parent(1) by (simp add: parent_node_def split: if_splits)
    have "level cfg x < height cfg r"
    proof (rule level_above [OF ok up])
      show "q = Broker_node j \<and> x = cb_id (m_brokers cfg ! j) \<and> getConfigNode cfg x = Some q \<or>
          q = Hub_node j \<and> j < length (m_hubs cfg) \<and> hub_contains (m_hubs cfg ! j) x \<and> x \<noteq> ''''"
        using parent g getConfigNode_broker [of cfg x j] getConfigNode_node [OF g] by (auto simp: nodes_def)
    qed
    then show ?thesis using r by simp
  qed
qed

text \<open>C37. The bridges of a fabric never form a cycle. If every broker is in at most one hub and the
  parents of the nodes have no cycle, then whatever candidate each broker picks from the bridge
  configuration it derives, following the bridges never leads back to where one started.\<close>

theorem bridges_never_form_a_cycle:
  assumes "one_hub_each cfg" and "all_rooted cfg"
  shows "acyclic {(guid, x). x \<in> candidates (createConfiguration cfg guid)}"
proof (rule acyclicI_order)
  fix guid x assume "(guid, x) \<in> {(guid, x). x \<in> candidates (createConfiguration cfg guid)}"
  then show "(level cfg x, x) < (level cfg guid, guid)" using candidate_smaller [OF assms, of x guid] by auto
qed

theorem bridges_never_form_a_cycle_witness:
  "candidates (createConfiguration sample_fabric ''b2'') = {''b1''} \<and>
   acyclic {(guid, x). x \<in> candidates (createConfiguration sample_fabric guid)}"
proof
  show "candidates (createConfiguration sample_fabric ''b2'') = {''b1''}" by code_simp
  have z: "zones_up sample_fabric 2 r \<noteq> None" if "r = Hub_node 0 \<or> r = Broker_node 0 \<or> r = Broker_node (Suc 0) \<or> r = Broker_node (Suc (Suc 0))" for r
    using that by (elim disjE) (simp_all add: numeral_2_eq_2 sample_fabric_def getContainingHub_def hub_contains_def parent_node_def getConfigNode_def own_zones_def)
  have "nodes sample_fabric = {Hub_node 0, Broker_node 0, Broker_node (Suc 0), Broker_node (Suc (Suc 0))}"
    by (simp add: nodes_def sample_fabric_def lessThan_Suc insert_commute)
  then have "rooted_node sample_fabric r" if "r \<in> nodes sample_fabric" for r
    unfolding rooted_node_def using that z [of r] by (intro exI [of _ 2]) simp
  then have "all_rooted sample_fabric" by (simp add: all_rooted_def)
  moreover have "one_hub_each sample_fabric" by (simp add: one_hub_each_def sample_fabric_def)
  ultimately show "acyclic {(guid, x). x \<in> candidates (createConfiguration sample_fabric guid)}" by (intro bridges_never_form_a_cycle)
qed

end
