(* ===== verification/Runners.thy ===== *)
theory Runners
  imports Loop Fabric_Config
begin

text \<open>
  The work queue of src/mqtt-core/src/dxl: tasks that other threads hand to the main loop, which runs
  them at the end of an iteration (MqttWorkQueue.cpp and the runners beside it), with
  \<^verbatim>\<open>mqtt3_config_add_bridge\<close> of src/mqtt-core/src/conf.c. Restarting the listeners only concerns sockets
  and is not modelled.
\<close>

section \<open>Configuring bridges\<close>

text \<open>The bridge that \<^verbatim>\<open>mqtt3_config_add_bridge\<close> builds, but for its TLS settings: it carries all topics in
  both directions.\<close>

definition mqtt3_config_add_bridge :: "string \<Rightarrow> (string \<times> nat) list \<Rightarrow> mqtt3_bridge" where
  "mqtt3_config_add_bridge name addrs =
     \<lparr>br_name = name, addresses = addrs, cur_address = 0, cur_primary_address = 0, primary_address_count = 1,
      primary_retry = 0, round_robin = False, br_clientid = None, br_clean_session = True,
      topics = [\<lparr>bt_topic = ''#'', bt_qos = 0, bt_direction = bd_both, local_prefix = None, remote_prefix = None,
        local_topic = ''#'', remote_topic = ''#''\<rparr>],
      topic_remapping = False, restart_t = 0, start_type = bst_automatic, idle_timeout = 60, threshold = 10,
      lazy_reconnect = False, try_private = True, try_private_accepted = False\<rparr>"

fun clear_slots :: "dxl_hooks \<Rightarrow> nat list \<Rightarrow> broker \<Rightarrow> broker" where
  "clear_slots H [] b = b"
| "clear_slots H (i # is) b =
     (case slot b i of None \<Rightarrow> clear_slots H is b
      | Some c \<Rightarrow>
          clear_slots H is
            (if bridge (ctxs b c) \<noteq> None
             then clean_session_at c (mqtt3_context_disconnect H c (upd_ctx c (\<lambda>x. x\<lparr>clean_session := True\<rparr>) b)) else b))"

definition clearCurrentBridges :: "dxl_hooks \<Rightarrow> broker \<Rightarrow> broker" where
  "clearCurrentBridges H b = clear_slots H [0..<length (contexts b)] b"

text \<open>\<open>rnd\<close> is the random number that picks the first address of a round robin.\<close>

definition configured_bridge :: "nat \<Rightarrow> core_bridge_configuration \<Rightarrow> mqtt3_bridge" where
  "configured_bridge rnd m = (mqtt3_config_add_bridge (getBridgeId m) (map (\<lambda>br. (bb_host br, bb_port br)) (cbc_brokers m)))
     \<lparr>round_robin := isRoundRobin m, cur_address := getInitialBrokerIndex rnd m, primary_address_count := cbc_primary m\<rparr>"

definition bridge_configuration_run :: "dxl_hooks \<Rightarrow> string option \<Rightarrow> nat \<Rightarrow> core_bridge_configuration \<Rightarrow> broker \<Rightarrow> broker" where
  "bridge_configuration_run H hostname rnd m b =
     (let b1 = clearCurrentBridges H b
      in if isEnabled m then snd (mqtt3_bridge_new hostname (configured_bridge rnd m) b1) else b1)"

section \<open>The other runners\<close>

text \<open>A context is disconnected once for every certificate of its chain that is revoked.\<close>

fun revoke_slots :: "dxl_hooks \<Rightarrow> string list \<Rightarrow> nat list \<Rightarrow> broker \<Rightarrow> broker" where
  "revoke_slots H revoked [] b = b"
| "revoke_slots H revoked (i # is) b =
     (case slot b i of None \<Rightarrow> revoke_slots H revoked is b
      | Some c \<Rightarrow>
          revoke_slots H revoked is
            (fold (\<lambda>_. mqtt3_context_disconnect H c) (filter (\<lambda>s. s \<in> set revoked) (cert_hashes (ctxs b c))) b))"

definition revoke_certs_run :: "dxl_hooks \<Rightarrow> string list \<Rightarrow> broker \<Rightarrow> broker" where
  "revoke_certs_run H revoked b = revoke_slots H revoked [0..<length (contexts b)] b"

definition send_message_run :: "dxl_hooks \<Rightarrow> string option \<Rightarrow> byte list \<Rightarrow> broker \<Rightarrow> broker" where
  "send_message_run H topic pl b = snd (mqtt3_db_messages_easy_queue H None topic 0 pl False b)"

definition set_connection_limit_run :: "int \<Rightarrow> broker \<Rightarrow> broker" where
  "set_connection_limit_run limit b = b\<lparr>max_connect_count := limit\<rparr>"

definition set_default_bridge_keepalive_run :: "int \<Rightarrow> broker \<Rightarrow> broker" where
  "set_default_bridge_keepalive_run mins b = mqtt3_set_default_bridge_keepalive (mins * 60) b"

section \<open>The queue\<close>

datatype runnable =
    BridgeConfigurationRunner "string option" nat core_bridge_configuration
  | RevokeCertsRunner "string list"
  | SendMessageRunner "string option" "byte list"
  | SetConnectionLimitRunner int
  | SetDefaultBridgeKeepaliveRunner int

fun run_task :: "dxl_hooks \<Rightarrow> runnable \<Rightarrow> broker \<Rightarrow> broker" where
  "run_task H (BridgeConfigurationRunner hostname rnd m) b = bridge_configuration_run H hostname rnd m b"
| "run_task H (RevokeCertsRunner revoked) b = revoke_certs_run H revoked b"
| "run_task H (SendMessageRunner topic pl) b = send_message_run H topic pl b"
| "run_task H (SetConnectionLimitRunner limit) b = set_connection_limit_run limit b"
| "run_task H (SetDefaultBridgeKeepaliveRunner mins) b = set_default_bridge_keepalive_run mins b"

definition runQueue :: "dxl_hooks \<Rightarrow> runnable list \<Rightarrow> broker \<Rightarrow> broker" where
  "runQueue H queue b = fold (run_task H) queue b"

end
