(* ===== verification/Loop_Inv.thy ===== *)
theory Loop_Inv
  imports Runners
begin

text \<open>
  The main loop keeps the invariant of the database. The walk over the contexts with new messages
  returns although disconnecting a client may add to the set it walks; ending sessions frees only
  contexts that nothing refers to any more.
\<close>

section \<open>What a disconnection does to the sets and the wills\<close>

definition grows :: "broker \<Rightarrow> broker \<Rightarrow> bool" where
  "grows b b' \<longleftrightarrow> (\<exists>xs. new_msgs_hash b' = new_msgs_hash b @ xs)"

lemma grows_refl [simp]: "grows b b"
  by (simp add: grows_def)

lemma grows_same: "new_msgs_hash b' = new_msgs_hash b \<Longrightarrow> grows b b'"
  by (simp add: grows_def)

lemma grows_trans: "grows a b \<Longrightarrow> grows b c \<Longrightarrow> grows a c"
  by (auto simp: grows_def)

lemma grows_calm: "calm b b' \<Longrightarrow> grows b b'"
  by (simp add: calm_def grows_def)

interpretation gro: delivery_frame grows
proof unfold_locales
  show "grows b (snd (snd (mqtt3_db_message_store H ctx source mid topic qos pl retain i b)))" for H ctx source mid topic qos pl retain i b
    by (simp add: mqtt3_db_message_store_def Let_def grows_same upd_store_def log_dxl_def)
  show "grows b (mosquitto_add_new_msgs_set c b)" for b c by (simp add: grows_def mosquitto_add_new_msgs_set_def)
qed (auto intro: grows_trans grows_same simp: gen_mid_def split_beta log_dxl_def upd_store_def append_msg_def add_ref_def upd_ctx_def)

text \<open>The contexts that still have a will to publish.\<close>

definition willing :: "broker \<Rightarrow> nat set" where
  "willing b = {c. live b c \<and> will (ctxs b c) \<noteq> None}"

lemma finite_willing: "finite (willing b)"
proof (rule finite_subset)
  show "willing b \<subseteq> the ` set (contexts b)" by (force simp: willing_def live_def image_iff)
qed simp

lemma disconnect_willing:
  assumes "wills_ok b"
  shows "willing (mqtt3_context_disconnect H c b) = willing b - {c}"
    and "d \<noteq> c \<Longrightarrow> queue_only (ctxs b d) (ctxs (mqtt3_context_disconnect H c b) d)"
    and "now (mqtt3_context_disconnect H c b) = now b"
    and "\<not> wsi (ctxs b c) \<Longrightarrow> sock (ctxs (mqtt3_context_disconnect H c b) c) = INVALID_SOCKET"
proof -
  obtain b2 where b2: "bystander b b2" and eq: "mqtt3_context_disconnect H c b =
    (let b4 = upd_ctx c (\<lambda>x. x\<lparr>listener := None\<rparr>) (drop_listener c (upd_ctx c (\<lambda>x. x\<lparr>will := None\<rparr>) b2))
     in upd_ctx c (\<lambda>x. socket_close (x\<lparr>disconnect_t := now b\<rparr>)) b4)"
    by (rule bys.R_disconnect [OF assms])
  have q: "queue_only (ctxs b d) (ctxs b2 d)" "contexts b2 = contexts b" "now b2 = now b" for d using b2 by (simp_all add: bystander_def)
  show "willing (mqtt3_context_disconnect H c b) = willing b - {c}"
    using queue_only_fields [OF q(1)] q(2) by (auto simp: eq willing_def live_def Let_def upd_ctx_def)
  show "d \<noteq> c \<Longrightarrow> queue_only (ctxs b d) (ctxs (mqtt3_context_disconnect H c b) d)"
    using q(1) [of d] by (simp add: eq Let_def upd_ctx_def)
  have "now (drop_listener c a) = now a" for a by (simp add: drop_listener_def split: option.split)
  then show "now (mqtt3_context_disconnect H c b) = now b" using q(3) by (simp add: eq Let_def upd_ctx_def)
  show "\<not> wsi (ctxs b c) \<Longrightarrow> sock (ctxs (mqtt3_context_disconnect H c b) c) = INVALID_SOCKET"
    using queue_only_fields [OF q(1), of c] by (simp add: eq Let_def upd_ctx_def socket_close_def)
qed

lemma disconnect_grows: "wills_ok b \<Longrightarrow> grows b (mqtt3_context_disconnect H c b)"
  by (rule gro.R_disconnect [of b H c]) (simp_all add: grows_def Let_def upd_ctx_def)

lemma disconnect_no_will:
  "will (ctxs b c) = None \<Longrightarrow> new_msgs_hash (mqtt3_context_disconnect H c b) = new_msgs_hash b"
  by (simp add: mqtt3_context_disconnect_def Let_def log_dxl_def upd_ctx_def)

section \<open>Writing queued messages\<close>

lemma write_calm: "outgoing_only b \<Longrightarrow> mqtt3_db_message_write c b = Some r \<Longrightarrow> calm b (snd r) \<and> tame b (snd r)"
proof -
  assume ok: "outgoing_only b" and w: "mqtt3_db_message_write c b = Some r"
  show ?thesis
  proof (cases "IS_CONTEXT_INVALID (ctxs b c) \<or> (cstate (ctxs b c) = mosq_cs_connected \<and> ctx_id (ctxs b c) = None)")
    case True
    then show ?thesis using w by (auto simp: mqtt3_db_message_write_def Let_def split: if_splits)
  next
    case False
    then have l: "message_write_loop c 0 [] (msgs (ctxs b c)) b = Some r"
      using w by (auto simp: mqtt3_db_message_write_def Let_def split: if_splits)
    have o: "outgoing (msgs (ctxs b c))" using ok by (simp add: outgoing_only_def)
    show ?thesis
      using write_loop_rel [OF l o, where R = calm] write_loop_rel [OF l o, where R = tame]
      by (auto intro: calm_trans message_write_step_calm tame_trans message_write_step_tame)
  qed
qed

lemma tame_willing: "tame b b' \<Longrightarrow> willing b' \<subseteq> willing b"
  by (auto simp: tame_def willing_def live_def) (metis option.distinct(1))

text \<open>Either a will has been published, or the set is as it was but for the context at hand.\<close>

definition progress :: "nat \<Rightarrow> broker \<Rightarrow> broker \<Rightarrow> bool" where
  "progress c b b' \<longleftrightarrow> willing b' \<subset> willing b \<or>
     willing b' \<subseteq> willing b \<and> new_msgs_hash b' \<in> {new_msgs_hash b, remove1 c (new_msgs_hash b)}"

lemma write_context_messages_returns:
  assumes ok: "broker_ok b" and c: "live b c"
  obtains b' where "write_context_messages H c b = Some b'" and "keeps b b'" and "grows b b'"
    and "willing b' \<subset> willing b \<or> willing b' \<subseteq> willing b \<and> new_msgs_hash b' = new_msgs_hash b"
proof -
  have out: "outgoing_only b" using ok by (simp add: broker_ok_def)
  have "\<exists>r. message_write_loop c 0 [] (msgs (ctxs b c)) b = Some r"
    using out by (intro message_write_loop_returns) (auto simp: outgoing_only_def outgoing_def incoming_qos2_def)
  then obtain rc b1 where w: "mqtt3_db_message_write c b = Some (rc, b1)"
    by (force simp: mqtt3_db_message_write_def Let_def)
  note cw = write_calm [OF out w, simplified] and kw = keeps_write [OF out w, simplified]
  have dis: "keeps a (mqtt3_context_disconnect H c a) \<and> grows a (mqtt3_context_disconnect H c a) \<and>
      (willing (mqtt3_context_disconnect H c a) \<subset> willing a \<or>
       willing (mqtt3_context_disconnect H c a) \<subseteq> willing a \<and> new_msgs_hash (mqtt3_context_disconnect H c a) = new_msgs_hash a)"
    if a: "broker_ok a" "live a c" for a
  proof -
    have w: "wills_ok a" using a(1) by (simp add: broker_ok_def)
    show ?thesis
      using keeps_disconnect [OF a(1)] disconnect_grows [OF w] disconnect_willing(1) [OF w] disconnect_no_will [of a c H] a(2)
      by (cases "will (ctxs a c) = None") (auto simp: willing_def)
  qed
  have k1: "broker_ok b1" "live b1 c" using keeps_ok [OF kw ok] keeps_live [OF kw] c by simp_all
  have s1: "new_msgs_hash b1 = new_msgs_hash b" "willing b1 \<subseteq> willing b"
    using cw tame_willing by (simp_all add: calm_def)
  have g1: "grows b b1" using cw by (simp add: grows_calm)
  show ?thesis
  proof (cases "keepalive (ctxs b c) = 0 \<or> bridge (ctxs b c) \<noteq> None \<or> now b - last_msg_in (ctxs b c) < int (unat (keepalive (ctxs b c))) * 3 div 2")
    case True
    define b2 where "b2 = (if rc \<noteq> MOSQ_ERR_SUCCESS then mqtt3_context_disconnect H c b1 else b1)"
    have "keeps b b2 \<and> grows b b2" using dis [OF k1] kw g1 keeps_trans [OF kw] grows_trans [OF g1] by (simp add: b2_def)
    moreover have "willing b2 \<subset> willing b \<or> willing b2 \<subseteq> willing b \<and> new_msgs_hash b2 = new_msgs_hash b"
      using dis [OF k1] s1 by (auto simp: b2_def)
    moreover have "write_context_messages H c b = Some b2"
      using True by (simp add: write_context_messages_def Let_def w b2_def)
    ultimately show ?thesis using that by blast
  next
    case False
    then have "write_context_messages H c b = Some (mqtt3_context_disconnect H c b)"
      by (simp add: write_context_messages_def Let_def)
    then show ?thesis using dis [OF ok c] that by blast
  qed
qed

lemma write_message_body_returns:
  assumes ok: "broker_ok b" and c: "live b c"
  obtains b' where "write_message_body H c b = Some b'" and "keeps b b'" and "progress c b b'"
    and "set (new_msgs_hash b) - {c} \<subseteq> set (new_msgs_hash b')"
proof (cases "IS_CONTEXT_INVALID (ctxs b c)")
  case True
  then show ?thesis using that [of b] by (simp add: write_message_body_def progress_def)
next
  case False
  obtain b1 where w: "write_context_messages H c b = Some b1" and k: "keeps b b1" and g: "grows b b1"
    and p: "willing b1 \<subset> willing b \<or> willing b1 \<subseteq> willing b \<and> new_msgs_hash b1 = new_msgs_hash b"
    by (rule write_context_messages_returns [OF ok c])
  define b2 where "b2 = (if msgs (ctxs b1 c) = [] then remove_new_msgs_set c b1 else b1)"
  have r: "willing b2 = willing b1" "new_msgs_hash b2 \<in> {new_msgs_hash b1, remove1 c (new_msgs_hash b1)}" "keeps b1 b2"
    by (simp_all add: b2_def remove_new_msgs_set_def willing_def live_def keeps_remove_set [unfolded remove_new_msgs_set_def])
  have "progress c b b2" using p r(1,2) by (auto simp: progress_def)
  moreover have "set (new_msgs_hash b) - {c} \<subseteq> set (new_msgs_hash b2)" using g r(2) in_set_remove1 [of _ c "new_msgs_hash b1"] unfolding grows_def by fastforce
  ultimately show ?thesis
    using that [of b2] keeps_trans [OF k r(3)] False by (simp add: write_message_body_def w b2_def)
qed

text \<open>The entries from \<open>c\<close> on.\<close>

definition entries_from :: "nat \<Rightarrow> nat list \<Rightarrow> nat" where
  "entries_from c xs = length (dropWhile (\<lambda>x. x \<noteq> c) xs)"

lemma hash_next_split: "hash_next c xs = Some d \<Longrightarrow> \<exists>us vs. xs = us @ c # d # vs \<and> c \<notin> set us"
proof (induction xs)
  case (Cons x xs)
  show ?case
  proof (cases "x = c")
    case True
    then obtain vs where "xs = d # vs" using Cons.prems by (auto split: list.splits)
    then show ?thesis using True by (intro exI [of _ "[]"] exI [of _ vs]) simp
  next
    case False
    then obtain us vs where "xs = us @ c # d # vs" "c \<notin> set us" using Cons by auto
    then show ?thesis using False by (intro exI [of _ "x # us"] exI [of _ vs]) simp
  qed
qed simp

lemma entries_from_next:
  assumes n: "hash_next c xs = Some d" and dis: "distinct xs" and ys: "ys \<in> {xs, remove1 c xs}"
  shows "entries_from d ys < entries_from c xs"
proof -
  obtain us vs where xs: "xs = us @ c # d # vs" "c \<notin> set us" using hash_next_split [OF n] by blast
  then have "d \<notin> set us" "d \<noteq> c" using dis by auto
  then have "entries_from d ys = Suc (length vs)"
    using ys xs by (auto simp: entries_from_def remove1_append dropWhile_append)
  moreover have "entries_from c xs = Suc (Suc (length vs))" using xs by (simp add: entries_from_def dropWhile_append)
  ultimately show ?thesis by simp
qed

lemma write_msgs_walk_returns:
  assumes "broker_ok b" and "cur = None \<or> the cur \<in> set (new_msgs_hash b)"
  shows "\<exists>b'. write_msgs_walk H cur b = Some b' \<and> keeps b b'"
  using assms
proof (induction "(card (willing b), case cur of None \<Rightarrow> 0 | Some c \<Rightarrow> entries_from c (new_msgs_hash b))" arbitrary: cur b
    rule: wf_induct_rule [OF wf_lex_prod [OF wf_less_than wf_less_than]])
  case less: 1
  show ?case
  proof (cases cur)
    case None
    then show ?thesis by (simp add: write_msgs_walk.simps)
  next
    case (Some c)
    have so: "sets_ok b" using less.prems(1) by (simp add: broker_ok_def)
    then have c: "c \<in> set (new_msgs_hash b)" "live b c" using less.prems(2) Some by (auto simp: sets_ok_def)
    obtain b1 where b1: "write_message_body H c b = Some b1" "keeps b b1" "progress c b b1"
        "set (new_msgs_hash b) - {c} \<subseteq> set (new_msgs_hash b1)"
      by (rule write_message_body_returns [OF less.prems(1) c(2)])
    let ?n = "hash_next c (new_msgs_hash b)"
    have n: "?n = None \<or> the ?n \<in> set (new_msgs_hash b1)"
    proof (cases ?n)
      case (Some d)
      obtain us vs where "new_msgs_hash b = us @ c # d # vs" using hash_next_split [OF Some] by blast
      moreover then have "d \<noteq> c" using so by (auto simp: sets_ok_def)
      ultimately show ?thesis using b1(4) Some by auto
    qed simp
    have m: "card (willing b1) < card (willing b) \<or> card (willing b1) \<le> card (willing b) \<and> new_msgs_hash b1 \<in> {new_msgs_hash b, remove1 c (new_msgs_hash b)}"
      using b1(3) psubset_card_mono [OF finite_willing [of b], of "willing b1"] card_mono [OF finite_willing [of b], of "willing b1"]
      unfolding progress_def by blast
    have "((card (willing b1), case ?n of None \<Rightarrow> 0 | Some d \<Rightarrow> entries_from d (new_msgs_hash b1)),
        card (willing b), case cur of None \<Rightarrow> 0 | Some c \<Rightarrow> entries_from c (new_msgs_hash b)) \<in> less_than <*lex*> less_than"
    proof (cases ?n)
      case None
      have "0 < entries_from c (new_msgs_hash b)" using c(1) by (auto simp: entries_from_def)
      then show ?thesis using m None Some by auto
    next
      case (Some d)
      have "distinct (new_msgs_hash b)" using so by (simp add: sets_ok_def)
      then show ?thesis using m entries_from_next [OF Some, of "new_msgs_hash b1"] Some \<open>cur = Some c\<close> by auto
    qed
    from less.hyps [OF this keeps_ok [OF b1(2) less.prems(1)] n]
    obtain b' where "write_msgs_walk H ?n b1 = Some b'" "keeps b1 b'" by blast
    then show ?thesis using keeps_trans [OF b1(2)] by (subst write_msgs_walk.simps) (auto simp: Some b1(1))
  qed
qed

lemma write_message_loop_returns:
  assumes ok: "broker_ok b"
  obtains b' where "write_message_loop H b = Some b'" and "keeps b b'" and "new_clients_hash b' = []"
proof -
  define b1 where "b1 = (if new_client b then (fold remove_new_clients_set (new_clients_hash b) b)\<lparr>new_client := False\<rparr> else b)"
  have f: "fold remove_new_clients_set xs (a\<lparr>new_clients_hash := xs @ ys\<rparr>) = a\<lparr>new_clients_hash := ys\<rparr>" for xs ys a
    by (induction xs) (simp_all add: remove_new_clients_set_def)
  have e: "fold remove_new_clients_set (new_clients_hash b) b = b\<lparr>new_clients_hash := []\<rparr>"
    using f [where a = b and xs = "new_clients_hash b" and ys = "[]"] by simp
  have so: "sets_ok b" using ok by (simp add: broker_ok_def)
  have n: "new_clients_hash b1 = []" using so by (auto simp: b1_def e sets_ok_def)
  have "keeps b b1"
  proof (rule keeps_sets)
    show "tame b b1" "acct b b1" by (simp_all add: b1_def e tame_def acct_def store_ptrs_def ref_of_def stored_msg_def)
    show "sets_ok b1" using so by (auto simp: b1_def e sets_ok_def live_def)
  qed
  moreover obtain b' where b': "write_msgs_walk H (case new_msgs_hash b1 of [] \<Rightarrow> None | c # _ \<Rightarrow> Some c) b1 = Some b'" "keeps b1 b'"
    using write_msgs_walk_returns [OF keeps_ok [OF \<open>keeps b b1\<close> ok], of "case new_msgs_hash b1 of [] \<Rightarrow> None | c # _ \<Rightarrow> Some c" H]
    by (cases "new_msgs_hash b1") auto
  moreover have "new_clients_hash b' = []" using b'(2) keeps_ok [OF \<open>keeps b b1\<close> ok] n by (simp add: keeps_def)
  moreover have "write_message_loop H b = Some b'" using b'(1) by (simp only: write_message_loop_def Let_def b1_def)
  ultimately show ?thesis using that [of b'] keeps_trans [of b b1 b'] by simp
qed

section \<open>Ending sessions\<close>

lemma cleanup_frame:
  "tame b (mqtt3_context_cleanup c do_free False b)" "new_msgs_hash (mqtt3_context_cleanup c do_free False b) = new_msgs_hash b"
  "sets_ok b \<Longrightarrow> c \<notin> set (pending_bytes_hash (mqtt3_context_cleanup c do_free False b))"
proof -
  have del: "tame b (snd (mqtt3_db_messages_delete c b))" "calm b (snd (mqtt3_db_messages_delete c b))" for b
    unfolding mqtt3_db_messages_delete_def snd_conv
    by (rule tame_trans [OF tame_prims(9) tame_upd_ctx], simp) (rule calm_trans [OF calm_prims(9) calm_upd_ctx], simp)
  define b1 where "b1 = cleanup_names c (cleanup_session c False (cleanup_connection c b))"
  have "tame a (cleanup_session c False a) \<and> calm a (cleanup_session c False a)" for a
    using del by (simp add: cleanup_session_def Let_def)
  then have t1: "tame b b1 \<and> calm b b1"
    unfolding b1_def using cleanup_connection_quiet [of b c] cleanup_names_quiet [of "cleanup_session c False (cleanup_connection c b)" c]
    by (metis quiet_def tame_trans calm_trans)
  define b2 where "b2 = cleanup_buffers c b1"
  have t2: "tame b1 b2" "new_msgs_hash b2 = new_msgs_hash b1"
    by (auto simp: b2_def cleanup_buffers_def tame_def mosquitto_remove_pending_bytes_set_def upd_ctx_def store_ptrs_def)
  have p2: "sets_ok b1 \<Longrightarrow> c \<notin> set (pending_bytes_hash b2)"
    by (auto simp: b2_def cleanup_buffers_def mosquitto_remove_pending_bytes_set_def upd_ctx_def sets_ok_def)
  define b3 where "b3 = cleanup_queue c do_free b2"
  have u: "tame a (upd_ctx c f a) \<and> calm a (upd_ctx c f a)" if "f = (\<lambda>x. x\<lparr>packet_count := 0\<rparr>) \<or> f = (\<lambda>x. x\<lparr>wsi := False\<rparr>)" for f a
    using that by (auto intro!: tame_upd_ctx calm_upd_ctx)
  define b2' where "b2' = (if do_free \<or> clean_session (ctxs b2 c)
                then upd_ctx c (\<lambda>x. x\<lparr>packet_count := 0\<rparr>) (snd (mqtt3_db_messages_delete c b2)) else b2)"
  have "tame b2 b2' \<and> calm b2 b2'"
    unfolding b2'_def using u [of "\<lambda>x. x\<lparr>packet_count := 0\<rparr>" "snd (mqtt3_db_messages_delete c b2)"] del [of b2]
    by (auto intro: tame_trans calm_trans)
  moreover have "tame b2' b3 \<and> calm b2' b3"
    unfolding b3_def cleanup_queue_eq Let_def b2'_def [symmetric] using u [of "\<lambda>x. x\<lparr>wsi := False\<rparr>" b2'] by simp
  ultimately have t3: "tame b2 b3 \<and> calm b2 b3" using tame_trans [of b2 b2' b3] calm_trans [of b2 b2' b3] by blast
  have eq: "mqtt3_context_cleanup c do_free False b = b3" by (simp add: mqtt3_context_cleanup_def b1_def b2_def b3_def)
  show "tame b (mqtt3_context_cleanup c do_free False b)" unfolding eq using t1 t2(1) t3 tame_trans by blast
  show "new_msgs_hash (mqtt3_context_cleanup c do_free False b) = new_msgs_hash b" unfolding eq using t1 t2(2) t3 by (simp add: calm_def)
  show "c \<notin> set (pending_bytes_hash (mqtt3_context_cleanup c do_free False b))" if "sets_ok b"
    unfolding eq using p2 calm_sets_ok [of b b1] t1 t3 that by (simp add: calm_def)
qed

text \<open>A context in slot \<open>i\<close> that is ready to be freed: no subscription and no new connection is its.\<close>

definition unused_at :: "broker \<Rightarrow> nat \<Rightarrow> nat \<Rightarrow> bool" where
  "unused_at b i c \<longleftrightarrow> i < length (contexts b) \<and> contexts b ! i = Some c \<and>
     (\<forall>p. \<forall>l \<in> set (subs_at b p). leaf_context l \<noteq> c) \<and> c \<notin> set (new_clients_hash b)"

lemma unused_at_tame:
  assumes "unused_at b i c" and "subs b' = subs b" and "contexts b' ! i = contexts b ! i" and "length (contexts b') = length (contexts b)"
    and "set (new_clients_hash b') \<subseteq> set (new_clients_hash b)"
  shows "unused_at b' i c"
  using assms subs_at_cong [OF assms(2)] by (auto simp: unused_at_def)

lemma clean_one_ok:
  assumes ok: "broker_ok b" and u: "unused_at b i c"
  shows "broker_ok (clean_one c b)" and "subs (clean_one c b) = subs b" and "contexts (clean_one c b) = (contexts b)[i := None]"
    and "set (new_clients_hash (clean_one c b)) \<subseteq> set (new_clients_hash b)"
    and "bridge (ctxs b d) = None \<Longrightarrow> bridge (ctxs (clean_one c b) d) = None"
proof -
  define b1 where "b1 = remove_new_msgs_set c b"
  define b2 where "b2 = mqtt3_context_cleanup c True False b1"
  have so: "sets_ok b" and sl: "slots_ok b" using ok by (simp_all add: broker_ok_def)
  have k: "keeps b b1" "keeps b1 b2" by (simp_all add: b1_def b2_def keeps_remove_set keeps_cleanup)
  have ok1: "broker_ok b1" "broker_ok b2" using keeps_ok [OF k(1) ok] keeps_ok [OF k(2)] by simp_all
  have n: "numericId (ctxs b1 c) = i" using sl u by (simp add: slots_ok_def unused_at_def b1_def remove_new_msgs_set_def)
  have s: "subs b2 = subs b" "contexts b2 = contexts b" "set (new_clients_hash b2) \<subseteq> set (new_clients_hash b)"
    "bridge (ctxs b d) = None \<Longrightarrow> bridge (ctxs b2 d) = None" for d
    using cleanup_frame(1) [of b1 c True] by (auto simp: tame_def b2_def b1_def remove_new_msgs_set_def)
  have "c \<notin> set (new_msgs_hash b2)" using so cleanup_frame(2) [of c True b1] by (simp add: b2_def b1_def remove_new_msgs_set_def sets_ok_def)
  moreover have "c \<notin> set (pending_bytes_hash b2)" using cleanup_frame(3) [of b1 c True] ok1(1) by (simp add: b2_def broker_ok_def)
  moreover have "c \<notin> set (new_clients_hash b2)" using u s(3) by (auto simp: unused_at_def)
  ultimately have "broker_ok (b2\<lparr>contexts := (contexts b2)[i := None]\<rparr>)"
    using u s subs_at_cong [OF s(1)] by (intro broker_ok_free_slot [OF ok1(2)]) (auto simp: unused_at_def)
  moreover have eq: "clean_one c b = b2\<lparr>contexts := (contexts b2)[i := None]\<rparr>" by (simp add: clean_one_def Let_def b1_def [symmetric] b2_def [symmetric] n)
  ultimately show "broker_ok (clean_one c b)" by simp
  show "subs (clean_one c b) = subs b" "contexts (clean_one c b) = (contexts b)[i := None]"
    "set (new_clients_hash (clean_one c b)) \<subseteq> set (new_clients_hash b)"
    "bridge (ctxs b d) = None \<Longrightarrow> bridge (ctxs (clean_one c b) d) = None" unfolding eq using s by simp_all
qed

lemma clean_fold_ok:
  assumes "broker_ok b" and "\<forall>c \<in> set cs. unused_at b (ix c) c" and "distinct cs"
  shows "broker_ok (fold clean_one cs b) \<and> subs (fold clean_one cs b) = subs b \<and>
    contexts (fold clean_one cs b) = fold (\<lambda>c xs. xs[ix c := None]) cs (contexts b) \<and>
    set (new_clients_hash (fold clean_one cs b)) \<subseteq> set (new_clients_hash b) \<and>
    (\<forall>d. bridge (ctxs b d) = None \<longrightarrow> bridge (ctxs (fold clean_one cs b) d) = None)"
  using assms
proof (induction cs arbitrary: b)
  case (Cons c cs)
  have u: "unused_at b (ix c) c" using Cons.prems by simp
  note o = clean_one_ok [OF Cons.prems(1) u]
  have "unused_at (clean_one c b) (ix d) d" if "d \<in> set cs" for d
  proof (rule unused_at_tame [of b])
    show ud: "unused_at b (ix d) d" using Cons.prems that by simp
    have "d \<noteq> c" using that Cons.prems(3) by auto
    then have "ix d \<noteq> ix c" using u ud by (auto simp: unused_at_def)
    then show "contexts (clean_one c b) ! ix d = contexts b ! ix d" "length (contexts (clean_one c b)) = length (contexts b)"
      by (simp_all add: o(3))
  qed (use o in auto)
  then show ?case using Cons.IH [OF o(1)] Cons.prems(3) o by auto
qed simp

lemma clear_entries:
  assumes "\<forall>c \<in> set cs. ix c < length xs \<and> xs ! ix c = Some c"
    and "\<forall>i < length xs. \<forall>c. xs ! i = Some c \<longrightarrow> c \<in> set cs \<longrightarrow> i = ix c" and "distinct cs"
  shows "fold (\<lambda>c xs. xs[ix c := None]) cs xs = map (\<lambda>s. if s \<in> Some ` set cs then None else s) xs"
  using assms
proof (induction cs arbitrary: xs)
  case (Cons c cs)
  let ?xs = "xs[ix c := None]"
  have ne: "ix d \<noteq> ix c" if d: "d \<in> set cs" for d
  proof
    assume "ix d = ix c"
    moreover have "xs ! ix d = Some d" "xs ! ix c = Some c" using Cons.prems(1) d by simp_all
    ultimately have "d = c" by (metis option.inject)
    then show False using d Cons.prems(3) by simp
  qed
  have "fold (\<lambda>c xs. xs[ix c := None]) cs ?xs = map (\<lambda>s. if s \<in> Some ` set cs then None else s) ?xs"
  proof (rule Cons.IH)
    show "\<forall>d \<in> set cs. ix d < length ?xs \<and> ?xs ! ix d = Some d" using Cons.prems(1) ne nth_list_update_neq [of "ix c" _ xs None] by fastforce
    show "\<forall>i < length ?xs. \<forall>d. ?xs ! i = Some d \<longrightarrow> d \<in> set cs \<longrightarrow> i = ix d"
    proof (intro allI impI)
      fix i d assume "i < length ?xs" "?xs ! i = Some d" "d \<in> set cs"
      moreover from this have "i \<noteq> ix c" by auto
      ultimately show "i = ix d" using Cons.prems(2) by simp
    qed
  qed (use Cons.prems(3) in simp)
  moreover have "map (\<lambda>s. if s \<in> Some ` set cs then None else s) ?xs = map (\<lambda>s. if s \<in> Some ` set (c # cs) then None else s) xs"
  proof (rule nth_equalityI)
    fix i assume i: "i < length (map (\<lambda>s. if s \<in> Some ` set cs then None else s) ?xs)"
    have "xs ! i = Some c \<longleftrightarrow> i = ix c" using Cons.prems(1,2) i by auto
    then show "map (\<lambda>s. if s \<in> Some ` set cs then None else s) ?xs ! i = map (\<lambda>s. if s \<in> Some ` set (c # cs) then None else s) xs ! i"
      using i by (cases "i = ix c") simp_all
  qed simp
  ultimately show ?case by simp
qed simp

lemma clean_sessions_ok:
  assumes ok: "broker_ok b" and m: "\<forall>c \<in> set cs. live b c \<and> clean_subs (ctxs b c)" and d: "distinct cs"
    and n: "\<forall>c \<in> set cs. c \<notin> set (new_clients_hash b)"
  shows "broker_ok (clean_sessions cs b)" and "set (new_clients_hash (clean_sessions cs b)) \<subseteq> set (new_clients_hash b)"
    and "contexts (clean_sessions cs b) = map (\<lambda>s. if s \<in> Some ` set cs then None else s) (contexts b)"
    and "bridge (ctxs b e) = None \<Longrightarrow> bridge (ctxs (clean_sessions cs b) e) = None"
proof -
  let ?b = "snd (mqtt3_subs_clean_session b)"
  define ix where "ix = (\<lambda>c. numericId (ctxs b c))"
  have k: "keeps b ?b" by (rule keeps_clean_session)
  have l: "ix c < length (contexts b) \<and> contexts b ! ix c = Some c" if "live b c" for c
    using that broker_ok_parts(3) [OF ok] unfolding live_def in_set_conv_nth slots_ok_def ix_def by metis
  have c: "contexts ?b = contexts b" "set (new_clients_hash ?b) \<subseteq> set (new_clients_hash b)"
    "bridge (ctxs b e) = None \<Longrightarrow> bridge (ctxs ?b e) = None" for e
    using k ok by (simp_all add: keeps_def)
  have "subs_at ?b p = filter (stays b) (subs_at b p)" for p
    by (rule subs_clean_session_table(3) [OF broker_ok_parts(2) [OF ok] prod.collapse [symmetric]])
  then have u: "\<forall>c \<in> set cs. unused_at ?b (ix c) c" using m n l c by (auto simp: unused_at_def stays_def)
  note f = clean_fold_ok [OF keeps_ok [OF k ok] u d]
  have "\<forall>i < length (contexts b). \<forall>c. contexts b ! i = Some c \<longrightarrow> c \<in> set cs \<longrightarrow> i = ix c"
    using broker_ok_parts(3) [OF ok] by (simp add: slots_ok_def ix_def)
  then have "fold (\<lambda>c xs. xs[ix c := None]) cs (contexts b) = map (\<lambda>s. if s \<in> Some ` set cs then None else s) (contexts b)"
    using l m d by (intro clear_entries) blast+
  then show "broker_ok (clean_sessions cs b)" "set (new_clients_hash (clean_sessions cs b)) \<subseteq> set (new_clients_hash b)"
    "contexts (clean_sessions cs b) = map (\<lambda>s. if s \<in> Some ` set cs then None else s) (contexts b)"
    "bridge (ctxs b e) = None \<Longrightarrow> bridge (ctxs (clean_sessions cs b) e) = None"
    using ok f c by (auto simp: clean_sessions_def map_idI)
qed

section \<open>Maintenance\<close>

lemma works_disconnect: "broker_ok b \<Longrightarrow> works c b (mqtt3_context_disconnect H c b)"
proof -
  assume ok: "broker_ok b"
  let ?b = "mqtt3_context_disconnect H c b"
  have w: "wills_ok b" and k: "keeps b ?b" using ok keeps_disconnect [OF ok] by (simp_all add: broker_ok_def)
  have "standing (ctxs ?b d) = standing (ctxs b d)" if "d \<noteq> c" for d
    using queue_only_fields [OF disconnect_willing(2) [OF w that, of H]] that by (simp add: standing_def)
  then show ?thesis using k disconnect_willing(3) [OF w] by (simp add: works_def apart_def)
qed

lemma works_connected:
  assumes ok: "broker_ok b"
  shows "works c b (maintain_connected H e c b)"
proof -
  define b1 where "b1 = (if bridge (ctxs b c) \<noteq> None then
                  (let b1 = mosquitto_check_keepalive c b;
                       b2 = (if sock (ctxs b1 c) = INVALID_SOCKET then log_dxl (dxl_bridge_disconnected c) b1 else b1)
                   in checkPrimaryBridge (be_primary e) c b2)
                else b)"
  have w1: "works c b b1"
    unfolding b1_def Let_def
    using works_trans [OF works_check_keepalive works_check_primary]
      works_trans [OF works_trans [OF works_check_keepalive works_log] works_check_primary] by simp
  then have "works c b (mqtt3_context_disconnect H c b1)" using works_trans works_disconnect [OF works_ok [OF w1 ok]] by blast
  then show ?thesis using w1 unfolding maintain_connected_def Let_def b1_def [unfolded Let_def, symmetric] by simp
qed

lemma works_timeout: "works c b (snd (mqtt3_db_message_timeout_check c n b))"
  by (simp add: works_def keeps_timeout) (simp add: mqtt3_db_message_timeout_check_def)

text \<open>The connections that have been silent for one and a half keepalive periods, and the sessions that
  have ended with their connection.\<close>

definition timed_out :: "broker \<Rightarrow> nat \<Rightarrow> bool" where
  "timed_out b c \<longleftrightarrow> \<not> IS_CONTEXT_INVALID (ctxs b c) \<and> bridge (ctxs b c) = None \<and> keepalive (ctxs b c) \<noteq> 0 \<and>
     now b - last_msg_in (ctxs b c) \<ge> int (unat (keepalive (ctxs b c))) * 3 div 2"

definition session_ended :: "broker \<Rightarrow> nat \<Rightarrow> bool" where
  "session_ended b c \<longleftrightarrow> IS_CONTEXT_INVALID (ctxs b c) \<and> bridge (ctxs b c) = None \<and> clean_session (ctxs b c)"

lemma apart_standing:
  assumes "apart c b b'" and "d \<noteq> c"
  shows "timed_out b' d = timed_out b d" and "session_ended b' d = session_ended b d"
  using apartD [OF assms] assms(1) by (simp_all add: timed_out_def session_ended_def IS_CONTEXT_INVALID_def apart_def)

lemma maintain_context_works:
  assumes ok: "broker_ok b" and c: "live b c"
  shows "works c b (snd (maintain_context H e c b))" and "fst (maintain_context H e c b) = session_ended b c"
    and "session_ended b c \<Longrightarrow> clean_subs (ctxs (snd (maintain_context H e c b)) c)"
    and "timed_out b c \<Longrightarrow> \<not> wsi (ctxs b c) \<Longrightarrow> sock (ctxs (snd (maintain_context H e c b)) c) = INVALID_SOCKET"
proof -
  define r where "r = (if \<not> IS_CONTEXT_INVALID (ctxs b c) then (False, maintain_connected H e c b)
             else if bridge (ctxs b c) \<noteq> None then
               (False, restart_bridge_connection H (be_restart e) (be_conn e) (be_enotconn e) c b)
             else if clean_session (ctxs b c) then (True, upd_ctx c (\<lambda>x. x\<lparr>clean_subs := True\<rparr>) b)
             else (False, b))"
  have eq: "maintain_context H e c b = (fst r, if msgs (ctxs (snd r) c) \<noteq> [] then snd (mqtt3_db_message_timeout_check c (retry_interval (snd r)) (snd r)) else snd r)"
    by (simp only: maintain_context_def r_def [symmetric] Let_def split_beta)
  have t: "clean_subs (ctxs (snd (mqtt3_db_message_timeout_check c n a)) c) = clean_subs (ctxs a c)"
    "sock (ctxs (snd (mqtt3_db_message_timeout_check c n a)) c) = sock (ctxs a c)" for n a
    by (simp_all add: mqtt3_db_message_timeout_check_def set_msgs_def upd_ctx_def)
  have "plain (\<lambda>x. x\<lparr>clean_subs := True\<rparr>)" by (simp add: plain_def)
  then have w: "works c b (snd r)"
    using works_connected [OF ok] works_restart [OF ok c] works_plain by (simp add: r_def)
  then show "works c b (snd (maintain_context H e c b))" using works_trans [OF w works_timeout] by (simp add: eq)
  show "fst (maintain_context H e c b) = session_ended b c" by (simp add: eq r_def session_ended_def)
  show "clean_subs (ctxs (snd (maintain_context H e c b)) c)" if "session_ended b c"
    using that t by (simp add: eq) (simp add: session_ended_def r_def upd_ctx_def)
  show "sock (ctxs (snd (maintain_context H e c b)) c) = INVALID_SOCKET" if o: "timed_out b c" "\<not> wsi (ctxs b c)"
  proof -
    have "snd r = mqtt3_context_disconnect H c b" using o(1) by (simp add: r_def timed_out_def maintain_connected_def Let_def)
    then have "sock (ctxs (snd r) c) = INVALID_SOCKET" using disconnect_willing(4) [OF broker_ok_parts(6) [OF ok] o(2)] by simp
    then show ?thesis using t by (simp add: eq)
  qed
qed

definition ended_in :: "broker \<Rightarrow> nat list \<Rightarrow> nat list" where
  "ended_in b is = List.map_filter (\<lambda>i. case slot b i of Some c \<Rightarrow> if session_ended b c then Some c else None | None \<Rightarrow> None) is"

lemma ended_in_simps: "ended_in b [] = []"
  "ended_in b (i # is) = (case slot b i of Some c \<Rightarrow> if session_ended b c then c # ended_in b is else ended_in b is | None \<Rightarrow> ended_in b is)"
  by (simp_all add: ended_in_def List.map_filter_simps split: option.split)

lemma ended_in_set: "c \<in> set (ended_in b is) \<longleftrightarrow> session_ended b c \<and> (\<exists>i \<in> set is. slot b i = Some c)"
  by (induction "is") (auto simp: ended_in_simps split: option.split)

lemma ended_in_cong: "(\<And>i. slot b' i = slot b i) \<Longrightarrow> (\<And>i c. i \<in> set is \<Longrightarrow> slot b i = Some c \<Longrightarrow> session_ended b' c = session_ended b c) \<Longrightarrow>
    ended_in b' is = ended_in b is"
  by (induction "is") (auto simp: ended_in_simps split: option.split)

text \<open>The loop over the slots collects exactly the ended sessions, each once and marked, so that the array
  \<^verbatim>\<open>sessions_to_clean\<close>, which has as many entries as there are slots, is large enough.\<close>

lemma maintain_slots_ok:
  assumes "broker_ok b" and "distinct is" and "\<forall>c \<in> set cs. clean_subs (ctxs b c) \<and> (\<forall>i \<in> set is. slot b i \<noteq> Some c)"
    and "maintain_slots H E is cs b = (cs', b')"
  shows "keeps b b' \<and> cs' = cs @ ended_in b is \<and> (\<forall>c \<in> set cs'. clean_subs (ctxs b' c)) \<and>
    (\<forall>i \<in> set is. \<forall>c. slot b i = Some c \<longrightarrow> timed_out b c \<longrightarrow> \<not> wsi (ctxs b c) \<longrightarrow> sock (ctxs b' c) = INVALID_SOCKET) \<and>
    (\<forall>c. (\<forall>i \<in> set is. slot b i \<noteq> Some c) \<longrightarrow> standing (ctxs b' c) = standing (ctxs b c))"
  using assms
proof (induction H E "is" cs b rule: maintain_slots.induct)
  case (2 H E i "is" cs b)
  show ?case
  proof (cases "slot b i")
    case None
    have "maintain_slots H E is cs b = (cs', b')" using "2.prems"(4) None by simp
    then show ?thesis using "2.IH"(1) [OF None "2.prems"(1)] "2.prems"(2,3) None by (simp add: ended_in_simps)
  next
    case (Some c)
    obtain clean b1 where r: "maintain_context H (E i) c b = (clean, b1)" by fastforce
    let ?cs = "if clean then cs @ [c] else cs"
    have l: "live b c" by (rule slot_live [OF Some])
    note w = maintain_context_works [OF "2.prems"(1) l, of H "E i", unfolded r, simplified]
    have k: "keeps b b1" and ap: "apart c b b1" using w(1) by (simp_all add: works_def)
    have sl: "slot b1 j = slot b j" for j by (rule keeps_slot [OF k])
    have ne: "d \<noteq> c" if "d \<in> set cs" for d using "2.prems"(3) that Some by auto
    have uniq: "slot b j \<noteq> Some c" if "j \<in> set is" for j
      using slot_numericId [OF "2.prems"(1), of j c] slot_numericId [OF "2.prems"(1) Some] "2.prems"(2) that by auto
    have same_end: "ended_in b1 is = ended_in b is" 
    proof (rule ended_in_cong [OF sl])
      fix j d assume "j \<in> set is" "slot b j = Some d"
      then have "d \<noteq> c" using uniq by blast
      then show "session_ended b1 d = session_ended b d" by (rule apart_standing(2) [OF ap])
    qed
    have ih: "keeps b1 b' \<and> cs' = ?cs @ ended_in b1 is \<and> (\<forall>c \<in> set cs'. clean_subs (ctxs b' c)) \<and>
      (\<forall>i \<in> set is. \<forall>c. slot b1 i = Some c \<longrightarrow> timed_out b1 c \<longrightarrow> \<not> wsi (ctxs b1 c) \<longrightarrow> sock (ctxs b' c) = INVALID_SOCKET) \<and>
      (\<forall>c. (\<forall>i \<in> set is. slot b1 i \<noteq> Some c) \<longrightarrow> standing (ctxs b' c) = standing (ctxs b1 c))"
    proof (rule "2.IH"(2) [OF Some r [symmetric] refl])
      show "broker_ok b1" by (rule keeps_ok [OF k "2.prems"(1)])
      show "distinct is" using "2.prems"(2) by simp
      show "maintain_slots H E is ?cs b1 = (cs', b')" using "2.prems"(4) by (simp add: Some r)
      have "clean_subs (ctxs b1 d)" if "d \<in> set ?cs" for d
        using that w(2,3) apartD [OF ap] ne "2.prems"(3) by (cases "d = c") (auto split: if_splits)
      moreover have "\<forall>j \<in> set is. slot b1 j \<noteq> Some d" if "d \<in> set ?cs" for d
        using that uniq "2.prems"(3) sl by (auto split: if_splits)
      ultimately show "\<forall>d \<in> set ?cs. clean_subs (ctxs b1 d) \<and> (\<forall>j \<in> set is. slot b1 j \<noteq> Some d)" by blast
    qed
    have "standing (ctxs b' c) = standing (ctxs b1 c)" using ih uniq sl by simp
    then have out: "sock (ctxs b' c) = INVALID_SOCKET" if "timed_out b c" "\<not> wsi (ctxs b c)" using w(4) [OF that] by (simp add: standing_def)
    have tm: "sock (ctxs b' d) = INVALID_SOCKET" if "j \<in> set is" "slot b j = Some d" "timed_out b d" "\<not> wsi (ctxs b d)" for j d
    proof -
      have "d \<noteq> c" using uniq that(1,2) by auto
      then show ?thesis using ih that sl apart_standing(1) [OF ap] apartD [OF ap] by auto
    qed
    have stay: "standing (ctxs b' d) = standing (ctxs b d)" if "\<forall>j \<in> set (i # is). slot b j \<noteq> Some d" for d
      using ih that sl ap Some by (auto simp: apart_def)
    show ?thesis using ih keeps_trans [OF k] out tm stay w(2) same_end Some by (auto simp: ended_in_simps)
  qed
qed (simp add: ended_in_simps)

lemma cleanup_other: "d \<noteq> c \<Longrightarrow> ctxs (mqtt3_context_cleanup c do_free False b) d = ctxs b d"
proof -
  assume d: "d \<noteq> c"
  have u: "ctxs (upd_ctx c f a) d = ctxs a d" for f a using d by (simp add: upd_ctx_def)
  have dl: "ctxs (drop_listener c a) = ctxs a" for a by (simp add: drop_listener_def split: option.split)
  have dr: "ctxs (drop_refs xs a) = ctxs a" for xs a by (induction xs arbitrary: a) (simp_all add: add_ref_def upd_store_def)
  have rm: "ctxs (mqtt3_db_remove_canonical_client_id i a) = ctxs a" for i a
    by (simp add: mqtt3_db_remove_canonical_client_id_def Let_def split: option.split)
  have lg: "ctxs (log_dxl ev a) = ctxs a" for ev a by (simp add: log_dxl_def)
  have "ctxs (cleanup_connection c a) d = ctxs a d" for a by (simp add: cleanup_connection_def Let_def u dl)
  moreover have "ctxs (cleanup_session c False a) d = ctxs a d" for a
    by (simp add: cleanup_session_def mqtt3_db_messages_delete_def Let_def u dr)
  moreover have "ctxs (cleanup_names c a) d = ctxs a d" for a
    by (simp add: cleanup_names_def mqtt3_context_cleanup_certs_def Let_def u rm lg split: option.split)
  moreover have "ctxs (cleanup_buffers c a) d = ctxs a d" for a
    by (simp add: cleanup_buffers_def mosquitto_remove_pending_bytes_set_def u)
  moreover have "ctxs (cleanup_queue c do_free a) d = ctxs a d" for a by (simp add: cleanup_queue_def Let_def u dr)
  ultimately show ?thesis by (simp add: mqtt3_context_cleanup_def)
qed

lemma clean_sessions_other: "d \<notin> set cs \<Longrightarrow> broker_ok b \<Longrightarrow> standing (ctxs (clean_sessions cs b) d) = standing (ctxs b d)"
proof -
  assume d: "d \<notin> set cs" and ok: "broker_ok b"
  have "ctxs (fold clean_one xs e) d = ctxs e d" if "d \<notin> set xs" for xs e
    using that by (induction xs arbitrary: e) (simp_all add: clean_one_def Let_def cleanup_other remove_new_msgs_set_def)
  then show ?thesis using d apart_clean_session [OF ok, of "Suc d"] by (simp add: clean_sessions_def apart_def)
qed

lemma maintenance_ok:
  assumes ok: "broker_ok b" and n: "new_clients_hash b = []"
  shows "broker_ok (maintenance_loop H E b)" and "new_clients_hash (maintenance_loop H E b) = []"
    and "contexts (maintenance_loop H E b) = map (\<lambda>s. case s of Some c \<Rightarrow> if session_ended b c then None else Some c | None \<Rightarrow> None) (contexts b)"
    and "live b c \<Longrightarrow> timed_out b c \<Longrightarrow> \<not> wsi (ctxs b c) \<Longrightarrow> sock (ctxs (maintenance_loop H E b) c) = INVALID_SOCKET"
proof -
  let ?is = "[0..<length (contexts b)]"
  obtain cs b1 where r: "maintain_slots H E ?is [] b = (cs, b1)" by fastforce
  note m = maintain_slots_ok [OF ok _ _ r, simplified]
  have k: "keeps b b1" and cs: "cs = ended_in b ?is" and cl: "\<forall>c \<in> set cs. clean_subs (ctxs b1 c)" using m by blast+
  have ok1: "broker_ok b1" by (rule keeps_ok [OF k ok])
  have n1: "new_clients_hash b1 = []" using k ok n by (simp add: keeps_def)
  have eq: "maintenance_loop H E b = clean_sessions cs b1" by (simp add: maintenance_loop_def r)
  have mem: "c \<in> set cs \<longleftrightarrow> session_ended b c \<and> live b c" for c
  proof -
    have "live b c \<longleftrightarrow> (\<exists>i < length (contexts b). slot b i = Some c)" by (auto simp: live_def slot_def in_set_conv_nth)
    then show ?thesis unfolding cs ended_in_set by auto
  qed
  then have lv: "\<forall>c \<in> set cs. live b1 c \<and> clean_subs (ctxs b1 c)" using cl keeps_live [OF k] by blast
  have "distinct (ended_in b is)" if "distinct is" for "is"
    using that
  proof (induction "is")
    case (Cons i "is")
    then show ?case using slot_numericId [OF ok] by (auto simp: ended_in_simps ended_in_set split: option.split)
  qed (simp add: ended_in_simps)
  then have d: "distinct cs" by (simp add: cs)
  note c = clean_sessions_ok [OF ok1 lv d, simplified n1, simplified]
  show "broker_ok (maintenance_loop H E b)" "new_clients_hash (maintenance_loop H E b) = []" unfolding eq using c(1,2) n1 by simp_all
  show "contexts (maintenance_loop H E b) = map (\<lambda>s. case s of Some c \<Rightarrow> if session_ended b c then None else Some c | None \<Rightarrow> None) (contexts b)"
  proof -
    have "contexts b1 = contexts b" using k by (simp add: keeps_def)
    moreover have "(s \<in> Some ` set cs \<longrightarrow> None = f s) \<and> (s \<notin> Some ` set cs \<longrightarrow> s = f s)"
      if "s \<in> set (contexts b)" "f = (\<lambda>s. case s of Some c \<Rightarrow> if session_ended b c then None else Some c | None \<Rightarrow> None)" for s f
    proof (cases s)
      case (Some d)
      then have "d \<in> set cs \<longleftrightarrow> session_ended b d" using mem that(1) by (simp add: live_def)
      then show ?thesis using Some that(2) by auto
    qed (use that(2) in auto)
    ultimately show ?thesis unfolding eq c(3) by (intro map_cong) auto
  qed
  show "sock (ctxs (maintenance_loop H E b) c) = INVALID_SOCKET" if "live b c" "timed_out b c" "\<not> wsi (ctxs b c)" for c
  proof -
    have "c \<notin> set cs" using mem that(2) by (auto simp: session_ended_def timed_out_def)
    moreover have "\<exists>i < length (contexts b). slot b i = Some c" using that(1) by (auto simp: live_def slot_def in_set_conv_nth)
    then have "sock (ctxs b1 c) = INVALID_SOCKET" using m that by auto
    ultimately show ?thesis using clean_sessions_other [OF _ ok1, of c cs] by (simp add: eq standing_def)
  qed
qed

section \<open>Reading and writing\<close>

lemma keeps_handle_write:
  assumes ok: "broker_ok b"
  shows "keeps b (handle_write H e c b)"
proof -
  obtain rc b' where r: "with_ctx c (packet_write (now b)) b = (rc, b')" by fastforce
  have k: "keeps b b'" using keeps_send [of "packet_write (now b)" b c] packet_write_io_only r by simp
  then have "keeps b (mqtt3_context_disconnect H c b')" using keeps_trans keeps_disconnect [OF keeps_ok [OF k ok]] by blast
  then show ?thesis using k by (simp add: handle_write_def Let_def r)
qed

lemma handle_read_returns:
  assumes ok: "broker_ok b" and c: "live b c"
  shows "\<exists>b'. handle_read H ne e c b = Some b' \<and> keeps b b'"
proof -
  obtain rc inp b' where r: "packet_read H c False (ce_left e) (ce_input e) b = Some (rc, inp, b')" and k: "keeps b b'"
    using packet_read_keeps [OF ok c] by blast
  have "keeps b (mqtt3_context_disconnect H c b')" using k keeps_trans keeps_disconnect [OF keeps_ok [OF k ok]] by blast
  then show ?thesis using k by (simp add: handle_read_def Let_def r)
qed

lemma pending_walk_returns:
  assumes "broker_ok b"
  shows "(\<exists>b'. pending_walk H P cs b = Some (Inr b') \<and> keeps b b') \<or> (\<exists>d. pending_walk H P cs b = Some (Inl d) \<and> d \<in> set cs \<and> length cs > 1)"
  using assms
proof (induction H P cs b rule: pending_walk.induct)
  case (2 H P c cs b)
  show ?case
  proof (cases "c \<in> set (pending_bytes_hash b)")
    case True
    then have "live b c" using "2.prems" by (auto simp: broker_ok_def sets_ok_def)
    then obtain b1 where r: "handle_read H True (P c) c b = Some b1" and k: "keeps b b1"
      using handle_read_returns [OF "2.prems"] using "2.prems" by blast
    show ?thesis
    proof (cases "find (\<lambda>d. d \<in> set (pending_bytes_hash b)) cs")
      case (Some d)
      then have d: "d \<in> set cs" by (auto simp: find_Some_iff)
      show ?thesis
      proof (cases "d \<in> set (pending_bytes_hash b1)")
        case False
        then show ?thesis using True r Some d by (cases cs) auto
      next
        case dT: True
        have eq: "pending_walk H P (c # cs) b = pending_walk H P cs b1" using True r Some dT by simp
        show ?thesis
          unfolding eq using "2.IH"(2) [OF _ r Some] True dT keeps_ok [OF k "2.prems"] keeps_trans [OF k] by fastforce
      qed
    qed (use True r k in simp)
  qed (use 2 in \<open>auto split: if_splits\<close>)
qed simp

lemma handle_events_returns:
  assumes "broker_ok b"
  shows "\<exists>b'. handle_events H es b = Some b' \<and> keeps b b'"
  using assms
proof (induction H es b rule: handle_events.induct)
  case (2 H i e es b)
  show ?case
  proof (cases "slot b i")
    case None
    then show ?thesis using 2 by simp
  next
    case (Some c)
    have k1: "keeps b (handle_write H e c b)" by (rule keeps_handle_write [OF "2.prems"])
    have "live (handle_write H e c b) c" using slot_live [OF Some] keeps_live [OF k1] by simp
    then obtain b2 where r: "handle_read H False e c (handle_write H e c b) = Some b2" and k2: "keeps (handle_write H e c b) b2"
      using handle_read_returns [OF keeps_ok [OF k1 "2.prems"]] by blast
    have k: "keeps b b2" by (rule keeps_trans [OF k1 k2])
    let ?b3 = "if sock (ctxs b2 c) \<noteq> INVALID_SOCKET \<and> ce_hup e then do_disconnect H c b2 else b2"
    have "keeps b2 ?b3" using keeps_disconnect [OF keeps_ok [OF k "2.prems"]] by (simp add: do_disconnect_def)
    then have k3: "keeps b ?b3" by (rule keeps_trans [OF k])
    then obtain b' where "handle_events H es ?b3 = Some b'" "keeps ?b3 b'"
      using "2.IH"(2) [OF Some r] keeps_ok [OF k3 "2.prems"] by blast
    then show ?thesis using keeps_trans [OF k3] by (simp add: Some r)
  qed
qed simp

end
