(* ===== verification/Main_Loop.thy ===== *)
theory Main_Loop
  imports Loop_Inv
begin

text \<open>
  The iteration of \<^verbatim>\<open>mosquitto_main_loop\<close> of src/mqtt-core/src/loop.c and the properties of whole runs of
  the broker: whatever the network, the clients and the bridges do, every iteration returns and leaves
  the database in order.
\<close>

section \<open>An iteration\<close>

record loop_env =
  le_time :: int
  le_bridges :: "nat \<Rightarrow> bridge_env"
  le_pending :: "nat \<Rightarrow> conn_env"
  le_events :: "(nat \<times> conn_env) list option"
  le_accepts :: "(int \<times> accept_env list) list"
  le_tasks :: "runnable list"

text \<open>\<open>le_events\<close> is \<open>None\<close> when \<^verbatim>\<open>epoll_pwait\<close> fails. The clock is read once in an iteration.\<close>

definition loop_iteration :: "dxl_hooks \<Rightarrow> listener_conf list \<Rightarrow> bool \<Rightarrow> bool \<Rightarrow> loop_env \<Rightarrow> broker \<Rightarrow> outcome option" where
  "loop_iteration H L maintenance sweep e b =
     (case write_message_loop H (b\<lparr>now := le_time e\<rparr>) of None \<Rightarrow> None
      | Some b1 \<Rightarrow>
          let b2 = (if maintenance then log_dxl (dxl_maintenance (le_time e)) (maintenance_loop H (le_bridges e) b1) else b1);
              r = (case le_events e of None \<Rightarrow> Some (Inr b2)
                   | Some es \<Rightarrow>
                       (case loop_handle_reads_writes H (le_pending e) es b2 of None \<Rightarrow> None | Some (Inl d) \<Rightarrow> Some (Inl d)
                        | Some (Inr b3) \<Rightarrow> Some (Inr (fold (\<lambda>(s, as). accept_all L s as) (le_accepts e) b3))))
          in case r of None \<Rightarrow> None | Some (Inl d) \<Rightarrow> Some (Inl d)
             | Some (Inr b4) \<Rightarrow> Some (Inr (runQueue H (le_tasks e) (if sweep then mqtt3_db_store_clean b4 else b4))))"

text \<open>The two clocks of the loop: when the maintenance is due, and when the store was last swept.\<close>

record loop_timers =
  do_maintenance :: int
  last_store_clean :: int

definition sweep_due :: "int \<Rightarrow> int \<Rightarrow> loop_timers \<Rightarrow> bool" where
  "sweep_due interval t T \<longleftrightarrow> interval = 0 \<or> last_store_clean T + interval < t"

definition next_timers :: "int \<Rightarrow> int \<Rightarrow> loop_timers \<Rightarrow> loop_timers" where
  "next_timers interval t T =
     \<lparr>do_maintenance = (if t \<ge> do_maintenance T then t + 10 else do_maintenance T),
      last_store_clean = (if sweep_due interval t T then t else last_store_clean T)\<rparr>"

text \<open>The loop runs until it is told to stop; a run of it is a list of environments.\<close>

fun mosquitto_main_loop ::
  "dxl_hooks \<Rightarrow> listener_conf list \<Rightarrow> loop_env list \<Rightarrow> loop_timers \<Rightarrow> broker \<Rightarrow> outcome option" where
  "mosquitto_main_loop H L [] T b = Some (Inr b)"
| "mosquitto_main_loop H L (e # es) T b =
     (case loop_iteration H L (le_time e \<ge> do_maintenance T) (sweep_due (store_clean_interval b) (le_time e) T) e b of
        None \<Rightarrow> None | Some (Inl d) \<Rightarrow> Some (Inl d)
      | Some (Inr b') \<Rightarrow> mosquitto_main_loop H L es (next_timers (store_clean_interval b) (le_time e) T) b')"

section \<open>Accepting connections\<close>

text \<open>New connections are not bridges.\<close>

definition newcomers_plain :: "broker \<Rightarrow> bool" where
  "newcomers_plain b \<longleftrightarrow> (\<forall>c \<in> set (new_clients_hash b). bridge (ctxs b c) = None)"

lemma keeps_newcomers: "keeps b b' \<Longrightarrow> broker_ok b \<Longrightarrow> newcomers_plain b \<Longrightarrow> newcomers_plain b'"
  by (auto simp: newcomers_plain_def keeps_def)

lemma keeps_join: "keeps b (join_listener c i b)"
proof -
  have "same_state b (b\<lparr>listener_client_count := f\<rparr>)" for f by (simp add: same_state_def)
  then show ?thesis
    unfolding join_listener_def by (intro keeps_trans [OF quiet_keeps [OF quiet_same_state] keeps_plain]) (simp_all add: plain_def)
qed

lemma find_listener_frame: "keeps b (find_listener L s c b) \<and> next_ptr (find_listener L s c b) = next_ptr b"
proof -
  have "keeps b (fold (\<lambda>i b. if on_listener s (L ! i) then join_listener c i b else b) is b) \<and>
      next_ptr (fold (\<lambda>i b. if on_listener s (L ! i) then join_listener c i b else b) is b) = next_ptr b" for "is"
  proof (induction "is" arbitrary: b)
    case (Cons i "is")
    define b1 where "b1 = (if on_listener s (L ! i) then join_listener c i b else b)"
    have "keeps b b1" "next_ptr b1 = next_ptr b" by (simp_all add: b1_def keeps_join) (simp add: join_listener_def upd_ctx_def)
    then show ?case using Cons.IH [of b1] keeps_trans [of b b1] by (simp only: fold_simps(2) o_apply b1_def [symmetric])
  qed simp
  then show ?thesis by (simp add: find_listener_def)
qed

lemma keeps_cleanup_unused: "keeps b (cleanup_unused c b)"
  unfolding cleanup_unused_def
  by (rule keeps_trans [OF quiet_keeps [OF cleanup_connection_quiet] keeps_trans [OF quiet_keeps [OF cleanup_names_quiet]
      keeps_trans [OF keeps_cleanup_buffers keeps_cleanup_queue]]])

lemma add_new_context_frame:
  "set (new_clients_hash (snd (mqtt3_db_add_new_context c b))) \<subseteq> insert c (set (new_clients_hash b))"
  "bridge (ctxs (snd (mqtt3_db_add_new_context c b)) d) = bridge (ctxs b d)"
  by (auto simp: mqtt3_db_add_new_context_def mosquitto_add_new_clients_set_def upd_ctx_def Let_def)

lemma socket_accept_ok:
  assumes ok: "broker_ok b" and n: "newcomers_plain b"
  shows "broker_ok (snd (mqtt3_socket_accept L s a b)) \<and> newcomers_plain (snd (mqtt3_socket_accept L s a b))"
proof (cases "ae_nonblock a \<and> \<not> (ae_sock a \<noteq> -1 \<and> ae_peer a = None)")
  case False
  then show ?thesis using assms by (auto simp: mqtt3_socket_accept_def mqtt3_context_init_def)
next
  case True
  then obtain c b1 where i: "mqtt3_context_init (ae_sock a) (ae_peer a) b = (Some c, b1)" by (auto simp: mqtt3_context_init_def)
  note f = broker_ok_context_init [OF ok i]
  have n1: "newcomers_plain b1" and c1: "bridge (ctxs b1 c) = None"
    using n i by (auto simp: mqtt3_context_init_def newcomers_plain_def zero_context_def split: if_splits)
  define b2 where "b2 = find_listener L s c b1"
  have k2: "keeps b1 b2" "next_ptr b2 = next_ptr b1" using find_listener_frame by (simp_all add: b2_def)
  define b2' where "b2' = upd_ctx c (\<lambda>x. x\<lparr>ssl := True\<rparr>) b2"
  have "keeps b2 b2'" unfolding b2'_def by (rule keeps_plain) (simp add: plain_def)
  then have k2': "keeps b1 b2'" by (rule keeps_trans [OF k2(1)])
  have drop: "broker_ok (cleanup_unused c e) \<and> newcomers_plain (cleanup_unused c e)" if "keeps b1 e" for e
    using keeps_trans [OF that keeps_cleanup_unused] keeps_ok keeps_newcomers f(1) n1 by blast
  have add: "broker_ok (snd (mqtt3_db_add_new_context c e)) \<and> newcomers_plain (snd (mqtt3_db_add_new_context c e))"
    if e: "keeps b1 e" "next_ptr e = next_ptr b1" for e
  proof -
    have "newcomers_plain e" "bridge (ctxs e c) = None" using keeps_newcomers [OF e(1) f(1) n1] e(1) f(1) c1 by (auto simp: keeps_def)
    then have "newcomers_plain (snd (mqtt3_db_add_new_context c e))"
      using add_new_context_frame [of c e] by (auto simp: newcomers_plain_def)
    moreover have "\<not> live e c" "c < next_ptr e" using keeps_live [OF e(1)] f(3,4) e(2) by auto
    ultimately show ?thesis using broker_ok_add_new_context [OF keeps_ok [OF e(1) f(1)]] by simp
  qed
  have nx: "next_ptr b2' = next_ptr b1" using k2(2) by (simp add: b2'_def upd_ctx_def)
  show ?thesis
    using True drop [OF k2(1)] drop [OF k2'] add [OF k2] add [OF k2' nx]
    unfolding mqtt3_socket_accept_def i prod.case option.case Let_def b2_def [symmetric] b2'_def [symmetric]
    by (auto simp: split_beta split: option.split)
qed

lemma accept_all_ok:
  "broker_ok b \<Longrightarrow> newcomers_plain b \<Longrightarrow> broker_ok (accept_all L s as b) \<and> newcomers_plain (accept_all L s as b)"
proof (induction as arbitrary: b)
  case (Cons a as)
  obtain rc b' where r: "mqtt3_socket_accept L s a b = (rc, b')" by fastforce
  then have "broker_ok b' \<and> newcomers_plain b'" using socket_accept_ok [OF Cons.prems, of L s a] by simp
  then show ?case using Cons.IH [of b'] by (simp add: r)
qed simp

lemma accepts_ok:
  "broker_ok b \<Longrightarrow> newcomers_plain b \<Longrightarrow>
   broker_ok (fold (\<lambda>(s, as). accept_all L s as) xs b) \<and> newcomers_plain (fold (\<lambda>(s, as). accept_all L s as) xs b)"
  by (induction xs arbitrary: b) (auto simp: accept_all_ok)

section \<open>The work queue\<close>

definition reconfigures :: "runnable \<Rightarrow> bool" where
  "reconfigures t \<longleftrightarrow> (case t of BridgeConfigurationRunner _ _ _ \<Rightarrow> True | _ \<Rightarrow> False)"

text \<open>A bridge configuration names a broker to start with.\<close>

fun task_ok :: "runnable \<Rightarrow> bool" where
  "task_ok (BridgeConfigurationRunner _ _ m) \<longleftrightarrow> cbc_primary m \<le> length (cbc_brokers m)"
| "task_ok _ \<longleftrightarrow> True"

lemma keeps_disconnect_fold: "broker_ok b \<Longrightarrow> keeps b (fold (\<lambda>_. mqtt3_context_disconnect H c) xs b)"
proof (induction xs arbitrary: b)
  case (Cons x xs)
  have k: "keeps b (mqtt3_context_disconnect H c b)" by (rule keeps_disconnect [OF Cons.prems])
  show ?case using keeps_trans [OF k Cons.IH [OF keeps_ok [OF k Cons.prems]]] by simp
qed simp

lemma keeps_revoke: "broker_ok b \<Longrightarrow> keeps b (revoke_slots H revoked is b)"
proof (induction "is" arbitrary: b)
  case (Cons i "is")
  show ?case
  proof (cases "slot b i")
    case (Some c)
    let ?b = "fold (\<lambda>_. mqtt3_context_disconnect H c) (filter (\<lambda>s. s \<in> set revoked) (cert_hashes (ctxs b c))) b"
    have k: "keeps b ?b" by (rule keeps_disconnect_fold [OF Cons.prems])
    show ?thesis using keeps_trans [OF k Cons.IH [OF keeps_ok [OF k Cons.prems]]] by (simp add: Some)
  qed (use Cons in simp)
qed simp

lemma keeps_task:
  assumes ok: "broker_ok b" and "\<not> reconfigures t"
  shows "keeps b (run_task H t b)"
proof -
  have "same_state b (b\<lparr>max_connect_count := n\<rparr>)" "same_state b (b\<lparr>default_bridge_keepalive := n\<rparr>)" for n
    by (simp_all add: same_state_def)
  then have "keeps b (b\<lparr>max_connect_count := n\<rparr>)" "keeps b (b\<lparr>default_bridge_keepalive := n\<rparr>)" for n
    using quiet_keeps [OF quiet_same_state] by blast+
  then show ?thesis
    using assms keeps_revoke [OF ok] keeps_easy_queue [OF ok]
    by (cases t) (simp_all add: reconfigures_def revoke_certs_run_def send_message_run_def set_connection_limit_run_def
        set_default_bridge_keepalive_run_def mqtt3_set_default_bridge_keepalive_def)
qed

lemma clear_one_ok:
  fixes H
  assumes ok: "broker_ok b" and n: "newcomers_plain b" and c: "live b c" "bridge (ctxs b c) \<noteq> None"
  defines "b' \<equiv> clean_session_at c (mqtt3_context_disconnect H c (upd_ctx c (\<lambda>x. x\<lparr>clean_session := True\<rparr>) b))"
  shows "broker_ok b'" and "newcomers_plain b'"
proof -
  let ?b1 = "upd_ctx c (\<lambda>x. x\<lparr>clean_session := True\<rparr>) b"
  let ?b2 = "mqtt3_context_disconnect H c ?b1"
  let ?b3 = "upd_ctx c (\<lambda>x. x\<lparr>clean_subs := True\<rparr>) ?b2"
  have k1: "keeps b ?b1" by (rule keeps_plain) (simp add: plain_def)
  have k2: "keeps b ?b2" by (rule keeps_trans [OF k1 keeps_disconnect [OF keeps_ok [OF k1 ok]]])
  have "keeps ?b2 ?b3" by (rule keeps_plain) (simp add: plain_def)
  then have k3: "keeps b ?b3" by (rule keeps_trans [OF k2])
  have "c \<notin> set (new_clients_hash b)" using n c(2) by (auto simp: newcomers_plain_def)
  then have nc: "c \<notin> set (new_clients_hash ?b3)" using k3 ok by (auto simp: keeps_def)
  have m: "\<forall>d \<in> set [c]. live ?b3 d \<and> clean_subs (ctxs ?b3 d)" using keeps_live [OF k3] c(1) by (simp add: upd_ctx_def)
  note cl = clean_sessions_ok [OF keeps_ok [OF k3 ok] m]
  show "broker_ok b'" using cl(1) nc by (simp add: b'_def clean_session_at_def)
  have "newcomers_plain ?b3" by (rule keeps_newcomers [OF k3 ok n])
  then show "newcomers_plain b'"
    using cl(2) [simplified, OF nc] cl(4) [simplified, OF nc] by (auto simp: newcomers_plain_def b'_def clean_session_at_def)
qed

lemma clear_slots_ok: "broker_ok b \<Longrightarrow> newcomers_plain b \<Longrightarrow> broker_ok (clear_slots H is b)"
proof (induction "is" arbitrary: b)
  case (Cons i "is")
  show ?case
  proof (cases "slot b i")
    case (Some c)
    then show ?thesis using Cons clear_one_ok [OF Cons.prems slot_live [OF Some]] by (auto simp: Some)
  qed (use Cons in simp)
qed simp

lemma configured_bridge_ok:
  "isEnabled m \<Longrightarrow> cbc_primary m \<le> length (cbc_brokers m) \<Longrightarrow> bridge_ok (configured_bridge rnd m)"
  using initial_index_in_range [of m rnd]
  by (auto simp: isEnabled_def bridge_ok_def configured_bridge_def mqtt3_config_add_bridge_def pound_last_def sub_topic_tokenise_eq next_char_def)

lemma reconfigure_ok:
  assumes ok: "broker_ok b" and n: "newcomers_plain b" and t: "task_ok (BridgeConfigurationRunner hostname rnd m)"
  shows "broker_ok (bridge_configuration_run H hostname rnd m b)"
proof -
  have c: "broker_ok (clearCurrentBridges H b)" unfolding clearCurrentBridges_def by (rule clear_slots_ok [OF ok n])
  obtain rc b' where "mqtt3_bridge_new hostname (configured_bridge rnd m) (clearCurrentBridges H b) = (rc, b')" by fastforce
  then show ?thesis
    using c bridge_new_ok(1) [OF c configured_bridge_ok] t by (auto simp: bridge_configuration_run_def Let_def)
qed

text \<open>One reconfiguration of the bridges in a run of the queue.\<close>

lemma runQueue_ok:
  assumes "broker_ok b" and "newcomers_plain b" and "list_all task_ok ts" and "length (filter reconfigures ts) \<le> 1"
  shows "broker_ok (runQueue H ts b)"
  using assms
proof (induction ts arbitrary: b)
  case (Cons t ts)
  have rest: "broker_ok (fold (run_task H) xs e)" if "broker_ok e" "filter reconfigures xs = []" for xs e
    using that
  proof (induction xs arbitrary: e)
    case (Cons x xs)
    then show ?case using keeps_ok [OF keeps_task] by (auto split: if_splits)
  qed simp
  show ?case
  proof (cases "reconfigures t")
    case True
    then obtain hostname rnd m where t: "t = BridgeConfigurationRunner hostname rnd m" by (cases t) (auto simp: reconfigures_def)
    have "broker_ok (run_task H t b)" using reconfigure_ok [OF Cons.prems(1,2)] Cons.prems(3) by (auto simp: t)
    then show ?thesis using rest [of "run_task H t b" ts] Cons.prems(4) True by (simp add: runQueue_def)
  next
    case False
    have k: "keeps b (run_task H t b)" by (rule keeps_task [OF Cons.prems(1) False])
    have "broker_ok (runQueue H ts (run_task H t b))"
      using Cons.prems False by (intro Cons.IH keeps_ok [OF k] keeps_newcomers [OF k]) auto
    then show ?thesis by (simp add: runQueue_def)
  qed
qed (simp add: runQueue_def)

section \<open>Iterations\<close>

lemma keeps_now: "keeps b (b\<lparr>now := t\<rparr>)"
  by (rule quiet_keeps [OF quiet_same_state]) simp

definition env_ok :: "loop_env \<Rightarrow> bool" where
  "env_ok e \<longleftrightarrow> list_all task_ok (le_tasks e) \<and> length (filter reconfigures (le_tasks e)) \<le> 1"

text \<open>A good state, or a walk that met a freed entry; that takes two contexts with pending bytes.\<close>

definition outcome_ok :: "outcome \<Rightarrow> bool" where
  "outcome_ok r \<longleftrightarrow> (case r of Inr b \<Rightarrow> broker_ok b
     | Inl (d, b) \<Rightarrow> broker_ok b \<and> d \<in> set (pending_bytes_hash b) \<and> 1 < length (pending_bytes_hash b))"

lemma loop_iteration_returns:
  assumes ok: "broker_ok b" and e: "env_ok e"
  shows "\<exists>r. loop_iteration H L maintenance sweep e b = Some r \<and> outcome_ok r"
proof -
  let ?b0 = "b\<lparr>now := le_time e\<rparr>"
  obtain b1 where w: "write_message_loop H ?b0 = Some b1" and k1: "keeps ?b0 b1" and n1: "new_clients_hash b1 = []"
    by (rule write_message_loop_returns [OF keeps_ok [OF keeps_now ok]])
  have ok1: "broker_ok b1" by (rule keeps_ok [OF k1 keeps_ok [OF keeps_now ok]])
  define b2 where "b2 = (if maintenance then log_dxl (dxl_maintenance (le_time e)) (maintenance_loop H (le_bridges e) b1) else b1)"
  have ok2: "broker_ok b2" "newcomers_plain b2"
    using keeps_ok [OF quiet_keeps [OF quiet_same_state [OF same_state_updates(1)]] maintenance_ok(1) [OF ok1 n1]] maintenance_ok(2) [OF ok1 n1] ok1 n1
    by (simp_all add: b2_def newcomers_plain_def log_dxl_def)
  have finish: "broker_ok (runQueue H (le_tasks e) (if sweep then mqtt3_db_store_clean b4 else b4))"
    if "broker_ok b4" "newcomers_plain b4" for b4
    using that broker_ok_store_clean [OF that(1)] e
    by (intro runQueue_ok) (auto simp: env_ok_def newcomers_plain_def store_clean_frame)
  show ?thesis
  proof (cases "le_events e")
    case None
    then show ?thesis using finish [OF ok2] unfolding outcome_ok_def loop_iteration_def w option.case Let_def b2_def [symmetric] by simp
  next
    case (Some es)
    have step: "(\<exists>b3. loop_handle_reads_writes H (le_pending e) es b2 = Some (Inr b3) \<and> keeps b2 b3) \<or>
        (\<exists>d. loop_handle_reads_writes H (le_pending e) es b2 = Some (Inl (d, b2)) \<and> d \<in> set (pending_bytes_hash b2) \<and>
           1 < length (pending_bytes_hash b2))"
    proof (cases "\<exists>b'. pending_walk H (le_pending e) (pending_bytes_hash b2) b2 = Some (Inr b') \<and> keeps b2 b'")
      case True
      then obtain b' where p: "pending_walk H (le_pending e) (pending_bytes_hash b2) b2 = Some (Inr b')" and k: "keeps b2 b'" by blast
      obtain b3 where "handle_events H es b' = Some b3" "keeps b' b3" using handle_events_returns [OF keeps_ok [OF k ok2(1)]] by blast
      then show ?thesis using keeps_trans [OF k] by (simp add: loop_handle_reads_writes_def p)
    next
      case False
      then show ?thesis
        using pending_walk_returns [OF ok2(1), of H "le_pending e" "pending_bytes_hash b2"] by (auto simp: loop_handle_reads_writes_def)
    qed
    then show ?thesis
    proof
      assume "\<exists>b3. loop_handle_reads_writes H (le_pending e) es b2 = Some (Inr b3) \<and> keeps b2 b3"
      then obtain b3 where r: "loop_handle_reads_writes H (le_pending e) es b2 = Some (Inr b3)" and k: "keeps b2 b3" by blast
      have "broker_ok b3" "newcomers_plain b3" using keeps_ok [OF k ok2(1)] keeps_newcomers [OF k ok2] by blast+
      then have "broker_ok (fold (\<lambda>(s, as). accept_all L s as) (le_accepts e) b3)"
        "newcomers_plain (fold (\<lambda>(s, as). accept_all L s as) (le_accepts e) b3)" using accepts_ok by blast+
      then show ?thesis
        using finish unfolding outcome_ok_def loop_iteration_def w option.case Let_def b2_def [symmetric] by (simp add: Some r)
    qed (use Some ok2 in \<open>auto simp: outcome_ok_def loop_iteration_def w b2_def [symmetric] Let_def\<close>)
  qed
qed

lemma main_loop_returns:
  assumes "broker_ok b" and "\<forall>e \<in> set es. env_ok e"
  shows "\<exists>r. mosquitto_main_loop H L es T b = Some r \<and> outcome_ok r"
  using assms
proof (induction es arbitrary: T b)
  case Nil
  then show ?case by (simp add: outcome_ok_def)
next
  case (Cons e es)
  obtain r where r: "loop_iteration H L (le_time e \<ge> do_maintenance T) (sweep_due (store_clean_interval b) (le_time e) T) e b = Some r" and o: "outcome_ok r"
    using loop_iteration_returns [OF Cons.prems(1)] Cons.prems(2) by fastforce
  show ?case
  proof (cases r)
    case (Inr b')
    then have "broker_ok b'" using o by (simp add: outcome_ok_def)
    then show ?thesis using Cons by (simp add: r Inr)
  qed (use r o in auto)
qed

section \<open>The properties of runs\<close>


definition quiet_env :: loop_env where
  "quiet_env = \<lparr>le_time = 5,
     le_bridges = (\<lambda>_. \<lparr>be_restart = Check_nothing, be_primary = Check_nothing, be_conn = Inl MOSQ_ERR_EAI, be_enotconn = False\<rparr>),
     le_pending = (\<lambda>_. \<lparr>ce_readable = False, ce_writable = False, ce_hup = False, ce_left = False, ce_input = []\<rparr>),
     le_events = Some [(0, \<lparr>ce_readable = True, ce_writable = True, ce_hup = True, ce_left = False, ce_input = [Rd_data [0x30, 0x04, 0x00], Rd_data [0x01, 0x61, 0x62]]\<rparr>)],
     le_accepts = [(3, [\<lparr>ae_sock = 9, ae_nonblock = True, ae_peer = Some ''10.0.0.1'', ae_tls_ok = True\<rparr>])],
     le_tasks = [SendMessageRunner (Some ''a'') [1], BridgeConfigurationRunner (Some ''h'') 3 (createConfiguration sample_fabric ''b3'')]\<rparr>"


section \<open>The limit of a listener\<close>

lemma find_listener_unique:
  assumes "i < length L" and "on_listener s (L ! i)" and "\<forall>j < length L. on_listener s (L ! j) \<longrightarrow> j = i"
  shows "find_listener L s c b = join_listener c i b"
proof -
  let ?f = "\<lambda>i b. if on_listener s (L ! i) then join_listener c i b else b"
  have none: "fold ?f js b = b" if "\<forall>j \<in> set js. \<not> on_listener s (L ! j)" for js b using that by (induction js) simp_all
  have "[0..<length L] = [0..<i] @ i # [Suc i..<length L]" using assms(1) upt_add_eq_append [of 0 i "length L - i"] by (simp add: upt_conv_Cons)
  moreover have "\<not> on_listener s (L ! j)" if "j < length L" "j \<noteq> i" for j using assms(3) that by blast
  then have "\<forall>j \<in> set [0..<i]. \<not> on_listener s (L ! j)" "\<forall>j \<in> set [Suc i..<length L]. \<not> on_listener s (L ! j)"
    using assms(1) by simp_all
  ultimately show ?thesis using none assms(2) by (simp add: find_listener_def)
qed

lemma drop_refs_listeners [simp]: "listener_client_count (drop_refs ms b) = listener_client_count b"
  by (induction ms b rule: drop_refs.induct) (simp_all add: add_ref_def upd_store_def)

lemma cleanup_listeners:
  "listener_client_count (cleanup_names c b) = listener_client_count b"
  "listener_client_count (cleanup_buffers c b) = listener_client_count b"
  "listener_client_count (cleanup_queue c do_free b) = listener_client_count b"
  by (auto simp: cleanup_names_def cleanup_buffers_def cleanup_queue_def mqtt3_db_remove_canonical_client_id_def Let_def upd_ctx_def log_dxl_def
      mqtt3_context_cleanup_certs_def mosquitto_remove_pending_bytes_set_def split: option.split)

lemma cleanup_unused_leaves:
  "sock (ctxs b c) \<noteq> -1 \<Longrightarrow> listener (ctxs b c) = Some i \<Longrightarrow>
   listener_client_count (cleanup_unused c b) = (listener_client_count b)(i := listener_client_count b i - 1)"
  by (simp add: cleanup_unused_def cleanup_listeners cleanup_connection_def Let_def upd_ctx_def drop_listener_def)

text \<open>C27. Accepting a connection counts it on its listener, and a listener with a limit never has more
  clients than the limit allows: a connection that would exceed it is turned away and leaves the counts
  as they were. The listening sockets belong to one listener each.\<close>

theorem accept_respects_max_connections:
  assumes i: "i < length L" "on_listener s (L ! i)" "\<forall>j < length L. on_listener s (L ! j) \<longrightarrow> j = i" and a: "ae_sock a \<noteq> -1"
    and r: "mqtt3_socket_accept L s a b = (rc, b')"
  shows "listener_client_count b' =
      (if rc = -1 then listener_client_count b else (listener_client_count b)(i := listener_client_count b i + 1)) \<and>
    (rc \<noteq> -1 \<and> max_connections (L ! i) > 0 \<longrightarrow> listener_client_count b' i \<le> max_connections (L ! i))"
proof (cases "ae_nonblock a \<and> ae_peer a \<noteq> None")
  case False
  then have "mqtt3_socket_accept L s a b = (-1, b)"
    using a by (cases "ae_nonblock a") (simp_all add: mqtt3_socket_accept_def mqtt3_context_init_def)
  then show ?thesis using r by simp
next
  case True
  obtain c b1 where c: "mqtt3_context_init (ae_sock a) (ae_peer a) b = (Some c, b1)" using True by (auto simp: mqtt3_context_init_def)
  define b2 where "b2 = join_listener c i b1"
  have b1: "listener_client_count b1 = listener_client_count b" "sock (ctxs b1 c) = ae_sock a"
    using c by (auto simp: mqtt3_context_init_def split: if_splits)
  have b2: "listener (ctxs b2 c) = Some i" "sock (ctxs b2 c) = ae_sock a"
      "listener_client_count b2 = (listener_client_count b)(i := listener_client_count b i + 1)"
    using b1 by (simp_all add: b2_def join_listener_def upd_ctx_def)
  have u: "listener_client_count (cleanup_unused c b2) = listener_client_count b"
      "listener_client_count (cleanup_unused c (upd_ctx c (\<lambda>x. x\<lparr>ssl := True\<rparr>) b2)) = listener_client_count b"
    using b2 a by (simp_all add: cleanup_unused_leaves upd_ctx_def)
  have n: "fst (mqtt3_db_add_new_context c e) = 0" "listener_client_count (snd (mqtt3_db_add_new_context c e)) = listener_client_count e" for e
    by (simp_all add: mqtt3_db_add_new_context_def mosquitto_add_new_clients_set_def upd_ctx_def Let_def)
  have s: "listener_client_count (upd_ctx c f e) = listener_client_count e" for f e by (simp add: upd_ctx_def)
  show ?thesis
    using r True a u b2(3) n s
    unfolding mqtt3_socket_accept_def c prod.case option.case Let_def find_listener_unique [OF i] b2_def [symmetric] b2(1)
    by (auto simp: split_beta split: if_splits)
qed

theorem accept_respects_max_connections_witness:
  "fst (mqtt3_socket_accept [\<lparr>socks = [3], max_connections = 1, lst_tls = False\<rparr>] 3
      \<lparr>ae_sock = 9, ae_nonblock = True, ae_peer = Some ''10.0.0.1'', ae_tls_ok = True\<rparr>
      (zero_broker\<lparr>listener_client_count := (\<lambda>_. 1)\<rparr>)) = -1"
proof -
  let ?L = "[\<lparr>socks = [3], max_connections = 1, lst_tls = False\<rparr>]"
  let ?a = "\<lparr>ae_sock = 9, ae_nonblock = True, ae_peer = Some ''10.0.0.1'', ae_tls_ok = True\<rparr>"
  let ?b = "zero_broker\<lparr>listener_client_count := (\<lambda>_. 1)\<rparr>"
  obtain rc b' where r: "mqtt3_socket_accept ?L 3 ?a ?b = (rc, b')" by fastforce
  have o: "0 < length ?L" "on_listener 3 (?L ! 0)" "\<forall>j < length ?L. on_listener 3 (?L ! j) \<longrightarrow> j = 0" "ae_sock ?a \<noteq> -1"
    by (simp_all add: on_listener_def)
  have "listener_client_count ?b = (\<lambda>_. 1)" by simp
  then have "rc = -1" using accept_respects_max_connections [OF o r] by (cases "rc = -1") auto
  then show ?thesis by (simp add: r)
qed

section \<open>Addresses of bridges\<close>

text \<open>C28. A bridge only ever tries an address it has: after an attempt to restart it and after the check
  of a primary address, the current and the primary index are inside the list of addresses.\<close>

theorem bridge_addresses_in_bounds:
  assumes "broker_ok b" and "live b c"
    and "b' = restart_bridge_connection H status conn enotconn c b \<or> b' = checkPrimaryBridge status c b"
    and "bridge (ctxs b' c) = Some br"
  shows "cur_address br < length (addresses br) \<and> cur_primary_address br < length (addresses br) \<and>
    cur_addr br (cur_address br) = addresses br ! cur_address br"
proof -
  have "broker_ok b'" using assms(3) works_ok [OF works_restart [OF assms(1,2)] assms(1)] works_ok [OF works_check_primary assms(1)] by blast
  from bridge_ok_at [OF this assms(4)] show ?thesis by (simp add: bridge_ok_def cur_addr_def)
qed

definition two_brokers :: core_bridge_configuration where
  "two_brokers = (new_configuration ''hub'')\<lparr>cbc_brokers := [\<lparr>bb_guid = ''x'', bb_host = ''b1'', bb_port = 8883\<rparr>,
     \<lparr>bb_guid = ''y'', bb_host = ''b2'', bb_port = 8883\<rparr>]\<rparr>"

theorem bridge_addresses_in_bounds_witness:
  "\<exists>b c br. broker_ok b \<and> bridge (ctxs (restart_bridge_connection permissive_hooks Check_busy (Inl MOSQ_ERR_EAI) False c b) c) = Some br \<and>
     cur_address br = 0 \<and> addresses br ! cur_address br = (''b1'', 8883)"
proof -
  let ?br = "configured_bridge 5 two_brokers"
  have ok: "bridge_ok ?br" by (rule configured_bridge_ok) (simp_all add: two_brokers_def new_configuration_def isEnabled_def)
  obtain b where n: "mqtt3_bridge_new (Some ''h'') ?br sample_conn = (MOSQ_ERR_NO_CONN, b)"
    by (simp add: mqtt3_bridge_new_def configured_bridge_def mqtt3_config_add_bridge_def mqtt3_context_init_def Let_def)
  note f = bridge_new_ok [OF sample_conn_ok ok n]
  let ?c = "next_ptr sample_conn"
  have br: "bridge (ctxs b ?c) = Some (?br\<lparr>try_private_accepted := True\<rparr>)" and l: "live b ?c" using f(2) by simp_all
  let ?b = "restart_bridge_connection permissive_hooks Check_busy (Inl MOSQ_ERR_EAI) False ?c b"
  have e: "bridge (ctxs ?b ?c) = Some (restart_rotate (now b) (?br\<lparr>try_private_accepted := True\<rparr>))"
    by (simp add: restart_bridge_connection_def Let_def upd_bridge_def upd_ctx_def br restart_check_def)
      (simp add: restart_rotate_def next_address_def configured_bridge_def mqtt3_config_add_bridge_def Let_def)
  have "cur_address (restart_rotate (now b) (?br\<lparr>try_private_accepted := True\<rparr>)) = 0"
      "addresses (restart_rotate (now b) (?br\<lparr>try_private_accepted := True\<rparr>)) = [(''b1'', 8883), (''b2'', 8883)]"
    by (simp_all add: restart_rotate_def next_address_def configured_bridge_def mqtt3_config_add_bridge_def two_brokers_def
        new_configuration_def getInitialBrokerIndex_def isRoundRobin_def numeral_2_eq_2 [symmetric])
  moreover note bridge_addresses_in_bounds [OF f(1) l disjI1 [OF refl] e]
  ultimately show ?thesis using f(1) e by (intro exI [of _ b] exI [of _ ?c]) simp
qed

section \<open>Maintenance\<close>

text \<open>C5. The maintenance of the sessions is exact. It frees the slot of every client that is disconnected and
  asked for a clean session, and of no other; it disconnects every client that has been silent for one and a half times
  its keepalive, its socket being closed afterwards (a WebSocket is closed by its own callbacks); and the
  database stays in order. The clients whose first messages are still to be written have been served
  before it runs.\<close>

theorem maintenance_ends_exactly_the_dead_sessions:
  assumes "broker_ok b" and "new_clients_hash b = []"
  shows "broker_ok (maintenance_loop H E b) \<and>
    contexts (maintenance_loop H E b) =
      map (\<lambda>s. case s of None \<Rightarrow> None | Some c \<Rightarrow> if session_ended b c then None else Some c) (contexts b) \<and>
    (\<forall>c. live b c \<and> timed_out b c \<and> \<not> wsi (ctxs b c) \<longrightarrow> sock (ctxs (maintenance_loop H E b) c) = INVALID_SOCKET)"
  using maintenance_ok [OF assms] by blast

definition silent_client :: broker where
  "silent_client = (upd_ctx 0 (\<lambda>x. x\<lparr>keepalive := 60, sock := 7, wsi := False, clean_session := True\<rparr>) sample_conn)\<lparr>now := 90\<rparr>"

theorem maintenance_ends_exactly_the_dead_sessions_witness:
  "\<exists>b. b = maintenance_loop permissive_hooks (le_bridges quiet_env) silent_client \<and> contexts b = [Some 0] \<and> sock (ctxs b 0) = INVALID_SOCKET"
proof -
  have "plain (\<lambda>x. x\<lparr>keepalive := 60, sock := 7, wsi := False, clean_session := True\<rparr>)" by (simp add: plain_def)
  then have "keeps sample_conn silent_client" unfolding silent_client_def by (rule keeps_trans [OF keeps_plain keeps_now])
  then have ok: "broker_ok silent_client" and l: "live silent_client 0"
    using keeps_ok sample_conn_ok keeps_live sample_conn_live by blast+
  have n: "new_clients_hash silent_client = []" and c: "contexts silent_client = [Some 0]"
    and t: "timed_out silent_client 0" "\<not> wsi (ctxs silent_client 0)" "\<not> session_ended silent_client 0"
    by (simp_all add: silent_client_def sample_conn_def sample_table_def sample_broker_def zero_broker_def zero_context_def
        upd_ctx_def timed_out_def session_ended_def IS_CONTEXT_INVALID_def)
  show ?thesis using maintenance_ends_exactly_the_dead_sessions [OF ok n] l c t by simp
qed

end
