(* ===== verification/Clients.thy ===== *)
theory Clients
  imports Handlers_Inv Delivery "HOL-Library.Multiset"
begin

text \<open>
  Who is connected. The table of canonical client ids of database.c is an implementation of a
  multiset, stated as the interface \<open>id_counter\<close>; a CONNECT that is not authorised leaves no trace in
  the tables and in the broker library; the sweep of the message store frees what nobody refers to.
\<close>

section \<open>The canonical ids as a multiset\<close>

datatype id_op = Id_add string | Id_remove string

fun id_step :: "(string \<Rightarrow> 'b \<Rightarrow> 'b) \<Rightarrow> (string \<Rightarrow> 'b \<Rightarrow> 'b) \<Rightarrow> id_op \<Rightarrow> 'b \<Rightarrow> 'b" where
  "id_step add remove (Id_add i) b = add i b"
| "id_step add remove (Id_remove i) b = remove i b"

locale id_counter =
  fixes ok :: "'b \<Rightarrow> bool" and ids :: "'b \<Rightarrow> string multiset"
    and add remove :: "string \<Rightarrow> 'b \<Rightarrow> 'b" and number :: "string \<Rightarrow> 'b \<Rightarrow> int"
  assumes add_ok: "ok b \<Longrightarrow> ok (add i b)" and remove_ok: "ok b \<Longrightarrow> ok (remove i b)"
    and ids_add: "ok b \<Longrightarrow> ids (add i b) = add_mset i (ids b)"
    and ids_remove: "ok b \<Longrightarrow> ids (remove i b) = ids b - {#i#}"
    and number_ids: "ok b \<Longrightarrow> number i b = (if i \<in># ids b then int (count (ids b) i) else -1)"
begin

lemma run_refines:
  "ok b \<Longrightarrow> ok (fold (id_step add remove) ops b) \<and>
     ids (fold (id_step add remove) ops b) = fold (id_step (\<lambda>i M. add_mset i M) (\<lambda>i M. M - {#i#})) ops (ids b)"
proof (induction ops arbitrary: b)
  case (Cons p ops)
  then show ?case by (cases p) (simp_all add: add_ok remove_ok ids_add ids_remove)
qed simp

lemma number_after:
  "ok b \<Longrightarrow> number i (fold (id_step add remove) ops b) =
     (let M = fold (id_step (\<lambda>i M. add_mset i M) (\<lambda>i M. M - {#i#})) ops (ids b) in if i \<in># M then int (count M i) else -1)"
  using run_refines [of b ops] by (simp add: number_ids Let_def)

end

definition canon_ok :: "broker \<Rightarrow> bool" where
  "canon_ok b \<longleftrightarrow> distinct (map fst (canonical_client_id_index_hash b)) \<and> (\<forall>e \<in> set (canonical_client_id_index_hash b). snd e > 0)"

fun ids_of :: "(string \<times> int) list \<Rightarrow> string multiset" where
  "ids_of [] = {#}"
| "ids_of ((k, v) # es) = replicate_mset (nat v) k + ids_of es"

definition canonical_ids :: "broker \<Rightarrow> string multiset" where
  "canonical_ids b = ids_of (canonical_client_id_index_hash b)"

lemma bump_keys: "map fst (bump k n es) = map fst es"
  by (induction k n es rule: bump.induct) auto

lemma ids_of_absent: "k \<notin> fst ` set es \<Longrightarrow> count (ids_of es) k = 0"
  by (induction es rule: ids_of.induct) (auto simp: count_replicate_mset)

lemma map_of_ids:
  assumes "distinct (map fst es)"
  shows "count (ids_of es) k = (case map_of es k of Some v \<Rightarrow> nat v | None \<Rightarrow> 0)"
  using assms
proof (induction es rule: ids_of.induct)
  case (2 k' v es)
  have "map_of es k' = None" using "2.prems" by (simp add: map_of_eq_None_iff)
  then show ?case using 2 ids_of_absent [of k' es] by (auto simp: count_replicate_mset)
qed simp

lemma map_of_bump:
  "distinct (map fst es) \<Longrightarrow> map_of (bump k n es) = (\<lambda>j. if j = k then map_option (\<lambda>v. v + n) (map_of es k) else map_of es j)"
  by (induction k n es rule: bump.induct) (auto simp: fun_eq_iff)

lemma bump_values: "e \<in> set (bump k n es) \<Longrightarrow> e \<in> set es \<or> (\<exists>v. (k, v) \<in> set es \<and> e = (k, v + n))"
  by (induction k n es rule: bump.induct) (auto split: if_splits)

lemma map_of_remove1: "distinct (map fst es) \<Longrightarrow> map_of es k = Some v \<Longrightarrow> map_of (remove1 (k, v) es) = (map_of es)(k := None)"
proof (induction es)
  case (Cons e es)
  obtain j w where e: "e = (j, w)" by (cases e) auto
  show ?case
  proof (cases "j = k")
    case True
    then have "w = v" "map_of es k = None" using Cons.prems by (simp_all add: e map_of_eq_None_iff)
    then show ?thesis using True by (auto simp: e)
  next
    case False
    then show ?thesis using Cons by (auto simp: e fun_eq_iff)
  qed
qed simp

lemma distinct_map_remove1: "distinct (map f xs) \<Longrightarrow> distinct (map f (remove1 x xs))"
  using set_remove1_subset [of x xs] by (auto simp: distinct_map intro: inj_on_subset)

interpretation canon: id_counter canon_ok canonical_ids mqtt3_add_canonical_client_id mqtt3_db_remove_canonical_client_id
  mqtt3_db_get_canonical_client_id_count
proof unfold_locales
  fix b i
  assume ok: "canon_ok b"
  define es where "es = canonical_client_id_index_hash b"
  have p: "v > 0" if "(k, v) \<in> set es" for k v using ok that by (auto simp: canon_ok_def es_def)
  have d: "distinct (map fst es)" using ok by (simp add: canon_ok_def es_def)
  show "mqtt3_db_get_canonical_client_id_count i b = (if i \<in># canonical_ids b then int (count (canonical_ids b) i) else -1)"
    using map_of_ids [OF d, of i] p [of i "the (map_of es i)"] map_of_SomeD [of es i "the (map_of es i)"] count_greater_zero_iff [of "ids_of es" i]
    unfolding canonical_ids_def mqtt3_db_get_canonical_client_id_count_def es_def [symmetric]
    by (cases "map_of es i") auto
  let ?a = "mqtt3_add_canonical_client_id i b" and ?r = "mqtt3_db_remove_canonical_client_id i b"
  define ea where "ea = (if map_of es i = None then es @ [(i, 1)] else bump i 1 es)"
  have a: "canonical_client_id_index_hash ?a = ea"
    by (auto simp: mqtt3_add_canonical_client_id_def Let_def ea_def es_def split: option.split)
  have da: "distinct (map fst ea)" using d by (auto simp: ea_def bump_keys map_of_eq_None_iff)
  have "\<forall>e \<in> set ea. snd e > 0" using p by (auto simp: ea_def split: if_splits dest!: bump_values) (fastforce dest: p)
  then show "canon_ok ?a" using da by (simp add: canon_ok_def a)
  have ma: "map_of ea k = (if k = i then Some (case map_of es i of None \<Rightarrow> 1 | Some v \<Rightarrow> v + 1) else map_of es k)" for k
    by (auto simp: ea_def map_of_bump [OF d] map_add_def split: option.splits)
  show "canonical_ids ?a = add_mset i (canonical_ids b)"
    unfolding canonical_ids_def a es_def [symmetric]
    by (rule multiset_eqI) (use p in \<open>fastforce simp: map_of_ids [OF da] map_of_ids [OF d] ma split: option.splits dest: map_of_SomeD\<close>)
  show "canon_ok ?r" and "canonical_ids ?r = canonical_ids b - {#i#}"
  proof -
    define er where "er = canonical_client_id_index_hash ?r"
    have er: "er = (case map_of es i of None \<Rightarrow> es | Some n \<Rightarrow> if n - 1 \<le> 0 then remove1 (i, n - 1) (bump i (-1) es) else bump i (-1) es)"
      by (auto simp: er_def mqtt3_db_remove_canonical_client_id_def Let_def es_def split: option.split)
    have db: "distinct (map fst (bump i (-1) es))" using d by (simp add: bump_keys)
    have dr: "distinct (map fst er)"
      unfolding er using d db by (auto split: option.split intro: distinct_map_remove1)
    have mr: "map_of er k = (if k = i then (case map_of es i of Some n \<Rightarrow> if n \<le> 1 then None else Some (n - 1) | None \<Rightarrow> None) else map_of es k)" for k
    proof (cases "map_of es i")
      case (Some n)
      have "map_of (bump i (-1) es) i = Some (n - 1)" by (simp add: map_of_bump [OF d] Some)
      then show ?thesis using map_of_remove1 [OF db, of i "n - 1"] by (simp add: er Some map_of_bump [OF d])
    qed (simp add: er)
    have "snd e > 0" if "e \<in> set er" for e
    proof (cases e)
      case (Pair k v)
      then have "map_of er k = Some v" using that dr by simp
      then show ?thesis using p [of k v] Pair by (auto simp: mr split: if_splits option.splits dest: map_of_SomeD)
    qed
    then show "canon_ok ?r" using dr by (simp add: canon_ok_def er_def)
    show "canonical_ids ?r = canonical_ids b - {#i#}"
      unfolding canonical_ids_def er_def [symmetric] es_def [symmetric]
      by (rule multiset_eqI) (use p in \<open>fastforce simp: map_of_ids [OF dr] map_of_ids [OF d] mr split: option.splits dest: map_of_SomeD\<close>)
  qed
qed

section \<open>Refused connections\<close>

text \<open>What a refusal leaves of the connection: the tables of the clients are as before, the broker
  library has not been told of a connection, and the connection is closed.\<close>

definition no_trace :: "nat \<Rightarrow> broker \<Rightarrow> broker \<Rightarrow> bool" where
  "no_trace c b b' \<longleftrightarrow> clientid_index_hash b' = clientid_index_hash b \<and>
     canonical_client_id_index_hash b' = canonical_client_id_index_hash b \<and> contexts b' = contexts b \<and> subs b' = subs b \<and>
     unannounced b b' \<and> (\<not> wsi (ctxs b c) \<longrightarrow> sock (ctxs b' c) = INVALID_SOCKET)"

lemma disconnect_no_trace:
  assumes "wills_ok b"
  shows "no_trace c b (mqtt3_context_disconnect H c b)"
proof -
  let ?tail = "\<lambda>b2. let b4 = upd_ctx c (\<lambda>x. x\<lparr>listener := None\<rparr>) (drop_listener c (upd_ctx c (\<lambda>x. x\<lparr>will := None\<rparr>) b2))
     in upd_ctx c (\<lambda>x. socket_close (x\<lparr>disconnect_t := now b\<rparr>)) b4"
  obtain b2 where "bystander b b2" and e2: "mqtt3_context_disconnect H c b = ?tail b2" by (rule bys.R_disconnect [OF assms])
  moreover obtain b3 where "unannounced b b3" and e3: "mqtt3_context_disconnect H c b = ?tail b3" by (rule una.R_disconnect [OF assms])
  moreover have "wsi (ctxs b2 c) = wsi (ctxs b c)"
    using \<open>bystander b b2\<close> queue_only_fields unfolding bystander_def by blast
  moreover have "dxl_log (mqtt3_context_disconnect H c b) = dxl_log b3" by (simp add: e3 Let_def upd_ctx_def)
  ultimately show ?thesis
    unfolding no_trace_def
    by (auto simp: unannounced_def bystander_def) (auto simp: e2 Let_def upd_ctx_def socket_close_def)
qed

text \<open>Steps on the context of the connection alone.\<close>

definition own_steps :: "nat \<Rightarrow> broker \<Rightarrow> broker \<Rightarrow> bool" where
  "own_steps c b b' \<longleftrightarrow> (\<exists>x. b' = b\<lparr>ctxs := (ctxs b)(c := x)\<rparr> \<and> wsi x = wsi (ctxs b c) \<and> will x = will (ctxs b c) \<and>
     is_bridge (ctxs b c) \<le> is_bridge x \<and> cert_hashes x = cert_hashes (ctxs b c))"

lemma own_steps_upd:
  "(\<And>x. wsi (f x) = wsi x \<and> will (f x) = will x \<and> is_bridge x \<le> is_bridge (f x) \<and> cert_hashes (f x) = cert_hashes x) \<Longrightarrow>
   own_steps c b (upd_ctx c f b)"
  unfolding own_steps_def upd_ctx_def by (intro exI [of _ "f (ctxs b c)"]) simp

lemma own_steps_trans: "own_steps c a b \<Longrightarrow> own_steps c b d \<Longrightarrow> own_steps c a d"
  unfolding own_steps_def by (elim exE conjE) (rule exI, auto)

lemma own_steps_take_in: "take_in f c b = Inr (v, b') \<Longrightarrow> own_steps c b b'"
proof -
  assume "take_in f c b = Inr (v, b')"
  then obtain p where "b' = upd_ctx c (\<lambda>x. x\<lparr>in_packet := p\<rparr>) b" by (auto simp: take_in_def split: sum.splits)
  then show ?thesis by (auto intro: own_steps_upd)
qed

lemma own_steps_send: "(\<And>x. io_only x (snd (f x))) \<Longrightarrow> own_steps c b (snd (with_ctx c f b))"
proof -
  assume io: "\<And>x. io_only x (snd (f x))"
  have "cert_hashes (snd (f x)) = cert_hashes x" for x
    using arg_cong [OF io [of x, unfolded io_only_def], of cert_hashes] by simp
  moreover have "snd (with_ctx c f b) = upd_ctx c (\<lambda>x. snd (f x)) b" by (simp add: with_ctx_def upd_ctx_def split_beta)
  ultimately show ?thesis using io_only_fields(5,7,18) [OF io] by (simp add: own_steps_upd)
qed

lemma connect_protocol_own: "connect_protocol H c b = Inr (v, b') \<Longrightarrow> own_steps c b b'"
proof -
  assume p: "connect_protocol H c b = Inr (v, b')"
  then obtain n b1 b2 pr where r: "take_in read_string c b = Inr (n, b1)" "take_in read_byte c b1 = Inr (v, b2)"
    and e: "b' = upd_ctx c (\<lambda>x. x\<lparr>protocol := pr\<rparr>) b2"
    by (auto simp: connect_protocol_def split: if_splits sum.splits)
  have "own_steps c b2 b'" unfolding e by (rule own_steps_upd) simp
  then show ?thesis using own_steps_trans [OF own_steps_trans [OF own_steps_take_in [OF r(1)] own_steps_take_in [OF r(2)]]] by simp
qed

lemma refuse_no_trace:
  assumes s: "own_steps c b b'" and w: "wills_ok b"
  shows "no_trace c b (snd (refuse_with H c code rc b'))"
proof -
  let ?b = "snd (with_ctx c (\<lambda>x. send_connack (now b') x code) b')"
  have "own_steps c b' ?b" by (rule own_steps_send) (rule more_sends_io_only)
  then have "own_steps c b ?b" by (rule own_steps_trans [OF s])
  then obtain x where x: "?b = b\<lparr>ctxs := (ctxs b)(c := x)\<rparr>" "wsi x = wsi (ctxs b c)" "will x = will (ctxs b c)"
    unfolding own_steps_def by blast
  have "wills_ok ?b" using w x by (simp add: wills_ok_def)
  then have "no_trace c ?b (mqtt3_context_disconnect H c ?b)" by (rule disconnect_no_trace)
  then show ?thesis using x by (simp add: refuse_with_def refuse_def no_trace_def unannounced_def)
qed

text \<open>May the connection come in: as a bridge with the certificate of a broker, as a client while there
  is room.\<close>

definition admitted :: "dxl_hooks \<Rightarrow> nat \<Rightarrow> byte \<Rightarrow> broker \<Rightarrow> bool" where
  "admitted H c version b \<longleftrightarrow>
     (if version AND 0x80 = 0x80 then \<exists>cert \<in> set (cert_hashes (ctxs b c)). is_broker_cert H cert
      else is_bridge (ctxs b c) \<or> max_connect_count b \<le> 0 \<or> mqtt3_dxl_db_client_count b < max_connect_count b)"

section \<open>The properties of the clients\<close>


definition sample_connect :: broker where
  "sample_connect = upd_ctx 0 (\<lambda>x. x\<lparr>in_packet := empty_packet\<lparr>command := 0x10, remaining_length := 7,
     payload := Some [0x00, 0x04, 0x4D, 0x51, 0x54, 0x54, 0x84]\<rparr>\<rparr>) sample_broker"


text \<open>C24. The table of canonical client ids implements a multiset of ids: after any sequence of
  registrations and removals it holds what the multiset holds, and the number it reports for an id is
  the multiplicity, or -1 for an id that is not there.\<close>

theorem canonical_ids_refine_multiset:
  assumes "canon_ok b"
  defines "b' \<equiv> \<lambda>ops. fold (id_step mqtt3_add_canonical_client_id mqtt3_db_remove_canonical_client_id) ops b"
    and "M \<equiv> \<lambda>ops. fold (id_step (\<lambda>i M. add_mset i M) (\<lambda>i M. M - {#i#})) ops (canonical_ids b)"
  shows "canon_ok (b' ops) \<and> canonical_ids (b' ops) = M ops \<and>
    mqtt3_db_get_canonical_client_id_count i (b' ops) = (if i \<in># M ops then int (count (M ops) i) else -1)"
  using canon.run_refines [OF assms(1)] canon.number_after [OF assms(1)] unfolding b'_def M_def by (simp add: Let_def)

theorem canonical_ids_refine_multiset_witness:
  "mqtt3_db_get_canonical_client_id_count ''a''
     (fold (id_step mqtt3_add_canonical_client_id mqtt3_db_remove_canonical_client_id)
       [Id_add ''a'', Id_add ''b'', Id_add ''a'', Id_remove ''a'', Id_remove ''b'', Id_remove ''c''] zero_broker) = 1"
proof -
  have "canon_ok zero_broker" by (simp add: canon_ok_def zero_broker_def)
  from canonical_ids_refine_multiset [OF this, of "[Id_add ''a'', Id_add ''b'', Id_add ''a'', Id_remove ''a'', Id_remove ''b'', Id_remove ''c'']" "''a''"]
  show ?thesis by (simp add: canonical_ids_def zero_broker_def)
qed

text \<open>C21. The sweep of the message store frees exactly what no queue refers to: every queued message
  still finds its stored message unchanged, and every stored message that is left is in some queue.\<close>

theorem store_sweep_frees_exactly_the_unreferenced:
  assumes ok: "queues_ok b"
  shows "(\<forall>c. \<forall>m \<in> set (msgs (ctxs b c)).
      stored_msg (mqtt3_db_store_clean b) (cm_store m) = stored_msg b (cm_store m) \<and> stored_msg b (cm_store m) \<noteq> None) \<and>
    (\<forall>q. stored_msg (mqtt3_db_store_clean b) q \<noteq> None \<longrightarrow> (\<exists>c. \<exists>m \<in> set (msgs (ctxs b c)). cm_store m = q))"
proof (intro conjI allI ballI impI)
  have st: "store_ok b" using ok by (simp add: queues_ok_def)
  then have d: "distinct (store_ptrs b)" by (simp add: store_ok_def)
  fix c m assume m: "m \<in> set (msgs (ctxs b c))"
  then obtain s where "stored_msg b (cm_store m) = Some s" "ref_count s > 0" using referenced [OF ok m] by blast
  then show "stored_msg (mqtt3_db_store_clean b) (cm_store m) = stored_msg b (cm_store m)" "stored_msg b (cm_store m) \<noteq> None"
    by (simp_all add: stored_msg_sweep [OF d])
next
  have st: "store_ok b" using ok by (simp add: queues_ok_def)
  then have d: "distinct (store_ptrs b)" by (simp add: store_ok_def)
  fix q assume "stored_msg (mqtt3_db_store_clean b) q \<noteq> None"
  then have "ref_of b q \<noteq> 0" by (auto simp: stored_msg_sweep [OF d] ref_of_def split: option.splits if_splits)
  then have "refs b q \<noteq> 0" using st by (simp add: store_ok_def)
  then obtain c where "int (count_list (map cm_store (msgs (ctxs b c))) q) \<noteq> 0"
    unfolding refs_def by (rule sum.not_neutral_contains_not_neutral)
  then have "q \<in> set (map cm_store (msgs (ctxs b c)))" using count_list_0_iff [of "map cm_store (msgs (ctxs b c))" q] by linarith
  then show "\<exists>c. \<exists>m \<in> set (msgs (ctxs b c)). cm_store m = q" by auto
qed

theorem store_sweep_frees_exactly_the_unreferenced_witness:
  "stored_msg (mqtt3_db_store_clean sample_broker) 1 = None \<and> stored_msg sample_broker 1 \<noteq> None"
proof -
  have m: "msgs (ctxs sample_broker c) = [] \<and> msg_count (ctxs sample_broker c) = 0 \<and> msg_count12 (ctxs sample_broker c) = 0" for c
    by (simp add: sample_broker_def zero_context_def)
  have "queues_ok sample_broker"
    using m by (simp add: queues_ok_def queue_ok_def store_ok_def store_ptrs_def refs_def ref_of_def stored_msg_def)
      (simp add: sample_broker_def sample_store_def)
  from store_sweep_frees_exactly_the_unreferenced [OF this] m have "stored_msg (mqtt3_db_store_clean sample_broker) 1 = None"
    by (metis empty_iff list.set(1))
  moreover have "stored_msg sample_broker 1 \<noteq> None" by (simp add: stored_msg_def sample_broker_def sample_store_def)
  ultimately show ?thesis by simp
qed

end
