(* ===== verification/Core_Util.thy ===== *)
theory Core_Util
  imports Topics
begin

text \<open>
  The wildcard forms of a topic, src/brokerlib/core/src/CoreUtil.cpp: the broker library looks up a
  topic in its tables by trying the topic itself and then every filter with a multi-level wildcard that
  replaces some of its last levels, from the longest to the shortest.
\<close>

section \<open>The iteration\<close>

text \<open>The loop of \<^verbatim>\<open>iterateWildcardNext\<close> over the positions below \<open>i\<close>: the position after the last slash.\<close>

fun pound_pos :: "string \<Rightarrow> nat \<Rightarrow> nat" where
  "pound_pos s 0 = 0"
| "pound_pos s (Suc i) = (if s ! i = CHR ''/'' then Suc i else pound_pos s i)"

text \<open>The text in the buffer after the call, \<open>None\<close> when the call returns false.\<close>

definition iterateWildcardNext :: "string \<Rightarrow> string option" where
  "iterateWildcardNext s =
     (let n = length s in
      if n = 1 \<and> s ! 0 = CHR ''#'' then None
      else
        let i = (if n \<ge> 2 \<and> s ! (n - 1) = CHR ''#'' \<and> s ! (n - 2) = CHR ''/'' then n - 2 else n)
        in Some (take (pound_pos s i) s @ ''#''))"

definition isWildcard :: "string \<Rightarrow> bool" where
  "isWildcard s \<longleftrightarrow> length s > 0 \<and> s ! (length s - 1) = CHR ''#''"

section \<open>The steps in terms of levels\<close>

definition level_prefix :: "string list \<Rightarrow> string" where
  "level_prefix xs = concat (map (\<lambda>t. t @ ''/'') xs)"

lemma level_prefix_simps [simp]: "level_prefix [] = ''''" "level_prefix (xs @ [x]) = level_prefix xs @ x @ ''/''"
  by (simp_all add: level_prefix_def)

lemma join_topic_snoc: "join_topic (xs @ [x]) = level_prefix xs @ x"
proof (induction xs)
  case (Cons y ys)
  then show ?case by (cases "ys @ [x]") (auto simp: level_prefix_def)
qed simp

lemma level_prefix_end: "level_prefix xs = '''' \<or> (\<exists>p. level_prefix xs = p @ ''/'')"
  by (cases xs rule: rev_cases) simp_all

lemma pound_pos_append: "i \<le> length s \<Longrightarrow> pound_pos (s @ t) i = pound_pos s i"
  by (induction i) (auto simp: nth_append)

lemma pound_pos_skip:
  assumes "CHR ''/'' \<notin> set x"
  shows "pound_pos (p @ x) (length p + length x) = pound_pos p (length p)"
  using assms
proof (induction x rule: rev_induct)
  case (snoc c x)
  then show ?case using pound_pos_append [of "length p + length x" "p @ x" "[c]"] by (auto simp: nth_append)
next
  case Nil
  show ?case by simp
qed

lemma pound_pos_prefix: "pound_pos (level_prefix xs) (length (level_prefix xs)) = length (level_prefix xs)"
  using level_prefix_end [of xs] by (auto simp: nth_append)

lemma pound_pos_level: "CHR ''/'' \<notin> set x \<Longrightarrow> pound_pos (level_prefix xs @ x) (length (level_prefix xs @ x)) = length (level_prefix xs)"
  by (simp add: pound_pos_skip pound_pos_prefix)

lemma next_pound: "iterateWildcardNext ''#'' = None"
  by (simp add: iterateWildcardNext_def)

lemma next_last_level:
  assumes x: "CHR ''/'' \<notin> set x" "x \<noteq> ''#''"
  shows "iterateWildcardNext (join_topic (xs @ [x])) = Some (join_topic (xs @ [''#'']))"
proof -
  let ?p = "level_prefix xs" and ?s = "level_prefix xs @ x" and ?n = "length (level_prefix xs) + length x"
  have "\<not> (?n = 1 \<and> ?s ! 0 = CHR ''#'')"
    using x level_prefix_end [of xs] by (cases x) (auto simp: nth_append split: if_splits)
  moreover have "\<not> (?n \<ge> 2 \<and> ?s ! (?n - 1) = CHR ''#'' \<and> ?s ! (?n - 2) = CHR ''/'')"
  proof (cases x rule: rev_cases)
    case Nil
    then show ?thesis using level_prefix_end [of xs] by (auto simp: nth_append)
  next
    case (snoc y c)
    then have "c = CHR ''#'' \<longrightarrow> y \<noteq> []" and "CHR ''/'' \<notin> set y" using x by auto
    then show ?thesis using snoc by (cases y rule: rev_cases) (auto simp: nth_append)
  qed
  ultimately show ?thesis
    using pound_pos_level [OF x(1), of xs] unfolding iterateWildcardNext_def join_topic_snoc Let_def by auto
qed

lemma next_pound_level:
  assumes "CHR ''/'' \<notin> set y"
  shows "iterateWildcardNext (join_topic (xs @ [y, ''#''])) = Some (join_topic (xs @ [''#'']))"
proof -
  let ?p = "level_prefix xs @ y"
  have s: "join_topic (xs @ [y, ''#'']) = ?p @ ''/#''" using join_topic_snoc [of "xs @ [y]" "''#''"] by simp
  have "pound_pos (?p @ ''/#'') (length ?p) = length (level_prefix xs)"
    using pound_pos_level [OF assms] pound_pos_append [of "length ?p" ?p "''/#''"] by simp
  moreover have "(?p @ ''/#'') ! (length (?p @ ''/#'') - 1) = CHR ''#''" "(?p @ ''/#'') ! (length (?p @ ''/#'') - 2) = CHR ''/''"
    by (simp_all add: nth_append)
  ultimately show ?thesis
    unfolding iterateWildcardNext_def s join_topic_snoc Let_def by simp
qed

section \<open>All wildcard forms\<close>

lemma split_join_topic: "\<forall>t \<in> set ls. CHR ''/'' \<notin> set t \<Longrightarrow> ls \<noteq> [] \<Longrightarrow> split_topic (join_topic ls) = ls"
proof (induction ls rule: join_topic.induct)
  case (3 t u us)
  have "split_topic (t @ CHR ''/'' # s) = t # split_topic s" if "CHR ''/'' \<notin> set t" for t s
    using that by (induction t) auto
  then show ?case using 3 by simp
qed (auto simp: split_topic_single)

lemma topic_levels: obtains xs x where "split_topic s = xs @ [x]" "s = join_topic (xs @ [x])" "CHR ''/'' \<notin> set x"
  by (metis split_topic_nonempty rev_exhaust join_split split_topic_no_slash last_in_set last_snoc)

text \<open>A step turns the last level into the wildcard or, if it is the wildcard already, drops the level before it.\<close>

lemma next_cases:
  assumes "iterateWildcardNext s = Some s'"
  obtains xs x where "split_topic s = xs @ [x]" "x \<noteq> ''#''" "split_topic s' = xs @ [''#'']"
  | xs y where "split_topic s = xs @ [y, ''#'']" "split_topic s' = xs @ [''#'']"
proof -
  obtain ys x where s: "split_topic s = ys @ [x]" "s = join_topic (ys @ [x])" "CHR ''/'' \<notin> set x" by (rule topic_levels)
  have ns: "\<forall>t \<in> set ys. CHR ''/'' \<notin> set t" using split_topic_no_slash [of _ s] s(1) by simp
  show thesis
  proof (cases "x = ''#''")
    case False
    then have "s' = join_topic (ys @ [''#''])" using next_last_level [OF s(3), of ys] assms s(2) by simp
    then show thesis using that(1) [OF s(1) False] split_join_topic [of "ys @ [''#'']"] ns by simp
  next
    case True
    show thesis
    proof (cases ys rule: rev_cases)
      case Nil
      then show thesis using assms s(2) True next_pound by simp
    next
      case (snoc zs y)
      then have "s' = join_topic (zs @ [''#''])" using next_pound_level [of y zs] assms s(2) True ns by simp
      then show thesis using that(2) [of zs y] s(1) snoc True split_join_topic [of "zs @ [''#'']"] ns by simp
    qed
  qed
qed

definition wild_measure :: "string \<Rightarrow> nat" where
  "wild_measure s = 2 * length (split_topic s) + (if last (split_topic s) = ''#'' then 0 else 1)"

text \<open>What the loops around \<^verbatim>\<open>iterateWildcardNext\<close> see, in their order; the iteration ends.\<close>

function wildcards :: "string \<Rightarrow> string list" where
  "wildcards s = (case iterateWildcardNext s of None \<Rightarrow> [] | Some s' \<Rightarrow> s' # wildcards s')"
  by pat_completeness auto
termination
proof (relation "measure wild_measure")
  fix s s' assume "iterateWildcardNext s = Some s'"
  then show "(s', s) \<in> measure wild_measure" by (rule next_cases) (simp_all add: wild_measure_def)
qed simp

declare wildcards.simps [simp del]

definition covering :: "string \<Rightarrow> string list" where
  "covering s =
     (let ls = split_topic s
      in map (\<lambda>k. join_topic (take k ls @ [''#''])) (rev [0..<(if last ls = ''#'' then length ls - 1 else length ls)]))"

lemma wildcards_covering: "wildcards s = covering s"
proof (induction s rule: wildcards.induct)
  case (1 s)
  show ?case
  proof (cases "iterateWildcardNext s")
    case None
    obtain xs x where s: "split_topic s = xs @ [x]" "s = join_topic (xs @ [x])" "CHR ''/'' \<notin> set x" by (rule topic_levels)
    have "x = ''#''" using next_last_level [OF s(3), of xs] None s(2) by auto
    moreover have "xs = []"
      using next_pound_level [of "last xs" "butlast xs"] None s(2) \<open>x = ''#''\<close> split_topic_no_slash [of "last xs" s] s(1)
      by (cases xs rule: rev_cases) auto
    ultimately show ?thesis using None s(1) by (simp add: wildcards.simps covering_def)
  next
    case (Some s')
    have "covering s = s' # covering s'"
      using Some
    proof (rule next_cases)
      fix xs x assume l: "split_topic s = xs @ [x]" "x \<noteq> ''#''" "split_topic s' = xs @ [''#'']"
      then show ?thesis using join_split [of s'] by (simp add: covering_def)
    next
      fix xs y assume l: "split_topic s = xs @ [y, ''#'']" "split_topic s' = xs @ [''#'']"
      then show ?thesis using join_split [of s'] by (simp add: covering_def)
    qed
    then show ?thesis using 1 [OF Some] Some by (simp add: wildcards.simps)
  qed
qed

lemma wildcards_wild: "p \<in> set (wildcards s) \<Longrightarrow> isWildcard p"
  by (auto simp: wildcards_covering covering_def join_topic_snoc isWildcard_def nth_append Let_def)

section \<open>Wildcard forms and the rule for filters\<close>

lemma levels_match_exact: "''#'' \<notin> set fs \<Longrightarrow> ''+'' \<notin> set fs \<Longrightarrow>
    levels_match (fs @ [''#'']) ts \<longleftrightarrow> length fs \<le> length ts \<and> take (length fs) ts = fs"
proof (induction fs arbitrary: ts)
  case (Cons f fs)
  then show ?case by (cases ts) auto
qed simp

text \<open>C36. The lookup by wildcard forms follows the rule of MQTT for the filters whose only wildcard is the
  multi-level one at their end: such a filter is tried for a topic name (which does not end in that wildcard
  itself) exactly when it matches it level by level, except that the filter which has one level more than the
  name (the one for the level below it) is not tried. Filters with a single-level wildcard are never tried,
  whether they match or not, and are excluded.\<close>

theorem wildcard_lookup_follows_the_matching_rule:
  assumes p: "split_topic p = fs @ [''#'']" "''#'' \<notin> set fs" "''+'' \<notin> set fs" and s: "last (split_topic s) \<noteq> ''#''"
  shows "p \<in> set (wildcards s) \<longleftrightarrow> levels_match (split_topic p) (split_topic s) \<and> length (split_topic p) \<le> length (split_topic s)"
proof -
  have mem: "p \<in> set (wildcards s) \<longleftrightarrow> (\<exists>k < length (split_topic s). p = join_topic (take k (split_topic s) @ [''#'']))"
    using s by (auto simp: wildcards_covering covering_def Let_def)
  have "p = join_topic (take k (split_topic s) @ [''#'']) \<longleftrightarrow> fs = take k (split_topic s)" for k
  proof -
    have "\<forall>t \<in> set (take k (split_topic s) @ [''#'']). CHR ''/'' \<notin> set t"
      using split_topic_no_slash [of _ s] in_set_takeD [of _ k "split_topic s"] by auto
    then have "split_topic (join_topic (take k (split_topic s) @ [''#''])) = take k (split_topic s) @ [''#'']" by (rule split_join_topic) simp
    then show ?thesis using p(1) join_split [of p] by (metis butlast_snoc)
  qed
  then have "p \<in> set (wildcards s) \<longleftrightarrow> (\<exists>k < length (split_topic s). fs = take k (split_topic s))" by (simp add: mem)
  also have "\<dots> \<longleftrightarrow> length fs < length (split_topic s) \<and> take (length fs) (split_topic s) = fs"
    by (auto intro!: exI [of _ "length fs"])
  finally show ?thesis unfolding p(1) levels_match_exact [OF p(2,3)] by auto
qed

theorem wildcard_lookup_follows_the_matching_rule_witness:
  "''a/#'' \<in> set (wildcards ''a/b'') \<and> ''a/b/#'' \<notin> set (wildcards ''a/b'')"
  using wildcard_lookup_follows_the_matching_rule [of "''a/#''" "[''a'']" "''a/b''"]
    wildcard_lookup_follows_the_matching_rule [of "''a/b/#''" "[''a'', ''b'']" "''a/b''"] by simp

end
