(* ===== verification/Fabric.thy ===== *)
theory Fabric
  imports Core_Util "HOL-Library.AList"
begin

text \<open>
  The registry of the brokers of a fabric, src/brokerlib/brokerregistry: which brokers there are, how
  they are connected and which topics have subscribers on them (brokerstate.cpp, broker.cpp), and the
  searches over the fabric that routing rests on (brokerregistry.cpp): the next broker on a path to
  another one, and whether there is a subscriber behind a connection.

  The unordered sets and maps of the code are lists without repetition here, in the order of insertion;
  no result depends on the order but the choice between several paths.
\<close>

section \<open>Brokers\<close>

text \<open>What is known of a broker besides its connections and topics; the settings of the broker itself.\<close>

record fabric_broker =
  fb_id :: string
  fb_hostname :: string
  fb_port :: nat
  fb_ttl :: "32 word"
  fb_startTime :: nat
  fb_webSocketPort :: nat
  fb_policyHostname :: string
  fb_policyIpAddress :: string
  fb_policyHubName :: string
  fb_policyPort :: nat
  fb_brokerVersion :: string
  fb_connectionLimit :: nat
  fb_topicRoutingEnabled :: bool

record settings =
  st_guid :: string
  st_topicRoutingEnabled :: bool
  st_ttlGracePeriodMins :: nat
  st_ttlCheckIntervalMins :: nat
  st_cacheClearDelay :: nat

record broker_state =
  bs_broker :: fabric_broker
  bs_connections :: "(string \<times> nat) list"
  bs_children :: "string list"
  bs_topics :: "string list"
  bs_wildcards :: nat
  bs_pending :: "string list"
  bs_pendingWildcards :: nat
  bs_changeCount :: "32 word"
  bs_regTime :: int

definition isLocalBroker :: "settings \<Rightarrow> broker_state \<Rightarrow> bool" where
  "isLocalBroker S st \<longleftrightarrow> fb_id (bs_broker st) = st_guid S"

definition isTopicRoutingEnabled :: "settings \<Rightarrow> broker_state \<Rightarrow> bool" where
  "isTopicRoutingEnabled S st =
     (if isLocalBroker S st then st_topicRoutingEnabled S else fb_topicRoutingEnabled (bs_broker st))"

section \<open>brokerstate.cpp\<close>

definition state_addConnection :: "string \<Rightarrow> bool \<Rightarrow> broker_state \<Rightarrow> broker_state" where
  "state_addConnection c isChild st =
     (let n = (case map_of (bs_connections st) c of Some n \<Rightarrow> n + 1 | None \<Rightarrow> 1)
      in st\<lparr>bs_connections := AList.update c n (bs_connections st),
            bs_children := (if isChild then List.insert c (bs_children st) else bs_children st)\<rparr>)"

definition state_removeConnection :: "string \<Rightarrow> broker_state \<Rightarrow> broker_state" where
  "state_removeConnection c st =
     (case map_of (bs_connections st) c of None \<Rightarrow> st
      | Some n \<Rightarrow>
          if n - 1 = 0 then st\<lparr>bs_connections := AList.delete c (bs_connections st), bs_children := removeAll c (bs_children st)\<rparr>
          else st\<lparr>bs_connections := AList.update c (n - 1) (bs_connections st)\<rparr>)"

definition getConnections :: "broker_state \<Rightarrow> string list" where
  "getConnections st = map fst (bs_connections st)"

definition state_setConnections :: "string list \<Rightarrow> string list \<Rightarrow> broker_state \<Rightarrow> bool \<times> broker_state" where
  "state_setConnections conns children st =
     (if set conns \<noteq> set (getConnections st) \<or> set children \<noteq> set (bs_children st)
      then (True, fold (\<lambda>c. state_addConnection c (c \<in> set children)) conns (st\<lparr>bs_connections := [], bs_children := []\<rparr>))
      else (False, st))"

definition hasTopic :: "string \<Rightarrow> broker_state \<Rightarrow> bool" where
  "hasTopic topic st \<longleftrightarrow> topic \<in> set (bs_topics st)"

definition hasTopics :: "string list \<Rightarrow> broker_state \<Rightarrow> bool" where
  "hasTopics topics st \<longleftrightarrow> list_all (\<lambda>t. hasTopic t st) topics"

definition state_addTopic :: "settings \<Rightarrow> string \<Rightarrow> broker_state \<Rightarrow> bool \<times> broker_state" where
  "state_addTopic S topic st =
     (if topic \<in> set (bs_topics st) then (False, st)
      else (True, st\<lparr>bs_topics := bs_topics st @ [topic],
        bs_changeCount := (if isLocalBroker S st then bs_changeCount st + 1 else bs_changeCount st),
        bs_wildcards := (if isWildcard topic then bs_wildcards st + 1 else bs_wildcards st)\<rparr>))"

definition state_removeTopic :: "settings \<Rightarrow> string \<Rightarrow> broker_state \<Rightarrow> bool \<times> broker_state" where
  "state_removeTopic S topic st =
     (if topic \<notin> set (bs_topics st) then (False, st)
      else (True, st\<lparr>bs_topics := remove1 topic (bs_topics st),
        bs_changeCount := (if isLocalBroker S st then bs_changeCount st + 1 else bs_changeCount st),
        bs_wildcards := (if isWildcard topic then bs_wildcards st - 1 else bs_wildcards st)\<rparr>))"

text \<open>The time to live and the grace period are minutes; the sum and the product are unsigned integers of 32 bits.\<close>

definition state_isExpired :: "settings \<Rightarrow> int \<Rightarrow> broker_state \<Rightarrow> bool" where
  "state_isExpired S t st \<longleftrightarrow> \<not> isLocalBroker S st \<and>
     t - bs_regTime st > uint ((fb_ttl (bs_broker st) + of_nat (st_ttlGracePeriodMins S)) * 60)"

definition state_addPendingTopics :: "string list \<Rightarrow> nat \<Rightarrow> broker_state \<Rightarrow> broker_state" where
  "state_addPendingTopics topics wildcardCount st =
     st\<lparr>bs_pending := fold List.insert topics (bs_pending st), bs_pendingWildcards := bs_pendingWildcards st + wildcardCount\<rparr>"

definition state_clearPendingTopics :: "broker_state \<Rightarrow> broker_state" where
  "state_clearPendingTopics st = st\<lparr>bs_pending := [], bs_pendingWildcards := 0\<rparr>"

definition state_swapPendingTopics :: "broker_state \<Rightarrow> broker_state" where
  "state_swapPendingTopics st =
     state_clearPendingTopics (st\<lparr>bs_topics := bs_pending st, bs_wildcards := bs_pendingWildcards st\<rparr>)"

text \<open>The calls of \<^verbatim>\<open>handleBatch\<close>: the topics of a batch, its index, whether it is the first and whether the last.\<close>

type_synonym batch = "string list \<times> nat \<times> bool \<times> bool"

fun batch_loop :: "nat \<Rightarrow> string list \<Rightarrow> string list \<Rightarrow> nat \<Rightarrow> nat \<Rightarrow> bool \<Rightarrow> batch list" where
  "batch_loop charCount [] acc cur index isFirst = []"
| "batch_loop charCount (t # ts) acc cur index isFirst =
     (if cur + length t \<ge> charCount \<or> ts = []
      then (acc @ [t], index, isFirst, ts = []) # batch_loop charCount ts [] 0 (index + 1) False
      else batch_loop charCount ts (acc @ [t]) (cur + length t) index isFirst)"

definition batchTopics :: "nat \<Rightarrow> broker_state \<Rightarrow> batch list" where
  "batchTopics charCount st =
     (if bs_topics st = [] then [([], 0, True, True)] else batch_loop charCount (bs_topics st) [] 0 0 True)"

section \<open>Searching the fabric\<close>

type_synonym fabric = "(string \<times> broker_state) list"

definition conns :: "fabric \<Rightarrow> string \<Rightarrow> string list" where
  "conns G i = (case map_of G i of None \<Rightarrow> [] | Some st \<Rightarrow> getConnections st)"

text \<open>
  \<^verbatim>\<open>findPathToBroker\<close> with the visits of its helper, over a list of connections that are still to be
  tried; \<open>V\<close> are the brokers visited. The path is given from its start to the finish.
\<close>

function find_path :: "fabric \<Rightarrow> string \<Rightarrow> string list \<Rightarrow> string list \<Rightarrow> string list option \<times> string list" where
  "find_path G finish [] V = (None, V)"
| "find_path G finish (c # cs) V =
     (if c \<in> set V then find_path G finish cs V
      else if c = finish then (Some [finish], V)
      else case find_path G finish (conns G c) (c # V) of
        (Some p, V') \<Rightarrow> (Some (c # p), V')
      | (None, V') \<Rightarrow> find_path G finish cs V')"
  by pat_completeness auto

text \<open>
  \<^verbatim>\<open>_depthFirstTraversal\<close> with the visits of its helper. A visitor is given by the brokers it may visit
  and those at which it stops; what it collects are the brokers visited. The first result tells whether
  the traversal went to its end.
\<close>

function traverse :: "fabric \<Rightarrow> (string \<Rightarrow> bool) \<Rightarrow> (string \<Rightarrow> bool) \<Rightarrow> string list \<Rightarrow> string list \<Rightarrow> bool \<times> string list" where
  "traverse G allowVisit stop [] V = (True, V)"
| "traverse G allowVisit stop (c # cs) V =
     (if c \<notin> set V \<and> allowVisit c then
        if stop c then (False, c # V)
        else case traverse G allowVisit stop (conns G c) (c # V) of
          (False, V') \<Rightarrow> (False, V')
        | (True, V') \<Rightarrow> traverse G allowVisit stop cs V'
      else traverse G allowVisit stop cs V)"
  by pat_completeness auto

section \<open>The searches end\<close>

text \<open>Every step visits a broker of the registry that was not visited, or shortens the list.\<close>

definition unvisited :: "fabric \<Rightarrow> string list \<Rightarrow> nat" where
  "unvisited G V = card (fst ` set G - set V)"

lemma unvisited_mono: "set V \<subseteq> set V' \<Longrightarrow> unvisited G V' \<le> unvisited G V"
  unfolding unvisited_def by (intro card_mono) auto

lemma unvisited_step: "c \<notin> set V \<Longrightarrow> unvisited G (c # V) < unvisited G V \<or> conns G c = []"
proof (cases "c \<in> fst ` set G")
  case True
  assume "c \<notin> set V"
  then have "fst ` set G - set (c # V) \<subset> fst ` set G - set V" using True by auto
  then show ?thesis unfolding unvisited_def by (intro disjI1 psubset_card_mono) auto
next
  case False
  then show ?thesis by (simp add: conns_def map_of_eq_None_iff [symmetric])
qed

definition search_order :: "((fabric \<times> string list \<times> string list) \<times> (fabric \<times> string list \<times> string list)) set" where
  "search_order = inv_image (less_than <*lex*> less_than) (\<lambda>(G, cs, V). (unvisited G V, length cs))"

lemma wf_search_order: "wf search_order"
  unfolding search_order_def by (intro wf_inv_image wf_lex_prod wf_less_than)

lemma search_into: "c \<notin> set V \<Longrightarrow> ((G, conns G c, c # V), (G, c # cs, V)) \<in> search_order"
  using unvisited_step [of c V G] unvisited_mono [of V "c # V" G, OF set_subset_Cons] by (auto simp: search_order_def)

lemma search_on: "set V \<subseteq> set V' \<Longrightarrow> ((G, cs, V'), (G, c # cs, V)) \<in> search_order"
  using unvisited_mono [of V V' G] by (auto simp: search_order_def)

lemma find_path_grows: "find_path_dom (G, finish, cs, V) \<Longrightarrow> set V \<subseteq> set (snd (find_path G finish cs V))"
proof (induction rule: find_path.pinduct)
  case (2 G finish c cs V)
  show ?case
    using 2 by (auto simp: find_path.psimps(2) [OF "2.hyps"] split: prod.splits option.splits) (blast dest: subsetD)
qed (simp add: find_path.psimps)

termination find_path
proof (relation "inv_image search_order (\<lambda>(G, finish, cs, V). (G, cs, V))")
  fix G finish c cs V x V' assume "c \<notin> set V" "(x, V') = find_path G finish (conns G c) (c # V)" "x = None"
    and "find_path_dom (G, finish, conns G c, c # V)"
  then have "set V \<subseteq> set V'" using find_path_grows [of G finish "conns G c" "c # V"] by (metis set_subset_Cons snd_conv subset_trans)
  then show "((G, finish, cs, V'), (G, finish, c # cs, V)) \<in> inv_image search_order (\<lambda>(G, finish, cs, V). (G, cs, V))"
    using search_on by simp
qed (auto simp: wf_search_order search_into search_on)

lemma traverse_grows: "traverse_dom (G, a, s, cs, V) \<Longrightarrow> set V \<subseteq> set (snd (traverse G a s cs V))"
proof (induction rule: traverse.pinduct)
  case (2 G a s c cs V)
  show ?case using 2 by (auto simp: traverse.psimps(2) [OF "2.hyps"] split: prod.splits bool.splits) (metis subsetD)
qed (simp add: traverse.psimps)

termination traverse
proof (relation "inv_image search_order (\<lambda>(G, a, s, cs, V). (G, cs, V))")
  fix G a s c cs V x V' assume "c \<notin> set V \<and> a c" "(x, V') = traverse G a s (conns G c) (c # V)"
    and "traverse_dom (G, a, s, conns G c, c # V)"
  then have "set V \<subseteq> set V'" using traverse_grows [of G a s "conns G c" "c # V"] by (metis set_subset_Cons snd_conv subset_trans)
  then show "((G, a, s, cs, V'), (G, a, s, c # cs, V)) \<in> inv_image search_order (\<lambda>(G, a, s, cs, V). (G, cs, V))"
    using search_on by simp
qed (auto simp: wf_search_order search_into search_on)

section \<open>What the searches find\<close>

lemma find_path_visited: "find_path G f cs V = (r, V') \<Longrightarrow> set V \<subseteq> set V'"
proof (induction G f cs V arbitrary: r V' rule: find_path.induct)
  case (2 G f c cs V)
  then show ?case by (auto split: if_splits prod.splits option.splits)
qed simp

lemma traverse_visited: "traverse G a s cs V = (r, V') \<Longrightarrow> set V \<subseteq> set V'"
proof (induction G a s cs V arbitrary: r V' rule: traverse.induct)
  case (2 G a s c cs V)
  then show ?case by (auto split: if_splits prod.splits bool.splits)
qed simp

lemma find_path_found:
  "find_path G f cs V = (Some p, V') \<Longrightarrow>
     p \<noteq> [] \<and> hd p \<in> set cs \<and> last p = f \<and> distinct p \<and> set p \<inter> set V = {} \<and> successively (\<lambda>x y. y \<in> set (conns G x)) p"
proof (induction G f cs V arbitrary: p V' rule: find_path.induct)
  case (2 G f c cs V)
  consider (seen) "c \<in> set V" "find_path G f cs V = (Some p, V')" | (here) "c \<notin> set V" "c = f" "p = [f]"
    | (below) q where "c \<notin> set V" "c \<noteq> f" "find_path G f (conns G c) (c # V) = (Some q, V')" "p = c # q"
    | (later) W where "c \<notin> set V" "c \<noteq> f" "find_path G f (conns G c) (c # V) = (None, W)" "find_path G f cs W = (Some p, V')"
    using "2.prems" by (auto split: if_splits prod.splits option.splits)
  then show ?case
  proof cases
    case seen
    then show ?thesis using "2.IH"(1) [of p V'] by auto
  next
    case below
    then have "q \<noteq> [] \<and> hd q \<in> set (conns G c) \<and> last q = f \<and> distinct q \<and> set q \<inter> set (c # V) = {} \<and> successively (\<lambda>x y. y \<in> set (conns G x)) q"
      using "2.IH"(2) [of q V'] by blast
    then show ?thesis using below by (cases q) auto
  next
    case later
    have "set V \<subseteq> set W"
      using find_path_visited [OF later(3)] by simp
    then show ?thesis using "2.IH"(3) [OF later(1,2) later(3) [symmetric]] later(4) by fastforce
  qed simp
qed simp

lemma find_path_none:
  "find_path G f cs V = (None, V') \<Longrightarrow> set cs \<subseteq> set V' \<and> (\<forall>x \<in> set V' - set V. x \<noteq> f \<and> set (conns G x) \<subseteq> set V')"
proof (induction G f cs V arbitrary: V' rule: find_path.induct)
  case (2 G f c cs V)
  consider (seen) "c \<in> set V" "find_path G f cs V = (None, V')"
    | (later) W where "c \<notin> set V" "c \<noteq> f" "find_path G f (conns G c) (c # V) = (None, W)" "find_path G f cs W = (None, V')"
    using "2.prems" by (auto split: if_splits prod.splits option.splits)
  then show ?case
  proof cases
    case seen
    then show ?thesis using "2.IH"(1) [of V'] find_path_visited [OF seen(2)] by auto
  next
    case later
    have W: "set (c # V) \<subseteq> set W" "set W \<subseteq> set V'" using find_path_visited [OF later(3)] find_path_visited [OF later(4)] by simp_all
    have b: "set (conns G c) \<subseteq> set W \<and> (\<forall>x \<in> set W - set (c # V). x \<noteq> f \<and> set (conns G x) \<subseteq> set W)"
      using "2.IH"(2) [OF later(1,2)] later(3) by blast
    have l: "set cs \<subseteq> set V' \<and> (\<forall>x \<in> set V' - set W. x \<noteq> f \<and> set (conns G x) \<subseteq> set V')"
      using "2.IH"(3) [OF later(1,2) later(3) [symmetric]] later(4) by blast
    have "x \<noteq> f \<and> set (conns G x) \<subseteq> set V'" if "x \<in> set V' - set V" for x
    proof (cases "x = c \<or> x \<notin> set W")
      case False
      then have "x \<noteq> f \<and> set (conns G x) \<subseteq> set W" using b that by auto
      then show ?thesis using W(2) by blast
    qed (use that b l W later(2) in auto)
    then show ?thesis using W l by auto
  qed
qed simp

definition links :: "fabric \<Rightarrow> (string \<Rightarrow> bool) \<Rightarrow> (string \<times> string) set" where
  "links G a = {(x, y). y \<in> set (conns G x) \<and> a y}"

text \<open>The brokers behind a connection, and those that may be visited only.\<close>

definition behind :: "fabric \<Rightarrow> (string \<Rightarrow> bool) \<Rightarrow> string \<Rightarrow> string set" where
  "behind G a c = {x. a c \<and> (c, x) \<in> (links G a)\<^sup>*}"

abbreviation anyone :: "string \<Rightarrow> bool" where
  "anyone \<equiv> \<lambda>_. True"

lemma closed_behind: "a c \<Longrightarrow> c \<in> S \<Longrightarrow> (\<And>x y. x \<in> S \<Longrightarrow> y \<in> set (conns G x) \<Longrightarrow> a y \<Longrightarrow> y \<in> S) \<Longrightarrow> behind G a c \<subseteq> S"
proof
  fix x assume "c \<in> S" and cl: "\<And>x y. x \<in> S \<Longrightarrow> y \<in> set (conns G x) \<Longrightarrow> a y \<Longrightarrow> y \<in> S" and "x \<in> behind G a c"
  then have "(c, x) \<in> (links G a)\<^sup>*" by (simp add: behind_def)
  then show "x \<in> S" by (induction rule: rtrancl_induct) (use \<open>c \<in> S\<close> cl in \<open>auto simp: links_def\<close>)
qed

lemma path_behind: "successively (\<lambda>x y. y \<in> set (conns G x)) p \<Longrightarrow> p \<noteq> [] \<Longrightarrow> last p \<in> behind G anyone (hd p)"
proof (induction p)
  case (Cons x p)
  show ?case
  proof (cases p)
    case (Cons y q)
    then have "(x, y) \<in> links G anyone" "(y, last p) \<in> (links G anyone)\<^sup>*" using Cons.IH Cons.prems by (simp_all add: links_def behind_def)
    then show ?thesis using Cons by (simp add: behind_def converse_rtrancl_into_rtrancl)
  qed (simp add: behind_def)
qed simp

declare find_path.simps(2) [simp del] traverse.simps(2) [simp del]

text \<open>A search from one broker finds a path exactly when there is one.\<close>

lemma find_path_complete:
  "(\<exists>p V. find_path G finish [start] [] = (Some p, V)) \<longleftrightarrow> finish \<in> behind G anyone start"
proof (cases "find_path G finish [start] []")
  case (Pair r V)
  show ?thesis
  proof (cases r)
    case None
    then have n: "start \<in> set V" "\<forall>x \<in> set V. x \<noteq> finish \<and> set (conns G x) \<subseteq> set V" using find_path_none [of G finish "[start]" "[]" V] Pair by auto
    then have "behind G anyone start \<subseteq> set V" by (intro closed_behind) auto
    then show ?thesis using Pair None n(2) by auto
  next
    case (Some p)
    then show ?thesis using find_path_found [of G finish "[start]" "[]" p V] path_behind [of G p] Pair by auto
  qed
qed

lemma behind_mono: "y \<in> set (conns G x) \<Longrightarrow> a y \<Longrightarrow> z \<in> behind G a y \<Longrightarrow> a x \<Longrightarrow> z \<in> behind G a x"
  by (auto simp: behind_def links_def intro: converse_rtrancl_into_rtrancl)

lemma behind_self: "a c \<Longrightarrow> c \<in> behind G a c"
  by (simp add: behind_def)

text \<open>What a traversal visits is behind the connections it starts with; if it ends it has visited all of
  it without stopping, and else it stopped at the broker it visited last.\<close>

lemma traverse_sound:
  "traverse G a s cs V = (go, V') \<Longrightarrow>
     (\<forall>x \<in> set V' - set V. \<exists>c \<in> set cs. x \<in> behind G a c) \<and> (go \<longrightarrow> (\<forall>x \<in> set V' - set V. \<not> s x)) \<and>
     (\<not> go \<longrightarrow> (\<exists>x \<in> set V' - set V. s x))"
proof (induction G a s cs V arbitrary: go V' rule: traverse.induct)
  case (2 G a s c cs V)
  consider (skip) "\<not> (c \<notin> set V \<and> a c)" "traverse G a s cs V = (go, V')"
    | (stop) "c \<notin> set V" "a c" "s c" "\<not> go" "V' = c # V"
    | (below) "c \<notin> set V" "a c" "\<not> s c" "traverse G a s (conns G c) (c # V) = (False, V')" "\<not> go"
    | (later) W where "c \<notin> set V" "a c" "\<not> s c" "traverse G a s (conns G c) (c # V) = (True, W)" "traverse G a s cs W = (go, V')"
    using "2.prems" by (auto simp: traverse.simps(2) split: if_splits prod.splits bool.splits)
  then show ?case
  proof cases
    case skip
    then show ?thesis using "2.IH"(3) [OF skip] by auto
  next
    case stop
    then show ?thesis using behind_self by auto
  next
    case below
    then have b: "(\<forall>x \<in> set V' - set (c # V). \<exists>y \<in> set (conns G c). x \<in> behind G a y) \<and> (\<exists>x \<in> set V' - set (c # V). s x)"
      using "2.IH"(1) [OF conjI [OF below(1,2)] below(3,4)] by blast
    have "x \<in> behind G a c" if "x \<in> set V' - set V" for x
      using b that behind_self [of a c G, OF below(2)] behind_mono [of _ G c a x] below(2) by (cases "x = c") (auto simp: behind_def)
    then show ?thesis using b below(5) by auto
  next
    case later
    have W: "set (c # V) \<subseteq> set W" "set W \<subseteq> set V'" using traverse_visited [OF later(4)] traverse_visited [OF later(5)] by simp_all
    have b: "(\<forall>x \<in> set W - set (c # V). \<exists>y \<in> set (conns G c). x \<in> behind G a y) \<and> (\<forall>x \<in> set W - set (c # V). \<not> s x)"
      using "2.IH"(1) [OF conjI [OF later(1,2)] later(3,4)] by blast
    have l: "(\<forall>x \<in> set V' - set W. \<exists>c \<in> set cs. x \<in> behind G a c) \<and> (go \<longrightarrow> (\<forall>x \<in> set V' - set W. \<not> s x)) \<and>
        (\<not> go \<longrightarrow> (\<exists>x \<in> set V' - set W. s x))"
      by (rule "2.IH"(2) [OF conjI [OF later(1,2)] later(3) later(4) [symmetric] refl later(5)])
    have "\<exists>y \<in> set (c # cs). x \<in> behind G a y" if "x \<in> set V' - set V" for x
    proof (cases "x \<in> set W")
      case True
      then have "x \<in> behind G a c"
        using b that behind_self [of a c G, OF later(2)] behind_mono [of _ G c a x] later(2) by (cases "x = c") (auto simp: behind_def)
      then show ?thesis by simp
    qed (use l that in auto)
    moreover have "\<not> s x" if "go" "x \<in> set V' - set V" for x
      using that b l later(3) by (cases "x = c"; cases "x \<in> set W") auto
    ultimately show ?thesis using l W by auto
  qed
qed simp

lemma traverse_closed:
  "traverse G a s cs V = (True, V') \<Longrightarrow>
     (\<forall>c \<in> set cs. a c \<longrightarrow> c \<in> set V') \<and> (\<forall>x \<in> set V' - set V. \<forall>y \<in> set (conns G x). a y \<longrightarrow> y \<in> set V')"
proof (induction G a s cs V arbitrary: V' rule: traverse.induct)
  case (2 G a s c cs V)
  consider (skip) "\<not> (c \<notin> set V \<and> a c)" "traverse G a s cs V = (True, V')"
    | (later) W where "c \<notin> set V" "a c" "\<not> s c" "traverse G a s (conns G c) (c # V) = (True, W)" "traverse G a s cs W = (True, V')"
    using "2.prems" by (auto simp: traverse.simps(2) split: if_splits prod.splits bool.splits)
  then show ?case
  proof cases
    case skip
    then show ?thesis using "2.IH"(3) [OF skip] traverse_visited [OF skip(2)] by auto
  next
    case later
    have W: "set (c # V) \<subseteq> set W" "set W \<subseteq> set V'" using traverse_visited [OF later(4)] traverse_visited [OF later(5)] by simp_all
    have b: "(\<forall>y \<in> set (conns G c). a y \<longrightarrow> y \<in> set W) \<and> (\<forall>x \<in> set W - set (c # V). \<forall>y \<in> set (conns G x). a y \<longrightarrow> y \<in> set W)"
      by (rule "2.IH"(1) [OF conjI [OF later(1,2)] later(3,4)])
    have l: "(\<forall>c \<in> set cs. a c \<longrightarrow> c \<in> set V') \<and> (\<forall>x \<in> set V' - set W. \<forall>y \<in> set (conns G x). a y \<longrightarrow> y \<in> set V')"
      by (rule "2.IH"(2) [OF conjI [OF later(1,2)] later(3) later(4) [symmetric] refl later(5)])
    have "y \<in> set V'" if "x \<in> set V' - set V" "y \<in> set (conns G x)" "a y" for x y
    proof (cases "x \<in> set W")
      case True
      then have "x = c \<or> x \<in> set W - set (c # V)" using that(1) by auto
      then have "y \<in> set W" using b that(2,3) by blast
      then show ?thesis using W(2) by blast
    qed (use l that in blast)
    moreover have "\<forall>d \<in> set (c # cs). a d \<longrightarrow> d \<in> set V'" using W l by (auto simp: subset_iff)
    ultimately show ?thesis by blast
  qed
qed simp

lemma traverse_behind:
  assumes "traverse G a s [c] [] = (go, V)"
  shows "go \<longleftrightarrow> (\<forall>x \<in> behind G a c. \<not> s x)" and "go \<Longrightarrow> set V = behind G a c" and "set V \<subseteq> behind G a c"
proof -
  note s = traverse_sound [OF assms]
  then show v: "set V \<subseteq> behind G a c" by auto
  have e: "set V = behind G a c" if go
  proof
    have cl: "a c \<longrightarrow> c \<in> set V" "\<And>x y. x \<in> set V \<Longrightarrow> y \<in> set (conns G x) \<Longrightarrow> a y \<Longrightarrow> y \<in> set V"
      using traverse_closed [of G a s "[c]" "[]" V] assms that by auto
    show "behind G a c \<subseteq> set V"
    proof (cases "a c")
      case True
      then show ?thesis using cl closed_behind [of a c "set V" G] by blast
    qed (simp add: behind_def)
  qed (rule v)
  then show "go \<Longrightarrow> set V = behind G a c" .
  show "go \<longleftrightarrow> (\<forall>x \<in> behind G a c. \<not> s x)" using s e v by (cases go) auto
qed

section \<open>Subscribers\<close>

definition isSubscriberInBroker :: "settings \<Rightarrow> fabric \<Rightarrow> string \<Rightarrow> string \<Rightarrow> bool" where
  "isSubscriberInBroker S G brokerId topic =
     (case map_of G brokerId of None \<Rightarrow> False
      | Some st \<Rightarrow>
          \<not> isTopicRoutingEnabled S st \<or> hasTopic topic st \<or>
          bs_wildcards st > 0 \<and> list_ex (\<lambda>w. hasTopic w st) (wildcards topic))"

text \<open>The rule: a broker without topic routing gets everything, another one what it has a topic for.\<close>

definition covers :: "string list \<Rightarrow> string \<Rightarrow> bool" where
  "covers topics topic \<longleftrightarrow> (\<exists>p \<in> set (topic # wildcards topic). p \<in> set topics)"

definition wants :: "settings \<Rightarrow> broker_state \<Rightarrow> string \<Rightarrow> bool" where
  "wants S st topic \<longleftrightarrow> \<not> isTopicRoutingEnabled S st \<or> covers (bs_topics st) topic"

text \<open>The counts of wildcards are never too small; every connection is counted at least once, and the
  children are among the connections.\<close>

definition counts_wild :: "string list \<Rightarrow> nat \<Rightarrow> bool" where
  "counts_wild topics n \<longleftrightarrow> distinct topics \<and> length (filter isWildcard topics) \<le> n"

definition state_ok :: "broker_state \<Rightarrow> bool" where
  "state_ok st \<longleftrightarrow> counts_wild (bs_topics st) (bs_wildcards st) \<and> counts_wild (bs_pending st) (bs_pendingWildcards st) \<and>
     distinct (getConnections st) \<and> (\<forall>c n. map_of (bs_connections st) c = Some n \<longrightarrow> 0 < n) \<and>
     set (bs_children st) \<subseteq> set (getConnections st)"

lemma covers_wild: "counts_wild topics n \<Longrightarrow> covers topics topic \<longleftrightarrow> topic \<in> set topics \<or> n > 0 \<and> list_ex (\<lambda>w. w \<in> set topics) (wildcards topic)"
proof -
  assume c: "counts_wild topics n"
  have "n > 0" if "w \<in> set topics" "isWildcard w" for w
  proof -
    have "w \<in> set (filter isWildcard topics)" using that by simp
    then have "0 < length (filter isWildcard topics)" by (rule length_pos_if_in_set)
    then show ?thesis using c unfolding counts_wild_def by linarith
  qed
  then show ?thesis using wildcards_wild [of _ topic] by (auto simp: covers_def list_ex_iff)
qed

lemma isSubscriberInBroker_wants:
  "(\<And>st. map_of G i = Some st \<Longrightarrow> state_ok st) \<Longrightarrow>
   isSubscriberInBroker S G i topic \<longleftrightarrow> (case map_of G i of None \<Rightarrow> False | Some st \<Rightarrow> wants S st topic)"
  using covers_wild by (auto simp: isSubscriberInBroker_def wants_def state_ok_def hasTopic_def split: option.split)

section \<open>Operations of a broker state\<close>

lemma counts_wild_insert:
  assumes "counts_wild topics n" and "t \<notin> set topics"
  shows "counts_wild (topics @ [t]) (if isWildcard t then n + 1 else n)"
  using assms by (auto simp: counts_wild_def)

lemma length_filter_remove1: "length (filter P (remove1 x xs)) = (if x \<in> set xs \<and> P x then length (filter P xs) - 1 else length (filter P xs))"
proof (induction xs)
  case (Cons a xs)
  have "0 < length (filter P xs)" if "x \<in> set xs" "P x" using that length_pos_if_in_set [of x "filter P xs"] by simp
  then show ?case using Cons by (auto simp: Suc_diff_le)
qed simp

lemma counts_wild_remove:
  assumes "counts_wild topics n"
  shows "counts_wild (remove1 t topics) (if t \<in> set topics \<and> isWildcard t then n - 1 else n)"
  using assms length_filter_remove1 [of isWildcard t topics] by (auto simp: counts_wild_def)

lemma counts_wild_pending:
  "counts_wild pending n \<Longrightarrow> length (filter isWildcard topics) \<le> m \<Longrightarrow> counts_wild (fold List.insert topics pending) (n + m)"
proof (induction topics arbitrary: pending n m)
  case (Cons t topics)
  let ?k = "if isWildcard t then 1 else 0 :: nat"
  have "counts_wild (List.insert t pending) (n + ?k)" using Cons.prems(1) by (auto simp: counts_wild_def List.insert_def)
  moreover have "length (filter isWildcard topics) \<le> m - ?k" using Cons.prems(2) by (auto split: if_splits)
  ultimately have "counts_wild (fold List.insert topics (List.insert t pending)) (n + ?k + (m - ?k))" by (rule Cons.IH)
  moreover have "?k \<le> m" using Cons.prems(2) by (auto split: if_splits)
  ultimately show ?case by simp
qed (auto simp: counts_wild_def)

lemma getConnections_add: "set (getConnections (state_addConnection c ch st)) = insert c (set (getConnections st))"
  by (simp add: state_addConnection_def getConnections_def Let_def dom_update)

lemma getConnections_map_of: "c \<in> set (getConnections st) \<longleftrightarrow> map_of (bs_connections st) c \<noteq> None"
  by (simp add: getConnections_def map_of_eq_None_iff)

lemma getConnections_remove:
  "state_ok st \<Longrightarrow> set (getConnections (state_removeConnection c st)) =
     (if map_of (bs_connections st) c = Some 1 then set (getConnections st) - {c} else set (getConnections st))"
proof (cases "map_of (bs_connections st) c")
  case (Some n)
  assume ok: "state_ok st"
  have n: "0 < n" using ok Some unfolding state_ok_def by blast
  have c: "c \<in> set (getConnections st)" using Some by (simp add: getConnections_map_of)
  show ?thesis
  proof (cases "n = 1")
    case True
    have "set (map fst (AList.delete c (bs_connections st))) = set (map fst (bs_connections st)) - {c}"
      unfolding delete_keys set_removeAll ..
    then show ?thesis using Some True by (simp add: state_removeConnection_def getConnections_def)
  next
    case False
    then have "n - 1 \<noteq> 0" using n by simp
    then show ?thesis using Some False c by (auto simp: state_removeConnection_def getConnections_def dom_update)
  qed
qed (simp add: state_removeConnection_def getConnections_def)

lemma state_ok_addConnection: "state_ok st \<Longrightarrow> state_ok (state_addConnection c ch st)"
proof -
  assume ok: "state_ok st"
  have "distinct (getConnections (state_addConnection c ch st))"
    using ok by (simp add: state_ok_def state_addConnection_def getConnections_def Let_def distinct_update)
  moreover have "set (bs_children (state_addConnection c ch st)) \<subseteq> set (getConnections (state_addConnection c ch st))"
    using ok unfolding getConnections_add by (auto simp: state_ok_def state_addConnection_def Let_def)
  ultimately show ?thesis using ok by (auto simp: state_ok_def state_addConnection_def Let_def update_conv' split: option.splits if_splits)
qed

lemma state_ok_removeConnection: "state_ok st \<Longrightarrow> state_ok (state_removeConnection c st)"
proof -
  assume ok: "state_ok st"
  have "distinct (getConnections (state_removeConnection c st))"
    using ok by (auto simp: state_ok_def state_removeConnection_def getConnections_def distinct_update distinct_delete split: option.split)
  moreover have "set (bs_children (state_removeConnection c st)) \<subseteq> set (getConnections (state_removeConnection c st))"
    using ok unfolding getConnections_remove [OF ok] by (auto simp: state_ok_def state_removeConnection_def split: option.split)
  moreover have "0 < n" if "map_of (bs_connections (state_removeConnection c st)) d = Some n" for d n
    using that ok by (auto simp: state_ok_def state_removeConnection_def update_conv' delete_conv' restrict_map_def split: option.splits if_splits)
  moreover have "bs_topics (state_removeConnection c st) = bs_topics st \<and> bs_wildcards (state_removeConnection c st) = bs_wildcards st \<and>
      bs_pending (state_removeConnection c st) = bs_pending st \<and> bs_pendingWildcards (state_removeConnection c st) = bs_pendingWildcards st"
    by (simp add: state_removeConnection_def split: option.split)
  ultimately show ?thesis using ok by (simp add: state_ok_def)
qed

lemma state_ok_fold: "(\<And>x st. state_ok st \<Longrightarrow> state_ok (f x st)) \<Longrightarrow> state_ok st \<Longrightarrow> state_ok (fold f xs st)"
  by (induction xs arbitrary: st) auto

lemma state_ok_setConnections: "state_ok st \<Longrightarrow> state_ok (snd (state_setConnections cs ch st))"
proof -
  assume ok: "state_ok st"
  then have "state_ok (st\<lparr>bs_connections := [], bs_children := []\<rparr>)" by (simp add: state_ok_def getConnections_def)
  then have "state_ok (fold (\<lambda>c. state_addConnection c (c \<in> set ch)) cs (st\<lparr>bs_connections := [], bs_children := []\<rparr>))"
    by (intro state_ok_fold state_ok_addConnection)
  then show ?thesis using ok by (simp add: state_setConnections_def)
qed

lemma getConnections_fold:
  "set (getConnections (fold (\<lambda>c. state_addConnection c (f c)) cs st)) = set cs \<union> set (getConnections st)"
  by (induction cs arbitrary: st) (auto simp: getConnections_add)

text \<open>Setting the connections gives exactly those, and tells whether they changed.\<close>

lemma setConnections_set: "set (getConnections (snd (state_setConnections cs ch st))) = set cs"
  by (simp add: state_setConnections_def getConnections_fold) (simp add: getConnections_def)

lemma setConnections_same: "\<not> fst (state_setConnections cs ch st) \<Longrightarrow> snd (state_setConnections cs ch st) = st"
  by (simp add: state_setConnections_def split: if_splits)

lemma state_ok_topics:
  assumes "state_ok st"
  shows "state_ok (snd (state_addTopic S t st))" and "state_ok (snd (state_removeTopic S t st))"
    and "length (filter isWildcard ts) \<le> m \<Longrightarrow> state_ok (state_addPendingTopics ts m st)"
    and "state_ok (state_clearPendingTopics st)" and "state_ok (state_swapPendingTopics st)"
proof -
  have w: "counts_wild (bs_topics st) (bs_wildcards st)" "counts_wild (bs_pending st) (bs_pendingWildcards st)" using assms by (simp_all add: state_ok_def)
  show "state_ok (snd (state_addTopic S t st))"
    using assms counts_wild_insert [OF w(1), of t] by (simp add: state_ok_def state_addTopic_def getConnections_def)
  show "state_ok (snd (state_removeTopic S t st))"
    using assms counts_wild_remove [OF w(1), of t] by (auto simp: state_ok_def state_removeTopic_def getConnections_def)
  show "length (filter isWildcard ts) \<le> m \<Longrightarrow> state_ok (state_addPendingTopics ts m st)"
    using assms counts_wild_pending [OF w(2), of ts m] by (simp add: state_ok_def state_addPendingTopics_def getConnections_def)
  show "state_ok (state_clearPendingTopics st)" "state_ok (state_swapPendingTopics st)"
    using assms by (simp_all add: state_ok_def state_clearPendingTopics_def state_swapPendingTopics_def getConnections_def counts_wild_def)
qed

lemma set_addTopic: "set (bs_topics (snd (state_addTopic S t st))) = insert t (set (bs_topics st))"
  by (auto simp: state_addTopic_def)

lemma set_removeTopic: "state_ok st \<Longrightarrow> set (bs_topics (snd (state_removeTopic S t st))) = set (bs_topics st) - {t}"
  by (auto simp: state_removeTopic_def state_ok_def counts_wild_def)

section \<open>The batches of topics\<close>

text \<open>The first batch is marked as the first, the last one as the last, and they are numbered.\<close>

fun well_batched :: "bool \<Rightarrow> nat \<Rightarrow> batch list \<Rightarrow> bool" where
  "well_batched f i [] = False"
| "well_batched f i ((ts, j, first, lst) # bs) \<longleftrightarrow>
     j = i \<and> first = f \<and> (if bs = [] then lst else \<not> lst \<and> well_batched False (i + 1) bs)"

lemma batch_loop_nonempty: "ts \<noteq> [] \<Longrightarrow> batch_loop n ts acc cur i f \<noteq> []"
  by (induction n ts acc cur i f rule: batch_loop.induct) auto

lemma batch_loop_concat: "ts \<noteq> [] \<Longrightarrow> concat (map fst (batch_loop n ts acc cur i f)) = acc @ ts"
proof (induction n ts acc cur i f rule: batch_loop.induct)
  case (2 n t ts acc cur i f)
  show ?case
  proof (cases "cur + length t \<ge> n \<or> ts = []")
    case True
    then show ?thesis using "2.IH"(1) by (cases "ts = []") auto
  next
    case False
    then show ?thesis using "2.IH"(2) by auto
  qed
qed simp

lemma batch_loop_flags: "ts \<noteq> [] \<Longrightarrow> well_batched f i (batch_loop n ts acc cur i f)"
proof (induction n ts acc cur i f rule: batch_loop.induct)
  case (2 n t ts acc cur i f)
  show ?case
  proof (cases "cur + length t \<ge> n \<or> ts = []")
    case True
    then show ?thesis using "2.IH"(1) batch_loop_nonempty [of ts n "[]" 0 "Suc i" False] by (cases "ts = []") auto
  next
    case False
    then show ?thesis using "2.IH"(2) by auto
  qed
qed simp

lemma batchTopics_complete:
  "concat (map fst (batchTopics n st)) = bs_topics st \<and> well_batched True 0 (batchTopics n st)"
  using batch_loop_concat [of "bs_topics st" n "[]" 0 0 True] batch_loop_flags [of "bs_topics st" True 0 n "[]" 0] by (simp add: batchTopics_def)

text \<open>Without its last topic a batch is below the limit.\<close>

lemma batch_loop_size:
  "cur = sum_list (map length acc) \<Longrightarrow> acc = [] \<or> cur < n \<Longrightarrow> (ts', b) \<in> set (batch_loop n ts acc cur i f) \<Longrightarrow>
     butlast ts' = [] \<or> sum_list (map length (butlast ts')) < n"
proof (induction n ts acc cur i f rule: batch_loop.induct)
  case (2 n t ts acc cur i f)
  show ?case
  proof (cases "cur + length t \<ge> n \<or> ts = []")
    case True
    then have "ts' = acc @ [t] \<or> (ts', b) \<in> set (batch_loop n ts [] 0 (i + 1) False)" using "2.prems"(3) by auto
    then show ?thesis using "2.IH"(1) [OF True] "2.prems"(1,2) by auto
  next
    case False
    then show ?thesis using "2.IH"(2) [OF False] "2.prems" by auto
  qed
qed simp

end
