(* ===== verification/Topic_Cache.thy ===== *)
theory Topic_Cache
  imports Fabric
begin

text \<open>
  The cache of the topics behind a connection, src/brokerlib/brokerregistry/topiccache. For every
  broker and each of its connections it collects the brokers behind the connection and their topics,
  one broker with each question; a connection behind which some broker has no topic routing gets every
  topic. The cache follows single changes of topics and is cleared on every change of the connections.

  The registry that the code reaches through pointers is an argument here. The coherence of the
  cache with it is what the operations keep.
\<close>

section \<open>BrokerBridgeTopicCache.cpp\<close>

datatype CacheState = Start | Building | Completed

text \<open>\<open>bc_left\<close> are the brokers from the iterator \<^verbatim>\<open>m_brokersIter\<close> on.\<close>

record bridge_cache =
  bc_brokers :: "string list"
  bc_left :: "string list"
  bc_cached :: "string list"
  bc_topics :: "string list"
  bc_wildcardCount :: int
  bc_enabled :: bool
  bc_state :: CacheState

definition new_bridge_cache :: bridge_cache where
  "new_bridge_cache = \<lparr>bc_brokers = [], bc_left = [], bc_cached = [], bc_topics = [], bc_wildcardCount = 0,
     bc_enabled = True, bc_state = Start\<rparr>"

text \<open>The broker at which \<^verbatim>\<open>FindBrokersVisitor\<close> stops: it is known and has no topic routing.\<close>

definition no_routing :: "settings \<Rightarrow> fabric \<Rightarrow> string \<Rightarrow> bool" where
  "no_routing S G x = (case map_of G x of None \<Rightarrow> False | Some st \<Rightarrow> \<not> isTopicRoutingEnabled S st)"

definition cache_addTopic :: "string \<Rightarrow> bridge_cache \<Rightarrow> bridge_cache" where
  "cache_addTopic topic bc =
     (if topic \<in> set (bc_topics bc) then bc
      else bc\<lparr>bc_topics := bc_topics bc @ [topic],
              bc_wildcardCount := bc_wildcardCount bc + (if isWildcard topic then 1 else 0)\<rparr>)"

definition buildCacheIncrement :: "settings \<Rightarrow> fabric \<Rightarrow> string \<Rightarrow> string \<Rightarrow> bridge_cache \<Rightarrow> bool \<times> bridge_cache" where
  "buildCacheIncrement S G brokerId bridgeId bc =
     (let bc' = (case bc_state bc of
            Completed \<Rightarrow> bc
          | Start \<Rightarrow>
              (case traverse G (\<lambda>to. to \<noteq> brokerId) (no_routing S G) [bridgeId] [] of (routing, brokers) \<Rightarrow>
                 bc\<lparr>bc_brokers := brokers, bc_left := brokers, bc_enabled := routing,
                    bc_state := (if routing \<and> brokers \<noteq> [] then Building else Completed)\<rparr>)
          | Building \<Rightarrow>
              (case bc_left bc of [] \<Rightarrow> bc
               | x # rest \<Rightarrow>
                   (case map_of G x of None \<Rightarrow> bc
                    | Some st \<Rightarrow> (fold cache_addTopic (bs_topics st) bc)\<lparr>bc_cached := List.insert x (bc_cached bc)\<rparr>)
                   \<lparr>bc_left := rest, bc_state := (if rest = [] then Completed else Building)\<rparr>))
      in (bc_state bc' = Completed, bc'))"

definition containsBroker :: "string \<Rightarrow> bridge_cache \<Rightarrow> bool" where
  "containsBroker brokerId bc \<longleftrightarrow> brokerId \<in> set (bc_brokers bc)"

definition isBrokerCached :: "string \<Rightarrow> bridge_cache \<Rightarrow> bool" where
  "isBrokerCached brokerId bc =
     (if bc_state bc = Completed then containsBroker brokerId bc else brokerId \<in> set (bc_cached bc))"

definition registry_hasTopic :: "fabric \<Rightarrow> string \<Rightarrow> string \<Rightarrow> bool" where
  "registry_hasTopic G brokerId topic = (case map_of G brokerId of None \<Rightarrow> False | Some st \<Rightarrow> hasTopic topic st)"

definition bridge_addTopic :: "fabric \<Rightarrow> string \<Rightarrow> string \<Rightarrow> bridge_cache \<Rightarrow> bool \<times> bridge_cache" where
  "bridge_addTopic G brokerId topic bc =
     (if containsBroker brokerId bc
      then (True, if bc_enabled bc \<and> isBrokerCached brokerId bc \<and> topic \<notin> set (bc_topics bc) \<and> registry_hasTopic G brokerId topic
                  then cache_addTopic topic bc else bc)
      else (False, bc))"

definition bridge_removeTopic :: "fabric \<Rightarrow> string \<Rightarrow> string \<Rightarrow> bridge_cache \<Rightarrow> bool \<times> bridge_cache" where
  "bridge_removeTopic G brokerId topic bc =
     (if containsBroker brokerId bc
      then (True, if bc_enabled bc \<and> isBrokerCached brokerId bc \<and> topic \<in> set (bc_topics bc) \<and> \<not> registry_hasTopic G brokerId topic \<and>
                     \<not> list_ex (\<lambda>x. registry_hasTopic G x topic) (bc_cached bc)
                  then bc\<lparr>bc_topics := removeAll topic (bc_topics bc),
                          bc_wildcardCount := bc_wildcardCount bc - (if isWildcard topic then 1 else 0)\<rparr>
                  else bc)
      else (False, bc))"

text \<open>Whether there is an answer, the answer, and the cache after one more step of building it.\<close>

definition bridge_isSubscriber :: "settings \<Rightarrow> fabric \<Rightarrow> string \<Rightarrow> string \<Rightarrow> string \<Rightarrow> bridge_cache \<Rightarrow> bool \<times> bool \<times> bridge_cache" where
  "bridge_isSubscriber S G brokerId bridgeId topic bc =
     (case buildCacheIncrement S G brokerId bridgeId bc of
        (False, bc') \<Rightarrow> (False, False, bc')
      | (True, bc') \<Rightarrow>
          (True, \<not> bc_enabled bc' \<or> topic \<in> set (bc_topics bc') \<or>
             bc_wildcardCount bc' > 0 \<and> list_ex (\<lambda>w. w \<in> set (bc_topics bc')) (wildcards topic), bc'))"

section \<open>BrokerTopicCache.cpp and TopicCacheService.cpp\<close>

type_synonym broker_cache = "(string \<times> bridge_cache) list"

text \<open>The loop over the bridge caches ends at the first one that has the broker.\<close>

fun first_bridge :: "(bridge_cache \<Rightarrow> bool \<times> bridge_cache) \<Rightarrow> broker_cache \<Rightarrow> broker_cache" where
  "first_bridge f [] = []"
| "first_bridge f ((c, bc) # rest) =
     (case f bc of (True, bc') \<Rightarrow> (c, bc') # rest | (False, bc') \<Rightarrow> (c, bc') # first_bridge f rest)"

definition getBridgeCache :: "fabric \<Rightarrow> string \<Rightarrow> string \<Rightarrow> broker_cache \<Rightarrow> (bridge_cache \<times> broker_cache) option" where
  "getBridgeCache G brokerId bridgeId m =
     (case map_of m bridgeId of Some bc \<Rightarrow> Some (bc, m)
      | None \<Rightarrow>
          if brokerId \<noteq> '''' \<and> bridgeId \<noteq> '''' \<and> bridgeId \<in> set (conns G brokerId)
          then Some (new_bridge_cache, (bridgeId, new_bridge_cache) # m) else None)"

record topic_cache_service =
  tcs_caches :: "(string \<times> broker_cache) list"
  tcs_wasEnabled :: bool
  tcs_enabledTime :: "32 word"

text \<open>What the service reads of its surroundings: whether the cache is switched on, the time, the delay
  after a clear.\<close>

record cache_env =
  ce_enabled :: bool
  ce_time :: "32 word"
  ce_delay :: "32 word"

definition enabled_now :: "cache_env \<Rightarrow> topic_cache_service \<Rightarrow> bool" where
  "enabled_now e s \<longleftrightarrow> ce_enabled e \<and> (tcs_enabledTime s = 0 \<or> tcs_enabledTime s < ce_time e)"

definition reset_time :: "cache_env \<Rightarrow> topic_cache_service \<Rightarrow> topic_cache_service" where
  "reset_time e s = (if enabled_now e s then s\<lparr>tcs_enabledTime := 0\<rparr> else s)"

text \<open>\<^verbatim>\<open>checkEnabled( true )\<close>, then \<^verbatim>\<open>clearCache\<close>, then \<^verbatim>\<open>checkEnabled( false )\<close>, which calls it.\<close>

definition checkEnabled_clear :: "cache_env \<Rightarrow> topic_cache_service \<Rightarrow> bool \<times> topic_cache_service" where
  "checkEnabled_clear e s = (enabled_now e s, (reset_time e s)\<lparr>tcs_wasEnabled := enabled_now e s\<rparr>)"

definition clearCache :: "cache_env \<Rightarrow> topic_cache_service \<Rightarrow> topic_cache_service" where
  "clearCache e s = (case checkEnabled_clear e s of (True, s') \<Rightarrow> s'\<lparr>tcs_caches := []\<rparr> | (False, s') \<Rightarrow> s')"

definition checkEnabled :: "cache_env \<Rightarrow> topic_cache_service \<Rightarrow> bool \<times> topic_cache_service" where
  "checkEnabled e s =
     (let enabled = enabled_now e s; s1 = reset_time e s;
          s2 = (if \<not> tcs_wasEnabled s1 \<and> enabled then clearCache e s1 else s1)
      in (enabled, s2\<lparr>tcs_wasEnabled := enabled\<rparr>))"

definition clearCacheWithDelay :: "cache_env \<Rightarrow> topic_cache_service \<Rightarrow> topic_cache_service" where
  "clearCacheWithDelay e s = (clearCache e s)\<lparr>tcs_enabledTime := (if ce_delay e > 0 then ce_time e + ce_delay e else 0)\<rparr>"

definition on_all :: "(bridge_cache \<Rightarrow> bool \<times> bridge_cache) \<Rightarrow> topic_cache_service \<Rightarrow> topic_cache_service" where
  "on_all f s = s\<lparr>tcs_caches := map (\<lambda>(b, m). (b, first_bridge f m)) (tcs_caches s)\<rparr>"

definition service_addTopic :: "cache_env \<Rightarrow> fabric \<Rightarrow> string \<Rightarrow> string \<Rightarrow> topic_cache_service \<Rightarrow> topic_cache_service" where
  "service_addTopic e G brokerId topic s =
     (case checkEnabled e s of (enabled, s') \<Rightarrow> if enabled then on_all (bridge_addTopic G brokerId topic) s' else s')"

definition service_removeTopic :: "cache_env \<Rightarrow> fabric \<Rightarrow> string \<Rightarrow> string \<Rightarrow> topic_cache_service \<Rightarrow> topic_cache_service" where
  "service_removeTopic e G brokerId topic s =
     (case checkEnabled e s of (enabled, s') \<Rightarrow> if enabled then on_all (bridge_removeTopic G brokerId topic) s' else s')"

definition getBrokerCache :: "fabric \<Rightarrow> string \<Rightarrow> topic_cache_service \<Rightarrow> (broker_cache \<times> topic_cache_service) option" where
  "getBrokerCache G brokerId s =
     (case map_of (tcs_caches s) brokerId of Some m \<Rightarrow> Some (m, s)
      | None \<Rightarrow>
          if brokerId \<noteq> '''' \<and> map_of G brokerId \<noteq> None then Some ([], s\<lparr>tcs_caches := (brokerId, []) # tcs_caches s\<rparr>) else None)"

definition service_isSubscriber ::
  "settings \<Rightarrow> cache_env \<Rightarrow> fabric \<Rightarrow> string \<Rightarrow> string \<Rightarrow> string \<Rightarrow> topic_cache_service \<Rightarrow> bool \<times> bool \<times> topic_cache_service" where
  "service_isSubscriber S e G brokerId bridgeId topic s =
     (case checkEnabled e s of (enabled, s') \<Rightarrow>
        if \<not> enabled then (False, False, s')
        else (case getBrokerCache G brokerId s' of None \<Rightarrow> (False, False, s')
          | Some (m, s'') \<Rightarrow>
              (case getBridgeCache G brokerId bridgeId m of None \<Rightarrow> (False, False, s'')
               | Some (bc, m') \<Rightarrow>
                   (case bridge_isSubscriber S G brokerId bridgeId topic bc of (known, result, bc') \<Rightarrow>
                      (known, result, s''\<lparr>tcs_caches := AList.update brokerId (AList.update bridgeId bc' m') (tcs_caches s'')\<rparr>)))))"

section \<open>Coherence\<close>

lemma traverse_distinct: "traverse G a s cs V = (go, V') \<Longrightarrow> distinct V \<Longrightarrow> distinct V'"
proof (induction G a s cs V arbitrary: go V' rule: traverse.induct)
  case (2 G a s c cs V)
  consider (skip) "\<not> (c \<notin> set V \<and> a c)" "traverse G a s cs V = (go, V')" | (stop) "c \<notin> set V" "V' = c # V"
    | (below) "c \<notin> set V" "a c" "\<not> s c" "traverse G a s (conns G c) (c # V) = (False, V')"
    | (later) W where "c \<notin> set V" "a c" "\<not> s c" "traverse G a s (conns G c) (c # V) = (True, W)" "traverse G a s cs W = (go, V')"
    using "2.prems" by (auto simp: traverse.simps(2) split: if_splits prod.splits bool.splits)
  then show ?case
  proof cases
    case skip
    then show ?thesis using "2.IH"(3) [OF skip "2.prems"(2)] by simp
  next
    case below
    then show ?thesis using "2.IH"(1) [OF conjI [OF below(1,2)] below(3,4)] "2.prems"(2) by simp
  next
    case later
    then have "distinct W" using "2.IH"(1) [OF conjI [OF later(1,2)] later(3,4)] "2.prems"(2) by simp
    then show ?thesis by (rule "2.IH"(2) [OF conjI [OF later(1,2)] later(3) later(4) [symmetric] refl later(5)])
  qed (use "2.prems" in simp)
qed simp

text \<open>The brokers behind a connection of a broker, without going through the broker itself.\<close>

abbreviation reached :: "fabric \<Rightarrow> string \<Rightarrow> string \<Rightarrow> string set" where
  "reached G b c \<equiv> behind G (\<lambda>to. to \<noteq> b) c"

definition topics_at :: "fabric \<Rightarrow> string \<Rightarrow> string set" where
  "topics_at G x = (case map_of G x of None \<Rightarrow> {} | Some st \<Rightarrow> set (bs_topics st))"

text \<open>The cache has collected the topics of the brokers \<open>xs\<close>.\<close>

definition gathered :: "fabric \<Rightarrow> string set \<Rightarrow> bridge_cache \<Rightarrow> bool" where
  "gathered G xs bc \<longleftrightarrow> set (bc_cached bc) = {x \<in> xs. map_of G x \<noteq> None} \<and> set (bc_topics bc) = \<Union>(topics_at G ` xs) \<and>
     distinct (bc_topics bc) \<and> bc_wildcardCount bc = int (length (filter isWildcard (bc_topics bc)))"

definition routed :: "settings \<Rightarrow> fabric \<Rightarrow> string \<Rightarrow> string \<Rightarrow> bridge_cache \<Rightarrow> bool" where
  "routed S G b c bc \<longleftrightarrow> bc_enabled bc \<and> (\<forall>x \<in> reached G b c. \<not> no_routing S G x) \<and> set (bc_brokers bc) = reached G b c \<and>
     distinct (bc_brokers bc) \<and> set (bc_left bc) \<subseteq> set (bc_brokers bc) \<and> distinct (bc_left bc) \<and>
     gathered G (set (bc_brokers bc) - set (bc_left bc)) bc"

definition coherent :: "settings \<Rightarrow> fabric \<Rightarrow> string \<Rightarrow> string \<Rightarrow> bridge_cache \<Rightarrow> bool" where
  "coherent S G b c bc = (case bc_state bc of Start \<Rightarrow> bc = new_bridge_cache
     | Building \<Rightarrow> routed S G b c bc \<and> bc_left bc \<noteq> []
     | Completed \<Rightarrow>
         (if bc_enabled bc then routed S G b c bc \<and> bc_left bc = []
          else set (bc_brokers bc) \<subseteq> reached G b c \<and> (\<exists>x \<in> reached G b c. no_routing S G x)))"

lemma coherent_brokers: "coherent S G b c bc \<Longrightarrow> set (bc_brokers bc) \<subseteq> reached G b c"
  by (auto simp: coherent_def routed_def new_bridge_cache_def split: CacheState.splits if_splits)

lemma cache_addTopic_fields [simp]:
  "bc_brokers (cache_addTopic t bc) = bc_brokers bc" "bc_left (cache_addTopic t bc) = bc_left bc"
  "bc_cached (cache_addTopic t bc) = bc_cached bc" "bc_enabled (cache_addTopic t bc) = bc_enabled bc"
  "bc_state (cache_addTopic t bc) = bc_state bc" "set (bc_topics (cache_addTopic t bc)) = insert t (set (bc_topics bc))"
  by (auto simp: cache_addTopic_def)

lemma fold_cache_addTopic_fields [simp]:
  "bc_brokers (fold cache_addTopic ts bc) = bc_brokers bc" "bc_left (fold cache_addTopic ts bc) = bc_left bc"
  "bc_cached (fold cache_addTopic ts bc) = bc_cached bc" "bc_enabled (fold cache_addTopic ts bc) = bc_enabled bc"
  "bc_state (fold cache_addTopic ts bc) = bc_state bc" "set (bc_topics (fold cache_addTopic ts bc)) = set ts \<union> set (bc_topics bc)"
  by (induction ts arbitrary: bc) auto

definition topics_counted :: "bridge_cache \<Rightarrow> bool" where
  "topics_counted bc \<longleftrightarrow> distinct (bc_topics bc) \<and> bc_wildcardCount bc = int (length (filter isWildcard (bc_topics bc)))"

lemma topics_counted_add: "topics_counted bc \<Longrightarrow> topics_counted (cache_addTopic t bc)"
  by (auto simp: topics_counted_def cache_addTopic_def)

lemma topics_counted_fold: "topics_counted bc \<Longrightarrow> topics_counted (fold cache_addTopic ts bc)"
  by (induction ts arbitrary: bc) (auto intro: topics_counted_add)

lemma gathered_iff:
  "gathered G xs bc \<longleftrightarrow> set (bc_cached bc) = {x \<in> xs. map_of G x \<noteq> None} \<and> set (bc_topics bc) = \<Union>(topics_at G ` xs) \<and> topics_counted bc"
  by (simp add: gathered_def topics_counted_def)

text \<open>Building a cache keeps it coherent.\<close>

lemma coherent_start:
  assumes "bc_state bc = Start" and "coherent S G b c bc"
  shows "coherent S G b c (snd (buildCacheIncrement S G b c bc))"
proof (cases "traverse G (\<lambda>to. to \<noteq> b) (no_routing S G) [c] []")
  case (Pair go V)
  note t = traverse_behind [OF Pair]
  have new: "bc = new_bridge_cache" using assms by (simp add: coherent_def)
  have d: "distinct V" using traverse_distinct [OF Pair] by simp
  show ?thesis
  proof (cases go)
    case True
    then have "\<forall>x \<in> reached G b c. \<not> no_routing S G x" "set V = reached G b c" using t by blast+
    then show ?thesis using Pair True new d
      by (auto simp: buildCacheIncrement_def coherent_def routed_def gathered_def new_bridge_cache_def)
  next
    case False
    then have "\<exists>x \<in> reached G b c. no_routing S G x" "set V \<subseteq> reached G b c" using t by blast+
    then show ?thesis using Pair False new by (simp add: buildCacheIncrement_def coherent_def new_bridge_cache_def)
  qed
qed

lemma coherent_building:
  assumes st: "bc_state bc = Building" and co: "coherent S G b c bc"
  shows "coherent S G b c (snd (buildCacheIncrement S G b c bc))"
proof -
  have r: "routed S G b c bc" and "bc_left bc \<noteq> []" using assms by (simp_all add: coherent_def)
  then obtain x rest where l: "bc_left bc = x # rest" by (cases "bc_left bc") auto
  let ?done = "set (bc_brokers bc) - set (bc_left bc)"
  have x: "x \<in> set (bc_brokers bc)" "x \<notin> set rest" "distinct rest" using r l by (auto simp: routed_def)
  have done': "set (bc_brokers bc) - set rest = insert x ?done" using x l by auto
  have g: "gathered G ?done bc" using r unfolding routed_def by blast
  define bc1 where "bc1 = (case map_of G x of None \<Rightarrow> bc
     | Some st \<Rightarrow> (fold cache_addTopic (bs_topics st) bc)\<lparr>bc_cached := List.insert x (bc_cached bc)\<rparr>)"
  have "gathered G (insert x ?done) bc1"
  proof (cases "map_of G x")
    case None
    then show ?thesis using g by (auto simp: bc1_def gathered_def topics_at_def)
  next
    case (Some y)
    have "topics_counted (fold cache_addTopic (bs_topics y) bc)" using g by (auto simp: gathered_iff intro: topics_counted_fold)
    then show ?thesis using g Some by (auto simp: bc1_def gathered_iff topics_at_def topics_counted_def)
  qed
  moreover have "bc_brokers bc1 = bc_brokers bc" "bc_enabled bc1 = bc_enabled bc" by (simp_all add: bc1_def split: option.split)
  ultimately have "routed S G b c (bc1\<lparr>bc_left := rest, bc_state := s\<rparr>)" for s
    using r x l done' by (auto simp: routed_def gathered_def)
  moreover have "snd (buildCacheIncrement S G b c bc) = bc1\<lparr>bc_left := rest, bc_state := (if rest = [] then Completed else Building)\<rparr>"
    using st l by (simp add: buildCacheIncrement_def bc1_def)
  moreover have "bc_enabled bc1" using r \<open>bc_enabled bc1 = bc_enabled bc\<close> by (simp add: routed_def)
  ultimately show ?thesis by (auto simp: coherent_def)
qed

lemma coherent_increment: "coherent S G b c bc \<Longrightarrow> coherent S G b c (snd (buildCacheIncrement S G b c bc))"
proof (cases "bc_state bc")
  case Completed
  then show "coherent S G b c bc \<Longrightarrow> ?thesis" by (simp add: buildCacheIncrement_def)
qed (auto intro: coherent_start coherent_building)

text \<open>A complete cache answers for all brokers behind the connection.\<close>

lemma wants_routing: "map_of G x = Some st \<Longrightarrow> no_routing S G x = (\<not> isTopicRoutingEnabled S st)"
  by (simp add: no_routing_def)

definition fabric_ok :: "fabric \<Rightarrow> bool" where
  "fabric_ok G \<longleftrightarrow> (\<forall>x st. map_of G x = Some st \<longrightarrow> state_ok st)"

lemma subscriber_in_broker:
  "fabric_ok G \<Longrightarrow> isSubscriberInBroker S G x topic \<longleftrightarrow> no_routing S G x \<or> map_of G x \<noteq> None \<and> (\<exists>p \<in> set (topic # wildcards topic). p \<in> topics_at G x)"
  using isSubscriberInBroker_wants [of G x S topic]
  by (auto simp: fabric_ok_def no_routing_def topics_at_def wants_def covers_def split: option.split)

lemma topics_counted_lookup:
  assumes "topics_counted bc"
  shows "topic \<in> set (bc_topics bc) \<or> bc_wildcardCount bc > 0 \<and> list_ex (\<lambda>w. w \<in> set (bc_topics bc)) (wildcards topic) \<longleftrightarrow>
    (\<exists>p \<in> set (topic # wildcards topic). p \<in> set (bc_topics bc))"
proof -
  have "counts_wild (bc_topics bc) (nat (bc_wildcardCount bc))" using assms by (simp add: topics_counted_def counts_wild_def)
  from covers_wild [OF this, of topic] show ?thesis by (auto simp: covers_def list_ex_iff)
qed

lemma complete_answer:
  assumes ok: "fabric_ok G" and co: "coherent S G b c bc" and st: "bc_state bc = Completed"
  shows "\<not> bc_enabled bc \<or> topic \<in> set (bc_topics bc) \<or> bc_wildcardCount bc > 0 \<and> list_ex (\<lambda>w. w \<in> set (bc_topics bc)) (wildcards topic) \<longleftrightarrow>
    (\<exists>x \<in> reached G b c. isSubscriberInBroker S G x topic)"
proof (cases "bc_enabled bc")
  case False
  then show ?thesis using co st by (auto simp: coherent_def subscriber_in_broker [OF ok])
next
  case True
  then have r: "routed S G b c bc" "bc_left bc = []" using co st by (simp_all add: coherent_def)
  then have "gathered G (set (bc_brokers bc) - set (bc_left bc)) bc" "set (bc_brokers bc) = reached G b c" unfolding routed_def by blast+
  then have g: "gathered G (reached G b c) bc" using r(2) by simp
  have t: "set (bc_topics bc) = \<Union>(topics_at G ` reached G b c)" "topics_counted bc" using g unfolding gathered_iff by blast+
  have "(\<exists>x \<in> reached G b c. isSubscriberInBroker S G x topic) \<longleftrightarrow> (\<exists>p \<in> set (topic # wildcards topic). p \<in> set (bc_topics bc))"
  proof -
    have "\<not> no_routing S G x" if "x \<in> reached G b c" for x using r(1) that unfolding routed_def by blast
    moreover have "map_of G x \<noteq> None" if "p \<in> topics_at G x" for p x using that by (auto simp: topics_at_def split: option.splits)
    ultimately show ?thesis unfolding t(1) subscriber_in_broker [OF ok] by blast
  qed
  then show ?thesis using True topics_counted_lookup [OF t(2), of topic] by simp
qed

lemma bridge_answer:
  assumes ok: "fabric_ok G" and co: "coherent S G b c bc" and q: "bridge_isSubscriber S G b c topic bc = (known, result, bc')"
  shows "coherent S G b c bc'" and "known \<Longrightarrow> result \<longleftrightarrow> (\<exists>x \<in> reached G b c. isSubscriberInBroker S G x topic)"
proof -
  have i: "coherent S G b c (snd (buildCacheIncrement S G b c bc))" by (rule coherent_increment [OF co])
  have k: "fst (buildCacheIncrement S G b c bc) \<longleftrightarrow> bc_state (snd (buildCacheIncrement S G b c bc)) = Completed"
    by (simp add: buildCacheIncrement_def Let_def)
  have bc': "bc' = snd (buildCacheIncrement S G b c bc)" and kn: "known = fst (buildCacheIncrement S G b c bc)"
    using q by (auto simp: bridge_isSubscriber_def split: prod.splits bool.splits)
  show "coherent S G b c bc'" using i bc' by simp
  assume known
  then have "result \<longleftrightarrow> \<not> bc_enabled bc' \<or> topic \<in> set (bc_topics bc') \<or> bc_wildcardCount bc' > 0 \<and> list_ex (\<lambda>w. w \<in> set (bc_topics bc')) (wildcards topic)"
    using q by (auto simp: bridge_isSubscriber_def split: prod.splits bool.splits)
  also have "\<dots> \<longleftrightarrow> (\<exists>x \<in> reached G b c. isSubscriberInBroker S G x topic)"
    using complete_answer [OF ok i] k kn \<open>known\<close> bc' by simp
  finally show "result \<longleftrightarrow> (\<exists>x \<in> reached G b c. isSubscriberInBroker S G x topic)" .
qed

section \<open>Changes of topics\<close>

text \<open>\<open>topic_change G G' i\<close>: the registries differ only in the topics of the broker \<open>i\<close>.\<close>

definition topic_change :: "settings \<Rightarrow> fabric \<Rightarrow> fabric \<Rightarrow> string \<Rightarrow> bool" where
  "topic_change S G G' i \<longleftrightarrow> (\<forall>x. conns G' x = conns G x) \<and> (\<forall>x. no_routing S G' x = no_routing S G x) \<and>
     (\<forall>x. (map_of G' x = None) = (map_of G x = None)) \<and> (\<forall>x. x \<noteq> i \<longrightarrow> topics_at G' x = topics_at G x)"

lemma topic_changeD:
  assumes "topic_change S G G' i"
  shows "conns G' x = conns G x" and "no_routing S G' x = no_routing S G x" and "map_of G' x = None \<longleftrightarrow> map_of G x = None"
    and "x \<noteq> i \<Longrightarrow> topics_at G' x = topics_at G x"
  using assms by (simp_all add: topic_change_def)

lemma behind_conns: "(\<And>x. conns G' x = conns G x) \<Longrightarrow> behind G' a c = behind G a c"
  by (simp add: behind_def links_def)

lemma gathered_elsewhere: "topic_change S G G' i \<Longrightarrow> i \<notin> xs \<Longrightarrow> gathered G xs bc \<Longrightarrow> gathered G' xs bc"
proof -
  assume ch: "topic_change S G G' i" and i: "i \<notin> xs" and g: "gathered G xs bc"
  have "topics_at G' x = topics_at G x" if "x \<in> xs" for x using i that by (intro topic_changeD(4) [OF ch]) auto
  then have "\<Union>(topics_at G' ` xs) = \<Union>(topics_at G ` xs)" by simp
  moreover have "{x \<in> xs. map_of G' x \<noteq> None} = {x \<in> xs. map_of G x \<noteq> None}" by (simp add: topic_changeD(3) [OF ch])
  ultimately show ?thesis using g unfolding gathered_def by (elim conjE, intro conjI) simp_all
qed

lemma coherent_elsewhere:
  assumes ch: "topic_change S G G' i" and co: "coherent S G b c bc" and i: "i \<notin> set (bc_brokers bc)"
  shows "coherent S G' b c bc"
proof -
  have b: "reached G' b c = reached G b c" by (rule behind_conns [OF topic_changeD(1) [OF ch]])
  have n: "no_routing S G' x = no_routing S G x" for x by (rule topic_changeD(2) [OF ch])
  have "routed S G' b c bc" if "routed S G b c bc"
    using that gathered_elsewhere [OF ch, of "set (bc_brokers bc) - set (bc_left bc)" bc] i unfolding routed_def b n by blast
  then show ?thesis using co unfolding coherent_def b n by (auto split: CacheState.splits)
qed

lemma topics_counted_remove:
  assumes "topics_counted bc" and "t \<in> set (bc_topics bc)"
  shows "topics_counted (bc\<lparr>bc_topics := removeAll t (bc_topics bc), bc_wildcardCount := bc_wildcardCount bc - (if isWildcard t then 1 else 0)\<rparr>)"
proof -
  have d: "removeAll t (bc_topics bc) = remove1 t (bc_topics bc)" using assms(1) by (simp add: topics_counted_def distinct_remove1_removeAll)
  have "0 < length (filter isWildcard (bc_topics bc))" if "isWildcard t"
    using that assms(2) length_pos_if_in_set [of t "filter isWildcard (bc_topics bc)"] by simp
  then show ?thesis using assms by (auto simp: topics_counted_def d length_filter_remove1 of_nat_diff Suc_le_eq)
qed

lemma hasTopic_topics_at: "registry_hasTopic G x t \<longleftrightarrow> t \<in> topics_at G x"
  by (simp add: registry_hasTopic_def topics_at_def hasTopic_def split: option.split)

lemma union_insert_at:
  assumes "\<forall>x. x \<noteq> i \<longrightarrow> f' x = f x" and "f' i = insert t (f i)" and "i \<in> xs"
  shows "\<Union>(f' ` xs) = insert t (\<Union>(f ` xs))"
proof -
  have "y \<in> f' x \<longleftrightarrow> y \<in> f x \<or> x = i \<and> y = t" for x y using assms(1,2) by (cases "x = i") auto
  then show ?thesis using assms(3) by auto
qed

lemma union_remove_at:
  assumes "\<forall>x. x \<noteq> i \<longrightarrow> f' x = f x" and "f' i = f i - {t}"
  shows "\<Union>(f' ` xs) = (if \<exists>x \<in> xs. t \<in> f' x then \<Union>(f ` xs) else \<Union>(f ` xs) - {t})"
proof -
  have m: "y \<in> f' x \<longleftrightarrow> y \<in> f x \<and> (x = i \<longrightarrow> y \<noteq> t)" for x y using assms by (cases "x = i") auto
  show ?thesis
  proof (cases "\<exists>x \<in> xs. t \<in> f' x")
    case True
    then obtain z where z: "z \<in> xs" "t \<in> f' z" by blast
    have "y \<in> \<Union>(f' ` xs)" if "x \<in> xs" "y \<in> f x" for x y using that z m [of y x] by (cases "y = t") auto
    moreover have "y \<in> \<Union>(f ` xs)" if "x \<in> xs" "y \<in> f' x" for x y using that m [of y x] by auto
    ultimately have "\<Union>(f' ` xs) = \<Union>(f ` xs)" by blast
    then show ?thesis using True by simp
  next
    case False
    then show ?thesis using m by auto
  qed
qed

lemma topics_at_elsewhere: "topic_change S G G' i \<Longrightarrow> \<forall>x. x \<noteq> i \<longrightarrow> topics_at G' x = topics_at G x"
  using topic_changeD(4) by blast

text \<open>The cache of the bridge that has the broker follows an added or removed topic.\<close>

lemma gathered_add:
  assumes ch: "topic_change S G G' i" and t: "topics_at G' i = insert t (topics_at G i)" and g: "gathered G xs bc" and i: "i \<in> xs"
  shows "gathered G' xs (if t \<in> set (bc_topics bc) then bc else cache_addTopic t bc)"
proof -
  have "\<Union>(topics_at G' ` xs) = insert t (\<Union>(topics_at G ` xs))" by (rule union_insert_at [OF topics_at_elsewhere [OF ch] t i])
  moreover have "{x \<in> xs. map_of G' x \<noteq> None} = {x \<in> xs. map_of G x \<noteq> None}" by (simp add: topic_changeD(3) [OF ch])
  ultimately show ?thesis using g by (auto simp: gathered_iff intro: topics_counted_add)
qed

lemma gathered_remove:
  assumes ch: "topic_change S G G' i" and t: "topics_at G' i = topics_at G i - {t}" and g: "gathered G xs bc"
  shows "gathered G' xs (if t \<in> set (bc_topics bc) \<and> \<not> list_ex (\<lambda>x. registry_hasTopic G' x t) (bc_cached bc)
      then bc\<lparr>bc_topics := removeAll t (bc_topics bc), bc_wildcardCount := bc_wildcardCount bc - (if isWildcard t then 1 else 0)\<rparr> else bc)"
proof -
  note g' = g [unfolded gathered_iff]
  have c: "{x \<in> xs. map_of G' x \<noteq> None} = {x \<in> xs. map_of G x \<noteq> None}" by (simp add: topic_changeD(3) [OF ch])
  have reg: "map_of G' x \<noteq> None" if "t \<in> topics_at G' x" for x using that by (auto simp: topics_at_def split: option.splits)
  have e: "list_ex (\<lambda>x. registry_hasTopic G' x t) (bc_cached bc) \<longleftrightarrow> (\<exists>x \<in> xs. t \<in> topics_at G' x)"
  proof -
    have "set (bc_cached bc) = {x \<in> xs. map_of G' x \<noteq> None}" using g' c by simp
    then show ?thesis using reg unfolding list_ex_iff hasTopic_topics_at by auto
  qed
  have u: "\<Union>(topics_at G' ` xs) = (if \<exists>x \<in> xs. t \<in> topics_at G' x then \<Union>(topics_at G ` xs) else \<Union>(topics_at G ` xs) - {t})"
    by (rule union_remove_at [OF topics_at_elsewhere [OF ch] t])
  show ?thesis using g' topics_counted_remove [of bc t] unfolding gathered_iff c u e by (auto split: if_splits)
qed

lemma routed_cached: "routed S G b c bc \<Longrightarrow> bc_state bc = Completed \<longrightarrow> bc_left bc = [] \<Longrightarrow> map_of G i \<noteq> None \<Longrightarrow>
   isBrokerCached i bc \<longleftrightarrow> i \<in> set (bc_brokers bc) - set (bc_left bc)"
  by (auto simp: routed_def gathered_def isBrokerCached_def containsBroker_def)

text \<open>Only the collected topics of the cache change.\<close>

lemma routed_update:
  assumes ch: "topic_change S G G' i" and r: "routed S G b c bc"
    and g: "gathered G' (set (bc_brokers bc) - set (bc_left bc)) bc'"
    and f: "bc_brokers bc' = bc_brokers bc" "bc_left bc' = bc_left bc" "bc_enabled bc' = bc_enabled bc"
  shows "routed S G' b c bc'"
  using r g unfolding routed_def f behind_conns [OF topic_changeD(1) [OF ch]] topic_changeD(2) [OF ch] by blast

lemma coherent_update:
  assumes ch: "topic_change S G G' i" and co: "coherent S G b c bc" and i: "i \<in> set (bc_brokers bc)"
    and g: "\<And>xs. gathered G xs bc \<Longrightarrow> (if i \<in> xs then gathered G' xs bc1 else gathered G' xs bc)" and reg: "map_of G i \<noteq> None"
    and f: "bc_brokers bc1 = bc_brokers bc" "bc_left bc1 = bc_left bc" "bc_enabled bc1 = bc_enabled bc" "bc_state bc1 = bc_state bc"
  shows "coherent S G' b c (if bc_enabled bc \<and> isBrokerCached i bc then bc1 else bc)"
proof -
  have rc: "reached G' b c = reached G b c" by (rule behind_conns [OF topic_changeD(1) [OF ch]])
  have r: "routed S G' b c (if bc_enabled bc \<and> isBrokerCached i bc then bc1 else bc)"
    if r: "routed S G b c bc" "bc_state bc = Completed \<longrightarrow> bc_left bc = []"
  proof -
    have "gathered G (set (bc_brokers bc) - set (bc_left bc)) bc" "bc_enabled bc" using r(1) unfolding routed_def by blast+
    then have "gathered G' (set (bc_brokers bc) - set (bc_left bc)) (if bc_enabled bc \<and> isBrokerCached i bc then bc1 else bc)"
      using g routed_cached [OF r reg] by auto
    then show ?thesis by (rule routed_update [OF ch r(1)]) (simp_all add: f)
  qed
  show ?thesis
  proof (cases "bc_state bc")
    case Start
    then show ?thesis using co i by (simp add: coherent_def new_bridge_cache_def)
  next
    case Building
    then show ?thesis using co r f by (auto simp: coherent_def split: if_splits)
  next
    case Completed
    show ?thesis
    proof (cases "bc_enabled bc")
      case True
      then have "routed S G b c bc" "bc_left bc = []" using co Completed by (simp_all add: coherent_def)
      then show ?thesis using r Completed f True by (auto simp: coherent_def split: if_splits)
    next
      case False
      then show ?thesis using co Completed unfolding coherent_def rc topic_changeD(2) [OF ch] by simp
    qed
  qed
qed

lemma coherent_bridge_add:
  assumes ch: "topic_change S G G' i" and t: "topics_at G' i = insert t (topics_at G i)" and reg: "map_of G i \<noteq> None" and co: "coherent S G b c bc"
  shows "coherent S G' b c (snd (bridge_addTopic G' i t bc))"
proof (cases "containsBroker i bc")
  case True
  have "coherent S G' b c (if bc_enabled bc \<and> isBrokerCached i bc then if t \<in> set (bc_topics bc) then bc else cache_addTopic t bc else bc)"
    using True gathered_add [OF ch t] gathered_elsewhere [OF ch]
    by (intro coherent_update [OF ch co _ _ reg]) (auto simp: containsBroker_def)
  moreover have "registry_hasTopic G' i t" by (simp add: hasTopic_topics_at t)
  ultimately show ?thesis using True by (auto simp: bridge_addTopic_def split: if_splits)
qed (use coherent_elsewhere [OF ch co] in \<open>simp add: bridge_addTopic_def containsBroker_def\<close>)

lemma coherent_bridge_remove:
  assumes ch: "topic_change S G G' i" and t: "topics_at G' i = topics_at G i - {t}" and reg: "map_of G i \<noteq> None" and co: "coherent S G b c bc"
  shows "coherent S G' b c (snd (bridge_removeTopic G' i t bc))"
proof (cases "containsBroker i bc")
  case True
  let ?bc1 = "if t \<in> set (bc_topics bc) \<and> \<not> list_ex (\<lambda>x. registry_hasTopic G' x t) (bc_cached bc)
      then bc\<lparr>bc_topics := removeAll t (bc_topics bc), bc_wildcardCount := bc_wildcardCount bc - (if isWildcard t then 1 else 0)\<rparr> else bc"
  have "coherent S G' b c (if bc_enabled bc \<and> isBrokerCached i bc then ?bc1 else bc)"
    using True gathered_remove [OF ch t] gathered_elsewhere [OF ch]
    by (intro coherent_update [OF ch co _ _ reg]) (auto simp: containsBroker_def)
  moreover have "\<not> registry_hasTopic G' i t" by (simp add: hasTopic_topics_at t)
  ultimately show ?thesis using True by (auto simp: bridge_removeTopic_def split: if_splits)
qed (use coherent_elsewhere [OF ch co] in \<open>simp add: bridge_removeTopic_def containsBroker_def\<close>)

section \<open>The caches of a broker\<close>

definition caches_ok :: "settings \<Rightarrow> fabric \<Rightarrow> string \<Rightarrow> broker_cache \<Rightarrow> bool" where
  "caches_ok S G b m \<longleftrightarrow> distinct (map fst m) \<and> (\<forall>(c, bc) \<in> set m. c \<in> set (conns G b) \<and> coherent S G b c bc)"

text \<open>No broker lies behind two connections of one broker.\<close>

definition reach_list :: "fabric \<Rightarrow> string \<Rightarrow> string \<Rightarrow> string list" where
  "reach_list G b c = snd (traverse G (\<lambda>to. to \<noteq> b) (\<lambda>_. False) [c] [])"

definition tree_fabric :: "fabric \<Rightarrow> bool" where
  "tree_fabric G \<longleftrightarrow> list_all (\<lambda>(b, _). list_all (\<lambda>c1. list_all (\<lambda>c2. c1 = c2 \<or> set (reach_list G b c1) \<inter> set (reach_list G b c2) = {})
     (conns G b)) (conns G b)) G"

lemma reach_list_set: "set (reach_list G b c) = reached G b c"
proof (cases "traverse G (\<lambda>to. to \<noteq> b) (\<lambda>_. False) [c] []")
  case (Pair go V)
  then have go using traverse_behind(1) [OF Pair] by simp
  then show ?thesis using traverse_behind(2) [OF Pair] Pair by (simp add: reach_list_def)
qed

lemma tree_fabric_disjoint:
  "tree_fabric G \<Longrightarrow> c1 \<in> set (conns G b) \<Longrightarrow> c2 \<in> set (conns G b) \<Longrightarrow> c1 \<noteq> c2 \<Longrightarrow> reached G b c1 \<inter> reached G b c2 = {}"
proof -
  assume t: "tree_fabric G" and c: "c1 \<in> set (conns G b)" "c2 \<in> set (conns G b)" "c1 \<noteq> c2"
  then obtain st where "map_of G b = Some st" by (cases "map_of G b") (auto simp: conns_def)
  then have "(b, st) \<in> set G" by (rule map_of_SomeD)
  then show ?thesis using t c unfolding tree_fabric_def list_all_iff reach_list_set by blast
qed

lemma first_bridge_keys: "map fst (first_bridge f m) = map fst m"
  by (induction f m rule: first_bridge.induct) (auto split: prod.split bool.split)

lemma first_bridge_coherent:
  assumes f: "\<And>bc. fst (f bc) = containsBroker i bc" and co: "\<And>c bc. coherent S G b c bc \<Longrightarrow> coherent S G' b c (snd (f bc))"
    and ch: "topic_change S G G' i" and tree: "tree_fabric G" and ok: "caches_ok S G b m"
  shows "\<forall>(c, bc) \<in> set (first_bridge f m). coherent S G' b c bc"
  using ok
proof (induction m)
  case (Cons p m)
  obtain c bc where p: "p = (c, bc)" by (cases p)
  obtain k bc' where fb: "f bc = (k, bc')" by (cases "f bc")
  have h: "coherent S G b c bc" "c \<in> set (conns G b)" "c \<notin> fst ` set m" "caches_ok S G b m"
    using Cons.prems p by (auto simp: caches_ok_def)
  have bc': "coherent S G' b c bc'" using co [OF h(1)] fb by simp
  show ?case
  proof (cases k)
    case True
    then have i: "i \<in> reached G b c" using f [of bc] fb coherent_brokers [OF h(1)] by (auto simp: containsBroker_def)
    have "coherent S G' b d bd" if "(d, bd) \<in> set m" for d bd
    proof -
      have d: "coherent S G b d bd" "d \<in> set (conns G b)" "d \<noteq> c" using h(3,4) that by (auto simp: caches_ok_def image_iff)
      have "i \<notin> set (bc_brokers bd)"
        using i coherent_brokers [OF d(1)] tree_fabric_disjoint [OF tree h(2) d(2) d(3) [symmetric]] by blast
      then show ?thesis by (rule coherent_elsewhere [OF ch d(1)])
    qed
    then show ?thesis using True p fb bc' by auto
  next
    case False
    then show ?thesis using Cons.IH [OF h(4)] p fb bc' by auto
  qed
qed simp

lemma first_bridge_ok:
  assumes f: "\<And>bc. fst (f bc) = containsBroker i bc" and co: "\<And>c bc. coherent S G b c bc \<Longrightarrow> coherent S G' b c (snd (f bc))"
    and ch: "topic_change S G G' i" and tree: "tree_fabric G" and ok: "caches_ok S G b m"
  shows "caches_ok S G' b (first_bridge f m)"
proof -
  have "fst ` set (first_bridge f m) = fst ` set m" using first_bridge_keys [of f m] by (metis list.set_map)
  moreover have "\<forall>c \<in> fst ` set m. c \<in> set (conns G b)" using ok by (auto simp: caches_ok_def)
  ultimately have "c \<in> set (conns G' b)" if "(c, bc) \<in> set (first_bridge f m)" for c bc
    using that unfolding topic_changeD(1) [OF ch] by (metis fst_conv image_eqI)
  then show ?thesis using first_bridge_coherent [OF f co ch tree ok] ok by (auto simp: caches_ok_def first_bridge_keys)
qed

section \<open>The contract of the topic cache\<close>

text \<open>
  What the registry relies on: the cache may be consulted at any time, an answer it gives is the right
  one, and it stays right over changes of topics as long as it is told, and over any other change if it
  is cleared. \<open>truth G q\<close> is the answer for the question \<open>q\<close> in the registry \<open>G\<close>.
\<close>

locale subscriber_cache =
  fixes S :: settings and ok :: "fabric \<Rightarrow> 'c \<Rightarrow> bool" and truth :: "fabric \<Rightarrow> 'q \<Rightarrow> bool"
    and added :: "'e \<Rightarrow> fabric \<Rightarrow> string \<Rightarrow> string \<Rightarrow> 'c \<Rightarrow> 'c" and removed :: "'e \<Rightarrow> fabric \<Rightarrow> string \<Rightarrow> string \<Rightarrow> 'c \<Rightarrow> 'c"
    and cleared :: "'e \<Rightarrow> 'c \<Rightarrow> 'c" and ask :: "'e \<Rightarrow> fabric \<Rightarrow> 'q \<Rightarrow> 'c \<Rightarrow> bool \<times> bool \<times> 'c"
  assumes cleared_ok: "ok G (cleared e s)"
    and added_ok: "ok G s \<Longrightarrow> tree_fabric G \<Longrightarrow> topic_change S G G' i \<Longrightarrow> topics_at G' i = insert t (topics_at G i) \<Longrightarrow>
      map_of G i \<noteq> None \<Longrightarrow> ok G' (added e G' i t s)"
    and removed_ok: "ok G s \<Longrightarrow> tree_fabric G \<Longrightarrow> topic_change S G G' i \<Longrightarrow> topics_at G' i = topics_at G i - {t} \<Longrightarrow>
      map_of G i \<noteq> None \<Longrightarrow> ok G' (removed e G' i t s)"
    and ask_ok: "ok G s \<Longrightarrow> fabric_ok G \<Longrightarrow> ok G (snd (snd (ask e G q s)))"
    and ask_right: "ok G s \<Longrightarrow> fabric_ok G \<Longrightarrow> fst (ask e G q s) \<Longrightarrow> fst (snd (ask e G q s)) = truth G q"
begin

text \<open>A client that searches itself when the cache has no answer always gets the right one.\<close>

lemma answer_right:
  assumes "ok G s" and "fabric_ok G" and "search = truth G q"
  shows "(case ask e G q s of (known, result, s') \<Rightarrow> if known then result else search) = truth G q"
  using ask_right [OF assms(1,2), of e q] assms(3) by (simp add: split_beta)

end

definition service_ok :: "settings \<Rightarrow> fabric \<Rightarrow> topic_cache_service \<Rightarrow> bool" where
  "service_ok S G s \<longleftrightarrow> (tcs_wasEnabled s \<longrightarrow> (\<forall>(b, m) \<in> set (tcs_caches s). caches_ok S G b m))"

lemma reset_time_fields [simp]: "tcs_caches (reset_time e s) = tcs_caches s" "tcs_wasEnabled (reset_time e s) = tcs_wasEnabled s"
  by (simp_all add: reset_time_def)

lemma clearCache_ok: "service_ok S G (clearCache e s)"
  by (simp add: service_ok_def clearCache_def checkEnabled_clear_def split: bool.split)

lemma checkEnabled_ok: "checkEnabled e s = (enabled, s') \<Longrightarrow> service_ok S G s \<Longrightarrow>
   service_ok S G s' \<and> tcs_wasEnabled s' = enabled"
proof -
  assume c: "checkEnabled e s = (enabled, s')" and ok: "service_ok S G s"
  show ?thesis
  proof (cases "\<not> tcs_wasEnabled s \<and> enabled_now e s")
    case True
    have "enabled_now e (reset_time e s)" using True by (simp add: reset_time_def enabled_now_def)
    then have "tcs_caches (clearCache e (reset_time e s)) = []" by (simp add: clearCache_def checkEnabled_clear_def)
    then show ?thesis using c True by (auto simp: checkEnabled_def Let_def service_ok_def)
  next
    case False
    then show ?thesis using c ok by (auto simp: checkEnabled_def Let_def service_ok_def)
  qed
qed

lemma on_all_ok:
  assumes f: "\<And>bc. fst (f bc) = containsBroker i bc" and co: "\<And>b c bc. coherent S G b c bc \<Longrightarrow> coherent S G' b c (snd (f bc))"
    and ch: "topic_change S G G' i" and tree: "tree_fabric G" and ok: "\<forall>(b, m) \<in> set (tcs_caches s). caches_ok S G b m"
  shows "service_ok S G' (on_all f s)"
  using ok first_bridge_ok [OF f co ch tree] by (auto simp: service_ok_def on_all_def)

lemma caches_ok_Nil [simp]: "caches_ok S G b []"
  by (simp add: caches_ok_def)

lemma set_update_subset: "set (AList.update k v al) \<subseteq> insert (k, v) (set al)"
  by (induction al) auto

lemma caches_ok_update:
  assumes "caches_ok S G b m" and "c \<in> set (conns G b)" and "coherent S G b c bc"
  shows "caches_ok S G b (AList.update c bc m)"
  using assms set_update_subset [of c bc m] distinct_update [of m c bc] unfolding caches_ok_def by blast

lemma getBridgeCache_ok:
  assumes "getBridgeCache G b c m = Some (bc, m')" and "caches_ok S G b m"
  shows "caches_ok S G b m'" and "coherent S G b c bc" and "c \<in> set (conns G b)"
  using assms map_of_SomeD [of m c bc]
  by (auto simp: getBridgeCache_def caches_ok_def coherent_def new_bridge_cache_def map_of_eq_None_iff split: option.splits if_splits)

lemma service_isSubscriber_ok:
  assumes ok: "service_ok S G s" and fo: "fabric_ok G" and q: "service_isSubscriber S e G b c topic s = (known, result, s')"
  shows "service_ok S G s'" and "known \<Longrightarrow> result \<longleftrightarrow> (\<exists>x \<in> reached G b c. isSubscriberInBroker S G x topic)"
proof -
  obtain en s1 where c: "checkEnabled e s = (en, s1)" by (cases "checkEnabled e s")
  have s1: "service_ok S G s1" "tcs_wasEnabled s1 = en" using checkEnabled_ok [OF c ok] by simp_all
  consider (none) "\<not> known" "s' = s1"
    | (no_bridge) m s2 where "getBrokerCache G b s1 = Some (m, s2)" "\<not> known" "s' = s2" en
    | (asked) m s2 bc m' bc' where "getBrokerCache G b s1 = Some (m, s2)" "getBridgeCache G b c m = Some (bc, m')" en
        "bridge_isSubscriber S G b c topic bc = (known, result, bc')"
        "s' = s2\<lparr>tcs_caches := AList.update b (AList.update c bc' m') (tcs_caches s2)\<rparr>"
    using q c by (auto simp: service_isSubscriber_def split: if_splits option.splits prod.splits)
  then have "service_ok S G s' \<and> (known \<longrightarrow> result = (\<exists>x \<in> reached G b c. isSubscriberInBroker S G x topic))"
  proof cases
    case none
    then show ?thesis using s1 by simp
  next
    case no_bridge
    then have "service_ok S G s2" using s1 by (auto simp: getBrokerCache_def service_ok_def split: option.splits if_splits)
    then show ?thesis using no_bridge by simp
  next
    case asked
    have all: "\<forall>(b, m) \<in> set (tcs_caches s2). caches_ok S G b m" and m: "caches_ok S G b m"
      using asked(1,3) s1 map_of_SomeD [of "tcs_caches s1" b m]
      by (auto simp: getBrokerCache_def service_ok_def split: option.splits if_splits)
    note g = getBridgeCache_ok [OF asked(2) m]
    note a = bridge_answer [OF fo g(2) asked(4)]
    have "caches_ok S G b (AList.update c bc' m')" by (rule caches_ok_update [OF g(1,3) a(1)])
    then have "service_ok S G s'" using all asked(5) set_update_subset [of b "AList.update c bc' m'" "tcs_caches s2"] by (auto simp: service_ok_def)
    then show ?thesis using a(2) by blast
  qed
  then show "service_ok S G s'" "known \<Longrightarrow> result \<longleftrightarrow> (\<exists>x \<in> reached G b c. isSubscriberInBroker S G x topic)" by blast+
qed

interpretation tcs: subscriber_cache S "service_ok S" "\<lambda>G (b, c, topic). \<exists>x \<in> reached G b c. isSubscriberInBroker S G x topic"
    service_addTopic service_removeTopic clearCacheWithDelay "\<lambda>e G (b, c, topic). service_isSubscriber S e G b c topic"
  for S
proof
  fix G e s
  show "service_ok S G (clearCacheWithDelay e s)" using clearCache_ok [of S G e s] by (simp add: clearCacheWithDelay_def service_ok_def)
next
  fix G s G' i t e assume ok: "service_ok S G s" and h: "tree_fabric G" "topic_change S G G' i" "topics_at G' i = insert t (topics_at G i)" "map_of G i \<noteq> None"
  obtain en s1 where c: "checkEnabled e s = (en, s1)" by (cases "checkEnabled e s")
  have s1: "service_ok S G s1" "tcs_wasEnabled s1 = en" using checkEnabled_ok [OF c ok] by simp_all
  have f: "fst (bridge_addTopic G' i t bc) = containsBroker i bc" for bc by (simp add: bridge_addTopic_def)
  show "service_ok S G' (service_addTopic e G' i t s)"
    using c s1 on_all_ok [OF f coherent_bridge_add [OF h(2,3,4)] h(2,1)] by (auto simp: service_addTopic_def service_ok_def)
next
  fix G s G' i t e assume ok: "service_ok S G s" and h: "tree_fabric G" "topic_change S G G' i" "topics_at G' i = topics_at G i - {t}" "map_of G i \<noteq> None"
  obtain en s1 where c: "checkEnabled e s = (en, s1)" by (cases "checkEnabled e s")
  have s1: "service_ok S G s1" "tcs_wasEnabled s1 = en" using checkEnabled_ok [OF c ok] by simp_all
  have f: "fst (bridge_removeTopic G' i t bc) = containsBroker i bc" for bc by (simp add: bridge_removeTopic_def)
  show "service_ok S G' (service_removeTopic e G' i t s)"
    using c s1 on_all_ok [OF f coherent_bridge_remove [OF h(2,3,4)] h(2,1)] by (auto simp: service_removeTopic_def service_ok_def)
next
  fix G s e and q :: "string \<times> string \<times> string" assume h: "service_ok S G s" "fabric_ok G"
  obtain b c topic where q: "q = (b, c, topic)" by (cases q)
  obtain known result s' where a: "service_isSubscriber S e G b c topic s = (known, result, s')" by (cases "service_isSubscriber S e G b c topic s")
  show "service_ok S G (snd (snd ((\<lambda>(b, c, topic). service_isSubscriber S e G b c topic) q s)))"
    using service_isSubscriber_ok(1) [OF h a] a q by simp
  show "fst ((\<lambda>(b, c, topic). service_isSubscriber S e G b c topic) q s) \<Longrightarrow>
      fst (snd ((\<lambda>(b, c, topic). service_isSubscriber S e G b c topic) q s)) = (case q of (b, c, topic) \<Rightarrow> \<exists>x \<in> reached G b c. isSubscriberInBroker S G x topic)"
    using service_isSubscriber_ok(2) [OF h a] a q by simp
qed

end
