(* ===== verification/Broker_Registry.thy ===== *)
theory Broker_Registry
  imports Topic_Cache
begin

text \<open>
  The registry of brokers, src/brokerlib/brokerregistry/src/brokerregistry.cpp, with the cache of routes
  of cache.cpp and the cache of topics of \<open>Topic_Cache\<close>: its operations one by one, their sequences, and
  the two questions the routing of messages asks of it. The registry is asked from one thread; the
  properties of the local broker (its names, ports and limits) are not part of the model.
\<close>

section \<open>cache.cpp\<close>

type_synonym route_cache = "((string \<times> string) \<times> string) list"

definition cache_add :: "string \<Rightarrow> string \<Rightarrow> string \<Rightarrow> route_cache \<Rightarrow> route_cache" where
  "cache_add from to next m = (if from \<noteq> '''' \<and> to \<noteq> '''' \<and> next \<noteq> '''' then AList.update (from, to) next m else m)"

definition cache_get :: "string \<Rightarrow> string \<Rightarrow> route_cache \<Rightarrow> string" where
  "cache_get from to m = (if from \<noteq> '''' \<and> to \<noteq> '''' then (case map_of m (from, to) of Some next \<Rightarrow> next | None \<Rightarrow> '''') else '''')"

section \<open>brokerregistry.cpp\<close>

record registry =
  reg_brokers :: fabric
  reg_routes :: route_cache
  reg_topics :: topic_cache_service
  reg_ttlCheckTime :: int

definition new_registry :: "cache_env \<Rightarrow> registry" where
  "new_registry e = \<lparr>reg_brokers = [], reg_routes = [],
     reg_topics = snd (checkEnabled e \<lparr>tcs_caches = [], tcs_wasEnabled = False, tcs_enabledTime = 0\<rparr>), reg_ttlCheckTime = 0\<rparr>"

definition clearAllCaches :: "cache_env \<Rightarrow> registry \<Rightarrow> registry" where
  "clearAllCaches e r = r\<lparr>reg_routes := [], reg_topics := clearCacheWithDelay e (reg_topics r)\<rparr>"

definition clear_topics :: "cache_env \<Rightarrow> registry \<Rightarrow> registry" where
  "clear_topics e r = r\<lparr>reg_topics := clearCacheWithDelay e (reg_topics r)\<rparr>"

definition put_state :: "string \<Rightarrow> broker_state \<Rightarrow> registry \<Rightarrow> registry" where
  "put_state i st r = r\<lparr>reg_brokers := AList.update i st (reg_brokers r)\<rparr>"

definition broker_exists :: "string \<Rightarrow> registry \<Rightarrow> bool" where
  "broker_exists i r \<longleftrightarrow> i \<noteq> '''' \<and> map_of (reg_brokers r) i \<noteq> None"

text \<open>The state of a broker that is new at the time \<open>now\<close>.\<close>

definition new_broker_state :: "int \<Rightarrow> fabric_broker \<Rightarrow> broker_state" where
  "new_broker_state now b = \<lparr>bs_broker = b, bs_connections = [], bs_children = [], bs_topics = [], bs_wildcards = 0,
     bs_pending = [], bs_pendingWildcards = 0, bs_changeCount = 0, bs_regTime = now\<rparr>"

definition registry_addBroker :: "settings \<Rightarrow> cache_env \<Rightarrow> int \<Rightarrow> fabric_broker \<Rightarrow> registry \<Rightarrow> bool \<times> registry" where
  "registry_addBroker S e now b r =
     (if fb_id b \<noteq> '''' \<and> fb_hostname b \<noteq> '''' then
        let fresh = clearAllCaches e (put_state (fb_id b) (new_broker_state now b) r);
            r' = (case map_of (reg_brokers r) (fb_id b) of None \<Rightarrow> fresh
                  | Some st \<Rightarrow>
                      if fb_startTime (bs_broker st) = fb_startTime b
                      then put_state (fb_id b) (st\<lparr>bs_broker := b\<rparr>)
                        (if isTopicRoutingEnabled S st \<noteq> fb_topicRoutingEnabled b then clear_topics e r else r)
                      else fresh)
        in (broker_exists (fb_id b) r', r')
      else (False, r))"

definition drop_broker :: "settings \<Rightarrow> string \<Rightarrow> fabric \<Rightarrow> fabric" where
  "drop_broker S i G = AList.delete i (map (\<lambda>(k, st). (k, if k \<noteq> st_guid S then state_removeConnection i st else st)) G)"

definition removeBroker :: "settings \<Rightarrow> cache_env \<Rightarrow> string \<Rightarrow> registry \<Rightarrow> bool \<times> registry" where
  "removeBroker S e i r =
     (if broker_exists i r then (True, clearAllCaches e (r\<lparr>reg_brokers := drop_broker S i (reg_brokers r)\<rparr>)) else (False, r))"

text \<open>The operations on one broker find it first; what they do is given by \<open>f\<close>.\<close>

definition with_broker :: "string \<Rightarrow> (broker_state \<Rightarrow> registry \<Rightarrow> bool \<times> registry) \<Rightarrow> registry \<Rightarrow> bool \<times> registry" where
  "with_broker i f r = (case map_of (reg_brokers r) i of None \<Rightarrow> (False, r) | Some st \<Rightarrow> f st r)"

definition updateTtl :: "string \<Rightarrow> 32 word \<Rightarrow> registry \<Rightarrow> bool \<times> registry" where
  "updateTtl i ttl = with_broker i (\<lambda>st r. (True, put_state i (st\<lparr>bs_broker := (bs_broker st)\<lparr>fb_ttl := ttl\<rparr>\<rparr>) r))"

definition addConnection :: "cache_env \<Rightarrow> string \<Rightarrow> string \<Rightarrow> bool \<Rightarrow> registry \<Rightarrow> bool \<times> registry" where
  "addConnection e i c isChild r =
     (if c \<noteq> '''' then with_broker i (\<lambda>st r. (True, clearAllCaches e (put_state i (state_addConnection c isChild st) r))) r else (False, r))"

definition removeConnection :: "cache_env \<Rightarrow> string \<Rightarrow> string \<Rightarrow> registry \<Rightarrow> bool \<times> registry" where
  "removeConnection e i c r =
     (if c \<noteq> '''' then with_broker i (\<lambda>st r. (True, clearAllCaches e (put_state i (state_removeConnection c st) r))) r else (False, r))"

definition setConnections :: "cache_env \<Rightarrow> string \<Rightarrow> string list \<Rightarrow> string list \<Rightarrow> registry \<Rightarrow> bool \<times> registry" where
  "setConnections e i cs children = with_broker i (\<lambda>st r.
     (case state_setConnections cs children st of (changed, st') \<Rightarrow>
        (True, (if changed then clearAllCaches e else id) (put_state i st' r))))"

definition updateRegistrationTime :: "int \<Rightarrow> string \<Rightarrow> registry \<Rightarrow> bool \<times> registry" where
  "updateRegistrationTime now i = with_broker i (\<lambda>st r. (True, put_state i (st\<lparr>bs_regTime := now\<rparr>) r))"

definition addTopic :: "settings \<Rightarrow> cache_env \<Rightarrow> string \<Rightarrow> string \<Rightarrow> registry \<Rightarrow> bool \<times> registry" where
  "addTopic S e i topic = with_broker i (\<lambda>st r.
     (case state_addTopic S topic st of (changed, st') \<Rightarrow>
        if changed
        then let r' = put_state i st' r in (True, r'\<lparr>reg_topics := service_addTopic e (reg_brokers r') i topic (reg_topics r')\<rparr>)
        else (False, r)))"

definition removeTopic :: "settings \<Rightarrow> cache_env \<Rightarrow> string \<Rightarrow> string \<Rightarrow> registry \<Rightarrow> bool \<times> registry" where
  "removeTopic S e i topic = with_broker i (\<lambda>st r.
     (case state_removeTopic S topic st of (changed, st') \<Rightarrow>
        if changed
        then let r' = put_state i st' r in (True, r'\<lparr>reg_topics := service_removeTopic e (reg_brokers r') i topic (reg_topics r')\<rparr>)
        else (False, r)))"

definition clearPendingTopics :: "string \<Rightarrow> registry \<Rightarrow> bool \<times> registry" where
  "clearPendingTopics i = with_broker i (\<lambda>st r. (True, put_state i (state_clearPendingTopics st) r))"

definition addPendingTopics :: "string \<Rightarrow> string list \<Rightarrow> nat \<Rightarrow> registry \<Rightarrow> bool \<times> registry" where
  "addPendingTopics i subs wildcardCount = with_broker i (\<lambda>st r. (True, put_state i (state_addPendingTopics subs wildcardCount st) r))"

definition swapPendingTopics :: "cache_env \<Rightarrow> string \<Rightarrow> registry \<Rightarrow> bool \<times> registry" where
  "swapPendingTopics e i = with_broker i (\<lambda>st r. (True, clear_topics e (put_state i (state_swapPendingTopics st) r)))"

definition setTopicsChangeCount :: "string \<Rightarrow> 32 word \<Rightarrow> registry \<Rightarrow> bool \<times> registry" where
  "setTopicsChangeCount i n = with_broker i (\<lambda>st r. (True, put_state i (st\<lparr>bs_changeCount := n\<rparr>) r))"

text \<open>The next broker on the way, empty if there is none; the path found is \<open>from # next # \<dots>\<close>.\<close>

definition getNextBroker :: "string \<Rightarrow> string \<Rightarrow> registry \<Rightarrow> string \<times> registry" where
  "getNextBroker from to r =
     (if from \<noteq> '''' \<and> to \<noteq> '''' \<and> broker_exists from r \<and> broker_exists to r then
        if from \<noteq> to then
          let cached = cache_get from to (reg_routes r) in
          if cached \<noteq> '''' then (cached, r)
          else (case fst (find_path (reg_brokers r) to [from] []) of
              Some path \<Rightarrow> (hd (tl path), r\<lparr>reg_routes := cache_add from to (hd (tl path)) (reg_routes r)\<rparr>)
            | None \<Rightarrow> ('''', r))
        else (to, r)
      else ('''', r))"

definition find_subscriber :: "settings \<Rightarrow> fabric \<Rightarrow> string \<Rightarrow> string \<Rightarrow> string \<Rightarrow> bool" where
  "find_subscriber S G brokerId connection topic \<longleftrightarrow>
     \<not> fst (traverse G (\<lambda>to. to \<noteq> brokerId) (\<lambda>to. isSubscriberInBroker S G to topic) [connection] [])"

definition isSubscriberInHierarchy ::
  "settings \<Rightarrow> cache_env \<Rightarrow> string \<Rightarrow> string \<Rightarrow> string \<Rightarrow> registry \<Rightarrow> bool \<times> registry" where
  "isSubscriberInHierarchy S e brokerId connection topic r =
     (case service_isSubscriber S e (reg_brokers r) brokerId connection topic (reg_topics r) of (known, result, tcs) \<Rightarrow>
        (if known then result else find_subscriber S (reg_brokers r) brokerId connection topic, r\<lparr>reg_topics := tcs\<rparr>))"

text \<open>The check of the times to live; \<open>time\<close> is what the core passes, \<open>now\<close> is the clock.\<close>

definition onCoreMaintenance :: "settings \<Rightarrow> cache_env \<Rightarrow> int \<Rightarrow> int \<Rightarrow> registry \<Rightarrow> registry" where
  "onCoreMaintenance S e time now r =
     (if time - reg_ttlCheckTime r \<ge> int (st_ttlCheckIntervalMins S * 60)
      then fold (\<lambda>i r. case map_of (reg_brokers r) i of None \<Rightarrow> r
               | Some st \<Rightarrow> if state_isExpired S now st then snd (removeBroker S e i r) else r)
             (map fst (reg_brokers r)) (r\<lparr>reg_ttlCheckTime := time\<rparr>)
      else r)"

text \<open>Topics as they are read from a message: \<^verbatim>\<open>BrokerStateTopicsEventPayload::read\<close> counts the wildcards of
  the list it reads and keeps the topics as a set.\<close>

definition read_topics :: "string list \<Rightarrow> string list \<times> nat" where
  "read_topics topics = (remdups topics, length (filter isWildcard topics))"

section \<open>Sequences of operations\<close>

datatype reg_op =
    Add_broker int fabric_broker | Remove_broker string | Update_ttl string "32 word"
  | Add_connection string string bool | Remove_connection string string | Set_connections string "string list" "string list"
  | Update_registration int string | Add_topic string string | Remove_topic string string
  | Clear_pending string | Add_pending string "string list" | Swap_pending string | Set_change_count string "32 word"
  | Next_broker string string | Subscriber_in_hierarchy string string string | Core_maintenance int int

fun exec_op :: "settings \<Rightarrow> cache_env \<Rightarrow> reg_op \<Rightarrow> registry \<Rightarrow> registry" where
  "exec_op S e (Add_broker now b) r = snd (registry_addBroker S e now b r)"
| "exec_op S e (Remove_broker i) r = snd (removeBroker S e i r)"
| "exec_op S e (Update_ttl i ttl) r = snd (updateTtl i ttl r)"
| "exec_op S e (Add_connection i c child) r = snd (addConnection e i c child r)"
| "exec_op S e (Remove_connection i c) r = snd (removeConnection e i c r)"
| "exec_op S e (Set_connections i cs children) r = snd (setConnections e i cs children r)"
| "exec_op S e (Update_registration now i) r = snd (updateRegistrationTime now i r)"
| "exec_op S e (Add_topic i t) r = snd (addTopic S e i t r)"
| "exec_op S e (Remove_topic i t) r = snd (removeTopic S e i t r)"
| "exec_op S e (Clear_pending i) r = snd (clearPendingTopics i r)"
| "exec_op S e (Add_pending i ts) r = (case read_topics ts of (subs, n) \<Rightarrow> snd (addPendingTopics i subs n r))"
| "exec_op S e (Swap_pending i) r = snd (swapPendingTopics e i r)"
| "exec_op S e (Set_change_count i n) r = snd (setTopicsChangeCount i n r)"
| "exec_op S e (Next_broker from to) r = snd (getNextBroker from to r)"
| "exec_op S e (Subscriber_in_hierarchy b c t) r = snd (isSubscriberInHierarchy S e b c t r)"
| "exec_op S e (Core_maintenance time now) r = onCoreMaintenance S e time now r"

definition run_ops :: "settings \<Rightarrow> (cache_env \<times> reg_op) list \<Rightarrow> registry \<Rightarrow> registry" where
  "run_ops S = fold (\<lambda>(e, op). exec_op S e op)"

section \<open>Every broker is registered under its name, every cached route leads on\<close>

definition regs_ok :: "fabric \<Rightarrow> bool" where
  "regs_ok G \<longleftrightarrow> (\<forall>i st. map_of G i = Some st \<longrightarrow> state_ok st \<and> fb_id (bs_broker st) = i \<and> i \<noteq> '''')"

text \<open>A hop leads over a connection to a broker from which the target is reached without coming back.\<close>

definition valid_hop :: "fabric \<Rightarrow> string \<Rightarrow> string \<Rightarrow> string \<Rightarrow> bool" where
  "valid_hop G from to next \<longleftrightarrow> next \<in> set (conns G from) \<and> to \<in> reached G from next"

definition routes_ok :: "fabric \<Rightarrow> route_cache \<Rightarrow> bool" where
  "routes_ok G m \<longleftrightarrow> (\<forall>from to next. map_of m (from, to) = Some next \<longrightarrow> next \<noteq> '''' \<and> valid_hop G from to next)"

definition registry_ok :: "registry \<Rightarrow> bool" where
  "registry_ok r \<longleftrightarrow> regs_ok (reg_brokers r) \<and> routes_ok (reg_brokers r) (reg_routes r)"

lemma regs_ok_fabric: "regs_ok G \<Longrightarrow> fabric_ok G"
  by (simp add: regs_ok_def fabric_ok_def)

lemma regs_okD: "regs_ok G \<Longrightarrow> map_of G i = Some st \<Longrightarrow> state_ok st \<and> fb_id (bs_broker st) = i \<and> i \<noteq> ''''"
  by (simp add: regs_ok_def)

lemma regs_ok_put: "regs_ok G \<Longrightarrow> state_ok st \<Longrightarrow> fb_id (bs_broker st) = i \<Longrightarrow> i \<noteq> '''' \<Longrightarrow> regs_ok (AList.update i st G)"
  by (auto simp: regs_ok_def update_conv')

lemma conns_put: "conns (AList.update i st G) x = (if x = i then getConnections st else conns G x)"
  by (simp add: conns_def update_conv')

lemma with_broker_rule:
  assumes "\<And>st. map_of (reg_brokers r) i = Some st \<Longrightarrow> P (snd (f st r))" and "P r"
  shows "P (snd (with_broker i f r))"
  using assms by (simp add: with_broker_def split: option.split)

lemma put_state_fields [simp]:
  "reg_brokers (put_state i st r) = AList.update i st (reg_brokers r)" "reg_routes (put_state i st r) = reg_routes r"
  "reg_topics (put_state i st r) = reg_topics r" "reg_ttlCheckTime (put_state i st r) = reg_ttlCheckTime r"
  by (simp_all add: put_state_def)

lemma clear_fields [simp]:
  "reg_brokers (clearAllCaches e r) = reg_brokers r" "reg_routes (clearAllCaches e r) = []"
  "reg_topics (clearAllCaches e r) = clearCacheWithDelay e (reg_topics r)"
  "reg_brokers (clear_topics e r) = reg_brokers r" "reg_routes (clear_topics e r) = reg_routes r"
  "reg_topics (clear_topics e r) = clearCacheWithDelay e (reg_topics r)"
  "reg_ttlCheckTime (clearAllCaches e r) = reg_ttlCheckTime r" "reg_ttlCheckTime (clear_topics e r) = reg_ttlCheckTime r"
  by (simp_all add: clearAllCaches_def clear_topics_def)

lemma registry_okD:
  assumes "registry_ok r" and "map_of (reg_brokers r) i = Some st"
  shows "state_ok st" and "fb_id (bs_broker st) = i" and "i \<noteq> ''''"
  using assms(1) regs_okD [OF _ assms(2)] by (simp_all add: registry_ok_def)

lemma routes_ok_empty [simp]: "routes_ok G []"
  by (simp add: routes_ok_def)

lemma routes_ok_conns: "(\<And>x. conns G' x = conns G x) \<Longrightarrow> routes_ok G m \<Longrightarrow> routes_ok G' m"
proof -
  assume c: "\<And>x. conns G' x = conns G x" and ok: "routes_ok G m"
  show ?thesis using ok unfolding routes_ok_def valid_hop_def c behind_conns [OF c] .
qed

text \<open>Writing a state back: with the same connections the routes stay, else they are cleared.\<close>

lemma registry_ok_put:
  assumes ok: "registry_ok r" and i: "map_of (reg_brokers r) i = Some st" and st': "state_ok st'" "fb_id (bs_broker st') = i"
    and same: "getConnections st' = getConnections st"
  shows "registry_ok (put_state i st' r)"
proof -
  have c: "conns (AList.update i st' (reg_brokers r)) x = conns (reg_brokers r) x" for x
    using i same unfolding conns_put by (simp add: conns_def)
  have "routes_ok (AList.update i st' (reg_brokers r)) (reg_routes r)" by (rule routes_ok_conns [OF c]) (use ok in \<open>simp add: registry_ok_def\<close>)
  moreover have "i \<noteq> ''''" by (rule registry_okD(3) [OF ok i])
  ultimately show ?thesis using ok st' regs_ok_put [of "reg_brokers r" st' i] by (simp add: registry_ok_def)
qed

lemma registry_ok_put_clear:
  assumes ok: "registry_ok r" and st': "state_ok st'" "fb_id (bs_broker st') = i" "i \<noteq> ''''"
  shows "registry_ok (clearAllCaches e (put_state i st' r))"
  using ok st' regs_ok_put [of "reg_brokers r" st' i] by (simp add: registry_ok_def)

lemma registry_ok_fields:
  "registry_ok r \<Longrightarrow> registry_ok (r\<lparr>reg_topics := s\<rparr>)" "registry_ok r \<Longrightarrow> registry_ok (clear_topics e r)"
  "registry_ok r \<Longrightarrow> registry_ok (r\<lparr>reg_ttlCheckTime := t\<rparr>)"
  by (simp_all add: registry_ok_def)

lemma state_ok_new: "state_ok (new_broker_state now b)"
  by (simp add: state_ok_def new_broker_state_def counts_wild_def getConnections_def)

lemma state_ok_broker: "state_ok (st\<lparr>bs_broker := b\<rparr>) = state_ok st" "state_ok (st\<lparr>bs_regTime := t\<rparr>) = state_ok st"
  "state_ok (st\<lparr>bs_changeCount := n\<rparr>) = state_ok st"
  by (simp_all add: state_ok_def getConnections_def)

lemma getConnections_fields [simp]:
  "getConnections (st\<lparr>bs_broker := b\<rparr>) = getConnections st" "getConnections (st\<lparr>bs_regTime := w\<rparr>) = getConnections st"
  "getConnections (st\<lparr>bs_changeCount := n\<rparr>) = getConnections st" "getConnections (snd (state_addTopic S t st)) = getConnections st"
  "getConnections (snd (state_removeTopic S t st)) = getConnections st" "getConnections (state_addPendingTopics ts n' st) = getConnections st"
  "getConnections (state_clearPendingTopics st) = getConnections st" "getConnections (state_swapPendingTopics st) = getConnections st"
  by (simp_all add: getConnections_def state_addTopic_def state_removeTopic_def state_addPendingTopics_def state_clearPendingTopics_def state_swapPendingTopics_def)

lemma fold_addConnection_broker: "bs_broker (fold (\<lambda>c. state_addConnection c (f c)) cs st) = bs_broker st"
  by (induction cs arbitrary: st) (simp_all add: state_addConnection_def Let_def)

lemma state_broker [simp]:
  "bs_broker (snd (state_addTopic S t st)) = bs_broker st" "bs_broker (snd (state_removeTopic S t st)) = bs_broker st"
  "bs_broker (state_addPendingTopics ts n st) = bs_broker st" "bs_broker (state_clearPendingTopics st) = bs_broker st"
  "bs_broker (state_swapPendingTopics st) = bs_broker st" "bs_broker (state_addConnection c ch st) = bs_broker st"
  "bs_broker (state_removeConnection c st) = bs_broker st" "bs_broker (snd (state_setConnections cs chs st)) = bs_broker st"
  by (simp_all add: state_addTopic_def state_removeTopic_def state_addPendingTopics_def state_clearPendingTopics_def state_swapPendingTopics_def
      state_addConnection_def state_removeConnection_def state_setConnections_def Let_def fold_addConnection_broker split: option.split)

lemma registry_ok_addBroker: "registry_ok r \<Longrightarrow> registry_ok (snd (registry_addBroker S e now b r))"
proof (cases "fb_id b \<noteq> '''' \<and> fb_hostname b \<noteq> ''''")
  case True
  assume ok: "registry_ok r"
  have fresh: "registry_ok (clearAllCaches e (put_state (fb_id b) (new_broker_state now b) r))"
    using True by (intro registry_ok_put_clear [OF ok state_ok_new]) (simp_all add: new_broker_state_def)
  have old: "registry_ok (put_state (fb_id b) (st\<lparr>bs_broker := b\<rparr>) r')"
    if "map_of (reg_brokers r) (fb_id b) = Some st" "registry_ok r'" "reg_brokers r' = reg_brokers r" for st r'
    using that registry_okD(1) [OF ok that(1)] by (intro registry_ok_put [of _ _ st]) (simp_all add: state_ok_broker)
  show ?thesis using True fresh old ok registry_ok_fields(2) [OF ok, of e]
    by (auto simp: registry_addBroker_def Let_def split: option.split)
qed (auto simp: registry_addBroker_def)

lemma map_of_drop:
  "map_of (drop_broker S i G) k = (if k = i then None else map_option (\<lambda>st. if k \<noteq> st_guid S then state_removeConnection i st else st) (map_of G k))"
proof -
  have "map_of (map (\<lambda>(k, st). (k, if k \<noteq> st_guid S then state_removeConnection i st else st)) G) k =
      map_option (\<lambda>st. if k \<noteq> st_guid S then state_removeConnection i st else st) (map_of G k)" for k
    by (induction G) auto
  then show ?thesis by (simp add: drop_broker_def delete_conv' restrict_map_def)
qed

lemma registry_ok_removeBroker: "registry_ok r \<Longrightarrow> registry_ok (snd (removeBroker S e i r))"
  by (auto simp: removeBroker_def registry_ok_def regs_ok_def map_of_drop intro: state_ok_removeConnection split: if_splits)

lemma registry_ok_ops:
  assumes ok: "registry_ok r"
  shows "registry_ok (snd (updateTtl i ttl r))" and "registry_ok (snd (addConnection e i c ch r))" and "registry_ok (snd (removeConnection e i c r))"
    and "registry_ok (snd (updateRegistrationTime now i r))" and "registry_ok (snd (clearPendingTopics i r))"
    and "length (filter isWildcard ts) \<le> n \<Longrightarrow> registry_ok (snd (addPendingTopics i ts n r))"
    and "registry_ok (snd (swapPendingTopics e i r))" and "registry_ok (snd (setTopicsChangeCount i cnt r))"
proof -
  have st: "state_ok st" "fb_id (bs_broker st) = i" "i \<noteq> ''''" if "map_of (reg_brokers r) i = Some st" for st
    using registry_okD [OF ok that] .
  have put: "registry_ok (put_state i st' r)"
    if "map_of (reg_brokers r) i = Some st" "state_ok st'" "fb_id (bs_broker st') = fb_id (bs_broker st)" "getConnections st' = getConnections st" for st st'
    using that st(2) [OF that(1)] by (intro registry_ok_put [OF ok that(1,2)]) simp_all
  show "registry_ok (snd (updateTtl i ttl r))"
    unfolding updateTtl_def by (rule with_broker_rule) (use st put ok in \<open>simp_all add: state_ok_broker\<close>)
  show "registry_ok (snd (updateRegistrationTime now i r))"
    unfolding updateRegistrationTime_def by (rule with_broker_rule) (use st put ok in \<open>simp_all add: state_ok_broker\<close>)
  show "registry_ok (snd (setTopicsChangeCount i cnt r))"
    unfolding setTopicsChangeCount_def by (rule with_broker_rule) (use st put ok in \<open>simp_all add: state_ok_broker\<close>)
  show "registry_ok (snd (clearPendingTopics i r))"
    unfolding clearPendingTopics_def by (rule with_broker_rule) (use st put ok state_ok_topics(4) in simp_all)
  show "registry_ok (snd (swapPendingTopics e i r))"
    unfolding swapPendingTopics_def by (rule with_broker_rule) (use st put ok state_ok_topics(5) registry_ok_fields(2) in simp_all)
  show "registry_ok (snd (addPendingTopics i ts n r))" if "length (filter isWildcard ts) \<le> n"
    unfolding addPendingTopics_def by (rule with_broker_rule) (use st put ok state_ok_topics(3) that in simp_all)
  have clear: "registry_ok (clearAllCaches e (put_state i st' r))"
    if "map_of (reg_brokers r) i = Some st" "state_ok st'" "bs_broker st' = bs_broker st" for st st'
    using that(3) st(2,3) [OF that(1)] by (intro registry_ok_put_clear [OF ok that(2)]) simp_all
  have "registry_ok (snd (with_broker i (\<lambda>st r. (True, clearAllCaches e (put_state i (state_addConnection c ch st) r))) r))"
    by (rule with_broker_rule) (use st clear ok state_ok_addConnection in simp_all)
  then show "registry_ok (snd (addConnection e i c ch r))" using ok by (simp add: addConnection_def)
  have "registry_ok (snd (with_broker i (\<lambda>st r. (True, clearAllCaches e (put_state i (state_removeConnection c st) r))) r))"
    by (rule with_broker_rule) (use st clear ok state_ok_removeConnection in simp_all)
  then show "registry_ok (snd (removeConnection e i c r))" using ok by (simp add: removeConnection_def)
qed

lemma registry_ok_setConnections: "registry_ok r \<Longrightarrow> registry_ok (snd (setConnections e i cs chs r))"
  unfolding setConnections_def
proof (rule with_broker_rule)
  fix st assume ok: "registry_ok r" and st: "map_of (reg_brokers r) i = Some st"
  note s = registry_okD [OF ok st]
  obtain ch st' where sc: "state_setConnections cs chs st = (ch, st')" by (cases "state_setConnections cs chs st")
  have st': "state_ok st'" "fb_id (bs_broker st') = i"
    using state_ok_setConnections [OF s(1), of cs chs] state_broker(8) [of cs chs st] sc s(2) by simp_all
  show "registry_ok (snd (case state_setConnections cs chs st of (changed, st') \<Rightarrow>
      (True, (if changed then clearAllCaches e else id) (put_state i st' r))))"
  proof (cases ch)
    case True
    then show ?thesis using sc registry_ok_put_clear [OF ok st' s(3), of e] by simp
  next
    case False
    then have "st' = st" using setConnections_same [of cs chs st] sc by simp
    then show ?thesis using sc False registry_ok_put [OF ok st s(1,2)] by simp
  qed
qed

lemma registry_ok_topics:
  assumes ok: "registry_ok r"
  shows "registry_ok (snd (addTopic S e i t r))" and "registry_ok (snd (removeTopic S e i t r))"
proof -
  have st: "registry_ok (put_state i st' r)"
    if "map_of (reg_brokers r) i = Some st" "st' = snd (state_addTopic S t st) \<or> st' = snd (state_removeTopic S t st)" for st st'
  proof -
    note s = registry_okD [OF ok that(1)]
    show ?thesis using that s by (intro registry_ok_put [OF ok that(1)]) (auto intro: state_ok_topics)
  qed
  show "registry_ok (snd (addTopic S e i t r))" "registry_ok (snd (removeTopic S e i t r))"
    unfolding addTopic_def removeTopic_def
    by (rule with_broker_rule; use st ok in \<open>force intro!: registry_ok_fields(1) simp: Let_def split: prod.split\<close>)+
qed

section \<open>The next broker\<close>

lemma path_avoiding:
  "successively (\<lambda>x y. y \<in> set (conns G x)) p \<Longrightarrow> p \<noteq> [] \<Longrightarrow> \<forall>x \<in> set p. a x \<Longrightarrow> last p \<in> behind G a (hd p)"
proof (induction p)
  case (Cons x p)
  show ?case
  proof (cases p)
    case (Cons y q)
    then have "y \<in> set (conns G x)" "last p \<in> behind G a y" "a y" "a x" using Cons.IH Cons.prems by simp_all
    then have "last p \<in> behind G a x" by (intro behind_mono [of y G x a])
    then show ?thesis using Cons by simp
  qed (use Cons.prems in \<open>simp add: behind_self\<close>)
qed simp

lemma conns_unregistered: "conns G x \<noteq> [] \<Longrightarrow> map_of G x \<noteq> None"
  by (simp add: conns_def split: option.splits)

lemma found_hop:
  assumes ok: "regs_ok G" and f: "find_path G to [from] [] = (Some p, V)" and ne: "from \<noteq> to" "to \<noteq> ''''"
  shows "hd (tl p) \<noteq> ''''" and "valid_hop G from to (hd (tl p))"
proof -
  have p: "p \<noteq> []" "hd p = from" "last p = to" "distinct p" "successively (\<lambda>x y. y \<in> set (conns G x)) p"
    using find_path_found [OF f] by simp_all
  then obtain q where q: "p = from # q" by (cases p) auto
  then have "q \<noteq> []" using p(3) ne(1) by auto
  then obtain n q' where n: "q = n # q'" by (cases q) auto
  have "n \<in> set (conns G from)" using p(5) q n by simp
  moreover have "to \<in> reached G from n" using path_avoiding [of G q "\<lambda>x. x \<noteq> from"] p(3,4,5) q n by auto
  ultimately show "valid_hop G from to (hd (tl p))" using q n by (simp add: valid_hop_def)
  show "hd (tl p) \<noteq> ''''"
  proof (cases q')
    case Nil
    then show ?thesis using p(3) q n ne(2) by simp
  next
    case (Cons z zs)
    then have "conns G n \<noteq> []" using p(5) q n by auto
    then have "map_of G n \<noteq> None" by (rule conns_unregistered)
    then show ?thesis using regs_okD [OF ok] q n by auto
  qed
qed

lemma valid_hop_behind: "valid_hop G from to next \<Longrightarrow> to \<in> behind G anyone from"
proof -
  assume v: "valid_hop G from to next"
  have "(next, to) \<in> (links G (\<lambda>x. x \<noteq> from))\<^sup>*" using v by (simp add: valid_hop_def behind_def)
  then have "(next, to) \<in> (links G anyone)\<^sup>*" by (rule rtrancl_mono [THEN subsetD, rotated]) (auto simp: links_def)
  moreover have "(from, next) \<in> links G anyone" using v by (simp add: valid_hop_def links_def)
  ultimately show ?thesis by (simp add: behind_def converse_rtrancl_into_rtrancl)
qed

lemma routes_ok_add: "routes_ok G m \<Longrightarrow> next \<noteq> '''' \<Longrightarrow> valid_hop G from to next \<Longrightarrow> routes_ok G (cache_add from to next m)"
  by (auto simp: routes_ok_def cache_add_def update_conv' split: if_splits)

lemma next_broker_cases:
  assumes ok: "registry_ok r"
  obtains "\<not> (broker_exists from r \<and> broker_exists to r)" "getNextBroker from to r = ('''', r)"
  | "broker_exists from r" "from = to" "getNextBroker from to r = (to, r)"
  | n r' where "broker_exists from r" "broker_exists to r" "from \<noteq> to" "n \<noteq> ''''" "valid_hop (reg_brokers r) from to n"
      "getNextBroker from to r = (n, r')" "registry_ok r'" "reg_brokers r' = reg_brokers r" "reg_topics r' = reg_topics r"
  | "from \<noteq> to" "getNextBroker from to r = ('''', r)" "to \<notin> behind (reg_brokers r) anyone from"
proof (cases "broker_exists from r \<and> broker_exists to r \<and> from \<noteq> to")
  case False
  then consider "\<not> (broker_exists from r \<and> broker_exists to r)" | "broker_exists from r" "from = to" by blast
  then show ?thesis
  proof cases
    case 1
    then show ?thesis by (intro that(1)) (auto simp: getNextBroker_def)
  next
    case 2
    then show ?thesis by (intro that(2)) (auto simp: getNextBroker_def broker_exists_def)
  qed
next
  case True
  then have ne: "from \<noteq> ''''" "to \<noteq> ''''" by (simp_all add: broker_exists_def)
  show ?thesis
  proof (cases "cache_get from to (reg_routes r) = ''''")
    case False
    then have "map_of (reg_routes r) (from, to) = Some (cache_get from to (reg_routes r))"
      using ne by (simp add: cache_get_def split: option.splits)
    then have "valid_hop (reg_brokers r) from to (cache_get from to (reg_routes r))" using ok unfolding registry_ok_def routes_ok_def by blast
    then show ?thesis using that(3) [of "cache_get from to (reg_routes r)" r] True False ne ok by (simp add: getNextBroker_def)
  next
    case cached: True
    obtain x V where f: "find_path (reg_brokers r) to [from] [] = (x, V)" by (cases "find_path (reg_brokers r) to [from] []")
    show ?thesis
    proof (cases x)
      case None
      then have "to \<notin> behind (reg_brokers r) anyone from" using find_path_complete [of "reg_brokers r" to "from"] f by auto
      then show ?thesis using that(4) True cached ne f None by (simp add: getNextBroker_def)
    next
      case (Some p)
      have ro: "regs_ok (reg_brokers r)" using ok by (simp add: registry_ok_def)
      have h: "hd (tl p) \<noteq> ''''" "valid_hop (reg_brokers r) from to (hd (tl p))" using found_hop [OF ro] f Some True ne by simp_all
      then have "registry_ok (r\<lparr>reg_routes := cache_add from to (hd (tl p)) (reg_routes r)\<rparr>)"
        using ok routes_ok_add by (simp add: registry_ok_def)
      then show ?thesis
        using that(3) [of "hd (tl p)" "r\<lparr>reg_routes := cache_add from to (hd (tl p)) (reg_routes r)\<rparr>"] True cached ne f Some h
        by (simp add: getNextBroker_def)
    qed
  qed
qed

lemma registry_ok_next: "registry_ok r \<Longrightarrow> registry_ok (snd (getNextBroker from to r))"
  by (rule next_broker_cases [of r "from" to]) simp_all

lemma registry_ok_maintenance: "registry_ok r \<Longrightarrow> registry_ok (onCoreMaintenance S e time now r)"
proof -
  assume ok: "registry_ok r"
  have "registry_ok (fold (\<lambda>i r. case map_of (reg_brokers r) i of None \<Rightarrow> r
      | Some st \<Rightarrow> if state_isExpired S now st then snd (removeBroker S e i r) else r) ks r)" if "registry_ok r" for ks r
    using that by (induction ks arbitrary: r) (auto simp: registry_ok_removeBroker split: option.split)
  then show ?thesis using ok registry_ok_fields(3) [OF ok] by (simp add: onCoreMaintenance_def)
qed

lemma registry_ok_exec: "registry_ok r \<Longrightarrow> registry_ok (exec_op S e op r)"
proof (cases op)
  case (Add_pending i ts)
  have "length (filter isWildcard (remdups ts)) \<le> length (filter isWildcard ts)"
    using length_remdups_leq [of "filter isWildcard ts"] by (simp add: remdups_filter)
  then show "registry_ok r \<Longrightarrow> ?thesis" using Add_pending registry_ok_ops(6) [of r "remdups ts"] by (simp add: read_topics_def)
next
  case (Subscriber_in_hierarchy b c t)
  then show "registry_ok r \<Longrightarrow> ?thesis" by (simp add: isSubscriberInHierarchy_def registry_ok_fields split: prod.split)
qed (simp_all add: registry_ok_addBroker registry_ok_removeBroker registry_ok_ops registry_ok_setConnections registry_ok_topics registry_ok_next registry_ok_maintenance)

lemma registry_ok_run: "registry_ok r \<Longrightarrow> registry_ok (run_ops S ops r)"
  unfolding run_ops_def by (induction ops arbitrary: r) (auto intro: registry_ok_exec)

lemma registry_ok_new: "registry_ok (new_registry e)"
  by (simp add: registry_ok_def regs_ok_def new_registry_def)

text \<open>C10. In every state that the registry reaches by its operations, in any order, the next broker on the way
  from one broker to another is right: there is one exactly when both are registered and the connections
  lead from one to the other; it is then the broker itself, or a neighbour from which the target is
  reached without coming back. A route kept in the cache is as good as a new one.\<close>

theorem next_broker_leads_to_the_target:
  assumes "r = run_ops S ops (new_registry e)" and "getNextBroker from to r = (n, r')"
  shows "(n = '''') = (\<not> (broker_exists from r \<and> broker_exists to r \<and> to \<in> behind (reg_brokers r) anyone from)) \<and>
    (n \<noteq> '''' \<longrightarrow> n = to \<and> from = to \<or> from \<noteq> to \<and> valid_hop (reg_brokers r) from to n)"
proof -
  have ok: "registry_ok r" using assms(1) registry_ok_run [OF registry_ok_new] by simp
  have self: "x \<in> behind (reg_brokers r) anyone x" for x by (simp add: behind_def)
  show ?thesis
    by (rule next_broker_cases [OF ok, of "from" to])
      (use assms(2) self valid_hop_behind [of "reg_brokers r" "from" to] in \<open>auto simp: broker_exists_def\<close>)
qed

section \<open>Subscribers behind a connection\<close>

lemma topic_change_put:
  assumes "map_of G i = Some st" and "getConnections st' = getConnections st" and "isTopicRoutingEnabled S st' = isTopicRoutingEnabled S st"
  shows "topic_change S G (AList.update i st' G) i"
  using assms by (auto simp: topic_change_def conns_def no_routing_def topics_at_def update_conv')

lemma topics_at_put: "topics_at (AList.update i st G) i = set (bs_topics st)"
  by (simp add: topics_at_def update_conv')

lemma service_ok_view:
  assumes ch: "topic_change S G G' i" and same: "topics_at G' i = topics_at G i" and ok: "service_ok S G s"
  shows "service_ok S G' s"
proof -
  have t: "topics_at G' x = topics_at G x" for x using same topic_changeD(4) [OF ch, of x] by (cases "x = i") simp_all
  have g: "gathered G' xs bc = gathered G xs bc" for xs bc
    unfolding gathered_def t [abs_def] by (simp add: t topic_changeD(3) [OF ch])
  have b: "reached G' b c = reached G b c" for b c by (rule behind_conns [OF topic_changeD(1) [OF ch]])
  have r: "routed S G' b c bc = routed S G b c bc" for b c bc
    unfolding routed_def g b topic_changeD(2) [OF ch] ..
  have "coherent S G' b c bc = coherent S G b c bc" for b c bc
    unfolding coherent_def r b topic_changeD(2) [OF ch] ..
  then show ?thesis using ok by (simp add: service_ok_def caches_ok_def topic_changeD(1) [OF ch])
qed

lemma service_ok_put:
  assumes "service_ok S G s" and "map_of G i = Some st" and "getConnections st' = getConnections st"
    and "isTopicRoutingEnabled S st' = isTopicRoutingEnabled S st" and "set (bs_topics st') = set (bs_topics st)"
  shows "service_ok S (AList.update i st' G) s"
proof (rule service_ok_view [OF topic_change_put [OF assms(2-4)] _ assms(1)])
  show "topics_at (AList.update i st' G) i = topics_at G i" using assms(2,5) by (simp add: topics_at_put) (simp add: topics_at_def)
qed

abbreviation cache_ok :: "settings \<Rightarrow> registry \<Rightarrow> bool" where
  "cache_ok S r \<equiv> service_ok S (reg_brokers r) (reg_topics r)"

lemma cache_ok_clear: "cache_ok S (clearAllCaches e r)" "cache_ok S (clear_topics e r)"
  by (simp_all add: tcs.cleared_ok)

lemma routing_fields [simp]:
  "isTopicRoutingEnabled S (st\<lparr>bs_regTime := t\<rparr>) = isTopicRoutingEnabled S st"
  "isTopicRoutingEnabled S (st\<lparr>bs_changeCount := n\<rparr>) = isTopicRoutingEnabled S st"
  "isTopicRoutingEnabled S (st\<lparr>bs_broker := (bs_broker st)\<lparr>fb_ttl := ttl\<rparr>\<rparr>) = isTopicRoutingEnabled S st"
  "isTopicRoutingEnabled S (snd (state_addTopic S' p st)) = isTopicRoutingEnabled S st"
  "isTopicRoutingEnabled S (snd (state_removeTopic S' p st)) = isTopicRoutingEnabled S st"
  "isTopicRoutingEnabled S (state_clearPendingTopics st) = isTopicRoutingEnabled S st"
  "isTopicRoutingEnabled S (state_addPendingTopics ts m st) = isTopicRoutingEnabled S st"
  by (simp_all add: isTopicRoutingEnabled_def isLocalBroker_def)

lemma cache_ok_put:
  assumes ok: "cache_ok S r"
    and f: "\<And>st. getConnections (f st) = getConnections st" "\<And>st. isTopicRoutingEnabled S (f st) = isTopicRoutingEnabled S st"
      "\<And>st. bs_topics (f st) = bs_topics st"
  shows "cache_ok S (snd (with_broker i (\<lambda>st r. (True, put_state i (f st) r)) r))"
  by (rule with_broker_rule) (simp_all add: ok service_ok_put [OF ok _ f(1,2)] f(3))

lemma cache_ok_addBroker: "registry_ok r \<Longrightarrow> cache_ok S r \<Longrightarrow> cache_ok S (snd (registry_addBroker S e now b r))"
proof (cases "fb_id b \<noteq> '''' \<and> fb_hostname b \<noteq> ''''")
  case True
  assume ok: "registry_ok r" and c: "cache_ok S r"
  have old: "cache_ok S (put_state (fb_id b) (st\<lparr>bs_broker := b\<rparr>) (if isTopicRoutingEnabled S st \<noteq> fb_topicRoutingEnabled b then clear_topics e r else r))"
    if st: "map_of (reg_brokers r) (fb_id b) = Some st" for st
  proof (cases "isTopicRoutingEnabled S st = fb_topicRoutingEnabled b")
    case True
    have "fb_id (bs_broker st) = fb_id b" by (rule registry_okD(2) [OF ok st])
    then have "isTopicRoutingEnabled S (st\<lparr>bs_broker := b\<rparr>) = isTopicRoutingEnabled S st"
      using True by (auto simp: isTopicRoutingEnabled_def isLocalBroker_def split: if_splits)
    then show ?thesis using True service_ok_put [OF c st] by simp
  next
    case False
    then show ?thesis by (simp add: tcs.cleared_ok)
  qed
  have fresh: "cache_ok S (clearAllCaches e (put_state (fb_id b) (new_broker_state now b) r))" by (rule cache_ok_clear)
  show ?thesis
  proof (cases "map_of (reg_brokers r) (fb_id b)")
    case None
    then show ?thesis using True fresh by (simp add: registry_addBroker_def Let_def)
  next
    case (Some st)
    then show ?thesis using True fresh old [OF Some] by (auto simp: registry_addBroker_def Let_def)
  qed
qed (auto simp: registry_addBroker_def)

lemma cache_ok_topics:
  assumes ok: "registry_ok r" and c: "cache_ok S r" and tree: "tree_fabric (reg_brokers r)"
  shows "cache_ok S (snd (addTopic S e i t r))" and "cache_ok S (snd (removeTopic S e i t r))"
proof -
  have ch: "topic_change S (reg_brokers r) (AList.update i (snd (state_addTopic S t st)) (reg_brokers r)) i"
      "topic_change S (reg_brokers r) (AList.update i (snd (state_removeTopic S t st)) (reg_brokers r)) i"
      "topics_at (reg_brokers r) i = set (bs_topics st)" "map_of (reg_brokers r) i \<noteq> None"
    if "map_of (reg_brokers r) i = Some st" for st
    using that by (simp_all add: topic_change_put topics_at_def)
  show "cache_ok S (snd (addTopic S e i t r))"
    unfolding addTopic_def
  proof (rule with_broker_rule)
    fix st assume st: "map_of (reg_brokers r) i = Some st"
    have "service_ok S (AList.update i (snd (state_addTopic S t st)) (reg_brokers r))
        (service_addTopic e (AList.update i (snd (state_addTopic S t st)) (reg_brokers r)) i t (reg_topics r))"
      by (rule tcs.added_ok [OF c tree ch(1) [OF st] _ ch(4) [OF st]]) (simp add: topics_at_put set_addTopic ch(3) [OF st])
    then show "cache_ok S (snd (case state_addTopic S t st of (changed, st') \<Rightarrow>
        if changed then let r' = put_state i st' r in (True, r'\<lparr>reg_topics := service_addTopic e (reg_brokers r') i t (reg_topics r')\<rparr>) else (False, r)))"
      using c by (simp add: split_beta Let_def)
  qed (rule c)
  show "cache_ok S (snd (removeTopic S e i t r))"
    unfolding removeTopic_def
  proof (rule with_broker_rule)
    fix st assume st: "map_of (reg_brokers r) i = Some st"
    have "service_ok S (AList.update i (snd (state_removeTopic S t st)) (reg_brokers r))
        (service_removeTopic e (AList.update i (snd (state_removeTopic S t st)) (reg_brokers r)) i t (reg_topics r))"
      by (rule tcs.removed_ok [OF c tree ch(2) [OF st] _ ch(4) [OF st]])
        (simp add: topics_at_put set_removeTopic [OF registry_okD(1) [OF ok st]] ch(3) [OF st])
    then show "cache_ok S (snd (case state_removeTopic S t st of (changed, st') \<Rightarrow>
        if changed then let r' = put_state i st' r in (True, r'\<lparr>reg_topics := service_removeTopic e (reg_brokers r') i t (reg_topics r')\<rparr>) else (False, r)))"
      using c by (simp add: split_beta Let_def)
  qed (rule c)
qed

lemma cache_ok_removeBroker: "cache_ok S r \<Longrightarrow> cache_ok S (snd (removeBroker S e i r))"
  by (simp add: removeBroker_def tcs.cleared_ok)

lemma cache_ok_setConnections: "cache_ok S r \<Longrightarrow> cache_ok S (snd (setConnections e i cs chs r))"
  unfolding setConnections_def
proof (rule with_broker_rule)
  fix st assume c: "cache_ok S r" and st: "map_of (reg_brokers r) i = Some st"
  obtain ch st' where sc: "state_setConnections cs chs st = (ch, st')" by (cases "state_setConnections cs chs st")
  show "cache_ok S (snd (case state_setConnections cs chs st of (changed, st') \<Rightarrow>
      (True, (if changed then clearAllCaches e else id) (put_state i st' r))))"
  proof (cases ch)
    case False
    then have "st' = st" using setConnections_same [of cs chs st] sc by simp
    then show ?thesis using sc False c st by (simp add: update_triv)
  qed (simp add: sc tcs.cleared_ok)
qed

lemma cache_ok_maintenance: "cache_ok S r \<Longrightarrow> cache_ok S (onCoreMaintenance S e time now r)"
proof -
  assume c: "cache_ok S r"
  have "cache_ok S (fold (\<lambda>i r. case map_of (reg_brokers r) i of None \<Rightarrow> r
      | Some st \<Rightarrow> if state_isExpired S now st then snd (removeBroker S e i r) else r) ks r)" if "cache_ok S r" for ks r
    using that by (induction ks arbitrary: r) (auto simp: cache_ok_removeBroker split: option.split)
  then show ?thesis using c by (simp add: onCoreMaintenance_def)
qed

lemma cache_ok_exec:
  assumes ok: "registry_ok r" and c: "cache_ok S r" and tree: "tree_fabric (reg_brokers r)"
  shows "cache_ok S (exec_op S e op r)"
proof (cases op)
  case (Next_broker x y)
  have "cache_ok S (snd (getNextBroker x y r))" by (rule next_broker_cases [OF ok, of x y]) (simp_all add: c)
  then show ?thesis using Next_broker by simp
next
  case (Subscriber_in_hierarchy b k t)
  have "service_ok S (reg_brokers r) (snd (snd (service_isSubscriber S e (reg_brokers r) b k t (reg_topics r))))"
    using tcs.ask_ok [OF c regs_ok_fabric, of e "(b, k, t)"] ok by (simp add: registry_ok_def)
  then show ?thesis using Subscriber_in_hierarchy by (simp add: isSubscriberInHierarchy_def split_beta)
next
  case (Update_ttl i ttl)
  then show ?thesis using c by (simp add: updateTtl_def cache_ok_put)
next
  case (Update_registration now i)
  then show ?thesis using c by (simp add: updateRegistrationTime_def cache_ok_put)
next
  case (Set_change_count i n)
  then show ?thesis using c by (simp add: setTopicsChangeCount_def cache_ok_put)
next
  case (Clear_pending i)
  have "cache_ok S (snd (clearPendingTopics i r))" unfolding clearPendingTopics_def
    by (rule cache_ok_put [OF c]) (simp_all, simp add: state_clearPendingTopics_def)
  then show ?thesis using Clear_pending by simp
next
  case (Add_pending i ts)
  have "cache_ok S (snd (addPendingTopics i us n r))" for us n unfolding addPendingTopics_def
    by (rule cache_ok_put [OF c]) (simp_all, simp add: state_addPendingTopics_def)
  then show ?thesis using Add_pending by (simp add: read_topics_def)
next
  case (Swap_pending i)
  then show ?thesis using c by (simp add: swapPendingTopics_def with_broker_def tcs.cleared_ok split: option.split)
next
  case (Add_connection i k ch)
  then show ?thesis using c by (simp add: addConnection_def with_broker_def tcs.cleared_ok split: option.split)
next
  case (Remove_connection i k)
  then show ?thesis using c by (simp add: removeConnection_def with_broker_def tcs.cleared_ok split: option.split)
qed (simp_all add: assms cache_ok_addBroker cache_ok_removeBroker cache_ok_setConnections cache_ok_topics cache_ok_maintenance)

text \<open>The fabric is a tree before every operation and at the end.\<close>

fun always_tree :: "settings \<Rightarrow> (cache_env \<times> reg_op) list \<Rightarrow> registry \<Rightarrow> bool" where
  "always_tree S [] r \<longleftrightarrow> tree_fabric (reg_brokers r)"
| "always_tree S ((e, op) # ops) r \<longleftrightarrow> tree_fabric (reg_brokers r) \<and> always_tree S ops (exec_op S e op r)"

lemma cache_ok_run: "registry_ok r \<Longrightarrow> cache_ok S r \<Longrightarrow> always_tree S ops r \<Longrightarrow> cache_ok S (run_ops S ops r)"
proof (induction ops arbitrary: r)
  case (Cons x ops)
  obtain e op where x: "x = (e, op)" by (cases x)
  have "cache_ok S (run_ops S ops (exec_op S e op r))"
    using Cons.prems x by (intro Cons.IH registry_ok_exec cache_ok_exec) simp_all
  then show ?case using x by (simp add: run_ops_def)
qed (simp add: run_ops_def)

lemma cache_ok_new: "cache_ok S (new_registry e)"
  by (simp add: new_registry_def service_ok_def checkEnabled_def clearCache_def checkEnabled_clear_def Let_def reset_time_def split: bool.split)

lemma find_subscriber_iff: "find_subscriber S G b c topic \<longleftrightarrow> (\<exists>x \<in> reached G b c. isSubscriberInBroker S G x topic)"
proof (cases "traverse G (\<lambda>to. to \<noteq> b) (\<lambda>to. isSubscriberInBroker S G to topic) [c] []")
  case (Pair go V)
  then show ?thesis using traverse_behind(1) [OF Pair] by (simp add: find_subscriber_def)
qed

text \<open>C8. The registry answers the question whether a broker behind a connection has a subscriber for a topic
  the way a search of the whole fabric would, in every state it reaches and with whatever the cache of topics holds, half built,
  complete, switched off or delayed: the answer is yes exactly when some broker that is reached over the
  connection, without going through the asking broker, has no topic routing or has a topic or a
  wildcard that covers the one asked for. The fabric has to be a tree while the operations run.\<close>

theorem subscriber_cache_agrees_with_search:
  assumes "r = run_ops S ops (new_registry e0)" and "always_tree S ops (new_registry e0)"
  shows "fst (isSubscriberInHierarchy S e b c topic r) \<longleftrightarrow>
    (\<exists>x \<in> behind (reg_brokers r) (\<lambda>to. to \<noteq> b) c. \<exists>st. map_of (reg_brokers r) x = Some st \<and> wants S st topic)"
proof -
  have ok: "registry_ok r" using assms(1) registry_ok_run [OF registry_ok_new] by simp
  have co: "cache_ok S r" using assms cache_ok_run [OF registry_ok_new cache_ok_new] by simp
  have fo: "fabric_ok (reg_brokers r)" using ok by (intro regs_ok_fabric) (simp add: registry_ok_def)
  have "fst (isSubscriberInHierarchy S e b c topic r) = (\<exists>x \<in> reached (reg_brokers r) b c. isSubscriberInBroker S (reg_brokers r) x topic)"
    using tcs.answer_right [OF co fo, of "find_subscriber S (reg_brokers r) b c topic" "(b, c, topic)" e] find_subscriber_iff
    by (simp add: isSubscriberInHierarchy_def split_beta)
  moreover have "isSubscriberInBroker S (reg_brokers r) x topic \<longleftrightarrow> (\<exists>st. map_of (reg_brokers r) x = Some st \<and> wants S st topic)" for x
    using isSubscriberInBroker_wants [of "reg_brokers r" x S topic] fo by (auto simp: fabric_ok_def split: option.splits)
  ultimately show ?thesis by simp
qed

section \<open>An example\<close>

text \<open>Two brokers; the second one has a wildcard subscription, which the cache knows after the second question.\<close>

definition sample_fabric_broker :: "string \<Rightarrow> fabric_broker" where
  "sample_fabric_broker i = \<lparr>fb_id = i, fb_hostname = ''h'', fb_port = 8883, fb_ttl = 5, fb_startTime = 1, fb_webSocketPort = 443,
     fb_policyHostname = '''', fb_policyIpAddress = '''', fb_policyHubName = '''', fb_policyPort = 8883, fb_brokerVersion = '''',
     fb_connectionLimit = 0, fb_topicRoutingEnabled = True\<rparr>"

definition sample_settings :: settings where
  "sample_settings = \<lparr>st_guid = ''a'', st_topicRoutingEnabled = True, st_ttlGracePeriodMins = 1, st_ttlCheckIntervalMins = 1, st_cacheClearDelay = 0\<rparr>"

definition sample_env :: cache_env where
  "sample_env = \<lparr>ce_enabled = True, ce_time = 100, ce_delay = 0\<rparr>"

definition sample_ops :: "reg_op list" where
  "sample_ops = [Add_broker 0 (sample_fabric_broker ''a''), Add_broker 0 (sample_fabric_broker ''b''), Add_connection ''a'' ''b'' False,
     Subscriber_in_hierarchy ''a'' ''b'' ''/u'', Subscriber_in_hierarchy ''a'' ''b'' ''/u'', Add_topic ''b'' ''/t/#'', Next_broker ''a'' ''b'']"

definition sample_run :: "(cache_env \<times> reg_op) list" where
  "sample_run = map (Pair sample_env) sample_ops"

definition sample_state :: "string \<Rightarrow> broker_state" where
  "sample_state i = new_broker_state 0 (sample_fabric_broker i)"

lemmas sample_simps = sample_env_def sample_settings_def sample_fabric_broker_def sample_state_def new_broker_state_def
  registry_addBroker_def addConnection_def addTopic_def with_broker_def put_state_def clearAllCaches_def broker_exists_def
  clearCacheWithDelay_def clearCache_def checkEnabled_clear_def checkEnabled_def enabled_now_def reset_time_def
  state_addConnection_def state_addTopic_def isLocalBroker_def isTopicRoutingEnabled_def Let_def

lemma sample_built: "run_ops sample_settings (take 3 sample_run) (new_registry sample_env) =
   \<lparr>reg_brokers = [(''a'', (sample_state ''a'')\<lparr>bs_connections := [(''b'', 1)]\<rparr>), (''b'', sample_state ''b'')], reg_routes = [],
     reg_topics = \<lparr>tcs_caches = [], tcs_wasEnabled = True, tcs_enabledTime = 0\<rparr>, reg_ttlCheckTime = 0\<rparr>"
  by (simp add: run_ops_def sample_run_def sample_ops_def new_registry_def sample_simps)

lemmas sample_search = conns_def getConnections_def traverse.simps find_path.simps no_routing_def hasTopic_def registry_hasTopic_def
  isSubscriberInHierarchy_def service_isSubscriber_def getBrokerCache_def getBridgeCache_def bridge_isSubscriber_def
  buildCacheIncrement_def new_bridge_cache_def service_addTopic_def on_all_def bridge_addTopic_def containsBroker_def isBrokerCached_def
  cache_addTopic_def isWildcard_def

definition sample_registry :: registry where
  "sample_registry =
   \<lparr>reg_brokers = [(''a'', (sample_state ''a'')\<lparr>bs_connections := [(''b'', 1)]\<rparr>), (''b'', (sample_state ''b'')\<lparr>bs_topics := [''/t/#''], bs_wildcards := 1\<rparr>)],
     reg_routes = [((''a'', ''b''), ''b'')],
     reg_topics = \<lparr>tcs_caches = [(''a'', [(''b'', \<lparr>bc_brokers = [''b''], bc_left = [], bc_cached = [''b''], bc_topics = [''/t/#''], bc_wildcardCount = 1,
       bc_enabled = True, bc_state = Completed\<rparr>)])], tcs_wasEnabled = True, tcs_enabledTime = 0\<rparr>, reg_ttlCheckTime = 0\<rparr>"

lemma sample_run_registry: "run_ops sample_settings sample_run (new_registry sample_env) = sample_registry"
proof -
  have d: "drop 3 sample_run = map (Pair sample_env) [Subscriber_in_hierarchy ''a'' ''b'' ''/u'', Subscriber_in_hierarchy ''a'' ''b'' ''/u'',
      Add_topic ''b'' ''/t/#'', Next_broker ''a'' ''b'']" by (simp add: sample_run_def sample_ops_def)
  have a: "run_ops S (xs @ ys) r = run_ops S ys (run_ops S xs r)" for S xs ys r by (simp add: run_ops_def)
  show ?thesis
    unfolding a [of sample_settings "take 3 sample_run" "drop 3 sample_run" "new_registry sample_env", unfolded append_take_drop_id] sample_built d
    by (simp add: run_ops_def sample_simps sample_search getNextBroker_def cache_get_def cache_add_def sample_registry_def)
qed

theorem next_broker_leads_to_the_target_witness:
  "fst (getNextBroker ''a'' ''b'' (run_ops sample_settings sample_run (new_registry sample_env))) = ''b'' \<and>
   valid_hop (reg_brokers (run_ops sample_settings sample_run (new_registry sample_env))) ''a'' ''b'' ''b''"
proof -
  have n: "getNextBroker ''a'' ''b'' sample_registry = (''b'', sample_registry)"
    by (simp add: getNextBroker_def sample_registry_def broker_exists_def cache_get_def Let_def)
  show ?thesis
    using next_broker_leads_to_the_target [of sample_registry sample_settings sample_run sample_env "''a''" "''b''" "''b''" sample_registry] n
    by (simp add: sample_run_registry)
qed

theorem subscriber_cache_agrees_with_search_witness:
  "fst (isSubscriberInHierarchy sample_settings sample_env ''a'' ''b'' ''/t/x'' (run_ops sample_settings sample_run (new_registry sample_env)))"
proof -
  have t: "always_tree sample_settings sample_run (new_registry sample_env)"
    by (simp add: sample_run_def sample_ops_def new_registry_def sample_simps sample_search tree_fabric_def getNextBroker_def cache_get_def cache_add_def)
  have w: "''/t/#'' \<in> set (wildcards ''/t/x'')" by (simp add: wildcards_covering covering_def numeral_eq_Suc)
  have "''b'' \<in> behind (reg_brokers sample_registry) (\<lambda>to. to \<noteq> ''a'') ''b''" by (simp add: behind_self)
  moreover have "map_of (reg_brokers sample_registry) ''b'' = Some ((sample_state ''b'')\<lparr>bs_topics := [''/t/#''], bs_wildcards := 1\<rparr>)"
    by (simp add: sample_registry_def)
  moreover have "wants sample_settings ((sample_state ''b'')\<lparr>bs_topics := [''/t/#''], bs_wildcards := 1\<rparr>) ''/t/x''"
    using w by (auto simp: wants_def covers_def)
  ultimately show ?thesis
    using subscriber_cache_agrees_with_search [OF refl t, of sample_env "''a''" "''b''" "''/t/x''"] unfolding sample_run_registry by blast
qed

end
