(* ===== verification/Topic_Sync.thy ===== *)
theory Topic_Sync
  imports Broker_Registry
begin

text \<open>
  How a broker learns of the topics of another one. A broker tells the fabric of every topic that gets its
  first or loses its last subscriber, and now and then sends all its topics in batches
  (src/brokerlib/core/src/CoreInterface.cpp); the others follow
  (src/brokerlib/message/handler/src/BrokerTopicEventHandler.cpp and BrokerStateTopicsEventHandler.cpp).
  Messages may be lost. The count of changes that each message carries shows the receiver whether it
  missed one. The messages are records here: their headers and payloads as they are after parsing.
\<close>

section \<open>The sender: CoreInterface.cpp\<close>

record topic_event =
  ev_added :: bool
  ev_topic :: string
  ev_startTime :: nat
  ev_changeCount :: "32 word"

record topics_event =
  te_state :: "8 word"
  te_topics :: "string list"
  te_index :: nat
  te_startTime :: nat
  te_changeCount :: "32 word"

definition DXL_CLIENT_PREFIX_BRACKET :: string where
  "DXL_CLIENT_PREFIX_BRACKET = ''/mcafee/client/{''"

definition client_channel :: "string \<Rightarrow> bool" where
  "client_channel topic \<longleftrightarrow> take (length DXL_CLIENT_PREFIX_BRACKET) topic = DXL_CLIENT_PREFIX_BRACKET"

definition local_event :: "settings \<Rightarrow> bool \<Rightarrow> string \<Rightarrow> registry \<Rightarrow> topic_event list" where
  "local_event S added topic r = (case map_of (reg_brokers r) (st_guid S) of None \<Rightarrow> []
     | Some st \<Rightarrow> [\<lparr>ev_added = added, ev_topic = topic, ev_startTime = fb_startTime (bs_broker st), ev_changeCount = bs_changeCount st\<rparr>])"

definition onTopicAddedToBroker :: "settings \<Rightarrow> cache_env \<Rightarrow> string \<Rightarrow> registry \<Rightarrow> topic_event list \<times> registry" where
  "onTopicAddedToBroker S e topic r =
     (if st_topicRoutingEnabled S \<and> \<not> client_channel topic
      then let r' = snd (addTopic S e (st_guid S) topic r) in (local_event S True topic r', r') else ([], r))"

definition onTopicRemovedFromBroker :: "settings \<Rightarrow> cache_env \<Rightarrow> string \<Rightarrow> registry \<Rightarrow> topic_event list \<times> registry" where
  "onTopicRemovedFromBroker S e topic r =
     (if st_topicRoutingEnabled S \<and> \<not> client_channel topic
      then let r' = snd (removeTopic S e (st_guid S) topic r) in (local_event S False topic r', r') else ([], r))"

abbreviation "STATE_START \<equiv> (1 :: 8 word)"
abbreviation "STATE_END \<equiv> (2 :: 8 word)"

definition handleBatch :: "broker_state \<Rightarrow> batch \<Rightarrow> topics_event" where
  "handleBatch st = (\<lambda>(topics, index, isFirst, isLast).
     \<lparr>te_state = or (if isFirst then STATE_START else 0) (if isLast then STATE_END else 0), te_topics = topics, te_index = index,
      te_startTime = fb_startTime (bs_broker st), te_changeCount = bs_changeCount st\<rparr>)"

definition sendLocalBrokerTopics :: "settings \<Rightarrow> nat \<Rightarrow> registry \<Rightarrow> topics_event list" where
  "sendLocalBrokerTopics S charCount r =
     (if st_topicRoutingEnabled S
      then (case map_of (reg_brokers r) (st_guid S) of None \<Rightarrow> [] | Some st \<Rightarrow> map (handleBatch st) (batchTopics charCount st))
      else [])"

text \<open>A bridge to a broker is refused while there is a route to it.\<close>

definition isBridgeConnectAllowed :: "settings \<Rightarrow> string \<Rightarrow> registry \<Rightarrow> bool \<times> registry" where
  "isBridgeConnectAllowed S brokerId r = (case getNextBroker (st_guid S) brokerId r of (next, r') \<Rightarrow> (next = '''', r'))"

section \<open>The receiver\<close>

text \<open>BrokerTopicEventHandler.cpp; \<open>source\<close> is the broker the message comes from, \<open>isLocal\<close> tells whether this
  broker itself is.\<close>

definition onTopicEvent :: "settings \<Rightarrow> cache_env \<Rightarrow> bool \<Rightarrow> string \<Rightarrow> topic_event \<Rightarrow> registry \<Rightarrow> registry" where
  "onTopicEvent S e isLocal source ev r =
     (if st_topicRoutingEnabled S \<and> \<not> isLocal then
        let validState = (case map_of (reg_brokers r) source of None \<Rightarrow> True
              | Some st \<Rightarrow> fb_startTime (bs_broker st) = ev_startTime ev \<and> bs_changeCount st = ev_changeCount ev - 1);
            r1 = (if ev_added ev then snd (addTopic S e source (ev_topic ev) r) else snd (removeTopic S e source (ev_topic ev) r))
        in if validState then snd (setTopicsChangeCount source (ev_changeCount ev) r1) else r1
      else r)"

text \<open>BrokerStateTopicsEventHandler.cpp.\<close>

definition onTopicsEvent :: "settings \<Rightarrow> cache_env \<Rightarrow> bool \<Rightarrow> string \<Rightarrow> topics_event \<Rightarrow> registry \<Rightarrow> registry" where
  "onTopicsEvent S e isLocal source ev r =
     (if st_topicRoutingEnabled S \<and> \<not> isLocal then
        (case map_of (reg_brokers r) source of None \<Rightarrow> r
         | Some st \<Rightarrow>
             if fb_startTime (bs_broker st) \<noteq> te_startTime ev \<or> bs_changeCount st \<noteq> te_changeCount ev then
               let r1 = (if and (te_state ev) STATE_START \<noteq> 0 then snd (clearPendingTopics source r) else r);
                   (subs, n) = read_topics (te_topics ev);
                   r2 = snd (addPendingTopics source subs n r1)
               in if and (te_state ev) STATE_END \<noteq> 0
                  then snd (setTopicsChangeCount source (te_changeCount ev) (snd (swapPendingTopics e source r2)))
                  else r2
             else r)
      else r)"

section \<open>A link between two brokers\<close>

text \<open>What happens at the sender, and which of the messages about it arrive: a state is sent in batches, each a
  message of its own, with a flag for each of them (a batch without a flag is lost).\<close>

datatype link_step = Topic_added string bool | Topic_removed string bool | State_sent "bool list"

definition arriving :: "bool list \<Rightarrow> 'a list \<Rightarrow> 'a list" where
  "arriving flags ms = map fst (filter snd (zip ms flags))"

text \<open>\<open>Ss\<close> and \<open>Sr\<close> are the settings of the sender and the receiver.\<close>

fun link_exec :: "settings \<Rightarrow> settings \<Rightarrow> cache_env \<Rightarrow> nat \<Rightarrow> link_step \<Rightarrow> registry \<times> registry \<Rightarrow> registry \<times> registry" where
  "link_exec Ss Sr e n (Topic_added t delivered) (rs, rr) =
     (case onTopicAddedToBroker Ss e t rs of (evs, rs') \<Rightarrow>
        (rs', if delivered then fold (onTopicEvent Sr e False (st_guid Ss)) evs rr else rr))"
| "link_exec Ss Sr e n (Topic_removed t delivered) (rs, rr) =
     (case onTopicRemovedFromBroker Ss e t rs of (evs, rs') \<Rightarrow>
        (rs', if delivered then fold (onTopicEvent Sr e False (st_guid Ss)) evs rr else rr))"
| "link_exec Ss Sr e n (State_sent delivered) (rs, rr) =
     (rs, fold (onTopicsEvent Sr e False (st_guid Ss)) (arriving delivered (sendLocalBrokerTopics Ss n rs)) rr)"

definition link_run :: "settings \<Rightarrow> settings \<Rightarrow> cache_env \<Rightarrow> nat \<Rightarrow> link_step list \<Rightarrow> registry \<times> registry \<Rightarrow> registry \<times> registry" where
  "link_run Ss Sr e n = fold (link_exec Ss Sr e n)"

text \<open>Two things go wrong on such a link, and neither is noticed by the receiver. The sender counts only real changes
  but sends an event for every report of the core, so that a report of a topic that was there already looks like the change
  that the receiver has missed. And a batch says its place in the state but the receiver does not check it, so that a state of
  which some batch is lost is taken for the whole state when its last batch arrives. The steps without the two:
  topics are reported when they really come or go, and of a state all batches arrive or the last one does not.\<close>

definition real_step :: "settings \<Rightarrow> link_step \<Rightarrow> registry \<Rightarrow> bool" where
  "real_step Ss x rs \<longleftrightarrow> (case x of
       Topic_added t _ \<Rightarrow> client_channel t \<or> \<not> registry_hasTopic (reg_brokers rs) (st_guid Ss) t
     | Topic_removed t _ \<Rightarrow> client_channel t \<or> registry_hasTopic (reg_brokers rs) (st_guid Ss) t
     | State_sent _ \<Rightarrow> True)"

definition whole_step :: "settings \<Rightarrow> nat \<Rightarrow> link_step \<Rightarrow> registry \<Rightarrow> bool" where
  "whole_step Ss n x rs \<longleftrightarrow> (case x of
       State_sent flags \<Rightarrow> arriving flags (sendLocalBrokerTopics Ss n rs) = sendLocalBrokerTopics Ss n rs \<or>
         (\<forall>ev \<in> set (arriving flags (sendLocalBrokerTopics Ss n rs)). and (te_state ev) STATE_END = 0)
     | _ \<Rightarrow> True)"

text \<open>A condition on the steps of a run, each with the sender as it is then.\<close>

fun along :: "settings \<Rightarrow> settings \<Rightarrow> cache_env \<Rightarrow> nat \<Rightarrow> (link_step \<Rightarrow> registry \<Rightarrow> bool) \<Rightarrow> link_step list \<Rightarrow> registry \<times> registry \<Rightarrow> bool" where
  "along Ss Sr e n P [] p \<longleftrightarrow> True"
| "along Ss Sr e n P (x # xs) p \<longleftrightarrow> P x (fst p) \<and> along Ss Sr e n P xs (link_exec Ss Sr e n x p)"

lemma arriving_all [simp]: "arriving (replicate (length ms) True) ms = ms"
  by (induction ms) (simp_all add: arriving_def)

lemma arriving_subset: "set (arriving flags ms) \<subseteq> set ms"
  by (auto simp: arriving_def dest: set_zip_leftD)

section \<open>What the handlers do to the state of the source\<close>

text \<open>The view of a broker in a registry: its topics, the count of changes, the start time.\<close>

definition knows :: "registry \<Rightarrow> string \<Rightarrow> broker_state \<Rightarrow> bool" where
  "knows r g st \<longleftrightarrow> registry_ok r \<and> map_of (reg_brokers r) g = Some st"

lemma knows_put: "knows r g st \<Longrightarrow> registry_ok (put_state g st' r) \<Longrightarrow> knows (put_state g st' r) g st'"
  by (simp add: knows_def update_conv')

lemma knows_addTopic:
  assumes "knows r g st"
  shows "knows (snd (addTopic S e g t r)) g (snd (state_addTopic S t st))"
proof -
  have "map_of (reg_brokers (snd (addTopic S e g t r))) g = Some (snd (state_addTopic S t st))"
    using assms by (auto simp: knows_def addTopic_def with_broker_def state_addTopic_def update_conv' Let_def)
  then show ?thesis using assms registry_ok_topics(1) by (simp add: knows_def)
qed

lemma knows_removeTopic:
  assumes "knows r g st"
  shows "knows (snd (removeTopic S e g t r)) g (snd (state_removeTopic S t st))"
proof -
  have "map_of (reg_brokers (snd (removeTopic S e g t r))) g = Some (snd (state_removeTopic S t st))"
    using assms by (auto simp: knows_def removeTopic_def with_broker_def state_removeTopic_def update_conv' Let_def)
  then show ?thesis using assms registry_ok_topics(2) by (simp add: knows_def)
qed

lemma knows_setCount:
  assumes "knows r g st"
  shows "knows (snd (setTopicsChangeCount g n r)) g (st\<lparr>bs_changeCount := n\<rparr>)"
  using assms registry_ok_ops(8) [of r g n] by (simp add: knows_def setTopicsChangeCount_def with_broker_def update_conv')

lemma onTopicEvent_knows:
  assumes k: "knows r g st" and S: "st_topicRoutingEnabled S"
  shows "knows (onTopicEvent S e False g ev r) g
    ((if fb_startTime (bs_broker st) = ev_startTime ev \<and> bs_changeCount st = ev_changeCount ev - 1 then (\<lambda>x. x\<lparr>bs_changeCount := ev_changeCount ev\<rparr>) else id)
       (if ev_added ev then snd (state_addTopic S (ev_topic ev) st) else snd (state_removeTopic S (ev_topic ev) st)))"
proof -
  have v: "(case map_of (reg_brokers r) g of None \<Rightarrow> True | Some st \<Rightarrow> fb_startTime (bs_broker st) = ev_startTime ev \<and> bs_changeCount st = ev_changeCount ev - 1) =
      (fb_startTime (bs_broker st) = ev_startTime ev \<and> bs_changeCount st = ev_changeCount ev - 1)" using k by (simp add: knows_def)
  show ?thesis
    unfolding onTopicEvent_def v Let_def using S knows_addTopic [OF k] knows_removeTopic [OF k]
    by (auto intro: knows_setCount)
qed

text \<open>One batch, and all of them.\<close>

definition batch_state :: "topics_event \<Rightarrow> broker_state \<Rightarrow> broker_state" where
  "batch_state ev st =
     (let s1 = (if and (te_state ev) STATE_START \<noteq> 0 then state_clearPendingTopics st else st);
          s2 = state_addPendingTopics (remdups (te_topics ev)) (length (filter isWildcard (te_topics ev))) s1
      in if and (te_state ev) STATE_END \<noteq> 0 then (state_swapPendingTopics s2)\<lparr>bs_changeCount := te_changeCount ev\<rparr> else s2)"

lemma onTopicsEvent_knows:
  assumes k: "knows r g st" and S: "st_topicRoutingEnabled S"
    and d: "fb_startTime (bs_broker st) \<noteq> te_startTime ev \<or> bs_changeCount st \<noteq> te_changeCount ev"
  shows "knows (onTopicsEvent S e False g ev r) g (batch_state ev st)"
proof -
  define r1 where "r1 = (if and (te_state ev) STATE_START \<noteq> 0 then snd (clearPendingTopics g r) else r)"
  define s1 where "s1 = (if and (te_state ev) STATE_START \<noteq> 0 then state_clearPendingTopics st else st)"
  have k1: "knows r1 g s1"
    using k registry_ok_ops(5) [of r g] by (simp add: r1_def s1_def knows_def clearPendingTopics_def with_broker_def update_conv')
  define r2 where "r2 = snd (addPendingTopics g (remdups (te_topics ev)) (length (filter isWildcard (te_topics ev))) r1)"
  define s2 where "s2 = state_addPendingTopics (remdups (te_topics ev)) (length (filter isWildcard (te_topics ev))) s1"
  have "length (filter isWildcard (remdups (te_topics ev))) \<le> length (filter isWildcard (te_topics ev))"
    using length_remdups_leq [of "filter isWildcard (te_topics ev)"] by (simp add: remdups_filter)
  then have k2: "knows r2 g s2"
    using k1 registry_ok_ops(6) [of r1 "remdups (te_topics ev)" "length (filter isWildcard (te_topics ev))" g]
    by (simp add: r2_def s2_def knows_def addPendingTopics_def with_broker_def update_conv')
  have k3: "knows (snd (swapPendingTopics e g r2)) g (state_swapPendingTopics s2)"
    using k2 registry_ok_ops(7) [of r2 e g] by (simp add: knows_def swapPendingTopics_def with_broker_def update_conv')
  have "onTopicsEvent S e False g ev r = (if and (te_state ev) STATE_END \<noteq> 0
      then snd (setTopicsChangeCount g (te_changeCount ev) (snd (swapPendingTopics e g r2))) else r2)"
    using k S d by (simp add: onTopicsEvent_def knows_def read_topics_def r1_def r2_def Let_def)
  moreover have "batch_state ev st = (if and (te_state ev) STATE_END \<noteq> 0 then (state_swapPendingTopics s2)\<lparr>bs_changeCount := te_changeCount ev\<rparr> else s2)"
    by (simp add: batch_state_def s1_def s2_def Let_def)
  ultimately show ?thesis using k2 knows_setCount [OF k3] by simp
qed

lemma onTopicsEvent_ignored:
  "knows r g st \<Longrightarrow> fb_startTime (bs_broker st) = te_startTime ev \<Longrightarrow> bs_changeCount st = te_changeCount ev \<Longrightarrow> onTopicsEvent S e False g ev r = r"
  by (simp add: onTopicsEvent_def knows_def)

lemma handleBatch_flags:
  "and (te_state (handleBatch ss (ts, i, first, lst))) STATE_START \<noteq> 0 \<longleftrightarrow> first"
  "and (te_state (handleBatch ss (ts, i, first, lst))) STATE_END \<noteq> 0 \<longleftrightarrow> lst"
  "te_topics (handleBatch ss (ts, i, first, lst)) = ts" "te_startTime (handleBatch ss b) = fb_startTime (bs_broker ss)"
  "te_changeCount (handleBatch ss b) = bs_changeCount ss"
  by (simp_all add: handleBatch_def split_beta)

text \<open>The batches that are still to come are added to what is pending; the last one makes them current.\<close>

lemma batches_knows:
  assumes "well_batched f i bs" and "knows r g st" and "st_topicRoutingEnabled S"
    and "fb_startTime (bs_broker st) \<noteq> fb_startTime (bs_broker ss) \<or> bs_changeCount st \<noteq> bs_changeCount ss"
  shows "\<exists>st'. knows (fold (onTopicsEvent S e False g) (map (handleBatch ss) bs) r) g st' \<and> bs_changeCount st' = bs_changeCount ss \<and> bs_broker st' = bs_broker st \<and>
    set (bs_topics st') = set (concat (map fst bs)) \<union> (if f then {} else set (bs_pending st)) \<and>
    bs_wildcards st' = length (filter isWildcard (concat (map fst bs))) + (if f then 0 else bs_pendingWildcards st)"
  using assms
proof (induction bs arbitrary: f i r st)
  case (Cons b bs)
  obtain ts j first lst where b: "b = (ts, j, first, lst)" by (cases b)
  let ?ev = "handleBatch ss b" and ?r = "onTopicsEvent S e False g (handleBatch ss b) r"
  have k: "knows ?r g (batch_state ?ev st)" using onTopicsEvent_knows [OF Cons.prems(2,3)] Cons.prems(4) by (simp add: handleBatch_flags)
  have fl: "first = f" "bs = [] \<longleftrightarrow> lst" "bs \<noteq> [] \<Longrightarrow> well_batched False (i + 1) bs" using Cons.prems(1) b by (auto split: if_splits)
  let ?s1 = "if f then state_clearPendingTopics st else st"
  let ?s2 = "state_addPendingTopics (remdups ts) (length (filter isWildcard ts)) ?s1"
  have s: "batch_state ?ev st = (if lst then (state_swapPendingTopics ?s2)\<lparr>bs_changeCount := bs_changeCount ss\<rparr> else ?s2)"
    using fl(1) by (simp add: batch_state_def b handleBatch_flags Let_def)
  have p: "set (bs_pending ?s2) = set ts \<union> (if f then {} else set (bs_pending st))"
      "bs_pendingWildcards ?s2 = length (filter isWildcard ts) + (if f then 0 else bs_pendingWildcards st)"
      "bs_changeCount ?s2 = bs_changeCount st" "bs_broker ?s2 = bs_broker st"
  proof -
    have "set (fold List.insert xs ys) = set xs \<union> set ys" for xs ys :: "string list" by (induction xs arbitrary: ys) auto
    then show "set (bs_pending ?s2) = set ts \<union> (if f then {} else set (bs_pending st))"
      by (simp add: state_addPendingTopics_def state_clearPendingTopics_def)
  qed (simp_all add: state_addPendingTopics_def state_clearPendingTopics_def)
  show ?case
  proof (cases lst)
    case True
    then have "bs = []" using fl(2) by simp
    then show ?thesis using k s p True b
      by (intro exI [of _ "batch_state ?ev st"]) (simp add: state_swapPendingTopics_def state_clearPendingTopics_def)
  next
    case False
    then have "well_batched False (i + 1) bs" using fl(2,3) by simp
    from Cons.IH [OF this k Cons.prems(3)] show ?thesis
      using s p False Cons.prems(4) b by (auto simp: Un_ac split: if_splits)
  qed
qed simp

section \<open>The receiver follows the sender\<close>

text \<open>The receiver is \<open>d\<close> changes behind; if it is not behind it has the same topics.\<close>

definition lags :: "nat \<Rightarrow> broker_state \<Rightarrow> broker_state \<Rightarrow> bool" where
  "lags d ss sr \<longleftrightarrow> fb_startTime (bs_broker sr) = fb_startTime (bs_broker ss) \<and> bs_changeCount ss = bs_changeCount sr + of_nat d \<and>
     (d = 0 \<longrightarrow> set (bs_topics sr) = set (bs_topics ss))"

definition linked :: "settings \<Rightarrow> nat \<Rightarrow> registry \<times> registry \<Rightarrow> bool" where
  "linked Ss d p \<longleftrightarrow> (\<exists>ss sr. knows (fst p) (st_guid Ss) ss \<and> knows (snd p) (st_guid Ss) sr \<and> lags d ss sr)"

lemma lag_zero: "d < 2 ^ 32 \<Longrightarrow> (of_nat d :: 32 word) = 0 \<longleftrightarrow> d = 0"
  by (simp add: word_of_nat_eq_0_iff nat_dvd_not_less dvd_imp_le) (auto dest: dvd_imp_le)

text \<open>An event about a change at the sender, delivered or not.\<close>

lemma lags_change:
  assumes k: "knows rr g sr" and S: "st_topicRoutingEnabled Sr" and d: "d < 2 ^ 32" and l: "lags d ss sr" and foreign: "\<not> isLocalBroker Sr sr"
    and ss': "bs_broker ss' = bs_broker ss" "bs_changeCount ss' = bs_changeCount ss + 1"
      "set (bs_topics ss') = (if added then insert t (set (bs_topics ss)) else set (bs_topics ss) - {t})"
    and ev: "ev = \<lparr>ev_added = added, ev_topic = t, ev_startTime = fb_startTime (bs_broker ss'), ev_changeCount = bs_changeCount ss'\<rparr>"
  shows "\<exists>sr' d'. knows (onTopicEvent Sr e False g ev rr) g sr' \<and> lags d' ss' sr' \<and> d' \<le> Suc d" and "lags (Suc d) ss' sr"
proof -
  show "lags (Suc d) ss' sr" using l ss' by (simp add: lags_def algebra_simps)
  let ?s = "if added then snd (state_addTopic Sr t sr) else snd (state_removeTopic Sr t sr)"
  have ok: "state_ok sr" using k registry_okD(1) by (auto simp: knows_def)
  have s: "set (bs_topics ?s) = (if added then insert t (set (bs_topics sr)) else set (bs_topics sr) - {t})"
      "bs_broker ?s = bs_broker sr" "bs_changeCount ?s = bs_changeCount sr"
    using foreign set_addTopic [of Sr t sr] set_removeTopic [OF ok, of Sr t] by (auto simp: state_addTopic_def state_removeTopic_def)
  have v: "fb_startTime (bs_broker sr) = ev_startTime ev \<and> bs_changeCount sr = ev_changeCount ev - 1 \<longleftrightarrow> d = 0"
    using l ss' lag_zero [OF d] by (auto simp: ev lags_def)
  have f: "ev_added ev = added" "ev_topic ev = t" "ev_changeCount ev = bs_changeCount ss'" by (simp_all add: ev)
  note kn = onTopicEvent_knows [OF k S, of e ev, unfolded v, unfolded f]
  show "\<exists>sr' d'. knows (onTopicEvent Sr e False g ev rr) g sr' \<and> lags d' ss' sr' \<and> d' \<le> Suc d"
  proof (cases "d = 0")
    case True
    then have "knows (onTopicEvent Sr e False g ev rr) g (?s\<lparr>bs_changeCount := bs_changeCount ss'\<rparr>)" using kn by simp
    moreover have "lags 0 ss' (?s\<lparr>bs_changeCount := bs_changeCount ss'\<rparr>)" using l s ss' True by (simp add: lags_def)
    ultimately show ?thesis by blast
  next
    case False
    then have "knows (onTopicEvent Sr e False g ev rr) g ?s" using kn by simp
    moreover have "lags (Suc d) ss' ?s" using l s ss' by (simp add: lags_def algebra_simps)
    ultimately show ?thesis by blast
  qed
qed

lemma fold_fixed: "(\<And>x. x \<in> set xs \<Longrightarrow> f x r = r) \<Longrightarrow> fold f xs r = r"
  by (induction xs) auto

lemma state_sent_catches_up:
  assumes ks: "knows rs (st_guid Ss) ss" and kr: "knows rr (st_guid Ss) sr" and S: "st_topicRoutingEnabled Ss" "st_topicRoutingEnabled Sr"
    and l: "lags d ss sr" and d: "d < 2 ^ 32"
  shows "\<exists>sr'. knows (fold (onTopicsEvent Sr e False (st_guid Ss)) (sendLocalBrokerTopics Ss n rs) rr) (st_guid Ss) sr' \<and> lags 0 ss sr'"
proof -
  have send: "sendLocalBrokerTopics Ss n rs = map (handleBatch ss) (batchTopics n ss)" using S ks by (simp add: sendLocalBrokerTopics_def knows_def)
  show ?thesis
  proof (cases "d = 0")
    case True
    have "onTopicsEvent Sr e False (st_guid Ss) x rr = rr" if "x \<in> set (map (handleBatch ss) (batchTopics n ss))" for x
      using that l True by (intro onTopicsEvent_ignored [OF kr]) (auto simp: lags_def handleBatch_flags)
    then have "fold (onTopicsEvent Sr e False (st_guid Ss)) (sendLocalBrokerTopics Ss n rs) rr = rr" unfolding send by (rule fold_fixed)
    then show ?thesis using kr l True by auto
  next
    case False
    have "bs_changeCount sr \<noteq> bs_changeCount ss" using l False lag_zero [OF d] by (simp add: lags_def)
    then show ?thesis
      using batches_knows [OF conjunct2 [OF batchTopics_complete] kr S(2), of ss e n ss] batchTopics_complete [of n ss] l
      unfolding send by (auto simp: lags_def)
  qed
qed

text \<open>Batches without the last one of a state leave nothing but pending topics.\<close>

lemma lags_batch:
  assumes k: "knows rr g sr" and S: "st_topicRoutingEnabled Sr" and l: "lags d ss sr" and ev: "and (te_state ev) STATE_END = 0"
  shows "\<exists>sr'. knows (onTopicsEvent Sr e False g ev rr) g sr' \<and> lags d ss sr'"
proof (cases "fb_startTime (bs_broker sr) \<noteq> te_startTime ev \<or> bs_changeCount sr \<noteq> te_changeCount ev")
  case True
  have "lags d ss (batch_state ev sr)"
    using l ev by (simp add: batch_state_def lags_def state_clearPendingTopics_def state_addPendingTopics_def Let_def)
  then show ?thesis using onTopicsEvent_knows [OF k S True, of e] by blast
next
  case False
  then show ?thesis using onTopicsEvent_ignored [OF k, of ev Sr e] k l by auto
qed

lemma lags_batches:
  assumes "st_topicRoutingEnabled Sr" and "\<forall>ev \<in> set evs. and (te_state ev) STATE_END = 0" and "knows rr g sr" and "lags d ss sr"
  shows "\<exists>sr'. knows (fold (onTopicsEvent Sr e False g) evs rr) g sr' \<and> lags d ss sr'"
  using assms(2-4)
proof (induction evs arbitrary: rr sr)
  case (Cons ev evs)
  obtain sr1 where "knows (onTopicsEvent Sr e False g ev rr) g sr1" "lags d ss sr1"
    using lags_batch [OF Cons.prems(2) assms(1) Cons.prems(3), of ev e] Cons.prems(1) by auto
  then show ?case using Cons.IH Cons.prems(1) by simp
qed auto

lemma linked_step:
  assumes p: "linked Ss d p" and d: "d < 2 ^ 32" and S: "st_topicRoutingEnabled Ss" "st_topicRoutingEnabled Sr" "st_guid Ss \<noteq> st_guid Sr"
    and x: "real_step Ss x (fst p)" "whole_step Ss n x (fst p)"
  shows "\<exists>d'. linked Ss d' (link_exec Ss Sr e n x p) \<and> d' \<le> Suc d"
proof -
  obtain rs rr where p': "p = (rs, rr)" by (cases p)
  obtain ss sr where k: "knows rs (st_guid Ss) ss" "knows rr (st_guid Ss) sr" "lags d ss sr" using p p' by (auto simp: linked_def)
  have loc: "isLocalBroker Ss ss" "\<not> isLocalBroker Sr sr"
    using k(1,2) S(3) registry_okD(2) [of rs "st_guid Ss" ss] registry_okD(2) [of rr "st_guid Ss" sr] by (auto simp: knows_def isLocalBroker_def)
  have ok: "state_ok ss" using k(1) registry_okD(1) [of rs "st_guid Ss" ss] by (simp add: knows_def)
  note change = lags_change [OF k(2) S(2) d k(3) loc(2)]
  show ?thesis
  proof (cases x)
    case (Topic_added t del)
    show ?thesis
    proof (cases "client_channel t")
      case True
      then have "link_exec Ss Sr e n x p = p" using Topic_added p' by (simp add: onTopicAddedToBroker_def)
      then show ?thesis using p by auto
    next
      case False
      let ?rs = "snd (addTopic Ss e (st_guid Ss) t rs)" and ?ss = "snd (state_addTopic Ss t ss)"
      have new: "t \<notin> set (bs_topics ss)" using x(1) Topic_added False p' k(1) by (simp add: real_step_def registry_hasTopic_def knows_def hasTopic_def)
      have k': "knows ?rs (st_guid Ss) ?ss" by (rule knows_addTopic [OF k(1)])
      have ex: "link_exec Ss Sr e n x p = (?rs, if del then onTopicEvent Sr e False (st_guid Ss)
          \<lparr>ev_added = True, ev_topic = t, ev_startTime = fb_startTime (bs_broker ?ss), ev_changeCount = bs_changeCount ?ss\<rparr> rr else rr)"
        using Topic_added False S(1) p' k' by (simp add: onTopicAddedToBroker_def local_event_def knows_def)
      have c: "bs_changeCount ?ss = bs_changeCount ss + 1" "set (bs_topics ?ss) = (if True then insert t (set (bs_topics ss)) else set (bs_topics ss) - {t})"
        using new loc(1) by (auto simp: state_addTopic_def)
      show ?thesis unfolding ex linked_def
        using change(1) [OF state_broker(1) c refl, of e] change(2) [OF state_broker(1) c refl] k' k(2) by (cases del) (auto intro: le_refl)
    qed
  next
    case (Topic_removed t del)
    show ?thesis
    proof (cases "client_channel t")
      case True
      then have "link_exec Ss Sr e n x p = p" using Topic_removed p' by (simp add: onTopicRemovedFromBroker_def)
      then show ?thesis using p by auto
    next
      case False
      let ?rs = "snd (removeTopic Ss e (st_guid Ss) t rs)" and ?ss = "snd (state_removeTopic Ss t ss)"
      have there: "t \<in> set (bs_topics ss)" using x(1) Topic_removed False p' k(1) by (simp add: real_step_def registry_hasTopic_def knows_def hasTopic_def)
      have k': "knows ?rs (st_guid Ss) ?ss" by (rule knows_removeTopic [OF k(1)])
      have ex: "link_exec Ss Sr e n x p = (?rs, if del then onTopicEvent Sr e False (st_guid Ss)
          \<lparr>ev_added = False, ev_topic = t, ev_startTime = fb_startTime (bs_broker ?ss), ev_changeCount = bs_changeCount ?ss\<rparr> rr else rr)"
        using Topic_removed False S(1) p' k' by (simp add: onTopicRemovedFromBroker_def local_event_def knows_def)
      have c: "bs_changeCount ?ss = bs_changeCount ss + 1" "set (bs_topics ?ss) = (if False then insert t (set (bs_topics ss)) else set (bs_topics ss) - {t})"
        using there loc(1) set_removeTopic [OF ok, of Ss t] by (auto simp: state_removeTopic_def)
      show ?thesis unfolding ex linked_def
        using change(1) [OF state_broker(2) c refl, of e] change(2) [OF state_broker(2) c refl] k' k(2) by (cases del) (auto intro: le_refl)
    qed
  next
    case (State_sent flags)
    show ?thesis
    proof (cases "arriving flags (sendLocalBrokerTopics Ss n rs) = sendLocalBrokerTopics Ss n rs")
      case True
      then have "linked Ss 0 (link_exec Ss Sr e n x p)"
        using State_sent p' k(1) state_sent_catches_up [OF k(1,2) S(1,2) k(3) d, of e n] by (auto simp: linked_def)
      then show ?thesis by blast
    next
      case False
      then have "\<forall>ev \<in> set (arriving flags (sendLocalBrokerTopics Ss n rs)). and (te_state ev) STATE_END = 0"
        using x(2) State_sent p' by (simp add: whole_step_def)
      then have "linked Ss d (link_exec Ss Sr e n x p)"
        using State_sent p' k(1) lags_batches [OF S(2) _ k(2,3), of "arriving flags (sendLocalBrokerTopics Ss n rs)" e] by (auto simp: linked_def)
      then show ?thesis by (meson le_SucI order_refl)
    qed
  qed
qed

lemma linked_run:
  assumes "linked Ss d p" and "d + length xs < 2 ^ 32" and "st_topicRoutingEnabled Ss" "st_topicRoutingEnabled Sr" "st_guid Ss \<noteq> st_guid Sr"
    and "along Ss Sr e n (real_step Ss) xs p" "along Ss Sr e n (whole_step Ss n) xs p"
  shows "\<exists>d'. linked Ss d' (link_run Ss Sr e n xs p) \<and> d' \<le> d + length xs"
  using assms
proof (induction xs arbitrary: d p)
  case (Cons x xs)
  obtain d1 where d1: "linked Ss d1 (link_exec Ss Sr e n x p)" "d1 \<le> Suc d"
    using linked_step [OF Cons.prems(1) _ Cons.prems(3-5), of x n e] Cons.prems(2,6,7) by auto
  moreover have "d1 + length xs < 2 ^ 32" using Cons.prems(2) d1(2) by simp
  moreover have "along Ss Sr e n (real_step Ss) xs (link_exec Ss Sr e n x p)" "along Ss Sr e n (whole_step Ss n) xs (link_exec Ss Sr e n x p)"
    using Cons.prems(6,7) by simp_all
  ultimately obtain d' where "linked Ss d' (link_run Ss Sr e n xs (link_exec Ss Sr e n x p))" "d' \<le> d1 + length xs"
    using Cons.IH [OF _ _ Cons.prems(3-5)] by blast
  then show ?case using d1(2) by (intro exI [of _ d']) (simp add: link_run_def)
qed (auto simp: link_run_def)

text \<open>C9. The topics that a broker knows of another one converge. Sender and receiver start with the same view of
  the sender; then topics come and go at the sender, and the messages about single changes and the batches of its
  states are delivered or lost, each on its own. Two conditions are put on the run: the core reports only real changes, and
  of a state either all batches arrive or the last one does not. Then, whenever the counts of changes agree, the receiver has exactly
  the topics of the sender, and after the next state that arrives in full they do agree. There are
  fewer steps than the count of changes can count.\<close>

theorem topic_replicas_converge:
  assumes "linked Ss 0 p" and "along Ss Sr e n (real_step Ss) xs p" and "along Ss Sr e n (whole_step Ss n) xs p" and "length xs < 2 ^ 32"
    and "st_topicRoutingEnabled Ss" and "st_topicRoutingEnabled Sr" and "st_guid Ss \<noteq> st_guid Sr"
  defines "batches \<equiv> sendLocalBrokerTopics Ss n (fst (link_run Ss Sr e n xs p))"
  shows "\<exists>ss sr sr'. map_of (reg_brokers (fst (link_run Ss Sr e n xs p))) (st_guid Ss) = Some ss \<and>
    map_of (reg_brokers (snd (link_run Ss Sr e n xs p))) (st_guid Ss) = Some sr \<and>
    (bs_changeCount sr = bs_changeCount ss \<longrightarrow> set (bs_topics sr) = set (bs_topics ss)) \<and>
    map_of (reg_brokers (snd (link_run Ss Sr e n (xs @ [State_sent (replicate (length batches) True)]) p))) (st_guid Ss) = Some sr' \<and>
    bs_changeCount sr' = bs_changeCount ss \<and> set (bs_topics sr') = set (bs_topics ss)"
proof -
  obtain d where d: "linked Ss d (link_run Ss Sr e n xs p)" "d < 2 ^ 32"
    using linked_run [OF assms(1) _ assms(5-7,2,3)] assms(4) by fastforce
  obtain rs rr where p: "link_run Ss Sr e n xs p = (rs, rr)" by (cases "link_run Ss Sr e n xs p")
  obtain ss sr where k: "knows rs (st_guid Ss) ss" "knows rr (st_guid Ss) sr" "lags d ss sr" using d(1) p by (auto simp: linked_def)
  obtain sr' where s: "knows (fold (onTopicsEvent Sr e False (st_guid Ss)) (sendLocalBrokerTopics Ss n rs) rr) (st_guid Ss) sr'" "lags 0 ss sr'"
    using state_sent_catches_up [OF k(1,2) assms(5,6) k(3) d(2)] by blast
  have "link_run Ss Sr e n (xs @ [State_sent (replicate (length batches) True)]) p = (rs, fold (onTopicsEvent Sr e False (st_guid Ss)) (sendLocalBrokerTopics Ss n rs) rr)"
    using p by (simp add: link_run_def batches_def)
  moreover have "bs_changeCount sr = bs_changeCount ss \<longrightarrow> set (bs_topics sr) = set (bs_topics ss)"
    using k(3) lag_zero [OF d(2)] by (auto simp: lags_def)
  ultimately show ?thesis using p k s by (auto simp: knows_def lags_def)
qed

text \<open>A first event and a first state that are lost are made good by the next state.\<close>

theorem topic_replicas_converge_witness:
  "\<exists>ss sr' k. let p = (run_ops sample_settings sample_run (new_registry sample_env), run_ops sample_settings sample_run (new_registry sample_env)) in
    map_of (reg_brokers (fst (link_run sample_settings (sample_settings\<lparr>st_guid := ''b''\<rparr>) sample_env 50 [Topic_added ''/x'' False, State_sent []] p))) ''a'' = Some ss \<and>
    map_of (reg_brokers (snd (link_run sample_settings (sample_settings\<lparr>st_guid := ''b''\<rparr>) sample_env 50
      [Topic_added ''/x'' False, State_sent [], State_sent (replicate k True)] p))) ''a'' = Some sr' \<and>
    set (bs_topics sr') = set (bs_topics ss)"
proof -
  let ?r = "run_ops sample_settings sample_run (new_registry sample_env)"
  let ?xs = "[Topic_added ''/x'' False, State_sent []]" and ?S = "sample_settings\<lparr>st_guid := ''b''\<rparr>"
  have k: "knows ?r ''a'' ((sample_state ''a'')\<lparr>bs_connections := [(''b'', 1)]\<rparr>)"
    using registry_ok_run [OF registry_ok_new, of sample_settings sample_run sample_env]
    by (simp add: knows_def sample_run_registry) (simp add: sample_registry_def)
  have l: "linked sample_settings 0 (?r, ?r)" using k by (auto simp: linked_def lags_def sample_settings_def)
  have x: "along sample_settings ?S sample_env 50 (real_step sample_settings) ?xs (?r, ?r)" "along sample_settings ?S sample_env 50 (whole_step sample_settings 50) ?xs (?r, ?r)"
    by (simp_all add: sample_run_registry real_step_def whole_step_def arriving_def) (simp add: registry_hasTopic_def sample_registry_def hasTopic_def sample_simps)
  have g: "st_guid sample_settings = ''a''" and c: "length ?xs < 2 ^ 32" "st_topicRoutingEnabled sample_settings" "st_topicRoutingEnabled ?S" "st_guid sample_settings \<noteq> st_guid ?S"
    by (simp_all add: sample_settings_def)
  show ?thesis using topic_replicas_converge [OF l x c] unfolding Let_def g append.simps by blast
qed

text \<open>C11. In every state the registry reaches, a bridge to a registered broker is allowed exactly when no chain of
  connections leads to it already, so that an allowed connection never closes a cycle.\<close>

theorem bridge_allowed_iff_no_route:
  assumes "r = run_ops S ops (new_registry e)" and "broker_exists (st_guid S) r" and "broker_exists brokerId r"
  shows "fst (isBridgeConnectAllowed S brokerId r) \<longleftrightarrow> brokerId \<notin> behind (reg_brokers r) anyone (st_guid S)"
proof -
  obtain n r' where n: "getNextBroker (st_guid S) brokerId r = (n, r')" by (cases "getNextBroker (st_guid S) brokerId r")
  have ok: "registry_ok r" using assms(1) registry_ok_run [OF registry_ok_new] by simp
  have "(n = '''') = (brokerId \<notin> behind (reg_brokers r) anyone (st_guid S))"
    by (rule next_broker_cases [OF ok, of "st_guid S" brokerId])
      (use n assms(2,3) valid_hop_behind [of "reg_brokers r" "st_guid S" brokerId] in \<open>auto simp: broker_exists_def behind_def\<close>)
  then show ?thesis using n by (simp add: isBridgeConnectAllowed_def)
qed

theorem bridge_allowed_iff_no_route_witness:
  "\<not> fst (isBridgeConnectAllowed sample_settings ''b'' (run_ops sample_settings sample_run (new_registry sample_env)))"
proof -
  have "(''a'', ''b'') \<in> links (reg_brokers sample_registry) anyone"
    by (simp add: links_def conns_def sample_registry_def getConnections_def)
  then have "''b'' \<in> behind (reg_brokers sample_registry) anyone ''a''" by (simp add: behind_def)
  then show ?thesis
    using bridge_allowed_iff_no_route [OF refl, of sample_settings sample_run sample_env "''b''"]
    unfolding sample_run_registry by (simp add: broker_exists_def sample_settings_def) (simp add: sample_registry_def)
qed

end
