(* ===== verification/Authorization.thy ===== *)
theory Authorization
  imports Core_Util "HOL-Library.AList"
begin

text \<open>
  The authorization of topics, src/brokerlib/topicauthorization: a policy names topics and, for each,
  the clients or certificates that may send to it or receive from it. A topic no entry covers is free
  for everyone. Whoever asks is a client id or a chain of certificates.
\<close>

section \<open>The policy\<close>

type_synonym auth_data = "(string \<times> string list) list"

record TopicAuthorizationState =
  m_publishers :: auth_data
  m_subscribers :: auth_data
  m_isWildcardingEnabled :: bool

definition hasWildcards :: "auth_data \<Rightarrow> bool" where
  "hasWildcards m \<longleftrightarrow> list_ex (\<lambda>(topic, _). isWildcard topic) m"

definition new_state :: "auth_data \<Rightarrow> auth_data \<Rightarrow> TopicAuthorizationState" where
  "new_state publishers subscribers =
     \<lparr>m_publishers = publishers, m_subscribers = subscribers,
      m_isWildcardingEnabled = (hasWildcards publishers \<or> hasWildcards subscribers)\<rparr>"

text \<open>The document after parsing: for each entry the topic, empty when the property is missing, and the
  clients. An entry without a topic is an error, a later entry for a topic replaces an earlier one.\<close>

datatype policy_error = Property_required string

fun read_clients :: "(string \<times> string list) list \<Rightarrow> auth_data \<Rightarrow> policy_error + auth_data" where
  "read_clients [] m = Inr m"
| "read_clients ((topic, clients) # es) m =
     (if topic = '''' then Inl (Property_required ''topic'') else read_clients es (AList.update topic clients m))"

definition read_policy :: "auth_data \<Rightarrow> auth_data \<Rightarrow> policy_error + TopicAuthorizationState" where
  "read_policy send receive =
     (case read_clients send [] of Inl e \<Rightarrow> Inl e
      | Inr pubs \<Rightarrow> (case read_clients receive [] of Inl e \<Rightarrow> Inl e | Inr subs \<Rightarrow> Inr (new_state pubs subs)))"

section \<open>Asking the policy\<close>

text \<open>Whether the key is authorized, and whether there is an entry for the topic.\<close>

definition isAuthorized :: "auth_data \<Rightarrow> string \<Rightarrow> string \<Rightarrow> bool \<times> bool" where
  "isAuthorized m key topic =
     (case map_of m topic of None \<Rightarrow> (True, False) | Some keys \<Rightarrow> (key \<in> set keys, True))"

fun authorized_walk :: "auth_data \<Rightarrow> string \<Rightarrow> string list \<Rightarrow> bool \<Rightarrow> bool" where
  "authorized_walk m key [] authorized = authorized"
| "authorized_walk m key (w # ws) authorized =
     (let (ok, hit) = isAuthorized m key w in
      if ok then if hit then True else authorized_walk m key ws authorized
      else authorized_walk m key ws False)"

definition authorized_for :: "bool \<Rightarrow> auth_data \<Rightarrow> string \<Rightarrow> string \<Rightarrow> bool" where
  "authorized_for wildcarding m key topic =
     (let (authorized, hit) = isAuthorized m key topic in
      if wildcarding then hit \<and> authorized \<or> authorized_walk m key (wildcards topic) authorized
      else authorized)"

definition isAuthorizedToPublish_key :: "TopicAuthorizationState \<Rightarrow> string \<Rightarrow> string \<Rightarrow> bool" where
  "isAuthorizedToPublish_key st = authorized_for (m_isWildcardingEnabled st) (m_publishers st)"

definition isAuthorizedToSubscribe_key :: "TopicAuthorizationState \<Rightarrow> string \<Rightarrow> string \<Rightarrow> bool" where
  "isAuthorizedToSubscribe_key st = authorized_for (m_isWildcardingEnabled st) (m_subscribers st)"

definition isAuthorizedToPublish_certs :: "TopicAuthorizationState \<Rightarrow> string list \<Rightarrow> string \<Rightarrow> bool" where
  "isAuthorizedToPublish_certs st certHashes topic =
     (if certHashes \<noteq> [] then list_ex (\<lambda>cert. isAuthorizedToPublish_key st cert topic) certHashes
      else isAuthorizedToPublish_key st '''' topic)"

definition isAuthorizedToSubscribe_certs :: "TopicAuthorizationState \<Rightarrow> string list \<Rightarrow> string \<Rightarrow> bool" where
  "isAuthorizedToSubscribe_certs st certHashes topic =
     (if certHashes \<noteq> [] then list_ex (\<lambda>cert. isAuthorizedToSubscribe_key st cert topic) certHashes
      else isAuthorizedToSubscribe_key st '''' topic)"

section \<open>The rule\<close>

text \<open>The entries that cover a topic: the one for the topic itself and those for its wildcard forms.\<close>

definition entries_for :: "auth_data \<Rightarrow> string \<Rightarrow> string list list" where
  "entries_for m topic = List.map_filter (map_of m) (topic # wildcards topic)"

definition permitted :: "auth_data \<Rightarrow> string \<Rightarrow> string \<Rightarrow> bool" where
  "permitted m key topic \<longleftrightarrow> (let es = entries_for m topic in es = [] \<or> (\<exists>keys \<in> set es. key \<in> set keys))"

lemma authorized_walk_eq:
  "authorized_walk m key ws a \<longleftrightarrow>
     (let es = List.map_filter (map_of m) ws in (\<exists>keys \<in> set es. key \<in> set keys) \<or> es = [] \<and> a)"
  by (induction ws arbitrary: a) (auto simp: isAuthorized_def List.map_filter_simps Let_def split: option.splits)

lemma authorized_for_wild: "authorized_for True m key topic = permitted m key topic"
  by (auto simp: authorized_for_def permitted_def entries_for_def isAuthorized_def authorized_walk_eq
      List.map_filter_simps Let_def split: option.splits)

text \<open>Without a wildcard in the policy no wildcard form can be an entry.\<close>

lemma no_wild_entries: "\<not> hasWildcards m \<Longrightarrow> List.map_filter (map_of m) (wildcards topic) = []"
proof -
  assume "\<not> hasWildcards m"
  then have "map_of m p = None" if "p \<in> set (wildcards topic)" for p
    using wildcards_wild [OF that] by (auto simp: hasWildcards_def list_ex_iff map_of_eq_None_iff)
  then show ?thesis by (induction "wildcards topic") (simp_all add: List.map_filter_def)
qed

lemma authorized_for_eq:
  assumes "hasWildcards m \<longrightarrow> wildcarding"
  shows "authorized_for wildcarding m key topic = permitted m key topic"
proof (cases wildcarding)
  case False
  then have "List.map_filter (map_of m) (wildcards topic) = []" using no_wild_entries assms by blast
  then show ?thesis using False
    by (auto simp: authorized_for_def permitted_def entries_for_def isAuthorized_def List.map_filter_simps split: option.splits)
qed (simp add: authorized_for_wild)

lemma read_policy_state:
  "read_policy send receive = Inr st \<Longrightarrow> (hasWildcards (m_publishers st) \<or> hasWildcards (m_subscribers st)) = m_isWildcardingEnabled st"
  by (auto simp: read_policy_def new_state_def split: sum.splits)

lemma read_clients_map:
  "read_clients es m = Inr m' \<Longrightarrow> map_of m' = map_of m ++ map_of (rev es) \<and> '''' \<notin> fst ` set es"
proof (induction es m rule: read_clients.induct)
  case (2 topic clients es m)
  then have "map_of m' = map_of (AList.update topic clients m) ++ map_of (rev es)" "topic \<noteq> ''''" "'''' \<notin> fst ` set es"
    by (auto split: if_splits)
  then show ?case by (auto simp: update_conv map_add_def fun_eq_iff split: option.split)
qed simp

section \<open>The property\<close>

text \<open>C35. Authorization follows its rule. With a policy read from its document, a client may send to a
  topic (and likewise receive from it) exactly when no entry of the policy covers the topic, or some entry that
  covers it names the client; the entries that cover a topic are those for the topic and for its
  wildcard forms, the last entry of the document for a topic being the one that counts. A chain of
  certificates is as good as the best of its certificates, and an empty one counts as the empty name.\<close>

theorem authorization_follows_the_policy:
  assumes "read_policy send receive = Inr st"
  shows "isAuthorizedToPublish_key st key topic = permitted (rev send) key topic \<and>
    isAuthorizedToSubscribe_key st key topic = permitted (rev receive) key topic \<and>
    isAuthorizedToPublish_certs st certs topic = (\<exists>cert \<in> set (if certs = [] then [''''] else certs). permitted (rev send) cert topic) \<and>
    isAuthorizedToSubscribe_certs st certs topic = (\<exists>cert \<in> set (if certs = [] then [''''] else certs). permitted (rev receive) cert topic)"
proof -
  have m: "map_of (m_publishers st) = map_of (rev send)" "map_of (m_subscribers st) = map_of (rev receive)"
    using assms read_clients_map [of send "[]"] read_clients_map [of receive "[]"]
    by (auto simp: read_policy_def new_state_def split: sum.splits)
  have w: "hasWildcards (m_publishers st) \<longrightarrow> m_isWildcardingEnabled st" "hasWildcards (m_subscribers st) \<longrightarrow> m_isWildcardingEnabled st"
    using read_policy_state [OF assms] by blast+
  have "authorized_for (m_isWildcardingEnabled st) (m_publishers st) k topic = permitted (rev send) k topic"
      "authorized_for (m_isWildcardingEnabled st) (m_subscribers st) k topic = permitted (rev receive) k topic" for k
    unfolding authorized_for_eq [OF w(1)] authorized_for_eq [OF w(2)] by (simp_all add: permitted_def entries_for_def m)
  then show ?thesis
    by (simp add: isAuthorizedToPublish_key_def isAuthorizedToSubscribe_key_def isAuthorizedToPublish_certs_def
        isAuthorizedToSubscribe_certs_def list_ex_iff)
qed

theorem authorization_follows_the_policy_witness:
  "\<exists>st. read_policy [(''/a/#'', [''x'']), (''/a/b'', [''y''])] [] = Inr st \<and> isAuthorizedToPublish_key st ''x'' ''/a/b'' \<and>
     \<not> isAuthorizedToPublish_key st ''z'' ''/a/b'' \<and> isAuthorizedToPublish_key st ''z'' ''/c''"
proof -
  obtain st where st: "read_policy [(''/a/#'', [''x'']), (''/a/b'', [''y''])] [] = Inr st" by (simp add: read_policy_def)
  have w: "wildcards ''/a/b'' = [''/a/#'', ''/#'', ''#'']" "wildcards ''/c'' = [''/#'', ''#'']"
    by (simp_all add: wildcards_covering covering_def numeral_eq_Suc)
  show ?thesis using authorization_follows_the_policy [OF st] st w
    by (intro exI [of _ st]) (simp add: permitted_def entries_for_def List.map_filter_simps)
qed

end
