(* ===== verification/Services.thy ===== *)
theory Services
  imports Broker_Registry Authorization
begin

text \<open>
  The services of the fabric, src/brokerlib/serviceregistry: registrations by id, by type and by topic, and
  the choice of the service that gets the next request for a topic: the nearest service zone first, and
  within a zone each in turn. A service is eligible if it can be reached (\<open>Broker_Registry\<close>), has not
  expired, may receive the topic (\<open>Authorization\<close>) and serves the tenant.

  The registrations are objects that the indexes share by pointers: a pointer is a number, the heap gives
  the object. The ordered sets of pointers are lists without repetition. What the registry sends, and
  the counts of services it reports for tenants, are appended to a log.
\<close>

section \<open>ServiceRegistration.cpp\<close>

record svc_settings = settings +
  ss_multiTenant :: bool
  ss_tenantGuid :: string

record service_registration =
  sv_serviceType :: string
  sv_serviceGuid :: string
  sv_clientGuid :: string
  sv_clientInstanceGuid :: string
  sv_brokerGuid :: string
  sv_ttlMins :: "32 word"
  sv_requestChannels :: "string list"
  sv_metaData :: "(string \<times> string) list"
  sv_regTime :: int
  sv_brokerService :: bool
  sv_clientTenantGuid :: string
  sv_targetTenantGuids :: "string list"
  sv_certificates :: "string list"
  sv_managedClient :: bool

definition isLocal :: "svc_settings \<Rightarrow> service_registration \<Rightarrow> bool" where
  "isLocal S reg \<longleftrightarrow> sv_brokerGuid reg = st_guid S"

definition isOps :: "svc_settings \<Rightarrow> service_registration \<Rightarrow> bool" where
  "isOps S reg \<longleftrightarrow> ss_multiTenant S \<and> sv_clientTenantGuid reg = ss_tenantGuid S"

definition getClientInstanceGuid :: "service_registration \<Rightarrow> string" where
  "getClientInstanceGuid reg = (if sv_clientInstanceGuid reg = '''' then sv_clientGuid reg else sv_clientInstanceGuid reg)"

definition service_isExpired :: "svc_settings \<Rightarrow> int \<Rightarrow> service_registration \<Rightarrow> bool" where
  "service_isExpired S now reg \<longleftrightarrow> now - sv_regTime reg > uint ((sv_ttlMins reg + of_nat (st_ttlGracePeriodMins S)) * 60)"

text \<open>Minutes are rounded; the division of the code cuts off towards zero, and the difference is a signed integer of 32 bits.\<close>

definition getAdjustedTtlMins :: "int \<Rightarrow> service_registration \<Rightarrow> 32 word" where
  "getAdjustedTtlMins now reg =
     (let diff = now - sv_regTime reg + 30; minDiff = (if diff \<ge> 0 then diff div 60 else - ((- diff) div 60));
          ttlDiff = sv_ttlMins reg - word_of_int minDiff
      in if sint ttlDiff > 0 then ttlDiff else 0)"

definition resetRegistrationTime :: "int \<Rightarrow> service_registration \<Rightarrow> service_registration" where
  "resetRegistrationTime now reg = reg\<lparr>sv_ttlMins := getAdjustedTtlMins now reg, sv_regTime := now\<rparr>"

definition isServiceAvailable :: "svc_settings \<Rightarrow> string \<Rightarrow> service_registration \<Rightarrow> bool" where
  "isServiceAvailable S tenantGuid reg =
     (if \<not> ss_multiTenant S then True
      else if isOps S reg then sv_targetTenantGuids reg = [] \<or> tenantGuid \<in> set (sv_targetTenantGuids reg)
      else sv_clientTenantGuid reg = tenantGuid)"

section \<open>ZoneServices.cpp and TopicServices.cpp\<close>

text \<open>\<open>zs_next\<close> is the position of the iterator, the length of the list when it is at the end.\<close>

record zone_services =
  zs_zone :: string
  zs_services :: "nat list"
  zs_next :: nat

record topic_services =
  ts_services :: "nat list"
  ts_zones :: "zone_services list option"

type_synonym svc_heap = "nat \<Rightarrow> service_registration"
type_synonym node_zones = "(string \<times> string list) list"

definition new_zone :: "string \<Rightarrow> nat list \<Rightarrow> zone_services" where
  "new_zone zone services = \<lparr>zs_zone = zone, zs_services = services, zs_next = length services\<rparr>"

text \<open>The services of each zone of the local broker, taken from those that are left, and the rest at the end.\<close>

fun zone_groups :: "svc_heap \<Rightarrow> node_zones \<Rightarrow> string list \<Rightarrow> nat list \<Rightarrow> zone_services list" where
  "zone_groups heap Z [] services = (if services = [] then [] else [new_zone '''' services])"
| "zone_groups heap Z (zone # zones) services =
     (let here = (\<lambda>p. case map_of Z (sv_brokerGuid (heap p)) of None \<Rightarrow> False | Some zs \<Rightarrow> zone \<in> set zs)
      in (if filter here services = [] then [] else [new_zone zone (filter here services)]) @
         zone_groups heap Z zones (filter (\<lambda>p. \<not> here p) services))"

definition calculateServiceZones :: "svc_settings \<Rightarrow> svc_heap \<Rightarrow> node_zones \<Rightarrow> nat list \<Rightarrow> zone_services list" where
  "calculateServiceZones S heap Z services =
     (if services = [] then []
      else let locals = filter (\<lambda>p. sv_brokerService (heap p)) services
        in (if locals = [] then [] else [new_zone ''(local)'' locals]) @
           zone_groups heap Z (case map_of Z (st_guid S) of None \<Rightarrow> [] | Some zones \<Rightarrow> zones)
             (filter (\<lambda>p. \<not> sv_brokerService (heap p)) services))"

text \<open>What the choice of a service looks at: the clock, the authorization policy, the topic and the tenant.\<close>

record svc_env =
  se_now :: int
  se_auth :: TopicAuthorizationState
  se_topic :: string
  se_tenant :: string

definition eligible :: "svc_settings \<Rightarrow> svc_env \<Rightarrow> service_registration \<Rightarrow> registry \<Rightarrow> bool \<times> registry" where
  "eligible S E reg r =
     (let (reachable, r') = (if isLocal S reg then (True, r)
            else (case getNextBroker (st_guid S) (sv_brokerGuid reg) r of (next, r') \<Rightarrow> (next \<noteq> '''', r')))
      in (reachable \<and> \<not> service_isExpired S (se_now E) reg \<and>
          (if sv_managedClient reg then isAuthorizedToSubscribe_key (se_auth E) (sv_clientGuid reg) (se_topic E)
           else isAuthorizedToSubscribe_certs (se_auth E) (sv_certificates reg) (se_topic E)) \<and>
          isServiceAvailable S (se_tenant E) reg, r'))"

fun zone_loop :: "svc_settings \<Rightarrow> svc_env \<Rightarrow> svc_heap \<Rightarrow> nat list \<Rightarrow> nat \<Rightarrow> nat \<Rightarrow> registry \<Rightarrow> nat option \<times> nat \<times> registry" where
  "zone_loop S E heap services 0 pos r = (None, pos, r)"
| "zone_loop S E heap services (Suc k) pos r =
     (let i = (if pos = length services then 0 else pos); p = services ! i
      in case eligible S E (heap p) r of
           (True, r') \<Rightarrow> (Some p, i + 1, r')
         | (False, r') \<Rightarrow> zone_loop S E heap services k (i + 1) r')"

definition zone_getNextService :: "svc_settings \<Rightarrow> svc_env \<Rightarrow> svc_heap \<Rightarrow> zone_services \<Rightarrow> registry \<Rightarrow> nat option \<times> zone_services \<times> registry" where
  "zone_getNextService S E heap z r =
     (case zone_loop S E heap (zs_services z) (length (zs_services z)) (zs_next z) r of (p, pos, r') \<Rightarrow> (p, z\<lparr>zs_next := pos\<rparr>, r'))"

fun zones_loop :: "svc_settings \<Rightarrow> svc_env \<Rightarrow> svc_heap \<Rightarrow> zone_services list \<Rightarrow> registry \<Rightarrow> nat option \<times> zone_services list \<times> registry" where
  "zones_loop S E heap [] r = (None, [], r)"
| "zones_loop S E heap (z # zs) r =
     (case zone_getNextService S E heap z r of
        (Some p, z', r') \<Rightarrow> (Some p, z' # zs, r')
      | (None, z', r') \<Rightarrow> (case zones_loop S E heap zs r' of (p, zs', r'') \<Rightarrow> (p, z' # zs', r'')))"

definition topic_getNextService ::
  "svc_settings \<Rightarrow> svc_env \<Rightarrow> svc_heap \<Rightarrow> node_zones \<Rightarrow> topic_services \<Rightarrow> registry \<Rightarrow> nat option \<times> topic_services \<times> registry" where
  "topic_getNextService S E heap Z ts r =
     (let zones = (case ts_zones ts of Some zs \<Rightarrow> zs | None \<Rightarrow> calculateServiceZones S heap Z (ts_services ts))
      in case zones_loop S E heap zones r of (p, zones', r') \<Rightarrow> (p, ts\<lparr>ts_zones := Some zones'\<rparr>, r'))"

definition topic_addService :: "nat \<Rightarrow> topic_services \<Rightarrow> topic_services" where
  "topic_addService p ts = \<lparr>ts_services = List.insert p (ts_services ts), ts_zones = None\<rparr>"

definition topic_removeService :: "nat \<Rightarrow> topic_services \<Rightarrow> topic_services" where
  "topic_removeService p ts = \<lparr>ts_services = removeAll p (ts_services ts), ts_zones = None\<rparr>"

section \<open>ServiceRegistry.cpp\<close>

datatype svc_event = Register_event service_registration "string list" | Unregister_event string "string list" | Tenant_services string int

record service_registry =
  sr_heap :: svc_heap
  sr_fresh :: nat
  sr_byId :: "(string \<times> nat) list"
  sr_byType :: "(string \<times> nat) list"
  sr_byTopic :: "(string \<times> topic_services) list"
  sr_zones :: node_zones
  sr_ttlCheckTime :: int
  sr_configChanged :: bool
  sr_localSvcCounter :: "32 word"
  sr_eventToRequest :: "(string \<times> string) list"
  sr_log :: "svc_event list"

definition new_service_registry :: "svc_heap \<Rightarrow> service_registry" where
  "new_service_registry heap = \<lparr>sr_heap = heap, sr_fresh = 0, sr_byId = [], sr_byType = [], sr_byTopic = [], sr_zones = [], sr_ttlCheckTime = 0,
     sr_configChanged = False, sr_localSvcCounter = 0, sr_eventToRequest = [], sr_log = []\<rparr>"

definition log_svc :: "svc_event \<Rightarrow> service_registry \<Rightarrow> service_registry" where
  "log_svc ev r = r\<lparr>sr_log := sr_log r @ [ev]\<rparr>"

definition incLocalSvc :: "svc_settings \<Rightarrow> service_registration \<Rightarrow> service_registry \<Rightarrow> service_registry" where
  "incLocalSvc S reg r = (if isLocal S reg then r\<lparr>sr_localSvcCounter := sr_localSvcCounter r + 1\<rparr> else r)"

definition decLocalSvc :: "svc_settings \<Rightarrow> service_registration \<Rightarrow> service_registry \<Rightarrow> service_registry" where
  "decLocalSvc S reg r = (if isLocal S reg then r\<lparr>sr_localSvcCounter := sr_localSvcCounter r - 1\<rparr> else r)"

text \<open>Events that are turned into requests.\<close>

definition prefixed :: "string \<Rightarrow> string \<Rightarrow> bool" where
  "prefixed pre s \<longleftrightarrow> take (length pre) s = pre"

definition event_topic_ok :: "string \<Rightarrow> bool" where
  "event_topic_ok topic \<longleftrightarrow> topic \<noteq> '''' \<and> CHR ''#'' \<notin> set topic \<and> CHR ''+'' \<notin> set topic \<and> \<not> prefixed ''/mcafee/event/dxl/'' topic"

definition addEventToRequestPrefix :: "svc_settings \<Rightarrow> service_registration \<Rightarrow> (string \<times> string) list \<Rightarrow> (string \<times> string) list" where
  "addEventToRequestPrefix S reg m =
     (if \<not> isOps S reg \<and> \<not> sv_managedClient reg then m
      else (case map_of (sv_metaData reg) ''eventToRequestPrefix'' of None \<Rightarrow> m
        | Some pre \<Rightarrow>
            fold (\<lambda>(k, topic) m. if prefixed ''eventToRequestTopic'' k \<and> event_topic_ok topic then AList.update topic pre m else m) (sv_metaData reg) m))"

definition request_events :: "svc_settings \<Rightarrow> service_registration \<Rightarrow> bool" where
  "request_events S reg \<longleftrightarrow> (\<not> ss_multiTenant S \<or> isOps S reg) \<and> (isOps S reg \<or> sv_managedClient reg)"

definition rebuildEventToRequestPrefixMap :: "svc_settings \<Rightarrow> service_registry \<Rightarrow> service_registry" where
  "rebuildEventToRequestPrefixMap S r =
     r\<lparr>sr_eventToRequest := fold (\<lambda>(_, p) m. if request_events S (sr_heap r p) then addEventToRequestPrefix S (sr_heap r p) m else m) (sr_byId r) []\<rparr>"

definition getRequestPrefixForEvent :: "string \<Rightarrow> service_registry \<Rightarrow> string" where
  "getRequestPrefixForEvent topic r = (case map_of (sr_eventToRequest r) topic of Some pre \<Rightarrow> pre | None \<Rightarrow> '''')"

text \<open>The tenants an event goes to, none for all of them.\<close>

definition event_tenants :: "svc_settings \<Rightarrow> service_registration \<Rightarrow> string list" where
  "event_tenants S reg = (if ss_multiTenant S \<and> \<not> isOps S reg then [sv_clientTenantGuid reg] else [])"

definition sendServiceRegistrationEvent :: "svc_settings \<Rightarrow> service_registration \<Rightarrow> service_registry \<Rightarrow> service_registry" where
  "sendServiceRegistrationEvent S reg r = (if isLocal S reg then log_svc (Register_event reg (event_tenants S reg)) r else r)"

definition sendServiceUnregistrationEvent :: "svc_settings \<Rightarrow> service_registration \<Rightarrow> service_registry \<Rightarrow> service_registry" where
  "sendServiceUnregistrationEvent S reg r = (if isLocal S reg then log_svc (Unregister_event (sv_serviceGuid reg) (event_tenants S reg)) r else r)"

definition sendServiceRegistrationEvents :: "svc_settings \<Rightarrow> int \<Rightarrow> service_registry \<Rightarrow> service_registry" where
  "sendServiceRegistrationEvents S now r =
     fold (\<lambda>(_, p) r'. if service_isExpired S now (sr_heap r p) then r'
                       else sendServiceRegistrationEvent S (resetRegistrationTime now (sr_heap r p)) r') (sr_byId r) r"

definition add_channel :: "nat \<Rightarrow> string \<Rightarrow> (string \<times> topic_services) list \<Rightarrow> (string \<times> topic_services) list" where
  "add_channel p topic m =
     AList.update topic (topic_addService p (case map_of m topic of None \<Rightarrow> \<lparr>ts_services = [], ts_zones = None\<rparr> | Some ts \<Rightarrow> ts)) m"

definition remove_channel :: "nat \<Rightarrow> string \<Rightarrow> (string \<times> topic_services) list \<Rightarrow> (string \<times> topic_services) list" where
  "remove_channel p topic m = (case map_of m topic of None \<Rightarrow> m
     | Some ts \<Rightarrow>
         let ts' = topic_removeService p ts in if ts_services ts' = [] then AList.delete topic m else AList.update topic ts' m)"

text \<open>The object \<open>reg\<close> is at the address \<open>p\<close>.\<close>

definition addService :: "svc_settings \<Rightarrow> nat \<Rightarrow> service_registry \<Rightarrow> service_registry" where
  "addService S p r =
     (let reg = sr_heap r p
      in incLocalSvc S reg (r\<lparr>sr_byId := AList.update (sv_serviceGuid reg) p (sr_byId r), sr_byType := sr_byType r @ [(sv_serviceType reg, p)],
           sr_byTopic := fold (add_channel p) (sv_requestChannels reg) (sr_byTopic r)\<rparr>))"

text \<open>The first entry of the type with the id of the registration is erased.\<close>

fun erase_type :: "svc_heap \<Rightarrow> nat \<Rightarrow> (string \<times> nat) list \<Rightarrow> (string \<times> nat) list" where
  "erase_type heap p [] = []"
| "erase_type heap p ((t, q) # m) =
     (if t = sv_serviceType (heap p) \<and> sv_serviceGuid (heap q) = sv_serviceGuid (heap p) then m else (t, q) # erase_type heap p m)"

definition doUnregisterService :: "svc_settings \<Rightarrow> nat \<Rightarrow> bool \<Rightarrow> service_registry \<Rightarrow> service_registry" where
  "doUnregisterService S p fireEvent r =
     (let reg = sr_heap r p;
          r1 = r\<lparr>sr_byId := AList.delete (sv_serviceGuid reg) (sr_byId r), sr_byType := erase_type (sr_heap r) p (sr_byType r),
                 sr_byTopic := fold (remove_channel p) (sv_requestChannels reg) (sr_byTopic r)\<rparr>;
          r2 = decLocalSvc S reg r1;
          r3 = (if (\<not> ss_multiTenant S \<or> isOps S reg) \<and> map_of (sv_metaData reg) ''eventToRequestPrefix'' \<noteq> None
                then rebuildEventToRequestPrefixMap S r2 else r2)
      in if fireEvent then sendServiceUnregistrationEvent S reg r3 else r3)"

definition tenant_count :: "svc_settings \<Rightarrow> service_registration \<Rightarrow> int \<Rightarrow> service_registry \<Rightarrow> service_registry" where
  "tenant_count S reg n r = (if ss_multiTenant S \<and> \<not> isOps S reg then log_svc (Tenant_services (sv_clientTenantGuid reg) n) r else r)"

definition unregisterService :: "svc_settings \<Rightarrow> string \<Rightarrow> bool \<Rightarrow> service_registry \<Rightarrow> service_registry" where
  "unregisterService S guid fireEvent r = (case map_of (sr_byId r) guid of None \<Rightarrow> r
     | Some p \<Rightarrow> tenant_count S (sr_heap r p) (-1) (doUnregisterService S p fireEvent r))"

definition unregisterService_client :: "svc_settings \<Rightarrow> string \<Rightarrow> string \<Rightarrow> string \<Rightarrow> bool \<Rightarrow> service_registry \<Rightarrow> service_registry" where
  "unregisterService_client S guid client tenant fireEvent r = (case map_of (sr_byId r) guid of None \<Rightarrow> r
     | Some p \<Rightarrow> if client = sv_clientGuid (sr_heap r p) \<and> tenant = sv_clientTenantGuid (sr_heap r p) then doUnregisterService S p fireEvent r else r)"

definition same_registration :: "service_registration \<Rightarrow> service_registration \<Rightarrow> bool" where
  "same_registration a b \<longleftrightarrow> set (sv_requestChannels a) = set (sv_requestChannels b) \<and> sv_brokerGuid a = sv_brokerGuid b \<and>
     sv_clientGuid a = sv_clientGuid b \<and> getClientInstanceGuid a = getClientInstanceGuid b \<and> sv_serviceType a = sv_serviceType b \<and>
     set (sv_metaData a) = set (sv_metaData b) \<and> set (sv_targetTenantGuids a) = set (sv_targetTenantGuids b) \<and>
     sv_managedClient a = sv_managedClient b \<and> set (sv_certificates a) = set (sv_certificates b)"

definition updateService :: "svc_settings \<Rightarrow> int \<Rightarrow> nat \<Rightarrow> nat \<Rightarrow> service_registry \<Rightarrow> service_registry" where
  "updateService S now old p r =
     (let e = sr_heap r old; reg = sr_heap r p in
      if sv_brokerGuid e \<noteq> sv_brokerGuid reg \<and> sv_ttlMins reg < getAdjustedTtlMins now e then r
      else if same_registration e reg
        then r\<lparr>sr_heap := (sr_heap r)(old := e\<lparr>sv_ttlMins := sv_ttlMins reg, sv_metaData := sv_metaData reg, sv_regTime := sv_regTime reg\<rparr>)\<rparr>
      else addService S p (unregisterService S (sv_serviceGuid reg) False r))"

datatype svc_error = Empty_service_guid | Guid_mismatch

definition registerService :: "svc_settings \<Rightarrow> int \<Rightarrow> service_registration \<Rightarrow> service_registry \<Rightarrow> svc_error + service_registry" where
  "registerService S now reg r0 =
     (let p = sr_fresh r0; r = r0\<lparr>sr_heap := (sr_heap r0)(p := reg), sr_fresh := p + 1\<rparr> in
      if sv_serviceGuid reg = '''' then Inl Empty_service_guid
      else case (case map_of (sr_byId r) (sv_serviceGuid reg) of
             None \<Rightarrow> Inr (addService S p r)
           | Some old \<Rightarrow>
               if sv_clientGuid reg = sv_clientGuid (sr_heap r old) \<and> sv_clientTenantGuid reg = sv_clientTenantGuid (sr_heap r old)
               then Inr (updateService S now old p r) else Inl Guid_mismatch) of
          Inl err \<Rightarrow> Inl err
        | Inr r1 \<Rightarrow>
            let r2 = (if request_events S reg then r1\<lparr>sr_eventToRequest := addEventToRequestPrefix S reg (sr_eventToRequest r1)\<rparr> else r1)
            in Inr (tenant_count S reg 1 (sendServiceRegistrationEvent S reg r2)))"

definition findService :: "svc_settings \<Rightarrow> string \<Rightarrow> string \<Rightarrow> service_registry \<Rightarrow> nat option" where
  "findService S guid tenant r = (case map_of (sr_byId r) guid of None \<Rightarrow> None
     | Some p \<Rightarrow> if isServiceAvailable S tenant (sr_heap r p) then Some p else None)"

definition findServicesByType :: "svc_settings \<Rightarrow> string \<Rightarrow> string \<Rightarrow> service_registry \<Rightarrow> nat list" where
  "findServicesByType S ty tenant r = map snd (filter (\<lambda>(t, p). t = ty \<and> isServiceAvailable S tenant (sr_heap r p)) (sr_byType r))"

definition getAllServices :: "svc_settings \<Rightarrow> string \<Rightarrow> service_registry \<Rightarrow> nat list" where
  "getAllServices S tenant r = filter (\<lambda>p. isServiceAvailable S tenant (sr_heap r p)) (map snd (sr_byId r))"

text \<open>The service for the next request on the topic of \<open>E\<close>.\<close>

definition getNextService :: "svc_settings \<Rightarrow> svc_env \<Rightarrow> registry \<Rightarrow> service_registry \<Rightarrow> nat option \<times> registry \<times> service_registry" where
  "getNextService S E R r = (case map_of (sr_byTopic r) (se_topic E) of None \<Rightarrow> (None, R, r)
     | Some ts \<Rightarrow> (case topic_getNextService S E (sr_heap r) (sr_zones r) ts R of (p, ts', R') \<Rightarrow>
         (p, R', r\<lparr>sr_byTopic := AList.update (se_topic E) ts' (sr_byTopic r)\<rparr>)))"

definition checkServiceTtls :: "svc_settings \<Rightarrow> int \<Rightarrow> service_registry \<Rightarrow> service_registry" where
  "checkServiceTtls S now r =
     fold (\<lambda>guid r. case map_of (sr_byId r) guid of None \<Rightarrow> r
        | Some p \<Rightarrow> if service_isExpired S now (sr_heap r p) then unregisterService S guid True r else r) (map fst (sr_byId r)) r"

definition onConfigurationUpdated :: "node_zones \<Rightarrow> service_registry \<Rightarrow> service_registry" where
  "onConfigurationUpdated Z r = r\<lparr>sr_zones := Z, sr_configChanged := True\<rparr>"

definition clearServiceZones :: "service_registry \<Rightarrow> service_registry" where
  "clearServiceZones r = r\<lparr>sr_byTopic := map (\<lambda>(t, ts). (t, ts\<lparr>ts_zones := None\<rparr>)) (sr_byTopic r)\<rparr>"

definition service_onCoreMaintenance :: "svc_settings \<Rightarrow> int \<Rightarrow> int \<Rightarrow> service_registry \<Rightarrow> service_registry" where
  "service_onCoreMaintenance S time now r =
     (let r1 = (if time - sr_ttlCheckTime r \<ge> int (st_ttlCheckIntervalMins S * 60) then checkServiceTtls S now (r\<lparr>sr_ttlCheckTime := time\<rparr>) else r)
      in if sr_configChanged r1 then clearServiceZones (r1\<lparr>sr_configChanged := False\<rparr>) else r1)"

section \<open>Each service of a zone in turn\<close>

text \<open>Whether a broker is reached does not depend on the cached routes.\<close>

lemma next_broker_nonempty:
  "registry_ok r \<Longrightarrow> fst (getNextBroker x y r) \<noteq> '''' \<longleftrightarrow> broker_exists x r \<and> broker_exists y r \<and> y \<in> behind (reg_brokers r) anyone x"
  by (rule next_broker_cases [of r x y]) (auto simp: broker_exists_def behind_def dest: valid_hop_behind)

lemma next_broker_brokers: "registry_ok r \<Longrightarrow> reg_brokers (snd (getNextBroker x y r)) = reg_brokers r"
  by (rule next_broker_cases [of r x y]) auto

definition same_fabric :: "registry \<Rightarrow> registry \<Rightarrow> bool" where
  "same_fabric r r' \<longleftrightarrow> registry_ok r \<and> registry_ok r' \<and> reg_brokers r' = reg_brokers r"

lemma same_fabric_trans: "same_fabric a b \<Longrightarrow> same_fabric b c \<Longrightarrow> same_fabric a c"
  by (simp add: same_fabric_def)

lemma eligible_fabric: "registry_ok r \<Longrightarrow> same_fabric r (snd (eligible S E reg r))"
  using registry_ok_next [of r "st_guid S" "sv_brokerGuid reg"] next_broker_brokers [of r "st_guid S" "sv_brokerGuid reg"]
  by (auto simp: eligible_def same_fabric_def split_beta)

lemma eligible_same: "same_fabric r r' \<Longrightarrow> fst (eligible S E reg r') = fst (eligible S E reg r)"
  using next_broker_nonempty [of r "st_guid S" "sv_brokerGuid reg"] next_broker_nonempty [of r' "st_guid S" "sv_brokerGuid reg"]
  by (simp add: eligible_def same_fabric_def split_beta broker_exists_def)

text \<open>The services of a zone in the order in which they are tried next.\<close>

definition zone_view :: "nat list \<Rightarrow> nat \<Rightarrow> nat list" where
  "zone_view ss pos = drop pos ss @ take pos ss"

lemma zone_view_step:
  assumes "ss \<noteq> []" and "pos \<le> length ss"
  defines "i \<equiv> if pos = length ss then 0 else pos"
  shows "zone_view ss pos = ss ! i # butlast (zone_view ss (i + 1))" and "zone_view ss (i + 1) = butlast (zone_view ss (i + 1)) @ [ss ! i]" and "i < length ss"
proof -
  show i: "i < length ss" using assms by (auto simp: i_def)
  have v: "zone_view ss (i + 1) = drop (Suc i) ss @ take i ss @ [ss ! i]" using i by (simp add: zone_view_def take_Suc_conv_app_nth)
  then show "zone_view ss (i + 1) = butlast (zone_view ss (i + 1)) @ [ss ! i]" by (simp add: butlast_append)
  have "zone_view ss pos = zone_view ss i" using assms by (auto simp: zone_view_def i_def)
  also have "\<dots> = ss ! i # drop (Suc i) ss @ take i ss" using i by (simp add: zone_view_def Cons_nth_drop_Suc [symmetric])
  finally show "zone_view ss pos = ss ! i # butlast (zone_view ss (i + 1))" using v by (simp add: butlast_append)
qed

lemma zone_view_perm: "set (zone_view ss pos) = set ss" "length (zone_view ss pos) = length ss" "distinct ss \<Longrightarrow> distinct (zone_view ss pos)"
proof -
  show "set (zone_view ss pos) = set ss" unfolding zone_view_def by (metis append_take_drop_id set_append Un_commute)
  show "length (zone_view ss pos) = length ss" by (simp add: zone_view_def)
  show "distinct ss \<Longrightarrow> distinct (zone_view ss pos)" unfolding zone_view_def
    by (metis append_take_drop_id distinct_append Int_commute)
qed

text \<open>What the loop over a zone finds: the first eligible service in the order of the view, after which the
  view starts anew; or none, and then the view has moved on.\<close>

lemma zone_loop_result:
  assumes "zone_loop S E heap ss k pos r = (res, pos', r')" and "registry_ok r" and "pos \<le> length ss" and "k \<le> length ss"
  shows "same_fabric r r' \<and> pos' \<le> length ss \<and>
    (case res of
       Some p \<Rightarrow> \<exists>ys zs. zone_view ss pos = ys @ p # zs \<and> length ys < k \<and> (\<forall>y \<in> set ys. \<not> fst (eligible S E (heap y) r)) \<and>
         fst (eligible S E (heap p) r) \<and> zone_view ss pos' = zs @ ys @ [p]
     | None \<Rightarrow> (\<forall>y \<in> set (take k (zone_view ss pos)). \<not> fst (eligible S E (heap y) r)) \<and> zone_view ss pos' = rotate k (zone_view ss pos))"
  using assms
proof (induction k arbitrary: pos r)
  case 0
  then show ?case by (simp add: same_fabric_def)
next
  case (Suc k)
  define i where "i = (if pos = length ss then 0 else pos)"
  have "ss \<noteq> []" using Suc.prems(4) by auto
  note v = zone_view_step [OF this Suc.prems(3), folded i_def]
  let ?x = "ss ! i" and ?rest = "butlast (zone_view ss (i + 1))"
  obtain ok r1 where e: "eligible S E (heap ?x) r = (ok, r1)" by (cases "eligible S E (heap ?x) r")
  have f: "same_fabric r r1" using eligible_fabric [OF Suc.prems(2), of S E "heap ?x"] e by simp
  have loop: "zone_loop S E heap ss (Suc k) pos r = (if ok then (Some ?x, i + 1, r1) else zone_loop S E heap ss k (i + 1) r1)"
    using e by (simp add: i_def Let_def split: bool.split)
  show ?case
  proof (cases ok)
    case True
    then have "res = Some ?x" "pos' = i + 1" "r' = r1" using loop Suc.prems(1) by simp_all
    moreover have "\<exists>ys zs. zone_view ss pos = ys @ ?x # zs \<and> length ys < Suc k \<and> (\<forall>y \<in> set ys. \<not> fst (eligible S E (heap y) r)) \<and>
         fst (eligible S E (heap ?x) r) \<and> zone_view ss (i + 1) = zs @ ys @ [?x]"
      by (rule exI [of _ "[]"], rule exI [of _ ?rest]) (use v e True in simp)
    ultimately show ?thesis using f v(3) by simp
  next
    case False
    then have l: "zone_loop S E heap ss k (i + 1) r1 = (res, pos', r')" using loop Suc.prems(1) by simp
    have "registry_ok r1" "i + 1 \<le> length ss" "k \<le> length ss" using f v(3) Suc.prems(4) by (simp_all add: same_fabric_def)
    note ih = Suc.IH [OF l this]
    have same: "fst (eligible S E reg r1) = fst (eligible S E reg r)" for reg by (rule eligible_same [OF f])
    have len: "length ?rest = length ss - 1" by (simp add: zone_view_perm)
    have x: "\<not> fst (eligible S E (heap ?x) r)" using e False by simp
    show ?thesis
    proof (cases res)
      case None
      have t: "take k (zone_view ss (i + 1)) = take k ?rest" using len Suc.prems(4) by (subst v(2)) simp
      have "zone_view ss (i + 1) = rotate1 (zone_view ss pos)" using v(1,2) by simp
      then have "rotate k (zone_view ss (i + 1)) = rotate (Suc k) (zone_view ss pos)" by (simp add: rotate1_rotate_swap)
      then show ?thesis using ih None f x v(1) t by (auto simp: same intro: same_fabric_trans)
    next
      case (Some p)
      then obtain ys zs where y: "zone_view ss (i + 1) = ys @ p # zs" "length ys < k" "\<forall>y \<in> set ys. \<not> fst (eligible S E (heap y) r)"
          "fst (eligible S E (heap p) r)" "zone_view ss pos' = zs @ ys @ [p]"
        using ih by (auto simp: same)
      have "zs \<noteq> []" using y(1,2) len Suc.prems(4) v(2) by (metis append_is_Nil_conv butlast_snoc le_less_Suc_eq length_append_singleton linorder_not_le not_less_eq zone_view_perm(2))
      then obtain zs0 where z: "zs = zs0 @ [?x]" "?rest = ys @ p # zs0" using y(1) v(2) by (cases zs rule: rev_cases) auto
      have "\<exists>ys zs. zone_view ss pos = ys @ p # zs \<and> length ys < Suc k \<and> (\<forall>y \<in> set ys. \<not> fst (eligible S E (heap y) r)) \<and>
         fst (eligible S E (heap p) r) \<and> zone_view ss pos' = zs @ ys @ [p]"
        by (rule exI [of _ "?x # ys"], rule exI [of _ zs0]) (use x y z v(1) in simp)
      then show ?thesis using ih Some same_fabric_trans [OF f] by simp
    qed
  qed
qed

definition zone_order :: "zone_services \<Rightarrow> nat list" where
  "zone_order z = zone_view (zs_services z) (zs_next z)"

definition eligible_now :: "svc_settings \<Rightarrow> svc_env \<Rightarrow> svc_heap \<Rightarrow> registry \<Rightarrow> nat \<Rightarrow> bool" where
  "eligible_now S E heap r p \<longleftrightarrow> fst (eligible S E (heap p) r)"

lemma eligible_now_same: "same_fabric r r' \<Longrightarrow> eligible_now S E heap r' = eligible_now S E heap r"
  by (rule ext) (simp add: eligible_now_def eligible_same)

lemma zone_next_result:
  assumes "zone_getNextService S E heap z r = (res, z', r')" and "registry_ok r" and "zs_next z \<le> length (zs_services z)"
  defines "F \<equiv> filter (eligible_now S E heap r) (zone_order z)"
  shows "same_fabric r r' \<and> zs_services z' = zs_services z \<and> zs_next z' \<le> length (zs_services z) \<and>
    res = (if F = [] then None else Some (hd F)) \<and> filter (eligible_now S E heap r) (zone_order z') = rotate1 F"
proof -
  let ?ss = "zs_services z"
  obtain pos' where l: "zone_loop S E heap ?ss (length ?ss) (zs_next z) r = (res, pos', r')" and z': "z' = z\<lparr>zs_next := pos'\<rparr>"
    using assms(1) by (auto simp: zone_getNextService_def split: prod.splits)
  note L = zone_loop_result [OF l assms(2,3) order_refl]
  show ?thesis
  proof (cases res)
    case None
    then have "F = []" "zone_order z' = rotate (length ?ss) (zone_order z)"
      using L by (auto simp: F_def zone_order_def z' zone_view_perm eligible_now_def filter_empty_conv)
    moreover have "rotate (length ?ss) (zone_order z) = zone_order z" using rotate_length01 rotate_conv_mod [of "length ?ss" "zone_order z"]
      by (simp add: zone_order_def zone_view_perm)
    ultimately show ?thesis using L None z' F_def by simp
  next
    case (Some p)
    then obtain ys zs where y: "zone_order z = ys @ p # zs" "filter (eligible_now S E heap r) ys = []" "eligible_now S E heap r p" "zone_order z' = zs @ ys @ [p]"
      using L by (auto simp: zone_order_def z' eligible_now_def filter_empty_conv)
    then show ?thesis using L Some z' by (simp add: F_def)
  qed
qed

text \<open>The eligible services of the nearest zone that has any, in the order of their turns.\<close>

fun nearest :: "(nat \<Rightarrow> bool) \<Rightarrow> zone_services list \<Rightarrow> nat list" where
  "nearest ok [] = []"
| "nearest ok (z # zs) = (if filter ok (zone_order z) = [] then nearest ok zs else filter ok (zone_order z))"

definition turns_ok :: "zone_services list \<Rightarrow> bool" where
  "turns_ok zs \<longleftrightarrow> (\<forall>z \<in> set zs. zs_next z \<le> length (zs_services z))"

lemma zones_loop_result:
  assumes "zones_loop S E heap zs r = (res, zs', r')" and "registry_ok r" and "turns_ok zs"
  defines "F \<equiv> nearest (eligible_now S E heap r) zs"
  shows "same_fabric r r' \<and> map zs_services zs' = map zs_services zs \<and> turns_ok zs' \<and> res = (if F = [] then None else Some (hd F)) \<and>
    nearest (eligible_now S E heap r) zs' = rotate1 F"
  using assms(1-3) unfolding F_def
proof (induction zs arbitrary: r zs')
  case Nil
  then show ?case by (simp add: same_fabric_def turns_ok_def)
next
  case (Cons z zs)
  obtain res1 z1 r1 where n: "zone_getNextService S E heap z r = (res1, z1, r1)" by (metis prod_cases3)
  have "zs_next z \<le> length (zs_services z)" and t: "turns_ok zs" using Cons.prems(3) by (simp_all add: turns_ok_def)
  note N = zone_next_result [OF n Cons.prems(2) this(1)]
  show ?case
  proof (cases res1)
    case (Some p)
    then show ?thesis using Cons.prems(1) N n t by (auto simp: turns_ok_def split: if_splits)
  next
    case None
    then obtain zs1 where l: "zones_loop S E heap zs r1 = (res, zs1, r')" "zs' = z1 # zs1"
      using Cons.prems(1) n by (auto split: prod.splits)
    have f: "same_fabric r r1" using N by simp
    then have "registry_ok r1" by (simp add: same_fabric_def)
    note ih = Cons.IH [OF l(1) this t, unfolded eligible_now_same [OF f]]
    have "filter (eligible_now S E heap r) (zone_order z) = []" using N None by (simp split: if_splits)
    then show ?thesis using ih l(2) N None same_fabric_trans [OF f] by (simp add: turns_ok_def)
  qed
qed

section \<open>The zones are tried from the nearest to the farthest\<close>

definition in_zone :: "svc_heap \<Rightarrow> node_zones \<Rightarrow> string \<Rightarrow> nat \<Rightarrow> bool" where
  "in_zone heap Z zone p \<longleftrightarrow> (case map_of Z (sv_brokerGuid (heap p)) of None \<Rightarrow> False | Some zs \<Rightarrow> zone \<in> set zs)"

text \<open>How far a service is: the number of zones, from the innermost one of the local broker, that it is not in; the
  services of the broker itself come before all others.\<close>

definition zone_rank :: "svc_heap \<Rightarrow> node_zones \<Rightarrow> string list \<Rightarrow> nat \<Rightarrow> nat" where
  "zone_rank heap Z zones p = length (takeWhile (\<lambda>zone. \<not> in_zone heap Z zone p) zones)"

definition svc_rank :: "svc_settings \<Rightarrow> svc_heap \<Rightarrow> node_zones \<Rightarrow> nat \<Rightarrow> nat" where
  "svc_rank S heap Z p = (if sv_brokerService (heap p) then 0
     else Suc (zone_rank heap Z (case map_of Z (st_guid S) of None \<Rightarrow> [] | Some zones \<Rightarrow> zones) p))"

definition closest :: "(nat \<Rightarrow> nat) \<Rightarrow> nat set \<Rightarrow> nat set" where
  "closest rank P = {p \<in> P. \<forall>q \<in> P. rank p \<le> rank q}"

lemma zone_order_new [simp]: "zone_order (new_zone zone ss) = ss"
  by (simp add: zone_order_def zone_view_def new_zone_def)

lemma zone_groups_Cons:
  "zone_groups heap Z (zone # zones) ss =
     (if filter (in_zone heap Z zone) ss = [] then [] else [new_zone zone (filter (in_zone heap Z zone) ss)]) @
       zone_groups heap Z zones (filter (\<lambda>p. \<not> in_zone heap Z zone p) ss)"
proof -
  have "in_zone heap Z zone = (\<lambda>p. case map_of Z (sv_brokerGuid (heap p)) of None \<Rightarrow> False | Some zs \<Rightarrow> zone \<in> set zs)"
    by (rule ext) (simp add: in_zone_def)
  then show ?thesis by (simp only: zone_groups.simps Let_def)
qed

lemma nearest_opt: "nearest ok ((if ss = [] then [] else [new_zone zone ss]) @ zs) = (if filter ok ss = [] then nearest ok zs else filter ok ss)"
  by simp

lemma closest_split:
  assumes A: "\<And>p. p \<in> A \<Longrightarrow> rank p = 0" and B: "\<And>p. p \<in> B \<Longrightarrow> rank p = Suc (rank' p)"
  shows "closest rank (A \<union> B) = (if A = {} then closest rank' B else A)"
proof (cases "A = {}")
  case True
  then show ?thesis using B by (auto simp: closest_def)
next
  case False
  then obtain a where a: "a \<in> A" by blast
  have "p \<in> A" if "p \<in> closest rank (A \<union> B)" for p
  proof (rule ccontr)
    assume "p \<notin> A"
    then have "p \<in> B" "rank p \<le> rank a" using that a by (auto simp: closest_def)
    then show False using A [OF a] B [of p] by simp
  qed
  then show ?thesis using False A by (auto simp: closest_def)
qed

text \<open>A zone of the services with \<open>P\<close>, which are the nearest ones, before those of the others.\<close>

lemma nearest_split:
  assumes "\<And>p. P p \<Longrightarrow> rank p = 0" and "\<And>p. \<not> P p \<Longrightarrow> rank p = Suc (rank' p)"
    and rest: "set (nearest ok zs) = closest rank' {p \<in> set (filter (\<lambda>p. \<not> P p) ss). ok p}"
  shows "set (nearest ok ((if filter P ss = [] then [] else [new_zone zone (filter P ss)]) @ zs)) = closest rank {p \<in> set ss. ok p}"
proof -
  let ?A = "{p \<in> set ss. ok p \<and> P p}" and ?B = "{p \<in> set (filter (\<lambda>p. \<not> P p) ss). ok p}"
  have "closest rank (?A \<union> ?B) = (if ?A = {} then closest rank' ?B else ?A)" using assms(1,2) by (intro closest_split) auto
  moreover have "?A \<union> ?B = {p \<in> set ss. ok p}" by auto
  moreover have "filter ok (filter P ss) = [] \<longleftrightarrow> ?A = {}" and "set (filter ok (filter P ss)) = ?A" by (auto simp: filter_empty_conv)
  ultimately show ?thesis unfolding nearest_opt by (cases "?A = {}") (simp_all only: rest if_True if_False simp_thms)
qed

lemma nearest_groups: "set (nearest ok (zone_groups heap Z zones ss)) = closest (zone_rank heap Z zones) {p \<in> set ss. ok p}"
proof (induction zones arbitrary: ss)
  case Nil
  then show ?case by (auto simp: closest_def zone_rank_def filter_empty_conv)
next
  case (Cons zone zones)
  show ?case unfolding zone_groups_Cons
    by (rule nearest_split [where rank' = "zone_rank heap Z zones"]) (simp_all add: zone_rank_def [of _ _ "zone # zones"] zone_rank_def [of _ _ zones, symmetric] Cons.IH)
qed

lemma nearest_calculated: "set (nearest ok (calculateServiceZones S heap Z ss)) = closest (svc_rank S heap Z) {p \<in> set ss. ok p}"
proof (cases "ss = []")
  case True
  then show ?thesis by (simp add: calculateServiceZones_def closest_def)
next
  case False
  let ?zones = "case map_of Z (st_guid S) of None \<Rightarrow> [] | Some zones \<Rightarrow> zones"
  let ?local = "\<lambda>p. sv_brokerService (heap p)"
  have c: "calculateServiceZones S heap Z ss = (if filter ?local ss = [] then [] else [new_zone ''(local)'' (filter ?local ss)]) @
      zone_groups heap Z ?zones (filter (\<lambda>p. \<not> ?local p) ss)"
    using False by (simp add: calculateServiceZones_def Let_def)
  show ?thesis unfolding c
    by (rule nearest_split [where rank' = "zone_rank heap Z ?zones"]) (simp_all add: svc_rank_def nearest_groups)
qed

text \<open>The set of the nearest eligible services does not depend on whose turn it is.\<close>

lemma nearest_turns: "map zs_services zs' = map zs_services zs \<Longrightarrow> set (nearest ok zs') = set (nearest ok zs)"
proof (induction zs arbitrary: zs')
  case Nil
  then show ?case by simp
next
  case (Cons z zs)
  then obtain z' zs1 where z: "zs' = z' # zs1" "zs_services z' = zs_services z" "map zs_services zs1 = map zs_services zs" by auto
  have "set (zone_order z') = set (zone_order z)" by (simp add: zone_order_def zone_view_perm z(2))
  then have "(filter ok (zone_order z') = []) = (filter ok (zone_order z) = [])" and "set (filter ok (zone_order z')) = set (filter ok (zone_order z))"
    by (simp_all add: filter_empty_conv)
  then show ?case using Cons.IH [OF z(3)] z(1) by simp
qed

lemma distinct_groups:
  "distinct ss \<Longrightarrow> \<forall>z \<in> set (zone_groups heap Z zones ss). distinct (zs_services z) \<and> zs_next z \<le> length (zs_services z)"
proof (induction zones arbitrary: ss)
  case Nil
  then show ?case by (simp add: new_zone_def)
next
  case (Cons zone zones)
  have "distinct (filter (\<lambda>p. \<not> in_zone heap Z zone p) ss)" using Cons.prems by simp
  from Cons.IH [OF this] show ?case using Cons.prems unfolding zone_groups_Cons by (auto simp: new_zone_def)
qed

lemma distinct_calculated:
  "distinct ss \<Longrightarrow> z \<in> set (calculateServiceZones S heap Z ss) \<Longrightarrow> distinct (zs_services z) \<and> zs_next z \<le> length (zs_services z)"
  using distinct_groups [of "filter (\<lambda>p. \<not> sv_brokerService (heap p)) ss" heap Z] by (auto simp: calculateServiceZones_def new_zone_def Let_def split: if_splits)

lemma distinct_nearest: "(\<And>z. z \<in> set zs \<Longrightarrow> distinct (zs_services z)) \<Longrightarrow> distinct (nearest ok zs)"
  by (induction zs) (simp_all add: zone_order_def zone_view_perm)

lemma zone_groups_cong:
  "(\<And>p. p \<in> set ss \<Longrightarrow> sv_brokerGuid (heap' p) = sv_brokerGuid (heap p)) \<Longrightarrow> zone_groups heap' Z zones ss = zone_groups heap Z zones ss"
proof (induction zones arbitrary: ss)
  case Nil
  then show ?case by simp
next
  case (Cons zone zones)
  have e: "filter (in_zone heap' Z zone) ss = filter (in_zone heap Z zone) ss"
      "filter (\<lambda>p. \<not> in_zone heap' Z zone p) ss = filter (\<lambda>p. \<not> in_zone heap Z zone p) ss"
    using Cons.prems by (auto intro!: filter_cong simp: in_zone_def)
  show ?case unfolding zone_groups_Cons e
    using Cons.IH [of "filter (\<lambda>p. \<not> in_zone heap Z zone p) ss"] Cons.prems by simp
qed

lemma calculated_cong:
  assumes "\<And>p. p \<in> set ss \<Longrightarrow> sv_brokerGuid (heap' p) = sv_brokerGuid (heap p) \<and> sv_brokerService (heap' p) = sv_brokerService (heap p)"
  shows "calculateServiceZones S heap' Z ss = calculateServiceZones S heap Z ss"
proof -
  have "filter (\<lambda>p. sv_brokerService (heap' p)) ss = filter (\<lambda>p. sv_brokerService (heap p)) ss"
      "filter (\<lambda>p. \<not> sv_brokerService (heap' p)) ss = filter (\<lambda>p. \<not> sv_brokerService (heap p)) ss"
    using assms by (auto intro!: filter_cong)
  moreover have "zone_groups heap' Z zones (filter (\<lambda>p. \<not> sv_brokerService (heap p)) ss) =
      zone_groups heap Z zones (filter (\<lambda>p. \<not> sv_brokerService (heap p)) ss)" for zones
    using assms by (intro zone_groups_cong) auto
  ultimately show ?thesis by (simp add: calculateServiceZones_def)
qed

end
