(* ===== verification/Service_Index.thy ===== *)
theory Service_Index
  imports Services
begin

text \<open>
  The service registry as a whole: the indexes of src/brokerlib/serviceregistry/src/ServiceRegistry.cpp by id, by
  type and by topic agree after any sequence of its operations, and it is a map from ids to registrations; the
  services of a topic get the requests from the nearest zone, in turn.
\<close>

section \<open>The indexes of the registry agree\<close>

definition registered :: "service_registry \<Rightarrow> nat set" where
  "registered r = snd ` set (sr_byId r)"

text \<open>The zones of a topic are those of its services; \<open>known\<close> gives the configuration they were made from, when it has
  not changed since.\<close>

definition topic_ok :: "svc_settings \<Rightarrow> svc_heap \<Rightarrow> node_zones option \<Rightarrow> topic_services \<Rightarrow> bool" where
  "topic_ok S heap known ts \<longleftrightarrow> ts_services ts \<noteq> [] \<and> distinct (ts_services ts) \<and>
     (\<forall>zs. ts_zones ts = Some zs \<longrightarrow> turns_ok zs \<and>
        (\<exists>Z. (known = None \<or> known = Some Z) \<and> map zs_services zs = map zs_services (calculateServiceZones S heap Z (ts_services ts))))"

definition topics_ok :: "svc_settings \<Rightarrow> svc_heap \<Rightarrow> node_zones option \<Rightarrow> (string \<times> topic_services) list \<Rightarrow> bool" where
  "topics_ok S heap known m \<longleftrightarrow> distinct (map fst m) \<and> (\<forall>t ts. map_of m t = Some ts \<longrightarrow> topic_ok S heap known ts)"

definition topic_index :: "(string \<times> topic_services) list \<Rightarrow> string \<Rightarrow> nat set" where
  "topic_index m t = (case map_of m t of None \<Rightarrow> {} | Some ts \<Rightarrow> set (ts_services ts))"

definition known_zones :: "service_registry \<Rightarrow> node_zones option" where
  "known_zones r = (if sr_configChanged r then None else Some (sr_zones r))"

definition services_ok :: "svc_settings \<Rightarrow> service_registry \<Rightarrow> bool" where
  "services_ok S r \<longleftrightarrow>
     distinct (map fst (sr_byId r)) \<and> (\<forall>g p. (g, p) \<in> set (sr_byId r) \<longrightarrow> sv_serviceGuid (sr_heap r p) = g \<and> p < sr_fresh r) \<and>
     distinct (sr_byType r) \<and> set (sr_byType r) = (\<lambda>p. (sv_serviceType (sr_heap r p), p)) ` registered r \<and>
     topics_ok S (sr_heap r) (known_zones r) (sr_byTopic r) \<and>
     (\<forall>t. topic_index (sr_byTopic r) t = {p \<in> registered r. t \<in> set (sv_requestChannels (sr_heap r p))}) \<and>
     sr_localSvcCounter r = of_nat (card {p \<in> registered r. isLocal S (sr_heap r p)})"

lemma topic_ok_new [simp]: "ss \<noteq> [] \<Longrightarrow> distinct ss \<Longrightarrow> topic_ok S heap known \<lparr>ts_services = ss, ts_zones = None\<rparr>"
  by (simp add: topic_ok_def)

lemma map_of_AList_update: "map_of (AList.update k v m) t = (if t = k then Some v else map_of m t)"
  by (simp add: update_conv')

lemma map_of_AList_delete: "map_of (AList.delete k m) t = (if t = k then None else map_of m t)"
  by (simp add: delete_conv')

lemmas AList_look = map_of_AList_update map_of_AList_delete

lemma topics_ok_update: "topics_ok S heap known m \<Longrightarrow> topic_ok S heap known ts \<Longrightarrow> topics_ok S heap known (AList.update c ts m)"
  unfolding topics_ok_def by (auto simp: AList_look distinct_update simp del: map_of_eq_Some_iff split: if_splits)

lemma topics_ok_delete: "topics_ok S heap known m \<Longrightarrow> topics_ok S heap known (AList.delete c m)"
  unfolding topics_ok_def by (auto simp: AList_look distinct_delete simp del: map_of_eq_Some_iff split: if_splits)

lemma topics_ok_at: "topics_ok S heap known m \<Longrightarrow> map_of m t = Some ts \<Longrightarrow> topic_ok S heap known ts"
  by (simp add: topics_ok_def)

lemma add_channel_ok:
  assumes "topics_ok S heap known m"
  shows "topics_ok S heap known (add_channel p c m)"
proof -
  have "List.insert p ss \<noteq> []" for ss by (metis set_insert insert_not_empty set_empty2)
  then have "topic_ok S heap known (topic_addService p ts)" if "distinct (ts_services ts)" for ts
    using that by (simp add: topic_addService_def)
  moreover have "distinct (ts_services (case map_of m c of None \<Rightarrow> \<lparr>ts_services = [], ts_zones = None\<rparr> | Some ts \<Rightarrow> ts))"
    using topics_ok_at [OF assms, of c] by (simp add: topic_ok_def split: option.split)
  ultimately show ?thesis unfolding add_channel_def by (intro topics_ok_update [OF assms])
qed

lemma topic_index_add: "topic_index (add_channel p c m) t = (if t = c then insert p (topic_index m t) else topic_index m t)"
  by (simp add: topic_index_def add_channel_def topic_addService_def AList_look split: option.split)

lemma removeAll_Nil: "removeAll p xs = [] \<longleftrightarrow> set xs \<subseteq> {p}"
  by (induction xs) auto

lemma remove_channel_ok:
  assumes "topics_ok S heap known m"
  shows "topics_ok S heap known (remove_channel p c m)"
proof (cases "map_of m c")
  case None
  then show ?thesis using assms by (simp add: remove_channel_def)
next
  case (Some ts)
  have "distinct (ts_services ts)" using topics_ok_at [OF assms Some] by (simp add: topic_ok_def)
  then show ?thesis using Some assms
    by (simp add: remove_channel_def topic_removeService_def topics_ok_update topics_ok_delete distinct_removeAll)
qed

lemma topic_index_remove: "topic_index (remove_channel p c m) t = (if t = c then topic_index m t - {p} else topic_index m t)"
  by (auto simp: topic_index_def remove_channel_def topic_removeService_def Let_def AList_look removeAll_Nil split: option.split)

lemma add_channels:
  "topics_ok S heap known m \<Longrightarrow> topics_ok S heap known (fold (add_channel p) cs m)"
  "topic_index (fold (add_channel p) cs m) t = topic_index m t \<union> (if t \<in> set cs then {p} else {})"
  by (induction cs arbitrary: m) (auto simp: add_channel_ok topic_index_add)

lemma remove_channels:
  "topics_ok S heap known m \<Longrightarrow> topics_ok S heap known (fold (remove_channel p) cs m)"
  "topic_index (fold (remove_channel p) cs m) t = topic_index m t - (if t \<in> set cs then {p} else {})"
  by (induction cs arbitrary: m) (auto simp: remove_channel_ok topic_index_remove)

lemma AList_update_new: "k \<notin> fst ` set m \<Longrightarrow> AList.update k v m = m @ [(k, v)]"
  by (induction m) auto

lemma registered_finite [simp]: "finite (registered r)"
  by (simp add: registered_def)

lemma registered_below: "services_ok S r \<Longrightarrow> p \<in> registered r \<Longrightarrow> p < sr_fresh r"
  by (auto simp: services_ok_def registered_def)

lemma registered_at: "services_ok S r \<Longrightarrow> p \<in> registered r \<Longrightarrow> map_of (sr_byId r) (sv_serviceGuid (sr_heap r p)) = Some p"
  by (auto simp: services_ok_def registered_def)

lemma registered_inj: "services_ok S r \<Longrightarrow> p \<in> registered r \<Longrightarrow> q \<in> registered r \<Longrightarrow> sv_serviceGuid (sr_heap r p) = sv_serviceGuid (sr_heap r q) \<longleftrightarrow> p = q"
  by (metis registered_at option.inject)

text \<open>The other fields play no part, nor what is in the heap outside the registrations.\<close>

lemma services_ok_other [simp]:
  "services_ok S (r\<lparr>sr_log := l\<rparr>) = services_ok S r" "services_ok S (r\<lparr>sr_eventToRequest := m\<rparr>) = services_ok S r"
  "services_ok S (r\<lparr>sr_ttlCheckTime := c\<rparr>) = services_ok S r"
  by (simp_all add: services_ok_def known_zones_def registered_def)

lemma topic_ok_heap:
  assumes "topic_ok S heap known ts"
    and "\<And>p. p \<in> set (ts_services ts) \<Longrightarrow> sv_brokerGuid (heap' p) = sv_brokerGuid (heap p) \<and> sv_brokerService (heap' p) = sv_brokerService (heap p)"
  shows "topic_ok S heap' known ts"
proof -
  have "calculateServiceZones S heap' Z (ts_services ts) = calculateServiceZones S heap Z (ts_services ts)" for Z
    by (rule calculated_cong) (rule assms(2))
  then show ?thesis using assms(1) by (simp add: topic_ok_def)
qed

lemma services_ok_heap:
  assumes ok: "services_ok S r" and n: "sr_fresh r \<le> n"
    and same: "\<And>p. p \<in> registered r \<Longrightarrow> sv_serviceGuid (h p) = sv_serviceGuid (sr_heap r p) \<and> sv_serviceType (h p) = sv_serviceType (sr_heap r p) \<and>
      sv_requestChannels (h p) = sv_requestChannels (sr_heap r p) \<and> sv_brokerGuid (h p) = sv_brokerGuid (sr_heap r p) \<and>
      sv_brokerService (h p) = sv_brokerService (sr_heap r p)"
  shows "services_ok S (r\<lparr>sr_heap := h, sr_fresh := n\<rparr>)"
proof -
  let ?r = "r\<lparr>sr_heap := h, sr_fresh := n\<rparr>"
  have R: "registered ?r = registered r" by (simp add: registered_def)
  have "topic_ok S h (known_zones r) ts" if "map_of (sr_byTopic r) t = Some ts" for t ts
  proof (rule topic_ok_heap [of _ "sr_heap r"])
    show "topic_ok S (sr_heap r) (known_zones r) ts" using ok that by (auto simp: services_ok_def topics_ok_def)
    have "topic_index (sr_byTopic r) t = set (ts_services ts)" using that by (simp add: topic_index_def)
    then have "set (ts_services ts) \<subseteq> registered r" using ok by (auto simp: services_ok_def)
    then show "sv_brokerGuid (h p) = sv_brokerGuid (sr_heap r p) \<and> sv_brokerService (h p) = sv_brokerService (sr_heap r p)" if "p \<in> set (ts_services ts)" for p
      using same that by blast
  qed
  then have T: "topics_ok S h (known_zones r) (sr_byTopic r)" using ok by (auto simp: services_ok_def topics_ok_def)
  have I: "sv_serviceGuid (h p) = g \<and> p < n" if "(g, p) \<in> set (sr_byId r)" for g p
  proof -
    have "p \<in> registered r" using that by (force simp: registered_def)
    moreover have "sv_serviceGuid (sr_heap r p) = g \<and> p < sr_fresh r" using ok that unfolding services_ok_def by blast
    ultimately show ?thesis using same [of p] n by simp
  qed
  have "{p \<in> registered r. t \<in> set (sv_requestChannels (h p))} = {p \<in> registered r. t \<in> set (sv_requestChannels (sr_heap r p))}" for t
    using same by auto
  moreover have "{p \<in> registered r. isLocal S (h p)} = {p \<in> registered r. isLocal S (sr_heap r p)}" using same by (auto simp: isLocal_def)
  moreover have "(\<lambda>p. (sv_serviceType (h p), p)) ` registered r = (\<lambda>p. (sv_serviceType (sr_heap r p), p)) ` registered r" using same by (auto simp: image_iff)
  moreover have "known_zones ?r = known_zones r" by (simp add: known_zones_def)
  ultimately show ?thesis using ok T I unfolding services_ok_def R by (simp only: service_registry.simps simp_thms) auto
qed

section \<open>Every operation keeps the indexes in agreement\<close>

lemma services_ok_new: "services_ok S (new_service_registry heap)"
  by (simp add: services_ok_def new_service_registry_def registered_def topics_ok_def topic_index_def)

lemma services_okD:
  assumes "services_ok S r"
  shows "distinct (map fst (sr_byId r))" and "(g, p) \<in> set (sr_byId r) \<Longrightarrow> sv_serviceGuid (sr_heap r p) = g \<and> p < sr_fresh r \<and> p \<in> registered r"
    and "distinct (sr_byType r)" and "set (sr_byType r) = (\<lambda>p. (sv_serviceType (sr_heap r p), p)) ` registered r"
    and "topics_ok S (sr_heap r) (known_zones r) (sr_byTopic r)"
    and "topic_index (sr_byTopic r) t = {p \<in> registered r. t \<in> set (sv_requestChannels (sr_heap r p))}"
    and "sr_localSvcCounter r = of_nat (card {p \<in> registered r. isLocal S (sr_heap r p)})"
proof -
  assume "(g, p) \<in> set (sr_byId r)"
  moreover from this have "p \<in> registered r" by (force simp: registered_def)
  ultimately show "sv_serviceGuid (sr_heap r p) = g \<and> p < sr_fresh r \<and> p \<in> registered r" using assms unfolding services_ok_def by blast
qed (use assms in \<open>unfold services_ok_def, blast+\<close>)

lemma card_local_insert:
  assumes "p \<notin> registered r"
  shows "card {q \<in> insert p (registered r). isLocal S (h q)} = card {q \<in> registered r. isLocal S (h q)} + (if isLocal S (h p) then 1 else 0)"
proof -
  have "{q \<in> insert p (registered r). isLocal S (h q)} = (if isLocal S (h p) then insert p {q \<in> registered r. isLocal S (h q)} else {q \<in> registered r. isLocal S (h q)})"
    by auto
  then show ?thesis using assms by simp
qed

lemma addService_ok:
  assumes ok: "services_ok S r" and p: "p < sr_fresh r" and new: "map_of (sr_byId r) (sv_serviceGuid (sr_heap r p)) = None"
  shows "services_ok S (addService S p r)" and "registered (addService S p r) = insert p (registered r)"
proof -
  let ?reg = "sr_heap r p" and ?R = "addService S p r"
  have k: "sv_serviceGuid ?reg \<notin> fst ` set (sr_byId r)" using new by (simp add: map_of_eq_None_iff)
  have id: "sr_byId ?R = sr_byId r @ [(sv_serviceGuid ?reg, p)]" by (simp add: addService_def incLocalSvc_def AList_update_new [OF k] Let_def)
  then show R: "registered ?R = insert p (registered r)" by (simp add: registered_def)
  have np: "p \<notin> registered r" using registered_at [OF ok, of p] new by auto
  have f: "sr_heap ?R = sr_heap r" "sr_fresh ?R = sr_fresh r" "known_zones ?R = known_zones r" "sr_byType ?R = sr_byType r @ [(sv_serviceType ?reg, p)]"
      "sr_byTopic ?R = fold (add_channel p) (sv_requestChannels ?reg) (sr_byTopic r)"
      "sr_localSvcCounter ?R = sr_localSvcCounter r + (if isLocal S ?reg then 1 else 0)"
    by (simp_all add: addService_def incLocalSvc_def known_zones_def Let_def)
  note o = services_okD [OF ok]
  have ids: "\<forall>g q. (g, q) \<in> set (sr_byId ?R) \<longrightarrow> sv_serviceGuid (sr_heap ?R q) = g \<and> q < sr_fresh ?R" using o(2) p by (auto simp: id f)
  have ty: "distinct (sr_byType ?R) \<and> set (sr_byType ?R) = (\<lambda>p. (sv_serviceType (sr_heap ?R p), p)) ` registered ?R" using o(3,4) np by (auto simp: R f)
  have to: "topics_ok S (sr_heap ?R) (known_zones ?R) (sr_byTopic ?R)" unfolding f using o(5) by (intro add_channels)
  have ix: "topic_index (sr_byTopic ?R) t = {q \<in> registered ?R. t \<in> set (sv_requestChannels (sr_heap ?R q))}" for t
    unfolding f add_channels o(6) R by auto
  have co: "sr_localSvcCounter ?R = of_nat (card {q \<in> registered ?R. isLocal S (sr_heap ?R q)})"
    using o(7) unfolding f R card_local_insert [OF np] by simp
  show "services_ok S ?R" unfolding services_ok_def using o(1) k ids ty to ix co by (simp add: id)
qed

lemma erase_type_remove1:
  "(\<forall>t q. (t, q) \<in> set m \<longrightarrow> sv_serviceGuid (heap q) = sv_serviceGuid (heap p) \<longrightarrow> q = p) \<Longrightarrow> erase_type heap p m = remove1 (sv_serviceType (heap p), p) m"
proof (induction m)
  case (Cons e m)
  obtain t q where e: "e = (t, q)" by (cases e)
  then have "sv_serviceGuid (heap q) = sv_serviceGuid (heap p) \<longleftrightarrow> q = p" using Cons.prems by auto
  then show ?case using Cons e by auto
qed simp

lemma services_ok_rebuild [simp]: "services_ok S (rebuildEventToRequestPrefixMap S r) = services_ok S r"
  "registered (rebuildEventToRequestPrefixMap S r) = registered r" "sr_heap (rebuildEventToRequestPrefixMap S r) = sr_heap r"
  "sr_fresh (rebuildEventToRequestPrefixMap S r) = sr_fresh r" "sr_byId (rebuildEventToRequestPrefixMap S r) = sr_byId r"
  by (simp_all add: rebuildEventToRequestPrefixMap_def registered_def)

lemma services_ok_log [simp]: "services_ok S (log_svc ev r) = services_ok S r" "registered (log_svc ev r) = registered r"
  "sr_heap (log_svc ev r) = sr_heap r" "sr_fresh (log_svc ev r) = sr_fresh r" "sr_byId (log_svc ev r) = sr_byId r"
  by (simp_all add: log_svc_def registered_def)

lemma doUnregisterService_ok:
  assumes ok: "services_ok S r" and p: "p \<in> registered r"
  shows "services_ok S (doUnregisterService S p fire r)" and "registered (doUnregisterService S p fire r) = registered r - {p}"
    and "sr_heap (doUnregisterService S p fire r) = sr_heap r" and "sr_fresh (doUnregisterService S p fire r) = sr_fresh r"
    and "sr_byId (doUnregisterService S p fire r) = AList.delete (sv_serviceGuid (sr_heap r p)) (sr_byId r)"
proof -
  let ?reg = "sr_heap r p"
  define r2 where "r2 = decLocalSvc S ?reg (r\<lparr>sr_byId := AList.delete (sv_serviceGuid ?reg) (sr_byId r), sr_byType := erase_type (sr_heap r) p (sr_byType r),
                 sr_byTopic := fold (remove_channel p) (sv_requestChannels ?reg) (sr_byTopic r)\<rparr>)"
  note o = services_okD [OF ok]
  have inj: "q = p" if "q \<in> registered r" "sv_serviceGuid (sr_heap r q) = sv_serviceGuid ?reg" for q
    using registered_inj [OF ok that(1) p] that(2) by simp
  have id: "sr_byId r2 = AList.delete (sv_serviceGuid ?reg) (sr_byId r)" by (simp add: r2_def decLocalSvc_def)
  have in_id: "(g, q) \<in> set (sr_byId r2) \<longleftrightarrow> (g, q) \<in> set (sr_byId r) \<and> q \<noteq> p" for g q
    using inj [of q] o(2) [of g q] by (auto simp: id AList.delete_eq)
  then have R: "registered r2 = registered r - {p}" by (force simp: registered_def image_iff)
  have "erase_type (sr_heap r) p (sr_byType r) = remove1 (sv_serviceType ?reg, p) (sr_byType r)"
    using o(4) inj by (intro erase_type_remove1) auto
  then have f: "sr_heap r2 = sr_heap r" "sr_fresh r2 = sr_fresh r" "known_zones r2 = known_zones r" "sr_byType r2 = remove1 (sv_serviceType ?reg, p) (sr_byType r)"
      "sr_byTopic r2 = fold (remove_channel p) (sv_requestChannels ?reg) (sr_byTopic r)"
      "sr_localSvcCounter r2 = sr_localSvcCounter r - (if isLocal S ?reg then 1 else 0)"
    by (simp_all add: r2_def decLocalSvc_def known_zones_def)
  have ids: "\<forall>g q. (g, q) \<in> set (sr_byId r2) \<longrightarrow> sv_serviceGuid (sr_heap r2 q) = g \<and> q < sr_fresh r2" unfolding f in_id using o(2) by blast
  have ty: "distinct (sr_byType r2) \<and> set (sr_byType r2) = (\<lambda>p. (sv_serviceType (sr_heap r2 p), p)) ` registered r2" using o(3,4) by (auto simp: R f)
  have to: "topics_ok S (sr_heap r2) (known_zones r2) (sr_byTopic r2)" unfolding f using o(5) by (intro remove_channels)
  have ix: "topic_index (sr_byTopic r2) t = {q \<in> registered r2. t \<in> set (sv_requestChannels (sr_heap r2 q))}" for t
    unfolding f remove_channels o(6) R by auto
  have "insert p (registered r2) = registered r" "p \<notin> registered r2" using R p by auto
  then have co: "sr_localSvcCounter r2 = of_nat (card {q \<in> registered r2. isLocal S (sr_heap r2 q)})"
    using o(7) card_local_insert [of p r2 S "sr_heap r"] unfolding f by simp
  have ok2: "services_ok S r2" unfolding services_ok_def using o(1) ids ty to ix co by (simp add: id distinct_delete)
  have d: "doUnregisterService S p fire r =
      (let r3 = (if (\<not> ss_multiTenant S \<or> isOps S ?reg) \<and> map_of (sv_metaData ?reg) ''eventToRequestPrefix'' \<noteq> None
                then rebuildEventToRequestPrefixMap S r2 else r2)
      in if fire then sendServiceUnregistrationEvent S ?reg r3 else r3)" unfolding doUnregisterService_def Let_def r2_def by (rule refl)
  show "services_ok S (doUnregisterService S p fire r)" "registered (doUnregisterService S p fire r) = registered r - {p}"
     "sr_heap (doUnregisterService S p fire r) = sr_heap r" "sr_fresh (doUnregisterService S p fire r) = sr_fresh r"
     "sr_byId (doUnregisterService S p fire r) = AList.delete (sv_serviceGuid (sr_heap r p)) (sr_byId r)"
    using ok2 R f id unfolding d by (simp_all add: Let_def sendServiceUnregistrationEvent_def)
qed

lemma tenant_count_same [simp]: "services_ok S (tenant_count S reg n r) = services_ok S r" "registered (tenant_count S reg n r) = registered r"
  "sr_heap (tenant_count S reg n r) = sr_heap r" "sr_fresh (tenant_count S reg n r) = sr_fresh r" "sr_byId (tenant_count S reg n r) = sr_byId r"
  by (simp_all add: tenant_count_def)

lemma registration_event_same [simp]: "services_ok S (sendServiceRegistrationEvent S reg r) = services_ok S r"
  "registered (sendServiceRegistrationEvent S reg r) = registered r" "sr_byId (sendServiceRegistrationEvent S reg r) = sr_byId r"
  "sr_heap (sendServiceRegistrationEvent S reg r) = sr_heap r"
  by (simp_all add: sendServiceRegistrationEvent_def)

text \<open>What an operation that removes registrations leaves as it was.\<close>

definition only_removes :: "svc_settings \<Rightarrow> service_registry \<Rightarrow> (nat \<Rightarrow> bool) \<Rightarrow> service_registry \<Rightarrow> bool" where
  "only_removes S r P r' \<longleftrightarrow> services_ok S r' \<and> sr_heap r' = sr_heap r \<and> sr_fresh r' = sr_fresh r \<and> registered r' = {p \<in> registered r. \<not> P p}"

lemma only_removes_refl: "services_ok S r \<Longrightarrow> (\<And>p. p \<in> registered r \<Longrightarrow> \<not> P p) \<Longrightarrow> only_removes S r P r"
  by (auto simp: only_removes_def)

lemma look_guid: "services_ok S r \<Longrightarrow> map_of (sr_byId r) guid = Some p \<longleftrightarrow> p \<in> registered r \<and> sv_serviceGuid (sr_heap r p) = guid"
  using services_okD(2) [of S r guid p] registered_at [of S r p] by (auto dest: map_of_SomeD)

lemma do_removes:
  assumes "services_ok S r" and "p \<in> registered r"
  shows "only_removes S r (\<lambda>q. sv_serviceGuid (sr_heap r q) = sv_serviceGuid (sr_heap r p)) (doUnregisterService S p fire r)"
  using doUnregisterService_ok [OF assms, of fire] registered_inj [OF assms(1) _ assms(2)] by (auto simp: only_removes_def)

lemma unregister_removes:
  assumes "services_ok S r"
  shows "only_removes S r (\<lambda>q. sv_serviceGuid (sr_heap r q) = guid) (unregisterService S guid fire r)"
proof (cases "map_of (sr_byId r) guid")
  case None
  then have "\<not> (q \<in> registered r \<and> sv_serviceGuid (sr_heap r q) = guid)" for q using look_guid [OF assms, of guid q] by simp
  then show ?thesis using only_removes_refl [OF assms] None by (auto simp: unregisterService_def)
next
  case (Some p)
  then have p: "p \<in> registered r" "sv_serviceGuid (sr_heap r p) = guid" using look_guid [OF assms, of guid p] by auto
  then show ?thesis using do_removes [OF assms p(1), of fire] Some by (simp add: unregisterService_def only_removes_def)
qed

lemma unregister_client_ok:
  assumes "services_ok S r"
  shows "services_ok S (unregisterService_client S guid client tenant fire r)"
proof -
  have "p \<in> registered r" if "map_of (sr_byId r) guid = Some p" for p using look_guid [OF assms, of guid p] that by simp
  then show ?thesis using assms by (auto simp: unregisterService_client_def doUnregisterService_ok split: option.split)
qed

text \<open>The check of the times to live removes the expired services and no others.\<close>

lemma check_removes:
  assumes "services_ok S r"
  shows "only_removes S r (\<lambda>p. sv_serviceGuid (sr_heap r p) \<in> set gs \<and> service_isExpired S now (sr_heap r p))
    (fold (\<lambda>guid r. case map_of (sr_byId r) guid of None \<Rightarrow> r
        | Some p \<Rightarrow> if service_isExpired S now (sr_heap r p) then unregisterService S guid True r else r) gs r)"
  using assms
proof (induction gs arbitrary: r)
  case Nil
  then show ?case by (simp add: only_removes_refl)
next
  case (Cons g gs)
  define r1 where "r1 = (case map_of (sr_byId r) g of None \<Rightarrow> r
        | Some p \<Rightarrow> if service_isExpired S now (sr_heap r p) then unregisterService S g True r else r)"
  have 1: "only_removes S r (\<lambda>p. sv_serviceGuid (sr_heap r p) = g \<and> service_isExpired S now (sr_heap r p)) r1"
  proof (cases "map_of (sr_byId r) g")
    case None
    then have "\<not> (q \<in> registered r \<and> sv_serviceGuid (sr_heap r q) = g)" for q using look_guid [OF Cons.prems, of g q] by simp
    then show ?thesis using only_removes_refl [OF Cons.prems] None by (auto simp: r1_def)
  next
    case (Some p)
    then have p: "p \<in> registered r" "sv_serviceGuid (sr_heap r p) = g" using look_guid [OF Cons.prems, of g p] by auto
    have "q = p" if "q \<in> registered r" "sv_serviceGuid (sr_heap r q) = g" for q using registered_inj [OF Cons.prems that(1) p(1)] that p by simp
    then have e: "q \<in> registered r \<and> sv_serviceGuid (sr_heap r q) = g \<longleftrightarrow> q = p" for q using p by blast
    show ?thesis
    proof (cases "service_isExpired S now (sr_heap r p)")
      case True
      then have r1: "r1 = unregisterService S g True r" using Some by (simp add: r1_def)
      have "{q \<in> registered r. \<not> (sv_serviceGuid (sr_heap r q) = g \<and> service_isExpired S now (sr_heap r q))} = {q \<in> registered r. sv_serviceGuid (sr_heap r q) \<noteq> g}"
        by (intro Collect_cong) (metis e True)
      then show ?thesis using unregister_removes [OF Cons.prems, of g True] unfolding r1 only_removes_def by simp
    next
      case False
      then have r1: "r1 = r" using Some by (simp add: r1_def)
      have "\<not> (sv_serviceGuid (sr_heap r q) = g \<and> service_isExpired S now (sr_heap r q))" if "q \<in> registered r" for q
        using e [of q] False that by metis
      then show ?thesis unfolding r1 by (rule only_removes_refl [OF Cons.prems])
    qed
  qed
  then have "services_ok S r1" and same: "sr_heap r1 = sr_heap r" "sr_fresh r1 = sr_fresh r"
      "registered r1 = {p \<in> registered r. \<not> (sv_serviceGuid (sr_heap r p) = g \<and> service_isExpired S now (sr_heap r p))}" by (simp_all add: only_removes_def)
  note ih = Cons.IH [OF this(1), unfolded only_removes_def same]
  show ?case unfolding only_removes_def fold_simps r1_def [symmetric] using ih by auto
qed

lemma check_ttls_removes:
  assumes "services_ok S r"
  shows "only_removes S r (\<lambda>p. service_isExpired S now (sr_heap r p)) (checkServiceTtls S now r)"
proof -
  have "sv_serviceGuid (sr_heap r p) \<in> set (map fst (sr_byId r))" if "p \<in> registered r" for p
    using registered_at [OF assms that] by (force dest: map_of_SomeD)
  then show ?thesis using check_removes [OF assms, of "map fst (sr_byId r)" now] by (auto simp: checkServiceTtls_def only_removes_def)
qed

section \<open>The registry is a map from ids to registrations\<close>

definition service_at :: "service_registry \<Rightarrow> string \<rightharpoonup> service_registration" where
  "service_at r guid = map_option (sr_heap r) (map_of (sr_byId r) guid)"

lemma service_at_None: "service_at r guid = None \<longleftrightarrow> map_of (sr_byId r) guid = None"
  by (simp add: service_at_def)

lemma service_at_Some: "services_ok S r \<Longrightarrow> service_at r guid = Some reg \<longleftrightarrow> (\<exists>p \<in> registered r. sr_heap r p = reg \<and> sv_serviceGuid reg = guid)"
  unfolding service_at_def map_option_eq_Some by (auto simp: look_guid)

lemma service_at_cong: "sr_heap r' = sr_heap r \<Longrightarrow> sr_byId r' = sr_byId r \<Longrightarrow> service_at r' = service_at r"
  by (rule ext) (simp add: service_at_def)

lemma service_at_other [simp]: "service_at (r\<lparr>sr_eventToRequest := m\<rparr>) = service_at r" "service_at (r\<lparr>sr_ttlCheckTime := c\<rparr>) = service_at r"
  "service_at (tenant_count S reg n r) = service_at r" "service_at (sendServiceRegistrationEvent S reg r) = service_at r"
  by (rule service_at_cong; simp)+

text \<open>An operation that only removes registrations removes those of the map.\<close>

lemma removes_at:
  assumes "services_ok S r" and "only_removes S r P r'"
    and "\<And>p. p \<in> registered r \<Longrightarrow> P p \<longleftrightarrow> Q (sr_heap r p)"
  shows "service_at r' = (\<lambda>g. case service_at r g of None \<Rightarrow> None | Some reg \<Rightarrow> if Q reg then None else Some reg)"
proof
  fix g
  have r': "services_ok S r'" "sr_heap r' = sr_heap r" "registered r' = {p \<in> registered r. \<not> P p}" using assms(2) by (simp_all add: only_removes_def)
  have i: "service_at r' g = Some reg \<longleftrightarrow> service_at r g = Some reg \<and> \<not> Q reg" for reg
    unfolding service_at_Some [OF assms(1)] service_at_Some [OF r'(1)] r'(2,3) using assms(3) by blast
  show "service_at r' g = (case service_at r g of None \<Rightarrow> None | Some reg \<Rightarrow> if Q reg then None else Some reg)"
  proof (cases "service_at r' g")
    case None
    then show ?thesis using i [of "the (service_at r g)"] by (cases "service_at r g") simp_all
  next
    case (Some reg)
    then show ?thesis using i [of reg] by simp
  qed
qed

lemma unregister_at:
  assumes "services_ok S r"
  shows "service_at (unregisterService S guid fire r) = (service_at r)(guid := None)"
proof -
  have g: "sv_serviceGuid reg = g" if "service_at r g = Some reg" for g reg using that service_at_Some [OF assms] by auto
  show ?thesis unfolding removes_at [OF assms unregister_removes [OF assms], where Q = "\<lambda>reg. sv_serviceGuid reg = guid", OF refl]
    by (rule ext) (auto simp: g split: option.split dest: g)
qed

text \<open>What a registration with the id of another one leaves: the old one if it is to live longer, on another broker; the
  old one with the new times if nothing else differs; otherwise the new one.\<close>

definition merged :: "int \<Rightarrow> service_registration \<Rightarrow> service_registration \<Rightarrow> service_registration" where
  "merged now e reg =
     (if sv_brokerGuid e \<noteq> sv_brokerGuid reg \<and> sv_ttlMins reg < getAdjustedTtlMins now e then e
      else if same_registration e reg then e\<lparr>sv_ttlMins := sv_ttlMins reg, sv_metaData := sv_metaData reg, sv_regTime := sv_regTime reg\<rparr>
      else reg)"

definition register_spec ::
  "int \<Rightarrow> service_registration \<Rightarrow> (string \<rightharpoonup> service_registration) \<Rightarrow> svc_error + (string \<rightharpoonup> service_registration)" where
  "register_spec now reg m =
     (if sv_serviceGuid reg = '''' then Inl Empty_service_guid
      else case m (sv_serviceGuid reg) of None \<Rightarrow> Inr (m(sv_serviceGuid reg \<mapsto> reg))
        | Some e \<Rightarrow>
            if sv_clientGuid reg = sv_clientGuid e \<and> sv_clientTenantGuid reg = sv_clientTenantGuid e
            then Inr (m(sv_serviceGuid reg \<mapsto> merged now e reg)) else Inl Guid_mismatch)"

lemma addService_at:
  "service_at (addService S p r) = (service_at r)(sv_serviceGuid (sr_heap r p) \<mapsto> sr_heap r p)"
  by (rule ext) (simp add: service_at_def addService_def incLocalSvc_def Let_def AList_look)

lemma updateService_ok:
  assumes ok: "services_ok S r" and p: "p < sr_fresh r" and old: "map_of (sr_byId r) (sv_serviceGuid (sr_heap r p)) = Some old"
  shows "services_ok S (updateService S now old p r)" (is ?A)
    and "service_at (updateService S now old p r) = (service_at r)(sv_serviceGuid (sr_heap r p) \<mapsto> merged now (sr_heap r old) (sr_heap r p))" (is ?B)
proof -
  let ?e = "sr_heap r old" and ?reg = "sr_heap r p"
  have o: "old \<in> registered r" "sv_serviceGuid ?e = sv_serviceGuid ?reg" using old look_guid [OF ok] by auto
  have at: "service_at r (sv_serviceGuid ?reg) = Some ?e" using old by (simp add: service_at_def)
  consider (older) "sv_brokerGuid ?e \<noteq> sv_brokerGuid ?reg \<and> sv_ttlMins ?reg < getAdjustedTtlMins now ?e"
    | (same) "\<not> (sv_brokerGuid ?e \<noteq> sv_brokerGuid ?reg \<and> sv_ttlMins ?reg < getAdjustedTtlMins now ?e)" "same_registration ?e ?reg"
    | (changed) "\<not> (sv_brokerGuid ?e \<noteq> sv_brokerGuid ?reg \<and> sv_ttlMins ?reg < getAdjustedTtlMins now ?e)" "\<not> same_registration ?e ?reg" by blast
  then have "?A \<and> ?B"
  proof cases
    case older
    then have "updateService S now old p r = r" "merged now ?e ?reg = ?e" by (simp_all add: updateService_def merged_def)
    then show ?thesis using ok at by (simp add: map_upd_triv)
  next
    case same
    let ?e' = "?e\<lparr>sv_ttlMins := sv_ttlMins ?reg, sv_metaData := sv_metaData ?reg, sv_regTime := sv_regTime ?reg\<rparr>"
    have u: "updateService S now old p r = r\<lparr>sr_heap := (sr_heap r)(old := ?e')\<rparr>" "merged now ?e ?reg = ?e'"
      using same unfolding updateService_def merged_def Let_def by (simp_all only: if_False if_True)
    have "services_ok S (r\<lparr>sr_heap := (sr_heap r)(old := ?e'), sr_fresh := sr_fresh r\<rparr>)" by (rule services_ok_heap [OF ok]) simp_all
    moreover have "service_at (r\<lparr>sr_heap := (sr_heap r)(old := ?e')\<rparr>) g = ((service_at r)(sv_serviceGuid ?reg \<mapsto> ?e')) g" for g
    proof (cases "g = sv_serviceGuid ?reg")
      case True
      then show ?thesis using old by (simp add: service_at_def)
    next
      case False
      then have "map_of (sr_byId r) g \<noteq> Some old" using look_guid [OF ok, of g old] o(2) by metis
      then show ?thesis using False by (cases "map_of (sr_byId r) g") (simp_all add: service_at_def)
    qed
    ultimately show ?thesis unfolding u by (simp add: fun_eq_iff)
  next
    case changed
    let ?r = "unregisterService S (sv_serviceGuid ?reg) False r"
    have u: "updateService S now old p r = addService S p ?r" "merged now ?e ?reg = ?reg"
      using changed unfolding updateService_def merged_def Let_def by (simp_all only: if_False if_True)
    have r: "services_ok S ?r" "sr_heap ?r = sr_heap r" "sr_fresh ?r = sr_fresh r" using unregister_removes [OF ok] by (simp_all add: only_removes_def)
    have "map_of (sr_byId ?r) (sv_serviceGuid (sr_heap ?r p)) = None" using unregister_at [OF ok] by (simp add: r(2) service_at_None [symmetric])
    then have "services_ok S (addService S p ?r)" using p r(3) by (intro addService_ok(1) [OF r(1)]) simp_all
    then show ?thesis unfolding u addService_at r(2) unregister_at [OF ok] by simp
  qed
  then show ?A ?B by blast+
qed

text \<open>A new object at an address that is not in use changes nothing.\<close>

lemma alloc_ok:
  assumes ok: "services_ok S r"
  shows "services_ok S (r\<lparr>sr_heap := (sr_heap r)(sr_fresh r := reg), sr_fresh := sr_fresh r + 1\<rparr>)"
    and "service_at (r\<lparr>sr_heap := (sr_heap r)(sr_fresh r := reg), sr_fresh := sr_fresh r + 1\<rparr>) = service_at r"
proof -
  have other: "q \<noteq> sr_fresh r" if "q \<in> registered r" for q using registered_below [OF ok that] by simp
  then show "services_ok S (r\<lparr>sr_heap := (sr_heap r)(sr_fresh r := reg), sr_fresh := sr_fresh r + 1\<rparr>)" by (intro services_ok_heap [OF ok]) simp_all
  have "q \<noteq> sr_fresh r" if "map_of (sr_byId r) g = Some q" for g q using look_guid [OF ok, of g q] that other [of q] by simp
  then have "map_option ((sr_heap r)(sr_fresh r := reg)) (map_of (sr_byId r) g) = map_option (sr_heap r) (map_of (sr_byId r) g)" for g
    by (cases "map_of (sr_byId r) g") simp_all
  then show "service_at (r\<lparr>sr_heap := (sr_heap r)(sr_fresh r := reg), sr_fresh := sr_fresh r + 1\<rparr>) = service_at r"
    by (intro ext) (simp add: service_at_def)
qed

lemma unregisterService_time [simp]: "sr_ttlCheckTime (unregisterService S guid fire r) = sr_ttlCheckTime r"
  by (simp add: unregisterService_def tenant_count_def doUnregisterService_def decLocalSvc_def
        sendServiceUnregistrationEvent_def log_svc_def rebuildEventToRequestPrefixMap_def Let_def split: option.split)

lemma addService_time: "sr_ttlCheckTime (addService S p r) = sr_ttlCheckTime r"
  by (simp add: addService_def incLocalSvc_def Let_def)

lemma updateService_time: "sr_ttlCheckTime (updateService S now old p r) = sr_ttlCheckTime r"
  by (simp add: updateService_def addService_time Let_def)

lemma registerService_refines:
  assumes ok: "services_ok S r"
  shows "map_sum id service_at (registerService S now reg r) = register_spec now reg (service_at r)"
    and "registerService S now reg r = Inr r' \<Longrightarrow> services_ok S r' \<and> sr_ttlCheckTime r' = sr_ttlCheckTime r"
proof -
  let ?p = "sr_fresh r" and ?g = "sv_serviceGuid reg"
  define r1 where "r1 = r\<lparr>sr_heap := (sr_heap r)(?p := reg), sr_fresh := ?p + 1\<rparr>"
  have ok1: "services_ok S r1" and at: "service_at r1 = service_at r" unfolding r1_def by (rule alloc_ok [OF ok])+
  have p: "sr_heap r1 ?p = reg" "?p < sr_fresh r1" "sr_byId r1 = sr_byId r" "sr_ttlCheckTime r1 = sr_ttlCheckTime r" by (simp_all add: r1_def)
  define core where "core = (case map_of (sr_byId r) ?g of
             None \<Rightarrow> Inr (addService S ?p r1)
           | Some old \<Rightarrow>
               if sv_clientGuid reg = sv_clientGuid (sr_heap r1 old) \<and> sv_clientTenantGuid reg = sv_clientTenantGuid (sr_heap r1 old)
               then Inr (updateService S now old ?p r1) else Inl Guid_mismatch)"
  have R: "registerService S now reg r = (if ?g = '''' then Inl Empty_service_guid else case core of Inl err \<Rightarrow> Inl err
        | Inr r1 \<Rightarrow>
            let r2 = (if request_events S reg then r1\<lparr>sr_eventToRequest := addEventToRequestPrefix S reg (sr_eventToRequest r1)\<rparr> else r1)
            in Inr (tenant_count S reg 1 (sendServiceRegistrationEvent S reg r2)))"
    unfolding registerService_def core_def r1_def Let_def by simp
  have c: "map_sum id service_at core = (case service_at r ?g of None \<Rightarrow> Inr ((service_at r)(?g \<mapsto> reg))
        | Some e \<Rightarrow>
            if sv_clientGuid reg = sv_clientGuid e \<and> sv_clientTenantGuid reg = sv_clientTenantGuid e
            then Inr ((service_at r)(?g \<mapsto> merged now e reg)) else Inl Guid_mismatch) \<and>
     (\<forall>r'. core = Inr r' \<longrightarrow> services_ok S r' \<and> sr_ttlCheckTime r' = sr_ttlCheckTime r)"
  proof (cases "map_of (sr_byId r) ?g")
    case None
    then have "services_ok S (addService S ?p r1)" using p by (intro addService_ok(1) [OF ok1]) simp_all
    moreover have "service_at r ?g = None" using None by (simp add: service_at_None)
    ultimately show ?thesis using None p by (simp add: core_def addService_at at addService_time)
  next
    case (Some old)
    then have s: "service_at r ?g = Some (sr_heap r1 old)" by (simp add: at [symmetric] service_at_def p(3))
    have "map_of (sr_byId r1) (sv_serviceGuid (sr_heap r1 ?p)) = Some old" using Some p by simp
    note u = updateService_ok [OF ok1 p(2) this, of now, unfolded p(1) at]
    show ?thesis unfolding core_def s using Some u p(4) by (simp add: updateService_time)
  qed
  show "map_sum id service_at (registerService S now reg r) = register_spec now reg (service_at r)"
    unfolding R register_spec_def conjunct1 [OF c, symmetric] by (cases core) (simp_all add: Let_def split: option.split)
  show "services_ok S r' \<and> sr_ttlCheckTime r' = sr_ttlCheckTime r" if "registerService S now reg r = Inr r'"
    using that conjunct2 [OF c] unfolding R
    by (auto simp: Let_def tenant_count_def sendServiceRegistrationEvent_def log_svc_def split: if_splits sum.splits)
qed

section \<open>The service for the next request\<close>

definition topic_zones :: "svc_settings \<Rightarrow> svc_heap \<Rightarrow> node_zones \<Rightarrow> topic_services \<Rightarrow> zone_services list" where
  "topic_zones S heap Z ts = (case ts_zones ts of Some zs \<Rightarrow> zs | None \<Rightarrow> calculateServiceZones S heap Z (ts_services ts))"

lemma topic_zones_ok:
  assumes "topic_ok S heap known ts" and "known = None \<or> known = Some Z"
  shows "turns_ok (topic_zones S heap Z ts)" and "\<exists>Z'. (known = None \<or> known = Some Z') \<and> map zs_services (topic_zones S heap Z ts) = map zs_services (calculateServiceZones S heap Z' (ts_services ts))"
proof -
  have "distinct (ts_services ts)" using assms(1) by (simp add: topic_ok_def)
  then have "turns_ok (calculateServiceZones S heap Z (ts_services ts))" unfolding turns_ok_def by (metis distinct_calculated)
  then show "turns_ok (topic_zones S heap Z ts)" using assms(1) by (simp add: topic_zones_def topic_ok_def split: option.split)
  show "\<exists>Z'. (known = None \<or> known = Some Z') \<and> map zs_services (topic_zones S heap Z ts) = map zs_services (calculateServiceZones S heap Z' (ts_services ts))"
    using assms by (cases "ts_zones ts") (auto simp: topic_zones_def topic_ok_def)
qed

lemma topic_next_result:
  assumes nx: "topic_getNextService S E heap Z ts R = (res, ts', R')" and R: "registry_ok R" and ok: "topic_ok S heap known ts" and k: "known = None \<or> known = Some Z"
  defines "F \<equiv> nearest (eligible_now S E heap R) (topic_zones S heap Z ts)"
  shows "same_fabric R R' \<and> topic_ok S heap known ts' \<and> ts_services ts' = ts_services ts \<and> res = (if F = [] then None else Some (hd F)) \<and>
    nearest (eligible_now S E heap R) (topic_zones S heap Z ts') = rotate1 F"
proof -
  obtain zs where l: "zones_loop S E heap (topic_zones S heap Z ts) R = (res, zs, R')" and ts': "ts' = ts\<lparr>ts_zones := Some zs\<rparr>"
    using nx by (auto simp: topic_getNextService_def topic_zones_def Let_def split: prod.splits)
  note L = zones_loop_result [OF l R topic_zones_ok(1) [OF ok k], folded F_def]
  moreover have "topic_ok S heap known ts'" using ok L topic_zones_ok(2) [OF ok k] by (simp add: topic_ok_def ts')
  moreover have "topic_zones S heap Z ts' = zs" by (simp add: topic_zones_def ts')
  ultimately show ?thesis by (simp add: ts')
qed

text \<open>Which services may get a request, without the calls and caches of the code: the broker of the service is this
  one, or both are known and the connections between brokers lead from one to the other; its time to live and the
  grace period, in minutes and multiplied in 32 bits, are not over; it may subscribe to the topic, by its client if that is managed and
  by its certificates otherwise; and with several tenants it is one of the tenant of the request, or one of the
  operator that is meant for this tenant or for all.\<close>

definition may_serve :: "svc_settings \<Rightarrow> svc_env \<Rightarrow> registry \<Rightarrow> service_registration \<Rightarrow> bool" where
  "may_serve S E R reg \<longleftrightarrow>
     (sv_brokerGuid reg = st_guid S \<or>
      broker_exists (st_guid S) R \<and> broker_exists (sv_brokerGuid reg) R \<and> sv_brokerGuid reg \<in> behind (reg_brokers R) anyone (st_guid S)) \<and>
     se_now E \<le> sv_regTime reg + (uint (sv_ttlMins reg) + int (st_ttlGracePeriodMins S)) * 60 mod 2 ^ 32 \<and>
     (sv_managedClient reg \<longrightarrow> isAuthorizedToSubscribe_key (se_auth E) (sv_clientGuid reg) (se_topic E)) \<and>
     (\<not> sv_managedClient reg \<longrightarrow> isAuthorizedToSubscribe_certs (se_auth E) (sv_certificates reg) (se_topic E)) \<and>
     (ss_multiTenant S \<longrightarrow> sv_clientTenantGuid reg = se_tenant E \<and> se_tenant E \<noteq> ss_tenantGuid S \<or>
        sv_clientTenantGuid reg = ss_tenantGuid S \<and> (sv_targetTenantGuids reg = [] \<or> se_tenant E \<in> set (sv_targetTenantGuids reg)))"

lemma not_expired_eq: "\<not> service_isExpired S now reg \<longleftrightarrow> now \<le> sv_regTime reg + (uint (sv_ttlMins reg) + int (st_ttlGracePeriodMins S)) * 60 mod 2 ^ 32"
proof -
  have "(sv_ttlMins reg + of_nat (st_ttlGracePeriodMins S)) * 60 = word_of_int ((uint (sv_ttlMins reg) + int (st_ttlGracePeriodMins S)) * 60)" by simp
  then have "uint ((sv_ttlMins reg + of_nat (st_ttlGracePeriodMins S)) * 60) = (uint (sv_ttlMins reg) + int (st_ttlGracePeriodMins S)) * 60 mod 2 ^ 32"
    by (simp only: uint_word_of_int len_num0 len_num1 len_bit0 len_bit1) simp
  then show ?thesis unfolding service_isExpired_def by linarith
qed

lemma reachable_eq:
  assumes "registry_ok R" and "from \<noteq> to"
  shows "fst (getNextBroker from to R) \<noteq> '''' \<longleftrightarrow> broker_exists from R \<and> broker_exists to R \<and> to \<in> behind (reg_brokers R) anyone from"
  by (rule next_broker_cases [OF assms(1), of "from" to])
    (use assms(2) valid_hop_behind [of "reg_brokers R" "from" to] in auto)

lemma eligible_may_serve: "registry_ok R \<Longrightarrow> fst (eligible S E reg R) = may_serve S E R reg"
  using reachable_eq [of R "st_guid S" "sv_brokerGuid reg"]
  by (auto simp: eligible_def may_serve_def not_expired_eq isLocal_def isServiceAvailable_def isOps_def split_beta)

text \<open>The services of the topic that may get a request, and the nearest of them in the order of their turns.\<close>

definition svc_candidates :: "svc_settings \<Rightarrow> svc_env \<Rightarrow> registry \<Rightarrow> service_registry \<Rightarrow> nat set" where
  "svc_candidates S E R r = {p \<in> registered r. se_topic E \<in> set (sv_requestChannels (sr_heap r p)) \<and> may_serve S E R (sr_heap r p)}"

definition turn_order :: "svc_settings \<Rightarrow> svc_env \<Rightarrow> registry \<Rightarrow> service_registry \<Rightarrow> nat list" where
  "turn_order S E R r = (case map_of (sr_byTopic r) (se_topic E) of None \<Rightarrow> []
     | Some ts \<Rightarrow> nearest (eligible_now S E (sr_heap r) R) (topic_zones S (sr_heap r) (sr_zones r) ts))"

lemma distinct_map_services: "map zs_services zs' = map zs_services zs \<Longrightarrow> (\<And>z. z \<in> set zs \<Longrightarrow> distinct (zs_services z)) \<Longrightarrow> distinct (nearest ok zs')"
proof (rule distinct_nearest)
  fix z
  assume "map zs_services zs' = map zs_services zs" and d: "\<And>z. z \<in> set zs \<Longrightarrow> distinct (zs_services z)" and "z \<in> set zs'"
  then have "zs_services z \<in> zs_services ` set zs" by (metis image_eqI list.set_map)
  then show "distinct (zs_services z)" using d by auto
qed

lemma turn_order_set:
  assumes "services_ok S r" and "registry_ok R"
  shows "\<exists>Z. (known_zones r = None \<or> known_zones r = Some Z) \<and> set (turn_order S E R r) = closest (svc_rank S (sr_heap r) Z) (svc_candidates S E R r)"
    and "distinct (turn_order S E R r)"
proof -
  let ?rank = "svc_rank S (sr_heap r)" and ?C = "svc_candidates S E R r" and ?ok = "eligible_now S E (sr_heap r) R"
  have k: "known_zones r = None \<or> known_zones r = Some (sr_zones r)" by (simp add: known_zones_def)
  have "(\<exists>Z. (known_zones r = None \<or> known_zones r = Some Z) \<and> set (turn_order S E R r) = closest (?rank Z) ?C) \<and> distinct (turn_order S E R r)"
  proof (cases "map_of (sr_byTopic r) (se_topic E)")
    case None
    then have "?C = {}" using services_okD(6) [OF assms(1), of "se_topic E"] by (auto simp: topic_index_def svc_candidates_def)
    then show ?thesis using None k by (auto simp: turn_order_def closest_def)
  next
    case (Some ts)
    let ?zs = "topic_zones S (sr_heap r) (sr_zones r) ts"
    have t: "topic_ok S (sr_heap r) (known_zones r) ts" by (rule topics_ok_at [OF services_okD(5) [OF assms(1)] Some])
    obtain Z where Z: "known_zones r = None \<or> known_zones r = Some Z"
        "map zs_services ?zs = map zs_services (calculateServiceZones S (sr_heap r) Z (ts_services ts))"
      using topic_zones_ok(2) [OF t k] by blast
    have "{p \<in> set (ts_services ts). ?ok p} = ?C"
      using services_okD(6) [OF assms(1), of "se_topic E"] Some eligible_may_serve [OF assms(2)]
      by (auto simp: topic_index_def svc_candidates_def eligible_now_def)
    then have "set (turn_order S E R r) = closest (?rank Z) ?C"
      using nearest_turns [OF Z(2), of ?ok] nearest_calculated [of ?ok S "sr_heap r" Z "ts_services ts"] Some by (simp add: turn_order_def)
    moreover have "distinct (ts_services ts)" using t by (simp add: topic_ok_def)
    then have "distinct (nearest ?ok ?zs)" using distinct_map_services [OF Z(2)] distinct_calculated by blast
    ultimately show ?thesis using Z(1) Some by (auto simp: turn_order_def)
  qed
  then show "\<exists>Z. (known_zones r = None \<or> known_zones r = Some Z) \<and> set (turn_order S E R r) = closest (?rank Z) ?C" and "distinct (turn_order S E R r)" by blast+
qed

lemma getNextService_result:
  assumes nx: "getNextService S E R r = (res, R', r')" and R: "registry_ok R" and ok: "services_ok S r"
  defines "F \<equiv> turn_order S E R r"
  shows "same_fabric R R' \<and> services_ok S r' \<and> sr_heap r' = sr_heap r \<and> sr_byId r' = sr_byId r \<and> known_zones r' = known_zones r \<and> sr_ttlCheckTime r' = sr_ttlCheckTime r \<and>
    sr_zones r' = sr_zones r \<and> res = (if F = [] then None else Some (hd F)) \<and> turn_order S E R' r' = rotate1 F"
proof (cases "map_of (sr_byTopic r) (se_topic E)")
  case None
  then show ?thesis using nx R ok by (auto simp: getNextService_def F_def turn_order_def same_fabric_def)
next
  case (Some ts)
  then obtain ts' where t: "topic_getNextService S E (sr_heap r) (sr_zones r) ts R = (res, ts', R')"
      and r': "r' = r\<lparr>sr_byTopic := AList.update (se_topic E) ts' (sr_byTopic r)\<rparr>"
    using nx by (auto simp: getNextService_def split: prod.splits)
  have k: "known_zones r = None \<or> known_zones r = Some (sr_zones r)" by (simp add: known_zones_def)
  have tok: "topic_ok S (sr_heap r) (known_zones r) ts" by (rule topics_ok_at [OF services_okD(5) [OF ok] Some])
  note T = topic_next_result [OF t R tok k]
  have kz: "known_zones r' = known_zones r" and reg: "registered r' = registered r" by (simp_all add: known_zones_def registered_def r')
  have "topic_index (sr_byTopic r') g = topic_index (sr_byTopic r) g" for g using T Some by (simp add: topic_index_def r' AList_look)
  moreover have "topics_ok S (sr_heap r) (known_zones r) (sr_byTopic r')" using T services_okD(5) [OF ok] by (simp add: r' topics_ok_update)
  ultimately have "services_ok S r'" using ok unfolding services_ok_def kz reg by (simp add: r')
  moreover have "turn_order S E R' r' = rotate1 F"
    using T Some eligible_now_same [of R R'] by (simp add: turn_order_def F_def r' AList_look)
  moreover have "F = nearest (eligible_now S E (sr_heap r) R) (topic_zones S (sr_heap r) (sr_zones r) ts)" using Some by (simp add: F_def turn_order_def)
  ultimately show ?thesis using T kz by (simp add: r')
qed

section \<open>Any sequence of operations\<close>

lemma config_ok:
  assumes "services_ok S r"
  shows "services_ok S (onConfigurationUpdated Z r)"
proof -
  have "topics_ok S (sr_heap r) None (sr_byTopic r)" using services_okD(5) [OF assms] unfolding topics_ok_def topic_ok_def by blast
  then show ?thesis using assms by (simp add: services_ok_def onConfigurationUpdated_def known_zones_def registered_def)
qed

lemma map_of_clear: "map_of (map (\<lambda>(t, ts). (t, ts\<lparr>ts_zones := None\<rparr>)) m) t = map_option (\<lambda>ts. ts\<lparr>ts_zones := None\<rparr>) (map_of m t)"
  by (induction m) auto

lemma clear_zones_ok:
  assumes "services_ok S r"
  shows "services_ok S (clearServiceZones (r\<lparr>sr_configChanged := b\<rparr>))"
proof -
  let ?m = "map (\<lambda>(t, ts). (t, ts\<lparr>ts_zones := None\<rparr>)) (sr_byTopic r)"
  note t = services_okD(5) [OF assms, unfolded topics_ok_def topic_ok_def]
  have "map fst ?m = map fst (sr_byTopic r)" by auto
  moreover have "topic_ok S (sr_heap r) known (ts\<lparr>ts_zones := None\<rparr>)" if "map_of (sr_byTopic r) g = Some ts" for g ts known
    using t that by (simp add: topic_ok_def)
  ultimately have "topics_ok S (sr_heap r) known ?m" for known using t unfolding topics_ok_def map_of_clear map_option_eq_Some by metis
  moreover have "topic_index ?m g = topic_index (sr_byTopic r) g" for g by (simp add: topic_index_def map_of_clear split: option.split)
  ultimately show ?thesis using assms by (simp add: services_ok_def clearServiceZones_def registered_def)
qed

datatype svc_op = Register int service_registration | Unregister string bool | Unregister_client string string string bool
  | Next svc_env registry | Check_ttls int | Configure node_zones | Maintain int int

fun svc_step :: "svc_settings \<Rightarrow> svc_op \<Rightarrow> service_registry \<Rightarrow> service_registry" where
  "svc_step S (Register now reg) r = (case registerService S now reg r of Inl _ \<Rightarrow> r | Inr r' \<Rightarrow> r')"
| "svc_step S (Unregister guid fire) r = unregisterService S guid fire r"
| "svc_step S (Unregister_client guid client tenant fire) r = unregisterService_client S guid client tenant fire r"
| "svc_step S (Next E R) r = snd (snd (getNextService S E R r))"
| "svc_step S (Check_ttls now) r = checkServiceTtls S now r"
| "svc_step S (Configure Z) r = onConfigurationUpdated Z r"
| "svc_step S (Maintain time now) r = service_onCoreMaintenance S time now r"

fun svc_op_ok :: "svc_op \<Rightarrow> bool" where
  "svc_op_ok (Next E R) = registry_ok R"
| "svc_op_ok _ = True"

definition unexpired :: "svc_settings \<Rightarrow> int \<Rightarrow> (string \<rightharpoonup> service_registration) \<Rightarrow> (string \<rightharpoonup> service_registration)" where
  "unexpired S now m = (\<lambda>g. case m g of None \<Rightarrow> None | Some reg \<Rightarrow> if service_isExpired S now reg then None else Some reg)"

text \<open>The operations on the map, with the time of the last check.\<close>

fun spec_step :: "svc_settings \<Rightarrow> svc_op \<Rightarrow> (string \<rightharpoonup> service_registration) \<times> int \<Rightarrow> (string \<rightharpoonup> service_registration) \<times> int" where
  "spec_step S (Register now reg) (m, c) = (case register_spec now reg m of Inl _ \<Rightarrow> m | Inr m' \<Rightarrow> m', c)"
| "spec_step S (Unregister guid fire) (m, c) = (m(guid := None), c)"
| "spec_step S (Unregister_client guid client tenant fire) (m, c) =
     (case m guid of None \<Rightarrow> m
        | Some reg \<Rightarrow> if client = sv_clientGuid reg \<and> tenant = sv_clientTenantGuid reg then m(guid := None) else m, c)"
| "spec_step S (Next E R) (m, c) = (m, c)"
| "spec_step S (Check_ttls now) (m, c) = (unexpired S now m, c)"
| "spec_step S (Configure Z) (m, c) = (m, c)"
| "spec_step S (Maintain time now) (m, c) =
     (if time - c \<ge> int (st_ttlCheckIntervalMins S * 60) then (unexpired S now m, time) else (m, c))"

definition services_abs :: "service_registry \<Rightarrow> (string \<rightharpoonup> service_registration) \<times> int" where
  "services_abs r = (service_at r, sr_ttlCheckTime r)"

lemma check_ttls_at:
  assumes "services_ok S r"
  shows "services_ok S (checkServiceTtls S now r)" and "services_abs (checkServiceTtls S now r) = (unexpired S now (service_at r), sr_ttlCheckTime r)"
proof -
  note c = check_ttls_removes [OF assms, of now]
  then show "services_ok S (checkServiceTtls S now r)" by (simp add: only_removes_def)
  have "sr_ttlCheckTime (fold (\<lambda>guid r. case map_of (sr_byId r) guid of None \<Rightarrow> r
        | Some p \<Rightarrow> if service_isExpired S now (sr_heap r p) then unregisterService S guid True r else r) gs r) = sr_ttlCheckTime r" for gs
    by (induction gs arbitrary: r) (simp_all split: option.split)
  then show "services_abs (checkServiceTtls S now r) = (unexpired S now (service_at r), sr_ttlCheckTime r)"
    using removes_at [OF assms c, of "service_isExpired S now"] by (simp add: services_abs_def unexpired_def checkServiceTtls_def)
qed

lemma unregister_client_at:
  assumes "services_ok S r"
  shows "services_abs (unregisterService_client S guid client tenant fire r) = spec_step S (Unregister_client guid client tenant fire) (services_abs r)"
proof (cases "map_of (sr_byId r) guid")
  case None
  then show ?thesis by (simp add: unregisterService_client_def services_abs_def service_at_def)
next
  case (Some p)
  then have p: "service_at r guid = Some (sr_heap r p)" by (simp add: service_at_def)
  have "unregisterService S guid fire r = tenant_count S (sr_heap r p) (-1) (doUnregisterService S p fire r)" using Some by (simp add: unregisterService_def)
  moreover have "sr_ttlCheckTime (tenant_count S reg n r') = sr_ttlCheckTime r'" for reg n r' by (simp add: tenant_count_def log_svc_def)
  ultimately have "services_abs (doUnregisterService S p fire r) = ((service_at r)(guid := None), sr_ttlCheckTime r)"
    using unregister_at [OF assms, of guid fire] unregisterService_time [of S guid fire r] by (simp add: services_abs_def)
  then show ?thesis using Some p by (simp add: unregisterService_client_def services_abs_def)
qed

lemma maintenance_at:
  assumes "services_ok S r"
  shows "services_ok S (service_onCoreMaintenance S time now r)" and "services_abs (service_onCoreMaintenance S time now r) = spec_step S (Maintain time now) (services_abs r)"
proof -
  define r1 where "r1 = (if time - sr_ttlCheckTime r \<ge> int (st_ttlCheckIntervalMins S * 60) then checkServiceTtls S now (r\<lparr>sr_ttlCheckTime := time\<rparr>) else r)"
  have m: "service_onCoreMaintenance S time now r = (if sr_configChanged r1 then clearServiceZones (r1\<lparr>sr_configChanged := False\<rparr>) else r1)"
    by (simp only: service_onCoreMaintenance_def Let_def r1_def)
  have ok: "services_ok S r1" and abs: "services_abs r1 = spec_step S (Maintain time now) (services_abs r)"
    using check_ttls_at [of S "r\<lparr>sr_ttlCheckTime := time\<rparr>" now] assms by (simp_all add: r1_def services_abs_def)
  show "services_ok S (service_onCoreMaintenance S time now r)" unfolding m using ok clear_zones_ok [OF ok] by simp
  have "services_abs (clearServiceZones (r1\<lparr>sr_configChanged := False\<rparr>)) = services_abs r1"
    by (simp add: services_abs_def clearServiceZones_def service_at_def fun_eq_iff)
  then show "services_abs (service_onCoreMaintenance S time now r) = spec_step S (Maintain time now) (services_abs r)" unfolding m abs [symmetric] by simp
qed

lemma svc_step_refines:
  assumes "services_ok S r" and "svc_op_ok op"
  shows "services_ok S (svc_step S op r) \<and> services_abs (svc_step S op r) = spec_step S op (services_abs r)"
proof (cases op)
  case (Register now reg)
  then show ?thesis using registerService_refines(1) [OF assms(1), of now reg, symmetric] registerService_refines(2) [OF assms(1), of now reg] assms(1)
    by (cases "registerService S now reg r") (simp_all add: services_abs_def)
next
  case (Unregister guid fire)
  then show ?thesis using unregister_removes [OF assms(1), of guid fire] unregister_at [OF assms(1), of guid fire] by (simp add: only_removes_def services_abs_def)
next
  case (Unregister_client guid client tenant fire)
  then show ?thesis using unregister_client_ok [OF assms(1)] unregister_client_at [OF assms(1)] by simp
next
  case (Next E R)
  obtain res R' r' where n: "getNextService S E R r = (res, R', r')" by (metis prod_cases3)
  note N = getNextService_result [OF n _ assms(1)]
  have "service_at r' = service_at r" using N assms(2) Next by (intro service_at_cong) simp_all
  then show ?thesis using N assms(2) Next n by (simp add: services_abs_def)
next
  case (Check_ttls now)
  then show ?thesis using check_ttls_at [OF assms(1), of now] by (simp add: services_abs_def [of r])
next
  case (Configure Z)
  then show ?thesis using config_ok [OF assms(1)] by (simp add: services_abs_def onConfigurationUpdated_def service_at_def fun_eq_iff)
next
  case (Maintain time now)
  then show ?thesis using maintenance_at [OF assms(1), of time now] by simp
qed

section \<open>Correctness of the service registry\<close>

definition svc_run :: "svc_settings \<Rightarrow> svc_heap \<Rightarrow> svc_op list \<Rightarrow> service_registry" where
  "svc_run S heap ops = fold (svc_step S) ops (new_service_registry heap)"

lemma svc_steps_refine:
  assumes "services_ok S r" and "list_all svc_op_ok ops"
  shows "services_ok S (fold (svc_step S) ops r) \<and> services_abs (fold (svc_step S) ops r) = fold (spec_step S) ops (services_abs r)"
  using assms by (induction ops arbitrary: r) (simp_all add: svc_step_refines)

lemma svc_run_ok: "list_all svc_op_ok ops \<Longrightarrow> services_ok S (svc_run S heap ops)"
  using svc_steps_refine [OF services_ok_new] by (simp add: svc_run_def)

text \<open>C15. After any sequence of registrations, updates, unregistrations, requests, expiry checks and changes of the
  configuration, the three indexes of the service registry hold the same services: each is found by its own id, is listed
  exactly once under its type, is among the services of exactly the topics it serves, and no topic is kept without services.
  The counter of local services is exact, as a 32-bit number.\<close>

theorem service_indexes_agree:
  assumes "list_all svc_op_ok ops" and r: "r = svc_run S heap ops"
  shows "(\<forall>p \<in> registered r. map_of (sr_byId r) (sv_serviceGuid (sr_heap r p)) = Some p) \<and>
    distinct (sr_byType r) \<and> set (sr_byType r) = {(sv_serviceType (sr_heap r p), p) | p. p \<in> registered r} \<and>
    (\<forall>t. topic_index (sr_byTopic r) t = {p \<in> registered r. t \<in> set (sv_requestChannels (sr_heap r p))}) \<and>
    (\<forall>t ts. map_of (sr_byTopic r) t = Some ts \<longrightarrow> ts_services ts \<noteq> [] \<and> distinct (ts_services ts)) \<and>
    sr_localSvcCounter r = of_nat (card {p \<in> registered r. isLocal S (sr_heap r p)})"
proof -
  have ok: "services_ok S r" unfolding r by (rule svc_run_ok [OF assms(1)])
  note o = services_okD [OF ok]
  have "ts_services ts \<noteq> [] \<and> distinct (ts_services ts)" if "map_of (sr_byTopic r) t = Some ts" for t ts
    using topics_ok_at [OF o(5) that] by (simp add: topic_ok_def)
  then show ?thesis using registered_at [OF ok] o(3,4,6,7) by blast
qed

text \<open>C12. The service registry implements a map from service ids to registrations. A registration is refused if it has no id, or
  the id of another client's service; it replaces the one of the same id, except that one with a longer time to live on another broker stays
  and one that differs only in its times is updated. Unregistering removes the id, for a client only its own, and the check of the
  times to live removes exactly the expired ones; requests and the configuration change nothing.\<close>

theorem service_registry_refines_map:
  assumes "list_all svc_op_ok ops"
  shows "services_abs (svc_run S heap ops) = fold (spec_step S) ops (Map.empty, 0)"
proof -
  have "services_abs (new_service_registry heap) = (Map.empty, 0)" by (simp add: services_abs_def service_at_def new_service_registry_def fun_eq_iff)
  then show ?thesis using svc_steps_refine [OF services_ok_new [of S heap] assms] by (simp add: svc_run_def)
qed

lemma closest_empty: "closest rank P = {} \<longleftrightarrow> P = {}"
proof -
  have "\<exists>p \<in> P. \<forall>q \<in> P. rank p \<le> rank q" if "p \<in> P" for p
    using ex_has_least_nat [of "\<lambda>p. p \<in> P" p rank] that by blast
  then show ?thesis unfolding closest_def by blast
qed

text \<open>C13. A request on a topic gets a service exactly when some registered service serves the topic and may get it, and then
  such a one: its broker is this one or can be reached from it, its time to live with the grace period is not over, it is authorized for the topic,
  and it is there for the tenant. Unless the configuration of the zones has changed since the last maintenance of the registry, no such service is nearer:
  in a zone closer to the local broker.\<close>

theorem next_service_is_nearest:
  assumes "list_all svc_op_ok ops" and r: "r = svc_run S heap ops" and R: "registry_ok R" and nx: "getNextService S E R r = (res, R', r')"
  shows "(res = None \<longleftrightarrow> svc_candidates S E R r = {}) \<and>
    (\<forall>p. res = Some p \<longrightarrow> p \<in> svc_candidates S E R r \<and>
       (\<not> sr_configChanged r \<longrightarrow> (\<forall>q \<in> svc_candidates S E R r. svc_rank S (sr_heap r) (sr_zones r) p \<le> svc_rank S (sr_heap r) (sr_zones r) q)))"
proof -
  let ?F = "turn_order S E R r"
  have ok: "services_ok S r" unfolding r by (rule svc_run_ok [OF assms(1)])
  obtain Z where Z: "known_zones r = None \<or> known_zones r = Some Z" and F: "set ?F = closest (svc_rank S (sr_heap r) Z) (svc_candidates S E R r)"
    using turn_order_set(1) [OF ok R] by blast
  have res: "res = (if ?F = [] then None else Some (hd ?F))" using getNextService_result [OF nx R ok] by simp
  have empty: "?F = [] \<longleftrightarrow> svc_candidates S E R r = {}" using F closest_empty by (metis set_empty)
  have near: "p \<in> closest (svc_rank S (sr_heap r) Z) (svc_candidates S E R r)" if "res = Some p" for p
    using that res F by (metis hd_in_set option.distinct(1) option.inject)
  have zones: "Z = sr_zones r" if "\<not> sr_configChanged r" using Z that by (simp add: known_zones_def)
  have "res = None \<longleftrightarrow> svc_candidates S E R r = {}" using res empty by simp
  then show ?thesis using near zones unfolding closest_def by blast
qed

fun next_services :: "svc_settings \<Rightarrow> svc_env \<Rightarrow> nat \<Rightarrow> registry \<Rightarrow> service_registry \<Rightarrow> nat option list" where
  "next_services S E 0 R r = []"
| "next_services S E (Suc n) R r = (case getNextService S E R r of (res, R', r') \<Rightarrow> res # next_services S E n R' r')"

lemma next_services_turns:
  assumes "services_ok S r" and "registry_ok R" and "turn_order S E R r = F" and "F \<noteq> []"
  shows "next_services S E n R r = map (\<lambda>i. Some (F ! (i mod length F))) [0..<n]"
  using assms
proof (induction n arbitrary: R r F)
  case 0
  then show ?case by simp
next
  case (Suc n)
  obtain res R' r' where nx: "getNextService S E R r = (res, R', r')" by (metis prod_cases3)
  note N = getNextService_result [OF nx Suc.prems(2,1)]
  have "registry_ok R'" using N by (simp add: same_fabric_def)
  then have "next_services S E n R' r' = map (\<lambda>i. Some (rotate1 F ! (i mod length F))) [0..<n]"
    using Suc.IH [of r' R' "rotate1 F"] N Suc.prems(3,4) by simp
  also have "\<dots> = map (\<lambda>i. Some (F ! (Suc i mod length F))) [0..<n]" using Suc.prems(4) by (simp add: nth_rotate1 mod_Suc_eq)
  finally show ?case using nx N Suc.prems(3,4) by (simp add: upt_conv_Cons map_Suc_upt [symmetric] hd_conv_nth del: upt_Suc)
qed

text \<open>C14. The nearest services that may get the requests on a topic take turns: as long as nothing else changes, and no change of the configuration waits for
  the next maintenance of the registry, of any number of requests in a row, the i-th goes to the i-th of them in a fixed order that starts again at its end, so that each of them gets one request
  in every round.\<close>

theorem services_take_turns:
  assumes "list_all svc_op_ok ops" and r: "r = svc_run S heap ops" and R: "registry_ok R" and "\<not> sr_configChanged r" and "svc_candidates S E R r \<noteq> {}"
  shows "\<exists>F. distinct F \<and> F \<noteq> [] \<and> set F = closest (svc_rank S (sr_heap r) (sr_zones r)) (svc_candidates S E R r) \<and>
    next_services S E n R r = map (\<lambda>i. Some (F ! (i mod length F))) [0..<n]"
proof -
  have ok: "services_ok S r" unfolding r by (rule svc_run_ok [OF assms(1)])
  have F: "set (turn_order S E R r) = closest (svc_rank S (sr_heap r) (sr_zones r)) (svc_candidates S E R r)"
    using turn_order_set(1) [OF ok R, of E] assms(4) by (auto simp: known_zones_def)
  then have "turn_order S E R r \<noteq> []" using closest_empty assms(5) by (metis set_empty)
  then show ?thesis using next_services_turns [OF ok R refl, of E n] turn_order_set(2) [OF ok R, of E] F by blast
qed

section \<open>Two services on one topic\<close>

definition sample_svc_settings :: svc_settings where
  "sample_svc_settings = \<lparr>st_guid = ''me'', st_topicRoutingEnabled = False, st_ttlGracePeriodMins = 10, st_ttlCheckIntervalMins = 5, st_cacheClearDelay = 0,
     ss_multiTenant = False, ss_tenantGuid = ''''\<rparr>"

definition sample_reg :: "string \<Rightarrow> service_registration" where
  "sample_reg g = \<lparr>sv_serviceType = ''/s'', sv_serviceGuid = g, sv_clientGuid = ''c'', sv_clientInstanceGuid = '''', sv_brokerGuid = ''me'', sv_ttlMins = 60,
     sv_requestChannels = [''/s/a''], sv_metaData = [], sv_regTime = 0, sv_brokerService = False, sv_clientTenantGuid = '''', sv_targetTenantGuids = [],
     sv_certificates = [], sv_managedClient = False\<rparr>"

definition sample_svc_ops :: "svc_op list" where
  "sample_svc_ops = [Register 0 (sample_reg ''s1''), Register 0 (sample_reg ''s2'')]"

definition sample_svc_env :: svc_env where
  "sample_svc_env = \<lparr>se_now = 0, se_auth = new_state [] [], se_topic = ''/s/a'', se_tenant = ''''\<rparr>"

definition sample_services :: service_registry where
  "sample_services = svc_run sample_svc_settings (\<lambda>_. sample_reg '''') sample_svc_ops"

lemma sample_services_fields:
  "sr_byId sample_services = [(''s1'', 0), (''s2'', 1)]" "sr_heap sample_services 0 = sample_reg ''s1''" "sr_heap sample_services 1 = sample_reg ''s2''"
  "sr_zones sample_services = []" "\<not> sr_configChanged sample_services"
  by (simp_all add: sample_services_def svc_run_def sample_svc_ops_def registerService_def new_service_registry_def sample_reg_def sample_svc_settings_def
      addService_def incLocalSvc_def request_events_def isOps_def isLocal_def sendServiceRegistrationEvent_def tenant_count_def log_svc_def Let_def)

lemma sample_registered: "registered sample_services = {0, 1}"
  by (simp add: registered_def sample_services_fields)

lemma sample_may_serve: "may_serve sample_svc_settings sample_svc_env R (sample_reg g)"
  by (simp add: may_serve_def sample_svc_settings_def sample_svc_env_def sample_reg_def
      isAuthorizedToSubscribe_certs_def isAuthorizedToSubscribe_key_def new_state_def hasWildcards_def authorized_for_def isAuthorized_def)

lemma sample_candidates: "svc_candidates sample_svc_settings sample_svc_env R sample_services = {0, 1}"
proof -
  have "''/s/a'' \<in> set (sv_requestChannels (sr_heap sample_services p)) \<and> may_serve sample_svc_settings sample_svc_env R (sr_heap sample_services p)"
    if "p = 0 \<or> p = 1" for p
  proof -
    obtain g where "sr_heap sample_services p = sample_reg g" using \<open>p = 0 \<or> p = 1\<close> sample_services_fields(2,3) by blast
    moreover have "sv_requestChannels (sample_reg g) = [''/s/a'']" by (simp add: sample_reg_def)
    ultimately show ?thesis by (simp add: sample_may_serve)
  qed
  then show ?thesis by (auto simp: svc_candidates_def sample_registered sample_svc_env_def)
qed

lemma sample_ops_ok: "list_all svc_op_ok sample_svc_ops"
  by (simp add: sample_svc_ops_def)

theorem service_indexes_agree_witness:
  "topic_index (sr_byTopic sample_services) ''/s/a'' = {0, 1} \<and> sr_localSvcCounter sample_services = 2"
proof -
  have c: "sv_requestChannels (sample_reg g) = [''/s/a'']" "isLocal sample_svc_settings (sample_reg g)" for g
    by (simp_all add: sample_reg_def isLocal_def sample_svc_settings_def)
  have "{p \<in> {0, 1}. ''/s/a'' \<in> set (sv_requestChannels (sr_heap sample_services p))} = {0, 1}"
      "{p \<in> {0, 1}. isLocal sample_svc_settings (sr_heap sample_services p)} = {0, 1}" using c sample_services_fields(2,3) by auto
  then show ?thesis using service_indexes_agree [OF sample_ops_ok sample_services_def] sample_registered by simp
qed

theorem service_registry_refines_map_witness:
  "services_abs sample_services = ([''s1'' \<mapsto> sample_reg ''s1'', ''s2'' \<mapsto> sample_reg ''s2''], 0)"
  using service_registry_refines_map [OF sample_ops_ok, of sample_svc_settings "\<lambda>_. sample_reg ''''"]
  unfolding sample_services_def by (simp add: sample_svc_ops_def register_spec_def sample_reg_def)

theorem next_service_is_nearest_witness:
  "\<exists>p \<in> {0, 1}. fst (getNextService sample_svc_settings sample_svc_env (new_registry sample_env) sample_services) = Some p"
proof -
  obtain res R' r' where n: "getNextService sample_svc_settings sample_svc_env (new_registry sample_env) sample_services = (res, R', r')" by (metis prod_cases3)
  show ?thesis using next_service_is_nearest [OF sample_ops_ok sample_services_def registry_ok_new n] unfolding sample_candidates n by auto
qed

theorem services_take_turns_witness:
  "\<exists>a b. {a, b} = {0, 1} \<and> a \<noteq> b \<and>
     next_services sample_svc_settings sample_svc_env 3 (new_registry sample_env) sample_services = [Some a, Some b, Some a]"
proof -
  let ?rank = "svc_rank sample_svc_settings (sr_heap sample_services) (sr_zones sample_services)"
  have "?rank 0 = 1" "?rank 1 = 1" unfolding svc_rank_def sample_services_fields by (simp_all add: zone_rank_def sample_reg_def)
  then have "closest ?rank {0, 1} = {0, 1}" by (auto simp: closest_def)
  then obtain F where F: "distinct F" "set F = {0, 1}"
      "next_services sample_svc_settings sample_svc_env 3 (new_registry sample_env) sample_services = map (\<lambda>i. Some (F ! (i mod length F))) [0..<3]"
    using services_take_turns [OF sample_ops_ok sample_services_def registry_ok_new sample_services_fields(5), of sample_svc_env sample_env 3] sample_candidates by auto
  have "length F = 2" using distinct_card [OF F(1)] F(2) by simp
  then obtain a b where "F = [a, b]" by (auto simp: numeral_2_eq_2 length_Suc_conv)
  then show ?thesis using F by (intro exI [of _ a] exI [of _ b]) (simp add: numeral_3_eq_3 upt_conv_Cons)
qed

end
