(* ===== verification/Dxl_Message.thy ===== *)
theory Dxl_Message
  imports Prelude "HOL-Library.Monad_Syntax"
begin

text \<open>
  The messages of the fabric, src/brokerlib/message: their struct with its setters and their wire format
  (messageImpl.cpp, messageinterface.cpp), and the C++ object around it (DxlMessage.cpp, DxlRequest.cpp, DxlResponse.cpp).

  The msgpack library turns bytes into a sequence of objects and back. The model starts from that sequence: a
  reader takes the next object and fails if there is none or if it has the wrong type, a writer appends
  an object. Strings and binaries are not told apart by the readers. A string read from the wire ends at
  its first zero byte, the payload does not. Memory is never exhausted.
\<close>

section \<open>The struct\<close>

datatype mp_object = MP_int int | MP_raw "byte list" | MP_array "mp_object list" | MP_other

datatype dxl_message_error_t = DXLMP_BAD_DATA | DXLMP_WRONG_MESSAGE_TYPE

datatype dxl_specific =
    Request_data string string
  | Response_data string string
  | Event_data
  | Error_data string string "32 word" string

record dxl_message_t =
  dm_version :: "32 word"
  dm_messageId :: string
  dm_sourceClientId :: string
  dm_sourceBrokerGuid :: string
  dm_brokerGuids :: "string list"
  dm_clientGuids :: "string list"
  dm_payload :: "byte list"
  dm_specific :: dxl_specific
  dm_otherFields :: "string list"
  dm_sourceTenantGuid :: string
  dm_tenantGuids :: "string list"
  dm_sourceClientInstanceId :: string

text \<open>The value of the enumeration for the kind of a message.\<close>

fun messageType :: "dxl_specific \<Rightarrow> int" where
  "messageType (Request_data _ _) = 0"
| "messageType (Response_data _ _) = 1"
| "messageType Event_data = 2"
| "messageType (Error_data _ _ _ _) = 3"

fun blank_specific :: "int \<Rightarrow> dxl_specific" where
  "blank_specific t =
     (if t = 0 then Request_data '''' '''' else if t = 1 then Response_data '''' '''' else if t = 2 then Event_data else Error_data '''' '''' 0 '''')"

text \<open>A string that is handed over as a pointer to characters ends at its first zero.\<close>

definition strdup :: "string \<Rightarrow> string" where
  "strdup s = takeWhile (\<lambda>c. c \<noteq> NUL) s"

definition createDxlMessage :: "int \<Rightarrow> string \<Rightarrow> string \<Rightarrow> string \<Rightarrow> dxl_message_t" where
  "createDxlMessage t clientId clientInstanceId messageId =
     \<lparr>dm_version = 3, dm_messageId = strdup messageId, dm_sourceClientId = strdup clientId, dm_sourceBrokerGuid = '''', dm_brokerGuids = [], dm_clientGuids = [],
      dm_payload = [], dm_specific = blank_specific t, dm_otherFields = [], dm_sourceTenantGuid = '''', dm_tenantGuids = [],
      dm_sourceClientInstanceId = strdup clientInstanceId\<rparr>"

definition setDxlRequestServiceId :: "string \<Rightarrow> dxl_message_t \<Rightarrow> dxl_message_error_t + dxl_message_t" where
  "setDxlRequestServiceId value m = (case dm_specific m of
     Request_data topic _ \<Rightarrow> Inr (m\<lparr>dm_specific := Request_data topic (strdup value)\<rparr>) | _ \<Rightarrow> Inl DXLMP_WRONG_MESSAGE_TYPE)"

definition setDxlResponseMessageAttributes :: "string \<Rightarrow> dxl_message_t \<Rightarrow> dxl_message_error_t + dxl_message_t" where
  "setDxlResponseMessageAttributes requestId m = (case dm_specific m of
     Response_data _ service \<Rightarrow> Inr (m\<lparr>dm_specific := Response_data (strdup requestId) service\<rparr>)
   | Error_data _ service code text \<Rightarrow> Inr (m\<lparr>dm_specific := Error_data (strdup requestId) service code text\<rparr>)
   | _ \<Rightarrow> Inl DXLMP_WRONG_MESSAGE_TYPE)"

definition setDxlResponseMessageServiceId :: "string \<Rightarrow> dxl_message_t \<Rightarrow> dxl_message_error_t + dxl_message_t" where
  "setDxlResponseMessageServiceId serviceId m = (case dm_specific m of
     Response_data req _ \<Rightarrow> Inr (m\<lparr>dm_specific := Response_data req (strdup serviceId)\<rparr>)
   | Error_data req _ code text \<Rightarrow> Inr (m\<lparr>dm_specific := Error_data req (strdup serviceId) code text\<rparr>)
   | _ \<Rightarrow> Inl DXLMP_WRONG_MESSAGE_TYPE)"

definition setDxlErrorResponseMessageAttributes :: "32 word \<Rightarrow> string \<Rightarrow> dxl_message_t \<Rightarrow> dxl_message_error_t + dxl_message_t" where
  "setDxlErrorResponseMessageAttributes code text m = (case dm_specific m of
     Error_data req service _ _ \<Rightarrow> Inr (m\<lparr>dm_specific := Error_data req service code (strdup text)\<rparr>)
   | _ \<Rightarrow> Inl DXLMP_WRONG_MESSAGE_TYPE)"

section \<open>Reading\<close>

definition unpackUInt32 :: "mp_object list \<Rightarrow> (32 word \<times> mp_object list) option" where
  "unpackUInt32 s = (case s of MP_int i # r \<Rightarrow> Some (word_of_int i, r) | _ \<Rightarrow> None)"

definition unpackInt :: "mp_object list \<Rightarrow> (32 word \<times> mp_object list) option" where
  "unpackInt s = (case s of MP_int i # r \<Rightarrow> Some (word_of_int i, r) | _ \<Rightarrow> None)"

definition unpackRaw :: "mp_object list \<Rightarrow> (byte list \<times> mp_object list) option" where
  "unpackRaw s = (case s of MP_raw bs # r \<Rightarrow> Some (bs, r) | _ \<Rightarrow> None)"

definition unpackString :: "mp_object list \<Rightarrow> (string \<times> mp_object list) option" where
  "unpackString s = map_option (\<lambda>(bs, r). (c_str bs, r)) (unpackRaw s)"

fun raw_strings :: "mp_object list \<Rightarrow> string list option" where
  "raw_strings [] = Some []"
| "raw_strings (MP_raw bs # xs) = map_option (Cons (c_str bs)) (raw_strings xs)"
| "raw_strings (_ # xs) = None"

definition unpackStringArray :: "mp_object list \<Rightarrow> (string list \<times> mp_object list) option" where
  "unpackStringArray s = (case s of MP_array xs # r \<Rightarrow> map_option (\<lambda>ss. (ss, r)) (raw_strings xs) | _ \<Rightarrow> None)"

text \<open>The part that depends on the kind of the message.\<close>

definition unpack_specific :: "int \<Rightarrow> mp_object list \<Rightarrow> (dxl_specific \<times> mp_object list) option" where
  "unpack_specific t s =
     (if t = 2 then Some (Event_data, s)
      else do { (first, s) \<leftarrow> unpackString s;
                (service, s) \<leftarrow> unpackString s;
                (if t = 0 then Some (Request_data first service, s)
                 else if t = 1 then Some (Response_data first service, s)
                 else do { (code, s) \<leftarrow> unpackInt s;
                           (text, s) \<leftarrow> unpackString s;
                           Some (Error_data first service code text, s) }) })"

definition unpack_if :: "bool \<Rightarrow> 'a \<Rightarrow> (mp_object list \<Rightarrow> ('a \<times> mp_object list) option) \<Rightarrow> mp_object list \<Rightarrow> ('a \<times> mp_object list) option" where
  "unpack_if b x f s = (if b then f s else Some (x, s))"

definition read_message :: "mp_object list \<Rightarrow> dxl_message_t option" where
  "read_message s = do {
     (version, s) \<leftarrow> unpackUInt32 s;
     (type, s) \<leftarrow> unpackInt s;
     (if sint type \<notin> {0, 1, 2, 3} then None else Some ());
     (messageId, s) \<leftarrow> unpackString s;
     (clientId, s) \<leftarrow> unpackString s;
     (sourceBrokerGuid, s) \<leftarrow> unpackString s;
     (brokerGuids, s) \<leftarrow> unpackStringArray s;
     (clientGuids, s) \<leftarrow> unpackStringArray s;
     (payload, s) \<leftarrow> unpackRaw s;
     (specific, s) \<leftarrow> unpack_specific (sint type) s;
     (otherFields, s) \<leftarrow> unpack_if (version > 0) [] unpackStringArray s;
     (tenant, s) \<leftarrow> unpack_if (version > 1) '''' unpackString s;
     (tenants, s) \<leftarrow> unpack_if (version > 1) [] unpackStringArray s;
     (instance_id, s) \<leftarrow> unpack_if (version > 2) '''' unpackString s;
     Some ((createDxlMessage (sint type) clientId '''' messageId)\<lparr>dm_sourceBrokerGuid := sourceBrokerGuid, dm_brokerGuids := brokerGuids,
       dm_clientGuids := clientGuids, dm_payload := payload, dm_specific := specific, dm_otherFields := otherFields, dm_sourceTenantGuid := tenant,
       dm_tenantGuids := tenants, dm_sourceClientInstanceId := instance_id\<rparr>) }"

definition createDxlMessageFromBytes :: "mp_object list \<Rightarrow> dxl_message_error_t + dxl_message_t" where
  "createDxlMessageFromBytes s = (case read_message s of None \<Rightarrow> Inl DXLMP_BAD_DATA | Some m \<Rightarrow> Inr m)"

section \<open>Writing\<close>

definition pack_string :: "string \<Rightarrow> mp_object" where
  "pack_string s = MP_raw (bytes_of_string s)"

definition pack_strings :: "string list \<Rightarrow> mp_object" where
  "pack_strings ss = MP_array (map pack_string ss)"

fun pack_specific :: "dxl_specific \<Rightarrow> mp_object list" where
  "pack_specific (Request_data topic service) = [pack_string topic, pack_string service]"
| "pack_specific (Response_data req service) = [pack_string req, pack_string service]"
| "pack_specific Event_data = []"
| "pack_specific (Error_data req service code text) = [pack_string req, pack_string service, MP_int (sint code), pack_string text]"

definition dxlMessageToBytes :: "bool \<Rightarrow> dxl_message_t \<Rightarrow> mp_object list" where
  "dxlMessageToBytes stripClientGuids m =
     [MP_int (sint (dm_version m)), MP_int (messageType (dm_specific m)), pack_string (dm_messageId m), pack_string (dm_sourceClientId m),
      pack_string (dm_sourceBrokerGuid m), pack_strings (dm_brokerGuids m), pack_strings (if stripClientGuids then [] else dm_clientGuids m),
      MP_raw (dm_payload m)] @ pack_specific (dm_specific m) @
     (if dm_version m > 0 then [pack_strings (dm_otherFields m)] else []) @
     (if dm_version m > 1 then [pack_string (dm_sourceTenantGuid m), pack_strings (dm_tenantGuids m)] else []) @
     (if dm_version m > 2 then [pack_string (dm_sourceClientInstanceId m)] else [])"

definition copyDxlMessage :: "dxl_message_t \<Rightarrow> dxl_message_t" where
  "copyDxlMessage m =
     (createDxlMessage (messageType (dm_specific m)) (dm_sourceClientId m) (dm_sourceClientInstanceId m) (dm_messageId m))
       \<lparr>dm_sourceBrokerGuid := dm_sourceBrokerGuid m, dm_brokerGuids := dm_brokerGuids m, dm_clientGuids := dm_clientGuids m, dm_payload := dm_payload m,
        dm_specific := dm_specific m, dm_otherFields := (if dm_version m > 0 then dm_otherFields m else []),
        dm_sourceTenantGuid := (if dm_version m > 1 then dm_sourceTenantGuid m else ''''), dm_tenantGuids := (if dm_version m > 1 then dm_tenantGuids m else []),
        dm_sourceClientInstanceId := dm_sourceClientInstanceId m\<rparr>"

section \<open>What is written is read again\<close>

abbreviation "c_string s \<equiv> NUL \<notin> set s"

fun specific_ok :: "dxl_specific \<Rightarrow> bool" where
  "specific_ok (Request_data topic service) \<longleftrightarrow> c_string topic \<and> c_string service"
| "specific_ok (Response_data req service) \<longleftrightarrow> c_string req \<and> c_string service"
| "specific_ok Event_data \<longleftrightarrow> True"
| "specific_ok (Error_data req service code text) \<longleftrightarrow> c_string req \<and> c_string service \<and> c_string text"

text \<open>Messages are of the newest version and their strings end where their length says.\<close>

definition message_ok :: "dxl_message_t \<Rightarrow> bool" where
  "message_ok m \<longleftrightarrow> dm_version m = 3 \<and> c_string (dm_messageId m) \<and> c_string (dm_sourceClientId m) \<and> c_string (dm_sourceBrokerGuid m) \<and>
     list_all c_string (dm_brokerGuids m) \<and> list_all c_string (dm_clientGuids m) \<and> specific_ok (dm_specific m) \<and> list_all c_string (dm_otherFields m) \<and>
     c_string (dm_sourceTenantGuid m) \<and> list_all c_string (dm_tenantGuids m) \<and> c_string (dm_sourceClientInstanceId m)"

lemma strdup_c [simp]: "c_string (strdup s)" "c_string s \<Longrightarrow> strdup s = s"
  by (auto simp: strdup_def dest: set_takeWhileD)

lemma unpack_int_step [simp]: "unpackUInt32 (MP_int i # s) = Some (word_of_int i, s)" "unpackInt (MP_int i # s) = Some (word_of_int i, s)"
  by (simp_all add: unpackUInt32_def unpackInt_def)

lemma unpack_raw_step [simp]: "unpackRaw (MP_raw bs # s) = Some (bs, s)"
  by (simp add: unpackRaw_def)

lemma unpack_string_step [simp]: "c_string x \<Longrightarrow> unpackString (pack_string x # s) = Some (x, s)"
  by (simp add: unpackString_def pack_string_def)

lemma raw_strings_step: "list_all c_string xs \<Longrightarrow> raw_strings (map pack_string xs) = Some xs"
  by (induction xs) (simp_all add: pack_string_def)

lemma unpack_strings_step [simp]: "list_all c_string xs \<Longrightarrow> unpackStringArray (pack_strings xs # s) = Some (xs, s)"
  by (simp add: unpackStringArray_def pack_strings_def raw_strings_step)

lemma unpack_specific_step [simp]: "specific_ok x \<Longrightarrow> unpack_specific (messageType x) (pack_specific x @ s) = Some (x, s)"
  by (cases x) (simp_all add: unpack_specific_def)

lemma messageType_cases: "messageType x \<in> {0, 1, 2, 3}"
  by (cases x) simp_all

lemma messageType_sint [simp]: "sint (word_of_int (messageType x) :: 32 word) = messageType x"
  by (cases x) simp_all

lemma read_written:
  assumes "message_ok m"
  shows "read_message (dxlMessageToBytes strip m) = Some (m\<lparr>dm_clientGuids := if strip then [] else dm_clientGuids m\<rparr>)"
proof -
  have v: "dm_version m = 3" and s: "specific_ok (dm_specific m)" using assms by (simp_all add: message_ok_def)
  have o: "(word_of_int (sint (3 :: 32 word)) :: 32 word) = 3" "(3 :: 32 word) > 0" "(3 :: 32 word) > 1" "(3 :: 32 word) > 2" by simp_all
  have l: "list_all c_string (if strip then [] else dm_clientGuids m)" using assms by (simp add: message_ok_def)
  show ?thesis
    using assms v messageType_cases [of "dm_specific m"] unpack_specific_step [OF s] unpack_strings_step [OF l]
    unfolding message_ok_def read_message_def dxlMessageToBytes_def
    by (cases m) (simp add: o unpack_if_def createDxlMessage_def del: insert_iff)
qed

lemma unpackString_c: "unpackString s = Some (x, r) \<Longrightarrow> c_string x"
  by (auto simp: unpackString_def)

lemma raw_strings_c: "raw_strings xs = Some ss \<Longrightarrow> list_all c_string ss"
  by (induction xs arbitrary: ss rule: raw_strings.induct) auto

lemma unpackStringArray_c: "unpackStringArray s = Some (xs, r) \<Longrightarrow> list_all c_string xs"
  by (auto simp: unpackStringArray_def split: list.splits mp_object.splits dest: raw_strings_c)

lemma unpack_specific_ok: "unpack_specific t s = Some (x, r) \<Longrightarrow> specific_ok x"
  by (auto simp: unpack_specific_def bind_eq_Some_conv split: if_splits dest: unpackString_c)

lemma unpack_if_cases: "unpack_if b x f s = Some (y, r) \<Longrightarrow> y = x \<or> f s = Some (y, r)"
  by (auto simp: unpack_if_def split: if_splits)

lemma read_ok:
  assumes "read_message s = Some m"
  shows "message_ok m"
proof -
  have i1: "list_all c_string y" if "unpack_if b [] unpackStringArray s = Some (y, r)" for b s y r
    using unpack_if_cases [OF that] unpackStringArray_c by auto
  have i2: "c_string y" if "unpack_if b '''' unpackString s = Some (y, r)" for b s y r
    using unpack_if_cases [OF that] unpackString_c by auto
  show ?thesis using assms unfolding read_message_def
    by (auto simp: bind_eq_Some_conv message_ok_def createDxlMessage_def split: if_splits
        dest: unpackString_c unpackStringArray_c unpack_specific_ok i1 i2)
qed

text \<open>C40. A message that was read, of whatever version of the format, survives being written and read again unchanged, its payload byte for
  byte; only the list of clients it is for is left out if that is asked. A copy of it is equal to it.\<close>

theorem message_survives_the_wire:
  assumes "createDxlMessageFromBytes s = Inr m"
  shows "createDxlMessageFromBytes (dxlMessageToBytes False m) = Inr m \<and>
    createDxlMessageFromBytes (dxlMessageToBytes True m) = Inr (m\<lparr>dm_clientGuids := []\<rparr>) \<and> copyDxlMessage m = m"
proof -
  have ok: "message_ok m" using assms read_ok by (auto simp: createDxlMessageFromBytes_def split: option.splits)
  then have "copyDxlMessage m = m" by (simp add: copyDxlMessage_def createDxlMessage_def message_ok_def)
  then show ?thesis using read_written [OF ok, of False] read_written [OF ok, of True] by (simp add: createDxlMessageFromBytes_def)
qed

theorem message_survives_the_wire_witness:
  "\<exists>m. createDxlMessageFromBytes [MP_int 0, MP_int 2, MP_raw [65], MP_raw [66, 0, 67], MP_raw [], MP_array [], MP_array [MP_raw [68]], MP_raw [1, 0, 2]] = Inr m \<and>
     dm_sourceClientId m = ''B'' \<and> dm_payload m = [1, 0, 2] \<and> createDxlMessageFromBytes (dxlMessageToBytes False m) = Inr m"
proof -
  let ?s = "[MP_int 0, MP_int 2, MP_raw [65], MP_raw [66, 0, 67], MP_raw [], MP_array [], MP_array [MP_raw [68]], MP_raw [1, 0, 2]]"
  have c: "c_str [66, 0, 67] = ''B''" by code_simp
  obtain m where m: "createDxlMessageFromBytes ?s = Inr m" "dm_sourceClientId m = ''B''" "dm_payload m = [1, 0, 2]"
    by (simp add: createDxlMessageFromBytes_def read_message_def unpackString_def unpackStringArray_def unpack_specific_def unpack_if_def createDxlMessage_def c)
  then show ?thesis using message_survives_the_wire [OF m(1)] by blast
qed

section \<open>DxlMessage.cpp: the object around the struct\<close>

text \<open>The sets of destinations the object keeps are made from the lists of the struct when first asked for and dropped when these change, so
  they are the lists themselves, with no set for an empty list. \<open>d_next\<close> is the set of next brokers once it was computed.\<close>

record dxl =
  d_msg :: dxl_message_t
  d_dirty :: bool
  d_next :: "string list option"
  d_others :: "(string \<times> string) list option"
  d_othersPending :: bool

definition new_dxl :: "dxl_message_t \<Rightarrow> dxl" where
  "new_dxl m = \<lparr>d_msg = m, d_dirty = False, d_next = None, d_others = None, d_othersPending = False\<rparr>"

definition change :: "(dxl_message_t \<Rightarrow> dxl_message_t) \<Rightarrow> dxl \<Rightarrow> dxl" where
  "change f d = d\<lparr>d_msg := f (d_msg d), d_dirty := True\<rparr>"

definition setSourceBrokerGuid :: "string \<Rightarrow> dxl \<Rightarrow> dxl" where
  "setSourceBrokerGuid guid = change (\<lambda>m. m\<lparr>dm_sourceBrokerGuid := strdup guid\<rparr>)"

definition setSourceClientId :: "string \<Rightarrow> dxl \<Rightarrow> dxl" where
  "setSourceClientId guid = change (\<lambda>m. m\<lparr>dm_sourceClientId := strdup guid\<rparr>)"

definition setSourceClientInstanceId :: "string \<Rightarrow> dxl \<Rightarrow> dxl" where
  "setSourceClientInstanceId guid = change (\<lambda>m. m\<lparr>dm_sourceClientInstanceId := strdup guid\<rparr>)"

definition setSourceTenantGuid :: "string \<Rightarrow> dxl \<Rightarrow> dxl" where
  "setSourceTenantGuid guid = change (\<lambda>m. m\<lparr>dm_sourceTenantGuid := strdup guid\<rparr>)"

definition getSourceClientInstanceId :: "dxl \<Rightarrow> string" where
  "getSourceClientInstanceId d =
     (if dm_sourceClientInstanceId (d_msg d) \<noteq> '''' then dm_sourceClientInstanceId (d_msg d) else dm_sourceClientId (d_msg d))"

definition setDestinationBrokerGuid :: "string \<Rightarrow> dxl \<Rightarrow> dxl" where
  "setDestinationBrokerGuid guid d = change (\<lambda>m. m\<lparr>dm_brokerGuids := [strdup guid]\<rparr>) (d\<lparr>d_next := None\<rparr>)"

definition setDestinationClientGuid :: "string \<Rightarrow> dxl \<Rightarrow> dxl" where
  "setDestinationClientGuid guid = change (\<lambda>m. m\<lparr>dm_clientGuids := [strdup guid]\<rparr>)"

text \<open>The result of the setter of the struct is not looked at.\<close>

definition ignoring :: "(dxl_message_t \<Rightarrow> dxl_message_error_t + dxl_message_t) \<Rightarrow> dxl_message_t \<Rightarrow> dxl_message_t" where
  "ignoring f m = (case f m of Inl _ \<Rightarrow> m | Inr m' \<Rightarrow> m')"

definition request_setDestinationServiceId :: "string \<Rightarrow> dxl \<Rightarrow> dxl" where
  "request_setDestinationServiceId guid = change (ignoring (setDxlRequestServiceId guid))"

definition response_setDestinationServiceId :: "string \<Rightarrow> dxl \<Rightarrow> dxl" where
  "response_setDestinationServiceId guid = change (ignoring (setDxlResponseMessageServiceId guid))"

text \<open>Names and values of the other fields alternate; a name that is already there is not inserted again.\<close>

fun insert_field :: "string \<Rightarrow> string \<Rightarrow> (string \<times> string) list \<Rightarrow> (string \<times> string) list" where
  "insert_field k v m = (if map_of m k = None then m @ [(k, v)] else m)"

fun read_fields :: "string list \<Rightarrow> (string \<times> string) list \<Rightarrow> (string \<times> string) list" where
  "read_fields (k # v # r) m = read_fields r (insert_field k v m)"
| "read_fields _ m = m"

definition getOtherFields :: "dxl \<Rightarrow> (string \<times> string) list option" where
  "getOtherFields d = (case d_others d of Some m \<Rightarrow> Some m
     | None \<Rightarrow>
         let fs = dm_otherFields (d_msg d) in
         if length fs > 0 \<and> length fs mod 2 = 0 then Some (read_fields fs []) else None)"

definition setOtherField :: "string \<Rightarrow> string \<Rightarrow> dxl \<Rightarrow> dxl" where
  "setOtherField name v d =
     (let m = (case getOtherFields d of None \<Rightarrow> [] | Some m \<Rightarrow> m)
      in d\<lparr>d_others := Some (insert_field name v m), d_othersPending := True, d_dirty := True\<rparr>)"

definition getOtherField :: "string \<Rightarrow> dxl \<Rightarrow> string option" where
  "getOtherField name d = (case getOtherFields d of None \<Rightarrow> None | Some m \<Rightarrow> map_of m name)"

definition onPreToBytes :: "dxl \<Rightarrow> dxl" where
  "onPreToBytes d =
     (if d_othersPending d
      then let d1 = d\<lparr>d_othersPending := False\<rparr> in
        case d_others d of None \<Rightarrow> d1 | Some [] \<Rightarrow> d1
        | Some m \<Rightarrow> d1\<lparr>d_msg := (d_msg d)\<lparr>dm_otherFields := concat (map (\<lambda>(k, v). [strdup k, strdup v]) m)\<rparr>\<rparr>
      else d)"

definition toBytes :: "bool \<Rightarrow> dxl \<Rightarrow> mp_object list \<times> dxl" where
  "toBytes stripClientGuids d = (let d' = onPreToBytes d in (dxlMessageToBytes stripClientGuids (d_msg d'), d'))"

definition fromBytes :: "mp_object list \<Rightarrow> dxl option" where
  "fromBytes s = (case createDxlMessageFromBytes s of Inl _ \<Rightarrow> None | Inr m \<Rightarrow> Some (new_dxl m))"

section \<open>DxlMessageService.cpp: messages of the broker itself\<close>

text \<open>\<open>guid\<close> is the broker, \<open>tenant\<close> its tenant, \<open>uuid\<close> a new identifier.\<close>

definition own_message :: "int \<Rightarrow> string \<Rightarrow> string \<Rightarrow> string \<Rightarrow> dxl_message_t" where
  "own_message t guid tenant messageId = (createDxlMessage t guid guid messageId)\<lparr>dm_sourceBrokerGuid := strdup guid, dm_sourceTenantGuid := strdup tenant\<rparr>"

definition createEvent :: "string \<Rightarrow> string \<Rightarrow> string \<Rightarrow> dxl" where
  "createEvent guid tenant uuid = (new_dxl (own_message 2 guid tenant uuid))\<lparr>d_dirty := True\<rparr>"

definition createRequest :: "string \<Rightarrow> string \<Rightarrow> string \<Rightarrow> string \<Rightarrow> dxl" where
  "createRequest guid tenant messageId replyTo =
     (new_dxl ((own_message 0 guid tenant messageId)\<lparr>dm_specific := Request_data (strdup replyTo) ''''\<rparr>))\<lparr>d_dirty := True\<rparr>"

definition service_of :: "dxl \<Rightarrow> string" where
  "service_of d = (case dm_specific (d_msg d) of Request_data _ s \<Rightarrow> s | Response_data _ s \<Rightarrow> s | Error_data _ s _ _ \<Rightarrow> s | Event_data \<Rightarrow> '''')"

definition replyTo_of :: "dxl \<Rightarrow> string" where
  "replyTo_of d = (case dm_specific (d_msg d) of Request_data t _ \<Rightarrow> t | _ \<Rightarrow> '''')"

text \<open>A response goes back to where the request came from.\<close>

definition answer_to :: "dxl \<Rightarrow> dxl_message_t \<Rightarrow> dxl" where
  "answer_to request m =
     (let d1 = (if dm_sourceBrokerGuid (d_msg request) \<noteq> '''' then setDestinationBrokerGuid (dm_sourceBrokerGuid (d_msg request)) (new_dxl m) else new_dxl m);
          d2 = (if getSourceClientInstanceId request \<noteq> '''' then setDestinationClientGuid (getSourceClientInstanceId request) d1 else d1);
          d3 = (if service_of request \<noteq> '''' then response_setDestinationServiceId (service_of request) d2 else d2)
      in d3\<lparr>d_dirty := True\<rparr>)"

definition createResponse :: "string \<Rightarrow> string \<Rightarrow> string \<Rightarrow> dxl \<Rightarrow> dxl" where
  "createResponse guid tenant uuid request =
     answer_to request (ignoring (setDxlResponseMessageAttributes (dm_messageId (d_msg request))) (own_message 1 guid tenant uuid))"

definition createErrorResponse :: "string \<Rightarrow> string \<Rightarrow> string \<Rightarrow> 32 word \<Rightarrow> string \<Rightarrow> dxl \<Rightarrow> dxl" where
  "createErrorResponse guid tenant uuid code text request =
     answer_to request (ignoring (setDxlErrorResponseMessageAttributes code text)
       (ignoring (setDxlResponseMessageAttributes (dm_messageId (d_msg request))) (own_message 3 guid tenant uuid)))"

abbreviation "FABRICSERVICEUNAVAILABLE \<equiv> (0x80000001 :: 32 word)"
abbreviation "FABRICSERVICEOVERLOADED \<equiv> (0x80000002 :: 32 word)"
abbreviation "FABRICSERVICELIMITEXCEEDED \<equiv> (0x80000011 :: 32 word)"

definition error_text :: "32 word \<Rightarrow> string" where
  "error_text code =
     (if code = FABRICSERVICEUNAVAILABLE then ''unable to locate service for request''
      else if code = FABRICSERVICEOVERLOADED then ''service is overloaded''
      else if code = 0x80000003 then ''response timeout''
      else if code = FABRICSERVICELIMITEXCEEDED then ''service limit exceeded''
      else if code = 0x80000012 then ''subscription limit exceeded'' else ''unknown error code'')"

section \<open>Messages stay readable\<close>

text \<open>Every setter keeps the strings of the message well formed, so that whatever is sent can be read.\<close>

lemma setters_ok [simp]:
  "message_ok (d_msg d) \<Longrightarrow> message_ok (d_msg (setSourceBrokerGuid g d))" "message_ok (d_msg d) \<Longrightarrow> message_ok (d_msg (setSourceClientId g d))"
  "message_ok (d_msg d) \<Longrightarrow> message_ok (d_msg (setSourceClientInstanceId g d))" "message_ok (d_msg d) \<Longrightarrow> message_ok (d_msg (setSourceTenantGuid g d))"
  "message_ok (d_msg d) \<Longrightarrow> message_ok (d_msg (setDestinationBrokerGuid g d))" "message_ok (d_msg d) \<Longrightarrow> message_ok (d_msg (setDestinationClientGuid g d))"
  by (simp_all add: setSourceBrokerGuid_def setSourceClientId_def setSourceClientInstanceId_def setSourceTenantGuid_def setDestinationBrokerGuid_def
      setDestinationClientGuid_def change_def message_ok_def)

lemma service_setters_ok [simp]:
  "message_ok (d_msg d) \<Longrightarrow> message_ok (d_msg (request_setDestinationServiceId g d))"
  "message_ok (d_msg d) \<Longrightarrow> message_ok (d_msg (response_setDestinationServiceId g d))"
  by (auto simp: request_setDestinationServiceId_def response_setDestinationServiceId_def change_def ignoring_def setDxlRequestServiceId_def
      setDxlResponseMessageServiceId_def message_ok_def split: dxl_specific.splits)

lemma setOtherField_msg [simp]: "d_msg (setOtherField name v d) = d_msg d"
  by (simp add: setOtherField_def Let_def)

lemma onPreToBytes_cases: "d_msg (onPreToBytes d) = d_msg d \<or> (\<exists>m. d_msg (onPreToBytes d) = (d_msg d)\<lparr>dm_otherFields := concat (map (\<lambda>(k, v). [strdup k, strdup v]) m)\<rparr>)"
proof (cases "\<exists>m. d_othersPending d \<and> d_others d = Some m \<and> m \<noteq> []")
  case True
  then obtain m where "d_othersPending d" "d_others d = Some m" "m \<noteq> []" by blast
  then have "d_msg (onPreToBytes d) = (d_msg d)\<lparr>dm_otherFields := concat (map (\<lambda>(k, v). [strdup k, strdup v]) m)\<rparr>"
    by (cases m) (simp_all add: onPreToBytes_def)
  then show ?thesis by blast
next
  case False
  then have "d_msg (onPreToBytes d) = d_msg d" by (auto simp: onPreToBytes_def Let_def split: option.split list.split)
  then show ?thesis by blast
qed

lemma onPreToBytes_ok: "message_ok (d_msg d) \<Longrightarrow> message_ok (d_msg (onPreToBytes d))"
  using onPreToBytes_cases [of d] by (auto simp: message_ok_def list_all_iff)

lemma fromBytes_toBytes:
  assumes "message_ok (d_msg d)"
  shows "fromBytes (fst (toBytes False d)) = Some (new_dxl (d_msg (onPreToBytes d)))"
  using read_written [OF onPreToBytes_ok [OF assms], of False] by (simp add: toBytes_def fromBytes_def createDxlMessageFromBytes_def Let_def)

lemma fromBytes_ok: "fromBytes s = Some d \<Longrightarrow> message_ok (d_msg d) \<and> d_others d = None \<and> \<not> d_othersPending d \<and> \<not> d_dirty d \<and> d_next d = None"
  using read_ok [of s] by (auto simp: fromBytes_def createDxlMessageFromBytes_def new_dxl_def split: option.splits sum.splits)

lemma own_message_ok [simp]: "message_ok (own_message t guid tenant uuid)"
  by (simp add: own_message_def createDxlMessage_def message_ok_def)

lemma answer_to_ok: "message_ok m \<Longrightarrow> message_ok (d_msg (answer_to request m))"
  by (simp add: answer_to_def new_dxl_def Let_def)

section \<open>The other fields\<close>

lemma insert_field_keys: "distinct (map fst m) \<Longrightarrow> distinct (map fst (insert_field k v m))"
  by (auto simp: map_of_eq_None_iff)

lemma insert_field_look: "map_of (insert_field k v m) n = (case map_of m n of Some w \<Rightarrow> Some w | None \<Rightarrow> if n = k then Some v else None)"
  by (auto simp: map_add_def split: option.splits)

definition fields_ok :: "(string \<times> string) list \<Rightarrow> bool" where
  "fields_ok m \<longleftrightarrow> distinct (map fst m) \<and> (\<forall>(k, v) \<in> set m. c_string k \<and> c_string v)"

lemma insert_field_ok: "fields_ok m \<Longrightarrow> c_string k \<Longrightarrow> c_string v \<Longrightarrow> fields_ok (insert_field k v m)"
  by (auto simp: fields_ok_def map_of_eq_None_iff)

lemma read_fields_ok: "list_all c_string fs \<Longrightarrow> fields_ok m \<Longrightarrow> fields_ok (read_fields fs m)"
  by (induction fs m rule: read_fields.induct) (simp_all add: insert_field_ok del: insert_field.simps)

lemma read_fields_concat:
  "fields_ok (a @ m) \<Longrightarrow> read_fields (concat (map (\<lambda>(k, v). [strdup k, strdup v]) m)) a = a @ m"
proof (induction m arbitrary: a)
  case Nil
  then show ?case by simp
next
  case (Cons e m)
  obtain k v where e: "e = (k, v)" by (cases e)
  have c: "c_string k" "c_string v" and "map_of a k = None" using Cons.prems by (auto simp: fields_ok_def e map_of_eq_None_iff)
  then have "insert_field k v a = a @ [(k, v)]" by simp
  moreover have "fields_ok ((a @ [(k, v)]) @ m)" using Cons.prems e by simp
  ultimately show ?case using Cons.IH [of "a @ [(k, v)]"] c by (simp add: e del: insert_field.simps)
qed

lemma concat_pairs_length: "length (concat (map (\<lambda>(k, v). [strdup k, strdup v]) m)) = 2 * length m"
  by (induction m) auto

text \<open>What becomes of a field that is set before the message is written.\<close>

lemma field_on_the_wire:
  assumes "d_others d = Some m" and "d_othersPending d" and "fields_ok m" and "m \<noteq> []"
  shows "getOtherField name (new_dxl (d_msg (onPreToBytes d))) = map_of m name"
proof -
  let ?fs = "concat (map (\<lambda>(k, v). [strdup k, strdup v]) m)"
  have "d_msg (onPreToBytes d) = (d_msg d)\<lparr>dm_otherFields := ?fs\<rparr>" using assms(1,2,4) by (cases m) (simp_all add: onPreToBytes_def)
  moreover have "length ?fs > 0 \<and> length ?fs mod 2 = 0" using assms(4) unfolding concat_pairs_length by simp
  moreover have "read_fields ?fs [] = m" using read_fields_concat [of "[]" m] assms(3) by simp
  ultimately show ?thesis by (simp add: getOtherField_def getOtherFields_def new_dxl_def Let_def)
qed

end
