(* ===== verification/Routing.thy ===== *)
theory Routing
  imports Service_Index Core_Util Dxl_Message
begin

text \<open>
  What the broker library does with a message, src/brokerlib/core/src/CoreMessageHandlerService.cpp and the handlers of
  src/brokerlib/message/handler that every message passes: whether a client may publish it and who sent it, where a
  request goes, which client or bridge gets it, and what is sent when nobody does.

  A message is stored once (\<open>onStoreMessage\<close>), offered to every client and bridge with a matching subscription
  (\<open>onInsertMessage\<close>) and finished (\<open>onFinalizeMessage\<close>). The handlers for single topics read JSON payloads and are an
  argument: such a handler may change the registries and send messages, may throw, decides whether the message goes on and
  whether a request without a receiver is answered. The handlers for the registration of services are given below, over
  the parsed payload.
\<close>

section \<open>CoreMessageContext.cpp\<close>

abbreviation "DXL_FLAG_LOCAL \<equiv> (0x01 :: 8 word)"
abbreviation "DXL_FLAG_ADMIN \<equiv> (0x02 :: 8 word)"
abbreviation "DXL_FLAG_OPS \<equiv> (0x04 :: 8 word)"
abbreviation "DXL_FLAG_MANAGED \<equiv> (0x80 :: 8 word)"

record msg_context =
  mc_sourceId :: string
  mc_canonicalSourceId :: string
  mc_isSourceBridge :: bool
  mc_topic :: string
  mc_message :: "dxl option"
  mc_insertEnabled :: bool
  mc_serviceNotFoundEnabled :: bool
  mc_destCount :: int
  mc_flags :: "8 word"
  mc_clientSpecific :: bool

definition new_context :: "string \<Rightarrow> string \<Rightarrow> bool \<Rightarrow> 8 word \<Rightarrow> string \<Rightarrow> mp_object list \<Rightarrow> msg_context" where
  "new_context sourceId canonicalSourceId isBridge flags topic payload =
     \<lparr>mc_sourceId = sourceId, mc_canonicalSourceId = canonicalSourceId, mc_isSourceBridge = isBridge, mc_topic = topic, mc_message = fromBytes payload,
      mc_insertEnabled = True, mc_serviceNotFoundEnabled = True, mc_destCount = 0, mc_flags = flags, mc_clientSpecific = False\<rparr>"

definition isSourceOps :: "msg_context \<Rightarrow> bool" where
  "isSourceOps ctx \<longleftrightarrow> mc_flags ctx AND DXL_FLAG_OPS \<noteq> 0"

definition isDxlBrokerServiceRequest :: "msg_context \<Rightarrow> bool" where
  "isDxlBrokerServiceRequest ctx \<longleftrightarrow> prefixed ''/mcafee/service/dxl/'' (mc_topic ctx)"

definition isLocalBrokerSource :: "svc_settings \<Rightarrow> msg_context \<Rightarrow> bool" where
  "isLocalBrokerSource S ctx \<longleftrightarrow> mc_sourceId ctx = st_guid S"

fun isRequest :: "dxl \<Rightarrow> bool" where
  "isRequest d = (case dm_specific (d_msg d) of Request_data _ _ \<Rightarrow> True | _ \<Rightarrow> False)"

fun isEvent :: "dxl \<Rightarrow> bool" where
  "isEvent d = (case dm_specific (d_msg d) of Event_data \<Rightarrow> True | _ \<Rightarrow> False)"

section \<open>The state\<close>

text \<open>The settings, whether the handlers for tests were registered when the broker started, and what is asked of the surroundings while a message is handled: the clock, the policy, the state of the topic cache, a new
  identifier, the payload of the event that reports an event without receiver.\<close>

record routing =
  rt_services :: service_registry
  rt_brokers :: registry
  rt_contexts :: "(64 word \<times> msg_context) list"
  rt_sent :: "(string \<times> mp_object list) list"
  rt_destinationCount :: int
  rt_publishCount :: int

record rt_env =
  re_settings :: svc_settings
  re_instanceGuid :: string
  re_testMode :: bool
  re_testHandlers :: bool
  re_now :: int
  re_auth :: TopicAuthorizationState
  re_cache :: cache_env
  re_uuid :: string
  re_notFoundPayload :: "string \<Rightarrow> byte list"

text \<open>The answer of a handler for a topic: nothing if it throws, otherwise whether the message goes on; then whether a missing
  receiver is still reported.\<close>

type_synonym topic_handler = "msg_context \<Rightarrow> string list \<Rightarrow> routing \<Rightarrow> bool option \<times> bool \<times> routing"

definition sendMessage :: "string \<Rightarrow> dxl \<Rightarrow> routing \<Rightarrow> routing" where
  "sendMessage channel d rt = rt\<lparr>rt_sent := rt_sent rt @ [(channel, fst (toBytes False d))]\<rparr>"

definition sendErrorMessage :: "rt_env \<Rightarrow> 32 word \<Rightarrow> dxl \<Rightarrow> routing \<Rightarrow> routing" where
  "sendErrorMessage E code request =
     sendMessage (replyTo_of request) (createErrorResponse (st_guid (re_settings E)) (ss_tenantGuid (re_settings E)) (re_uuid E) code (error_text code) request)"

section \<open>AuthorizationHandler.cpp\<close>

definition subject :: "rt_env \<Rightarrow> 8 word \<Rightarrow> string \<Rightarrow> string" where
  "subject E flags canonicalId = (if flags AND DXL_FLAG_LOCAL \<noteq> 0 then st_guid (re_settings E) else canonicalId)"

definition auth_onPublishMessage :: "rt_env \<Rightarrow> string \<Rightarrow> bool \<Rightarrow> 8 word \<Rightarrow> string \<Rightarrow> string list \<Rightarrow> bool" where
  "auth_onPublishMessage E canonicalSourceId isBridge flags topic certs \<longleftrightarrow>
     isBridge \<or> (if flags AND DXL_FLAG_MANAGED \<noteq> 0 then isAuthorizedToPublish_key (re_auth E) (subject E flags canonicalSourceId) topic
                 else isAuthorizedToPublish_certs (re_auth E) certs topic)"

text \<open>A receiver: a client or a bridge with a matching subscription.\<close>

record receiver =
  rv_id :: string
  rv_canonicalId :: string
  rv_isBridge :: bool
  rv_flags :: "8 word"
  rv_tenant :: string
  rv_certs :: "string list"

definition auth_onInsertMessage :: "rt_env \<Rightarrow> msg_context \<Rightarrow> receiver \<Rightarrow> bool" where
  "auth_onInsertMessage E ctx v \<longleftrightarrow>
     rv_isBridge v \<or> (if rv_flags v AND DXL_FLAG_MANAGED \<noteq> 0 then isAuthorizedToSubscribe_key (re_auth E) (subject E (rv_flags v) (rv_canonicalId v)) (mc_topic ctx)
                 else isAuthorizedToSubscribe_certs (re_auth E) (rv_certs v) (mc_topic ctx))"

section \<open>MessageRoutingHandler.cpp\<close>

fun next_guids :: "string \<Rightarrow> string list \<Rightarrow> registry \<Rightarrow> string list \<times> registry" where
  "next_guids me [] R = ([], R)"
| "next_guids me (g # gs) R =
     (case getNextBroker me g R of (n, R1) \<Rightarrow> case next_guids me gs R1 of (ns, R2) \<Rightarrow> (if n = '''' then ns else n # ns, R2))"

definition getNextBrokerGuids :: "string \<Rightarrow> dxl \<Rightarrow> registry \<Rightarrow> string list option \<times> dxl \<times> registry" where
  "getNextBrokerGuids me d R = (case d_next d of Some ns \<Rightarrow> (Some ns, d, R)
     | None \<Rightarrow>
         if dm_brokerGuids (d_msg d) = [] then (None, d, R)
         else case next_guids me (dm_brokerGuids (d_msg d)) R of (ns, R') \<Rightarrow> (Some ns, d\<lparr>d_next := Some ns\<rparr>, R'))"

definition onInsertMultiTenantMessage :: "dxl \<Rightarrow> 8 word \<Rightarrow> msg_context \<Rightarrow> string \<Rightarrow> bool" where
  "onInsertMultiTenantMessage d targetFlags ctx targetTenant =
     (let tenants = dm_tenantGuids (d_msg d) in
      if tenants \<noteq> [] \<and> targetTenant \<notin> set tenants then False
      else if tenants = [] \<and> targetFlags AND DXL_FLAG_OPS = 0 \<and> \<not> isSourceOps ctx \<and> targetTenant \<noteq> dm_sourceTenantGuid (d_msg d) then False
      else True)"

definition not_listed :: "rt_env \<Rightarrow> dxl \<Rightarrow> receiver \<Rightarrow> bool" where
  "not_listed E d v \<longleftrightarrow>
     (let clients = dm_clientGuids (d_msg d) in
      clients \<noteq> [] \<and> rv_id v \<notin> set clients \<and> rv_canonicalId v \<notin> set clients \<and>
      (rv_flags v AND DXL_FLAG_LOCAL = 0 \<or> st_guid (re_settings E) \<notin> set clients \<and> re_instanceGuid E \<notin> set clients))"

text \<open>The result: whether the receiver gets the message, whether it gets the one without the list of clients, that one if it was made just now.\<close>

definition routing_onInsertMessage ::
  "rt_env \<Rightarrow> msg_context \<Rightarrow> receiver \<Rightarrow> registry \<Rightarrow> bool \<times> bool \<times> mp_object list option \<times> msg_context \<times> registry" where
  "routing_onInsertMessage E ctx v R =
     (let S = re_settings E in
      case mc_message ctx of None \<Rightarrow> (\<not> ss_multiTenant S, False, None, ctx, R)
      | Some d \<Rightarrow>
          if rv_isBridge v then
            (case getNextBrokerGuids (st_guid S) d R of
               (Some ns, d', R') \<Rightarrow> (rv_id v \<in> set ns, False, None, ctx\<lparr>mc_message := Some d'\<rparr>, R')
             | (None, d', R') \<Rightarrow>
                 if st_topicRoutingEnabled S \<and> isEvent d then
                   (if prefixed ''/mcafee/client/{'' (mc_topic ctx) \<or> prefixed ''/mcafee/event/dxl/'' (mc_topic ctx) then (True, False, None, ctx, R')
                    else case isSubscriberInHierarchy (settings.truncate S) (re_cache E) (st_guid S) (rv_id v) (mc_topic ctx) R' of
                           (b, R'') \<Rightarrow> (b, False, None, ctx, R''))
                 else (True, False, None, ctx, R'))
          else if dm_brokerGuids (d_msg d) \<noteq> [] \<and> st_guid S \<notin> set (dm_brokerGuids (d_msg d)) then (False, False, None, ctx, R)
          else if not_listed E d v then (False, False, None, ctx, R)
          else if ss_multiTenant S \<and> \<not> onInsertMultiTenantMessage d (rv_flags v) ctx (rv_tenant v) then (False, False, None, ctx, R)
          else if dm_clientGuids (d_msg d) \<noteq> [] \<and> isEvent d then
            (if mc_clientSpecific ctx then (True, True, None, ctx, R)
             else case toBytes True d of (bytes, d') \<Rightarrow> (True, True, Some bytes, ctx\<lparr>mc_message := Some d', mc_clientSpecific := True\<rparr>, R))
          else (True, False, None, ctx, R))"

section \<open>ServiceLookupHandler.cpp\<close>

definition request_env :: "rt_env \<Rightarrow> string \<Rightarrow> string \<Rightarrow> svc_env" where
  "request_env E topic tenant = \<lparr>se_now = re_now E, se_auth = re_auth E, se_topic = topic, se_tenant = tenant\<rparr>"

fun first_service :: "rt_env \<Rightarrow> string \<Rightarrow> string list \<Rightarrow> routing \<Rightarrow> nat option \<times> routing" where
  "first_service E tenant [] rt = (None, rt)"
| "first_service E tenant (t # ts) rt =
     (case getNextService (re_settings E) (request_env E t tenant) (rt_brokers rt) (rt_services rt) of (p, R, r) \<Rightarrow>
        let rt' = rt\<lparr>rt_brokers := R, rt_services := r\<rparr> in
        case p of Some _ \<Rightarrow> (p, rt') | None \<Rightarrow> first_service E tenant ts rt')"

definition findServiceForTopic :: "rt_env \<Rightarrow> string \<Rightarrow> string \<Rightarrow> routing \<Rightarrow> nat option \<times> routing" where
  "findServiceForTopic E topic tenant = first_service E tenant (topic # wildcards topic)"

definition route_to :: "service_registration \<Rightarrow> dxl \<Rightarrow> dxl" where
  "route_to reg d = request_setDestinationServiceId (sv_serviceGuid reg)
     (setDestinationClientGuid (getClientInstanceGuid reg) (setDestinationBrokerGuid (sv_brokerGuid reg) d))"

definition handleRequest :: "rt_env \<Rightarrow> string \<Rightarrow> dxl \<Rightarrow> routing \<Rightarrow> bool \<times> dxl \<times> routing" where
  "handleRequest E topic d rt =
     (let serviceId = service_of d; tenant = dm_sourceTenantGuid (d_msg d) in
      if serviceId \<noteq> '''' \<and> dm_clientGuids (d_msg d) \<noteq> [] \<and> dm_brokerGuids (d_msg d) \<noteq> [] then (True, d, rt)
      else
        let (p, d1, rt1) =
              (if serviceId \<noteq> ''''
               then (case findService (re_settings E) serviceId tenant (rt_services rt) of
                       Some p \<Rightarrow> (Some p, d, rt)
                     | None \<Rightarrow> (None, if ss_multiTenant (re_settings E) then request_setDestinationServiceId '''' d else d, rt))
               else (case findServiceForTopic E topic tenant rt of (p, rt1) \<Rightarrow> (p, d, rt1)))
        in case p of
             Some p \<Rightarrow> (True, route_to (sr_heap (rt_services rt1) p) d1, rt1)
           | None \<Rightarrow> (False, d1, sendErrorMessage E FABRICSERVICEUNAVAILABLE d1 rt1))"

fun first_prefix :: "service_registry \<Rightarrow> string list \<Rightarrow> string" where
  "first_prefix r [] = ''''"
| "first_prefix r (t # ts) = (if getRequestPrefixForEvent t r \<noteq> '''' then getRequestPrefixForEvent t r else first_prefix r ts)"

definition request_for_event :: "rt_env \<Rightarrow> dxl \<Rightarrow> service_registration \<Rightarrow> dxl" where
  "request_for_event E d reg =
     change (\<lambda>m. m\<lparr>dm_payload := dm_payload (d_msg d)\<rparr>)
      (route_to reg
        (setSourceTenantGuid (dm_sourceTenantGuid (d_msg d))
          (setSourceClientInstanceId (getSourceClientInstanceId d)
            (setSourceClientId (dm_sourceClientId (d_msg d))
              (setSourceBrokerGuid (dm_sourceBrokerGuid (d_msg d))
                (createRequest (st_guid (re_settings E)) (ss_tenantGuid (re_settings E)) (dm_messageId (d_msg d))
                  (''/mcafee/client/'' @ dm_sourceClientId (d_msg d))))))))"

definition handleEvent :: "rt_env \<Rightarrow> string \<Rightarrow> dxl \<Rightarrow> routing \<Rightarrow> routing" where
  "handleEvent E topic d rt =
     (let pre = first_prefix (rt_services rt) (topic # wildcards topic) in
      if pre = '''' then rt
      else case findServiceForTopic E (pre @ topic) (dm_sourceTenantGuid (d_msg d)) rt of
             (None, rt1) \<Rightarrow> rt1
           | (Some p, rt1) \<Rightarrow> sendMessage (pre @ topic) (request_for_event E d (sr_heap (rt_services rt1) p)) rt1)"

definition handleErrorResponse :: "rt_env \<Rightarrow> msg_context \<Rightarrow> dxl \<Rightarrow> routing \<Rightarrow> routing" where
  "handleErrorResponse E ctx d rt = (case dm_specific (d_msg d) of
     Error_data _ serviceId code _ \<Rightarrow>
       if code = FABRICSERVICEUNAVAILABLE \<and> serviceId \<noteq> '''' then
         (case map_of (sr_byId (rt_services rt)) serviceId of None \<Rightarrow> rt
          | Some p \<Rightarrow>
              let reg = sr_heap (rt_services rt) p in
              if mc_isSourceBridge ctx \<or> mc_flags ctx AND DXL_FLAG_LOCAL \<noteq> 0 \<or> sv_clientGuid reg = mc_canonicalSourceId ctx \<or>
                 getClientInstanceGuid reg = mc_sourceId ctx
              then rt\<lparr>rt_services := unregisterService (re_settings E) serviceId True (rt_services rt)\<rparr> else rt)
       else rt
   | _ \<Rightarrow> rt)"

definition lookup_onStoreMessage :: "rt_env \<Rightarrow> msg_context \<Rightarrow> routing \<Rightarrow> bool \<times> msg_context \<times> routing" where
  "lookup_onStoreMessage E ctx rt = (case mc_message ctx of None \<Rightarrow> (True, ctx, rt)
     | Some d \<Rightarrow>
         if isRequest d \<and> \<not> isDxlBrokerServiceRequest ctx then
           (case handleRequest E (mc_topic ctx) d rt of (ok, d', rt') \<Rightarrow> (ok, ctx\<lparr>mc_message := Some d'\<rparr>, rt'))
         else if sr_eventToRequest (rt_services rt) \<noteq> [] \<and> isEvent d \<and> dm_sourceBrokerGuid (d_msg d) = st_guid (re_settings E)
         then (True, ctx, handleEvent E (mc_topic ctx) d rt)
         else (True, ctx, handleErrorResponse E ctx d rt))"

section \<open>CoreMessageHandlerService.cpp\<close>

text \<open>The handlers for the publication on a single topic, of which there are two, for tests, only print.\<close>

definition onPublishMessage :: "rt_env \<Rightarrow> string \<Rightarrow> bool \<Rightarrow> 8 word \<Rightarrow> string \<Rightarrow> string list \<Rightarrow> routing \<Rightarrow> bool \<times> routing" where
  "onPublishMessage E canonicalSourceId isBridge flags topic certs rt =
     (auth_onPublishMessage E canonicalSourceId isBridge flags topic certs, rt\<lparr>rt_publishCount := rt_publishCount rt + 1\<rparr>)"

text \<open>The first result is nothing if the tenant of the broker is needed and not set, which throws.\<close>

definition setDxlMessageFields :: "rt_env \<Rightarrow> string \<Rightarrow> string option \<Rightarrow> msg_context \<Rightarrow> dxl \<Rightarrow> bool option \<times> msg_context \<times> dxl" where
  "setDxlMessageFields E sourceTenant certChain ctx d =
     (let S = re_settings E; mt = ss_multiTenant S; bridge = mc_isSourceBridge ctx;
          d1 = (if bridge then d
                else let d0 = setOtherField ''dxl.certs'' (case certChain of None \<Rightarrow> '''' | Some c \<Rightarrow> strdup c)
                        (setSourceClientInstanceId (mc_sourceId ctx) (setSourceClientId (mc_canonicalSourceId ctx) (setSourceBrokerGuid (st_guid S) d)))
                     in if \<not> mt \<and> dm_sourceTenantGuid (d_msg d) \<noteq> '''' then setSourceTenantGuid '''' d0 else d0)
      in if \<not> mt then (Some True, ctx, d1)
         else if \<not> bridge then
           let d2 = setSourceTenantGuid sourceTenant d1; tenants = dm_tenantGuids (d_msg d2)
           in if \<not> isSourceOps ctx \<and> tenants \<noteq> [] then
                (if ss_tenantGuid S = '''' then (None, ctx, d2)
                 else (Some (\<forall>g \<in> set tenants. g = sourceTenant \<or> g = ss_tenantGuid S), ctx, d2))
              else (Some True, ctx, d2)
         else if ss_tenantGuid S = '''' then (None, ctx, d1)
         else if ss_tenantGuid S = dm_sourceTenantGuid (d_msg d1) then (Some True, ctx\<lparr>mc_flags := mc_flags ctx OR DXL_FLAG_OPS\<rparr>, d1)
         else (Some True, ctx, d1))"

definition bad_reply :: "string \<Rightarrow> bool" where
  "bad_reply replyTo \<longleftrightarrow> replyTo = '''' \<or> prefixed ''/mcafee/event/dxl/'' replyTo \<or> prefixed ''/mcafee/service/'' replyTo \<or>
     CHR ''#'' \<in> set replyTo \<or> CHR ''+'' \<in> set replyTo"

definition disable :: "msg_context \<Rightarrow> msg_context" where
  "disable ctx = ctx\<lparr>mc_insertEnabled := False\<rparr>"

text \<open>The handler of the topic. It is asked only for a message of a bridge if it requires one.\<close>

definition fire_topic_handler ::
  "rt_env \<Rightarrow> (string \<rightharpoonup> bool \<times> topic_handler) \<Rightarrow> string list \<Rightarrow> msg_context \<Rightarrow> routing \<Rightarrow> bool \<times> msg_context \<times> routing" where
  "fire_topic_handler E H certs ctx rt = (case H (mc_topic ctx) of
     Some (bridgeRequired, h) \<Rightarrow>
       if bridgeRequired \<and> \<not> mc_isSourceBridge ctx then (True, disable ctx, rt)
       else (case h ctx certs rt of
               (None, report, rt') \<Rightarrow> (False, disable (ctx\<lparr>mc_serviceNotFoundEnabled := report\<rparr>), rt')
             | (Some go, report, rt') \<Rightarrow>
                 let ctx' = ctx\<lparr>mc_serviceNotFoundEnabled := report\<rparr> in (True, if go then ctx' else disable ctx', rt'))
   | None \<Rightarrow>
       if \<not> mc_isSourceBridge ctx \<and> prefixed ''/mcafee/event/dxl/'' (mc_topic ctx) \<and>
          \<not> (re_testMode E \<and> mc_topic ctx \<in> {''/mcafee/event/dxl/dumpbrokerstate'', ''/mcafee/event/dxl/dumpservicestate''})
       then (True, disable ctx, rt) else (True, ctx, rt))"

text \<open>All handlers, after the fields of the message are set; the message is written again if it was changed.\<close>

definition store_handlers ::
  "rt_env \<Rightarrow> (string \<rightharpoonup> bool \<times> topic_handler) \<Rightarrow> string list \<Rightarrow> msg_context \<Rightarrow> routing \<Rightarrow> msg_context \<times> routing \<times> mp_object list option" where
  "store_handlers E H certs ctx rt =
     (case lookup_onStoreMessage E ctx rt of (ok, ctx1, rt1) \<Rightarrow>
        case fire_topic_handler E H certs (if ok then ctx1 else disable ctx1) rt1 of
          (False, ctx2, rt2) \<Rightarrow> (ctx2, rt2, None)
        | (True, ctx2, rt2) \<Rightarrow>
            (case mc_message ctx2 of
               Some d \<Rightarrow> if d_dirty d then (case toBytes False d of (bytes, d') \<Rightarrow> (ctx2\<lparr>mc_message := Some d'\<rparr>, rt2, Some bytes)) else (ctx2, rt2, None)
             | None \<Rightarrow> (ctx2, rt2, None)))"

definition store_context ::
  "rt_env \<Rightarrow> (string \<rightharpoonup> bool \<times> topic_handler) \<Rightarrow> string \<Rightarrow> string list \<Rightarrow> string option \<Rightarrow> msg_context \<Rightarrow> routing \<Rightarrow>
     msg_context \<times> routing \<times> mp_object list option" where
  "store_context E H sourceTenant certs certChain ctx rt = (case mc_message ctx of
     None \<Rightarrow> store_handlers E H certs ctx rt
   | Some d \<Rightarrow>
       if \<not> mc_isSourceBridge ctx \<and> isRequest d \<and> bad_reply (replyTo_of d) then (disable ctx, rt, None)
       else case setDxlMessageFields E sourceTenant certChain ctx d of
              (go, ctx', d') \<Rightarrow>
                let ctx1 = ctx'\<lparr>mc_message := Some d'\<rparr> in
                if go = Some True then store_handlers E H certs ctx1 rt else (disable ctx1, rt, None))"

definition onStoreMessage ::
  "rt_env \<Rightarrow> (string \<rightharpoonup> bool \<times> topic_handler) \<Rightarrow> 64 word \<Rightarrow> string \<Rightarrow> string list \<Rightarrow> string option \<Rightarrow> msg_context \<Rightarrow> routing \<Rightarrow>
     routing \<times> mp_object list option" where
  "onStoreMessage E H dbId sourceTenant certs certChain ctx rt =
     (case store_context E H sourceTenant certs certChain ctx rt of (ctx', rt', out) \<Rightarrow>
        (rt'\<lparr>rt_contexts := AList.update dbId ctx' (rt_contexts rt')\<rparr>, out))"

definition onInsertMessage :: "rt_env \<Rightarrow> 64 word \<Rightarrow> receiver \<Rightarrow> routing \<Rightarrow> bool \<times> bool \<times> mp_object list option \<times> routing" where
  "onInsertMessage E dbId v rt = (case map_of (rt_contexts rt) dbId of None \<Rightarrow> (False, False, None, rt)
     | Some ctx \<Rightarrow>
         if \<not> mc_insertEnabled ctx then (False, False, None, rt)
         else case routing_onInsertMessage E ctx v (rt_brokers rt) of (go, strip, bytes, ctx1, R) \<Rightarrow>
           let put = (\<lambda>ctx. rt\<lparr>rt_brokers := R, rt_contexts := AList.update dbId ctx (rt_contexts rt)\<rparr>) in
           if go \<and> auth_onInsertMessage E ctx1 v then (True, strip, bytes, put (ctx1\<lparr>mc_destCount := mc_destCount ctx1 + 1\<rparr>))
           else (False, strip, bytes, put ctx1))"

definition onPreInsertPacketQueueExceeded :: "rt_env \<Rightarrow> 64 word \<Rightarrow> bool \<Rightarrow> routing \<Rightarrow> bool \<times> routing" where
  "onPreInsertPacketQueueExceeded E dbId isBridge rt = (case map_of (rt_contexts rt) dbId of None \<Rightarrow> (True, rt)
     | Some ctx \<Rightarrow> (case mc_message ctx of None \<Rightarrow> (False, rt)
         | Some d \<Rightarrow>
             if isBridge \<or> prefixed ''/mcafee/event/dxl/'' (mc_topic ctx) \<or> prefixed ''/mcafee/service/dxl/'' (mc_topic ctx) \<or>
                prefixed ''/mcafee/client/'' (mc_topic ctx) then (False, rt)
             else if isRequest d then
               (True, sendErrorMessage E FABRICSERVICEOVERLOADED d
                  (rt\<lparr>rt_contexts := AList.update dbId (ctx\<lparr>mc_serviceNotFoundEnabled := False\<rparr>) (rt_contexts rt)\<rparr>))
             else (True, rt)))"

section \<open>NoRequestDestinationHandler.cpp, NoEventDestinationHandler.cpp\<close>

definition noRequest_onFinalizeMessage :: "rt_env \<Rightarrow> msg_context \<Rightarrow> routing \<Rightarrow> routing" where
  "noRequest_onFinalizeMessage E ctx rt = (case mc_message ctx of
     Some d \<Rightarrow> if mc_serviceNotFoundEnabled ctx \<and> mc_destCount ctx = 0 \<and> mc_insertEnabled ctx \<and> isRequest d
               then sendErrorMessage E FABRICSERVICEUNAVAILABLE d rt else rt
   | None \<Rightarrow> rt)"

definition noEvent_onFinalizeMessage :: "rt_env \<Rightarrow> msg_context \<Rightarrow> routing \<Rightarrow> routing" where
  "noEvent_onFinalizeMessage E ctx rt = (case mc_message ctx of
     Some d \<Rightarrow>
       if mc_destCount ctx = 0 \<and> mc_insertEnabled ctx \<and> dm_sourceBrokerGuid (d_msg d) \<noteq> st_guid (re_settings E) \<and> isEvent d \<and>
          \<not> prefixed ''/mcafee/client/{'' (mc_topic ctx) \<and> \<not> prefixed ''/mcafee/event/dxl/'' (mc_topic ctx)
       then sendMessage ''/mcafee/event/dxl/eventsubscribernotfound''
              (change (\<lambda>m. m\<lparr>dm_payload := re_notFoundPayload E (mc_topic ctx)\<rparr>)
                (createEvent (st_guid (re_settings E)) (ss_tenantGuid (re_settings E)) (re_uuid E))) rt
       else rt
   | None \<Rightarrow> rt)"

definition onFinalizeMessage :: "rt_env \<Rightarrow> 64 word \<Rightarrow> routing \<Rightarrow> routing" where
  "onFinalizeMessage E dbId rt = (case map_of (rt_contexts rt) dbId of None \<Rightarrow> rt
     | Some ctx \<Rightarrow>
         let rt1 = noRequest_onFinalizeMessage E ctx (rt\<lparr>rt_destinationCount := rt_destinationCount rt + mc_destCount ctx\<rparr>);
             rt2 = (if re_testHandlers E then noEvent_onFinalizeMessage E ctx rt1 else rt1)
         in rt2\<lparr>rt_contexts := AList.delete dbId (rt_contexts rt2)\<rparr>)"

section \<open>The handlers for the registration of services\<close>

text \<open>\<open>parse\<close> reads the registration or the id from the payload and fails on what is not valid JSON; \<open>allowed\<close> tells whether the
  tenant may register another service.\<close>

definition request_of :: "msg_context \<Rightarrow> dxl option" where
  "request_of ctx = (case mc_message ctx of Some d \<Rightarrow> if isRequest d then Some d else None | None \<Rightarrow> None)"

definition event_of :: "msg_context \<Rightarrow> dxl option" where
  "event_of ctx = (case mc_message ctx of Some d \<Rightarrow> if isEvent d then Some d else None | None \<Rightarrow> None)"

definition client_of :: "rt_env \<Rightarrow> msg_context \<Rightarrow> string" where
  "client_of E ctx = (if mc_flags ctx AND DXL_FLAG_LOCAL \<noteq> 0 then st_guid (re_settings E) else mc_canonicalSourceId ctx)"

definition registration_of_client :: "rt_env \<Rightarrow> msg_context \<Rightarrow> string list \<Rightarrow> dxl \<Rightarrow> service_registration \<Rightarrow> service_registration" where
  "registration_of_client E ctx certs d reg =
     (let S = re_settings E; managed = (mc_flags ctx AND DXL_FLAG_MANAGED \<noteq> 0);
          reg1 = reg\<lparr>sv_brokerGuid := st_guid S, sv_clientGuid := client_of E ctx,
                     sv_clientInstanceGuid := (if mc_flags ctx AND DXL_FLAG_LOCAL \<noteq> 0 then re_instanceGuid E else mc_sourceId ctx),
                     sv_managedClient := managed, sv_certificates := (if managed then sv_certificates reg else certs)\<rparr>;
          reg2 = (if ss_multiTenant S
                  then reg1\<lparr>sv_clientTenantGuid := dm_sourceTenantGuid (d_msg d),
                            sv_targetTenantGuids := (if \<not> isSourceOps ctx then [dm_sourceTenantGuid (d_msg d)] else dm_tenantGuids (d_msg d))\<rparr>
                  else reg1)
      in reg2\<lparr>sv_brokerService := (mc_flags ctx AND DXL_FLAG_LOCAL \<noteq> 0)\<rparr>)"

definition error_what :: "svc_error \<Rightarrow> string" where
  "error_what err = (case err of Empty_service_guid \<Rightarrow> ''Empty service GUID'' | Guid_mismatch \<Rightarrow> ''Service registration client/tenant GUID mismatch'')"

definition register_request :: "rt_env \<Rightarrow> (string \<Rightarrow> bool) \<Rightarrow> (byte list \<Rightarrow> service_registration option) \<Rightarrow> topic_handler" where
  "register_request E allowed parse ctx certs rt = (case request_of ctx of None \<Rightarrow> (None, mc_serviceNotFoundEnabled ctx, rt)
     | Some d \<Rightarrow> (case parse (dm_payload (d_msg d)) of None \<Rightarrow> (None, mc_serviceNotFoundEnabled ctx, rt)
         | Some payload \<Rightarrow>
             let S = re_settings E; reg = registration_of_client E ctx certs d payload;
                 answer = (\<lambda>d' rt. (Some False, mc_serviceNotFoundEnabled ctx, sendMessage (replyTo_of d) d' rt));
                 failed = (\<lambda>code text. answer (createErrorResponse (st_guid S) (ss_tenantGuid S) (re_uuid E) code text d))
             in if \<not> ss_multiTenant S \<or> isSourceOps ctx \<or> allowed (sv_clientTenantGuid reg) then
                  (case registerService S (re_now E) reg (rt_services rt) of
                     Inr r \<Rightarrow> answer (createResponse (st_guid S) (ss_tenantGuid S) (re_uuid E) d) (rt\<lparr>rt_services := r\<rparr>)
                   | Inl err \<Rightarrow> failed FABRICSERVICEUNAVAILABLE (error_what err) rt)
                else failed FABRICSERVICELIMITEXCEEDED (error_text FABRICSERVICELIMITEXCEEDED) rt))"

definition unregister_request :: "rt_env \<Rightarrow> (byte list \<Rightarrow> string option) \<Rightarrow> topic_handler" where
  "unregister_request E parse ctx certs rt = (case request_of ctx of None \<Rightarrow> (None, mc_serviceNotFoundEnabled ctx, rt)
     | Some d \<Rightarrow> (case parse (dm_payload (d_msg d)) of None \<Rightarrow> (None, mc_serviceNotFoundEnabled ctx, rt)
         | Some guid \<Rightarrow>
             let S = re_settings E;
                 r = unregisterService_client S guid (client_of E ctx) (dm_sourceTenantGuid (d_msg d)) True (rt_services rt)
             in (Some False, mc_serviceNotFoundEnabled ctx,
                 sendMessage (replyTo_of d) (createResponse (st_guid S) (ss_tenantGuid S) (re_uuid E) d) (rt\<lparr>rt_services := r\<rparr>))))"

definition register_event :: "rt_env \<Rightarrow> (byte list \<Rightarrow> service_registration option) \<Rightarrow> topic_handler" where
  "register_event E parse ctx certs rt =
     (if isLocalBrokerSource (re_settings E) ctx then (Some True, mc_serviceNotFoundEnabled ctx, rt)
      else case event_of ctx of None \<Rightarrow> (None, mc_serviceNotFoundEnabled ctx, rt)
        | Some d \<Rightarrow> (case parse (dm_payload (d_msg d)) of None \<Rightarrow> (None, mc_serviceNotFoundEnabled ctx, rt)
            | Some reg \<Rightarrow> (case registerService (re_settings E) (re_now E) reg (rt_services rt) of
                Inr r \<Rightarrow> (Some True, mc_serviceNotFoundEnabled ctx, rt\<lparr>rt_services := r\<rparr>)
              | Inl _ \<Rightarrow> (Some False, mc_serviceNotFoundEnabled ctx, rt))))"

definition unregister_event :: "rt_env \<Rightarrow> (byte list \<Rightarrow> string option) \<Rightarrow> topic_handler" where
  "unregister_event E parse ctx certs rt =
     (if isLocalBrokerSource (re_settings E) ctx then (Some True, mc_serviceNotFoundEnabled ctx, rt)
      else case event_of ctx of None \<Rightarrow> (None, mc_serviceNotFoundEnabled ctx, rt)
        | Some d \<Rightarrow> (case parse (dm_payload (d_msg d)) of None \<Rightarrow> (None, mc_serviceNotFoundEnabled ctx, rt)
            | Some guid \<Rightarrow> (Some True, mc_serviceNotFoundEnabled ctx, rt\<lparr>rt_services := unregisterService (re_settings E) guid True (rt_services rt)\<rparr>)))"

section \<open>What the handlers leave alone\<close>

definition carries :: "dxl \<Rightarrow> dxl \<Rightarrow> bool" where
  "carries d d' \<longleftrightarrow> dm_sourceTenantGuid (d_msg d') = dm_sourceTenantGuid (d_msg d) \<and> dm_tenantGuids (d_msg d') = dm_tenantGuids (d_msg d) \<and>
     dm_sourceBrokerGuid (d_msg d') = dm_sourceBrokerGuid (d_msg d) \<and> dm_sourceClientId (d_msg d') = dm_sourceClientId (d_msg d) \<and>
     dm_sourceClientInstanceId (d_msg d') = dm_sourceClientInstanceId (d_msg d) \<and>
     dm_messageId (d_msg d') = dm_messageId (d_msg d) \<and> dm_otherFields (d_msg d') = dm_otherFields (d_msg d) \<and> replyTo_of d' = replyTo_of d \<and>
     isRequest d' = isRequest d \<and> d_others d' = d_others d \<and> d_othersPending d' = d_othersPending d \<and> (d_dirty d \<longrightarrow> d_dirty d') \<and>
     (message_ok (d_msg d) \<longrightarrow> message_ok (d_msg d'))"

lemma carries_refl [simp]: "carries d d"
  by (simp add: carries_def)

lemma carries_trans: "carries a b \<Longrightarrow> carries b c \<Longrightarrow> carries a c"
  by (simp add: carries_def)

lemma carries_service [simp]: "carries d (request_setDestinationServiceId g d)"
  using service_setters_ok(1) [of d g]
  by (auto simp: carries_def request_setDestinationServiceId_def change_def ignoring_def setDxlRequestServiceId_def replyTo_of_def split: dxl_specific.splits)

lemma carries_destination [simp]: "carries d (setDestinationClientGuid g d)" "carries d (setDestinationBrokerGuid g d)"
  using setters_ok(5,6) [of d g] by (auto simp: carries_def setDestinationClientGuid_def setDestinationBrokerGuid_def change_def replyTo_of_def)

lemma carries_route [simp]: "carries d (route_to reg d)"
  unfolding route_to_def by (blast intro: carries_trans carries_service carries_destination)

lemma handleRequest_keeps: "handleRequest E topic d rt = (ok, d', rt') \<Longrightarrow> carries d d'"
  by (auto simp: handleRequest_def Let_def split: if_splits option.splits prod.splits intro: carries_trans [OF carries_service carries_route])

text \<open>A context after the handlers: only the message, the switch and the report have changed.\<close>

definition same_source :: "msg_context \<Rightarrow> msg_context \<Rightarrow> bool" where
  "same_source ctx ctx' \<longleftrightarrow> mc_flags ctx' = mc_flags ctx \<and> mc_topic ctx' = mc_topic ctx \<and> mc_isSourceBridge ctx' = mc_isSourceBridge ctx \<and>
     mc_destCount ctx' = mc_destCount ctx \<and> mc_clientSpecific ctx' = mc_clientSpecific ctx"

lemma same_source_refl [simp]: "same_source ctx ctx" "same_source ctx (disable ctx)" "same_source ctx (ctx\<lparr>mc_message := m\<rparr>)"
  "same_source ctx (ctx\<lparr>mc_serviceNotFoundEnabled := b\<rparr>)" "same_source ctx (disable (ctx\<lparr>mc_serviceNotFoundEnabled := b\<rparr>))"
  by (simp_all add: same_source_def disable_def)

lemma same_source_trans: "same_source a b \<Longrightarrow> same_source b c \<Longrightarrow> same_source a c"
  by (simp add: same_source_def)

lemma lookup_keeps:
  assumes "lookup_onStoreMessage E ctx rt = (ok, ctx', rt')"
  shows "same_source ctx ctx' \<and> mc_insertEnabled ctx' = mc_insertEnabled ctx \<and> mc_serviceNotFoundEnabled ctx' = mc_serviceNotFoundEnabled ctx \<and>
    (case mc_message ctx of None \<Rightarrow> mc_message ctx' = None | Some d \<Rightarrow> \<exists>d'. mc_message ctx' = Some d' \<and> carries d d')"
  using assms by (auto simp: lookup_onStoreMessage_def split: option.splits if_splits prod.splits dest: handleRequest_keeps)

lemma fire_keeps:
  assumes "fire_topic_handler E H certs ctx rt = (go, ctx', rt')"
  shows "same_source ctx ctx' \<and> mc_message ctx' = mc_message ctx \<and> (mc_insertEnabled ctx' \<longrightarrow> mc_insertEnabled ctx \<and> go)"
  using assms by (auto simp: fire_topic_handler_def Let_def disable_def same_source_def split: option.splits if_splits prod.splits)

lemma store_handlers_message:
  assumes s: "store_handlers E H certs ctx rt = (ctx', rt', out)" and m: "mc_message ctx = Some d"
  shows "same_source ctx ctx' \<and>
    (\<exists>d1. carries d d1 \<and> (out = None \<and> mc_message ctx' = Some d1 \<and> (mc_insertEnabled ctx' \<longrightarrow> \<not> d_dirty d1) \<or>
           out = Some (fst (toBytes False d1)) \<and> mc_message ctx' = Some (onPreToBytes d1)))"
proof -
  obtain ok ctx1 rt1 where l: "lookup_onStoreMessage E ctx rt = (ok, ctx1, rt1)" by (metis prod_cases3)
  define c where "c = (if ok then ctx1 else disable ctx1)"
  obtain go ctx2 rt2 where f: "fire_topic_handler E H certs c rt1 = (go, ctx2, rt2)" by (metis prod_cases3)
  obtain d1 where d1: "mc_message ctx1 = Some d1" "carries d d1" using lookup_keeps [OF l] m by auto
  have c: "same_source ctx c" "mc_message c = Some d1" using lookup_keeps [OF l] d1 by (auto simp: c_def disable_def same_source_def)
  then have c2: "same_source ctx ctx2" "mc_message ctx2 = Some d1" using fire_keeps [OF f] by (auto intro: same_source_trans)
  have e: "store_handlers E H certs ctx rt =
      (if go then if d_dirty d1 then (ctx2\<lparr>mc_message := Some (onPreToBytes d1)\<rparr>, rt2, Some (fst (toBytes False d1))) else (ctx2, rt2, None)
       else (ctx2, rt2, None))"
    using f c2(2) by (simp add: store_handlers_def l c_def [symmetric] toBytes_def Let_def split: bool.split)
  show ?thesis
  proof (cases "go \<and> d_dirty d1")
    case True
    then have "ctx' = ctx2\<lparr>mc_message := Some (onPreToBytes d1)\<rparr>" "out = Some (fst (toBytes False d1))" using e s by simp_all
    then show ?thesis using c2(1) d1(2) by (auto simp: same_source_def)
  next
    case False
    then have x: "ctx' = ctx2" "out = None" using e s by (auto split: if_splits)
    then have "mc_insertEnabled ctx' \<longrightarrow> \<not> d_dirty d1" using fire_keeps [OF f] False by auto
    then show ?thesis using c2 d1(2) x by auto
  qed
qed

lemma store_handlers_none:
  assumes s: "store_handlers E H certs ctx rt = (ctx', rt', out)" and m: "mc_message ctx = None"
  shows "mc_message ctx' = None"
proof -
  obtain ok ctx1 rt1 where l: "lookup_onStoreMessage E ctx rt = (ok, ctx1, rt1)" by (metis prod_cases3)
  obtain go ctx2 rt2 where f: "fire_topic_handler E H certs (if ok then ctx1 else disable ctx1) rt1 = (go, ctx2, rt2)" by (metis prod_cases3)
  have "mc_message ctx2 = None" using lookup_keeps [OF l] fire_keeps [OF f] m by (auto simp: disable_def split: if_splits)
  then show ?thesis using s l f by (auto simp: store_handlers_def split: bool.splits)
qed

section \<open>Tenants\<close>

definition of_tenant :: "string \<Rightarrow> string \<Rightarrow> dxl \<Rightarrow> bool" where
  "of_tenant T A d \<longleftrightarrow> dm_sourceTenantGuid (d_msg d) = A \<and> set (dm_tenantGuids (d_msg d)) \<subseteq> {A, T}"

lemma of_tenant_keeps: "carries d d' \<Longrightarrow> of_tenant T A d' = of_tenant T A d"
  by (simp add: of_tenant_def carries_def)

lemma of_tenant_written [simp]: "of_tenant T A (onPreToBytes d) = of_tenant T A d" "of_tenant T A (new_dxl m) = of_tenant T A (d\<lparr>d_msg := m\<rparr>)"
  using onPreToBytes_cases [of d] by (auto simp: of_tenant_def new_dxl_def)

text \<open>What is offered to a message between its storing and its end: receivers, and the news that the queue of one is full.\<close>

datatype offer = Offer receiver | Queue_full bool

fun offer_all :: "rt_env \<Rightarrow> 64 word \<Rightarrow> offer list \<Rightarrow> routing \<Rightarrow> bool list \<times> routing" where
  "offer_all E dbId [] rt = ([], rt)"
| "offer_all E dbId (Offer v # os) rt =
     (case onInsertMessage E dbId v rt of (go, _, _, rt1) \<Rightarrow> case offer_all E dbId os rt1 of (gs, rt2) \<Rightarrow> (go # gs, rt2))"
| "offer_all E dbId (Queue_full b # os) rt =
     (case onPreInsertPacketQueueExceeded E dbId b rt of (_, rt1) \<Rightarrow> case offer_all E dbId os rt1 of (gs, rt2) \<Rightarrow> (False # gs, rt2))"

text \<open>The context of a message while it is offered.\<close>

definition later :: "msg_context \<Rightarrow> msg_context \<Rightarrow> bool" where
  "later ctx ctx' \<longleftrightarrow> mc_insertEnabled ctx' = mc_insertEnabled ctx \<and> mc_flags ctx' = mc_flags ctx \<and> mc_topic ctx' = mc_topic ctx \<and>
     (case mc_message ctx of None \<Rightarrow> mc_message ctx' = None
      | Some d \<Rightarrow> \<exists>d'. mc_message ctx' = Some d' \<and> dm_specific (d_msg d') = dm_specific (d_msg d) \<and> dm_messageId (d_msg d') = dm_messageId (d_msg d) \<and>
          (message_ok (d_msg d) \<longrightarrow> message_ok (d_msg d')) \<and> (\<forall>T A. of_tenant T A d' = of_tenant T A d))"

lemma later_refl [simp]: "later ctx ctx" "later ctx (ctx\<lparr>mc_serviceNotFoundEnabled := b\<rparr>)"
  by (simp_all add: later_def split: option.split)

lemma later_trans: "later a b \<Longrightarrow> later b c \<Longrightarrow> later a c"
  by (fastforce simp: later_def split: option.splits)

lemma later_destCount [simp]: "later a (b\<lparr>mc_destCount := n\<rparr>) = later a b"
  by (cases "mc_message a") (simp_all add: later_def)

lemma routing_keeps:
  assumes "routing_onInsertMessage E ctx v R = (go, strip, bytes, ctx', R')"
  shows "later ctx ctx' \<and> mc_destCount ctx' = mc_destCount ctx \<and> mc_serviceNotFoundEnabled ctx' = mc_serviceNotFoundEnabled ctx"
proof -
  have n: "dm_specific (d_msg d') = dm_specific (d_msg d) \<and> dm_messageId (d_msg d') = dm_messageId (d_msg d) \<and> (message_ok (d_msg d) \<longrightarrow> message_ok (d_msg d')) \<and> (\<forall>T A. of_tenant T A d' = of_tenant T A d)"
    if "getNextBrokerGuids me d R = (x, d', R')" for me d R x d' R'
    using that by (auto simp: getNextBrokerGuids_def of_tenant_def split: option.splits if_splits prod.splits)
  have t: "dm_specific (d_msg d') = dm_specific (d_msg d) \<and> dm_messageId (d_msg d') = dm_messageId (d_msg d) \<and> (message_ok (d_msg d) \<longrightarrow> message_ok (d_msg d')) \<and> (\<forall>T A. of_tenant T A d' = of_tenant T A d)"
    if "toBytes b d = (x, d')" for b d x d'
    using that onPreToBytes_cases [of d] onPreToBytes_ok [of d] by (auto simp: toBytes_def Let_def)
  show ?thesis using assms unfolding routing_onInsertMessage_def later_def
    by (auto simp: Let_def split: option.splits if_splits prod.splits dest: n t)
qed

lemma insert_later:
  assumes i: "onInsertMessage E dbId v rt = (go, strip, bytes, rt')" and c: "map_of (rt_contexts rt) dbId = Some ctx"
  shows "rt_sent rt' = rt_sent rt \<and> (\<exists>ctx'. map_of (rt_contexts rt') dbId = Some ctx' \<and> later ctx ctx' \<and> mc_destCount ctx' = mc_destCount ctx + (if go then 1 else 0) \<and>
    mc_serviceNotFoundEnabled ctx' = mc_serviceNotFoundEnabled ctx)"
proof -
  obtain go1 strip1 bytes1 ctx1 R1 where r: "routing_onInsertMessage E ctx v (rt_brokers rt) = (go1, strip1, bytes1, ctx1, R1)" by (metis prod_cases5)
  show ?thesis using routing_keeps [OF r] i c r by (auto simp: onInsertMessage_def AList_look Let_def split: if_splits)
qed

lemma queue_full_later:
  assumes "onPreInsertPacketQueueExceeded E dbId b rt = (x, rt')" and "map_of (rt_contexts rt) dbId = Some ctx"
  shows "\<exists>ctx'. map_of (rt_contexts rt') dbId = Some ctx' \<and> later ctx ctx' \<and> mc_destCount ctx' = mc_destCount ctx \<and>
    (rt_sent rt' = rt_sent rt \<and> mc_serviceNotFoundEnabled ctx' = mc_serviceNotFoundEnabled ctx \<or>
     (\<exists>d. mc_message ctx = Some d \<and> isRequest d \<and> rt_sent rt' = rt_sent (sendErrorMessage E FABRICSERVICEOVERLOADED d rt)))"
  using assms
  by (auto simp: onPreInsertPacketQueueExceeded_def sendErrorMessage_def sendMessage_def AList_look split: option.splits if_splits)

text \<open>Who gets a message, gets it in a context that goes back to the one that was stored.\<close>

lemma offers_later:
  assumes "offer_all E dbId os rt = (gs, rt')" and "map_of (rt_contexts rt) dbId = Some ctx"
  shows "length gs = length os \<and>
    (\<forall>i < length os. gs ! i \<longrightarrow> (\<exists>v rti ctxi strip bytes rt2. os ! i = Offer v \<and> map_of (rt_contexts rti) dbId = Some ctxi \<and> later ctx ctxi \<and>
       onInsertMessage E dbId v rti = (True, strip, bytes, rt2)))"
  using assms
proof (induction os arbitrary: gs rt ctx)
  case Nil
  then show ?case by simp
next
  case (Cons x os)
  obtain g rt1 gs1 ctx1 where x: "gs = g # gs1" "offer_all E dbId os rt1 = (gs1, rt')" "map_of (rt_contexts rt1) dbId = Some ctx1" "later ctx ctx1"
      "g \<Longrightarrow> \<exists>v strip bytes. x = Offer v \<and> onInsertMessage E dbId v rt = (True, strip, bytes, rt1)"
  proof (cases x)
    case (Offer v)
    obtain go strip bytes rt1 where i: "onInsertMessage E dbId v rt = (go, strip, bytes, rt1)" by (metis prod_cases4)
    then show ?thesis using that Cons.prems(1) insert_later [OF i Cons.prems(2)] Offer by (fastforce split: prod.splits)
  next
    case (Queue_full b)
    obtain y rt1 where q: "onPreInsertPacketQueueExceeded E dbId b rt = (y, rt1)" by (metis surj_pair)
    then show ?thesis using that Cons.prems(1) queue_full_later [OF q Cons.prems(2)] Queue_full by (fastforce split: prod.splits)
  qed
  note ih = Cons.IH [OF x(2,3)]
  have "\<exists>v rti ctxi strip bytes rt2. (x # os) ! i = Offer v \<and> map_of (rt_contexts rti) dbId = Some ctxi \<and> later ctx ctxi \<and>
       onInsertMessage E dbId v rti = (True, strip, bytes, rt2)" if i: "i < length (x # os)" "gs ! i" for i
  proof (cases i)
    case 0
    then show ?thesis using i x(1,5) Cons.prems(2) later_refl(1) by fastforce
  next
    case (Suc j)
    then show ?thesis using i x(1) ih later_trans [OF x(4)] by fastforce
  qed
  then show ?case using ih x(1) by simp
qed

text \<open>A message of the tenant, or one that nobody gets.\<close>

definition tenant_context :: "string \<Rightarrow> string \<Rightarrow> msg_context \<Rightarrow> bool" where
  "tenant_context T A ctx \<longleftrightarrow> \<not> mc_insertEnabled ctx \<or> (case mc_message ctx of None \<Rightarrow> True | Some d \<Rightarrow> of_tenant T A d \<and> \<not> isSourceOps ctx)"

lemma tenant_later: "later ctx ctx' \<Longrightarrow> tenant_context T A ctx \<Longrightarrow> tenant_context T A ctx'"
  by (auto simp: later_def tenant_context_def isSourceOps_def split: option.splits)

lemma insert_tenant:
  assumes i: "onInsertMessage E dbId v rt = (True, strip, bytes, rt')" and mt: "ss_multiTenant (re_settings E)"
    and c: "map_of (rt_contexts rt) dbId = Some ctx" and t: "tenant_context T A ctx"
  shows "mc_insertEnabled ctx \<and> mc_message ctx \<noteq> None \<and> (\<not> rv_isBridge v \<longrightarrow> rv_tenant v = A \<or> rv_tenant v = T \<or> rv_flags v AND DXL_FLAG_OPS \<noteq> 0)"
proof -
  obtain go1 strip1 bytes1 ctx1 R1 where r: "routing_onInsertMessage E ctx v (rt_brokers rt) = (go1, strip1, bytes1, ctx1, R1)" by (metis prod_cases5)
  have e: "mc_insertEnabled ctx" "go1" using i c r by (auto simp: onInsertMessage_def Let_def split: if_splits)
  have n: "mc_message ctx \<noteq> None" using r e(2) mt by (cases "mc_message ctx") (simp_all add: routing_onInsertMessage_def)
  then obtain d where d: "mc_message ctx = Some d" by blast
  have "onInsertMultiTenantMessage d (rv_flags v) ctx (rv_tenant v)" if "\<not> rv_isBridge v"
    using r e(2) d mt that by (auto simp: routing_onInsertMessage_def Let_def split: if_splits)
  moreover have "of_tenant T A d" "\<not> isSourceOps ctx" using t d e(1) by (simp_all add: tenant_context_def)
  ultimately have "\<not> rv_isBridge v \<longrightarrow> rv_tenant v = A \<or> rv_tenant v = T \<or> rv_flags v AND DXL_FLAG_OPS \<noteq> 0"
    by (auto simp: onInsertMultiTenantMessage_def of_tenant_def Let_def split: if_splits)
  then show ?thesis using e(1) n by blast
qed

lemma fields_tenant:
  assumes f: "setDxlMessageFields E B chain ctx d = (Some go, ctx', d')" and mt: "ss_multiTenant (re_settings E)" and T: "ss_tenantGuid (re_settings E) = T" "A \<noteq> T"
    and ops: "\<not> isSourceOps ctx" and A: "c_string A" and client: "\<not> mc_isSourceBridge ctx \<Longrightarrow> B = A" and bridge: "mc_isSourceBridge ctx \<Longrightarrow> of_tenant T A d"
    and ok: "message_ok (d_msg d)"
  shows "go \<longrightarrow> of_tenant T A d' \<and> \<not> isSourceOps ctx' \<and> message_ok (d_msg d') \<and> (mc_isSourceBridge ctx \<longrightarrow> d' = d) \<and> (\<not> mc_isSourceBridge ctx \<longrightarrow> d_dirty d')"
proof (cases "mc_isSourceBridge ctx")
  case True
  then have "dm_sourceTenantGuid (d_msg d) \<noteq> T" using bridge T(2) by (simp add: of_tenant_def)
  then show ?thesis using f mt T(1) ops True bridge ok by (auto simp: setDxlMessageFields_def Let_def split: if_splits)
next
  case False
  let ?d = "setOtherField ''dxl.certs'' (case chain of None \<Rightarrow> '''' | Some c \<Rightarrow> strdup c)
      (setSourceClientInstanceId (mc_sourceId ctx) (setSourceClientId (mc_canonicalSourceId ctx) (setSourceBrokerGuid (st_guid (re_settings E)) d)))"
  have r: "ctx' = ctx \<and> d' = setSourceTenantGuid A ?d \<and> (go \<longrightarrow> dm_tenantGuids (d_msg d') = [] \<or> set (dm_tenantGuids (d_msg d')) \<subseteq> {A, T})"
    using f mt T(1) ops False client by (auto simp: setDxlMessageFields_def Let_def split: if_splits)
  have "dm_sourceTenantGuid (d_msg (setSourceTenantGuid A ?d)) = A" "d_dirty (setSourceTenantGuid A ?d)" using A by (simp_all add: setSourceTenantGuid_def change_def)
  moreover have "message_ok (d_msg (setSourceTenantGuid A ?d))" using ok by simp
  ultimately show ?thesis using r ops False by (auto simp: of_tenant_def)
qed

text \<open>After a message is stored: it is of the tenant, and so is what is passed on.\<close>

lemma store_tenant:
  assumes s: "store_context E H B certs chain ctx rt = (ctx', rt', out)" and mt: "ss_multiTenant (re_settings E)" and T: "ss_tenantGuid (re_settings E) = T" "A \<noteq> T"
    and ops: "\<not> isSourceOps ctx" and A: "c_string A" and client: "\<not> mc_isSourceBridge ctx \<Longrightarrow> B = A"
    and bridge: "mc_isSourceBridge ctx \<Longrightarrow> mc_message ctx \<noteq> None \<longrightarrow> of_tenant T A (the (mc_message ctx))" and m: "mc_message ctx = fromBytes payload"
  shows "tenant_context T A ctx' \<and> (mc_insertEnabled ctx' \<and> mc_message ctx' \<noteq> None \<longrightarrow>
    (\<exists>d. fromBytes (case out of Some b \<Rightarrow> b | None \<Rightarrow> payload) = Some d \<and> of_tenant T A d))"
proof (cases "fromBytes payload")
  case None
  then have "mc_message ctx' = None" using s m store_handlers_none by (auto simp: store_context_def)
  then show ?thesis by (simp add: tenant_context_def)
next
  case (Some d)
  then have md: "mc_message ctx = Some d" and ok: "message_ok (d_msg d)" "\<not> d_dirty d" using m fromBytes_ok [of payload d] by simp_all
  show ?thesis
  proof (cases "mc_insertEnabled ctx'")
    case False
    then show ?thesis by (simp add: tenant_context_def)
  next
    case True
    obtain ctx1 d1 where f: "setDxlMessageFields E B chain ctx d = (Some True, ctx1, d1)" and h: "store_handlers E H certs (ctx1\<lparr>mc_message := Some d1\<rparr>) rt = (ctx', rt', out)"
      using s True md by (auto simp: store_context_def disable_def Let_def split: if_splits option.splits prod.splits bool.splits)
    have t: "of_tenant T A d1" "\<not> isSourceOps ctx1" "message_ok (d_msg d1)" "mc_isSourceBridge ctx \<longrightarrow> d1 = d" "\<not> mc_isSourceBridge ctx \<longrightarrow> d_dirty d1"
      using fields_tenant [OF f mt T ops A client _ ok(1)] bridge md by auto
    obtain d2 where k: "carries d1 d2" and o: "out = None \<and> mc_message ctx' = Some d2 \<and> \<not> d_dirty d2 \<or> out = Some (fst (toBytes False d2)) \<and> mc_message ctx' = Some (onPreToBytes d2)"
        and src: "mc_flags ctx' = mc_flags ctx1"
      using store_handlers_message [OF h] True by (auto simp: same_source_def)
    have t2: "of_tenant T A d2" "message_ok (d_msg d2)" using t k of_tenant_keeps [OF k] by (auto simp: carries_def)
    have "isSourceOps ctx' = isSourceOps ctx1" using src by (simp add: isSourceOps_def)
    then have c: "tenant_context T A ctx'" using o t2(1) t(2) by (auto simp: tenant_context_def)
    show ?thesis
    proof (cases out)
      case None
      then have "\<not> d_dirty d2" using o by simp
      then have "mc_isSourceBridge ctx" using t(5) k by (auto simp: carries_def)
      then show ?thesis using c None Some t(1,4) by simp
    next
      case (Some b)
      then have "fromBytes b = Some (new_dxl (d_msg (onPreToBytes d2)))" using o fromBytes_toBytes [OF t2(2)] by simp
      moreover have "of_tenant T A (new_dxl (d_msg (onPreToBytes d2)))" using t2(1) onPreToBytes_cases [of d2] by (auto simp: of_tenant_def new_dxl_def)
      ultimately show ?thesis using c Some by simp
    qed
  qed
qed

text \<open>C16. Tenants are isolated. Take a message of a tenant other than the operator's: published by one of its clients, whatever fields the client has put into it, or come over
  a bridge with that tenant as its source and addressed to no third tenant. Then a client gets it only if it belongs to the same tenant, to the operator's,
  or is an operator connection, whatever the handlers for its topic do; and what is passed on, over bridges too, is again such a message, so that
  the same holds at every broker on its way.\<close>

theorem tenants_are_isolated:
  assumes mt: "ss_multiTenant (re_settings E)" "ss_tenantGuid (re_settings E) = T" "A \<noteq> T" and A: "c_string A" and flags: "flags AND DXL_FLAG_OPS = 0"
    and client: "\<not> isBridge \<Longrightarrow> B = A" and bridge: "isBridge \<Longrightarrow> \<forall>d. fromBytes payload = Some d \<longrightarrow> of_tenant T A d"
    and store: "onStoreMessage E H dbId B certs chain (new_context sourceId canonicalId isBridge flags topic payload) rt = (rt1, out)"
    and offers: "offer_all E dbId os rt1 = (gs, rt2)" and i: "i < length os" "gs ! i" "os ! i = Offer v"
  shows "(rv_isBridge v \<or> rv_tenant v = A \<or> rv_tenant v = T \<or> rv_flags v AND DXL_FLAG_OPS \<noteq> 0) \<and>
    (\<exists>d. fromBytes (case out of Some b \<Rightarrow> b | None \<Rightarrow> payload) = Some d \<and> of_tenant T A d)"
proof -
  let ?ctx = "new_context sourceId canonicalId isBridge flags topic payload"
  obtain ctx' rt' where s: "store_context E H B certs chain ?ctx rt = (ctx', rt', out)" and rt1: "rt1 = rt'\<lparr>rt_contexts := AList.update dbId ctx' (rt_contexts rt')\<rparr>"
    using store by (auto simp: onStoreMessage_def split: prod.splits)
  have n: "\<not> isSourceOps ?ctx" "mc_isSourceBridge ?ctx = isBridge" "mc_message ?ctx = fromBytes payload" using flags by (simp_all add: isSourceOps_def new_context_def)
  have t: "tenant_context T A ctx'" and out: "mc_insertEnabled ctx' \<and> mc_message ctx' \<noteq> None \<longrightarrow>
      (\<exists>d. fromBytes (case out of Some b \<Rightarrow> b | None \<Rightarrow> payload) = Some d \<and> of_tenant T A d)"
    using store_tenant [OF s mt n(1) A, of payload] client bridge n(2,3) by auto
  have c: "map_of (rt_contexts rt1) dbId = Some ctx'" by (simp add: rt1 AList_look)
  obtain rti ctxi strip bytes rt3 where x: "map_of (rt_contexts rti) dbId = Some ctxi" "later ctx' ctxi" "onInsertMessage E dbId v rti = (True, strip, bytes, rt3)"
    using offers_later [OF offers c] i by fastforce
  have "mc_insertEnabled ctxi \<and> mc_message ctxi \<noteq> None \<and> (\<not> rv_isBridge v \<longrightarrow> rv_tenant v = A \<or> rv_tenant v = T \<or> rv_flags v AND DXL_FLAG_OPS \<noteq> 0)"
    by (rule insert_tenant [OF x(3) mt(1) x(1) tenant_later [OF x(2) t]])
  moreover from this have "mc_insertEnabled ctx' \<and> mc_message ctx' \<noteq> None" using x(2) by (cases "mc_message ctx'") (auto simp: later_def)
  ultimately show ?thesis using out by blast
qed

section \<open>Requests\<close>

text \<open>An error response to the request with the given id.\<close>

definition error_for :: "string \<Rightarrow> mp_object list \<Rightarrow> bool" where
  "error_for messageId bytes \<longleftrightarrow> (\<exists>e service code text. fromBytes bytes = Some e \<and> dm_specific (d_msg e) = Error_data messageId service code text \<and>
     code \<in> {FABRICSERVICEUNAVAILABLE, FABRICSERVICEOVERLOADED})"

definition answered :: "string \<Rightarrow> string \<Rightarrow> routing \<Rightarrow> routing \<Rightarrow> bool" where
  "answered replyTo messageId rt rt' \<longleftrightarrow> (\<exists>xs bytes. rt_sent rt' = rt_sent rt @ xs \<and> (replyTo, bytes) \<in> set xs \<and> error_for messageId bytes)"

definition sends_more :: "routing \<Rightarrow> routing \<Rightarrow> bool" where
  "sends_more rt rt' \<longleftrightarrow> (\<exists>xs. rt_sent rt' = rt_sent rt @ xs)"

lemma sends_more_same: "rt_sent rt' = rt_sent rt \<Longrightarrow> sends_more rt rt'"
  by (simp add: sends_more_def)

lemma answered_later: "answered k m a b \<Longrightarrow> sends_more b c \<Longrightarrow> answered k m a c"
  by (fastforce simp: answered_def sends_more_def)

lemma later_answered: "sends_more a b \<Longrightarrow> answered k m b c \<Longrightarrow> answered k m a c"
  by (fastforce simp: answered_def sends_more_def)

lemma answered_more: "answered k m a b \<Longrightarrow> sends_more a b"
  by (auto simp: answered_def sends_more_def)

lemma sends_more_trans: "sends_more a b \<Longrightarrow> sends_more b c \<Longrightarrow> sends_more a c"
  by (auto simp: sends_more_def)

lemma answer_to_specific:
  assumes "dm_specific m = Error_data req service code text"
  shows "\<exists>service'. dm_specific (d_msg (answer_to request m)) = Error_data req service' code text" and "\<not> d_othersPending (answer_to request m)"
  using assms
  by (auto simp: answer_to_def Let_def new_dxl_def setDestinationBrokerGuid_def setDestinationClientGuid_def response_setDestinationServiceId_def change_def
      ignoring_def setDxlResponseMessageServiceId_def)

lemma error_sent:
  assumes ok: "message_ok (d_msg d)" and code: "code \<in> {FABRICSERVICEUNAVAILABLE, FABRICSERVICEOVERLOADED}"
  shows "answered (replyTo_of d) (dm_messageId (d_msg d)) rt (sendErrorMessage E code d rt)"
proof -
  let ?m = "ignoring (setDxlErrorResponseMessageAttributes code (error_text code))
       (ignoring (setDxlResponseMessageAttributes (dm_messageId (d_msg d))) (own_message 3 (st_guid (re_settings E)) (ss_tenantGuid (re_settings E)) (re_uuid E)))"
  let ?e = "answer_to d ?m"
  have id: "c_string (dm_messageId (d_msg d))" using ok by (simp add: message_ok_def)
  have m: "dm_specific ?m = Error_data (dm_messageId (d_msg d)) '''' code (strdup (error_text code))" "message_ok ?m"
    using id own_message_ok [of 3 "st_guid (re_settings E)" "ss_tenantGuid (re_settings E)" "re_uuid E"]
    by (simp_all add: ignoring_def setDxlErrorResponseMessageAttributes_def setDxlResponseMessageAttributes_def own_message_def createDxlMessage_def message_ok_def)
  have p: "onPreToBytes ?e = ?e" using answer_to_specific(2) [OF m(1)] by (simp add: onPreToBytes_def)
  have "fromBytes (fst (toBytes False ?e)) = Some (new_dxl (d_msg ?e))" using fromBytes_toBytes [OF answer_to_ok [OF m(2)]] p by simp
  moreover obtain service' where "dm_specific (d_msg (new_dxl (d_msg ?e))) = Error_data (dm_messageId (d_msg d)) service' code (strdup (error_text code))"
    using answer_to_specific(1) [OF m(1), of d] by (auto simp: new_dxl_def)
  ultimately have "error_for (dm_messageId (d_msg d)) (fst (toBytes False ?e))" using code unfolding error_for_def by blast
  moreover have "rt_sent (sendErrorMessage E code d rt) = rt_sent rt @ [(replyTo_of d, fst (toBytes False ?e))]"
    by (simp add: sendErrorMessage_def sendMessage_def createErrorResponse_def)
  ultimately show ?thesis unfolding answered_def by (metis list.set_intros(1))
qed

lemma first_service_sent: "first_service E tenant ts rt = (p, rt') \<Longrightarrow> rt_sent rt' = rt_sent rt"
  by (induction ts arbitrary: rt) (auto simp: Let_def split: prod.splits option.splits)

lemma handleRequest_answers:
  assumes h: "handleRequest E topic d rt = (ok, d', rt')" and m: "message_ok (d_msg d)"
  shows "if ok then rt_sent rt' = rt_sent rt else answered (replyTo_of d) (dm_messageId (d_msg d)) rt rt'"
proof (cases ok)
  case True
  then show ?thesis using h
    by (auto simp: handleRequest_def findServiceForTopic_def Let_def split: if_splits option.splits prod.splits dest: first_service_sent)
next
  case False
  then obtain d1 rt1 where e: "rt' = sendErrorMessage E FABRICSERVICEUNAVAILABLE d1 rt1" "carries d d1" "rt_sent rt1 = rt_sent rt"
    using h by (auto simp: handleRequest_def findServiceForTopic_def Let_def split: if_splits option.splits prod.splits dest: first_service_sent)
  have "message_ok (d_msg d1)" using e(2) m by (simp add: carries_def)
  from error_sent [OF this, of FABRICSERVICEUNAVAILABLE rt1 E]
  have "answered (replyTo_of d1) (dm_messageId (d_msg d1)) rt1 rt'" by (simp add: e(1))
  then have "answered (replyTo_of d) (dm_messageId (d_msg d)) rt1 rt'" using e(2) by (simp add: carries_def)
  then show ?thesis using False later_answered [OF sends_more_same [OF e(3)]] by simp
qed

lemma specific_views: "dm_specific (d_msg d') = dm_specific (d_msg d) \<Longrightarrow> isRequest d' = isRequest d \<and> replyTo_of d' = replyTo_of d"
  by (simp add: replyTo_of_def)

text \<open>While a request is offered: the count is that of the receivers, and a report is only dropped when the sender has been told.\<close>

definition told :: "dxl \<Rightarrow> msg_context \<Rightarrow> msg_context \<Rightarrow> routing \<Rightarrow> routing \<Rightarrow> bool" where
  "told d ctx ctx' rt rt' \<longleftrightarrow> later ctx ctx' \<and> sends_more rt rt' \<and>
     (mc_serviceNotFoundEnabled ctx' = mc_serviceNotFoundEnabled ctx \<or> answered (replyTo_of d) (dm_messageId (d_msg d)) rt rt')"

lemma told_trans:
  assumes a: "told d ctx ctx1 rt rt1" and b: "told d1 ctx1 ctx2 rt1 rt2" and same: "replyTo_of d1 = replyTo_of d" "dm_messageId (d_msg d1) = dm_messageId (d_msg d)"
  shows "told d ctx ctx2 rt rt2"
proof -
  have "later ctx ctx2" "sends_more rt rt2" using a b later_trans sends_more_trans unfolding told_def by blast+
  moreover have "mc_serviceNotFoundEnabled ctx2 = mc_serviceNotFoundEnabled ctx \<or> answered (replyTo_of d) (dm_messageId (d_msg d)) rt rt2"
    using a b same answered_later [of "replyTo_of d" "dm_messageId (d_msg d)" rt rt1 rt2] later_answered [of rt rt1 "replyTo_of d" "dm_messageId (d_msg d)" rt2]
    unfolding told_def by auto
  ultimately show ?thesis by (simp add: told_def)
qed

lemma offers_request:
  assumes "offer_all E dbId os rt = (gs, rt')" and "map_of (rt_contexts rt) dbId = Some ctx" and "mc_message ctx = Some d" and "message_ok (d_msg d)"
  shows "\<exists>ctx'. map_of (rt_contexts rt') dbId = Some ctx' \<and> mc_destCount ctx' = mc_destCount ctx + int (length (filter (\<lambda>g. g) gs)) \<and> told d ctx ctx' rt rt'"
  using assms
proof (induction os arbitrary: gs rt ctx d)
  case Nil
  then show ?case by (auto simp: told_def sends_more_def)
next
  case (Cons x os)
  obtain g rt1 gs1 ctx1 where x: "gs = g # gs1" "offer_all E dbId os rt1 = (gs1, rt')" "map_of (rt_contexts rt1) dbId = Some ctx1" "told d ctx ctx1 rt rt1"
      "mc_destCount ctx1 = mc_destCount ctx + (if g then 1 else 0)"
  proof (cases x)
    case (Offer v)
    obtain go strip bytes rt1 where i: "onInsertMessage E dbId v rt = (go, strip, bytes, rt1)" by (metis prod_cases4)
    obtain gs1 where "gs = go # gs1" "offer_all E dbId os rt1 = (gs1, rt')" using Cons.prems(1) Offer i by (auto split: prod.splits)
    then show ?thesis using that insert_later [OF i Cons.prems(2)] by (auto simp: told_def sends_more_def)
  next
    case (Queue_full b)
    obtain y rt1 where q: "onPreInsertPacketQueueExceeded E dbId b rt = (y, rt1)" by (metis surj_pair)
    obtain gs1 where o: "gs = False # gs1" "offer_all E dbId os rt1 = (gs1, rt')" using Cons.prems(1) Queue_full q by (auto split: prod.splits)
    obtain ctx1 where c: "map_of (rt_contexts rt1) dbId = Some ctx1" "later ctx ctx1" "mc_destCount ctx1 = mc_destCount ctx"
        "rt_sent rt1 = rt_sent rt \<and> mc_serviceNotFoundEnabled ctx1 = mc_serviceNotFoundEnabled ctx \<or> rt_sent rt1 = rt_sent (sendErrorMessage E FABRICSERVICEOVERLOADED d rt)"
      using queue_full_later [OF q Cons.prems(2)] Cons.prems(3) by auto
    have "answered (replyTo_of d) (dm_messageId (d_msg d)) rt (sendErrorMessage E FABRICSERVICEOVERLOADED d rt)" by (rule error_sent [OF Cons.prems(4)]) simp
    then have t: "told d ctx ctx1 rt rt1" using c(2,4) answered_more by (auto simp: told_def sends_more_def answered_def)
    have "mc_destCount ctx1 = mc_destCount ctx + (if False then 1 else 0)" using c(3) by simp
    then show ?thesis by (rule that [OF o c(1) t])
  qed
  obtain d1 where d1: "mc_message ctx1 = Some d1" "dm_specific (d_msg d1) = dm_specific (d_msg d)" "dm_messageId (d_msg d1) = dm_messageId (d_msg d)" "message_ok (d_msg d1)"
    using x(4) Cons.prems(3,4) by (auto simp: told_def later_def)
  obtain ctx' where c: "map_of (rt_contexts rt') dbId = Some ctx'" "mc_destCount ctx' = mc_destCount ctx1 + int (length (filter (\<lambda>g. g) gs1))" "told d1 ctx1 ctx' rt1 rt'"
    using Cons.IH [OF x(2,3) d1(1,4)] by blast
  have "told d ctx ctx' rt rt'" using told_trans [OF x(4) c(3)] specific_views [OF d1(2)] d1(3) by blast
  then show ?case using c(1,2) x(1,5) by auto
qed

definition client_source :: "rt_env \<Rightarrow> string option \<Rightarrow> msg_context \<Rightarrow> dxl \<Rightarrow> dxl" where
  "client_source E chain ctx d = setOtherField ''dxl.certs'' (case chain of None \<Rightarrow> '''' | Some c \<Rightarrow> strdup c)
     (setSourceClientInstanceId (mc_sourceId ctx) (setSourceClientId (mc_canonicalSourceId ctx) (setSourceBrokerGuid (st_guid (re_settings E)) d)))"

lemma fields_client:
  assumes "\<not> mc_isSourceBridge ctx" and "ss_multiTenant (re_settings E) \<Longrightarrow> dm_tenantGuids (d_msg d) = []"
  shows "setDxlMessageFields E B chain ctx d = (Some True, ctx, if ss_multiTenant (re_settings E) then setSourceTenantGuid B (client_source E chain ctx d)
     else if dm_sourceTenantGuid (d_msg d) \<noteq> '''' then setSourceTenantGuid '''' (client_source E chain ctx d) else client_source E chain ctx d)"
proof (cases "ss_multiTenant (re_settings E)")
  case True
  then have "dm_tenantGuids (d_msg (setSourceTenantGuid B (client_source E chain ctx d))) = []" using assms(2)
    by (simp add: client_source_def setSourceTenantGuid_def setSourceClientInstanceId_def setSourceClientId_def setSourceBrokerGuid_def change_def)
  then show ?thesis using True assms(1) by (simp add: setDxlMessageFields_def client_source_def [symmetric])
next
  case False
  then show ?thesis using assms(1) by (simp add: setDxlMessageFields_def client_source_def)
qed

lemma client_source_keeps: "dm_specific (d_msg (client_source E chain ctx d)) = dm_specific (d_msg d)" "dm_messageId (d_msg (client_source E chain ctx d)) = dm_messageId (d_msg d)"
  "message_ok (d_msg d) \<Longrightarrow> message_ok (d_msg (client_source E chain ctx d))"
  by (simp_all add: client_source_def setSourceClientInstanceId_def setSourceClientId_def setSourceBrokerGuid_def change_def message_ok_def)

lemma source_tenant_keeps: "dm_specific (d_msg (setSourceTenantGuid B d)) = dm_specific (d_msg d)" "dm_messageId (d_msg (setSourceTenantGuid B d)) = dm_messageId (d_msg d)"
  by (simp_all add: setSourceTenantGuid_def change_def)

text \<open>Storing a request of a client.\<close>

lemma store_request:
  assumes s: "store_context E H B certs chain ctx rt = (ctx', rt', out)" and m: "mc_message ctx = Some d" "isRequest d" "message_ok (d_msg d)"
    and src: "\<not> mc_isSourceBridge ctx" "\<not> bad_reply (replyTo_of d)" "mc_insertEnabled ctx" "ss_multiTenant (re_settings E) \<Longrightarrow> dm_tenantGuids (d_msg d) = []"
    and topic: "\<not> isDxlBrokerServiceRequest ctx" "\<not> prefixed ''/mcafee/event/dxl/'' (mc_topic ctx)" "H (mc_topic ctx) = None"
  shows "answered (replyTo_of d) (dm_messageId (d_msg d)) rt rt' \<or>
    rt_sent rt' = rt_sent rt \<and> mc_insertEnabled ctx' \<and> mc_destCount ctx' = mc_destCount ctx \<and> mc_serviceNotFoundEnabled ctx' = mc_serviceNotFoundEnabled ctx \<and>
      (\<exists>d'. mc_message ctx' = Some d' \<and> message_ok (d_msg d') \<and> isRequest d' \<and> replyTo_of d' = replyTo_of d \<and> dm_messageId (d_msg d') = dm_messageId (d_msg d))"
proof -
  obtain d1 where f: "setDxlMessageFields E B chain ctx d = (Some True, ctx, d1)" and k: "dm_specific (d_msg d1) = dm_specific (d_msg d)"
      "dm_messageId (d_msg d1) = dm_messageId (d_msg d)" "message_ok (d_msg d1)"
    using fields_client [of ctx E d B chain, OF src(1,4)] m(3) by (auto simp: client_source_keeps source_tenant_keeps)
  let ?ctx = "ctx\<lparr>mc_message := Some d1\<rparr>"
  have v: "isRequest d1" "replyTo_of d1 = replyTo_of d" using specific_views [OF k(1)] m(2) by blast+
  have s1: "store_handlers E H certs ?ctx rt = (ctx', rt', out)" using s m(1) src(1,2) f by (simp add: store_context_def)
  obtain ok d2 rt2 where h: "handleRequest E (mc_topic ctx) d1 rt = (ok, d2, rt2)" by (metis prod_cases3)
  have l: "lookup_onStoreMessage E ?ctx rt = (ok, ?ctx\<lparr>mc_message := Some d2\<rparr>, rt2)"
    using h v(1) topic(1) by (simp add: lookup_onStoreMessage_def isDxlBrokerServiceRequest_def del: isRequest.simps)
  note a = handleRequest_answers [OF h k(3)] and kk = handleRequest_keeps [OF h]
  have fire: "fire_topic_handler E H certs c rt2 = (True, c, rt2)" if "mc_topic c = mc_topic ctx" for c
    using topic(2,3) that by (simp add: fire_topic_handler_def)
  show ?thesis
  proof (cases ok)
    case False
    have "rt' = rt2" using s1 False l fire [of "disable (ctx\<lparr>mc_message := Some d2\<rparr>)"]
      by (auto simp: store_handlers_def disable_def toBytes_def Let_def split: if_splits)
    then show ?thesis using a False v(2) k(2) by simp
  next
    case True
    have d2: "message_ok (d_msg d2)" "isRequest d2" "replyTo_of d2 = replyTo_of d" "dm_messageId (d_msg d2) = dm_messageId (d_msg d)"
      using kk k(2,3) v by (simp_all add: carries_def del: isRequest.simps)
    have p: "message_ok (d_msg (onPreToBytes d2))" "isRequest (onPreToBytes d2)" "replyTo_of (onPreToBytes d2) = replyTo_of d" "dm_messageId (d_msg (onPreToBytes d2)) = dm_messageId (d_msg d)"
      using d2 onPreToBytes_ok [OF d2(1)] onPreToBytes_cases [of d2] by (auto simp: replyTo_of_def)
    have e: "ctx' = (if d_dirty d2 then ctx\<lparr>mc_message := Some (onPreToBytes d2)\<rparr> else ctx\<lparr>mc_message := Some d2\<rparr>) \<and> rt' = rt2"
      using s1 True l fire [of "ctx\<lparr>mc_message := Some d2\<rparr>"] by (auto simp: store_handlers_def toBytes_def Let_def split: if_splits)
    have "rt_sent rt' = rt_sent rt" using a True e by simp
    then show ?thesis using e d2 p src(3) by (cases "d_dirty d2") (simp_all del: isRequest.simps)
  qed
qed

lemma offers_send_more: "offer_all E dbId os rt = (gs, rt') \<Longrightarrow> sends_more rt rt'"
proof (induction os arbitrary: gs rt)
  case Nil
  then show ?case by (simp add: sends_more_def)
next
  case (Cons x os)
  obtain rt1 gs1 where x: "offer_all E dbId os rt1 = (gs1, rt')" "sends_more rt rt1"
  proof (cases x)
    case (Offer v)
    obtain go strip bytes rt1 where i: "onInsertMessage E dbId v rt = (go, strip, bytes, rt1)" by (metis prod_cases4)
    then have "rt_sent rt1 = rt_sent rt" by (auto simp: onInsertMessage_def Let_def split: option.splits if_splits prod.splits)
    then show ?thesis using that Cons.prems Offer i by (auto simp: sends_more_def split: prod.splits)
  next
    case (Queue_full b)
    obtain y rt1 where q: "onPreInsertPacketQueueExceeded E dbId b rt = (y, rt1)" by (metis surj_pair)
    then have "sends_more rt rt1"
      by (auto simp: onPreInsertPacketQueueExceeded_def sendErrorMessage_def sendMessage_def sends_more_def split: option.splits if_splits)
    then show ?thesis using that Cons.prems Queue_full q by (auto split: prod.splits)
  qed
  then show ?case using Cons.IH sends_more_trans by blast
qed

lemma noEvent_more: "sends_more rt (noEvent_onFinalizeMessage E ctx rt)"
  by (simp add: noEvent_onFinalizeMessage_def sendMessage_def sends_more_def split: option.split)

lemma finalize_sends_more: "sends_more rt (onFinalizeMessage E dbId rt)"
  by (auto simp: onFinalizeMessage_def noRequest_onFinalizeMessage_def noEvent_onFinalizeMessage_def sendErrorMessage_def sendMessage_def Let_def sends_more_def
      split: option.splits)

lemma rt_sent_contexts: "rt_sent (r\<lparr>rt_contexts := x\<rparr>) = rt_sent r"
  by simp

lemma finalize_request:
  assumes "map_of (rt_contexts rt) dbId = Some ctx" and "mc_message ctx = Some d" and "message_ok (d_msg d)" and "isRequest d" and "mc_serviceNotFoundEnabled ctx" and "mc_destCount ctx = 0"
    and "mc_insertEnabled ctx"
  shows "answered (replyTo_of d) (dm_messageId (d_msg d)) rt (onFinalizeMessage E dbId rt)"
proof -
  let ?rt1 = "sendErrorMessage E FABRICSERVICEUNAVAILABLE d (rt\<lparr>rt_destinationCount := rt_destinationCount rt + mc_destCount ctx\<rparr>)"
  have "noRequest_onFinalizeMessage E ctx (rt\<lparr>rt_destinationCount := rt_destinationCount rt + mc_destCount ctx\<rparr>) = ?rt1"
    using assms(2,4-7) by (simp add: noRequest_onFinalizeMessage_def del: isRequest.simps)
  then have f: "rt_sent (onFinalizeMessage E dbId rt) = rt_sent (if re_testHandlers E then noEvent_onFinalizeMessage E ctx ?rt1 else ?rt1)"
    unfolding onFinalizeMessage_def assms(1) by (simp only: option.case Let_def rt_sent_contexts)
  have "sends_more ?rt1 (noEvent_onFinalizeMessage E ctx ?rt1)" by (rule noEvent_more)
  then have "\<exists>xs. rt_sent (onFinalizeMessage E dbId rt) = rt_sent ?rt1 @ xs" unfolding f by (simp add: sends_more_def)
  moreover have "answered (replyTo_of d) (dm_messageId (d_msg d)) (rt\<lparr>rt_destinationCount := rt_destinationCount rt + mc_destCount ctx\<rparr>) ?rt1"
    by (rule error_sent [OF assms(3)]) simp
  ultimately have "answered (replyTo_of d) (dm_messageId (d_msg d)) (rt\<lparr>rt_destinationCount := rt_destinationCount rt + mc_destCount ctx\<rparr>) (onFinalizeMessage E dbId rt)"
    unfolding sends_more_def [symmetric] by (rule answered_later [rotated])
  then show ?thesis by (simp add: answered_def)
qed

text \<open>A request that was stored and not yet answered.\<close>

lemma offered_request:
  assumes c: "map_of (rt_contexts rt1) dbId = Some ctx" and d: "mc_message ctx = Some d" "message_ok (d_msg d)" "isRequest d"
    and e: "mc_insertEnabled ctx" "mc_destCount ctx = 0" "mc_serviceNotFoundEnabled ctx" and offers: "offer_all E dbId os rt1 = (gs, rt2)"
  shows "(\<exists>g \<in> set gs. g) \<or> answered (replyTo_of d) (dm_messageId (d_msg d)) rt1 (onFinalizeMessage E dbId rt2)"
proof (cases "\<exists>g \<in> set gs. g")
  case False
  obtain ctx2 where x: "map_of (rt_contexts rt2) dbId = Some ctx2" "mc_destCount ctx2 = mc_destCount ctx + int (length (filter (\<lambda>g. g) gs))" "told d ctx ctx2 rt1 rt2"
    using offers_request [OF offers c d(1,2)] by blast
  have n: "filter (\<lambda>g. g) gs = []" using False by (simp add: filter_empty_conv)
  obtain d2 where d2: "mc_message ctx2 = Some d2" "dm_specific (d_msg d2) = dm_specific (d_msg d)" "dm_messageId (d_msg d2) = dm_messageId (d_msg d)" "message_ok (d_msg d2)"
      "mc_insertEnabled ctx2"
    using x(3) d(1,2) e(1) by (auto simp: told_def later_def)
  have v: "isRequest d2" "replyTo_of d2 = replyTo_of d" using specific_views [OF d2(2)] d(3) by blast+
  show ?thesis
  proof (cases "mc_serviceNotFoundEnabled ctx2")
    case True
    have "answered (replyTo_of d2) (dm_messageId (d_msg d2)) rt2 (onFinalizeMessage E dbId rt2)"
      using x(2) e(2) n by (intro finalize_request [OF x(1) d2(1,4) v(1) True _ d2(5)]) simp
    then show ?thesis using later_answered [of rt1 rt2] x(3) v(2) d2(3) by (simp add: told_def)
  next
    case False
    then have "answered (replyTo_of d) (dm_messageId (d_msg d)) rt1 rt2" using x(3) e(3) by (simp add: told_def)
    then show ?thesis using answered_later [OF _ finalize_sends_more] by blast
  qed
qed blast

text \<open>C17. A client that sends a request with a valid topic for the reply, on a topic that is neither one of the broker's own nor handled by a registered handler, and in multi-tenant mode
  without naming destination tenants, is never left without a reaction of the broker: either some client or bridge gets the
  request, or an error response with the id of the request has been sent to the reply topic when the message is finished: because no service could be found, because nobody got the
  request although one was found, or because the queue of the receiver was full. A request with an invalid reply topic, or for a tenant that its sender may not reach, is dropped without a word; both are excluded.\<close>

theorem request_is_delivered_or_refused:
  assumes payload: "fromBytes payload = Some d" "isRequest d" "\<not> bad_reply (replyTo_of d)" and tenants: "ss_multiTenant (re_settings E) \<longrightarrow> dm_tenantGuids (d_msg d) = []"
    and topic: "\<not> prefixed ''/mcafee/service/dxl/'' topic" "\<not> prefixed ''/mcafee/event/dxl/'' topic" "H topic = None"
    and store: "onStoreMessage E H dbId B certs chain (new_context sourceId canonicalId False flags topic payload) rt = (rt1, out)"
    and offers: "offer_all E dbId os rt1 = (gs, rt2)"
  shows "(\<exists>g \<in> set gs. g) \<or> answered (replyTo_of d) (dm_messageId (d_msg d)) rt (onFinalizeMessage E dbId rt2)"
proof -
  let ?ctx = "new_context sourceId canonicalId False flags topic payload"
  obtain ctx' rt' where s: "store_context E H B certs chain ?ctx rt = (ctx', rt', out)" and rt1: "rt1 = rt'\<lparr>rt_contexts := AList.update dbId ctx' (rt_contexts rt')\<rparr>"
    using store by (auto simp: onStoreMessage_def split: prod.splits)
  have n: "mc_message ?ctx = Some d" "\<not> mc_isSourceBridge ?ctx" "mc_insertEnabled ?ctx" "mc_topic ?ctx = topic" "mc_destCount ?ctx = 0" "mc_serviceNotFoundEnabled ?ctx"
    using payload(1) by (simp_all add: new_context_def)
  have ok: "message_ok (d_msg d)" using fromBytes_ok [OF payload(1)] by simp
  have c: "map_of (rt_contexts rt1) dbId = Some ctx'" by (simp add: rt1 AList_look)
  have tp: "\<not> isDxlBrokerServiceRequest ?ctx" "\<not> prefixed ''/mcafee/event/dxl/'' (mc_topic ?ctx)" "H (mc_topic ?ctx) = None" using topic n(4) by (simp_all add: isDxlBrokerServiceRequest_def)
  note sr = store_request [OF s n(1) payload(2) ok n(2) payload(3) n(3) mp [OF tenants] tp, unfolded n(5)]
  consider (told) "answered (replyTo_of d) (dm_messageId (d_msg d)) rt rt'"
    | (stored) d' where "rt_sent rt' = rt_sent rt" "mc_insertEnabled ctx'" "mc_destCount ctx' = 0" "mc_serviceNotFoundEnabled ctx'" "mc_message ctx' = Some d'"
        "message_ok (d_msg d')" "isRequest d'" "replyTo_of d' = replyTo_of d" "dm_messageId (d_msg d') = dm_messageId (d_msg d)"
    using sr n(6) by blast
  then show ?thesis
  proof cases
    case told
    then have "answered (replyTo_of d) (dm_messageId (d_msg d)) rt rt1" by (simp add: answered_def rt1)
    then have "answered (replyTo_of d) (dm_messageId (d_msg d)) rt (onFinalizeMessage E dbId rt2)"
      by (rule answered_later [OF answered_later [OF _ offers_send_more [OF offers]] finalize_sends_more])
    then show ?thesis ..
  next
    case (stored d')
    have "sends_more rt rt1" using stored(1) by (simp add: rt1 sends_more_same)
    then have "answered (replyTo_of d') (dm_messageId (d_msg d')) rt1 (onFinalizeMessage E dbId rt2) \<Longrightarrow> answered (replyTo_of d') (dm_messageId (d_msg d')) rt (onFinalizeMessage E dbId rt2)"
      by (rule later_answered)
    then show ?thesis using offered_request [OF c stored(5-7,2-4) offers] unfolding stored(8,9) by blast
  qed
qed

section \<open>Who sent a message\<close>

lemma client_fields_form:
  assumes "setDxlMessageFields E B chain ctx d = (Some go, ctx', d')" and "\<not> mc_isSourceBridge ctx"
  shows "d' = (if ss_multiTenant (re_settings E) then setSourceTenantGuid B (client_source E chain ctx d)
    else if dm_sourceTenantGuid (d_msg d) \<noteq> '''' then setSourceTenantGuid '''' (client_source E chain ctx d) else client_source E chain ctx d)"
  using assms by (auto simp: setDxlMessageFields_def client_source_def Let_def split: if_splits)

lemma getOtherFields_cong: "d_others d' = d_others d \<Longrightarrow> dm_otherFields (d_msg d') = dm_otherFields (d_msg d) \<Longrightarrow> getOtherFields d' = getOtherFields d"
  by (cases "d_others d") (simp_all add: getOtherFields_def Let_def)

lemma client_source_stamp:
  "dm_sourceBrokerGuid (d_msg (client_source E chain ctx d)) = strdup (st_guid (re_settings E))" "dm_sourceClientId (d_msg (client_source E chain ctx d)) = strdup (mc_canonicalSourceId ctx)"
  "dm_sourceClientInstanceId (d_msg (client_source E chain ctx d)) = strdup (mc_sourceId ctx)" "dm_sourceTenantGuid (d_msg (client_source E chain ctx d)) = dm_sourceTenantGuid (d_msg d)"
  "d_othersPending (client_source E chain ctx d)" "d_dirty (client_source E chain ctx d)"
  by (simp_all add: client_source_def setSourceClientInstanceId_def setSourceClientId_def setSourceBrokerGuid_def change_def setOtherField_def Let_def del: insert_field.simps)

lemma client_source_others:
  "d_others (client_source E chain ctx d) = Some (insert_field ''dxl.certs'' (case chain of None \<Rightarrow> '''' | Some c \<Rightarrow> strdup c) (case getOtherFields d of None \<Rightarrow> [] | Some m \<Rightarrow> m))"
proof -
  let ?d = "setSourceClientInstanceId (mc_sourceId ctx) (setSourceClientId (mc_canonicalSourceId ctx) (setSourceBrokerGuid (st_guid (re_settings E)) d))"
  have "getOtherFields ?d = getOtherFields d"
    by (rule getOtherFields_cong) (simp_all add: setSourceClientInstanceId_def setSourceClientId_def setSourceBrokerGuid_def change_def)
  then show ?thesis by (simp add: client_source_def setOtherField_def Let_def del: insert_field.simps)
qed

lemma tenant_stamp:
  "dm_sourceBrokerGuid (d_msg (setSourceTenantGuid B d)) = dm_sourceBrokerGuid (d_msg d)" "dm_sourceClientId (d_msg (setSourceTenantGuid B d)) = dm_sourceClientId (d_msg d)"
  "dm_sourceClientInstanceId (d_msg (setSourceTenantGuid B d)) = dm_sourceClientInstanceId (d_msg d)" "dm_sourceTenantGuid (d_msg (setSourceTenantGuid B d)) = strdup B"
  "d_othersPending (setSourceTenantGuid B d) = d_othersPending d" "d_dirty (setSourceTenantGuid B d)" "d_others (setSourceTenantGuid B d) = d_others d"
  by (simp_all add: setSourceTenantGuid_def change_def)

lemma stored_fields_ok:
  assumes "message_ok (d_msg d)" and "d_others d = None" and "c_string c" and "c_string k"
  shows "fields_ok (insert_field k c (case getOtherFields d of None \<Rightarrow> [] | Some m \<Rightarrow> m))"
proof -
  have "list_all c_string (dm_otherFields (d_msg d))" using assms(1) by (simp add: message_ok_def)
  then have "fields_ok (read_fields (dm_otherFields (d_msg d)) [])" by (rule read_fields_ok) (simp add: fields_ok_def)
  moreover have "fields_ok []" by (simp add: fields_ok_def)
  ultimately have "fields_ok (case getOtherFields d of None \<Rightarrow> [] | Some m \<Rightarrow> m)" using assms(2) by (simp add: getOtherFields_def Let_def)
  then show ?thesis using assms(4,3) by (rule insert_field_ok)
qed

lemma insert_field_nonempty: "insert_field k v m \<noteq> []"
  by auto

lemma certs_field_look:
  "map_of (insert_field k c (case getOtherFields d of None \<Rightarrow> [] | Some m \<Rightarrow> m)) k = Some (case getOtherField k d of Some v \<Rightarrow> v | None \<Rightarrow> c)"
  unfolding insert_field_look getOtherField_def by (simp split: option.split)

text \<open>What becomes of the fields of a stored message. The field with the certificates is inserted and not assigned, so that a value of the client survives, against the comment above that code.\<close>

lemma stamped_message:
  assumes payload: "fromBytes payload = Some d"
    and store: "onStoreMessage E H dbId B certs chain (new_context sourceId canonicalId False flags topic payload) rt = (rt1, Some b)"
  shows "\<exists>d'. fromBytes b = Some d' \<and> dm_sourceBrokerGuid (d_msg d') = strdup (st_guid (re_settings E)) \<and> dm_sourceClientId (d_msg d') = strdup canonicalId \<and>
    dm_sourceClientInstanceId (d_msg d') = strdup sourceId \<and> dm_sourceTenantGuid (d_msg d') = (if ss_multiTenant (re_settings E) then strdup B else '''') \<and>
    getOtherField ''dxl.certs'' d' = Some (case getOtherField ''dxl.certs'' d of Some c \<Rightarrow> c | None \<Rightarrow> case chain of None \<Rightarrow> '''' | Some c \<Rightarrow> strdup c)"
proof -
  let ?ctx = "new_context sourceId canonicalId False flags topic payload" and ?c = "case chain of None \<Rightarrow> '''' | Some c \<Rightarrow> strdup c"
  let ?m = "insert_field ''dxl.certs'' ?c (case getOtherFields d of None \<Rightarrow> [] | Some m \<Rightarrow> m)"
  obtain ctx' rt' where s: "store_context E H B certs chain ?ctx rt = (ctx', rt', Some b)" using store by (auto simp: onStoreMessage_def split: prod.splits)
  have n: "mc_message ?ctx = Some d" "\<not> mc_isSourceBridge ?ctx" "mc_sourceId ?ctx = sourceId" "mc_canonicalSourceId ?ctx = canonicalId" using payload by (simp_all add: new_context_def)
  have ok: "message_ok (d_msg d)" "d_others d = None" using fromBytes_ok [OF payload] by simp_all
  obtain ctx1 d1 where f: "setDxlMessageFields E B chain ?ctx d = (Some True, ctx1, d1)" and h: "store_handlers E H certs (ctx1\<lparr>mc_message := Some d1\<rparr>) rt = (ctx', rt', Some b)"
    using s n(1) by (auto simp: store_context_def Let_def split: if_splits option.splits prod.splits bool.splits)
  have d1: "dm_sourceBrokerGuid (d_msg d1) = strdup (st_guid (re_settings E))" "dm_sourceClientId (d_msg d1) = strdup canonicalId" "dm_sourceClientInstanceId (d_msg d1) = strdup sourceId"
      "dm_sourceTenantGuid (d_msg d1) = (if ss_multiTenant (re_settings E) then strdup B else '''')" "d_othersPending d1" "d_others d1 = Some ?m" "message_ok (d_msg d1)"
    using client_fields_form [OF f n(2)] client_source_keeps(3) [OF ok(1)] setters_ok(4) [OF client_source_keeps(3) [OF ok(1)]]
    by (auto simp: client_source_stamp client_source_others tenant_stamp n(3,4) strdup_def simp del: insert_field.simps split: if_splits)
  obtain d2 where k: "carries d1 d2" and b: "b = fst (toBytes False d2)" using store_handlers_message [OF h] by auto
  have d2: "dm_sourceBrokerGuid (d_msg d2) = strdup (st_guid (re_settings E))" "dm_sourceClientId (d_msg d2) = strdup canonicalId" "dm_sourceClientInstanceId (d_msg d2) = strdup sourceId"
      "dm_sourceTenantGuid (d_msg d2) = (if ss_multiTenant (re_settings E) then strdup B else '''')" "d_othersPending d2" "d_others d2 = Some ?m" "message_ok (d_msg d2)"
    using d1 k by (simp_all add: carries_def del: insert_field.simps)
  have c: "c_string ?c" "c_string ''dxl.certs''" by (simp_all split: option.split)
  let ?d' = "new_dxl (d_msg (onPreToBytes d2))"
  have "fromBytes b = Some ?d'" using fromBytes_toBytes [OF d2(7)] b by simp
  moreover have "getOtherField ''dxl.certs'' ?d' = map_of ?m ''dxl.certs''"
    by (rule field_on_the_wire [OF d2(6,5) stored_fields_ok [OF ok c] insert_field_nonempty])
  moreover have "dm_sourceBrokerGuid (d_msg ?d') = dm_sourceBrokerGuid (d_msg d2)" "dm_sourceClientId (d_msg ?d') = dm_sourceClientId (d_msg d2)"
      "dm_sourceClientInstanceId (d_msg ?d') = dm_sourceClientInstanceId (d_msg d2)" "dm_sourceTenantGuid (d_msg ?d') = dm_sourceTenantGuid (d_msg d2)"
    using onPreToBytes_cases [of d2] by (auto simp: new_dxl_def)
  ultimately show ?thesis using d2(1-4) certs_field_look [of "''dxl.certs''" ?c d] by simp
qed

text \<open>C18. The sender of a message of a client is the connection it came over: the broker, the id of the client, the id of the connection and the tenant that are passed on are those the broker knows,
  whatever the client has written into the message. If the client has not set the field with the certificates, it is passed on with the chain of the connection.\<close>

theorem sender_is_stamped:
  assumes payload: "fromBytes payload = Some d"
    and store: "onStoreMessage E H dbId B certs chain (new_context sourceId canonicalId False flags topic payload) rt = (rt1, Some b)"
  shows "\<exists>d'. fromBytes b = Some d' \<and> dm_sourceBrokerGuid (d_msg d') = strdup (st_guid (re_settings E)) \<and> dm_sourceClientId (d_msg d') = strdup canonicalId \<and>
    dm_sourceClientInstanceId (d_msg d') = strdup sourceId \<and> dm_sourceTenantGuid (d_msg d') = (if ss_multiTenant (re_settings E) then strdup B else '''') \<and>
    (getOtherField ''dxl.certs'' d = None \<longrightarrow> getOtherField ''dxl.certs'' d' = Some (case chain of None \<Rightarrow> '''' | Some c \<Rightarrow> strdup c))"
  using stamped_message [OF assms] by auto

section \<open>Samples\<close>

definition sample_routing_env :: "bool \<Rightarrow> rt_env" where
  "sample_routing_env mt = \<lparr>re_settings = sample_svc_settings\<lparr>ss_multiTenant := mt, ss_tenantGuid := ''ops''\<rparr>, re_instanceGuid = ''i'', re_testMode = False, re_testHandlers = False, re_now = 0,
     re_auth = new_state [] [], re_cache = sample_env, re_uuid = ''u'', re_notFoundPayload = (\<lambda>_. [])\<rparr>"

definition sample_routing :: routing where
  "sample_routing = \<lparr>rt_services = new_service_registry (\<lambda>_. sample_reg ''''), rt_brokers = new_registry sample_env, rt_contexts = [], rt_sent = [],
     rt_destinationCount = 0, rt_publishCount = 0\<rparr>"

definition sample_client :: "string \<Rightarrow> receiver" where
  "sample_client tenant = \<lparr>rv_id = ''r'', rv_canonicalId = ''r'', rv_isBridge = False, rv_flags = 0, rv_tenant = tenant, rv_certs = []\<rparr>"

text \<open>An event whose sender has given a tenant and certificates that are not its own, and a request.\<close>

definition sample_event :: dxl_message_t where
  "sample_event = (createDxlMessage 2 ''x'' ''x'' ''m'')\<lparr>dm_sourceTenantGuid := ''b'', dm_otherFields := [''dxl.certs'', ''forged'']\<rparr>"

definition sample_request :: dxl_message_t where
  "sample_request = (createDxlMessage 0 ''x'' ''x'' ''m'')\<lparr>dm_specific := Request_data ''/reply'' ''''\<rparr>"

lemma sample_messages_ok: "message_ok sample_event" "message_ok sample_request"
  by (simp_all add: message_ok_def sample_event_def sample_request_def createDxlMessage_def strdup_def)

text \<open>The same event without the field for the certificates, so that only its tenant is not its own.\<close>

definition sample_unsigned :: dxl_message_t where
  "sample_unsigned = sample_event\<lparr>dm_otherFields := []\<rparr>"

lemma sample_unsigned_ok: "message_ok sample_unsigned"
  by (simp add: message_ok_def sample_unsigned_def sample_event_def createDxlMessage_def strdup_def)

lemma sample_read: "message_ok m \<Longrightarrow> fromBytes (dxlMessageToBytes False m) = Some (new_dxl m)"
  by (simp add: fromBytes_def createDxlMessageFromBytes_def read_written)

lemmas sample_store_simps = onStoreMessage_def store_context_def new_context_def setDxlMessageFields_def store_handlers_def lookup_onStoreMessage_def
  handleErrorResponse_def fire_topic_handler_def sample_routing_env_def sample_routing_def new_service_registry_def sample_svc_settings_def
  toBytes_def Let_def isSourceOps_def setSourceTenantGuid_def setOtherField_def setSourceClientId_def setSourceClientInstanceId_def setSourceBrokerGuid_def
  change_def new_dxl_def createDxlMessage_def onPreToBytes_def getOtherFields_def prefixed_def

lemma sample_stored:
  "\<exists>rt1 b ctx d. onStoreMessage (sample_routing_env mt) (\<lambda>_. None) 7 ''a'' [] None (new_context ''s'' ''c'' False 0 ''/t'' (dxlMessageToBytes False sample_event)) sample_routing =
     (rt1, Some b) \<and> rt_contexts rt1 = [(7, ctx)] \<and> mc_insertEnabled ctx \<and> mc_message ctx = Some d \<and> mc_flags ctx = 0 \<and>
     dm_brokerGuids (d_msg d) = [] \<and> dm_clientGuids (d_msg d) = [] \<and> dm_tenantGuids (d_msg d) = [] \<and> dm_sourceTenantGuid (d_msg d) = (if mt then ''a'' else '''') \<and> isEvent d"
  using sample_read [OF sample_messages_ok(1)] by (simp add: sample_event_def sample_store_simps strdup_def)

lemma sample_open: "auth_onInsertMessage (sample_routing_env mt) ctx (sample_client t)"
  by (simp add: auth_onInsertMessage_def sample_client_def sample_routing_env_def isAuthorizedToSubscribe_certs_def isAuthorizedToSubscribe_key_def new_state_def isAuthorized_def authorized_for_def hasWildcards_def)

lemma sample_offers:
  assumes "rt_contexts rt1 = [(7, ctx)]" "mc_insertEnabled ctx" "mc_message ctx = Some d" "mc_flags ctx = 0" "dm_brokerGuids (d_msg d) = []" "dm_clientGuids (d_msg d) = []"
    "dm_tenantGuids (d_msg d) = []" "dm_sourceTenantGuid (d_msg d) = ''a''"
  shows "fst (offer_all (sample_routing_env True) 7 [Offer (sample_client ''a''), Offer (sample_client ''b'')] rt1) = [True, False]"
proof -
  have r: "routing_onInsertMessage (sample_routing_env True) c (sample_client t) R = (t = ''a'', False, None, c, R)"
    if "mc_message c = Some d" "mc_flags c = 0" "t \<in> {''a'', ''b''}" for c t R
    using that assms(5-8)
    by (auto simp: routing_onInsertMessage_def sample_client_def sample_routing_env_def sample_svc_settings_def not_listed_def onInsertMultiTenantMessage_def isSourceOps_def Let_def)
  show ?thesis using assms(1-4) r sample_open by (simp add: onInsertMessage_def Let_def)
qed

theorem sender_is_stamped_witness:
  "\<exists>rt1 b d'. onStoreMessage (sample_routing_env True) (\<lambda>_. None) 7 ''a'' [] (Some ''chain'') (new_context ''s'' ''c'' False 0 ''/t'' (dxlMessageToBytes False sample_unsigned)) sample_routing =
     (rt1, Some b) \<and> fromBytes b = Some d' \<and> dm_sourceClientId (d_msg d') = ''c'' \<and> dm_sourceTenantGuid (d_msg d') = ''a'' \<and> getOtherField ''dxl.certs'' d' = Some ''chain''"
proof -
  note r = sample_read [OF sample_unsigned_ok]
  obtain rt1 b where s: "onStoreMessage (sample_routing_env True) (\<lambda>_. None) 7 ''a'' [] (Some ''chain'')
      (new_context ''s'' ''c'' False 0 ''/t'' (dxlMessageToBytes False sample_unsigned)) sample_routing = (rt1, Some b)"
    using r by (simp add: sample_unsigned_def sample_event_def sample_store_simps)
  have "getOtherField ''dxl.certs'' (new_dxl sample_unsigned) = None"
    by (simp add: getOtherField_def getOtherFields_def new_dxl_def sample_unsigned_def sample_event_def)
  then show ?thesis using sender_is_stamped [OF r s] s by (auto simp: strdup_def sample_routing_env_def)
qed

theorem tenants_are_isolated_witness:
  "\<exists>rt1 b rt2. onStoreMessage (sample_routing_env True) (\<lambda>_. None) 7 ''a'' [] None (new_context ''s'' ''c'' False 0 ''/t'' (dxlMessageToBytes False sample_event)) sample_routing =
     (rt1, Some b) \<and> offer_all (sample_routing_env True) 7 [Offer (sample_client ''a''), Offer (sample_client ''b'')] rt1 = ([True, False], rt2) \<and>
     (\<exists>d. fromBytes b = Some d \<and> of_tenant ''ops'' ''a'' d)"
proof -
  let ?os = "[Offer (sample_client ''a''), Offer (sample_client ''b'')]"
  obtain rt1 b ctx d where s: "onStoreMessage (sample_routing_env True) (\<lambda>_. None) 7 ''a'' [] None
        (new_context ''s'' ''c'' False 0 ''/t'' (dxlMessageToBytes False sample_event)) sample_routing = (rt1, Some b)"
      and c: "rt_contexts rt1 = [(7, ctx)]" "mc_insertEnabled ctx" "mc_message ctx = Some d" "mc_flags ctx = 0" "dm_brokerGuids (d_msg d) = []" "dm_clientGuids (d_msg d) = []"
        "dm_tenantGuids (d_msg d) = []" "dm_sourceTenantGuid (d_msg d) = ''a''"
    using sample_stored [of True] by auto
  obtain rt2 where o: "offer_all (sample_routing_env True) 7 ?os rt1 = ([True, False], rt2)" using sample_offers [OF c] by (metis prod.collapse)
  have e: "ss_multiTenant (re_settings (sample_routing_env True))" "ss_tenantGuid (re_settings (sample_routing_env True)) = ''ops''" "''a'' \<noteq> ''ops''" "c_string ''a''"
      "(0 :: 8 word) AND DXL_FLAG_OPS = 0" by (simp_all add: sample_routing_env_def)
  have "\<exists>d. fromBytes b = Some d \<and> of_tenant ''ops'' ''a'' d"
    using tenants_are_isolated [OF e refl _ s o, of 0 "sample_client ''a''"] by simp
  then show ?thesis using s o by blast
qed

theorem request_is_delivered_or_refused_witness:
  "\<exists>rt1 out. onStoreMessage (sample_routing_env False) (\<lambda>_. None) 7 ''a'' [] None (new_context ''s'' ''c'' False 0 ''/t'' (dxlMessageToBytes False sample_request)) sample_routing = (rt1, out) \<and>
     answered ''/reply'' ''m'' sample_routing (onFinalizeMessage (sample_routing_env False) 7 rt1)"
proof -
  obtain rt1 out where s: "onStoreMessage (sample_routing_env False) (\<lambda>_. None) 7 ''a'' [] None
      (new_context ''s'' ''c'' False 0 ''/t'' (dxlMessageToBytes False sample_request)) sample_routing = (rt1, out)" by (metis surj_pair)
  have d: "isRequest (new_dxl sample_request)" "replyTo_of (new_dxl sample_request) = ''/reply''" "dm_messageId (d_msg (new_dxl sample_request)) = ''m''"
    by (simp_all add: new_dxl_def sample_request_def replyTo_of_def createDxlMessage_def strdup_def)
  have b: "\<not> bad_reply ''/reply''" and p: "\<not> prefixed ''/mcafee/service/dxl/'' ''/t''" "\<not> prefixed ''/mcafee/event/dxl/'' ''/t''" by (simp_all add: bad_reply_def prefixed_def)
  have t: "ss_multiTenant (re_settings (sample_routing_env False)) \<longrightarrow> dm_tenantGuids (d_msg (new_dxl sample_request)) = []" by (simp add: sample_routing_env_def)
  have "answered (replyTo_of (new_dxl sample_request)) (dm_messageId (d_msg (new_dxl sample_request))) sample_routing (onFinalizeMessage (sample_routing_env False) 7 rt1)"
    using request_is_delivered_or_refused [OF sample_read [OF sample_messages_ok(2)] d(1) _ t p refl s, of "[]" "[]" rt1] b d(2) by simp
  then show ?thesis using s d(2,3) by auto
qed

end
