(* ===== verification/Spec2Isabelle.thy ===== *)
theory Spec2Isabelle
  imports Main_Loop Clients Topic_Sync Service_Index Routing
begin

text \<open>
  A verification development of the OpenDXL broker: an MQTT broker in C (a fork of mosquitto,
  src/mqtt-core) with a broker library in C++ (src/brokerlib) that decides what a client may do and
  how messages travel through a fabric of brokers. All paths below are under src/src.

  \<^bold>\<open>How the parts work together.\<close> One thread runs the main loop. An iteration writes the messages that
  are queued for clients, now and then does the maintenance, reads what has arrived, accepts new
  connections and runs the tasks that other threads have put into the work queue. Reading a packet
  ends in a handler; a handler changes the tables of clients, the subscription tree, the queues of
  messages, and sends packets by queueing them on a connection. A publication is put into the message
  store once and into the queue of every client with a matching subscription by reference. The broker
  library is asked before a packet takes effect and is told of connections, subscriptions and messages.

  \<^bold>\<open>The theories,\<close> from the bottom up; each opens with what it holds and which files it models.

  \<^item> \<open>Prelude\<close>: integer types, C strings, return codes, shared lemmas. \<open>Wire\<close>: the packet codec
    (lib/util_mosq.c, lib/net_mosq.c). \<open>Topics\<close>: checks, matcher and tokeniser of topics
    (lib/util_mosq.c, src/subs.c), against the matching rule on levels.
  \<^item> \<open>Broker_State\<close>: the structs of the core as records and the whole database as the record
    \<open>broker\<close>. A pointer to a context or to a stored message is a number; \<open>ctxs\<close> and \<open>msg_store\<close> give
    what it points to, the slots and lists of the code hold the numbers. Calls to the broker library
    are appended to a log; its answers are the fields of \<open>dxl_hooks\<close>, an argument of the model.
  \<^item> \<open>Net\<close>, \<open>Send\<close>: queueing and writing packets, behind the interface \<open>byte_channel\<close>; every packet
    that is sent.
  \<^item> \<open>Queue\<close>, \<open>Queue_Machine\<close>: the queue of a client (src/database.c), its operations one by one and
    as the step relation \<open>queue_step\<close> with its reachable states.
  \<^item> \<open>Subs\<close>, \<open>Subs_Tree\<close>, \<open>Subs_Table\<close>, \<open>Subs_Session\<close>: the subscription tree (src/subs.c), what it
    stands for, the interface \<open>subscription_table\<close> that the tree implements, and what the rest of the
    broker sees of it.
  \<^item> \<open>Database\<close>, \<open>Handlers\<close>: the rest of src/database.c, src/context.c, and the packet handlers
    (lib/read_handle_shared.c, src/read_handle.c, src/read_handle_server.c, src/read_handle_client.c).
    \<open>Database_Inv\<close>, \<open>Context_Inv\<close>, \<open>Handlers_Inv\<close>: the invariant \<open>broker_ok\<close> of the database and that
    every operation keeps it. \<open>Delivery\<close>: what a publication leaves alone (interface
    \<open>delivery_frame\<close>). \<open>Clients\<close>: canonical ids as a multiset (interface \<open>id_counter\<close>), refused
    connections, the sweep of the store.
  \<^item> \<open>Net_Read\<close>: reassembling packets from the pieces a connection delivers.
  \<^item> \<open>Bridge\<close>, \<open>Loop\<close>, \<open>Runners\<close>, \<open>Loop_Inv\<close>, \<open>Main_Loop\<close>: bridges (src/bridge.c), the parts of an
    iteration (src/loop.c, src/net.c), the tasks of the work queue (src/dxl), the invariant over them,
    and whole runs of the loop.
  \<^item> \<open>Core_Util\<close>, \<open>Authorization\<close>, \<open>Fabric_Config\<close>: from the broker library the wildcard forms of a
    topic, the authorization policy, and the configuration of the fabric with the bridges derived
    from it.
  \<^item> \<open>Fabric\<close>, \<open>Topic_Cache\<close>, \<open>Broker_Registry\<close>: what a broker knows of the others
    (brokerlib/brokerregistry): their states, connections and topics, the searches over the graph they
    form, the routes that are kept, and the cache of the topics behind a connection with its interface
    \<open>subscriber_cache\<close>. \<open>Topic_Sync\<close>: the events that keep the topics of the brokers in step
    (CoreInterface.cpp and the two handlers under message/handler), and the check of a new bridge.
  \<^item> \<open>Services\<close>, \<open>Service_Index\<close>: the service registry (brokerlib/serviceregistry): registrations,
    service zones and the choice of the service for a request; the indexes, and the registry as a map.
  \<^item> \<open>Dxl_Message\<close>: the messages of the fabric (brokerlib/message), their wire format over sequences of
    msgpack objects, and the object the broker library handles them with. \<open>Routing\<close>: what happens to a
    message when it is stored, offered to receivers and finished (brokerlib/core and the handlers that every
    message passes), over the registries of brokers and services.

  \<^bold>\<open>What is shown.\<close> Every iteration of the main loop returns and keeps the invariant, whatever clocks,
  sockets, clients and library do, except for one walk over a set that a handler may shorten, which is
  modelled as what it is, a read of freed memory. A publication reaches exactly the matching
  subscriptions; the queue of a client is written in order, is bounded, and loses nothing on a
  reconnection; subscription counts and events are exact; frames survive being cut into pieces;
  received bytes stay inside their buffer; refused connections leave no trace; authorization follows
  the policy; bridges of a fabric have usable addresses and form no cycle.

  For the fabric: in every state of the broker registry a route leads to its target without coming back,
  kept routes and the cache of topics answer as a search of the graph would, a new bridge is allowed
  exactly when it closes no cycle, and a broker with the count of changes of another one has its topics,
  as long as only real changes are reported and a state whose last batch arrives has lost none. For the services: the indexes of the registry always agree, the
  registry is a map from ids to registrations, and a request goes to the nearest service that may get it,
  the services of a zone taking turns. A message that was read survives being written and read again.
  Messages of a tenant stay with it and the operator, a request is given to somebody or answered with an error,
  and a message carries the identity of the connection it came over, with its certificates if the client has
  not set that field itself.

  \<^bold>\<open>Loops and bounds.\<close> Recursion follows the data wherever the code walks a list. Where a loop could run
  forever the model is \<open>partial_function (option)\<close> or has fuel: the loops over a packet have its length
  as fuel, which is enough as each round consumes a byte; the writer of a queue is partial and shown to
  return under its hypotheses; the reader of packets is partial and shown to return always. Integers
  that the code computes with are words or have the wrap-around written out (\<open>u32\<close>); counters that only
  count objects in memory are natural numbers. The searches over the fabric recurse on the brokers not
  visited yet. Unordered sets and maps of the C++ code are lists without repetition, in the order of
  insertion; no theorem rests on that order.

  \<^bold>\<open>Not modelled.\<close> The text of the configuration file, logging, memory management other than the
  validity of contexts and stored messages, start and stop of the process, signals; OpenSSL,
  libwebsockets, msgpack and JSON, which are libraries the code calls, so the payloads of the broker
  library are taken as parsed; the handlers of single topics that answer queries, which are an argument; the
  metrics of tenants, of which only the reports appear; the threads of the broker library. Memory is never exhausted, so the branches for a failed allocation are absent.
\<close>

end
